(* ===== verification/Prelude.thy ===== *)
theory Prelude
  imports Main "HOL-Library.Word"
begin

text \<open>
  Shared vocabulary of the development: the Go integer types, results that may be errors,
  handlers that may panic, and the generic facts on lists, words and finite sets that the
  component theories use.

  \<^item> \<open>uint16\<close>, \<open>uint32\<close>, \<open>uint64\<close> are machine words, so addition wraps as in Go.  A Go
    \<open>int\<close> that only counts elements is a \<open>nat\<close>; a \<open>time.Duration\<close> is an \<open>int\<close> kept in the
    range of \<open>int64\<close> by \<open>wrap64\<close>.
  \<^item> A function that returns \<open>(T, error)\<close> returns \<open>ioerror + T\<close>; \<open>bindE\<close> is the chain of
    \<open>if err != nil { return err }\<close>.
  \<^item> A handler that can index out of range returns \<open>'s outcome\<close>: \<open>Done s\<close> or \<open>Panic s\<close> with
    the state reached when the panic was raised, which is the state the runtime resumes with.
\<close>

named_theorems wire_simps \<open>reading back what a writer of the wire package wrote\<close>

type_synonym byte = "8 word"
type_synonym bytes = "byte list"
type_synonym uint16 = "16 word"
type_synonym uint32 = "32 word"
type_synonym uint64 = "64 word"
type_synonym duration = int

definition wrap64 :: "int \<Rightarrow> int" where
  "wrap64 x = (x + 2 ^ 63) mod 2 ^ 64 - 2 ^ 63"

lemma wrap64_id: "- (2 ^ 63) \<le> x \<Longrightarrow> x < 2 ^ 63 \<Longrightarrow> wrap64 x = x"
  by (simp add: wrap64_def)

definition millisecond :: duration where
  "millisecond = 1000000"

definition second :: duration where
  "second = 1000000000"

subsection \<open>Errors and panics as values\<close>

datatype ioerror =
    EOF
  | ErrUnexpectedEOF
  | HostTooLong
  | Wrapped string ioerror

definition bindE :: "'e + 'a \<Rightarrow> ('a \<Rightarrow> 'e + 'b) \<Rightarrow> 'e + 'b" where
  "bindE m f = (case m of Inl e \<Rightarrow> Inl e | Inr x \<Rightarrow> f x)"

lemma bindE_simps [simp]:
  "bindE (Inl e) f = Inl e"
  "bindE (Inr x) f = f x"
  by (simp_all add: bindE_def)

lemma bindE_Inr_iff: "bindE m f = Inr y \<longleftrightarrow> (\<exists>x. m = Inr x \<and> f x = Inr y)"
  by (cases m) auto

definition mapErr :: "('e \<Rightarrow> 'f) \<Rightarrow> 'e + 'a \<Rightarrow> 'f + 'a" where
  "mapErr g m = (case m of Inl e \<Rightarrow> Inl (g e) | Inr x \<Rightarrow> Inr x)"

lemma mapErr_simps [simp]:
  "mapErr g (Inl e) = Inl (g e)"
  "mapErr g (Inr x) = Inr x"
  by (simp_all add: mapErr_def)

datatype 's outcome = Done 's | Panic 's

fun bindO :: "'s outcome \<Rightarrow> ('s \<Rightarrow> 's outcome) \<Rightarrow> 's outcome" where
  "bindO (Done s) f = f s"
| "bindO (Panic s) f = Panic s"

fun final :: "'s outcome \<Rightarrow> 's" where
  "final (Done s) = s"
| "final (Panic s) = s"

subsection \<open>Words\<close>

lemma word_less_add_one: "(x :: 'a::len word) < y \<Longrightarrow> x < x + 1"
proof -
  assume "x < y"
  then have "unat x + 1 < 2 ^ LENGTH('a)"
    by (metis Suc_eq_plus1 less_trans_Suc unsigned_less word_less_nat_alt)
  then show ?thesis
    by (simp add: word_less_nat_alt unat_word_ariths)
qed

lemma unat_add_one: "(x :: 'a::len word) \<noteq> - 1 \<Longrightarrow> unat (x + 1) = unat x + 1"
  by (metis Suc_eq_plus1 add.commute unatSuc add_eq_0_iff)

lemma less_add_one_word: "(x :: 'a::len word) \<noteq> - 1 \<Longrightarrow> x < x + 1"
  by (simp add: word_less_nat_alt unat_add_one)

lemma unat_bound64: "unat (x :: uint64) < 2 ^ 64"
proof -
  have "unat x < 2 ^ LENGTH(64)" by (rule unsigned_less)
  then show ?thesis by simp
qed

lemma unat_max64: "unat (- 1 :: uint64) = 2 ^ 64 - 1"
  by (simp add: unsigned_minus_1_eq_mask mask_eq_exp_minus_1)

lemma unat_of_nat64: "n < 2 ^ 64 \<Longrightarrow> unat (word_of_nat n :: uint64) = n"
  by (simp add: unat_of_nat take_bit_nat_eq_self)

subsection \<open>Finite sets and majorities\<close>

lemma card_overlap:
  assumes "finite U" "A \<subseteq> U" "B \<subseteq> U" "card U < card A + card B"
  shows "A \<inter> B \<noteq> {}"
proof
  assume "A \<inter> B = {}"
  with assms(1-3) have "card (A \<union> B) = card A + card B"
    by (meson card_Un_disjoint finite_subset)
  moreover have "card (A \<union> B) \<le> card U"
    using assms(1-3) by (simp add: card_mono)
  ultimately show False using assms(4) by simp
qed

end
