(* ===== verification/Wire.thy ===== *)
theory Wire
  imports Prelude
begin

text \<open>
  The package \<open>pkg/wire\<close>: little-endian integers and length-prefixed byte strings.  The writer
  is a \<open>bytes.Buffer\<close>, whose \<open>Write\<close> never fails, so a writer takes the bytes written so far
  and returns the longer buffer.  The reader is a \<open>bytes.Reader\<close>: what is left to read is a
  byte list, and a read returns the value and the rest.  \<open>binary.Read\<close> and \<open>io.ReadFull\<close>
  report \<open>EOF\<close> when nothing is left and \<open>ErrUnexpectedEOF\<close> when too little is left.

  The locale \<open>wire_codec\<close> is the contract every writer/reader pair of the repository meets;
  its lemmas give round trips, unambiguity and the round trip of a counted list.
\<close>

fun le_put :: "nat \<Rightarrow> nat \<Rightarrow> bytes" where
  "le_put 0 v = []"
| "le_put (Suc n) v = word_of_nat (v mod 256) # le_put n (v div 256)"

fun le_get :: "bytes \<Rightarrow> nat" where
  "le_get [] = 0"
| "le_get (b # bs) = unat b + 256 * le_get bs"

definition readFull :: "nat \<Rightarrow> bytes \<Rightarrow> ioerror + bytes \<times> bytes" where
  "readFull n r =
     (if n \<le> length r then Inr (take n r, drop n r)
      else if r = [] then Inl EOF else Inl ErrUnexpectedEOF)"

definition WriteUint16 :: "bytes \<Rightarrow> uint16 \<Rightarrow> ioerror + bytes" where
  "WriteUint16 w v = Inr (w @ le_put 2 (unat v))"

definition ReadUint16 :: "bytes \<Rightarrow> ioerror + uint16 \<times> bytes" where
  "ReadUint16 r = bindE (readFull 2 r) (\<lambda>(b, r'). Inr (word_of_nat (le_get b), r'))"

definition WriteUint32 :: "bytes \<Rightarrow> uint32 \<Rightarrow> ioerror + bytes" where
  "WriteUint32 w v = Inr (w @ le_put 4 (unat v))"

definition ReadUint32 :: "bytes \<Rightarrow> ioerror + uint32 \<times> bytes" where
  "ReadUint32 r = bindE (readFull 4 r) (\<lambda>(b, r'). Inr (word_of_nat (le_get b), r'))"

definition WriteUint64 :: "bytes \<Rightarrow> uint64 \<Rightarrow> ioerror + bytes" where
  "WriteUint64 w v = Inr (w @ le_put 8 (unat v))"

definition ReadUint64 :: "bytes \<Rightarrow> ioerror + uint64 \<times> bytes" where
  "ReadUint64 r = bindE (readFull 8 r) (\<lambda>(b, r'). Inr (word_of_nat (le_get b), r'))"

definition WriteBytes :: "bytes \<Rightarrow> bytes \<Rightarrow> ioerror + bytes" where
  "WriteBytes w b =
     bindE (WriteUint32 w (word_of_nat (length b)))
       (\<lambda>w'. if length b = 0 then Inr w' else Inr (w' @ b))"

definition ReadBytes :: "bytes \<Rightarrow> ioerror + bytes \<times> bytes" where
  "ReadBytes r =
     bindE (ReadUint32 r) (\<lambda>(n, r').
       if n = 0 then Inr ([], r')
       else mapErr (Wrapped ''ReadBytes: '') (readFull (unat n) r'))"

text \<open>Go strings are byte strings: \<open>[]byte(s)\<close> and \<open>string(b)\<close> do not change the bytes.\<close>

definition str_bytes :: "string \<Rightarrow> bytes" where
  "str_bytes s = map (\<lambda>c. word_of_nat (of_char c)) s"

definition bytes_str :: "bytes \<Rightarrow> string" where
  "bytes_str b = map (\<lambda>x. char_of (unat x)) b"

definition WriteString :: "bytes \<Rightarrow> string \<Rightarrow> ioerror + bytes" where
  "WriteString w s = WriteBytes w (str_bytes s)"

definition ReadString :: "bytes \<Rightarrow> ioerror + string \<times> bytes" where
  "ReadString r = bindE (ReadBytes r) (\<lambda>(b, r'). Inr (bytes_str b, r'))"

definition WriteByte :: "bytes \<Rightarrow> byte \<Rightarrow> bytes" where
  "WriteByte w b = w @ [b]"

fun ReadByte :: "bytes \<Rightarrow> ioerror + byte \<times> bytes" where
  "ReadByte [] = Inl EOF"
| "ReadByte (b # r) = Inr (b, r)"

text \<open>The loops that write every element of a slice and that read a counted number back.\<close>

fun writeAll :: "(bytes \<Rightarrow> 'a \<Rightarrow> ioerror + bytes) \<Rightarrow> bytes \<Rightarrow> 'a list \<Rightarrow> ioerror + bytes" where
  "writeAll wr w [] = Inr w"
| "writeAll wr w (x # xs) = bindE (wr w x) (\<lambda>w'. writeAll wr w' xs)"

fun readN :: "(bytes \<Rightarrow> ioerror + 'a \<times> bytes) \<Rightarrow> nat \<Rightarrow> bytes \<Rightarrow> ioerror + 'a list \<times> bytes" where
  "readN rd 0 r = Inr ([], r)"
| "readN rd (Suc n) r =
     bindE (rd r) (\<lambda>(x, r'). bindE (readN rd n r') (\<lambda>(xs, r''). Inr (x # xs, r'')))"

subsection \<open>Little-endian integers\<close>

lemma length_le_put [simp]: "length (le_put n v) = n"
  by (induction n arbitrary: v) simp_all

lemma le_get_put: "le_get (le_put n v) = v mod 256 ^ n"
proof (induction n arbitrary: v)
  case 0
  then show ?case by simp
next
  case (Suc n)
  have "unat (word_of_nat (v mod 256) :: byte) = v mod 256"
    by (simp add: unat_of_nat take_bit_eq_mod)
  with Suc show ?case
    by (simp add: mod_mult2_eq)
qed

lemma le_get_put_word:
  assumes "(256 :: nat) ^ n = 2 ^ LENGTH('a)"
  shows "(word_of_nat (le_get (le_put n (unat (v :: 'a::len word)))) :: 'a word) = v"
proof -
  have "unat v mod 256 ^ n = unat v"
    using assms by (metis mod_less unsigned_less)
  then show ?thesis
    by (simp add: le_get_put)
qed

lemma readFull_append [simp]: "length b = n \<Longrightarrow> readFull n (b @ r) = Inr (b, r)"
  by (auto simp: readFull_def)

lemma bytes_str_bytes [simp]: "bytes_str (str_bytes s) = s"
proof -
  have "unat (word_of_nat (of_char c) :: byte) = of_char c" for c :: char
    by (simp add: unat_of_nat)
  then show ?thesis
    by (induction s) (simp_all add: bytes_str_def str_bytes_def)
qed

lemma length_str_bytes [simp]: "length (str_bytes s) = length s"
  by (simp add: str_bytes_def)

subsection \<open>The contract of a writer and its reader\<close>

locale wire_codec =
  fixes wr :: "bytes \<Rightarrow> 'a \<Rightarrow> ioerror + bytes"
    and rd :: "bytes \<Rightarrow> ioerror + 'a \<times> bytes"
    and image :: "'a \<Rightarrow> bytes"
    and ok :: "'a \<Rightarrow> bool"
  assumes wr_image: "ok x \<Longrightarrow> wr w x = Inr (w @ image x)"
    and rd_image: "ok x \<Longrightarrow> rd (image x @ r) = Inr (x, r)"
begin

lemma rd_image_nil: "ok x \<Longrightarrow> rd (image x) = Inr (x, [])"
  using rd_image [of x "[]"] by simp

lemma roundtrip: "ok x \<Longrightarrow> bindE (wr [] x) rd = Inr (x, [])"
  by (simp add: wr_image rd_image_nil)

lemma unambiguous:
  assumes "ok x" "ok y" "image x @ r = image y @ s"
  shows "x = y \<and> r = s"
proof -
  have "rd (image x @ r) = Inr (y, s)"
    unfolding assms(3) by (rule rd_image [OF assms(2)])
  then show ?thesis
    by (simp add: rd_image [OF assms(1)])
qed

lemma writeAll_image:
  "list_all ok xs \<Longrightarrow> writeAll wr w xs = Inr (w @ concat (map image xs))"
  by (induction xs arbitrary: w) (simp_all add: wr_image)

lemma readN_image:
  "list_all ok xs \<Longrightarrow> readN rd (length xs) (concat (map image xs) @ r) = Inr (xs, r)"
  by (induction xs) (simp_all add: rd_image)

end

interpretation u16: wire_codec WriteUint16 ReadUint16 "\<lambda>v. le_put 2 (unat v)" "\<lambda>_. True"
  by unfold_locales (simp_all add: WriteUint16_def ReadUint16_def le_get_put_word)

interpretation u32: wire_codec WriteUint32 ReadUint32 "\<lambda>v. le_put 4 (unat v)" "\<lambda>_. True"
  by unfold_locales (simp_all add: WriteUint32_def ReadUint32_def le_get_put_word)

interpretation u64: wire_codec WriteUint64 ReadUint64 "\<lambda>v. le_put 8 (unat v)" "\<lambda>_. True"
  by unfold_locales (simp_all add: WriteUint64_def ReadUint64_def le_get_put_word)

definition bytes_image :: "bytes \<Rightarrow> bytes" where
  "bytes_image b = le_put 4 (length b) @ b"

definition bytes_ok :: "bytes \<Rightarrow> bool" where
  "bytes_ok b \<longleftrightarrow> length b < 2 ^ 32"

lemma unat_of_len32: "length b < 2 ^ 32 \<Longrightarrow> unat (word_of_nat (length b) :: uint32) = length b"
  by (simp add: unat_of_nat take_bit_nat_eq_self)

lemma ReadBytes_image: "bytes_ok b \<Longrightarrow> ReadBytes (bytes_image b @ r) = Inr (b, r)"
proof -
  assume ok: "bytes_ok b"
  let ?n = "word_of_nat (length b) :: uint32"
  have n: "unat ?n = length b"
    using ok by (simp add: bytes_ok_def unat_of_len32)
  have "ReadUint32 (bytes_image b @ r) = Inr (?n, b @ r)"
    using u32.rd_image [of ?n "b @ r"] n by (simp add: bytes_image_def)
  moreover have "?n = 0 \<longleftrightarrow> b = []"
    using n by (metis length_0_conv unat_0 unat_eq_zero)
  ultimately show ?thesis
    using n by (simp add: ReadBytes_def)
qed

interpretation byt: wire_codec WriteBytes ReadBytes bytes_image bytes_ok
proof
  fix w b
  assume "bytes_ok b"
  then show "WriteBytes w b = Inr (w @ bytes_image b)"
    by (simp add: WriteBytes_def WriteUint32_def bytes_image_def bytes_ok_def unat_of_len32)
qed (rule ReadBytes_image)

interpretation str: wire_codec WriteString ReadString "\<lambda>s. bytes_image (str_bytes s)"
  "\<lambda>s. bytes_ok (str_bytes s)"
  by unfold_locales (simp_all add: WriteString_def ReadString_def byt.wr_image byt.rd_image)

text \<open>\<open>boolByte\<close>, of which the Raft and Paxos packages have a copy each.\<close>

definition boolByte :: "bool \<Rightarrow> byte" where
  "boolByte v = (if v then 1 else 0)"

lemma boolByte_back [simp]: "boolByte v \<noteq> 0 \<longleftrightarrow> v" "boolByte v = 0 \<longleftrightarrow> \<not> v"
  by (simp_all add: boolByte_def)

lemmas codec_simps [wire_simps] =
  u16.wr_image [OF TrueI] u16.rd_image [OF TrueI] u16.rd_image_nil [OF TrueI]
  u32.wr_image [OF TrueI] u32.rd_image [OF TrueI] u32.rd_image_nil [OF TrueI]
  u64.wr_image [OF TrueI] u64.rd_image [OF TrueI] u64.rd_image_nil [OF TrueI]
  byt.wr_image byt.rd_image byt.rd_image_nil WriteByte_def

subsection \<open>Counted lists\<close>

text \<open>A list as a 16-bit count and its elements, as HyParView and Plumtree encode theirs.\<close>

definition writeCounted16 ::
  "(bytes \<Rightarrow> 'a \<Rightarrow> ioerror + bytes) \<Rightarrow> bytes \<Rightarrow> 'a list \<Rightarrow> ioerror + bytes" where
  "writeCounted16 wr w xs =
     bindE (WriteUint16 w (word_of_nat (length xs))) (\<lambda>w. writeAll wr w xs)"

definition readCounted16 ::
  "(bytes \<Rightarrow> ioerror + 'a \<times> bytes) \<Rightarrow> bytes \<Rightarrow> ioerror + 'a list \<times> bytes" where
  "readCounted16 rd r = bindE (ReadUint16 r) (\<lambda>(n, r). readN rd (unat n) r)"

definition counted16_image :: "('a \<Rightarrow> bytes) \<Rightarrow> 'a list \<Rightarrow> bytes" where
  "counted16_image img xs = le_put 2 (length xs) @ concat (map img xs)"

definition counted16_ok :: "('a \<Rightarrow> bool) \<Rightarrow> 'a list \<Rightarrow> bool" where
  "counted16_ok ok xs \<longleftrightarrow> length xs < 2 ^ 16 \<and> list_all ok xs"

lemma unat_of_count16: "length xs < 2 ^ 16 \<Longrightarrow> unat (word_of_nat (length xs) :: uint16) = length xs"
  by (simp add: unat_of_nat take_bit_nat_eq_self)

context wire_codec
begin

lemma writeCounted16_image:
  "counted16_ok ok xs \<Longrightarrow> writeCounted16 wr w xs = Inr (w @ counted16_image image xs)"
  by (simp add: writeCounted16_def counted16_ok_def counted16_image_def WriteUint16_def
      unat_of_count16 writeAll_image)

lemma readCounted16_image:
  assumes "counted16_ok ok xs"
  shows "readCounted16 rd (counted16_image image xs @ r) = Inr (xs, r)"
proof -
  let ?n = "word_of_nat (length xs) :: uint16"
  have n: "unat ?n = length xs" using assms by (simp add: counted16_ok_def unat_of_count16)
  have "ReadUint16 (counted16_image image xs @ r) = Inr (?n, concat (map image xs) @ r)"
    using u16.rd_image [of ?n "concat (map image xs) @ r"] n by (simp add: counted16_image_def)
  then show ?thesis
    using assms n by (simp add: readCounted16_def counted16_ok_def readN_image)
qed

lemma counted16: "wire_codec (writeCounted16 wr) (readCounted16 rd) (counted16_image image) (counted16_ok ok)"
  by unfold_locales (simp_all add: writeCounted16_image readCounted16_image)

end

end
