(* ===== verification/Transport_Host.thy ===== *)
theory Transport_Host
  imports Wire "HOL-Library.List_Lexorder" "HOL-Library.Char_ord"
begin

text \<open>
  \<open>pkg/transport/host.go\<close> and \<open>address.go\<close>: the identity of a peer, its printed form, its wire
  encoding, and the two orders the protocols iterate hosts in.  \<open>hostLess\<close> (IP, then port) is
  the order of Raft and Paxos and is the \<open>linorder\<close> instance of the type, so the library's
  \<open>sort\<close> is their \<open>sort.Slice\<close>; HyParView and Plumtree sort by the printed form, which is
  injective, so their order does not depend on Go's map iteration order.
\<close>

datatype Host = Host (Port: int) (IP: string)

definition NewHost :: "int \<Rightarrow> string \<Rightarrow> Host" where
  "NewHost port ip = Host port ip"

text \<open>The zero value \<open>transport.Host{}\<close>.\<close>

definition zeroHost :: Host where
  "zeroHost = Host 0 []"

text \<open>Decimal printing, as \<open>%d\<close> does it.\<close>

fun showNat :: "nat \<Rightarrow> string" where
  "showNat n = (if n < 10 then [char_of (48 + n)]
                else showNat (n div 10) @ [char_of (48 + n mod 10)])"

declare showNat.simps [simp del]

definition showInt :: "int \<Rightarrow> string" where
  "showInt i = (if i < 0 then CHR ''-'' # showNat (nat (- i)) else showNat (nat i))"

definition Host_String :: "Host \<Rightarrow> string" where
  "Host_String h = IP h @ '':'' @ showInt (Port h)"

definition WriteHost :: "bytes \<Rightarrow> Host \<Rightarrow> ioerror + bytes" where
  "WriteHost w h =
     (if length (IP h) > 65535 then Inl HostTooLong
      else bindE (WriteUint16 w (word_of_nat (length (IP h))))
        (\<lambda>w'. WriteUint16 (w' @ str_bytes (IP h)) (word_of_int (Port h))))"

definition ReadHost :: "bytes \<Rightarrow> ioerror + Host \<times> bytes" where
  "ReadHost r =
     bindE (ReadUint16 r) (\<lambda>(hostLen, r1).
     bindE (if hostLen > 0
            then bindE (mapErr (Wrapped ''ReadHost: '') (readFull (unat hostLen) r1))
                   (\<lambda>(buf, r2). Inr (bytes_str buf, r2))
            else Inr ([], r1)) (\<lambda>(ip, r2).
     bindE (ReadUint16 r2) (\<lambda>(port, r3). Inr (Host (uint port) ip, r3))))"

text \<open>
  An \<open>Address\<close> is an interface value: nil, a \<open>Host\<close>, a pointer to a \<open>Host\<close> (maybe nil) or an
  address of another transport backend.
\<close>

datatype Address =
    NilAddress
  | HostAddress Host
  | HostPointer "Host option"
  | OtherAddress string

fun Host_Equal :: "Host \<Rightarrow> Address \<Rightarrow> bool" where
  "Host_Equal h NilAddress = False"
| "Host_Equal h (HostAddress o') = (h = o')"
| "Host_Equal h (HostPointer None) = False"
| "Host_Equal h (HostPointer (Some o')) = (h = o')"
| "Host_Equal h (OtherAddress _) = False"

definition hostLess :: "Host \<Rightarrow> Host \<Rightarrow> bool" where
  "hostLess a b = (if IP a \<noteq> IP b then IP a < IP b else Port a < Port b)"

subsection \<open>The order of Raft and Paxos\<close>

instantiation Host :: linorder
begin

definition less_Host :: "Host \<Rightarrow> Host \<Rightarrow> bool" where
  "less_Host a b = hostLess a b"

definition less_eq_Host :: "Host \<Rightarrow> Host \<Rightarrow> bool" where
  "less_eq_Host a b = (a = b \<or> hostLess a b)"

instance
proof
  fix x y z :: Host
  show "x < y \<longleftrightarrow> x \<le> y \<and> \<not> y \<le> x"
    by (auto simp: less_Host_def less_eq_Host_def hostLess_def split: if_splits)
  show "x \<le> x"
    by (simp add: less_eq_Host_def)
  show "x \<le> y \<Longrightarrow> y \<le> z \<Longrightarrow> x \<le> z"
    by (cases x; cases y; cases z)
      (auto simp: less_eq_Host_def hostLess_def split: if_splits)
  show "x \<le> y \<Longrightarrow> y \<le> x \<Longrightarrow> x = y"
    by (auto simp: less_eq_Host_def hostLess_def split: if_splits)
  show "x \<le> y \<or> y \<le> x"
    by (cases x; cases y) (auto simp: less_eq_Host_def hostLess_def)
qed

end

subsection \<open>The printed form is injective\<close>

definition digit_char :: "char \<Rightarrow> bool" where
  "digit_char c \<longleftrightarrow> of_char c \<in> {48..<58 :: nat}"

lemma of_char_digit: "d < 10 \<Longrightarrow> of_char (char_of (48 + d) :: char) = (48 + d :: nat)"
  by simp

lemma digit_char_neq: "digit_char c \<Longrightarrow> c \<noteq> CHR '':'' \<and> c \<noteq> CHR ''-''"
  by (auto simp: digit_char_def)

lemma digit_char_of: "d < 10 \<Longrightarrow> digit_char (char_of (48 + d :: nat))"
  by (simp add: digit_char_def)

lemma showNat_digits: "list_all digit_char (showNat n)"
proof (induction n rule: showNat.induct)
  case (1 n)
  then show ?case
    by (subst showNat.simps) (simp add: digit_char_of)
qed

lemma showNat_not_Nil: "showNat n \<noteq> []"
  by (subst showNat.simps) simp

fun readDec :: "nat \<Rightarrow> string \<Rightarrow> nat" where
  "readDec acc [] = acc"
| "readDec acc (c # cs) = readDec (10 * acc + (of_char c - 48)) cs"

lemma readDec_append: "readDec acc (xs @ ys) = readDec (readDec acc xs) ys"
  by (induction xs arbitrary: acc) simp_all

lemma readDec_showNat: "readDec 0 (showNat n) = n"
proof (induction n rule: showNat.induct)
  case (1 n)
  then show ?case
    by (subst showNat.simps) (auto simp: readDec_append of_char_digit)
qed

lemma showNat_inj: "showNat m = showNat n \<Longrightarrow> m = n"
  by (metis readDec_showNat)

lemma showNat_no_minus: "showNat n \<noteq> CHR ''-'' # xs"
proof
  assume "showNat n = CHR ''-'' # xs"
  then have "digit_char (CHR ''-'')"
    using showNat_digits [of n] by simp
  then show False by (simp add: digit_char_def)
qed

lemma showInt_inj: "showInt i = showInt j \<Longrightarrow> i = j"
  using showNat_no_minus
  by (auto simp: showInt_def split: if_splits dest!: showNat_inj) (metis)+

lemma showInt_no_colon: "CHR '':'' \<notin> set (showInt i)"
proof -
  have "CHR '':'' \<notin> set (showNat n)" for n
    using showNat_digits [of n] digit_char_neq by (auto simp: list_all_iff)
  then show ?thesis by (simp add: showInt_def)
qed

lemma append_sep_inj:
  assumes "xs @ c # ys = us @ c # vs" "c \<notin> set ys" "c \<notin> set vs"
  shows "xs = us \<and> ys = vs"
proof -
  have eq: "rev ys @ c # rev xs = rev vs @ c # rev us"
    using arg_cong [OF assms(1), of rev] by simp
  have tw: "takeWhile (\<lambda>x. x \<noteq> c) (rev zs @ c # ws) = rev zs" if "c \<notin> set zs" for zs ws
    using that by (subst takeWhile_append2) auto
  have "rev ys = rev vs"
    using tw [OF assms(2)] tw [OF assms(3)] eq by metis
  then show ?thesis using assms(1) by simp
qed

lemma Host_String_inj: "Host_String a = Host_String b \<Longrightarrow> a = b"
proof -
  assume "Host_String a = Host_String b"
  then have "IP a @ CHR '':'' # showInt (Port a) = IP b @ CHR '':'' # showInt (Port b)"
    by (simp add: Host_String_def)
  then have "IP a = IP b \<and> showInt (Port a) = showInt (Port b)"
    by (rule append_sep_inj) (simp_all add: showInt_no_colon)
  then show "a = b"
    by (metis Host.expand showInt_inj)
qed

subsection \<open>The wire encoding of a host\<close>

definition host_ok :: "Host \<Rightarrow> bool" where
  "host_ok h \<longleftrightarrow> length (IP h) < 65536 \<and> 0 \<le> Port h \<and> Port h < 65536"

definition host_image :: "Host \<Rightarrow> bytes" where
  "host_image h = le_put 2 (length (IP h)) @ str_bytes (IP h) @ le_put 2 (nat (Port h))"

lemma unat_of_len16: "n < 65536 \<Longrightarrow> unat (word_of_nat n :: uint16) = n"
  by (simp add: unat_of_nat take_bit_nat_eq_self)

lemma unat_of_port: "0 \<le> p \<Longrightarrow> p < 65536 \<Longrightarrow> unat (word_of_int p :: uint16) = nat p"
  using unat_of_len16 [of "nat p"] by simp

lemma ReadHost_image:
  assumes "host_ok h"
  shows "ReadHost (host_image h @ r) = Inr (h, r)"
proof -
  let ?n = "word_of_nat (length (IP h)) :: uint16" and ?p = "word_of_int (Port h) :: uint16"
  have n: "unat ?n = length (IP h)" and p: "unat ?p = nat (Port h)"
    using assms by (simp_all add: host_ok_def unat_of_len16 unat_of_port)
  have up: "uint ?p = Port h"
    using assms unfolding host_ok_def by (simp add: uint_word_of_int_eq take_bit_int_eq_self)
  have rn: "ReadUint16 (le_put 2 (length (IP h)) @ s) = Inr (?n, s)" for s
    using u16.rd_image [of ?n s] n by simp
  have rp: "ReadUint16 (le_put 2 (nat (Port h)) @ r) = Inr (?p, r)"
    using u16.rd_image [of ?p r] p by simp
  have z: "?n > 0 \<longleftrightarrow> IP h \<noteq> []"
    using n by (metis length_greater_0_conv unat_0 word_less_nat_alt)
  let ?s = "le_put 2 (nat (Port h)) @ r"
  have ip: "(if ?n > 0
        then bindE (mapErr (Wrapped ''ReadHost: '') (readFull (unat ?n) (str_bytes (IP h) @ ?s)))
               (\<lambda>(buf, r2). Inr (bytes_str buf, r2))
        else Inr ([], str_bytes (IP h) @ ?s)) = Inr (IP h, ?s)"
    using z n by (cases "IP h = []") (simp_all add: str_bytes_def [of "[]"])
  show ?thesis
    unfolding ReadHost_def host_image_def append_assoc rn bindE_simps prod.case ip
    by (simp add: rp up)
qed

interpretation host: wire_codec WriteHost ReadHost host_image host_ok
proof
  fix w h
  assume "host_ok h"
  then show "WriteHost w h = Inr (w @ host_image h)"
    by (simp add: WriteHost_def host_ok_def host_image_def WriteUint16_def unat_of_len16
        unat_of_port)
qed (rule ReadHost_image)

end
