(* ===== verification/Proto_Context.thy ===== *)
theory Proto_Context
  imports Transport_Host "HOL-Library.Stream"
begin

text \<open>
  What a protocol sees of the runtime: its \<open>ProtocolContext\<close> (\<open>pkg/protorun/protocol.go\<close>,
  \<open>timer.go\<close>).  A protocol's handlers run one at a time on its event loop and act on the world
  only through the context, so the context is a field of the protocol's state that collects what
  the running handler did, in order, and the timers that can still fire.

  \<^item> An \<open>effect\<close> is one call: a message handed to \<open>Send\<close>, a published notification, a dial, a
    disconnect, an IPC request, an answer to one, or a write to the durable storage.  Errors of \<open>Send\<close> are
    ignored by every protocol of the repository, so a sent message may be lost.
  \<^item> A \<open>timer\<close> is a live handle: \<open>after\<close> and \<open>every\<close> create one under the next runtime id and
    \<open>cancel\<close> removes it.  The dispatcher drops a queued fire of a cancelled handle, so a handle
    is in \<open>pending\<close> exactly while its callback can still run; a one-shot handle leaves it when it
    fires.
  \<^item> \<open>connectErr h\<close> says whether \<open>Connect h\<close> reports an error.
  \<^item> The seeded generator of a protocol is a stream of raw draws; \<open>IntN n\<close> and \<open>Int64N n\<close> take the
    next one modulo \<open>n\<close>.  Every sequence of results below the bounds comes from some stream, so a
    theorem over all streams covers the generator of \<open>math/rand/v2\<close>.
\<close>

datatype ('m, 'n, 'r, 'w) effect =
    Sent 'm Host
  | Published 'n
  | Connects Host
  | Disconnects Host
  | Requested 'r
  | Replied 'r
  | Stored 'w

datatype 'cb timer = Timer (tid: nat) (tdelay: duration) (tperiodic: bool) (tfn: 'cb)

type_synonym TimerHandle = "nat option"

record ('cb, 'm, 'n, 'r, 'w) proto_ctx =
  nextTimerID :: nat
  pending :: "'cb timer list"
  out :: "('m, 'n, 'r, 'w) effect list"
  connectErr :: "Host \<Rightarrow> bool"

definition newCtx :: "(Host \<Rightarrow> bool) \<Rightarrow> ('cb, 'm, 'n, 'r, 'w) proto_ctx" where
  "newCtx ce = \<lparr>nextTimerID = 0, pending = [], out = [], connectErr = ce\<rparr>"

definition emit ::
  "('m, 'n, 'r, 'w) effect \<Rightarrow> ('cb, 'm, 'n, 'r, 'w) proto_ctx \<Rightarrow> ('cb, 'm, 'n, 'r, 'w) proto_ctx" where
  "emit e c = c\<lparr>out := out c @ [e]\<rparr>"

definition after ::
  "duration \<Rightarrow> 'cb \<Rightarrow> ('cb, 'm, 'n, 'r, 'w) proto_ctx \<Rightarrow>
     TimerHandle \<times> ('cb, 'm, 'n, 'r, 'w) proto_ctx" where
  "after d fn c =
     (let i = nextTimerID c + 1
      in (Some i, c\<lparr>nextTimerID := i, pending := pending c @ [Timer i d False fn]\<rparr>))"

definition every ::
  "duration \<Rightarrow> 'cb \<Rightarrow> ('cb, 'm, 'n, 'r, 'w) proto_ctx \<Rightarrow>
     TimerHandle \<times> ('cb, 'm, 'n, 'r, 'w) proto_ctx" where
  "every d fn c =
     (let i = nextTimerID c + 1
      in (Some i, c\<lparr>nextTimerID := i, pending := pending c @ [Timer i d True fn]\<rparr>))"

definition cancel ::
  "TimerHandle \<Rightarrow> ('cb, 'm, 'n, 'r, 'w) proto_ctx \<Rightarrow> ('cb, 'm, 'n, 'r, 'w) proto_ctx" where
  "cancel h c =
     (case h of None \<Rightarrow> c
      | Some i \<Rightarrow> c\<lparr>pending := filter (\<lambda>t. tid t \<noteq> i) (pending c)\<rparr>)"

text \<open>The dispatcher takes a live handle off the mailbox; a periodic one stays armed.\<close>

definition fire ::
  "'cb timer \<Rightarrow> ('cb, 'm, 'n, 'r, 'w) proto_ctx \<Rightarrow> ('cb, 'm, 'n, 'r, 'w) proto_ctx" where
  "fire t c =
     (if tperiodic t then c else c\<lparr>pending := filter (\<lambda>t'. tid t' \<noteq> tid t) (pending c)\<rparr>)"

definition IntN :: "nat \<Rightarrow> nat stream \<Rightarrow> nat \<times> nat stream" where
  "IntN n g = (shd g mod n, stl g)"

lemma IntN_bound: "0 < n \<Longrightarrow> fst (IntN n g) < n"
  by (simp add: IntN_def)

text \<open>
  \<open>seedFromHost\<close>, of which each protocol package has a copy: the 64-bit FNV-1a hash of the
  printed host, and of the same bytes followed by \<open>0x5a\<close>.  The generator \<open>rand.NewPCG\<close> makes of
  the two seeds is a parameter of the \<open>Init\<close> functions that use it.
\<close>

unbundle bit_operations_syntax

definition fnv64a_offset :: uint64 where
  "fnv64a_offset = 14695981039346656037"

definition fnv64a_Write :: "uint64 \<Rightarrow> bytes \<Rightarrow> uint64" where
  "fnv64a_Write h bs = fold (\<lambda>b h. (h XOR ucast b) * 1099511628211) bs h"

definition seedFromHost :: "Host \<Rightarrow> uint64 \<times> uint64" where
  "seedFromHost h =
     (let s1 = fnv64a_Write fnv64a_offset (str_bytes (Host_String h));
          s2 = fnv64a_Write s1 [0x5a]
      in (s1, s2))"

text \<open>\<open>durOr\<close> and \<open>intOr\<close>, which the configurations share.\<close>

definition durOr :: "duration \<Rightarrow> duration \<Rightarrow> duration" where
  "durOr v d = (if v \<le> 0 then d else v)"

definition intOr :: "int \<Rightarrow> int \<Rightarrow> int" where
  "intOr v d = (if v \<le> 0 then d else v)"

subsection \<open>Timers are fresh\<close>

definition timers_ok :: "('cb, 'm, 'n, 'r, 'w) proto_ctx \<Rightarrow> bool" where
  "timers_ok c \<longleftrightarrow> (\<forall>t \<in> set (pending c). tid t \<le> nextTimerID c)"

lemma timers_ok_ops [simp]:
  "timers_ok (newCtx ce)"
  "timers_ok (emit e c) = timers_ok c"
  "timers_ok c \<Longrightarrow> timers_ok (cancel h c)"
  "timers_ok c \<Longrightarrow> timers_ok (snd (after d fn c))"
  "timers_ok c \<Longrightarrow> timers_ok (snd (every d fn c))"
  "timers_ok c \<Longrightarrow> timers_ok (fire t c)"
  "timers_ok c \<Longrightarrow> timers_ok (c\<lparr>out := os\<rparr>)"
  by (auto simp: timers_ok_def newCtx_def emit_def cancel_def after_def every_def fire_def Let_def
      split: option.splits)

lemma out_timers [simp]:
  "out (fire t c) = out c" "out (cancel h c) = out c" "out (snd (after d f c)) = out c"
  "out (snd (every d f c)) = out c"
  by (simp_all add: fire_def cancel_def after_def every_def Let_def split: option.splits)

lemma emit_pending [simp]:
  "pending (emit e c) = pending c" "nextTimerID (emit e c) = nextTimerID c"
  by (simp_all add: emit_def)

subsection \<open>Projections of the collected effects\<close>

definition sent :: "('m, 'n, 'r, 'w) effect list \<Rightarrow> ('m \<times> Host) set" where
  "sent es = {(m, h). Sent m h \<in> set es}"

definition published :: "('m, 'n, 'r, 'w) effect list \<Rightarrow> 'n set" where
  "published es = {n. Published n \<in> set es}"

fun storedL :: "('m, 'n, 'r, 'w) effect list \<Rightarrow> 'w list" where
  "storedL [] = []"
| "storedL (Stored w # es) = w # storedL es"
| "storedL (_ # es) = storedL es"

lemma storedL_append [simp]: "storedL (xs @ ys) = storedL xs @ storedL ys"
  by (induction xs rule: storedL.induct) simp_all

lemma set_storedL: "set (storedL es) = {w. Stored w \<in> set es}"
  by (induction es rule: storedL.induct) auto

subsection \<open>A cluster of protocol instances\<close>

text \<open>
  A cluster runs one instance per host.  \<open>net\<close> holds every message ever sent: a delivery does not
  remove it, so messages may be delivered late, again, in any order or never.  \<open>notices\<close> and \<open>writes\<close>
  are the history of published notifications and of storage calls; \<open>disk\<close> is each host's durable
  storage, which survives a restart.
\<close>

record ('p, 'm, 'n, 'w, 'd) cluster =
  nodes :: "Host \<Rightarrow> 'p"
  net :: "(Host \<times> Host \<times> 'm) set"
  notices :: "(Host \<times> 'n) set"
  writes :: "(Host \<times> 'w) set"
  disk :: "Host \<Rightarrow> 'd"

definition absorb ::
  "('w \<Rightarrow> 'd \<Rightarrow> 'd) \<Rightarrow> Host \<Rightarrow> 'p \<Rightarrow> ('m, 'n, 'r, 'w) effect list \<Rightarrow>
     ('p, 'm, 'n, 'w, 'd) cluster \<Rightarrow> ('p, 'm, 'n, 'w, 'd) cluster" where
  "absorb wr h p es s =
     s\<lparr>nodes := (nodes s)(h := p),
       net := net s \<union> {(h, d, m) | d m. (m, d) \<in> sent es},
       notices := notices s \<union> {h} \<times> published es,
       writes := writes s \<union> {h} \<times> set (storedL es),
       disk := (disk s)(h := fold wr (storedL es) (disk s h))\<rparr>"

lemma absorb_simps [simp]:
  "nodes (absorb wr h p es s) = (nodes s)(h := p)"
  "(a, b, m) \<in> net (absorb wr h p es s) \<longleftrightarrow>
     (a, b, m) \<in> net s \<or> a = h \<and> Sent m b \<in> set es"
  "(a, n) \<in> notices (absorb wr h p es s) \<longleftrightarrow> (a, n) \<in> notices s \<or> a = h \<and> Published n \<in> set es"
  "(a, w) \<in> writes (absorb wr h p es s) \<longleftrightarrow> (a, w) \<in> writes s \<or> a = h \<and> Stored w \<in> set es"
  "disk (absorb wr h p es s) = (disk s)(h := fold wr (storedL es) (disk s h))"
  by (auto simp: absorb_def sent_def published_def set_storedL)

subsection \<open>Majorities\<close>

text \<open>
  Any two majorities of one fixed membership share a member: the fact that both consensus
  protocols rest on.
\<close>

locale quorum_system =
  fixes quorum :: "'a set \<Rightarrow> bool"
  assumes meets: "quorum Q \<Longrightarrow> quorum R \<Longrightarrow> \<exists>a. a \<in> Q \<and> a \<in> R"
begin

lemma quorum_nonempty: "quorum Q \<Longrightarrow> Q \<noteq> {}"
  using meets by blast

text \<open>If every voter votes once, two candidates backed by a quorum each are the same.\<close>

lemma unique_winner:
  assumes "quorum Q" "\<And>v. v \<in> Q \<Longrightarrow> vote v c"
    and "quorum R" "\<And>v. v \<in> R \<Longrightarrow> vote v d"
    and once: "\<And>v x y. vote v x \<Longrightarrow> vote v y \<Longrightarrow> x = y"
  shows "c = d"
proof -
  obtain v where "v \<in> Q" "v \<in> R"
    using meets assms(1,3) by blast
  then show ?thesis
    using assms(2,4) once by blast
qed

end

definition majority :: "'a set \<Rightarrow> 'a set \<Rightarrow> bool" where
  "majority M Q \<longleftrightarrow> finite M \<and> Q \<subseteq> M \<and> card M div 2 + 1 \<le> card Q"

interpretation maj: quorum_system "majority M" for M
proof
  fix Q R
  assume "majority M Q" "majority M R"
  then have "finite M" "Q \<subseteq> M" "R \<subseteq> M" "card M < card Q + card R"
    by (auto simp: majority_def)
  then have "Q \<inter> R \<noteq> {}"
    by (rule card_overlap)
  then show "\<exists>a. a \<in> Q \<and> a \<in> R" by blast
qed

end
