(* ===== verification/Paxos_State.thy ===== *)
theory Paxos_State
  imports Proto_Context
begin

text \<open>
  \<open>pkg/protocols/paxos/state.go\<close>: the pure decision rules of single-decree Paxos, and
  \<open>storage.go\<close>, the durable acceptor state.  A ballot is a \<open>uint64\<close>; the group size and the
  index of a node are counts.
\<close>

datatype promiseInfo =
  PromiseInfo (acceptedBallotI: uint64) (acceptedValueI: bytes) (hasAcceptedI: bool)

definition majoritySize :: "nat \<Rightarrow> nat" where
  "majoritySize n = n div 2 + 1"

definition nextBallot :: "uint64 \<Rightarrow> nat \<Rightarrow> nat \<Rightarrow> uint64" where
  "nextBallot maxSeen n index =
     (let round = maxSeen div word_of_nat n + 1
      in round * word_of_nat n + word_of_nat index)"

definition canPromise :: "uint64 \<Rightarrow> uint64 \<Rightarrow> bool" where
  "canPromise ballot promised \<longleftrightarrow> ballot > promised"

definition canAccept :: "uint64 \<Rightarrow> uint64 \<Rightarrow> bool" where
  "canAccept ballot promised \<longleftrightarrow> ballot \<ge> promised"

fun chooseLoop :: "promiseInfo list \<Rightarrow> bytes \<times> uint64 \<times> bool \<Rightarrow> bytes \<times> uint64 \<times> bool" where
  "chooseLoop [] acc = acc"
| "chooseLoop (i # infos) (best, bestBal, adopted) =
     (if hasAcceptedI i \<and> (\<not> adopted \<or> acceptedBallotI i > bestBal)
      then chooseLoop infos (acceptedValueI i, acceptedBallotI i, True)
      else chooseLoop infos (best, bestBal, adopted))"

definition chooseValue :: "promiseInfo list \<Rightarrow> bytes \<Rightarrow> bytes \<times> bool" where
  "chooseValue infos own =
     (case chooseLoop infos ([], 0, False) of
        (best, bestBal, adopted) \<Rightarrow> if adopted then (best, True) else (own, False))"

subsection \<open>Durable acceptor state\<close>

record PersistentState =
  Promised :: uint64
  AcceptedBallot :: uint64
  AcceptedValue :: bytes
  HasAccepted :: bool

definition zeroPersistent :: PersistentState where
  "zeroPersistent = \<lparr>Promised = 0, AcceptedBallot = 0, AcceptedValue = [], HasAccepted = False\<rparr>"

record MemoryStorage =
  mstate :: PersistentState
  saved :: bool

definition NewMemoryStorage :: MemoryStorage where
  "NewMemoryStorage = \<lparr>mstate = zeroPersistent, saved = False\<rparr>"

text \<open>\<open>clone\<close> duplicates the value bytes; on values it is the identity.\<close>

definition clone :: "PersistentState \<Rightarrow> PersistentState" where
  "clone s = s\<lparr>AcceptedValue := AcceptedValue s\<rparr>"

definition Load :: "MemoryStorage \<Rightarrow> PersistentState" where
  "Load m = (if \<not> saved m then zeroPersistent else clone (mstate m))"

definition Persist :: "PersistentState \<Rightarrow> MemoryStorage \<Rightarrow> MemoryStorage" where
  "Persist state m = m\<lparr>mstate := clone state, saved := True\<rparr>"

text \<open>The contract of the \<open>Storage\<close> interface: what was persisted last is what is loaded.\<close>

locale acceptor_storage =
  fixes fresh :: 'd
    and load :: "'d \<Rightarrow> PersistentState"
    and persist :: "PersistentState \<Rightarrow> 'd \<Rightarrow> 'd"
  assumes load_fresh: "load fresh = zeroPersistent"
    and load_persist: "load (persist st d) = st"
begin

lemma load_fold: "load (fold persist sts d) = (if sts = [] then load d else last sts)"
  by (induction sts arbitrary: d) (simp_all add: load_persist)

end

interpretation mem: acceptor_storage NewMemoryStorage Load Persist
  by unfold_locales (simp_all add: NewMemoryStorage_def Load_def Persist_def clone_def)

subsection \<open>Ballot arithmetic\<close>

text \<open>There is room for the next ballot when it does not pass \<open>2 ^ 64\<close>.\<close>

definition ballot_room :: "uint64 \<Rightarrow> nat \<Rightarrow> bool" where
  "ballot_room m n \<longleftrightarrow> 0 < n \<and> (unat m div n + 2) * n \<le> 2 ^ 64"

lemma unat_nextBallot:
  assumes "ballot_room m n" "i < n"
  shows "unat (nextBallot m n i) = (unat m div n + 1) * n + i"
proof -
  let ?q = "unat m div n"
  have bound: "(?q + 1) * n + i < 2 ^ 64"
    using assms by (simp add: ballot_room_def algebra_simps)
  have "2 * n \<le> (?q + 2) * n"
    by (rule mult_right_mono) simp_all
  then have "n < 2 ^ 64"
    using assms(1) unfolding ballot_room_def by linarith
  then have n: "unat (word_of_nat n :: uint64) = n"
    by (simp add: unat_of_nat take_bit_nat_eq_self)
  have "m div word_of_nat n = word_of_nat ?q"
  proof -
    have "?q < 2 ^ 64"
      using unat_bound64 [of m] div_le_dividend [of "unat m" n] by linarith
    then have "unat (word_of_nat ?q :: uint64) = ?q"
      by (simp add: unat_of_nat take_bit_nat_eq_self)
    then show ?thesis
      using n by (simp add: word_unat_eq_iff unat_div)
  qed
  then have "nextBallot m n i = word_of_nat ((?q + 1) * n + i)"
    by (simp add: nextBallot_def Let_def algebra_simps)
  then show ?thesis
    using bound by (simp only: unat_of_nat) (simp add: take_bit_nat_eq_self)
qed

lemma nextBallot_gt: "ballot_room m n \<Longrightarrow> i < n \<Longrightarrow> m < nextBallot m n i"
proof -
  assume a: "ballot_room m n" "i < n"
  have "unat m < (unat m div n + 1) * n"
    using a by (metis add.commute ballot_room_def dividend_less_div_times mult_Suc plus_1_eq_Suc
        mult.commute)
  then show ?thesis
    using a by (simp add: word_less_nat_alt unat_nextBallot)
qed

lemma nextBallot_mod: "ballot_room m n \<Longrightarrow> i < n \<Longrightarrow> unat (nextBallot m n i) mod n = i"
  by (metis add.commute mod_less mod_mult_self3 unat_nextBallot)

lemma nextBallot_disjoint:
  assumes "ballot_room m n" "ballot_room m' n" "i < n" "j < n" "i \<noteq> j"
  shows "nextBallot m n i \<noteq> nextBallot m' n j"
  using assms nextBallot_mod by metis

subsection \<open>The adoption rule\<close>

lemma chooseLoop_adopted:
  "adopted \<Longrightarrow> snd (snd (chooseLoop infos (best, bal, adopted)))"
  by (induction infos arbitrary: best bal) simp_all

lemma chooseLoop_cases:
  assumes "chooseLoop infos (best0, bal0, ad0) = (best, bal, ad)"
  shows "(ad = ad0 \<and> best = best0 \<and> bal = bal0 \<and> (\<forall>i \<in> set infos. hasAcceptedI i \<longrightarrow> ad0 \<and> acceptedBallotI i \<le> bal0))
    \<or> (ad \<and> (\<exists>i \<in> set infos. hasAcceptedI i \<and> acceptedBallotI i = bal \<and> acceptedValueI i = best)
       \<and> (ad0 \<longrightarrow> bal0 \<le> bal) \<and> (\<forall>i \<in> set infos. hasAcceptedI i \<longrightarrow> acceptedBallotI i \<le> bal))"
  using assms
proof (induction infos arbitrary: best0 bal0 ad0)
  case Nil
  then show ?case by simp
next
  case (Cons i infos)
  show ?case
  proof (cases "hasAcceptedI i \<and> (\<not> ad0 \<or> acceptedBallotI i > bal0)")
    case True
    with Cons.prems have "chooseLoop infos (acceptedValueI i, acceptedBallotI i, True) = (best, bal, ad)"
      by simp
    from Cons.IH [OF this] True show ?thesis
      by (elim disjE) (auto intro: order.trans)
  next
    case False
    with Cons.prems have "chooseLoop infos (best0, bal0, ad0) = (best, bal, ad)"
      by (simp only: chooseLoop.simps if_False)
    from Cons.IH [OF this] False show ?thesis
      by (elim disjE) auto
  qed
qed

lemma chooseValue_cases:
  obtains
    (own) "chooseValue infos own = (own, False)" "\<And>i. i \<in> set infos \<Longrightarrow> \<not> hasAcceptedI i"
  | (adopted) i where "i \<in> set infos" "hasAcceptedI i"
      "chooseValue infos own = (acceptedValueI i, True)"
      "\<And>j. j \<in> set infos \<Longrightarrow> hasAcceptedI j \<Longrightarrow> acceptedBallotI j \<le> acceptedBallotI i"
proof -
  obtain best bal ad where eq: "chooseLoop infos ([], 0, False) = (best, bal, ad)"
    by (metis prod_cases3)
  show thesis
  proof (cases ad)
    case True
    with chooseLoop_cases [OF eq] obtain i where i: "i \<in> set infos" "hasAcceptedI i"
        "acceptedBallotI i = bal" "acceptedValueI i = best"
        "\<forall>i \<in> set infos. hasAcceptedI i \<longrightarrow> acceptedBallotI i \<le> bal"
      by auto
    show ?thesis
      using i True eq by (intro adopted [of i]) (auto simp: chooseValue_def)
  next
    case False
    with chooseLoop_cases [OF eq] show ?thesis
      using eq by (intro own) (auto simp: chooseValue_def)
  qed
qed

end
