(* ===== verification/Paxos_Messages.thy ===== *)
theory Paxos_Messages
  imports Paxos_State
begin

text \<open>
  \<open>pkg/protocols/paxos/messages.go\<close>: the five messages of the synod and their hand-written
  codecs.  A message is a constructor with the fields of the Go struct in order; \<open>MarshalWire\<close>
  of a type is the function that encodes those fields, \<open>UnmarshalWire\<close> the one that decodes
  them or reports the read error.
\<close>

datatype paxos_msg =
    Prepare uint64
  | Promise uint64 bool uint64 uint64 bytes bool
  | Accept uint64 bytes
  | Accepted uint64 bytes
  | AcceptNack uint64

definition Prepare_MarshalWire :: "uint64 \<Rightarrow> ioerror + bytes" where
  "Prepare_MarshalWire ballot = WriteUint64 [] ballot"

definition Prepare_UnmarshalWire :: "bytes \<Rightarrow> ioerror + paxos_msg" where
  "Prepare_UnmarshalWire d = bindE (ReadUint64 d) (\<lambda>(v, r). Inr (Prepare v))"

definition Promise_MarshalWire ::
  "uint64 \<Rightarrow> bool \<Rightarrow> uint64 \<Rightarrow> uint64 \<Rightarrow> bytes \<Rightarrow> bool \<Rightarrow> ioerror + bytes" where
  "Promise_MarshalWire ballot ok maxBallot accBallot accValue hasAcc =
     bindE (WriteUint64 [] ballot) (\<lambda>b.
     bindE (WriteUint64 (WriteByte b (boolByte ok)) maxBallot) (\<lambda>b.
     bindE (WriteUint64 b accBallot) (\<lambda>b.
       WriteBytes (WriteByte b (boolByte hasAcc)) accValue)))"

definition Promise_UnmarshalWire :: "bytes \<Rightarrow> ioerror + paxos_msg" where
  "Promise_UnmarshalWire d =
     bindE (ReadUint64 d) (\<lambda>(ballot, r).
     bindE (ReadByte r) (\<lambda>(okB, r).
     bindE (ReadUint64 r) (\<lambda>(maxBallot, r).
     bindE (ReadUint64 r) (\<lambda>(accBallot, r).
     bindE (ReadByte r) (\<lambda>(hasB, r).
     bindE (ReadBytes r) (\<lambda>(accValue, r).
       Inr (Promise ballot (okB \<noteq> 0) maxBallot accBallot accValue (hasB \<noteq> 0))))))))"

definition Accept_MarshalWire :: "uint64 \<Rightarrow> bytes \<Rightarrow> ioerror + bytes" where
  "Accept_MarshalWire ballot value =
     bindE (WriteUint64 [] ballot) (\<lambda>b. WriteBytes b value)"

definition Accept_UnmarshalWire :: "bytes \<Rightarrow> ioerror + paxos_msg" where
  "Accept_UnmarshalWire d =
     bindE (ReadUint64 d) (\<lambda>(ballot, r).
     bindE (ReadBytes r) (\<lambda>(value, r). Inr (Accept ballot value)))"

definition Accepted_MarshalWire :: "uint64 \<Rightarrow> bytes \<Rightarrow> ioerror + bytes" where
  "Accepted_MarshalWire ballot value =
     bindE (WriteUint64 [] ballot) (\<lambda>b. WriteBytes b value)"

definition Accepted_UnmarshalWire :: "bytes \<Rightarrow> ioerror + paxos_msg" where
  "Accepted_UnmarshalWire d =
     bindE (ReadUint64 d) (\<lambda>(ballot, r).
     bindE (ReadBytes r) (\<lambda>(value, r). Inr (Accepted ballot value)))"

definition AcceptNack_MarshalWire :: "uint64 \<Rightarrow> ioerror + bytes" where
  "AcceptNack_MarshalWire maxBallot = WriteUint64 [] maxBallot"

definition AcceptNack_UnmarshalWire :: "bytes \<Rightarrow> ioerror + paxos_msg" where
  "AcceptNack_UnmarshalWire d = bindE (ReadUint64 d) (\<lambda>(v, r). Inr (AcceptNack v))"

text \<open>The codec the registry picks by the message's wire name.\<close>

fun paxos_WireName :: "paxos_msg \<Rightarrow> string" where
  "paxos_WireName (Prepare _) = ''paxos.Prepare''"
| "paxos_WireName (Promise _ _ _ _ _ _) = ''paxos.Promise''"
| "paxos_WireName (Accept _ _) = ''paxos.Accept''"
| "paxos_WireName (Accepted _ _) = ''paxos.Accepted''"
| "paxos_WireName (AcceptNack _) = ''paxos.AcceptNack''"

fun paxos_Marshal :: "paxos_msg \<Rightarrow> ioerror + bytes" where
  "paxos_Marshal (Prepare b) = Prepare_MarshalWire b"
| "paxos_Marshal (Promise b ok mb ab av ha) = Promise_MarshalWire b ok mb ab av ha"
| "paxos_Marshal (Accept b v) = Accept_MarshalWire b v"
| "paxos_Marshal (Accepted b v) = Accepted_MarshalWire b v"
| "paxos_Marshal (AcceptNack mb) = AcceptNack_MarshalWire mb"

definition paxos_Unmarshal :: "string \<Rightarrow> bytes \<Rightarrow> (ioerror + paxos_msg) option" where
  "paxos_Unmarshal name d =
     (if name = ''paxos.Prepare'' then Some (Prepare_UnmarshalWire d)
      else if name = ''paxos.Promise'' then Some (Promise_UnmarshalWire d)
      else if name = ''paxos.Accept'' then Some (Accept_UnmarshalWire d)
      else if name = ''paxos.Accepted'' then Some (Accepted_UnmarshalWire d)
      else if name = ''paxos.AcceptNack'' then Some (AcceptNack_UnmarshalWire d)
      else None)"

lemmas paxos_codec_defs =
  Prepare_MarshalWire_def Prepare_UnmarshalWire_def Promise_MarshalWire_def
  Promise_UnmarshalWire_def Accept_MarshalWire_def Accept_UnmarshalWire_def
  Accepted_MarshalWire_def Accepted_UnmarshalWire_def AcceptNack_MarshalWire_def
  AcceptNack_UnmarshalWire_def

text \<open>A value longer than \<open>2 ^ 32 - 1\<close> bytes does not fit its length prefix.\<close>

fun paxos_value :: "paxos_msg \<Rightarrow> bytes" where
  "paxos_value (Promise _ _ _ _ v _) = v"
| "paxos_value (Accept _ v) = v"
| "paxos_value (Accepted _ v) = v"
| "paxos_value _ = []"

text \<open>
  Every Paxos message survives the wire: what \<open>MarshalWire\<close> writes for a message whose value fits
  a 32-bit length is decoded, under the message's own wire name, to the same message.
\<close>

theorem paxos_wire_roundtrip:
  assumes "bytes_ok (paxos_value m)"
  shows "\<exists>d. paxos_Marshal m = Inr d \<and> paxos_Unmarshal (paxos_WireName m) d = Some (Inr m)"
  using assms
  by (cases m) (simp_all add: paxos_codec_defs paxos_Unmarshal_def wire_simps)

theorem paxos_wire_roundtrip_witness:
  "\<exists>d. paxos_Marshal (Accept 3 [7]) = Inr d \<and>
     paxos_Unmarshal (paxos_WireName (Accept 3 [7])) d = Some (Inr (Accept 3 [7]))"
  by (rule paxos_wire_roundtrip) (simp add: bytes_ok_def)

end
