(* ===== verification/Paxos.thy ===== *)
theory Paxos
  imports Paxos_Messages
begin

text \<open>
  \<open>pkg/protocols/paxos/protocol.go\<close>, \<open>config.go\<close> and \<open>api.go\<close>: one participant of the synod.
  The record is the Go \<open>Protocol\<close>; each method is a function from the state before to the state
  after, whose sends, notifications, answers and storage writes are collected in \<open>ctx\<close> in the
  order the method makes them.  The \<open>Storage\<close> seam is the effect \<open>Stored\<close>: the caller of
  \<open>paxos_Init\<close> supplies what \<open>Load\<close> returned.
\<close>

subsection \<open>Data\<close>

record PaxosConfig =
  Peers :: "Host list"
  RetryTimeoutMin :: duration
  RetryTimeoutMax :: duration
  ReconnectInterval :: duration

definition paxos_fillDefaults :: "PaxosConfig \<Rightarrow> PaxosConfig" where
  "paxos_fillDefaults c =
     (let c = c\<lparr>RetryTimeoutMin := durOr (RetryTimeoutMin c) (150 * millisecond)\<rparr>;
          c = c\<lparr>RetryTimeoutMax := durOr (RetryTimeoutMax c) (300 * millisecond)\<rparr>;
          c = c\<lparr>ReconnectInterval := durOr (ReconnectInterval c) (100 * millisecond)\<rparr>
      in if RetryTimeoutMax c \<le> RetryTimeoutMin c
         then c\<lparr>RetryTimeoutMax := wrap64 (RetryTimeoutMin c * 2)\<rparr> else c)"

datatype paxos_note = Decided bytes uint64

datatype paxos_reply =
    ProposeReply
  | AlreadyDecidedError bytes uint64
  | DebugStateReply uint64 uint64 bytes bool bool bytes uint64 bool uint64

datatype paxos_cb = OnRetryTimeout | EnsureConnections

type_synonym paxos_ctx = "(paxos_cb, paxos_msg, paxos_note, paxos_reply, PersistentState) proto_ctx"

record paxos =
  cfg :: PaxosConfig
  ctx :: paxos_ctx
  self :: Host
  peers :: "Host list"
  index :: nat
  groupSize :: nat
  rng :: "nat stream"
  promised :: uint64
  acceptedBallot :: uint64
  acceptedValue :: bytes
  hasAccepted :: bool
  maxSeen :: uint64
  proposing :: bool
  phase :: nat
  myBallot :: uint64
  myValue :: bytes
  promises :: "Host \<rightharpoonup> promiseInfo"
  retryTimer :: TimerHandle
  accepts :: "uint64 \<rightharpoonup> Host set"
  valueAt :: "uint64 \<rightharpoonup> bytes"
  decided :: bool
  decidedBallot :: uint64
  decidedValue :: bytes
  announced :: bool
  sessions :: "Host set"

text \<open>The loop that finds this node in the sorted roster; 0 when it is not there.\<close>

fun rosterIndex :: "nat \<Rightarrow> Host list \<Rightarrow> Host \<Rightarrow> nat" where
  "rosterIndex i [] h = 0"
| "rosterIndex i (x # xs) h = (if x = h then i else rosterIndex (Suc i) xs h)"

definition paxos_New :: "Host \<Rightarrow> PaxosConfig \<Rightarrow> (Host \<Rightarrow> bool) \<Rightarrow> paxos" where
  "paxos_New me c ce =
     (let c = paxos_fillDefaults c;
          ps = sort (filter (\<lambda>p. p \<noteq> me) (Peers c));
          roster = sort (ps @ [me])
      in \<lparr>cfg = c, ctx = newCtx ce, self = me, peers = ps,
          index = rosterIndex 0 roster me, groupSize = length ps + 1, rng = sconst 0,
          promised = 0, acceptedBallot = 0, acceptedValue = [], hasAccepted = False,
          maxSeen = 0, proposing = False, phase = 0, myBallot = 0, myValue = [],
          promises = Map.empty, retryTimer = None, accepts = Map.empty, valueAt = Map.empty,
          decided = False, decidedBallot = 0, decidedValue = [], announced = False,
          sessions = {}\<rparr>)"

subsection \<open>Calls into the context\<close>

definition send :: "paxos_msg \<Rightarrow> Host \<Rightarrow> paxos \<Rightarrow> paxos" where
  "send m h p = p\<lparr>ctx := emit (Sent m h) (ctx p)\<rparr>"

definition sendAll :: "paxos_msg \<Rightarrow> Host list \<Rightarrow> paxos \<Rightarrow> paxos" where
  "sendAll m hs p = fold (send m) hs p"

definition publish :: "paxos_note \<Rightarrow> paxos \<Rightarrow> paxos" where
  "publish n p = p\<lparr>ctx := emit (Published n) (ctx p)\<rparr>"

definition answer :: "paxos_reply \<Rightarrow> paxos \<Rightarrow> paxos" where
  "answer r p = p\<lparr>ctx := emit (Replied r) (ctx p)\<rparr>"

definition connect :: "Host \<Rightarrow> paxos \<Rightarrow> paxos" where
  "connect h p = p\<lparr>ctx := emit (Connects h) (ctx p)\<rparr>"

subsection \<open>Helpers\<close>

definition observeBallot :: "uint64 \<Rightarrow> paxos \<Rightarrow> paxos" where
  "observeBallot b p = (if b > maxSeen p then p\<lparr>maxSeen := b\<rparr> else p)"

definition persisted :: "paxos \<Rightarrow> PersistentState" where
  "persisted p = \<lparr>Promised = promised p, AcceptedBallot = acceptedBallot p,
     AcceptedValue = acceptedValue p, HasAccepted = hasAccepted p\<rparr>"

definition persist :: "paxos \<Rightarrow> paxos" where
  "persist p = p\<lparr>ctx := emit (Stored (persisted p)) (ctx p)\<rparr>"

definition ensureConnections :: "paxos \<Rightarrow> paxos" where
  "ensureConnections p =
     fold (\<lambda>peer p. if peer \<notin> sessions p then connect peer p else p) (peers p) p"

text \<open>
  \<open>rng.Int64N(span)\<close> panics unless \<open>span\<close> is positive, which \<open>paxos_fillDefaults\<close> ensures for any
  minimum below \<open>2 ^ 62\<close> nanoseconds.
\<close>

definition randomBackoff :: "paxos \<Rightarrow> duration \<times> paxos" where
  "randomBackoff p =
     (let span = wrap64 (RetryTimeoutMax (cfg p) - RetryTimeoutMin (cfg p));
          (r, g) = IntN (nat span) (rng p)
      in (wrap64 (RetryTimeoutMin (cfg p) + int r), p\<lparr>rng := g\<rparr>))"

subsection \<open>Learner\<close>

definition decide :: "uint64 \<Rightarrow> bytes \<Rightarrow> paxos \<Rightarrow> paxos" where
  "decide ballot value p =
     (if decided p then p
      else let p = p\<lparr>decided := True, decidedBallot := ballot, decidedValue := value,
                     proposing := False, ctx := cancel (retryTimer p) (ctx p)\<rparr>
           in if \<not> announced p
              then publish (Decided (decidedValue p) ballot) (p\<lparr>announced := True\<rparr>)
              else p)"

definition recordAccepted :: "uint64 \<Rightarrow> bytes \<Rightarrow> Host \<Rightarrow> paxos \<Rightarrow> paxos" where
  "recordAccepted ballot value from p =
     (let p = observeBallot ballot p
      in if decided p then p
         else let S = (case accepts p ballot of None \<Rightarrow> {} | Some S \<Rightarrow> S);
                  p = p\<lparr>accepts := (accepts p)(ballot \<mapsto> S)\<rparr>
              in if from \<in> S then p
                 else let S' = insert from S;
                          p = p\<lparr>accepts := (accepts p)(ballot \<mapsto> S')\<rparr>;
                          p = (if valueAt p ballot = None
                               then p\<lparr>valueAt := (valueAt p)(ballot \<mapsto> value)\<rparr> else p)
                      in if card S' \<ge> majoritySize (groupSize p)
                         then decide ballot
                                (case valueAt p ballot of None \<Rightarrow> [] | Some v \<Rightarrow> v) p
                         else p)"

definition onAccepted :: "uint64 \<Rightarrow> bytes \<Rightarrow> Host \<Rightarrow> paxos \<Rightarrow> paxos" where
  "onAccepted ballot value from p = recordAccepted ballot value from p"

definition broadcastAccepted :: "uint64 \<Rightarrow> bytes \<Rightarrow> paxos \<Rightarrow> paxos" where
  "broadcastAccepted ballot value p =
     (let p = recordAccepted ballot value (self p) p
      in sendAll (Accepted ballot value) (peers p) p)"

subsection \<open>Acceptor\<close>

definition acceptPrepare :: "uint64 \<Rightarrow> paxos \<Rightarrow> bool \<times> uint64 \<times> promiseInfo \<times> paxos" where
  "acceptPrepare ballot p =
     (let p = observeBallot ballot p
      in if \<not> canPromise ballot (promised p) then (False, promised p, PromiseInfo 0 [] False, p)
         else let p = persist (p\<lparr>promised := ballot\<rparr>)
              in (True, promised p,
                  PromiseInfo (acceptedBallot p) (acceptedValue p) (hasAccepted p), p))"

definition acceptAccept :: "uint64 \<Rightarrow> bytes \<Rightarrow> paxos \<Rightarrow> bool \<times> uint64 \<times> paxos" where
  "acceptAccept ballot value p =
     (let p = observeBallot ballot p
      in if \<not> canAccept ballot (promised p) then (False, promised p, p)
         else let p = persist (p\<lparr>promised := ballot, acceptedBallot := ballot,
                                 acceptedValue := value, hasAccepted := True\<rparr>)
              in (True, promised p, p))"

definition onPrepare :: "uint64 \<Rightarrow> Host \<Rightarrow> paxos \<Rightarrow> paxos" where
  "onPrepare ballot from p =
     (case acceptPrepare ballot p of (ok, maxBallot, info, p) \<Rightarrow>
        send (Promise ballot ok maxBallot (acceptedBallotI info) (acceptedValueI info)
               (hasAcceptedI info)) from p)"

definition onAccept :: "uint64 \<Rightarrow> bytes \<Rightarrow> Host \<Rightarrow> paxos \<Rightarrow> paxos" where
  "onAccept ballot value from p =
     (case acceptAccept ballot value p of (ok, maxBallot, p) \<Rightarrow>
        if ok then broadcastAccepted ballot value p else send (AcceptNack maxBallot) from p)"

subsection \<open>Proposer\<close>

definition promiseInfos :: "paxos \<Rightarrow> promiseInfo list" where
  "promiseInfos p =
     List.map_filter (promises p) (peers p)
     @ (case promises p (self p) of None \<Rightarrow> [] | Some i \<Rightarrow> [i])"

definition beginPhase2 :: "paxos \<Rightarrow> paxos" where
  "beginPhase2 p =
     (if phase p \<noteq> 1 then p
      else let p = p\<lparr>phase := 2\<rparr>;
               (value, adopted) = chooseValue (promiseInfos p) (myValue p);
               (ok, mb, p) = acceptAccept (myBallot p) value p;
               p = (if ok then broadcastAccepted (myBallot p) value p else p)
           in sendAll (Accept (myBallot p) value) (peers p) p)"

definition startRound :: "paxos \<Rightarrow> paxos" where
  "startRound p =
     (if decided p then p
      else let p = p\<lparr>proposing := True, phase := 1,
                     myBallot := nextBallot (maxSeen p) (groupSize p) (index p)\<rparr>;
               p = observeBallot (myBallot p) p;
               p = p\<lparr>promises := Map.empty\<rparr>;
               (ok, mb, info, p) = acceptPrepare (myBallot p) p;
               p = (if ok then p\<lparr>promises := (promises p)(self p \<mapsto> info)\<rparr> else p);
               p = sendAll (Prepare (myBallot p)) (peers p) p;
               p = p\<lparr>ctx := cancel (retryTimer p) (ctx p)\<rparr>;
               (d, p) = randomBackoff p;
               (h, c) = after d OnRetryTimeout (ctx p);
               p = p\<lparr>ctx := c, retryTimer := h\<rparr>
           in if card (dom (promises p)) \<ge> majoritySize (groupSize p) then beginPhase2 p else p)"

definition onRetryTimeout :: "paxos \<Rightarrow> paxos" where
  "onRetryTimeout p = (if decided p \<or> \<not> proposing p then p else startRound p)"

definition onPromise ::
  "uint64 \<Rightarrow> bool \<Rightarrow> uint64 \<Rightarrow> uint64 \<Rightarrow> bytes \<Rightarrow> bool \<Rightarrow> Host \<Rightarrow> paxos \<Rightarrow> paxos" where
  "onPromise ballot ok maxBallot accBallot accValue hasAcc from p =
     (if \<not> ok then observeBallot maxBallot p
      else if decided p \<or> \<not> proposing p \<or> phase p \<noteq> 1 \<or> ballot \<noteq> myBallot p then p
      else let p = p\<lparr>promises := (promises p)(from \<mapsto> PromiseInfo accBallot accValue hasAcc)\<rparr>
           in if card (dom (promises p)) \<ge> majoritySize (groupSize p) then beginPhase2 p else p)"

definition onAcceptNack :: "uint64 \<Rightarrow> paxos \<Rightarrow> paxos" where
  "onAcceptNack maxBallot p = observeBallot maxBallot p"

subsection \<open>Requests, sessions, start-up\<close>

definition handlePropose :: "bytes \<Rightarrow> paxos \<Rightarrow> paxos" where
  "handlePropose value p =
     (if decided p then answer (AlreadyDecidedError (decidedValue p) (decidedBallot p)) p
      else let p = (if \<not> proposing p then startRound (p\<lparr>myValue := value\<rparr>) else p)
           in answer ProposeReply p)"

definition handleDebugState :: "paxos \<Rightarrow> paxos" where
  "handleDebugState p =
     answer (DebugStateReply (promised p) (acceptedBallot p) (acceptedValue p) (hasAccepted p)
       (decided p) (decidedValue p) (decidedBallot p) (proposing p) (myBallot p)) p"

definition OnSessionConnected :: "Host \<Rightarrow> paxos \<Rightarrow> paxos" where
  "OnSessionConnected host p =
     (let p = p\<lparr>sessions := insert host (sessions p)\<rparr>
      in if hasAccepted p then send (Accepted (acceptedBallot p) (acceptedValue p)) host p else p)"

definition OnSessionDisconnected :: "Host \<Rightarrow> paxos \<Rightarrow> paxos" where
  "OnSessionDisconnected host p = p\<lparr>sessions := sessions p - {host}\<rparr>"

definition OnSessionGivenUp :: "Host \<Rightarrow> paxos \<Rightarrow> paxos" where
  "OnSessionGivenUp host p = p\<lparr>sessions := sessions p - {host}\<rparr>"

definition paxos_Init ::
  "(uint64 \<Rightarrow> uint64 \<Rightarrow> nat stream) \<Rightarrow> PersistentState \<Rightarrow> paxos \<Rightarrow> paxos" where
  "paxos_Init newPCG st p =
     (let (s1, s2) = seedFromHost (self p);
          p = p\<lparr>rng := newPCG s1 s2\<rparr>;
          p = p\<lparr>promised := Promised st, acceptedBallot := AcceptedBallot st,
                acceptedValue := AcceptedValue st, hasAccepted := HasAccepted st,
                maxSeen := Promised st\<rparr>;
          p = ensureConnections p;
          (h, c) = every (ReconnectInterval (cfg p)) EnsureConnections (ctx p)
      in p\<lparr>ctx := c\<rparr>)"

text \<open>What \<open>Start\<close> registers: the handler of each message type, and the timer callbacks.\<close>

fun paxos_handle :: "paxos_msg \<Rightarrow> Host \<Rightarrow> paxos \<Rightarrow> paxos" where
  "paxos_handle (Prepare b) from p = onPrepare b from p"
| "paxos_handle (Promise b ok mb ab av ha) from p = onPromise b ok mb ab av ha from p"
| "paxos_handle (Accept b v) from p = onAccept b v from p"
| "paxos_handle (Accepted b v) from p = onAccepted b v from p"
| "paxos_handle (AcceptNack mb) from p = onAcceptNack mb p"

fun paxos_callback :: "paxos_cb \<Rightarrow> paxos \<Rightarrow> paxos" where
  "paxos_callback OnRetryTimeout p = onRetryTimeout p"
| "paxos_callback EnsureConnections p = ensureConnections p"

end
