(* ===== verification/Paxos_Spec.thy ===== *)
theory Paxos_Spec
  imports Paxos_State
begin

text \<open>
  The abstract specification of the synod: acceptors with a promised ballot, the set of votes
  cast and the set of proposals made.  A step promises, proposes a value that is safe at its
  ballot, or votes for a proposal.  Two chosen values are equal in every reachable state.  The
  cluster of \<open>Paxos_Cluster\<close> refines this machine.
\<close>

record vote_state =
  bal :: "Host \<Rightarrow> uint64"
  votes :: "(Host \<times> uint64 \<times> bytes) set"
  props :: "(uint64 \<times> bytes) set"

definition vinit :: vote_state where
  "vinit = \<lparr>bal = (\<lambda>_. 0), votes = {}, props = {}\<rparr>"

text \<open>
  A value is safe at a ballot when some majority has promised the ballot and either cast no vote
  below it or its highest vote below it was for that value.
\<close>

definition safeAt :: "Host set \<Rightarrow> vote_state \<Rightarrow> uint64 \<Rightarrow> bytes \<Rightarrow> bool" where
  "safeAt M s b v \<longleftrightarrow>
     (\<exists>Q. majority M Q \<and> (\<forall>a \<in> Q. b \<le> bal s a) \<and>
        ((\<forall>a \<in> Q. \<forall>b' v'. (a, b', v') \<in> votes s \<longrightarrow> \<not> b' < b) \<or>
         (\<exists>b0 a0. b0 < b \<and> a0 \<in> Q \<and> (a0, b0, v) \<in> votes s \<and>
            (\<forall>a \<in> Q. \<forall>b' v'. (a, b', v') \<in> votes s \<and> b' < b \<longrightarrow> b' \<le> b0))))"

inductive vstep :: "Host set \<Rightarrow> vote_state \<Rightarrow> vote_state \<Rightarrow> bool" for M where
  promise: "bal s a < b \<Longrightarrow> vstep M s (s\<lparr>bal := (bal s)(a := b)\<rparr>)"
| propose: "(\<And>v'. (b, v') \<notin> props s) \<Longrightarrow> safeAt M s b v \<Longrightarrow>
     vstep M s (s\<lparr>props := insert (b, v) (props s)\<rparr>)"
| cast: "(b, v) \<in> props s \<Longrightarrow> bal s a \<le> b \<Longrightarrow>
     vstep M s (s\<lparr>bal := (bal s)(a := b), votes := insert (a, b, v) (votes s)\<rparr>)"

inductive vreach :: "Host set \<Rightarrow> vote_state \<Rightarrow> bool" for M where
  vreach_init: "vreach M vinit"
| vreach_step: "vreach M s \<Longrightarrow> vstep M s t \<Longrightarrow> vreach M t"

definition chosen :: "Host set \<Rightarrow> vote_state \<Rightarrow> uint64 \<Rightarrow> bytes \<Rightarrow> bool" where
  "chosen M s b v \<longleftrightarrow> (\<exists>Q. majority M Q \<and> (\<forall>a \<in> Q. (a, b, v) \<in> votes s))"

subsection \<open>Invariants\<close>

definition vinv :: "Host set \<Rightarrow> vote_state \<Rightarrow> bool" where
  "vinv M s \<longleftrightarrow>
     (\<forall>a b v. (a, b, v) \<in> votes s \<longrightarrow> (b, v) \<in> props s) \<and>
     (\<forall>b v w. (b, v) \<in> props s \<and> (b, w) \<in> props s \<longrightarrow> v = w) \<and>
     (\<forall>b v. (b, v) \<in> props s \<longrightarrow> safeAt M s b v)"

text \<open>Safety is stable: promises only grow and a new vote is never below its voter's promise.\<close>

lemma safeAt_mono:
  assumes "safeAt M s b v"
    and "\<And>a. bal s a \<le> bal t a"
    and "votes s \<subseteq> votes t"
    and "\<And>a b' v'. (a, b', v') \<in> votes t \<Longrightarrow> (a, b', v') \<in> votes s \<or> bal s a \<le> b'"
  shows "safeAt M t b v"
proof -
  from assms(1) obtain Q where Q: "majority M Q" "\<forall>a \<in> Q. b \<le> bal s a"
      "(\<forall>a \<in> Q. \<forall>b' v'. (a, b', v') \<in> votes s \<longrightarrow> \<not> b' < b) \<or>
       (\<exists>b0 a0. b0 < b \<and> a0 \<in> Q \<and> (a0, b0, v) \<in> votes s \<and>
          (\<forall>a \<in> Q. \<forall>b' v'. (a, b', v') \<in> votes s \<and> b' < b \<longrightarrow> b' \<le> b0))"
    by (auto simp: safeAt_def)
  have old: "(a, b', v') \<in> votes s" if "a \<in> Q" "(a, b', v') \<in> votes t" "b' < b" for a b' v'
    using assms(4) [OF that(2)] Q(2) that(1,3) by force
  have "\<forall>a \<in> Q. b \<le> bal t a"
    using Q(2) assms(2) order.trans by blast
  moreover have "(\<forall>a \<in> Q. \<forall>b' v'. (a, b', v') \<in> votes t \<longrightarrow> \<not> b' < b) \<or>
       (\<exists>b0 a0. b0 < b \<and> a0 \<in> Q \<and> (a0, b0, v) \<in> votes t \<and>
          (\<forall>a \<in> Q. \<forall>b' v'. (a, b', v') \<in> votes t \<and> b' < b \<longrightarrow> b' \<le> b0))"
    using Q(3) assms(3) old by (meson subsetD)
  ultimately show ?thesis
    unfolding safeAt_def using Q(1) by blast
qed

lemma vinv_vstep: "vstep M s t \<Longrightarrow> vinv M s \<Longrightarrow> vinv M t"
proof (induction rule: vstep.induct)
  case (promise s a b)
  have "safeAt M (s\<lparr>bal := (bal s)(a := b)\<rparr>) b' v" if "safeAt M s b' v" for b' v
    using that by (rule safeAt_mono) (use promise in auto)
  with promise show ?case
    by (simp add: vinv_def)
next
  case (propose b s v)
  have "safeAt M (s\<lparr>props := insert (b, v) (props s)\<rparr>) b' w = safeAt M s b' w" for b' w
    by (simp add: safeAt_def)
  with propose show ?case
    by (auto simp: vinv_def)
next
  case (cast b v s a)
  have "safeAt M (s\<lparr>bal := (bal s)(a := b), votes := insert (a, b, v) (votes s)\<rparr>) b' w"
    if "safeAt M s b' w" for b' w
    using that by (rule safeAt_mono) (use cast in auto)
  with cast show ?case
    by (simp add: vinv_def)
qed

lemma vreach_vinv: "vreach M s \<Longrightarrow> vinv M s"
proof (induction rule: vreach.induct)
  case vreach_init
  show ?case by (simp add: vinv_def vinit_def)
next
  case (vreach_step s t)
  then show ?case by (blast intro: vinv_vstep)
qed

subsection \<open>Agreement of the abstract machine\<close>

text \<open>Every proposal at or above a chosen ballot carries the chosen value.\<close>

lemma chosen_locks:
  assumes inv: "vinv M s" and ch: "chosen M s b v"
  shows "(b', w) \<in> props s \<Longrightarrow> b \<le> b' \<Longrightarrow> w = v"
proof (induction b' arbitrary: w rule: measure_induct_rule [of unat])
  case (less b')
  from ch obtain C where C: "majority M C" "\<And>a. a \<in> C \<Longrightarrow> (a, b, v) \<in> votes s"
    by (auto simp: chosen_def)
  show ?case
  proof (cases "b = b'")
    case True
    obtain a where "a \<in> C" using maj.quorum_nonempty C(1) by blast
    then have "(b', v) \<in> props s"
      using C(2) inv True unfolding vinv_def by blast
    then show ?thesis
      using inv less.prems(1) unfolding vinv_def by blast
  next
    case False
    with less.prems have lt: "b < b'" by simp
    from inv less.prems(1) have "safeAt M s b' w" by (auto simp: vinv_def)
    then obtain Q where Q: "majority M Q"
        "(\<forall>a \<in> Q. \<forall>b'' v'. (a, b'', v') \<in> votes s \<longrightarrow> \<not> b'' < b') \<or>
         (\<exists>b0 a0. b0 < b' \<and> a0 \<in> Q \<and> (a0, b0, w) \<in> votes s \<and>
            (\<forall>a \<in> Q. \<forall>b'' v'. (a, b'', v') \<in> votes s \<and> b'' < b' \<longrightarrow> b'' \<le> b0))"
      unfolding safeAt_def by blast
    obtain a where a: "a \<in> C" "a \<in> Q" using maj.meets C(1) Q(1) by blast
    with C(2) lt Q(2) obtain b0 a0 where b0: "b0 < b'" "(a0, b0, w) \<in> votes s" "b \<le> b0"
      by blast
    then have "(b0, w) \<in> props s" using inv by (auto simp: vinv_def)
    then show ?thesis
      using less.IH [of b0 w] b0 by (simp add: word_less_nat_alt)
  qed
qed

lemma vreach_agreement:
  assumes "vreach M s" "chosen M s b v" "chosen M s b' v'"
  shows "v = v'"
proof -
  have inv: "vinv M s" using assms(1) by (rule vreach_vinv)
  have pr: "(b, v) \<in> props s" if "chosen M s b v" for b v
  proof -
    from that obtain C where "majority M C" "\<forall>a \<in> C. (a, b, v) \<in> votes s"
      by (auto simp: chosen_def)
    then show ?thesis using inv maj.quorum_nonempty [of M C] by (auto simp: vinv_def)
  qed
  show ?thesis
  proof (cases "b \<le> b'")
    case True
    then show ?thesis using chosen_locks [OF inv assms(2) pr [OF assms(3)]] by simp
  next
    case False
    then show ?thesis using chosen_locks [OF inv assms(3) pr [OF assms(2)]] by simp
  qed
qed

end
