(* ===== verification/Paxos_Cluster.thy ===== *)
theory Paxos_Cluster
  imports Paxos Paxos_Spec
begin

text \<open>
  A synod of the participants of \<open>Paxos\<close> over a network that may lose, duplicate, delay and
  reorder messages, with restarts from durable storage.  A step is one event handled by one
  member: a delivered message, a proposal, a timer, a session event or a restart.  The synod
  refines \<open>Paxos_Spec\<close>; from the refinement follow agreement and validity of every decision.
\<close>

subsection \<open>The synod\<close>

type_synonym synod = "(paxos, paxos_msg, paxos_note, PersistentState, MemoryStorage) cluster"

definition clear :: "paxos \<Rightarrow> paxos" where
  "clear p = p\<lparr>ctx := (ctx p)\<lparr>out := []\<rparr>\<rparr>"

definition run :: "Host \<Rightarrow> paxos \<Rightarrow> synod \<Rightarrow> synod" where
  "run h p s = absorb Persist h (clear p) (out (ctx p)) s"

text \<open>Every member lists exactly the other members, each once.\<close>

definition paxos_group :: "Host set \<Rightarrow> (Host \<Rightarrow> PaxosConfig) \<Rightarrow> bool" where
  "paxos_group M conf \<longleftrightarrow> finite M \<and>
     (\<forall>h \<in> M. distinct (filter (\<lambda>p. p \<noteq> h) (Peers (conf h))) \<and>
        set (filter (\<lambda>p. p \<noteq> h) (Peers (conf h))) = M - {h})"

definition synod_start ::
  "(uint64 \<Rightarrow> uint64 \<Rightarrow> nat stream) \<Rightarrow> (Host \<Rightarrow> bool) \<Rightarrow> (Host \<Rightarrow> PaxosConfig) \<Rightarrow> synod" where
  "synod_start pcg ce conf =
     \<lparr>nodes = (\<lambda>h. clear (paxos_Init pcg (Load NewMemoryStorage) (paxos_New h (conf h) ce))),
      net = {}, notices = {}, writes = {}, disk = (\<lambda>_. NewMemoryStorage)\<rparr>"

text \<open>
  \<open>synod_reach M pcg ce conf V s\<close>: the synod of the members \<open>M\<close> can reach \<open>s\<close> after the values of
  \<open>V\<close> were handed to \<open>Propose\<close>.  A member starts a round only while the next ballot number fits
  64 bits (\<open>ballot_room\<close>).
\<close>

inductive synod_reach ::
  "Host set \<Rightarrow> (uint64 \<Rightarrow> uint64 \<Rightarrow> nat stream) \<Rightarrow> (Host \<Rightarrow> bool) \<Rightarrow> (Host \<Rightarrow> PaxosConfig) \<Rightarrow>
     bytes set \<Rightarrow> synod \<Rightarrow> bool"
  for M pcg ce conf where
  start: "synod_reach M pcg ce conf {} (synod_start pcg ce conf)"
| deliver: "synod_reach M pcg ce conf V s \<Longrightarrow> h \<in> M \<Longrightarrow> (f, h, m) \<in> net s \<Longrightarrow>
    synod_reach M pcg ce conf V (run h (paxos_handle m f (nodes s h)) s)"
| propose: "synod_reach M pcg ce conf V s \<Longrightarrow> h \<in> M \<Longrightarrow>
    ballot_room (maxSeen (nodes s h)) (card M) \<Longrightarrow>
    synod_reach M pcg ce conf (insert v V) (run h (handlePropose v (nodes s h)) s)"
| timer: "synod_reach M pcg ce conf V s \<Longrightarrow> h \<in> M \<Longrightarrow> t \<in> set (pending (ctx (nodes s h))) \<Longrightarrow>
    ballot_room (maxSeen (nodes s h)) (card M) \<Longrightarrow>
    synod_reach M pcg ce conf V
      (run h (paxos_callback (tfn t) ((nodes s h)\<lparr>ctx := fire t (ctx (nodes s h))\<rparr>)) s)"
| debug: "synod_reach M pcg ce conf V s \<Longrightarrow> h \<in> M \<Longrightarrow>
    synod_reach M pcg ce conf V (run h (handleDebugState (nodes s h)) s)"
| connected: "synod_reach M pcg ce conf V s \<Longrightarrow> h \<in> M \<Longrightarrow>
    synod_reach M pcg ce conf V (run h (OnSessionConnected f (nodes s h)) s)"
| disconnected: "synod_reach M pcg ce conf V s \<Longrightarrow> h \<in> M \<Longrightarrow>
    synod_reach M pcg ce conf V (run h (OnSessionDisconnected f (nodes s h)) s)"
| givenUp: "synod_reach M pcg ce conf V s \<Longrightarrow> h \<in> M \<Longrightarrow>
    synod_reach M pcg ce conf V (run h (OnSessionGivenUp f (nodes s h)) s)"
| restart: "synod_reach M pcg ce conf V s \<Longrightarrow> h \<in> M \<Longrightarrow>
    synod_reach M pcg ce conf V
      (run h (paxos_Init pcg (Load (disk s h)) (paxos_New h (conf h) ce)) s)"

subsection \<open>The roster index of a member\<close>

definition idx :: "Host set \<Rightarrow> Host \<Rightarrow> nat" where
  "idx M a = rosterIndex 0 (sorted_list_of_set M) a"

lemma rosterIndex_nth:
  "h \<in> set xs \<Longrightarrow> i \<le> rosterIndex i xs h \<and> rosterIndex i xs h < i + length xs \<and>
     xs ! (rosterIndex i xs h - i) = h"
proof (induction xs arbitrary: i)
  case Nil
  then show ?case by simp
next
  case (Cons x xs)
  show ?case
  proof (cases "x = h")
    case True
    then show ?thesis by simp
  next
    case False
    with Cons.prems Cons.IH [of "Suc i"] have "Suc i \<le> rosterIndex (Suc i) xs h"
        "rosterIndex (Suc i) xs h < Suc i + length xs"
        "xs ! (rosterIndex (Suc i) xs h - Suc i) = h"
      by auto
    with False show ?thesis
      by (simp add: nth_Cons')
  qed
qed

lemma idx_less: "finite M \<Longrightarrow> a \<in> M \<Longrightarrow> idx M a < card M"
  using rosterIndex_nth [of a "sorted_list_of_set M" 0] by (simp add: idx_def)

lemma idx_inj: "finite M \<Longrightarrow> a \<in> M \<Longrightarrow> b \<in> M \<Longrightarrow> idx M a = idx M b \<Longrightarrow> a = b"
  using rosterIndex_nth [of a "sorted_list_of_set M" 0] rosterIndex_nth [of b "sorted_list_of_set M" 0]
  by (simp add: idx_def)

definition member_ok :: "Host set \<Rightarrow> Host \<Rightarrow> paxos \<Rightarrow> bool" where
  "member_ok M h p \<longleftrightarrow> self p = h \<and> set (peers p) = M - {h} \<and> groupSize p = card M \<and>
     index p = idx M h"

lemma Peers_fillDefaults [simp]: "Peers (paxos_fillDefaults c) = Peers c"
  by (simp add: paxos_fillDefaults_def Let_def)

lemma member_ok_New:
  assumes "paxos_group M conf" "h \<in> M"
  shows "member_ok M h (paxos_New h (conf h) ce)"
proof -
  let ?ps = "sort (filter (\<lambda>p. p \<noteq> h) (Peers (conf h)))"
  have d: "distinct ?ps" "set ?ps = M - {h}" and fin: "finite M"
    using assms by (auto simp: paxos_group_def)
  have "card (M - {h}) = length ?ps"
    using d distinct_card by metis
  then have n: "length ?ps + 1 = card M"
    using assms(2) fin by (metis Suc_eq_plus1 card_Suc_Diff1)
  have "sort (?ps @ [h]) = sorted_list_of_set M"
    using d assms(2) fin
    by (intro sorted_distinct_set_unique) (auto simp: set_eq_iff)
  then show ?thesis
    using d(2) n by (simp add: member_ok_def paxos_New_def Let_def idx_def)
qed

subsection \<open>What the history says\<close>

text \<open>
  A vote is an accepted proposal that reached the storage; a proposal is an \<open>Accept\<close> on the
  network or a vote (a single member votes without sending anything).
\<close>

definition vote :: "synod \<Rightarrow> Host \<Rightarrow> uint64 \<Rightarrow> bytes \<Rightarrow> bool" where
  "vote s a b v \<longleftrightarrow> (\<exists>st. (a, st) \<in> writes s \<and> HasAccepted st \<and> AcceptedBallot st = b \<and>
     AcceptedValue st = v)"

definition proposed :: "synod \<Rightarrow> uint64 \<Rightarrow> bytes \<Rightarrow> bool" where
  "proposed s b v \<longleftrightarrow> (\<exists>f d. (f, d, Accept b v) \<in> net s) \<or> (\<exists>a. vote s a b v)"

definition synod_abs :: "Host set \<Rightarrow> synod \<Rightarrow> vote_state" where
  "synod_abs M s = \<lparr>bal = (\<lambda>a. if a \<in> M then promised (nodes s a) else 0),
     votes = {(a, b, v). vote s a b v}, props = {(b, v). proposed s b v}\<rparr>"

lemma abs_simps [simp]:
  "bal (synod_abs M s) a = (if a \<in> M then promised (nodes s a) else 0)"
  "(a, b, v) \<in> votes (synod_abs M s) \<longleftrightarrow> vote s a b v"
  "(b, v) \<in> props (synod_abs M s) \<longleftrightarrow> proposed s b v"
  by (simp_all add: synod_abs_def)

text \<open>What a promise of \<open>a\<close> for ballot \<open>b\<close> reports is the highest vote of \<open>a\<close> below \<open>b\<close>, for ever.\<close>

definition okPromise :: "synod \<Rightarrow> Host \<Rightarrow> uint64 \<Rightarrow> promiseInfo \<Rightarrow> bool" where
  "okPromise s a b i \<longleftrightarrow>
     b \<le> promised (nodes s a) \<and>
     (hasAcceptedI i \<longrightarrow> vote s a (acceptedBallotI i) (acceptedValueI i) \<and> acceptedBallotI i < b) \<and>
     (\<forall>b' v'. vote s a b' v' \<and> b' < b \<longrightarrow> hasAcceptedI i \<and> b' \<le> acceptedBallotI i)"

subsection \<open>The invariant\<close>

definition inv_mem :: "Host set \<Rightarrow> synod \<Rightarrow> bool" where
  "inv_mem M s \<longleftrightarrow> (\<forall>a \<in> M. member_ok M a (nodes s a)) \<and>
     (\<forall>a st. (a, st) \<in> writes s \<longrightarrow> a \<in> M) \<and> (\<forall>a d m. (a, d, m) \<in> net s \<longrightarrow> a \<in> M)"

definition inv_disk :: "Host set \<Rightarrow> synod \<Rightarrow> bool" where
  "inv_disk M s \<longleftrightarrow> (\<forall>a \<in> M. Load (disk s a) = persisted (nodes s a))"

definition inv_acc :: "Host set \<Rightarrow> synod \<Rightarrow> bool" where
  "inv_acc M s \<longleftrightarrow> (\<forall>a \<in> M. promised (nodes s a) \<le> maxSeen (nodes s a) \<and>
     (hasAccepted (nodes s a) \<longrightarrow>
        vote s a (acceptedBallot (nodes s a)) (acceptedValue (nodes s a)) \<and>
        acceptedBallot (nodes s a) \<le> promised (nodes s a)) \<and>
     (\<forall>b v. vote s a b v \<longrightarrow> hasAccepted (nodes s a) \<and> b \<le> acceptedBallot (nodes s a)))"

definition inv_own :: "Host set \<Rightarrow> synod \<Rightarrow> bool" where
  "inv_own M s \<longleftrightarrow> (\<forall>a \<in> M.
     (phase (nodes s a) = 1 \<longrightarrow>
        unat (myBallot (nodes s a)) mod card M = idx M a \<and>
        myBallot (nodes s a) \<le> promised (nodes s a) \<and>
        (\<forall>v. \<not> proposed s (myBallot (nodes s a)) v)) \<and>
     (\<forall>b v. proposed s b v \<and> unat b mod card M = idx M a \<longrightarrow> b \<le> promised (nodes s a)))"

definition inv_prom :: "Host set \<Rightarrow> synod \<Rightarrow> bool" where
  "inv_prom M s \<longleftrightarrow>
     (\<forall>a d b mb ab av ha. (a, d, Promise b True mb ab av ha) \<in> net s \<longrightarrow>
        okPromise s a b (PromiseInfo ab av ha)) \<and>
     (\<forall>c \<in> M. phase (nodes s c) = 1 \<longrightarrow>
        (\<forall>a i. promises (nodes s c) a = Some i \<longrightarrow> a \<in> M \<and> okPromise s a (myBallot (nodes s c)) i))"

definition inv_learn :: "Host set \<Rightarrow> synod \<Rightarrow> bool" where
  "inv_learn M s \<longleftrightarrow>
     (\<forall>a d b v. (a, d, Accepted b v) \<in> net s \<longrightarrow> vote s a b v) \<and>
     (\<forall>c \<in> M.
        (\<forall>b S a. accepts (nodes s c) b = Some S \<and> a \<in> S \<longrightarrow> (\<exists>v. vote s a b v)) \<and>
        (\<forall>b v. valueAt (nodes s c) b = Some v \<longrightarrow> (\<exists>a. vote s a b v)))"

definition inv_dec :: "Host set \<Rightarrow> synod \<Rightarrow> bool" where
  "inv_dec M s \<longleftrightarrow>
     (\<forall>c \<in> M. decided (nodes s c) \<longrightarrow>
        chosen M (synod_abs M s) (decidedBallot (nodes s c)) (decidedValue (nodes s c))) \<and>
     (\<forall>c v b. (c, Decided v b) \<in> notices s \<longrightarrow> chosen M (synod_abs M s) b v)"

definition inv_val :: "Host set \<Rightarrow> bytes set \<Rightarrow> synod \<Rightarrow> bool" where
  "inv_val M V s \<longleftrightarrow> (\<forall>b v. proposed s b v \<longrightarrow> v \<in> V) \<and>
     (\<forall>a \<in> M. proposing (nodes s a) \<longrightarrow> myValue (nodes s a) \<in> V)"

definition inv :: "Host set \<Rightarrow> bytes set \<Rightarrow> synod \<Rightarrow> bool" where
  "inv M V s \<longleftrightarrow> finite M \<and> inv_mem M s \<and> inv_disk M s \<and> inv_acc M s \<and> inv_own M s \<and> inv_prom M s \<and>
     inv_learn M s \<and> inv_dec M s \<and> inv_val M V s \<and> vreach M (synod_abs M s)"

lemmas inv_defs = inv_mem_def inv_disk_def inv_acc_def inv_own_def inv_prom_def inv_learn_def
  inv_dec_def inv_val_def

subsection \<open>How a running handler changes the synod\<close>

lemma clear_simps [simp]:
  "cfg (clear p) = cfg p" "self (clear p) = self p" "peers (clear p) = peers p"
  "index (clear p) = index p" "groupSize (clear p) = groupSize p" "promised (clear p) = promised p"
  "acceptedBallot (clear p) = acceptedBallot p" "acceptedValue (clear p) = acceptedValue p"
  "hasAccepted (clear p) = hasAccepted p" "maxSeen (clear p) = maxSeen p"
  "proposing (clear p) = proposing p" "phase (clear p) = phase p" "myBallot (clear p) = myBallot p"
  "myValue (clear p) = myValue p" "promises (clear p) = promises p" "accepts (clear p) = accepts p"
  "valueAt (clear p) = valueAt p" "decided (clear p) = decided p"
  "decidedBallot (clear p) = decidedBallot p" "decidedValue (clear p) = decidedValue p"
  "persisted (clear p) = persisted p" "member_ok M h (clear p) = member_ok M h p"
  by (simp_all add: clear_def persisted_def member_ok_def)

lemma run_simps [simp]:
  "nodes (run h p s) = (nodes s)(h := clear p)"
  "(a, b, m) \<in> net (run h p s) \<longleftrightarrow> (a, b, m) \<in> net s \<or> a = h \<and> Sent m b \<in> set (out (ctx p))"
  "(a, n) \<in> notices (run h p s) \<longleftrightarrow> (a, n) \<in> notices s \<or> a = h \<and> Published n \<in> set (out (ctx p))"
  "(a, w) \<in> writes (run h p s) \<longleftrightarrow> (a, w) \<in> writes s \<or> a = h \<and> Stored w \<in> set (out (ctx p))"
  "disk (run h p s) = (disk s)(h := fold Persist (storedL (out (ctx p))) (disk s h))"
  by (simp_all add: run_def)

text \<open>
  \<open>J M V c s p\<close>: the synod would satisfy the invariant if member \<open>c\<close>, in the middle of a handler
  that started in \<open>s\<close>, stopped in the state \<open>p\<close>.  Each helper of a handler preserves \<open>J\<close>.
\<close>

definition J :: "Host set \<Rightarrow> bytes set \<Rightarrow> Host \<Rightarrow> synod \<Rightarrow> paxos \<Rightarrow> bool" where
  "J M V c s p \<longleftrightarrow> c \<in> M \<and> inv M V (run c p s)"

lemma vote_run:
  "vote (run c p s) a b v \<longleftrightarrow> vote s a b v \<or>
     a = c \<and> (\<exists>st. Stored st \<in> set (out (ctx p)) \<and> HasAccepted st \<and> AcceptedBallot st = b \<and>
       AcceptedValue st = v)"
  by (auto simp: vote_def)

lemma proposed_run:
  "proposed (run c p s) b v \<longleftrightarrow> proposed s b v \<or> (\<exists>a. vote (run c p s) a b v) \<or>
     (\<exists>d. Sent (Accept b v) d \<in> set (out (ctx p)))"
  by (auto simp: proposed_def vote_run)

lemma okPromise_mono:
  assumes "okPromise S a b i" "promised (nodes S a) \<le> promised (nodes S' a)"
    and "\<And>b v. vote S a b v \<Longrightarrow> vote S' a b v"
    and "\<And>b v. vote S' a b v \<Longrightarrow> vote S a b v \<or> promised (nodes S a) \<le> b"
  shows "okPromise S' a b i"
  using assms unfolding okPromise_def by (meson leD order.trans)

lemma chosen_mono:
  "chosen M (synod_abs M S) b v \<Longrightarrow> (\<And>a b v. vote S a b v \<Longrightarrow> vote S' a b v) \<Longrightarrow>
     chosen M (synod_abs M S') b v"
  by (auto simp: chosen_def)

text \<open>The clauses of the invariant one at a time, when only member \<open>c\<close> changes, from \<open>p\<close> to \<open>p'\<close>.\<close>

definition only :: "Host \<Rightarrow> paxos \<Rightarrow> paxos \<Rightarrow> synod \<Rightarrow> synod \<Rightarrow> bool" where
  "only c p p' S S' \<longleftrightarrow> nodes S c = clear p \<and> nodes S' = (nodes S)(c := clear p')"

lemma only_run: "only c p p' (run c p s) (run c p' s)"
  by (simp add: only_def)

lemma step_acc:
  assumes "only c p p' S S'" "inv_acc M S"
    and "\<And>a b v. a \<noteq> c \<Longrightarrow> vote S' a b v = vote S a b v"
    and "promised p' \<le> maxSeen p'"
    and "hasAccepted p' \<Longrightarrow>
      vote S' c (acceptedBallot p') (acceptedValue p') \<and> acceptedBallot p' \<le> promised p'"
    and "\<And>b v. vote S' c b v \<Longrightarrow> hasAccepted p' \<and> b \<le> acceptedBallot p'"
  shows "inv_acc M S'"
  unfolding inv_acc_def
proof
  fix a assume "a \<in> M"
  then show "promised (nodes S' a) \<le> maxSeen (nodes S' a) \<and>
     (hasAccepted (nodes S' a) \<longrightarrow>
        vote S' a (acceptedBallot (nodes S' a)) (acceptedValue (nodes S' a)) \<and>
        acceptedBallot (nodes S' a) \<le> promised (nodes S' a)) \<and>
     (\<forall>b v. vote S' a b v \<longrightarrow> hasAccepted (nodes S' a) \<and> b \<le> acceptedBallot (nodes S' a))"
    using assms by (cases "a = c") (simp_all add: only_def inv_acc_def)
qed

lemma step_own:
  assumes n: "only c p p' S S'" and inv: "inv_own M S" and c: "c \<in> M" "finite M"
    and prom: "promised p \<le> promised p'"
    and newprop: "\<And>b v. proposed S' b v \<Longrightarrow>
      proposed S b v \<or> unat b mod card M = idx M c \<and> b \<le> promised p'"
    and own: "phase p' = 1 \<Longrightarrow> unat (myBallot p') mod card M = idx M c \<and>
      myBallot p' \<le> promised p' \<and> (\<forall>v. \<not> proposed S' (myBallot p') v)"
  shows "inv_own M S'"
  unfolding inv_own_def
proof
  fix a assume a: "a \<in> M"
  have i: "idx M a = idx M c \<Longrightarrow> a = c"
    using idx_inj a c by blast
  have old: "phase (nodes S a) = 1 \<longrightarrow> unat (myBallot (nodes S a)) mod card M = idx M a \<and>
        myBallot (nodes S a) \<le> promised (nodes S a) \<and> (\<forall>v. \<not> proposed S (myBallot (nodes S a)) v)"
      "proposed S b v \<Longrightarrow> unat b mod card M = idx M a \<Longrightarrow> b \<le> promised (nodes S a)" for b v
    using inv a by (auto simp: inv_own_def)
  show "(phase (nodes S' a) = 1 \<longrightarrow> unat (myBallot (nodes S' a)) mod card M = idx M a \<and>
        myBallot (nodes S' a) \<le> promised (nodes S' a) \<and>
        (\<forall>v. \<not> proposed S' (myBallot (nodes S' a)) v)) \<and>
     (\<forall>b v. proposed S' b v \<and> unat b mod card M = idx M a \<longrightarrow> b \<le> promised (nodes S' a))"
  proof (cases "a = c")
    case True
    have "b \<le> promised p'" if "proposed S' b v" "unat b mod card M = idx M a" for b v
      using newprop [OF that(1)] old(2) [of b v] that(2) prom True n by (auto simp: only_def)
    with own True n show ?thesis by (auto simp: only_def)
  next
    case False
    have "proposed S b v" if "proposed S' b v" "unat b mod card M = idx M a" for b v
      using newprop [OF that(1)] that(2) i False by auto
    with old False n show ?thesis by (simp add: only_def) blast
  qed
qed

lemma step_prom:
  assumes n: "only c p p' S S'" and inv: "inv_prom M S"
    and netS: "\<And>a d m. (a, d, m) \<in> net S' \<Longrightarrow> (a, d, m) \<in> net S \<or> a = c \<and> Sent m d \<in> set es"
    and okP: "\<And>a b i. okPromise S a b i \<Longrightarrow> okPromise S' a b i"
    and prommsg: "\<And>d b mb ab av ha. Sent (Promise b True mb ab av ha) d \<in> set es \<Longrightarrow>
      okPromise S' c b (PromiseInfo ab av ha)"
    and coll: "\<And>a i. phase p' = 1 \<Longrightarrow> promises p' a = Some i \<Longrightarrow>
      a \<in> M \<and> okPromise S' a (myBallot p') i"
  shows "inv_prom M S'"
  unfolding inv_prom_def
proof (intro conjI allI impI ballI)
  fix a d b mb ab av ha
  assume "(a, d, Promise b True mb ab av ha) \<in> net S'"
  from netS [OF this] show "okPromise S' a b (PromiseInfo ab av ha)"
    using inv okP prommsg unfolding inv_prom_def by blast
next
  fix e a i
  assume e: "e \<in> M" "phase (nodes S' e) = 1" "promises (nodes S' e) a = Some i"
  show "a \<in> M" "okPromise S' a (myBallot (nodes S' e)) i"
    using e n inv okP coll [of a i]
    by (cases "e = c"; force simp: only_def inv_prom_def)+
qed

lemma step_learn:
  assumes n: "only c p p' S S'" and inv: "inv_learn M S"
    and netS: "\<And>a d m. (a, d, m) \<in> net S' \<Longrightarrow> (a, d, m) \<in> net S \<or> a = c \<and> Sent m d \<in> set es"
    and up: "\<And>a b v. vote S a b v \<Longrightarrow> vote S' a b v"
    and accmsg: "\<And>d b v. Sent (Accepted b v) d \<in> set es \<Longrightarrow> vote S' c b v"
    and learn: "\<And>b T a. accepts p' b = Some T \<Longrightarrow> a \<in> T \<Longrightarrow> \<exists>v. vote S' a b v"
      "\<And>b v. valueAt p' b = Some v \<Longrightarrow> \<exists>a. vote S' a b v"
  shows "inv_learn M S'"
  unfolding inv_learn_def
proof (intro conjI allI impI ballI; (elim conjE)?)
  fix a d b v
  assume "(a, d, Accepted b v) \<in> net S'"
  from netS [OF this] show "vote S' a b v"
    using inv up accmsg unfolding inv_learn_def by blast
next
  fix e b T a
  assume e: "e \<in> M" "accepts (nodes S' e) b = Some T" "a \<in> T"
  show "\<exists>v. vote S' a b v"
    using e n inv up learn(1) [of b T a] unfolding inv_learn_def
    by (cases "e = c") (auto simp: only_def, blast)
next
  fix e b v
  assume e: "e \<in> M" "valueAt (nodes S' e) b = Some v"
  show "\<exists>a. vote S' a b v"
    using e n inv up learn(2) [of b v] unfolding inv_learn_def
    by (cases "e = c") (auto simp: only_def, blast)
qed

lemma step_dec:
  assumes n: "only c p p' S S'" and inv: "inv_dec M S"
    and up: "\<And>a b v. vote S a b v \<Longrightarrow> vote S' a b v"
    and nts: "\<And>e x. (e, x) \<in> notices S' \<Longrightarrow> (e, x) \<in> notices S \<or> Published x \<in> set es"
    and dec: "decided p' \<Longrightarrow> chosen M (synod_abs M S') (decidedBallot p') (decidedValue p')"
      "\<And>v b. Published (Decided v b) \<in> set es \<Longrightarrow> chosen M (synod_abs M S') b v"
  shows "inv_dec M S'"
  unfolding inv_dec_def
proof (intro conjI allI impI ballI)
  fix e assume e: "e \<in> M" "decided (nodes S' e)"
  show "chosen M (synod_abs M S') (decidedBallot (nodes S' e)) (decidedValue (nodes S' e))"
    using e n inv dec(1) chosen_mono [OF _ up] unfolding inv_dec_def
    by (cases "e = c") (auto simp: only_def)
next
  fix e v b assume "(e, Decided v b) \<in> notices S'"
  then show "chosen M (synod_abs M S') b v"
    using nts inv dec(2) chosen_mono [OF _ up] unfolding inv_dec_def by blast
qed

text \<open>
  The obligations of one change of \<open>c\<close> from \<open>p\<close> to \<open>p'\<close> with the new effects \<open>es\<close>: everything the
  invariant says about \<open>c\<close> itself, about the new messages, votes and proposals, and that the
  abstract machine follows.
\<close>

lemma J_step:
  assumes J: "J M V c s p"
    and S: "S = run c p s" and S': "S' = run c p' s"
    and out: "out (ctx p') = out (ctx p) @ es"
    and mem: "member_ok M c p'"
    and disk: "persisted p' = (if storedL es = [] then persisted p else last (storedL es))"
    and prom: "promised p \<le> promised p'" and seen: "promised p' \<le> maxSeen p'"
    and acc: "hasAccepted p' \<Longrightarrow>
      vote S' c (acceptedBallot p') (acceptedValue p') \<and> acceptedBallot p' \<le> promised p'"
    and newvote: "\<And>b v. vote S' c b v \<Longrightarrow>
      (vote S c b v \<or> promised p \<le> b) \<and> hasAccepted p' \<and> b \<le> acceptedBallot p'"
    and newprop: "\<And>b v. proposed S' b v \<Longrightarrow>
      proposed S b v \<or> unat b mod card M = idx M c \<and> b \<le> promised p' \<and> v \<in> V"
    and own: "phase p' = 1 \<Longrightarrow> unat (myBallot p') mod card M = idx M c \<and>
      myBallot p' \<le> promised p' \<and> (\<forall>v. \<not> proposed S' (myBallot p') v)"
    and prommsg: "\<And>d b mb ab av ha. Sent (Promise b True mb ab av ha) d \<in> set es \<Longrightarrow>
      okPromise S' c b (PromiseInfo ab av ha)"
    and coll: "\<And>a i. phase p' = 1 \<Longrightarrow> promises p' a = Some i \<Longrightarrow>
      a \<in> M \<and> okPromise S' a (myBallot p') i"
    and accmsg: "\<And>d b v. Sent (Accepted b v) d \<in> set es \<Longrightarrow> vote S' c b v"
    and learn: "\<And>b T a. accepts p' b = Some T \<Longrightarrow> a \<in> T \<Longrightarrow> \<exists>v. vote S' a b v"
      "\<And>b v. valueAt p' b = Some v \<Longrightarrow> \<exists>a. vote S' a b v"
    and dec: "decided p' \<Longrightarrow> chosen M (synod_abs M S') (decidedBallot p') (decidedValue p')"
      "\<And>v b. Published (Decided v b) \<in> set es \<Longrightarrow> chosen M (synod_abs M S') b v"
    and val: "proposing p' \<Longrightarrow> myValue p' \<in> V"
    and ref: "vreach M (synod_abs M S')"
  shows "J M V c s p'"
proof -
  have c: "c \<in> M" and inv: "finite M" "inv_mem M S" "inv_disk M S" "inv_acc M S" "inv_own M S"
      "inv_prom M S" "inv_learn M S" "inv_dec M S" "inv_val M V S"
    using J by (simp_all add: J_def inv_def S)
  have n: "only c p p' S S'" unfolding S S' by (rule only_run)
  have netS: "(a, d, m) \<in> net S' \<Longrightarrow> (a, d, m) \<in> net S \<or> a = c \<and> Sent m d \<in> set es" for a d m
    by (auto simp: S S' out)
  have up: "vote S' a b v" if "vote S a b v" for a b v
    using that by (auto simp: S S' vote_run out)
  have same: "vote S' a b v = vote S a b v" if "a \<noteq> c" for a b v
    using that by (auto simp: S S' vote_run)
  have okP: "okPromise S' a b i" if "okPromise S a b i" for a b i
    using that prom newvote same up
    by (intro okPromise_mono [of S a b i S']) (cases "a = c"; force simp: S S')+
  have "inv_mem M S'"
    using inv(2) c mem by (auto simp: inv_mem_def S S' out split: if_splits)
  moreover have "inv_disk M S'"
    using inv(3) c disk by (auto simp: inv_disk_def S S' out mem.load_fold)
  moreover have "inv_acc M S'"
    using n inv(4) same seen acc by (rule step_acc) (use newvote in blast)+
  moreover have "inv_own M S'"
    using n inv(5) c inv(1) prom by (rule step_own) (use newprop own in blast)+
  moreover have "inv_prom M S'"
    using n inv(6) netS okP prommsg coll by (rule step_prom)
  moreover have "inv_learn M S'"
    using n inv(7) netS up accmsg learn by (rule step_learn)
  moreover have "inv_dec M S'"
    using n inv(8) up _ dec by (rule step_dec) (auto simp: S S' out)
  moreover have "inv_val M V S'"
    using inv(9) newprop val unfolding inv_val_def by (auto simp: S S' split: if_splits)
  ultimately show ?thesis
    using c inv(1) ref by (simp add: J_def inv_def S')
qed

subsection \<open>What holds of the running member\<close>

lemma J_facts:
  assumes "J M V c s p"
  shows "c \<in> M" "finite M" "member_ok M c p" "promised p \<le> maxSeen p"
    "hasAccepted p \<Longrightarrow> vote (run c p s) c (acceptedBallot p) (acceptedValue p)"
    "hasAccepted p \<Longrightarrow> acceptedBallot p \<le> promised p"
    "\<And>b v. vote (run c p s) c b v \<Longrightarrow> hasAccepted p \<and> b \<le> acceptedBallot p"
    "phase p = 1 \<Longrightarrow> unat (myBallot p) mod card M = idx M c \<and> myBallot p \<le> promised p \<and>
       (\<forall>v. \<not> proposed (run c p s) (myBallot p) v)"
    "\<And>b v. proposed (run c p s) b v \<Longrightarrow> unat b mod card M = idx M c \<Longrightarrow> b \<le> promised p"
    "\<And>a i. phase p = 1 \<Longrightarrow> promises p a = Some i \<Longrightarrow>
       a \<in> M \<and> okPromise (run c p s) a (myBallot p) i"
    "\<And>b T a. accepts p b = Some T \<Longrightarrow> a \<in> T \<Longrightarrow> \<exists>v. vote (run c p s) a b v"
    "\<And>b v. valueAt p b = Some v \<Longrightarrow> \<exists>a. vote (run c p s) a b v"
    "decided p \<Longrightarrow> chosen M (synod_abs M (run c p s)) (decidedBallot p) (decidedValue p)"
    "proposing p \<Longrightarrow> myValue p \<in> V"
    "vreach M (synod_abs M (run c p s))"
    "\<And>b v. proposed (run c p s) b v \<Longrightarrow> v \<in> V"
    "\<And>a b v. vote (run c p s) a b v \<Longrightarrow> a \<in> M"
proof -
  have c: "c \<in> M" and inv: "finite M" "inv_mem M (run c p s)" "inv_acc M (run c p s)"
      "inv_own M (run c p s)" "inv_prom M (run c p s)" "inv_learn M (run c p s)"
      "inv_dec M (run c p s)" "inv_val M V (run c p s)" "vreach M (synod_abs M (run c p s))"
    using assms by (simp_all add: J_def inv_def)
  note here = bspec [OF _ c]
  show "c \<in> M" "finite M" "vreach M (synod_abs M (run c p s))" by fact+
  show "member_ok M c p"
    using inv(2) c by (auto simp: inv_mem_def)
  show "promised p \<le> maxSeen p"
    "hasAccepted p \<Longrightarrow> vote (run c p s) c (acceptedBallot p) (acceptedValue p)"
    "hasAccepted p \<Longrightarrow> acceptedBallot p \<le> promised p"
    "\<And>b v. vote (run c p s) c b v \<Longrightarrow> hasAccepted p \<and> b \<le> acceptedBallot p"
    using here [OF inv(3) [unfolded inv_acc_def]] by auto
  show "phase p = 1 \<Longrightarrow> unat (myBallot p) mod card M = idx M c \<and> myBallot p \<le> promised p \<and>
       (\<forall>v. \<not> proposed (run c p s) (myBallot p) v)"
    "\<And>b v. proposed (run c p s) b v \<Longrightarrow> unat b mod card M = idx M c \<Longrightarrow> b \<le> promised p"
    using here [OF inv(4) [unfolded inv_own_def]] by auto
  show "\<And>a i. phase p = 1 \<Longrightarrow> promises p a = Some i \<Longrightarrow>
       a \<in> M \<and> okPromise (run c p s) a (myBallot p) i"
    using here [OF conjunct2 [OF inv(5) [unfolded inv_prom_def]]] by simp
  show "\<And>b T a. accepts p b = Some T \<Longrightarrow> a \<in> T \<Longrightarrow> \<exists>v. vote (run c p s) a b v"
    "\<And>b v. valueAt p b = Some v \<Longrightarrow> \<exists>a. vote (run c p s) a b v"
    using here [OF conjunct2 [OF inv(6) [unfolded inv_learn_def]]] by auto
  show "decided p \<Longrightarrow> chosen M (synod_abs M (run c p s)) (decidedBallot p) (decidedValue p)"
    using here [OF conjunct1 [OF inv(7) [unfolded inv_dec_def]]] by simp
  show "proposing p \<Longrightarrow> myValue p \<in> V" "\<And>b v. proposed (run c p s) b v \<Longrightarrow> v \<in> V"
    using inv(8) c by (auto simp: inv_val_def split: if_splits)
  show "\<And>a b v. vote (run c p s) a b v \<Longrightarrow> a \<in> M"
    using inv(2) unfolding inv_mem_def vote_def by blast
qed

subsection \<open>Changes the invariant does not see\<close>

fun quiet :: "(paxos_msg, paxos_note, paxos_reply, PersistentState) effect \<Rightarrow> bool" where
  "quiet (Stored _) = False"
| "quiet (Published _) = False"
| "quiet (Sent (Accept _ _) _) = False"
| "quiet (Sent (Accepted _ _) _) = False"
| "quiet (Sent (Promise _ ok _ _ _ _) _) = (\<not> ok)"
| "quiet _ = True"

lemma storedL_quiet: "list_all quiet es \<Longrightarrow> storedL es = []"
  by (induction es rule: storedL.induct) auto

lemma vote_same:
  "out (ctx p') = out (ctx p) @ es \<Longrightarrow> storedL es = [] \<Longrightarrow>
     vote (run c p' s) a b v = vote (run c p s) a b v"
  using set_storedL [of es] by (auto simp: vote_run)

lemma proposed_same:
  "out (ctx p') = out (ctx p) @ es \<Longrightarrow> storedL es = [] \<Longrightarrow>
     (\<And>d b v. Sent (Accept b v) d \<notin> set es) \<Longrightarrow>
     proposed (run c p' s) b v = proposed (run c p s) b v"
  by (simp add: proposed_run vote_same)

lemma synod_abs_same:
  assumes "promised p' = promised p" "\<And>a b v. vote (run c p' s) a b v = vote (run c p s) a b v"
    "\<And>b v. proposed (run c p' s) b v = proposed (run c p s) b v"
  shows "synod_abs M (run c p' s) = synod_abs M (run c p s)"
  using assms by (auto simp: synod_abs_def)

lemma okPromise_same:
  assumes "promised p' = promised p" "\<And>a b v. vote (run c p' s) a b v = vote (run c p s) a b v"
  shows "okPromise (run c p' s) a b i = okPromise (run c p s) a b i"
  using assms by (auto simp: okPromise_def)

text \<open>
  Changes with no storage write: the acceptor's state stays, so votes stay; what is left are the
  obligations on the fields that did change.
\<close>

lemma J_volatile:
  assumes J: "J M V c s p"
    and out: "out (ctx p') = out (ctx p) @ es" "storedL es = []"
      "\<And>d b v. Sent (Accept b v) d \<notin> set es"
    and acceptor: "persisted p' = persisted p" "promised p \<le> maxSeen p'" "member_ok M c p'"
    and own: "phase p' = 1 \<Longrightarrow> phase p = 1 \<and> myBallot p' = myBallot p"
    and prommsg: "\<And>d b mb ab av ha. Sent (Promise b True mb ab av ha) d \<in> set es \<Longrightarrow>
      okPromise (run c p s) c b (PromiseInfo ab av ha)"
    and coll: "\<And>a i. phase p' = 1 \<Longrightarrow> promises p' a = Some i \<Longrightarrow>
      a \<in> M \<and> okPromise (run c p s) a (myBallot p) i"
    and accmsg: "\<And>d b v. Sent (Accepted b v) d \<in> set es \<Longrightarrow> vote (run c p s) c b v"
    and learn: "\<And>b T a. accepts p' b = Some T \<Longrightarrow> a \<in> T \<Longrightarrow> \<exists>v. vote (run c p s) a b v"
      "\<And>b v. valueAt p' b = Some v \<Longrightarrow> \<exists>a. vote (run c p s) a b v"
    and dec: "decided p' \<Longrightarrow>
        chosen M (synod_abs M (run c p s)) (decidedBallot p') (decidedValue p')"
      "\<And>v b. Published (Decided v b) \<in> set es \<Longrightarrow> chosen M (synod_abs M (run c p s)) b v"
    and val: "proposing p' \<Longrightarrow> myValue p' \<in> V"
  shows "J M V c s p'"
proof -
  note f = J_facts [OF J]
  have a: "promised p' = promised p" "acceptedBallot p' = acceptedBallot p"
      "acceptedValue p' = acceptedValue p" "hasAccepted p' = hasAccepted p"
    using acceptor(1) by (simp_all add: persisted_def)
  have v: "vote (run c p' s) x b w = vote (run c p s) x b w" for x b w
    using out(1,2) by (rule vote_same)
  have pr: "proposed (run c p' s) b w = proposed (run c p s) b w" for b w
    using out by (rule proposed_same)
  have ab: "synod_abs M (run c p' s) = synod_abs M (run c p s)"
    using a(1) v pr by (rule synod_abs_same)
  have ok: "okPromise (run c p' s) x b i = okPromise (run c p s) x b i" for x b i
    using a(1) v by (rule okPromise_same)
  show ?thesis
    using J refl refl out(1)
  proof (rule J_step)
    show "phase p' = 1 \<Longrightarrow> unat (myBallot p') mod card M = idx M c \<and> myBallot p' \<le> promised p' \<and>
        (\<forall>v. \<not> proposed (run c p' s) (myBallot p') v)"
      using own f(8) by (auto simp: a pr)
    show "promised p' \<le> maxSeen p'"
      using acceptor(2) a(1) by simp
    show "\<And>x i. phase p' = 1 \<Longrightarrow> promises p' x = Some i \<Longrightarrow>
        x \<in> M \<and> okPromise (run c p' s) x (myBallot p') i"
      using coll own by (simp add: ok)
  qed (use f acceptor(1,3) a out(2) prommsg accmsg learn dec val in
        \<open>simp_all add: v pr ab ok\<close>)
qed

subsection \<open>The helpers\<close>

lemma member_ok_update [simp]:
  "member_ok M c (ctx_update f1 p) = member_ok M c p"
  "member_ok M c (maxSeen_update f2 p) = member_ok M c p"
  "member_ok M c (rng_update f3 p) = member_ok M c p"
  "member_ok M c (proposing_update f4 p) = member_ok M c p"
  "member_ok M c (phase_update f5 p) = member_ok M c p"
  "member_ok M c (myBallot_update f6 p) = member_ok M c p"
  "member_ok M c (myValue_update f7 p) = member_ok M c p"
  "member_ok M c (promises_update f8 p) = member_ok M c p"
  "member_ok M c (retryTimer_update f9 p) = member_ok M c p"
  "member_ok M c (accepts_update f10 p) = member_ok M c p"
  "member_ok M c (valueAt_update f11 p) = member_ok M c p"
  "member_ok M c (decided_update f12 p) = member_ok M c p"
  "member_ok M c (decidedBallot_update f13 p) = member_ok M c p"
  "member_ok M c (decidedValue_update f14 p) = member_ok M c p"
  "member_ok M c (announced_update f15 p) = member_ok M c p"
  "member_ok M c (sessions_update f16 p) = member_ok M c p"
  "member_ok M c (promised_update f17 p) = member_ok M c p"
  "member_ok M c (acceptedBallot_update f18 p) = member_ok M c p"
  "member_ok M c (acceptedValue_update f19 p) = member_ok M c p"
  "member_ok M c (hasAccepted_update f20 p) = member_ok M c p"
  by (simp_all add: member_ok_def)

lemma persisted_update [simp]:
  "persisted (ctx_update f21 p) = persisted p"
  "persisted (maxSeen_update f22 p) = persisted p"
  "persisted (rng_update f23 p) = persisted p"
  "persisted (proposing_update f24 p) = persisted p"
  "persisted (phase_update f25 p) = persisted p"
  "persisted (myBallot_update f26 p) = persisted p"
  "persisted (myValue_update f27 p) = persisted p"
  "persisted (promises_update f28 p) = persisted p"
  "persisted (retryTimer_update f29 p) = persisted p"
  "persisted (accepts_update f30 p) = persisted p"
  "persisted (valueAt_update f31 p) = persisted p"
  "persisted (decided_update f32 p) = persisted p"
  "persisted (decidedBallot_update f33 p) = persisted p"
  "persisted (decidedValue_update f34 p) = persisted p"
  "persisted (announced_update f35 p) = persisted p"
  "persisted (sessions_update f36 p) = persisted p"
  by (simp_all add: persisted_def)

lemma J_quiet:
  assumes J: "J M V c s p"
    and "out (ctx p') = out (ctx p) @ es" "list_all quiet es"
    and "persisted p' = persisted p" "maxSeen p \<le> maxSeen p'" "member_ok M c p'"
    and "phase p' = phase p" "myBallot p' = myBallot p" "promises p' = promises p"
    and "accepts p' = accepts p" "valueAt p' = valueAt p"
    and "decided p' = decided p" "decidedBallot p' = decidedBallot p"
      "decidedValue p' = decidedValue p"
    and "proposing p' \<Longrightarrow> myValue p' \<in> V"
  shows "J M V c s p'"
proof -
  have es: "quiet e" if "e \<in> set es" for e
    using that assms(3) by (auto simp: list_all_iff)
  have "promised p \<le> maxSeen p'"
    using J_facts(4) [OF J] assms(5) by (rule order.trans)
  then show ?thesis
    using J_facts [OF J] assms es storedL_quiet [OF assms(3)]
    by (intro J_volatile [OF J, of p' es]) (auto dest!: es)
qed

lemma J_observe: "J M V c s p \<Longrightarrow> J M V c s (observeBallot b p)"
  using J_facts [of M V c s p]
  by (auto simp: observeBallot_def intro!: J_quiet [of M V c s p _ "[]"])

lemma observe_maxSeen [simp]: "b \<le> maxSeen (observeBallot b p)"
  by (simp add: observeBallot_def not_less)

lemma observe_simps [simp]:
  "ctx (observeBallot b p) = ctx p" "self (observeBallot b p) = self p"
  "peers (observeBallot b p) = peers p" "groupSize (observeBallot b p) = groupSize p"
  "promised (observeBallot b p) = promised p" "persisted (observeBallot b p) = persisted p"
  "acceptedBallot (observeBallot b p) = acceptedBallot p"
  "acceptedValue (observeBallot b p) = acceptedValue p"
  "hasAccepted (observeBallot b p) = hasAccepted p"
  "phase (observeBallot b p) = phase p" "myBallot (observeBallot b p) = myBallot p"
  "myValue (observeBallot b p) = myValue p" "proposing (observeBallot b p) = proposing p"
  "promises (observeBallot b p) = promises p" "decided (observeBallot b p) = decided p"
  "index (observeBallot b p) = index p" "cfg (observeBallot b p) = cfg p"
  by (simp_all add: observeBallot_def persisted_def)

lemma sendAll_eq:
  "sendAll m hs p = p\<lparr>ctx := (ctx p)\<lparr>out := out (ctx p) @ map (Sent m) hs\<rparr>\<rparr>"
  by (induction hs arbitrary: p) (simp_all add: sendAll_def send_def emit_def)

lemma send_eq: "send m h p = sendAll m [h] p"
  by (simp add: sendAll_def)

lemma storedL_sends [simp]: "storedL (map (Sent m) hs) = []"
  by (induction hs) simp_all

lemma run_sends:
  "vote (run c (sendAll m hs p) s) a b v = vote (run c p s) a b v"
  "promised (sendAll m hs p) = promised p"
  by (auto simp: vote_run sendAll_eq)

lemma J_sendAll:
  assumes J: "J M V c s p" and "\<forall>b v. m \<noteq> Accept b v"
    and "\<And>b v. m = Accepted b v \<Longrightarrow> vote (run c p s) c b v"
    and "\<And>b mb ab av ha. m = Promise b True mb ab av ha \<Longrightarrow>
      okPromise (run c p s) c b (PromiseInfo ab av ha)"
  shows "J M V c s (sendAll m hs p)"
  using J_facts [OF J] assms
  by (intro J_volatile [OF J, of _ "map (Sent m) hs"])
    (auto simp: sendAll_eq)

text \<open>Recording a vote that was cast; deciding on a majority of votes for one ballot.\<close>

lemma vote_value_unique:
  assumes "J M V c s p" "vote (run c p s) a b v" "vote (run c p s) a' b v'"
  shows "v = v'"
proof -
  have "vinv M (synod_abs M (run c p s))"
    using J_facts(15) [OF assms(1)] by (rule vreach_vinv)
  moreover have "proposed (run c p s) b v" "proposed (run c p s) b v'"
    using assms(2,3) by (auto simp: proposed_def)
  ultimately show ?thesis
    unfolding vinv_def abs_simps by blast
qed

lemma J_decide:
  assumes J: "J M V c s p" and ch: "chosen M (synod_abs M (run c p s)) b v"
  shows "J M V c s (decide b v p)"
proof -
  let ?p = "p\<lparr>decided := True, decidedBallot := b, decidedValue := v, proposing := False,
    ctx := cancel (retryTimer p) (ctx p)\<rparr>"
  have o: "out (cancel h c) = out c" for h and c :: paxos_ctx
    by (simp add: cancel_def split: option.splits)
  have "J M V c s ?p"
    using J_facts [OF J] ch
    by (intro J_volatile [OF J, of _ "[]"]) (auto simp: o)
  moreover have "J M V c s (publish (Decided v b) (?p\<lparr>announced := True\<rparr>))"
    using J_facts [OF J] ch
    by (intro J_volatile [OF J, of _ "[Published (Decided v b)]"])
      (auto simp: o publish_def emit_def)
  ultimately show ?thesis
    using J by (simp add: decide_def Let_def)
qed

lemma J_tally:
  assumes J: "J M V c s p" and v: "vote (run c p s) f b v"
    and T: "\<And>a. a \<in> T \<Longrightarrow> \<exists>v. vote (run c p s) a b v"
  shows "J M V c s (p\<lparr>accepts := (accepts p)(b \<mapsto> T)\<rparr>)"
    and "J M V c s (p\<lparr>accepts := (accepts p)(b \<mapsto> T), valueAt := (valueAt p)(b \<mapsto> v)\<rparr>)"
  using J_facts [OF J] T v
  by (auto intro!: J_volatile [OF J, of _ "[]"] split: if_splits)

lemma vote_cong:
  "out (ctx q) = out (ctx p) \<Longrightarrow> vote (run c q s) a b v = vote (run c p s) a b v"
  by (simp add: vote_run)

lemma majority_chosen:
  assumes J: "J M V c s p" and T: "\<And>a. a \<in> T \<Longrightarrow> \<exists>v. vote (run c p s) a b v"
    and w: "vote (run c p s) f b w" and n: "majoritySize (card M) \<le> card T"
  shows "chosen M (synod_abs M (run c p s)) b w"
proof -
  have "vote (run c p s) a b w" if "a \<in> T" for a
    using T [OF that] vote_value_unique [OF J _ w] by metis
  moreover have "majority M T"
    using n T J_facts(2,17) [OF J] by (auto simp: majority_def majoritySize_def)
  ultimately show ?thesis
    by (auto simp: chosen_def)
qed

lemma J_recordAccepted:
  assumes J: "J M V c s p" and v: "vote (run c p s) f b v"
  shows "J M V c s (recordAccepted b v f p)"
proof -
  let ?p = "observeBallot b p"
  let ?S = "case accepts ?p b of None \<Rightarrow> {} | Some S \<Rightarrow> S"
  let ?w = "case valueAt ?p b of None \<Rightarrow> v | Some w \<Rightarrow> w"
  let ?q = "if valueAt ?p b = None
    then ?p\<lparr>accepts := (accepts ?p)(b \<mapsto> insert f ?S), valueAt := (valueAt ?p)(b \<mapsto> v)\<rparr>
    else ?p\<lparr>accepts := (accepts ?p)(b \<mapsto> insert f ?S)\<rparr>"
  have J1: "J M V c s ?p" using J by (rule J_observe)
  have v1: "vote (run c ?p s) a x y = vote (run c p s) a x y" for a x y
    by (rule vote_cong) simp
  have S: "\<exists>v. vote (run c ?p s) a b v" if "a \<in> ?S" for a
    using that J_facts(11) [OF J1] by (auto split: option.splits)
  then have S': "\<exists>v. vote (run c ?p s) a b v" if "a \<in> insert f ?S" for a
    using that v by (auto simp: v1)
  have w: "\<exists>a. vote (run c ?p s) a b ?w"
    using v J_facts(12) [OF J1] by (auto simp: v1 split: option.splits)
  have q: "J M V c s ?q"
    using J_tally [OF J1 v [folded v1], of "insert f ?S"] S' by simp
  have vq: "vote (run c ?q s) a x y = vote (run c ?p s) a x y" for a x y
    by (rule vote_cong) simp
  have "chosen M (synod_abs M (run c ?q s)) b ?w" if "majoritySize (card M) \<le> card (insert f ?S)"
    using majority_chosen [OF q, of "insert f ?S"] S' w that unfolding vq by blast
  then have d: "J M V c s (decide b ?w ?q)" if "majoritySize (card M) \<le> card (insert f ?S)"
    using that by (intro J_decide [OF q])
  have g: "groupSize ?p = card M"
    using J_facts(3) [OF J1] by (simp add: member_ok_def)
  have t: "J M V c s (?p\<lparr>accepts := (accepts ?p)(b \<mapsto> ?S)\<rparr>)"
    using J_tally(1) [OF J1 v [folded v1], of ?S] S by blast
  show ?thesis
    using J1 q d g t unfolding recordAccepted_def Let_def
    by (cases "valueAt ?p b") (simp_all add: fun_upd_upd)
qed

lemma recordAccepted_out:
  "\<exists>es. out (ctx (recordAccepted b v f p)) = out (ctx p) @ es \<and> storedL es = []"
  by (auto simp: recordAccepted_def decide_def publish_def emit_def Let_def cancel_def
      split: option.splits)

lemma J_broadcastAccepted:
  assumes J: "J M V c s p" and v: "vote (run c p s) c b v"
  shows "J M V c s (broadcastAccepted b v p)"
proof -
  have c: "self p = c" using J_facts(3) [OF J] by (simp add: member_ok_def)
  have "vote (run c (recordAccepted b v c p) s) c b v"
    using recordAccepted_out [of b v c p] v by (metis vote_same)
  then show ?thesis
    using J_recordAccepted [OF J v] c
    by (auto simp: broadcastAccepted_def Let_def intro!: J_sendAll)
qed

subsection \<open>Promising\<close>

lemma J_promise:
  assumes J: "J M V c s p" and lt: "promised p < b" and seen: "b \<le> maxSeen q"
    and q: "persisted q = (persisted p)\<lparr>Promised := b\<rparr>"
      "out (ctx q) = out (ctx p) @ [Stored (persisted q)]" "member_ok M c q"
      "accepts q = accepts p" "valueAt q = valueAt p" "decided q = decided p"
      "decidedBallot q = decidedBallot p" "decidedValue q = decidedValue p"
      "proposing q \<Longrightarrow> myValue q \<in> V"
    and round: "phase q = phase p \<and> myBallot q = myBallot p \<and> promises q = promises p \<or>
      phase q = 1 \<and> myBallot q = b \<and> unat b mod card M = idx M c \<and> maxSeen p < b \<and>
        promises q = [c \<mapsto> PromiseInfo (acceptedBallot p) (acceptedValue p) (hasAccepted p)]"
  shows "J M V c s q"
    and "okPromise (run c q s) c b
      (PromiseInfo (acceptedBallot p) (acceptedValue p) (hasAccepted p))"
proof -
  note f = J_facts [OF J]
  have a: "promised q = b" "acceptedBallot q = acceptedBallot p"
      "acceptedValue q = acceptedValue p" "hasAccepted q = hasAccepted p"
    using q(1) by (simp_all add: persisted_def)
  have v: "vote (run c q s) x y z = vote (run c p s) x y z" for x y z
    using f(5) q(1,2) by (auto simp: vote_run persisted_def)
  have pr: "proposed (run c q s) y z = proposed (run c p s) y z" for y z
    by (simp add: proposed_run v q(2))
  have ab: "synod_abs M (run c q s) =
      (synod_abs M (run c p s))\<lparr>bal := (bal (synod_abs M (run c p s)))(c := b)\<rparr>"
    using f(1) by (auto simp: synod_abs_def v pr a)
  have ref: "vreach M (synod_abs M (run c q s))"
    unfolding ab using f(1,15) lt by (intro vreach_step [OF f(15)] vstep.promise) simp
  have ok: "okPromise (run c q s) x y i" if "okPromise (run c p s) x y i" for x y i
    using that by (rule okPromise_mono) (use lt in \<open>auto simp: v a\<close>)
  show okc: "okPromise (run c q s) c b
      (PromiseInfo (acceptedBallot p) (acceptedValue p) (hasAccepted p))"
    using f(5-7) lt by (auto simp: okPromise_def v a intro: order.strict_trans1)
  have own: "unat (myBallot q) mod card M = idx M c \<and> myBallot q \<le> promised q \<and>
      (\<forall>v. \<not> proposed (run c q s) (myBallot q) v)" if "phase q = 1"
    using round
  proof
    assume "phase q = phase p \<and> myBallot q = myBallot p \<and> promises q = promises p"
    then show ?thesis using that f(8) lt by (auto simp: a pr)
  next
    assume r: "phase q = 1 \<and> myBallot q = b \<and> unat b mod card M = idx M c \<and> maxSeen p < b \<and>
        promises q = [c \<mapsto> PromiseInfo (acceptedBallot p) (acceptedValue p) (hasAccepted p)]"
    then show ?thesis using f(9) lt by (auto simp: a pr dest: leD)
  qed
  have coll: "x \<in> M \<and> okPromise (run c q s) x (myBallot q) i"
    if "phase q = 1" "promises q x = Some i" for x i
    using round
  proof
    assume "phase q = phase p \<and> myBallot q = myBallot p \<and> promises q = promises p"
    then show ?thesis using that f(10) ok by auto
  next
    assume "phase q = 1 \<and> myBallot q = b \<and> unat b mod card M = idx M c \<and> maxSeen p < b \<and>
        promises q = [c \<mapsto> PromiseInfo (acceptedBallot p) (acceptedValue p) (hasAccepted p)]"
    then show ?thesis using that okc f(1) by (auto split: if_splits)
  qed
  have ch: "chosen M (synod_abs M (run c q s)) y z = chosen M (synod_abs M (run c p s)) y z" for y z
    by (simp add: chosen_def v)
  have acc: "hasAccepted q \<Longrightarrow> vote (run c q s) c (acceptedBallot q) (acceptedValue q) \<and>
      acceptedBallot q \<le> promised q"
    using f(5,6) lt by (simp add: a v)
  show "J M V c s q"
    using J refl refl q(2,3) _ _ _ acc _ _ own _ coll
    by (rule J_step) (use f q lt seen ref in \<open>auto simp: a v pr ch\<close>)
qed

lemma J_acceptPrepare:
  assumes J: "J M V c s p" and eq: "acceptPrepare b p = (ok, mb, info, p')"
  shows "J M V c s p'" and "ok \<Longrightarrow> okPromise (run c p' s) c b info"
proof -
  let ?p = "observeBallot b p"
  have J1: "J M V c s ?p" using J by (rule J_observe)
  have "J M V c s (persist (?p\<lparr>promised := b\<rparr>))"
    "okPromise (run c (persist (?p\<lparr>promised := b\<rparr>)) s) c b
      (PromiseInfo (acceptedBallot ?p) (acceptedValue ?p) (hasAccepted ?p))"
    if "promised ?p < b"
    using J_promise [OF J1 that, of "persist (?p\<lparr>promised := b\<rparr>)"] J_facts(3,14) [OF J1]
    by (simp_all add: persist_def emit_def persisted_def)
  then show "J M V c s p'" "ok \<Longrightarrow> okPromise (run c p' s) c b info"
    using eq J1 by (auto simp: acceptPrepare_def Let_def canPromise_def persist_def split: if_splits)
qed

subsection \<open>Proposing and voting\<close>

definition can_propose :: "Host set \<Rightarrow> bytes set \<Rightarrow> Host \<Rightarrow> synod \<Rightarrow> uint64 \<Rightarrow> bytes \<Rightarrow> bool" where
  "can_propose M V c S b v \<longleftrightarrow> proposed S b v \<or>
     (\<forall>w. \<not> proposed S b w) \<and> safeAt M (synod_abs M S) b v \<and> unat b mod card M = idx M c \<and>
     b \<le> promised (nodes S c) \<and> v \<in> V \<and> phase (nodes S c) \<noteq> 1"

lemma vreach_propose:
  assumes "vreach M (synod_abs M S)" "can_propose M V c S b v"
  shows "vreach M ((synod_abs M S)\<lparr>props := insert (b, v) (props (synod_abs M S))\<rparr>)"
proof (cases "proposed S b v")
  case True
  then have "insert (b, v) (props (synod_abs M S)) = props (synod_abs M S)"
    by (simp add: insert_absorb)
  then show ?thesis using assms(1) by (simp add: synod_abs_def)
next
  case False
  with assms(2) show ?thesis
    by (intro vreach_step [OF assms(1)] vstep.propose) (auto simp: can_propose_def)
qed

lemma J_sendAccept:
  assumes J: "J M V c s p" and can: "can_propose M V c (run c p s) b v"
  shows "J M V c s (sendAll (Accept b v) hs p)"
proof (cases "hs = []")
  case True
  then show ?thesis using J by (simp add: sendAll_def)
next
  case False
  let ?q = "sendAll (Accept b v) hs p"
  note f = J_facts [OF J]
  have o: "out (ctx ?q) = out (ctx p) @ map (Sent (Accept b v)) hs"
    by (simp add: sendAll_eq)
  have v: "vote (run c ?q s) x y z = vote (run c p s) x y z" for x y z
    by (rule run_sends)
  have pr: "proposed (run c ?q s) y z \<longleftrightarrow> proposed (run c p s) y z \<or> y = b \<and> z = v" for y z
    using False by (auto simp: proposed_run v o neq_Nil_conv)
  have ab: "synod_abs M (run c ?q s) =
      (synod_abs M (run c p s))\<lparr>props := insert (b, v) (props (synod_abs M (run c p s)))\<rparr>"
    by (auto simp: synod_abs_def v pr run_sends)
  have ref: "vreach M (synod_abs M (run c ?q s))"
    unfolding ab using f(15) can by (rule vreach_propose)
  have np: "proposed (run c p s) y z \<or> unat y mod card M = idx M c \<and> y \<le> promised p \<and> z \<in> V"
    if "proposed (run c ?q s) y z" for y z
    using that can by (auto simp: pr can_propose_def)
  have own: "\<not> proposed (run c ?q s) (myBallot p) w" if "phase p = 1" for w
    using that f(8) can by (auto simp: pr can_propose_def)
  have ok: "okPromise (run c ?q s) x y i = okPromise (run c p s) x y i" for x y i
    by (rule okPromise_same) (simp_all add: run_sends)
  have ch: "chosen M (synod_abs M (run c ?q s)) y z = chosen M (synod_abs M (run c p s)) y z" for y z
    by (simp add: chosen_def v)
  have q: "promised ?q = promised p" "maxSeen ?q = maxSeen p" "persisted ?q = persisted p"
    "hasAccepted ?q = hasAccepted p" "acceptedBallot ?q = acceptedBallot p"
    "acceptedValue ?q = acceptedValue p" "phase ?q = phase p" "myBallot ?q = myBallot p"
    "promises ?q = promises p" "accepts ?q = accepts p" "valueAt ?q = valueAt p"
    "decided ?q = decided p" "decidedBallot ?q = decidedBallot p" "decidedValue ?q = decidedValue p"
    "proposing ?q = proposing p" "myValue ?q = myValue p" "member_ok M c ?q = member_ok M c p"
    by (simp_all add: sendAll_eq)
  show ?thesis
    using J refl refl o
    by (rule J_step) (use f np own ref in \<open>auto simp: q v ok ch\<close>)
qed

lemma vote_stored:
  "out (ctx q) = out (ctx p) @ [Stored w] \<Longrightarrow> vote (run c q s) x y z \<longleftrightarrow>
     vote (run c p s) x y z \<or> x = c \<and> HasAccepted w \<and> AcceptedBallot w = y \<and> AcceptedValue w = z"
  by (auto simp: vote_run)

lemma J_vote:
  assumes J: "J M V c s p" and le: "promised p \<le> b" "b \<le> maxSeen p"
    and can: "can_propose M V c (run c p s) b v"
  defines "q \<equiv> persist (p\<lparr>promised := b, acceptedBallot := b, acceptedValue := v,
    hasAccepted := True\<rparr>)"
  shows "J M V c s q" and "vote (run c q s) c b v"
proof -
  note f = J_facts [OF J]
  have o: "out (ctx q) = out (ctx p) @ [Stored (persisted q)]"
    by (simp add: q_def persist_def emit_def)
  have q: "promised q = b" "maxSeen q = maxSeen p" "hasAccepted q" "acceptedBallot q = b"
    "acceptedValue q = v" "phase q = phase p" "myBallot q = myBallot p"
    "promises q = promises p" "accepts q = accepts p" "valueAt q = valueAt p"
    "decided q = decided p" "decidedBallot q = decidedBallot p" "decidedValue q = decidedValue p"
    "proposing q = proposing p" "myValue q = myValue p" "member_ok M c q = member_ok M c p"
    by (simp_all add: q_def persist_def)
  have pq: "persisted q = \<lparr>Promised = b, AcceptedBallot = b, AcceptedValue = v, HasAccepted = True\<rparr>"
    by (simp add: persisted_def q)
  have v: "vote (run c q s) x y z \<longleftrightarrow> vote (run c p s) x y z \<or> x = c \<and> y = b \<and> z = v" for x y z
    using vote_stored [OF o, of c s x y z] unfolding pq by auto
  have pr: "proposed (run c q s) y z \<longleftrightarrow> proposed (run c p s) y z \<or> y = b \<and> z = v" for y z
    by (auto simp: proposed_run v o)
  let ?a = "(synod_abs M (run c p s))\<lparr>props := insert (b, v) (props (synod_abs M (run c p s)))\<rparr>"
  have ab: "synod_abs M (run c q s) =
      ?a\<lparr>bal := (bal ?a)(c := b), votes := insert (c, b, v) (votes ?a)\<rparr>"
    using f(1) by (auto simp: synod_abs_def v pr q)
  have ref: "vreach M (synod_abs M (run c q s))"
    unfolding ab using le(1) f(1)
    by (intro vreach_step [OF vreach_propose [OF f(15) can]] vstep.cast) simp_all
  have np: "proposed (run c p s) y z \<or> unat y mod card M = idx M c \<and> y \<le> b \<and> z \<in> V"
    if "proposed (run c q s) y z" for y z
    using that can by (auto simp: pr can_propose_def)
  have own: "unat (myBallot q) mod card M = idx M c \<and> myBallot q \<le> promised q \<and>
      (\<forall>v. \<not> proposed (run c q s) (myBallot q) v)" if "phase q = 1"
    using that f(8) can le(1) by (auto simp: pr q can_propose_def)
  have ok: "okPromise (run c q s) x y i" if "okPromise (run c p s) x y i" for x y i
    using that by (rule okPromise_mono) (use le in \<open>auto simp: v q\<close>)
  have ch: "chosen M (synod_abs M (run c q s)) y z" if "chosen M (synod_abs M (run c p s)) y z" for y z
    using that by (rule chosen_mono) (simp add: v)
  have old: "y \<le> b" if "vote (run c p s) c y z" for y z
    using f(6,7) that le(1) by (meson order.trans)
  show "vote (run c q s) c b v" by (simp add: v)
  have learn: "\<And>b T a. accepts q b = Some T \<Longrightarrow> a \<in> T \<Longrightarrow> \<exists>v. vote (run c q s) a b v"
    "\<And>b v. valueAt q b = Some v \<Longrightarrow> \<exists>a. vote (run c q s) a b v"
    using f(11,12) unfolding v q by blast+
  show "J M V c s q"
    using J refl refl o
  proof (rule J_step)
    show "persisted q = (if storedL [Stored (persisted q)] = [] then persisted p
        else last (storedL [Stored (persisted q)]))" by simp
    show "\<And>y z. vote (run c q s) c y z \<Longrightarrow>
        (vote (run c p s) c y z \<or> promised p \<le> y) \<and> hasAccepted q \<and> y \<le> acceptedBallot q"
      using old le(1) by (auto simp: v q)
    show "\<And>y z. proposed (run c q s) y z \<Longrightarrow>
        proposed (run c p s) y z \<or> unat y mod card M = idx M c \<and> y \<le> promised q \<and> z \<in> V"
      using np by (simp add: q)
    show "\<And>x i. phase q = 1 \<Longrightarrow> promises q x = Some i \<Longrightarrow>
        x \<in> M \<and> okPromise (run c q s) x (myBallot q) i"
      using f(10) ok by (simp add: q)
    show "decided q \<Longrightarrow> chosen M (synod_abs M (run c q s)) (decidedBallot q) (decidedValue q)"
      using f(13) ch by (simp add: q)
    show "phase q = 1 \<Longrightarrow> unat (myBallot q) mod card M = idx M c \<and> myBallot q \<le> promised q \<and>
        (\<forall>v. \<not> proposed (run c q s) (myBallot q) v)" by (rule own)
    show "\<And>b T a. accepts q b = Some T \<Longrightarrow> a \<in> T \<Longrightarrow> \<exists>v. vote (run c q s) a b v"
      "\<And>b v. valueAt q b = Some v \<Longrightarrow> \<exists>a. vote (run c q s) a b v" by (fact learn)+
    show "vreach M (synod_abs M (run c q s))" by (rule ref)
    show "member_ok M c q" using f(3) by (simp add: q)
    show "promised p \<le> promised q" "promised q \<le> maxSeen q" using le by (simp_all add: q)
    show "hasAccepted q \<Longrightarrow>
        vote (run c q s) c (acceptedBallot q) (acceptedValue q) \<and> acceptedBallot q \<le> promised q"
      by (simp add: q v)
    show "proposing q \<Longrightarrow> myValue q \<in> V" using f(14) by (simp add: q)
  qed simp_all
qed

text \<open>The adoption rule picks a value that is safe at the ballot of the promise quorum.\<close>

lemma set_map_filter_iff: "set (List.map_filter f xs) = {y. \<exists>x \<in> set xs. f x = Some y}"
  by (induction xs) (auto simp: map_filter_simps split: option.splits)

lemma set_promiseInfos:
  assumes "member_ok M c p" "dom (promises p) \<subseteq> M"
  shows "set (promiseInfos p) = ran (promises p)"
proof -
  have "set (promiseInfos p) =
      {i. \<exists>a \<in> M - {c}. promises p a = Some i} \<union> {i. promises p c = Some i}"
    using assms(1)
    by (auto simp: promiseInfos_def member_ok_def set_map_filter_iff split: option.splits)
  then show ?thesis
    using assms(2) by (auto simp: ran_def)
qed

lemma abs_cong:
  assumes "out (ctx q) = out (ctx p)" "promised q = promised p"
  shows "proposed (run c q s) y z = proposed (run c p s) y z"
    and "synod_abs M (run c q s) = synod_abs M (run c p s)"
proof -
  show pr: "proposed (run c q s) y z = proposed (run c p s) y z" for y z
    by (simp add: proposed_run assms(1) vote_cong [OF assms(1)])
  show "synod_abs M (run c q s) = synod_abs M (run c p s)"
    using assms(2) vote_cong [OF assms(1)] pr by (rule synod_abs_same)
qed

lemma can_propose_cong:
  assumes "out (ctx q) = out (ctx p)" "promised q = promised p" "phase q \<noteq> 1 \<or> phase p = 1"
    and "can_propose M V c (run c p s) b v"
  shows "can_propose M V c (run c q s) b v"
  using assms(2-4) abs_cong [OF assms(1,2)] by (auto simp: can_propose_def)

lemma J_acceptAccept:
  assumes J: "J M V c s p" and can: "can_propose M V c (run c p s) b v"
    and eq: "acceptAccept b v p = (ok, mb, p')"
  shows "J M V c s p'" and "ok \<Longrightarrow> vote (run c p' s) c b v"
    and "\<not> ok \<Longrightarrow> p' = observeBallot b p" and "myBallot p' = myBallot p"
proof -
  let ?p = "observeBallot b p"
  have J1: "J M V c s ?p" using J by (rule J_observe)
  have can1: "can_propose M V c (run c ?p s) b v"
    by (rule can_propose_cong [OF _ _ _ can]) auto
  note vote = J_vote [OF J1 _ _ can1]
  show "J M V c s p'" "ok \<Longrightarrow> vote (run c p' s) c b v" "\<not> ok \<Longrightarrow> p' = ?p"
      "myBallot p' = myBallot p"
    using eq J1 vote
    by (auto simp: acceptAccept_def Let_def canAccept_def persist_def split: if_splits)
qed

lemma safe_from_promises:
  assumes J: "J M V c s p" and ph: "phase p = 1"
    and n: "majoritySize (card M) \<le> card (dom (promises p))"
    and v: "chooseValue (promiseInfos p) (myValue p) = (v, ad)"
  shows "safeAt M (synod_abs M (run c p s)) (myBallot p) v" and "proposing p \<Longrightarrow> v \<in> V"
proof -
  note f = J_facts [OF J]
  let ?Q = "dom (promises p)"
  have ok: "a \<in> M \<and> okPromise (run c p s) a (myBallot p) i" if "promises p a = Some i" for a i
    using f(10) [OF ph that] .
  have Q: "?Q \<subseteq> M" using ok by blast
  then have maj: "majority M ?Q"
    using n f(2) by (simp add: majority_def majoritySize_def)
  have bal: "\<forall>a \<in> ?Q. myBallot p \<le> bal (synod_abs M (run c p s)) a"
    using ok by (auto simp: okPromise_def simp del: run_simps dest!: ok)
  note infos = set_promiseInfos [OF f(3) Q]
  have top: "\<exists>i \<in> set (promiseInfos p). hasAcceptedI i \<and> b' \<le> acceptedBallotI i"
    if asm: "a \<in> ?Q" "vote (run c p s) a b' v'" "b' < myBallot p" for a b' v'
  proof -
    obtain i where "promises p a = Some i" using asm(1) by blast
    moreover from this ok asm(2,3) have "hasAcceptedI i \<and> b' \<le> acceptedBallotI i"
      unfolding okPromise_def by blast
    ultimately show ?thesis unfolding infos by (blast intro: ranI)
  qed
  have "((\<forall>a \<in> ?Q. \<forall>b' v'. vote (run c p s) a b' v' \<longrightarrow> \<not> b' < myBallot p) \<or>
       (\<exists>b0 a0. b0 < myBallot p \<and> a0 \<in> ?Q \<and> vote (run c p s) a0 b0 v \<and>
          (\<forall>a \<in> ?Q. \<forall>b' v'. vote (run c p s) a b' v' \<and> b' < myBallot p \<longrightarrow> b' \<le> b0))) \<and>
     (proposing p \<longrightarrow> v \<in> V)"
  proof (cases rule: chooseValue_cases [of "promiseInfos p" "myValue p"])
    case own
    have "\<not> b' < myBallot p" if "a \<in> ?Q" "vote (run c p s) a b' v'" for a b' v'
      using that top own(2) by blast
    then show ?thesis using v own(1) f(14) by auto
  next
    case (adopted i)
    then obtain a0 where a0: "promises p a0 = Some i" "okPromise (run c p s) a0 (myBallot p) i"
      using infos ok by (auto simp: ran_def)
    have "b' \<le> acceptedBallotI i"
      if "a \<in> ?Q" "vote (run c p s) a b' v'" "b' < myBallot p" for a b' v'
      using top [OF that] adopted(4) by (meson order.trans)
    moreover have "vote (run c p s) a0 (acceptedBallotI i) v" "acceptedBallotI i < myBallot p"
      using a0(2) adopted(2,3) v by (auto simp: okPromise_def)
    moreover have "v \<in> V"
      using calculation(2) f(16) unfolding proposed_def by blast
    ultimately show ?thesis using a0(1) by blast
  qed
  then show "safeAt M (synod_abs M (run c p s)) (myBallot p) v" "proposing p \<Longrightarrow> v \<in> V"
    using maj bal unfolding safeAt_def abs_simps by blast+
qed

subsection \<open>The rounds of a proposer\<close>

lemma recordAccepted_myBallot [simp]: "myBallot (recordAccepted b v f p) = myBallot p"
  by (simp add: recordAccepted_def decide_def publish_def observeBallot_def Let_def)

lemma broadcastAccepted_myBallot [simp]: "myBallot (broadcastAccepted b v p) = myBallot p"
  by (simp add: broadcastAccepted_def Let_def sendAll_eq)

lemma vote_broadcastAccepted:
  "vote (run c (broadcastAccepted b v p) s) x y z = vote (run c p s) x y z"
proof -
  obtain es where "out (ctx (recordAccepted b v (self p) p)) = out (ctx p) @ es" "storedL es = []"
    using recordAccepted_out by blast
  then have "vote (run c (recordAccepted b v (self p) p) s) x y z = vote (run c p s) x y z"
    by (rule vote_same)
  then show ?thesis
    by (simp add: broadcastAccepted_def Let_def run_sends)
qed

lemma J_accept_and_tell:
  assumes J: "J M V c s p" and can: "can_propose M V c (run c p s) b v"
    and eq: "acceptAccept b v p = (ok, mb, p')"
  defines "q \<equiv> if ok then broadcastAccepted b v p' else p'"
  shows "J M V c s q" and "can_propose M V c (run c q s) b v" and "myBallot q = myBallot p"
proof -
  note a = J_acceptAccept [OF J can eq]
  show "J M V c s q"
    using a(1,2) by (simp add: q_def J_broadcastAccepted)
  show "myBallot q = myBallot p"
    using a(4) by (simp add: q_def)
  show "can_propose M V c (run c q s) b v"
  proof (cases ok)
    case True
    then have "vote (run c q s) c b v"
      using a(2) by (simp add: q_def vote_broadcastAccepted)
    then show ?thesis
      by (auto simp: can_propose_def proposed_def)
  next
    case False
    then show ?thesis
      using a(3) by (auto simp: q_def intro: can_propose_cong [OF _ _ _ can])
  qed
qed

lemma J_beginPhase2:
  assumes J: "J M V c s p" and n: "majoritySize (card M) \<le> card (dom (promises p))"
    and pr: "proposing p"
  shows "J M V c s (beginPhase2 p)"
proof (cases "phase p = 1")
  case False
  then show ?thesis using J by (simp add: beginPhase2_def)
next
  case True
  let ?p = "p\<lparr>phase := 2\<rparr>"
  note f = J_facts [OF J]
  have infos: "promiseInfos ?p = promiseInfos p"
    by (simp add: promiseInfos_def)
  obtain v ad where v: "chooseValue (promiseInfos p) (myValue p) = (v, ad)"
    by (cases "chooseValue (promiseInfos p) (myValue p)")
  obtain ok mb p' where a: "acceptAccept (myBallot p) v ?p = (ok, mb, p')"
    by (cases "acceptAccept (myBallot p) v ?p") auto
  have J2: "J M V c s ?p"
    using f by (intro J_volatile [OF J, of _ "[]"]) auto
  have eq: "synod_abs M (run c ?p s) = synod_abs M (run c p s)"
      "proposed (run c ?p s) y z = proposed (run c p s) y z" for y z
    by (rule abs_cong; simp)+
  have can: "can_propose M V c (run c ?p s) (myBallot p) v"
    using safe_from_promises [OF J True n v] f(8) [OF True] pr
    unfolding can_propose_def eq by simp
  note t = J_accept_and_tell [OF J2 can a]
  have "myBallot p' = myBallot p"
    using J_acceptAccept(4) [OF J2 can a] by simp
  then show ?thesis
    using J_sendAccept [OF t(1,2)] True v a infos by (auto simp: beginPhase2_def Let_def)
qed

lemma J_quorum:
  assumes "J M V c s p" "proposing p"
  shows "J M V c s (if card (dom (promises p)) \<ge> majoritySize (groupSize p) then beginPhase2 p else p)"
  using assms J_facts(3) [OF assms(1)] J_beginPhase2 [OF assms(1)] by (simp add: member_ok_def)

text \<open>
  A new round: the promise to the own, fresh ballot is the first thing that reaches the storage.
\<close>

lemma out_after [simp]: "out (snd (after d fn c)) = out c" "out (cancel h c) = out c"
  by (auto simp: after_def cancel_def Let_def split: option.splits)

lemma persist_simps [simp]:
  "self (persist p) = self p" "peers (persist p) = peers p" "promises (persist p) = promises p"
  "myBallot (persist p) = myBallot p" "groupSize (persist p) = groupSize p"
  "promised (persist p) = promised p" "phase (persist p) = phase p" "maxSeen (persist p) = maxSeen p"
  "proposing (persist p) = proposing p" "myValue (persist p) = myValue p"
  "accepts (persist p) = accepts p" "valueAt (persist p) = valueAt p"
  "decided (persist p) = decided p" "decidedBallot (persist p) = decidedBallot p"
  "decidedValue (persist p) = decidedValue p" "persisted (persist p) = persisted p"
  "member_ok M c (persist p) = member_ok M c p"
  "out (ctx (persist p)) = out (ctx p) @ [Stored (persisted p)]"
  by (simp_all add: persist_def emit_def)

lemma sendAll_simps [simp]:
  "self (sendAll m hs p) = self p" "peers (sendAll m hs p) = peers p"
  "promises (sendAll m hs p) = promises p" "myBallot (sendAll m hs p) = myBallot p"
  "groupSize (sendAll m hs p) = groupSize p" "proposing (sendAll m hs p) = proposing p"
  "myValue (sendAll m hs p) = myValue p" "phase (sendAll m hs p) = phase p"
  "out (ctx (sendAll m hs p)) = out (ctx p) @ map (Sent m) hs"
  by (simp_all add: sendAll_eq)

definition armRetry :: "paxos \<Rightarrow> paxos" where
  "armRetry p =
     (let p = p\<lparr>ctx := cancel (retryTimer p) (ctx p)\<rparr>;
          (d, p) = randomBackoff p;
          (h, c) = after d OnRetryTimeout (ctx p);
          p = p\<lparr>ctx := c, retryTimer := h\<rparr>
      in if card (dom (promises p)) \<ge> majoritySize (groupSize p) then beginPhase2 p else p)"

lemma startRound_armRetry:
  "startRound p =
     (if decided p then p
      else let p = p\<lparr>proposing := True, phase := 1,
                     myBallot := nextBallot (maxSeen p) (groupSize p) (index p)\<rparr>;
               p = observeBallot (myBallot p) p;
               p = p\<lparr>promises := Map.empty\<rparr>;
               (ok, mb, info, p) = acceptPrepare (myBallot p) p;
               p = (if ok then p\<lparr>promises := (promises p)(self p \<mapsto> info)\<rparr> else p)
           in armRetry (sendAll (Prepare (myBallot p)) (peers p) p))"
  by (simp only: startRound_def armRetry_def Let_def)

lemma J_armRetry:
  assumes J: "J M V c s p" and pr: "proposing p"
  shows "J M V c s (armRetry p)"
proof -
  have k: "J M V c s (p\<lparr>rng := g, ctx := k, retryTimer := h\<rparr>)" if "out k = out (ctx p)" for k g h
    using J_facts(3,14) [OF J] that by (intro J_quiet [OF J, of _ "[]"]) simp_all
  have "J M V c s (beginPhase2 (p\<lparr>rng := g, ctx := k, retryTimer := h\<rparr>))"
    if "out k = out (ctx p)" "majoritySize (groupSize p) \<le> card (dom (promises p))" for k g h
    using J_quorum [OF k [OF that(1)]] pr that(2) by simp
  with k show ?thesis
    by (simp add: armRetry_def randomBackoff_def IntN_def after_def Let_def)
qed

lemma J_startRound:
  assumes J: "J M V c s p" and room: "ballot_room (maxSeen p) (card M)" and v: "myValue p \<in> V"
  shows "J M V c s (startRound p)"
proof (cases "decided p")
  case True
  then show ?thesis using J by (simp add: startRound_def)
next
  case False
  note f = J_facts [OF J]
  let ?b = "nextBallot (maxSeen p) (groupSize p) (index p)"
  let ?i = "PromiseInfo (acceptedBallot p) (acceptedValue p) (hasAccepted p)"
  let ?p = "(observeBallot ?b (p\<lparr>proposing := True, phase := 1, myBallot := ?b\<rparr>))
    \<lparr>promises := Map.empty\<rparr>"
  let ?q = "(persist (?p\<lparr>promised := ?b\<rparr>))\<lparr>promises := [self p \<mapsto> ?i]\<rparr>"
  have m: "self p = c" "groupSize p = card M" "index p = idx M c"
    using f(3) by (simp_all add: member_ok_def)
  have b: "maxSeen p < ?b" "unat ?b mod card M = idx M c"
    using room m idx_less [OF f(2,1)] by (simp_all add: nextBallot_gt nextBallot_mod)
  then have lt: "promised p < ?b" using f(4) by simp
  have "observeBallot ?b (p\<lparr>proposing := True, phase := 1, myBallot := ?b\<rparr>) =
      p\<lparr>proposing := True, phase := 1, myBallot := ?b, maxSeen := ?b\<rparr>"
    using b(1) by (simp add: observeBallot_def)
  then have p: "?p = p\<lparr>proposing := True, phase := 1, myBallot := ?b, maxSeen := ?b,
      promises := Map.empty\<rparr>" by simp
  have "J M V c s ?q"
    unfolding p
    by (rule J_promise [OF J lt]) (use f(3) v b m in \<open>simp_all add: persist_def emit_def persisted_def\<close>)
  then have "J M V c s (armRetry (sendAll (Prepare ?b) (peers p) ?q))"
    by (intro J_armRetry J_sendAll) simp_all
  moreover have "acceptPrepare ?b ?p = (True, ?b, ?i, persist (?p\<lparr>promised := ?b\<rparr>))"
    using lt unfolding p
    by (simp add: acceptPrepare_def observeBallot_def canPromise_def Let_def persist_def)
  ultimately show ?thesis
    using False by (simp add: startRound_armRetry Let_def)
qed

subsection \<open>Every event keeps the invariant\<close>

lemma J_mono: "J M V c s p \<Longrightarrow> V \<subseteq> V' \<Longrightarrow> J M V' c s p"
  unfolding J_def inv_def inv_val_def by blast

lemma J_answer: "J M V c s p \<Longrightarrow> J M V c s (answer r p)"
  using J_facts(3,14) [of M V c s p]
  by (auto simp: answer_def emit_def intro!: J_quiet [of M V c s p _ "[Replied r]"])

lemma J_onPrepare:
  assumes "J M V c s p"
  shows "J M V c s (onPrepare b f p)"
proof -
  obtain ok mb i p' where a: "acceptPrepare b p = (ok, mb, i, p')"
    by (cases "acceptPrepare b p") auto
  note J_acceptPrepare [OF assms a]
  then have "J M V c s (sendAll
      (Promise b ok mb (acceptedBallotI i) (acceptedValueI i) (hasAcceptedI i)) [f] p')"
    by (intro J_sendAll) auto
  then show ?thesis by (simp add: onPrepare_def a send_eq)
qed

lemma J_onAccept:
  assumes "J M V c s p" "proposed s b v"
  shows "J M V c s (onAccept b v f p)"
proof -
  have can: "can_propose M V c (run c p s) b v"
    using assms(2) by (simp add: can_propose_def proposed_run)
  obtain ok mb p' where a: "acceptAccept b v p = (ok, mb, p')"
    by (cases "acceptAccept b v p") auto
  show ?thesis
    using J_accept_and_tell(1) [OF assms(1) can a]
    by (cases ok) (auto simp: onAccept_def a send_eq intro!: J_sendAll)
qed

lemma J_onPromise:
  assumes J: "J M V c s p"
    and ok: "ok \<Longrightarrow> f \<in> M \<and> okPromise (run c p s) f b (PromiseInfo ab av ha)"
  shows "J M V c s (onPromise b ok mb ab av ha f p)"
proof -
  let ?p = "p\<lparr>promises := (promises p)(f \<mapsto> PromiseInfo ab av ha)\<rparr>"
  have "J M V c s ?p" if "ok" "b = myBallot p"
    using J_facts [OF J] ok that by (intro J_volatile [OF J, of _ "[]"]) (auto split: if_splits)
  note J_quorum [OF this]
  then show ?thesis
    using J J_observe [OF J] by (simp add: onPromise_def Let_def)
qed

lemma J_deliver:
  assumes J: "J M V c s p" and m: "(f, c, m) \<in> net s"
  shows "J M V c s (paxos_handle m f p)"
proof -
  have n: "(f, c, m) \<in> net (run c p s)" using m by simp
  have inv: "inv_mem M (run c p s)" "inv_prom M (run c p s)" "inv_learn M (run c p s)"
    using J by (simp_all add: J_def inv_def)
  show ?thesis
  proof (cases m)
    case (Prepare b)
    then show ?thesis using J by (simp add: J_onPrepare)
  next
    case (Promise b ok mb ab av ha)
    have "f \<in> M" using inv(1) n unfolding inv_mem_def by blast
    moreover have "okPromise (run c p s) f b (PromiseInfo ab av ha)" if "ok"
    proof -
      have "(f, c, Promise b True mb ab av ha) \<in> net (run c p s)" using n that Promise by simp
      then show ?thesis using inv(2) unfolding inv_prom_def by blast
    qed
    ultimately show ?thesis using J Promise by (auto intro: J_onPromise)
  next
    case (Accept b v)
    then have "proposed s b v" using m by (auto simp: proposed_def)
    then show ?thesis using J Accept by (simp add: J_onAccept)
  next
    case (Accepted b v)
    then have "vote (run c p s) f b v"
      using inv(3) n unfolding inv_learn_def by blast
    then show ?thesis using J Accepted by (simp add: onAccepted_def J_recordAccepted)
  next
    case (AcceptNack b)
    then show ?thesis using J by (simp add: onAcceptNack_def J_observe)
  qed
qed

lemma J_handlePropose:
  assumes J: "J M V c s p" and room: "ballot_room (maxSeen p) (card M)"
  shows "J M (insert v V) c s (handlePropose v p)"
proof -
  have V: "J M (insert v V) c s p" using J by (rule J_mono) auto
  have "J M (insert v V) c s (startRound (p\<lparr>myValue := v\<rparr>))"
    using J_facts(3) [OF V] room
    by (intro J_startRound J_quiet [OF V, of _ "[]"]) simp_all
  then show ?thesis
    using V by (simp add: handlePropose_def Let_def J_answer)
qed

lemma ensureConnections_eq:
  "ensureConnections p = p\<lparr>ctx := (ctx p)\<lparr>out := out (ctx p) @
     map Connects (filter (\<lambda>h. h \<notin> sessions p) (peers p))\<rparr>\<rparr>"
proof -
  have "fold (\<lambda>peer p. if peer \<notin> sessions p then connect peer p else p) hs p =
      p\<lparr>ctx := (ctx p)\<lparr>out := out (ctx p) @ map Connects (filter (\<lambda>h. h \<notin> sessions p) hs)\<rparr>\<rparr>" for hs
    by (induction hs arbitrary: p) (simp_all add: connect_def emit_def)
  then show ?thesis by (simp add: ensureConnections_def)
qed

lemma quiet_connects [simp]: "list_all quiet (map Connects hs)"
  by (induction hs) simp_all

lemma J_ensureConnections: "J M V c s p \<Longrightarrow> J M V c s (ensureConnections p)"
  unfolding ensureConnections_eq using J_facts(3,14) [of M V c s p]
  by (auto intro!: J_quiet [of M V c s p, OF _ _ quiet_connects])

lemma J_sessions:
  assumes J: "J M V c s p"
  shows "J M V c s (OnSessionConnected f p)" "J M V c s (OnSessionDisconnected f p)"
    "J M V c s (OnSessionGivenUp f p)"
proof -
  have S: "J M V c s (p\<lparr>sessions := T\<rparr>)" for T
    using J_facts(3,14) [OF J] by (intro J_quiet [OF J, of _ "[]"]) simp_all
  then show "J M V c s (OnSessionDisconnected f p)" "J M V c s (OnSessionGivenUp f p)"
    by (simp_all add: OnSessionDisconnected_def OnSessionGivenUp_def)
  show "J M V c s (OnSessionConnected f p)"
    using S [of "insert f (sessions p)"] J_facts(5) [OF S [of "insert f (sessions p)"]]
    by (auto simp: OnSessionConnected_def Let_def send_eq intro!: J_sendAll)
qed

lemma J_timer:
  assumes J: "J M V c s p" and room: "ballot_room (maxSeen p) (card M)"
  shows "J M V c s (paxos_callback cb (p\<lparr>ctx := fire t (ctx p)\<rparr>))"
proof -
  let ?p = "p\<lparr>ctx := fire t (ctx p)\<rparr>"
  have P: "J M V c s ?p"
    using J_facts(3,14) [OF J] by (intro J_quiet [OF J, of _ "[]"]) (simp_all add: fire_def)
  have "J M V c s (onRetryTimeout ?p)"
    using P J_startRound [OF P] J_facts(14) [OF P] room by (auto simp: onRetryTimeout_def)
  then show ?thesis
    using J_ensureConnections [OF P] by (cases cb) simp_all
qed

lemma Init_eq:
  "\<exists>c g. paxos_Init pcg st p = p\<lparr>rng := g, promised := Promised st, acceptedBallot := AcceptedBallot st,
      acceptedValue := AcceptedValue st, hasAccepted := HasAccepted st, maxSeen := Promised st,
      ctx := c\<rparr> \<and>
     out c = out (ctx p) @ map Connects (filter (\<lambda>h. h \<notin> sessions p) (peers p))"
  by (auto simp: paxos_Init_def every_def ensureConnections_eq Let_def split: prod.splits)

lemma New_simps [simp]:
  "out (ctx (paxos_New h k ce)) = []" "phase (paxos_New h k ce) = 0"
  "promises (paxos_New h k ce) = Map.empty" "accepts (paxos_New h k ce) = Map.empty"
  "valueAt (paxos_New h k ce) = Map.empty" "\<not> decided (paxos_New h k ce)"
  "\<not> proposing (paxos_New h k ce)"
  by (simp_all add: paxos_New_def newCtx_def Let_def)

lemma J_restart:
  assumes J: "J M V c s p" and o: "out (ctx p) = []" and grp: "paxos_group M conf"
    and st: "st = persisted p"
  shows "J M V c s (paxos_Init pcg st (paxos_New c (conf c) ce))"
proof -
  let ?n = "paxos_New c (conf c) ce"
  let ?es = "map Connects (filter (\<lambda>h. h \<notin> sessions ?n) (peers ?n)) ::
    (paxos_msg, paxos_note, paxos_reply, PersistentState) effect list"
  obtain k g where eq: "paxos_Init pcg st ?n = ?n\<lparr>rng := g, promised := Promised st,
      acceptedBallot := AcceptedBallot st, acceptedValue := AcceptedValue st,
      hasAccepted := HasAccepted st, maxSeen := Promised st, ctx := k\<rparr>"
    and k: "out k = ?es"
    using Init_eq [of pcg st ?n] by auto
  have q: "storedL ?es = []" by (intro storedL_quiet quiet_connects)
  show ?thesis
    unfolding eq
    by (rule J_volatile [OF J _ q])
      (use o k member_ok_New [OF grp J_facts(1) [OF J], of ce] in
        \<open>auto simp: st persisted_def\<close>)
qed

lemma clear_idle: "out (ctx p) = [] \<Longrightarrow> clear p = p"
  by (cases p; cases "ctx p") (simp add: clear_def)

lemma run_idle: "out (ctx (nodes s h)) = [] \<Longrightarrow> run h (nodes s h) s = s"
  by (cases s) (simp add: run_def absorb_def clear_idle sent_def published_def)

lemma J_idle: "inv M V s \<Longrightarrow> h \<in> M \<Longrightarrow> out (ctx (nodes s h)) = [] \<Longrightarrow> J M V h s (nodes s h)"
  by (simp add: J_def run_idle)

lemma J_inv: "J M V h s p \<Longrightarrow> inv M V (run h p s)"
  by (simp add: J_def)

lemma inv_start:
  assumes "paxos_group M conf"
  shows "inv M {} (synod_start pcg ce conf)"
proof -
  let ?s = "synod_start pcg ce conf" and ?n = "\<lambda>h. paxos_New h (conf h) ce"
  have z: "Load NewMemoryStorage = zeroPersistent" by (rule mem.load_fresh)
  have n: "\<exists>k g. nodes ?s h = clear ((?n h)\<lparr>rng := g, promised := 0, acceptedBallot := 0,
      acceptedValue := [], hasAccepted := False, maxSeen := 0, ctx := k\<rparr>)" for h
    using Init_eq [of pcg zeroPersistent "?n h"]
    by (fastforce simp: synod_start_def z zeroPersistent_def)
  have i: "member_ok M h (nodes ?s h) = member_ok M h (?n h)" "persisted (nodes ?s h) = zeroPersistent"
      "promised (nodes ?s h) = 0" "\<not> hasAccepted (nodes ?s h)" "maxSeen (nodes ?s h) = 0"
      "phase (nodes ?s h) = 0" "accepts (nodes ?s h) = Map.empty" "valueAt (nodes ?s h) = Map.empty"
      "\<not> decided (nodes ?s h)" "\<not> proposing (nodes ?s h)" for h
    using n [of h] by (auto simp: persisted_def zeroPersistent_def)
  have v: "\<not> vote ?s a b w" "\<not> proposed ?s b w" for a b w
    by (auto simp: vote_def proposed_def synod_start_def)
  have ab: "synod_abs M ?s = vinit"
    by (auto simp: synod_abs_def vinit_def i v)
  have e: "net ?s = {}" "notices ?s = {}" "writes ?s = {}" "disk ?s = (\<lambda>_. NewMemoryStorage)"
    by (simp_all add: synod_start_def)
  show ?thesis
    using assms member_ok_New [OF assms, of _ ce]
    by (simp add: inv_def inv_defs i v ab e vreach_init z paxos_group_def)
qed

lemma reach_inv:
  assumes "synod_reach M pcg ce conf V s" and grp: "paxos_group M conf"
  shows "inv M V s \<and> (\<forall>h. out (ctx (nodes s h)) = [])"
  using assms(1)
proof induction
  case start
  then show ?case
    using inv_start [OF grp] by (simp add: synod_start_def clear_def)
next
  case (deliver V s h f m)
  then show ?case
    by (auto simp: clear_def intro!: J_inv J_deliver J_idle)
next
  case (propose V s h v)
  then show ?case
    by (auto simp: clear_def intro!: J_inv J_handlePropose J_idle)
next
  case (timer V s h t)
  then show ?case
    by (auto simp: clear_def intro!: J_inv J_timer J_idle)
next
  case (debug V s h)
  then show ?case
    by (auto simp: clear_def handleDebugState_def intro!: J_inv J_answer J_idle)
next
  case (connected V s h f)
  then show ?case
    by (auto simp: clear_def intro!: J_inv J_sessions J_idle)
next
  case (disconnected V s h f)
  then show ?case
    by (auto simp: clear_def intro!: J_inv J_sessions J_idle)
next
  case (givenUp V s h f)
  then show ?case
    by (auto simp: clear_def intro!: J_inv J_sessions J_idle)
next
  case (restart V s h)
  have "Load (disk s h) = persisted (nodes s h)"
    using restart unfolding inv_def inv_disk_def by blast
  with restart show ?case
    by (auto simp: clear_def intro!: J_inv J_restart [OF J_idle _ grp])
qed

end
