(* ===== verification/Paxos_Safety.thy ===== *)
theory Paxos_Safety
  imports Paxos_Cluster
begin

text \<open>
  What a synod of \<open>Paxos_Cluster\<close> guarantees, and a complete run of two members: \<open>a:1\<close> proposes,
  \<open>a:2\<close> promises, both accept, and \<open>a:1\<close> decides on ballot 2.
\<close>

subsection \<open>A run of two members\<close>

definition exA :: Host where "exA = Host 1 ''a''"
definition exB :: Host where "exB = Host 2 ''a''"

definition exConf :: "Host \<Rightarrow> PaxosConfig" where
  "exConf h = \<lparr>Peers = [exA, exB], RetryTimeoutMin = 0, RetryTimeoutMax = 0, ReconnectInterval = 0\<rparr>"

definition exPCG :: "uint64 \<Rightarrow> uint64 \<Rightarrow> nat stream" where
  "exPCG a b = sconst 0"

definition exStart :: synod where
  "exStart = synod_start exPCG (\<lambda>_. False) exConf"

definition exStep :: "Host \<Rightarrow> Host \<Rightarrow> paxos_msg \<Rightarrow> synod \<Rightarrow> synod" where
  "exStep h f m s = run h (paxos_handle m f (nodes s h)) s"

definition ex1 :: synod where "ex1 = run exA (handlePropose [7] (nodes exStart exA)) exStart"
definition ex2 :: synod where "ex2 = exStep exB exA (Prepare 2) ex1"
definition ex3 :: synod where "ex3 = exStep exA exB (Promise 2 True 2 0 [] False) ex2"
definition ex4 :: synod where "ex4 = exStep exB exA (Accept 2 [7]) ex3"
definition ex5 :: synod where "ex5 = exStep exA exB (Accepted 2 [7]) ex4"

definition exNode :: "PaxosConfig \<Rightarrow> paxos_ctx \<Rightarrow> nat stream \<Rightarrow> Host \<Rightarrow> Host \<Rightarrow> nat \<Rightarrow> paxos" where
  "exNode c k g me peer i = \<lparr>cfg = c, ctx = k, self = me, peers = [peer], index = i, groupSize = 2,
     rng = g, promised = 0, acceptedBallot = 0, acceptedValue = [], hasAccepted = False,
     maxSeen = 0, proposing = False, phase = 0, myBallot = 0, myValue = [],
     promises = Map.empty, retryTimer = None, accepts = Map.empty, valueAt = Map.empty,
     decided = False, decidedBallot = 0, decidedValue = [], announced = False, sessions = {}\<rparr>"

lemma ex_hosts [simp]:
  "exA \<noteq> exB" "exB \<noteq> exA" "exA < exB" "\<not> exB < exA" "exA \<le> exB" "\<not> exB \<le> exA"
  by (simp_all add: exA_def exB_def less_eq_Host_def less_Host_def hostLess_def)

lemma ex_group: "paxos_group {exA, exB} exConf"
  by (auto simp: paxos_group_def exConf_def)

lemmas paxos_handlers = onPrepare_def onPromise_def onAccept_def onAccepted_def beginPhase2_def
  startRound_def handlePropose_def acceptPrepare_def acceptAccept_def broadcastAccepted_def
  recordAccepted_def decide_def sendAll_def send_def publish_def answer_def persist_def
  observeBallot_def randomBackoff_def IntN_def after_def cancel_def emit_def canPromise_def
  canAccept_def majoritySize_def promiseInfos_def chooseValue_def nextBallot_def Let_def
  persisted_def map_filter_simps

lemma ex_startA:
  "\<exists>c k g. nodes exStart exA = exNode c k g exA exB 0 \<and> out k = []"
  by (simp add: exNode_def exStart_def synod_start_def paxos_Init_def paxos_New_def Let_def exConf_def
      paxos_fillDefaults_def split_beta clear_def mem.load_fresh zeroPersistent_def
      ensureConnections_eq every_def newCtx_def ex_hosts)

lemma ex_startB:
  "\<exists>c k g. nodes exStart exB = exNode c k g exB exA 1 \<and> out k = []"
  by (simp add: exNode_def exStart_def synod_start_def paxos_Init_def paxos_New_def Let_def exConf_def
      paxos_fillDefaults_def split_beta clear_def mem.load_fresh zeroPersistent_def
      ensureConnections_eq every_def newCtx_def ex_hosts)

lemma ex_step1:
  "\<exists>c k g. nodes ex1 exA = (exNode c k g exA exB 0)\<lparr>promised := 2, maxSeen := 2, proposing := True,
      phase := 1, myBallot := 2, myValue := [7], promises := [exA \<mapsto> PromiseInfo 0 [] False],
      retryTimer := Some (nextTimerID k)\<rparr> \<and> out k = []"
  "nodes ex1 exB = nodes exStart exB" "(exA, exB, Prepare 2) \<in> net ex1"
proof -
  obtain c k g where n: "nodes exStart exA = exNode c k g exA exB 0" "out k = []"
    using ex_startA by blast
  show "\<exists>c k g. nodes ex1 exA = (exNode c k g exA exB 0)\<lparr>promised := 2, maxSeen := 2,
      proposing := True, phase := 1, myBallot := 2, myValue := [7],
      promises := [exA \<mapsto> PromiseInfo 0 [] False], retryTimer := Some (nextTimerID k)\<rparr> \<and> out k = []"
    "nodes ex1 exB = nodes exStart exB" "(exA, exB, Prepare 2) \<in> net ex1"
    by (simp_all add: ex1_def n exNode_def paxos_handlers clear_def)
qed

lemma ex_step2:
  "\<exists>c k g. nodes ex2 exB = (exNode c k g exB exA 1)\<lparr>promised := 2, maxSeen := 2\<rparr> \<and> out k = []"
  "nodes ex2 exA = nodes ex1 exA" "(exB, exA, Promise 2 True 2 0 [] False) \<in> net ex2"
proof -
  obtain c k g where n: "nodes ex1 exB = exNode c k g exB exA 1" "out k = []"
    using ex_startB ex_step1(2) by metis
  show "\<exists>c k g. nodes ex2 exB = (exNode c k g exB exA 1)\<lparr>promised := 2, maxSeen := 2\<rparr> \<and> out k = []"
    "nodes ex2 exA = nodes ex1 exA" "(exB, exA, Promise 2 True 2 0 [] False) \<in> net ex2"
    by (simp_all add: ex2_def exStep_def n exNode_def paxos_handlers clear_def)
qed

lemma ex_step3:
  "\<exists>n. nodes ex3 exA = n \<and> accepts n 2 = Some {exA} \<and> valueAt n 2 = Some [7] \<and> groupSize n = 2 \<and>
     \<not> decided n \<and> \<not> announced n \<and> out (ctx n) = []"
  "nodes ex3 exB = nodes ex2 exB" "(exA, exB, Accept 2 [7]) \<in> net ex3"
proof -
  obtain c k g where n: "nodes ex2 exA = (exNode c k g exA exB 0)\<lparr>promised := 2, maxSeen := 2,
      proposing := True, phase := 1, myBallot := 2, myValue := [7],
      promises := [exA \<mapsto> PromiseInfo 0 [] False], retryTimer := Some (nextTimerID k)\<rparr>" "out k = []"
    using ex_step1(1) ex_step2(2) by metis
  show "\<exists>n. nodes ex3 exA = n \<and> accepts n 2 = Some {exA} \<and> valueAt n 2 = Some [7] \<and>
     groupSize n = 2 \<and> \<not> decided n \<and> \<not> announced n \<and> out (ctx n) = []"
    "nodes ex3 exB = nodes ex2 exB" "(exA, exB, Accept 2 [7]) \<in> net ex3"
    by (simp_all add: ex3_def exStep_def n exNode_def paxos_handlers clear_def)
qed

lemma ex_step4:
  "nodes ex4 exA = nodes ex3 exA" "(exB, exA, Accepted 2 [7]) \<in> net ex4"
proof -
  obtain c k g where n: "nodes ex3 exB = (exNode c k g exB exA 1)\<lparr>promised := 2, maxSeen := 2\<rparr>"
      "out k = []"
    using ex_step2(1) ex_step3(2) by metis
  show "nodes ex4 exA = nodes ex3 exA" "(exB, exA, Accepted 2 [7]) \<in> net ex4"
    by (simp_all add: ex4_def exStep_def n exNode_def paxos_handlers clear_def)
qed

lemma ex_step5: "(exA, Decided [7] 2) \<in> notices ex5"
proof -
  obtain n where "nodes ex4 exA = n" "accepts n 2 = Some {exA}" "valueAt n 2 = Some [7]"
      "groupSize n = 2" "\<not> decided n" "\<not> announced n" "out (ctx n) = []"
    using ex_step3(1) ex_step4(1) by metis
  then show ?thesis
    by (simp add: ex5_def exStep_def paxos_handlers)
qed

lemma ex_reach: "synod_reach {exA, exB} exPCG (\<lambda>_. False) exConf {[7]} ex5"
proof -
  have room: "ballot_room (maxSeen (nodes exStart exA)) (card {exA, exB})"
    using ex_startA by (auto simp: exNode_def ballot_room_def)
  have "synod_reach {exA, exB} exPCG (\<lambda>_. False) exConf {[7]} ex1"
    unfolding ex1_def exStart_def using room by (intro synod_reach.propose synod_reach.start) (simp_all add: exStart_def)
  from synod_reach.deliver [OF this _ ex_step1(3)]
  have "synod_reach {exA, exB} exPCG (\<lambda>_. False) exConf {[7]} ex2"
    by (simp add: ex2_def exStep_def)
  from synod_reach.deliver [OF this _ ex_step2(3)]
  have "synod_reach {exA, exB} exPCG (\<lambda>_. False) exConf {[7]} ex3"
    by (simp add: ex3_def exStep_def)
  from synod_reach.deliver [OF this _ ex_step3(3)]
  have "synod_reach {exA, exB} exPCG (\<lambda>_. False) exConf {[7]} ex4"
    by (simp add: ex4_def exStep_def)
  from synod_reach.deliver [OF this _ ex_step4(2)] show ?thesis
    by (simp add: ex5_def exStep_def)
qed

subsection \<open>What the synod guarantees\<close>

text \<open>
  C1. Agreement: whatever messages are lost, duplicated, delayed or reordered, whichever members
  restart from their storage and whichever proposers compete, any two \<open>Decided\<close> notifications ever
  published in the synod carry the same value.
\<close>

theorem paxos_agreement:
  assumes "synod_reach M pcg ce conf V s" "paxos_group M conf"
    and "(a, Decided v b) \<in> notices s" "(a', Decided v' b') \<in> notices s"
  shows "v = v'"
proof -
  have "inv M V s" using assms(1,2) reach_inv by blast
  then have "vreach M (synod_abs M s)" "chosen M (synod_abs M s) b v"
      "chosen M (synod_abs M s) b' v'"
    using assms(3,4) by (auto simp: inv_def inv_dec_def)
  then show ?thesis by (rule vreach_agreement)
qed

theorem paxos_agreement_witness:
  "{v. \<exists>a b. (a, Decided v b) \<in> notices ex5} = {[7]}"
  using paxos_agreement [OF ex_reach ex_group _ ex_step5] ex_step5 by blast

text \<open>
  C26. Validity: a decided value is one that some member was asked to \<open>Propose\<close>.
\<close>

theorem paxos_validity:
  assumes "synod_reach M pcg ce conf V s" "paxos_group M conf" "(a, Decided v b) \<in> notices s"
  shows "v \<in> V"
proof -
  have i: "inv M V s" using assms(1,2) reach_inv by blast
  then have "chosen M (synod_abs M s) b v" using assms(3) by (auto simp: inv_def inv_dec_def)
  then obtain Q where Q: "majority M Q" "\<forall>a \<in> Q. vote s a b v" by (auto simp: chosen_def)
  then obtain q where "q \<in> Q" using maj.quorum_nonempty by blast
  with Q have "proposed s b v" by (auto simp: proposed_def)
  then show ?thesis using i by (auto simp: inv_def inv_val_def)
qed

theorem paxos_validity_witness:
  "(exA, Decided [7] 2) \<in> notices ex5 \<and> [7] \<in> {[7 :: byte]}"
  using paxos_validity [OF ex_reach ex_group ex_step5] ex_step5 by blast

text \<open>
  C4. Refinement: every reachable synod, read as promised ballots, votes and proposals, is a
  reachable state of the abstract voting machine, whose proposals are safe at their ballots.
\<close>

theorem paxos_refines_voting:
  assumes "synod_reach M pcg ce conf V s" "paxos_group M conf"
  shows "vreach M (synod_abs M s)"
  using reach_inv [OF assms] by (simp add: inv_def)

theorem paxos_refines_voting_witness: "vreach {exA, exB} (synod_abs {exA, exB} ex5)"
  by (rule paxos_refines_voting [OF ex_reach ex_group])

text \<open>
  Durability: between two events the storage of a member holds exactly the acceptor state it
  acts on, so a restart forgets no promise and no accepted proposal.
\<close>

theorem paxos_durable:
  assumes "synod_reach M pcg ce conf V s" "paxos_group M conf" "h \<in> M"
  shows "Load (disk s h) = persisted (nodes s h)"
  using reach_inv [OF assms(1,2)] assms(3) by (simp add: inv_def inv_disk_def)

theorem paxos_durable_witness: "Load (disk ex5 exA) = persisted (nodes ex5 exA)"
  by (rule paxos_durable [OF ex_reach ex_group]) simp

text \<open>
  Persist before reply: an acceptor answers \<open>Prepare\<close> with a promise only for a ballot above
  its promised one, and then the new promise reaches the storage before the answer is sent; the
  answer reports the last accepted proposal.
\<close>

theorem onPrepare_effects:
  "out (ctx (onPrepare b f p)) = out (ctx p) @
     (if promised p < b
      then [Stored (persisted (p\<lparr>promised := b\<rparr>)),
            Sent (Promise b True b (acceptedBallot p) (acceptedValue p) (hasAccepted p)) f]
      else [Sent (Promise b False (promised p) 0 [] False) f])"
  by (auto simp: onPrepare_def acceptPrepare_def canPromise_def send_def emit_def persist_def
      persisted_def Let_def)

end
