(* ===== verification/Raft_Log.thy ===== *)
theory Raft_Log
  imports Proto_Context
begin

text \<open>
  \<open>pkg/protocols/raft/log.go\<close> and \<open>storage.go\<close>: the replicated log with its 1-based \<open>uint64\<close>
  indices, the pure rules that compare logs and advance the commit index, and the durable state
  of a server.  The struct \<open>raftLog\<close> has one field, its slice of entries, and is that list here;
  methods on the pointer return the new list.
\<close>

datatype LogEntry = LogEntry (Term: uint64) (Command: bytes)

type_synonym raftLog = "LogEntry list"

definition newRaftLog :: "LogEntry list \<Rightarrow> raftLog" where
  "newRaftLog entries = entries"

definition lastIndex :: "raftLog \<Rightarrow> uint64" where
  "lastIndex l = word_of_nat (length l)"

definition lastTerm :: "raftLog \<Rightarrow> uint64" where
  "lastTerm l = (if length l = 0 then 0 else Term (l ! (length l - 1)))"

definition termAt :: "raftLog \<Rightarrow> uint64 \<Rightarrow> uint64" where
  "termAt l index = (if index = 0 \<or> index > lastIndex l then 0 else Term (l ! unat (index - 1)))"

text \<open>\<open>at\<close> indexes the slice; \<open>None\<close> is the panic of an index out of range.\<close>

definition logAt :: "raftLog \<Rightarrow> uint64 \<Rightarrow> LogEntry option" where
  "logAt l index =
     (let i = unat (index - 1) in if i < length l then Some (l ! i) else None)"

definition logAppend :: "LogEntry \<Rightarrow> raftLog \<Rightarrow> uint64 \<times> raftLog" where
  "logAppend e l = (lastIndex (l @ [e]), l @ [e])"

definition truncateFrom :: "uint64 \<Rightarrow> raftLog \<Rightarrow> raftLog" where
  "truncateFrom index l =
     (if index < 1 \<or> index > lastIndex l then l else take (unat (index - 1)) l)"

definition sliceFrom :: "raftLog \<Rightarrow> uint64 \<Rightarrow> LogEntry list" where
  "sliceFrom l index = (if index < 1 \<or> index > lastIndex l then [] else drop (unat (index - 1)) l)"

definition logIsUpToDate :: "uint64 \<Rightarrow> uint64 \<Rightarrow> uint64 \<Rightarrow> uint64 \<Rightarrow> bool" where
  "logIsUpToDate candTerm candIndex ourTerm ourIndex =
     (if candTerm \<noteq> ourTerm then candTerm > ourTerm else candIndex \<ge> ourIndex)"

definition replicas :: "uint64 list \<Rightarrow> uint64 \<Rightarrow> nat" where
  "replicas ms n = length (filter (\<lambda>m. m \<ge> n) ms)"

function commitLoop :: "uint64 \<Rightarrow> uint64 \<Rightarrow> raftLog \<Rightarrow> uint64 list \<Rightarrow> nat \<Rightarrow> uint64 \<Rightarrow> uint64" where
  "commitLoop currentCommit currentTerm lg ms maj n =
     (if n > currentCommit
      then if termAt lg n \<noteq> currentTerm then currentCommit
           else if replicas ms n \<ge> maj then n
           else commitLoop currentCommit currentTerm lg ms maj (n - 1)
      else currentCommit)"
  by pat_completeness auto
termination
proof (relation "measure (\<lambda>(_, _, _, _, _, n). unat n)")
  fix cc ct lg ms maj and n :: uint64
  assume "n > cc"
  then have "n \<noteq> 0" by auto
  then have "unat (n - 1) < unat n"
    by (simp add: unat_minus_one unat_gt_0)
  then show "((cc, ct, lg, ms, maj, n - 1), cc, ct, lg, ms, maj, n)
      \<in> measure (\<lambda>(_, _, _, _, _, n). unat n)" by simp
qed simp

declare commitLoop.simps [simp del]

definition advanceCommitIndex :: "uint64 \<Rightarrow> uint64 \<Rightarrow> raftLog \<Rightarrow> uint64 list \<Rightarrow> nat \<Rightarrow> uint64" where
  "advanceCommitIndex currentCommit currentTerm lg ms clusterSize =
     commitLoop currentCommit currentTerm lg ms (clusterSize div 2 + 1) (lastIndex lg)"

subsection \<open>Durable state\<close>

record RaftState =
  CurrentTerm :: uint64
  VotedFor :: Host
  HasVoted :: bool
  Log :: "LogEntry list"

text \<open>The two mutating calls of the \<open>Storage\<close> interface.\<close>

datatype raft_write = SaveTerm uint64 Host bool | SaveEntries uint64 "LogEntry list"

record RaftMemory =
  mterm :: uint64
  mvotedFor :: Host
  mhasVoted :: bool
  mlog :: "LogEntry list"

definition raft_NewMemoryStorage :: RaftMemory where
  "raft_NewMemoryStorage = \<lparr>mterm = 0, mvotedFor = zeroHost, mhasVoted = False, mlog = []\<rparr>"

definition raft_clone :: "RaftState \<Rightarrow> RaftState" where
  "raft_clone s = s\<lparr>Log := map (\<lambda>e. LogEntry (Term e) (Command e)) (Log s)\<rparr>"

definition raft_Load :: "RaftMemory \<Rightarrow> RaftState" where
  "raft_Load m = raft_clone
     \<lparr>CurrentTerm = mterm m, VotedFor = mvotedFor m, HasVoted = mhasVoted m, Log = mlog m\<rparr>"

definition mem_SaveTerm :: "uint64 \<Rightarrow> Host \<Rightarrow> bool \<Rightarrow> RaftMemory \<Rightarrow> RaftMemory" where
  "mem_SaveTerm t v hv m = m\<lparr>mterm := t, mvotedFor := v, mhasVoted := hv\<rparr>"

definition mem_AppendEntries :: "uint64 \<Rightarrow> LogEntry list \<Rightarrow> RaftMemory \<Rightarrow> RaftMemory" where
  "mem_AppendEntries from es m =
     (let from = (if from < 1 then 1 else from);
          keep = from - 1;
          m = (if keep < word_of_nat (length (mlog m)) then m\<lparr>mlog := take (unat keep) (mlog m)\<rparr> else m)
      in fold (\<lambda>e m. m\<lparr>mlog := mlog m @ [LogEntry (Term e) (Command e)]\<rparr>) es m)"

fun raft_save :: "raft_write \<Rightarrow> RaftMemory \<Rightarrow> RaftMemory" where
  "raft_save (SaveTerm t v hv) m = mem_SaveTerm t v hv m"
| "raft_save (SaveEntries i es) m = mem_AppendEntries i es m"

text \<open>
  The contract of the \<open>Storage\<close> interface: a fresh storage is the zero state, \<open>SaveTerm\<close> replaces
  term and vote, \<open>AppendEntries\<close> replaces the log from an index on.
\<close>

definition spliceAt :: "uint64 \<Rightarrow> LogEntry list \<Rightarrow> LogEntry list \<Rightarrow> LogEntry list" where
  "spliceAt i es l = take (unat (i - 1)) l @ es"

fun state_save :: "raft_write \<Rightarrow> RaftState \<Rightarrow> RaftState" where
  "state_save (SaveTerm t v hv) st = st\<lparr>CurrentTerm := t, VotedFor := v, HasVoted := hv\<rparr>"
| "state_save (SaveEntries i es) st = st\<lparr>Log := spliceAt i es (Log st)\<rparr>"

fun save_ok :: "raft_write \<Rightarrow> RaftState \<Rightarrow> bool" where
  "save_ok (SaveTerm _ _ _) st = True"
| "save_ok (SaveEntries i _) st = (1 \<le> i \<and> length (Log st) < 2 ^ 64)"

fun saves_ok :: "raft_write list \<Rightarrow> RaftState \<Rightarrow> bool" where
  "saves_ok [] st = True"
| "saves_ok (w # ws) st = (save_ok w st \<and> saves_ok ws (state_save w st))"

locale raft_storage =
  fixes fresh :: 'd
    and load :: "'d \<Rightarrow> RaftState"
    and save :: "raft_write \<Rightarrow> 'd \<Rightarrow> 'd"
  assumes load_fresh:
      "load fresh = \<lparr>CurrentTerm = 0, VotedFor = zeroHost, HasVoted = False, Log = []\<rparr>"
    and load_SaveTerm:
      "load (save (SaveTerm t v hv) d) = (load d)\<lparr>CurrentTerm := t, VotedFor := v, HasVoted := hv\<rparr>"
    and load_SaveEntries:
      "1 \<le> i \<Longrightarrow> length (Log (load d)) < 2 ^ 64 \<Longrightarrow>
         load (save (SaveEntries i es) d) = (load d)\<lparr>Log := spliceAt i es (Log (load d))\<rparr>"
begin

text \<open>What \<open>Load\<close> returns is the state the writes build up.\<close>

lemma load_fold:
  "saves_ok ws (load d) \<Longrightarrow> load (fold save ws d) = fold state_save ws (load d)"
proof (induction ws arbitrary: d)
  case Nil
  then show ?case by simp
next
  case (Cons w ws)
  then have "load (save w d) = state_save w (load d)"
    by (cases w) (simp_all add: load_SaveTerm load_SaveEntries)
  with Cons show ?case by simp
qed

end

lemma raft_Load_simps [simp]:
  "raft_Load m = \<lparr>CurrentTerm = mterm m, VotedFor = mvotedFor m, HasVoted = mhasVoted m, Log = mlog m\<rparr>"
  by (simp add: raft_Load_def raft_clone_def)

lemma mem_append_fold:
  "fold (\<lambda>e m. m\<lparr>mlog := mlog m @ [e]\<rparr>) es m = m\<lparr>mlog := mlog m @ es\<rparr>"
  by (induction es arbitrary: m) simp_all

lemma mlog_AppendEntries:
  assumes "1 \<le> i" "length (mlog m) < 2 ^ 64"
  shows "mem_AppendEntries i es m = m\<lparr>mlog := spliceAt i es (mlog m)\<rparr>"
proof -
  have "i - 1 < word_of_nat (length (mlog m)) \<longleftrightarrow> unat (i - 1) < length (mlog m)"
    using assms(2) by (simp add: word_less_nat_alt unat_of_nat64)
  then show ?thesis
    using assms(1)
    by (auto simp: mem_AppendEntries_def Let_def mem_append_fold spliceAt_def not_less)
qed

interpretation rmem: raft_storage raft_NewMemoryStorage raft_Load raft_save
  by unfold_locales
    (simp_all add: raft_NewMemoryStorage_def mem_SaveTerm_def mlog_AppendEntries)

end
