(* ===== verification/Raft_Messages.thy ===== *)
theory Raft_Messages
  imports Raft_Log
begin

text \<open>
  \<open>pkg/protocols/raft/messages.go\<close>: the four RPCs and their hand-written codecs.  A list of log
  entries is a 32-bit count and, for each entry, its term and its length-prefixed command.
\<close>

datatype raft_msg =
    RequestVote uint64 uint64 uint64
  | RequestVoteReply uint64 bool
  | AppendEntries uint64 uint64 uint64 uint64 "LogEntry list"
  | AppendEntriesReply uint64 uint64 bool

definition writeEntry :: "bytes \<Rightarrow> LogEntry \<Rightarrow> ioerror + bytes" where
  "writeEntry b e = bindE (WriteUint64 b (Term e)) (\<lambda>b. WriteBytes b (Command e))"

definition writeEntries :: "bytes \<Rightarrow> LogEntry list \<Rightarrow> ioerror + bytes" where
  "writeEntries b es =
     bindE (WriteUint32 b (word_of_nat (length es))) (\<lambda>b. writeAll writeEntry b es)"

definition readEntry :: "bytes \<Rightarrow> ioerror + LogEntry \<times> bytes" where
  "readEntry r =
     bindE (ReadUint64 r) (\<lambda>(term, r). bindE (ReadBytes r) (\<lambda>(cmd, r). Inr (LogEntry term cmd, r)))"

definition readEntries :: "bytes \<Rightarrow> ioerror + LogEntry list \<times> bytes" where
  "readEntries r =
     bindE (ReadUint32 r) (\<lambda>(n, r). if n = 0 then Inr ([], r) else readN readEntry (unat n) r)"

definition RequestVote_MarshalWire :: "uint64 \<Rightarrow> uint64 \<Rightarrow> uint64 \<Rightarrow> ioerror + bytes" where
  "RequestVote_MarshalWire t li lt = writeAll WriteUint64 [] [t, li, lt]"

definition RequestVote_UnmarshalWire :: "bytes \<Rightarrow> ioerror + raft_msg" where
  "RequestVote_UnmarshalWire d =
     bindE (ReadUint64 d) (\<lambda>(t, r).
     bindE (ReadUint64 r) (\<lambda>(li, r).
     bindE (ReadUint64 r) (\<lambda>(lt, r). Inr (RequestVote t li lt))))"

definition RequestVoteReply_MarshalWire :: "uint64 \<Rightarrow> bool \<Rightarrow> ioerror + bytes" where
  "RequestVoteReply_MarshalWire t g =
     bindE (WriteUint64 [] t) (\<lambda>b. Inr (WriteByte b (boolByte g)))"

definition RequestVoteReply_UnmarshalWire :: "bytes \<Rightarrow> ioerror + raft_msg" where
  "RequestVoteReply_UnmarshalWire d =
     bindE (ReadUint64 d) (\<lambda>(t, r).
     bindE (ReadByte r) (\<lambda>(gb, r). Inr (RequestVoteReply t (gb \<noteq> 0))))"

definition AppendEntries_MarshalWire ::
  "uint64 \<Rightarrow> uint64 \<Rightarrow> uint64 \<Rightarrow> uint64 \<Rightarrow> LogEntry list \<Rightarrow> ioerror + bytes" where
  "AppendEntries_MarshalWire t pi pt lc es =
     bindE (writeAll WriteUint64 [] [t, pi, pt, lc]) (\<lambda>b. writeEntries b es)"

definition AppendEntries_UnmarshalWire :: "bytes \<Rightarrow> ioerror + raft_msg" where
  "AppendEntries_UnmarshalWire d =
     bindE (ReadUint64 d) (\<lambda>(t, r).
     bindE (ReadUint64 r) (\<lambda>(pi, r).
     bindE (ReadUint64 r) (\<lambda>(pt, r).
     bindE (ReadUint64 r) (\<lambda>(lc, r).
     bindE (readEntries r) (\<lambda>(es, r). Inr (AppendEntries t pi pt lc es))))))"

definition AppendEntriesReply_MarshalWire :: "uint64 \<Rightarrow> uint64 \<Rightarrow> bool \<Rightarrow> ioerror + bytes" where
  "AppendEntriesReply_MarshalWire t mi ok =
     bindE (WriteUint64 [] t) (\<lambda>b.
     bindE (WriteUint64 b mi) (\<lambda>b. Inr (WriteByte b (boolByte ok))))"

definition AppendEntriesReply_UnmarshalWire :: "bytes \<Rightarrow> ioerror + raft_msg" where
  "AppendEntriesReply_UnmarshalWire d =
     bindE (ReadUint64 d) (\<lambda>(t, r).
     bindE (ReadUint64 r) (\<lambda>(mi, r).
     bindE (ReadByte r) (\<lambda>(sb, r). Inr (AppendEntriesReply t mi (sb \<noteq> 0)))))"

fun raft_WireName :: "raft_msg \<Rightarrow> string" where
  "raft_WireName (RequestVote _ _ _) = ''raft.RequestVote''"
| "raft_WireName (RequestVoteReply _ _) = ''raft.RequestVoteReply''"
| "raft_WireName (AppendEntries _ _ _ _ _) = ''raft.AppendEntries''"
| "raft_WireName (AppendEntriesReply _ _ _) = ''raft.AppendEntriesReply''"

fun raft_Marshal :: "raft_msg \<Rightarrow> ioerror + bytes" where
  "raft_Marshal (RequestVote t li lt) = RequestVote_MarshalWire t li lt"
| "raft_Marshal (RequestVoteReply t g) = RequestVoteReply_MarshalWire t g"
| "raft_Marshal (AppendEntries t pi pt lc es) = AppendEntries_MarshalWire t pi pt lc es"
| "raft_Marshal (AppendEntriesReply t mi ok) = AppendEntriesReply_MarshalWire t mi ok"

definition raft_Unmarshal :: "string \<Rightarrow> bytes \<Rightarrow> (ioerror + raft_msg) option" where
  "raft_Unmarshal name d =
     (if name = ''raft.RequestVote'' then Some (RequestVote_UnmarshalWire d)
      else if name = ''raft.RequestVoteReply'' then Some (RequestVoteReply_UnmarshalWire d)
      else if name = ''raft.AppendEntries'' then Some (AppendEntries_UnmarshalWire d)
      else if name = ''raft.AppendEntriesReply'' then Some (AppendEntriesReply_UnmarshalWire d)
      else None)"

subsection \<open>Round trip\<close>

definition entry_image :: "LogEntry \<Rightarrow> bytes" where
  "entry_image e = le_put 8 (unat (Term e)) @ bytes_image (Command e)"

definition entry_ok :: "LogEntry \<Rightarrow> bool" where
  "entry_ok e \<longleftrightarrow> bytes_ok (Command e)"

interpretation entry: wire_codec writeEntry readEntry entry_image entry_ok
  by unfold_locales
    (simp_all add: writeEntry_def readEntry_def entry_image_def entry_ok_def wire_simps)

definition entries_image :: "LogEntry list \<Rightarrow> bytes" where
  "entries_image es = le_put 4 (length es) @ concat (map entry_image es)"

definition entries_ok :: "LogEntry list \<Rightarrow> bool" where
  "entries_ok es \<longleftrightarrow> length es < 2 ^ 32 \<and> list_all entry_ok es"

lemma readEntries_image:
  assumes "entries_ok es"
  shows "readEntries (entries_image es @ r) = Inr (es, r)"
proof -
  let ?n = "word_of_nat (length es) :: uint32"
  have n: "unat ?n = length es"
    using assms by (simp add: entries_ok_def unat_of_nat take_bit_nat_eq_self)
  have "ReadUint32 (entries_image es @ r) = Inr (?n, concat (map entry_image es) @ r)"
    using u32.rd_image [of ?n "concat (map entry_image es) @ r"] n by (simp add: entries_image_def)
  moreover have "?n = 0 \<longleftrightarrow> es = []"
    using n by (metis length_0_conv unat_0 unat_eq_zero)
  ultimately show ?thesis
    using n assms by (simp add: readEntries_def entries_ok_def entry.readN_image)
qed

interpretation entries: wire_codec writeEntries readEntries entries_image entries_ok
proof
  fix w es
  assume "entries_ok es"
  moreover from this have "unat (word_of_nat (length es) :: uint32) = length es"
    by (simp add: entries_ok_def unat_of_nat take_bit_nat_eq_self)
  ultimately show "writeEntries w es = Inr (w @ entries_image es)"
    by (simp add: writeEntries_def WriteUint32_def entries_image_def entries_ok_def
        entry.writeAll_image)
qed (rule readEntries_image)

lemmas raft_codec_defs =
  RequestVote_MarshalWire_def RequestVote_UnmarshalWire_def RequestVoteReply_MarshalWire_def
  RequestVoteReply_UnmarshalWire_def AppendEntries_MarshalWire_def AppendEntries_UnmarshalWire_def
  AppendEntriesReply_MarshalWire_def AppendEntriesReply_UnmarshalWire_def

fun raft_entries :: "raft_msg \<Rightarrow> LogEntry list" where
  "raft_entries (AppendEntries _ _ _ _ es) = es"
| "raft_entries _ = []"

text \<open>
  Round trip of the Raft RPCs: every message whose entry count and commands fit their 32-bit
  length prefixes is encoded, and decoding the bytes under its wire name gives it back.
\<close>

theorem raft_wire_roundtrip:
  assumes "entries_ok (raft_entries m)"
  shows "\<exists>d. raft_Marshal m = Inr d \<and> raft_Unmarshal (raft_WireName m) d = Some (Inr m)"
  using assms
  by (cases m)
    (simp_all add: raft_codec_defs raft_Unmarshal_def wire_simps entries.wr_image entries.rd_image
      entries.rd_image_nil)

theorem raft_wire_roundtrip_witness:
  "\<exists>d. raft_Marshal (AppendEntries 2 1 1 0 [LogEntry 2 [7]]) = Inr d \<and>
     raft_Unmarshal ''raft.AppendEntries'' d = Some (Inr (AppendEntries 2 1 1 0 [LogEntry 2 [7]]))"
  using raft_wire_roundtrip [of "AppendEntries 2 1 1 0 [LogEntry 2 [7]]"]
  by (simp add: entries_ok_def entry_ok_def bytes_ok_def)

end
