(* ===== verification/Raft.thy ===== *)
theory Raft
  imports Raft_Messages
begin

text \<open>
  \<open>pkg/protocols/raft/protocol.go\<close>, \<open>config.go\<close> and \<open>api.go\<close>: one Raft server.  The record is the
  Go \<open>Protocol\<close>; each method is a function on it whose sends, notifications, answers and storage
  writes are collected in \<open>ctx\<close> in order.  \<open>applyCommitted\<close> indexes the log and would panic out
  of range, so it and its callers return an \<open>outcome\<close>.
\<close>

subsection \<open>Data\<close>

record RaftConfig =
  rPeers :: "Host list"
  HeartbeatInterval :: duration
  ElectionTimeoutMin :: duration
  ElectionTimeoutMax :: duration
  rReconnectInterval :: duration

definition raft_fillDefaults :: "RaftConfig \<Rightarrow> RaftConfig" where
  "raft_fillDefaults c =
     (let c = c\<lparr>HeartbeatInterval := durOr (HeartbeatInterval c) (50 * millisecond)\<rparr>;
          c = c\<lparr>ElectionTimeoutMin := durOr (ElectionTimeoutMin c) (150 * millisecond)\<rparr>;
          c = c\<lparr>ElectionTimeoutMax := durOr (ElectionTimeoutMax c) (300 * millisecond)\<rparr>;
          c = c\<lparr>rReconnectInterval := durOr (rReconnectInterval c) (100 * millisecond)\<rparr>
      in if ElectionTimeoutMax c \<le> ElectionTimeoutMin c
         then c\<lparr>ElectionTimeoutMax := wrap64 (ElectionTimeoutMin c * 2)\<rparr> else c)"

datatype Role = Follower | Candidate | Leader

datatype raft_note =
    Applied uint64 uint64 bytes
  | LeaderChanged Host uint64

datatype raft_reply =
    RaftProposeReply uint64 uint64
  | NotLeaderError Host bool
  | RaftDebugReply Role uint64 uint64 uint64 uint64 uint64 Host bool

datatype raft_cb = OnElectionTimeout | BroadcastAppendEntries | RaftEnsureConnections

type_synonym raft_ctx = "(raft_cb, raft_msg, raft_note, raft_reply, raft_write) proto_ctx"

record raft =
  cfg :: RaftConfig
  ctx :: raft_ctx
  self :: Host
  peers :: "Host list"
  rng :: "nat stream"
  currentTerm :: uint64
  votedFor :: Host
  hasVoted :: bool
  log :: raftLog
  role :: Role
  commitIndex :: uint64
  lastApplied :: uint64
  leader :: Host
  hasLeader :: bool
  nextIndex :: "Host \<rightharpoonup> uint64"
  matchIndex :: "Host \<rightharpoonup> uint64"
  votesGranted :: "Host set"
  sessions :: "Host set"
  electionTimer :: TimerHandle
  heartbeatTimer :: TimerHandle

definition raft_New :: "Host \<Rightarrow> RaftConfig \<Rightarrow> (Host \<Rightarrow> bool) \<Rightarrow> raft" where
  "raft_New me c ce =
     (let c = raft_fillDefaults c;
          ps = sort (filter (\<lambda>p. p \<noteq> me) (rPeers c))
      in \<lparr>cfg = c, ctx = newCtx ce, self = me, peers = ps, rng = sconst 0, currentTerm = 0,
          votedFor = zeroHost, hasVoted = False, log = [], role = Follower, commitIndex = 0,
          lastApplied = 0, leader = zeroHost, hasLeader = False, nextIndex = Map.empty,
          matchIndex = Map.empty, votesGranted = {}, sessions = {}, electionTimer = None,
          heartbeatTimer = None\<rparr>)"

subsection \<open>Calls into the context\<close>

definition raft_send :: "raft_msg \<Rightarrow> Host \<Rightarrow> raft \<Rightarrow> raft" where
  "raft_send m h p = p\<lparr>ctx := emit (Sent m h) (ctx p)\<rparr>"

definition raft_publish :: "raft_note \<Rightarrow> raft \<Rightarrow> raft" where
  "raft_publish n p = p\<lparr>ctx := emit (Published n) (ctx p)\<rparr>"

definition raft_answer :: "raft_reply \<Rightarrow> raft \<Rightarrow> raft" where
  "raft_answer r p = p\<lparr>ctx := emit (Replied r) (ctx p)\<rparr>"

definition raft_store :: "raft_write \<Rightarrow> raft \<Rightarrow> raft" where
  "raft_store w p = p\<lparr>ctx := emit (Stored w) (ctx p)\<rparr>"

definition raft_connect :: "Host \<Rightarrow> raft \<Rightarrow> raft" where
  "raft_connect h p = p\<lparr>ctx := emit (Connects h) (ctx p)\<rparr>"

subsection \<open>Sessions\<close>

definition raft_OnSessionConnected :: "Host \<Rightarrow> raft \<Rightarrow> raft" where
  "raft_OnSessionConnected host p = p\<lparr>sessions := insert host (sessions p)\<rparr>"

definition raft_OnSessionDisconnected :: "Host \<Rightarrow> raft \<Rightarrow> raft" where
  "raft_OnSessionDisconnected host p = p\<lparr>sessions := sessions p - {host}\<rparr>"

definition raft_OnSessionGivenUp :: "Host \<Rightarrow> raft \<Rightarrow> raft" where
  "raft_OnSessionGivenUp host p = p\<lparr>sessions := sessions p - {host}\<rparr>"

definition raft_ensureConnections :: "raft \<Rightarrow> raft" where
  "raft_ensureConnections p =
     fold (\<lambda>peer p. if peer \<notin> sessions p then raft_connect peer p else p) (peers p) p"

subsection \<open>Leader belief and persistence\<close>

definition setLeader :: "Host \<Rightarrow> raft \<Rightarrow> raft" where
  "setLeader host p =
     (if hasLeader p \<and> leader p = host then p
      else raft_publish (LeaderChanged host (currentTerm p)) (p\<lparr>leader := host, hasLeader := True\<rparr>))"

definition clearLeader :: "raft \<Rightarrow> raft" where
  "clearLeader p = p\<lparr>leader := zeroHost, hasLeader := False\<rparr>"

definition persistTerm :: "raft \<Rightarrow> raft" where
  "persistTerm p = raft_store (SaveTerm (currentTerm p) (votedFor p) (hasVoted p)) p"

subsection \<open>Replication, the leader's side\<close>

definition mget :: "('k \<rightharpoonup> uint64) \<Rightarrow> 'k \<Rightarrow> uint64" where
  "mget m k = (case m k of None \<Rightarrow> 0 | Some v \<Rightarrow> v)"

definition sendAppendEntries :: "Host \<Rightarrow> raft \<Rightarrow> raft" where
  "sendAppendEntries peer p =
     (let ni = max (mget (nextIndex p) peer) 1;
          prevIndex = ni - 1
      in raft_send (AppendEntries (currentTerm p) prevIndex (termAt (log p) prevIndex)
           (commitIndex p) (sliceFrom (log p) ni)) peer p)"

definition broadcastAppendEntries :: "raft \<Rightarrow> raft" where
  "broadcastAppendEntries p = fold sendAppendEntries (peers p) p"

subsection \<open>Election\<close>

text \<open>
  \<open>rng.Int64N(span)\<close> panics unless \<open>span\<close> is positive, which \<open>raft_fillDefaults\<close> ensures for any
  minimum below \<open>2 ^ 62\<close> nanoseconds.
\<close>

definition randomElectionTimeout :: "raft \<Rightarrow> duration \<times> raft" where
  "randomElectionTimeout p =
     (let span = wrap64 (ElectionTimeoutMax (cfg p) - ElectionTimeoutMin (cfg p));
          (r, g) = IntN (nat span) (rng p)
      in (wrap64 (ElectionTimeoutMin (cfg p) + int r), p\<lparr>rng := g\<rparr>))"

definition resetElectionTimer :: "raft \<Rightarrow> raft" where
  "resetElectionTimer p =
     (let p = p\<lparr>ctx := cancel (electionTimer p) (ctx p)\<rparr>;
          (d, p) = randomElectionTimeout p;
          (h, c) = after d OnElectionTimeout (ctx p)
      in p\<lparr>ctx := c, electionTimer := h\<rparr>)"

definition wonElection :: "raft \<Rightarrow> bool" where
  "wonElection p \<longleftrightarrow> card (votesGranted p) \<ge> (length (peers p) + 1) div 2 + 1"

definition becomeLeader :: "raft \<Rightarrow> raft" where
  "becomeLeader p =
     (let p = p\<lparr>role := Leader, ctx := cancel (electionTimer p) (ctx p)\<rparr>;
          last = lastIndex (log p);
          p = p\<lparr>nextIndex := Map.empty, matchIndex := Map.empty\<rparr>;
          p = fold (\<lambda>peer p. p\<lparr>nextIndex := (nextIndex p)(peer \<mapsto> last + 1),
                               matchIndex := (matchIndex p)(peer \<mapsto> 0)\<rparr>) (peers p) p;
          p = setLeader (self p) p;
          (h, c) = every (HeartbeatInterval (cfg p)) BroadcastAppendEntries (ctx p);
          p = p\<lparr>ctx := c, heartbeatTimer := h\<rparr>
      in broadcastAppendEntries p)"

definition startElection :: "raft \<Rightarrow> raft" where
  "startElection p =
     (let p = p\<lparr>role := Candidate, currentTerm := currentTerm p + 1, votedFor := self p,
                hasVoted := True\<rparr>;
          p = clearLeader p;
          p = p\<lparr>votesGranted := {self p}\<rparr>;
          p = persistTerm p;
          p = resetElectionTimer p;
          p = fold (raft_send (RequestVote (currentTerm p) (lastIndex (log p)) (lastTerm (log p))))
                (peers p) p
      in if wonElection p then becomeLeader p else p)"

definition onElectionTimeout :: "raft \<Rightarrow> raft" where
  "onElectionTimeout p = (if role p = Leader then p else startElection p)"

definition stepDown :: "uint64 \<Rightarrow> raft \<Rightarrow> raft" where
  "stepDown t p =
     (let wasLeader = (role p = Leader);
          p = p\<lparr>currentTerm := t, votedFor := zeroHost, hasVoted := False, role := Follower\<rparr>;
          p = clearLeader p;
          p = (if wasLeader then p\<lparr>ctx := cancel (heartbeatTimer p) (ctx p)\<rparr> else p);
          p = persistTerm p
      in resetElectionTimer p)"

definition onRequestVote :: "uint64 \<Rightarrow> uint64 \<Rightarrow> uint64 \<Rightarrow> Host \<Rightarrow> raft \<Rightarrow> raft" where
  "onRequestVote t li lt from p =
     (let p = (if t > currentTerm p then stepDown t p else p);
          grant = (t = currentTerm p \<and> (\<not> hasVoted p \<or> votedFor p = from) \<and>
            logIsUpToDate lt li (lastTerm (log p)) (lastIndex (log p)));
          p = (if grant
               then resetElectionTimer (persistTerm (p\<lparr>votedFor := from, hasVoted := True\<rparr>)) else p)
      in raft_send (RequestVoteReply (currentTerm p) grant) from p)"

definition onRequestVoteReply :: "uint64 \<Rightarrow> bool \<Rightarrow> Host \<Rightarrow> raft \<Rightarrow> raft" where
  "onRequestVoteReply t granted from p =
     (if t > currentTerm p then stepDown t p
      else if role p \<noteq> Candidate \<or> t \<noteq> currentTerm p then p
      else if granted
      then let p = p\<lparr>votesGranted := insert from (votesGranted p)\<rparr>
           in if wonElection p then becomeLeader p else p
      else p)"

subsection \<open>Replication, the follower's side\<close>

function applyCommitted :: "raft \<Rightarrow> raft outcome" where
  "applyCommitted p =
     (if lastApplied p < commitIndex p
      then let p = p\<lparr>lastApplied := lastApplied p + 1\<rparr>
           in case logAt (log p) (lastApplied p) of
                None \<Rightarrow> Panic p
              | Some e \<Rightarrow>
                  applyCommitted (raft_publish (Applied (lastApplied p) (Term e) (Command e)) p)
      else Done p)"
  by pat_completeness auto
termination
proof (relation "measure (\<lambda>p. unat (commitIndex p) - unat (lastApplied p))")
  fix p q :: raft and e
  assume "lastApplied p < commitIndex p" "q = p\<lparr>lastApplied := lastApplied p + 1\<rparr>"
  moreover from this have "lastApplied p \<noteq> - 1"
    by (metis not_less word_order.extremum)
  ultimately show "(raft_publish (Applied (lastApplied q) (Term e) (Command e)) q, p)
      \<in> measure (\<lambda>p. unat (commitIndex p) - unat (lastApplied p))"
    by (simp add: raft_publish_def unat_add_one word_less_nat_alt)
qed simp

declare applyCommitted.simps [simp del]

text \<open>
  The loop of \<open>appendConflictFree\<close> at the entry whose index is \<open>idx\<close>: it skips entries the log
  already has, then truncates a conflicting suffix, appends the rest and persists that suffix.
\<close>

fun acfLoop :: "uint64 \<Rightarrow> LogEntry list \<Rightarrow> raft \<Rightarrow> raft" where
  "acfLoop idx [] p = p"
| "acfLoop idx (e # es) p =
     (if idx \<le> lastIndex (log p) \<and> termAt (log p) idx = Term e then acfLoop (idx + 1) es p
      else let p = (if idx \<le> lastIndex (log p) then p\<lparr>log := truncateFrom idx (log p)\<rparr> else p);
               p = fold (\<lambda>ne p. p\<lparr>log := snd (logAppend (LogEntry (Term ne) (Command ne)) (log p))\<rparr>)
                     (e # es) p
           in raft_store (SaveEntries idx (e # es)) p)"

definition appendConflictFree :: "uint64 \<Rightarrow> LogEntry list \<Rightarrow> raft \<Rightarrow> raft" where
  "appendConflictFree prevIndex es p = acfLoop (prevIndex + 1) es p"

definition onAppendEntries ::
  "uint64 \<Rightarrow> uint64 \<Rightarrow> uint64 \<Rightarrow> uint64 \<Rightarrow> LogEntry list \<Rightarrow> Host \<Rightarrow> raft \<Rightarrow> raft outcome" where
  "onAppendEntries t prevIndex prevTerm leaderCommit es from p =
     (if t < currentTerm p
      then Done (raft_send (AppendEntriesReply (currentTerm p) 0 False) from p)
      else let p = (if t > currentTerm p then stepDown t p else p);
               p = p\<lparr>role := Follower\<rparr>;
               p = setLeader from p;
               p = resetElectionTimer p
           in if prevIndex > lastIndex (log p) \<or> termAt (log p) prevIndex \<noteq> prevTerm
              then Done (raft_send (AppendEntriesReply (currentTerm p) 0 False) from p)
              else let p = appendConflictFree prevIndex es p;
                       mi = prevIndex + word_of_nat (length es)
                   in bindO
                        (if leaderCommit > commitIndex p
                         then applyCommitted (p\<lparr>commitIndex := min leaderCommit mi\<rparr>) else Done p)
                        (\<lambda>p. Done (raft_send (AppendEntriesReply (currentTerm p) mi True) from p)))"

subsection \<open>Commitment\<close>

definition maybeAdvanceCommit :: "raft \<Rightarrow> raft outcome" where
  "maybeAdvanceCommit p =
     (let matches = lastIndex (log p) # map (mget (matchIndex p)) (peers p);
          newCommit = advanceCommitIndex (commitIndex p) (currentTerm p) (log p) matches
            (length (peers p) + 1)
      in if newCommit > commitIndex p then applyCommitted (p\<lparr>commitIndex := newCommit\<rparr>) else Done p)"

definition onAppendEntriesReply :: "uint64 \<Rightarrow> uint64 \<Rightarrow> bool \<Rightarrow> Host \<Rightarrow> raft \<Rightarrow> raft outcome" where
  "onAppendEntriesReply t mi ok from p =
     (if t > currentTerm p then Done (stepDown t p)
      else if role p \<noteq> Leader \<or> t \<noteq> currentTerm p then Done p
      else if ok
      then let p = p\<lparr>matchIndex := (matchIndex p)(from \<mapsto> max (mget (matchIndex p) from) mi)\<rparr>;
               p = p\<lparr>nextIndex := (nextIndex p)(from \<mapsto> mget (matchIndex p) from + 1)\<rparr>
           in maybeAdvanceCommit p
      else let p = (if mget (nextIndex p) from > 1
                    then p\<lparr>nextIndex := (nextIndex p)(from \<mapsto> mget (nextIndex p) from - 1)\<rparr> else p)
           in Done (sendAppendEntries from p))"

subsection \<open>Requests and start-up\<close>

definition raft_handlePropose :: "bytes \<Rightarrow> raft \<Rightarrow> raft outcome" where
  "raft_handlePropose cmd p =
     (if role p \<noteq> Leader then Done (raft_answer (NotLeaderError (leader p) (hasLeader p)) p)
      else let entry = LogEntry (currentTerm p) cmd;
               (idx, l) = logAppend entry (log p);
               p = p\<lparr>log := l\<rparr>;
               p = raft_store (SaveEntries idx [entry]) p
           in bindO (maybeAdvanceCommit p) (\<lambda>p.
                Done (broadcastAppendEntries (raft_answer (RaftProposeReply idx (currentTerm p)) p))))"

definition raft_handleDebugState :: "raft \<Rightarrow> raft" where
  "raft_handleDebugState p =
     raft_answer (RaftDebugReply (role p) (currentTerm p) (commitIndex p) (lastApplied p)
       (lastIndex (log p)) (lastTerm (log p)) (leader p) (hasLeader p)) p"

definition raft_Init ::
  "(uint64 \<Rightarrow> uint64 \<Rightarrow> nat stream) \<Rightarrow> RaftState \<Rightarrow> raft \<Rightarrow> raft" where
  "raft_Init newPCG st p =
     (let (s1, s2) = seedFromHost (self p);
          p = p\<lparr>rng := newPCG s1 s2\<rparr>;
          p = p\<lparr>currentTerm := CurrentTerm st, votedFor := VotedFor st, hasVoted := HasVoted st,
                log := newRaftLog (Log st)\<rparr>;
          p = raft_ensureConnections p;
          (h, c) = every (rReconnectInterval (cfg p)) RaftEnsureConnections (ctx p);
          p = p\<lparr>ctx := c\<rparr>
      in resetElectionTimer p)"

text \<open>What \<open>Start\<close> registers: the handler of each message type, and the timer callbacks.\<close>

fun raft_handle :: "raft_msg \<Rightarrow> Host \<Rightarrow> raft \<Rightarrow> raft outcome" where
  "raft_handle (RequestVote t li lt) from p = Done (onRequestVote t li lt from p)"
| "raft_handle (RequestVoteReply t g) from p = Done (onRequestVoteReply t g from p)"
| "raft_handle (AppendEntries t pi pt lc es) from p = onAppendEntries t pi pt lc es from p"
| "raft_handle (AppendEntriesReply t mi ok) from p = onAppendEntriesReply t mi ok from p"

fun raft_callback :: "raft_cb \<Rightarrow> raft \<Rightarrow> raft" where
  "raft_callback OnElectionTimeout p = onElectionTimeout p"
| "raft_callback BroadcastAppendEntries p = broadcastAppendEntries p"
| "raft_callback RaftEnsureConnections p = raft_ensureConnections p"

end
