(* ===== verification/Raft_Rules.thy ===== *)
theory Raft_Rules
  imports Raft
begin

text \<open>
  What the local rules of a Raft server do: the splice of a leader's entries onto a follower's
  log, the application of committed entries, the commit rule of a leader, and that no handler
  panics.  A Go slice has fewer than \<open>2 ^ 63\<close> elements (\<open>slice_ok\<close>).
\<close>

definition slice_ok :: "'a list \<Rightarrow> bool" where
  "slice_ok xs \<longleftrightarrow> length xs < 2 ^ 63"

subsection \<open>What the small helpers leave alone\<close>

lemma resetElectionTimer_simps [simp]:
  "cfg (resetElectionTimer p) = cfg p"
  "self (resetElectionTimer p) = self p"
  "peers (resetElectionTimer p) = peers p"
  "currentTerm (resetElectionTimer p) = currentTerm p"
  "votedFor (resetElectionTimer p) = votedFor p"
  "hasVoted (resetElectionTimer p) = hasVoted p"
  "log (resetElectionTimer p) = log p"
  "role (resetElectionTimer p) = role p"
  "commitIndex (resetElectionTimer p) = commitIndex p"
  "lastApplied (resetElectionTimer p) = lastApplied p"
  "leader (resetElectionTimer p) = leader p"
  "hasLeader (resetElectionTimer p) = hasLeader p"
  "nextIndex (resetElectionTimer p) = nextIndex p"
  "matchIndex (resetElectionTimer p) = matchIndex p"
  "votesGranted (resetElectionTimer p) = votesGranted p"
  "sessions (resetElectionTimer p) = sessions p"
  "heartbeatTimer (resetElectionTimer p) = heartbeatTimer p"
  "out (ctx (resetElectionTimer p)) = out (ctx p)"
  by (auto simp: resetElectionTimer_def randomElectionTimeout_def IntN_def after_def cancel_def Let_def
      split: option.splits)

lemma setLeader_simps [simp]:
  "cfg (setLeader h p) = cfg p"
  "self (setLeader h p) = self p"
  "peers (setLeader h p) = peers p"
  "currentTerm (setLeader h p) = currentTerm p"
  "votedFor (setLeader h p) = votedFor p"
  "hasVoted (setLeader h p) = hasVoted p"
  "log (setLeader h p) = log p"
  "role (setLeader h p) = role p"
  "commitIndex (setLeader h p) = commitIndex p"
  "lastApplied (setLeader h p) = lastApplied p"
  "nextIndex (setLeader h p) = nextIndex p"
  "matchIndex (setLeader h p) = matchIndex p"
  "votesGranted (setLeader h p) = votesGranted p"
  "sessions (setLeader h p) = sessions p"
  "heartbeatTimer (setLeader h p) = heartbeatTimer p"
  by (simp_all add: setLeader_def raft_publish_def)

lemma stepDown_simps [simp]:
  "cfg (stepDown t p) = cfg p"
  "self (stepDown t p) = self p"
  "peers (stepDown t p) = peers p"
  "log (stepDown t p) = log p"
  "commitIndex (stepDown t p) = commitIndex p"
  "lastApplied (stepDown t p) = lastApplied p"
  "nextIndex (stepDown t p) = nextIndex p"
  "matchIndex (stepDown t p) = matchIndex p"
  "votesGranted (stepDown t p) = votesGranted p"
  "sessions (stepDown t p) = sessions p"
  "heartbeatTimer (stepDown t p) = heartbeatTimer p"
  "currentTerm (stepDown t p) = t" "hasVoted (stepDown t p) = False" "role (stepDown t p) = Follower"
  "votedFor (stepDown t p) = zeroHost"
  "out (ctx (stepDown t p)) = out (ctx p) @ [Stored (SaveTerm t zeroHost False)]"
  by (auto simp: stepDown_def clearLeader_def persistTerm_def raft_store_def emit_def cancel_def Let_def
      split: option.splits)

text \<open>The part of \<open>onAppendEntries\<close> that recognises the sender as the leader of its term.\<close>

definition heardLeader :: "uint64 \<Rightarrow> Host \<Rightarrow> raft \<Rightarrow> raft" where
  "heardLeader t from p =
     resetElectionTimer (setLeader from ((if t > currentTerm p then stepDown t p else p)\<lparr>role := Follower\<rparr>))"

lemma heardLeader_simps [simp]:
  "cfg (heardLeader t h p) = cfg p"
  "self (heardLeader t h p) = self p"
  "peers (heardLeader t h p) = peers p"
  "log (heardLeader t h p) = log p"
  "commitIndex (heardLeader t h p) = commitIndex p"
  "lastApplied (heardLeader t h p) = lastApplied p"
  "nextIndex (heardLeader t h p) = nextIndex p"
  "matchIndex (heardLeader t h p) = matchIndex p"
  "votesGranted (heardLeader t h p) = votesGranted p"
  "sessions (heardLeader t h p) = sessions p"
  "heartbeatTimer (heardLeader t h p) = heartbeatTimer p"
  "role (heardLeader t h p) = Follower"
  by (simp_all add: heardLeader_def)

lemma onAppendEntries_heardLeader:
  "onAppendEntries t pi pt lc es from p =
     (if t < currentTerm p
      then Done (raft_send (AppendEntriesReply (currentTerm p) 0 False) from p)
      else let p = heardLeader t from p
           in if pi > lastIndex (log p) \<or> termAt (log p) pi \<noteq> pt
              then Done (raft_send (AppendEntriesReply (currentTerm p) 0 False) from p)
              else let p = appendConflictFree pi es p; mi = pi + word_of_nat (length es)
                   in bindO (if lc > commitIndex p
                             then applyCommitted (p\<lparr>commitIndex := min lc mi\<rparr>) else Done p)
                        (\<lambda>p. Done (raft_send (AppendEntriesReply (currentTerm p) mi True) from p)))"
  by (simp only: onAppendEntries_def heardLeader_def Let_def)

subsection \<open>Indices\<close>

lemma unat_lastIndex: "length l < 2 ^ 64 \<Longrightarrow> unat (lastIndex l) = length l"
  by (simp add: lastIndex_def unat_of_nat64)

lemma le_lastIndex: "length l < 2 ^ 64 \<Longrightarrow> i \<le> lastIndex l \<longleftrightarrow> unat i \<le> length l"
  by (simp add: word_le_nat_alt unat_lastIndex)

lemma unat_pred: "i \<noteq> 0 \<Longrightarrow> unat (i - 1 :: uint64) = unat i - 1"
  by (simp add: unat_minus_one)

lemma termAt_nth:
  "length l < 2 ^ 64 \<Longrightarrow> i \<noteq> 0 \<Longrightarrow> unat i \<le> length l \<Longrightarrow> termAt l i = Term (l ! (unat i - 1))"
  by (simp add: termAt_def unat_pred word_less_nat_alt unat_lastIndex)

lemma logAt_nth:
  "length l < 2 ^ 64 \<Longrightarrow> i \<noteq> 0 \<Longrightarrow> unat i \<le> length l \<Longrightarrow> logAt l i = Some (l ! (unat i - 1))"
proof -
  assume a: "i \<noteq> 0" "unat i \<le> length l"
  then have "unat i \<noteq> 0" by (simp add: unat_eq_zero)
  with a(2) have "unat i - 1 < length l" by linarith
  with a(1) show ?thesis by (simp add: logAt_def unat_pred)
qed

subsection \<open>Appending a leader's entries\<close>

text \<open>
  The reference: keep the entries that agree in term with the leader's, replace everything from
  the first disagreement on, and never shorten a log that agrees.
\<close>

fun mergeSuffix :: "LogEntry list \<Rightarrow> LogEntry list \<Rightarrow> LogEntry list" where
  "mergeSuffix xs [] = xs"
| "mergeSuffix [] (e # es) = e # es"
| "mergeSuffix (x # xs) (e # es) = (if Term x = Term e then x # mergeSuffix xs es else e # es)"

lemma length_mergeSuffix: "length es \<le> length (mergeSuffix xs es)"
  by (induction xs es rule: mergeSuffix.induct) simp_all

lemma length_mergeSuffix_le: "length (mergeSuffix xs es) \<le> max (length xs) (length es)"
  by (induction xs es rule: mergeSuffix.induct) auto

lemma log_append_all:
  "fold (\<lambda>ne p. p\<lparr>log := snd (logAppend (LogEntry (Term ne) (Command ne)) (log p))\<rparr>) es p =
     p\<lparr>log := log p @ es\<rparr>"
  by (induction es arbitrary: p) (simp_all add: logAppend_def)

text \<open>What the loop leaves: the merged log, and one storage write of the changed suffix.\<close>

lemma acfLoop_merge:
  assumes "unat idx = Suc k" "k \<le> length (log p)" "length (log p) < 2 ^ 63"
    "k + length es < 2 ^ 64"
  shows "\<exists>ws. acfLoop idx es p =
      p\<lparr>log := take k (log p) @ mergeSuffix (drop k (log p)) es,
        ctx := (ctx p)\<lparr>out := out (ctx p) @ map Stored ws\<rparr>\<rparr> \<and>
    (ws = [] \<and> take k (log p) @ mergeSuffix (drop k (log p)) es = log p \<or>
     (\<exists>i sfx. ws = [SaveEntries i sfx] \<and> 1 \<le> i \<and>
        take k (log p) @ mergeSuffix (drop k (log p)) es = spliceAt i sfx (log p)))"
  using assms
proof (induction es arbitrary: idx k)
  case Nil
  then show ?case by (intro exI [of _ "[]"]) simp
next
  case (Cons e es)
  have len: "length (log p) < 2 ^ 64" using Cons.prems(3) by simp
  have i0: "idx \<noteq> 0" using Cons.prems(1) by auto
  show ?case
  proof (cases "k < length (log p) \<and> Term (log p ! k) = Term e")
    case True
    then have hit: "idx \<le> lastIndex (log p) \<and> termAt (log p) idx = Term e"
      using Cons.prems(1) i0 len by (simp add: le_lastIndex termAt_nth)
    have "idx \<noteq> - 1"
      using Cons.prems True by (auto simp: unat_max64)
    then have "unat (idx + 1) = Suc (Suc k)"
      using Cons.prems(1) by (simp add: unat_add_one)
    from Cons.IH [OF this] True Cons.prems obtain ws where
      "acfLoop (idx + 1) es p =
        p\<lparr>log := take (Suc k) (log p) @ mergeSuffix (drop (Suc k) (log p)) es,
          ctx := (ctx p)\<lparr>out := out (ctx p) @ map Stored ws\<rparr>\<rparr>"
      "ws = [] \<and> take (Suc k) (log p) @ mergeSuffix (drop (Suc k) (log p)) es = log p \<or>
       (\<exists>i sfx. ws = [SaveEntries i sfx] \<and> 1 \<le> i \<and>
          take (Suc k) (log p) @ mergeSuffix (drop (Suc k) (log p)) es = spliceAt i sfx (log p))"
      by auto
    moreover have "take k (log p) @ mergeSuffix (drop k (log p)) (e # es) =
        take (Suc k) (log p) @ mergeSuffix (drop (Suc k) (log p)) es"
      using True by (simp add: Cons_nth_drop_Suc [symmetric] take_Suc_conv_app_nth)
    ultimately show ?thesis
      using hit by (intro exI [of _ ws]) simp
  next
    case False
    then have miss: "\<not> (idx \<le> lastIndex (log p) \<and> termAt (log p) idx = Term e)"
      using Cons.prems(1) i0 len by (auto simp: le_lastIndex termAt_nth)
    have m: "mergeSuffix (drop k (log p)) (e # es) = e # es"
      using False Cons.prems(2)
      by (cases "k < length (log p)") (simp_all add: Cons_nth_drop_Suc [symmetric])
    have tr: "(if idx \<le> lastIndex (log p) then p\<lparr>log := truncateFrom idx (log p)\<rparr> else p) =
        p\<lparr>log := take k (log p)\<rparr>"
      using Cons.prems(1) i0 len
      by (auto simp: truncateFrom_def word_less_nat_alt word_le_nat_alt unat_lastIndex unat_pred)
    have "acfLoop idx (e # es) p =
        raft_store (SaveEntries idx (e # es)) (p\<lparr>log := take k (log p) @ e # es\<rparr>)"
      unfolding acfLoop.simps if_not_P [OF miss] Let_def tr log_append_all by simp
    moreover have "spliceAt idx (e # es) (log p) = take k (log p) @ e # es"
      using Cons.prems(1) i0 by (simp add: spliceAt_def unat_pred)
    ultimately show ?thesis
      using m i0
      by (intro exI [of _ "[SaveEntries idx (e # es)]"])
        (simp add: raft_store_def emit_def word_le_nat_alt Cons.prems(1))
  qed
qed

lemma appendConflictFree_merge:
  assumes "prev \<le> lastIndex (log p)" "slice_ok (log p)" "slice_ok es"
  defines "l \<equiv> take (unat prev) (log p) @ mergeSuffix (drop (unat prev) (log p)) es"
  shows "\<exists>ws. appendConflictFree prev es p =
      p\<lparr>log := l, ctx := (ctx p)\<lparr>out := out (ctx p) @ map Stored ws\<rparr>\<rparr> \<and>
    (ws = [] \<and> l = log p \<or> (\<exists>i sfx. ws = [SaveEntries i sfx] \<and> 1 \<le> i \<and> l = spliceAt i sfx (log p)))"
proof -
  have b: "length (log p) < 2 ^ 63" "length es < 2 ^ 63"
    using assms(2,3) by (simp_all add: slice_ok_def)
  then have "length (log p) < 2 ^ 64" by simp
  then have k: "unat prev \<le> length (log p)" using assms(1) by (simp add: le_lastIndex)
  have "prev \<noteq> - 1" using b(1) k by (auto simp: unat_max64)
  then have "unat (prev + 1) = Suc (unat prev)" by (simp add: unat_add_one)
  then show ?thesis
    unfolding appendConflictFree_def l_def
    by (rule acfLoop_merge) (use b k in simp_all)
qed

subsection \<open>Applying committed entries\<close>

definition appliedNotes :: "raftLog \<Rightarrow> nat \<Rightarrow> nat \<Rightarrow> raft_note list" where
  "appliedNotes l a b =
     map (\<lambda>i. Applied (word_of_nat (Suc i)) (Term (l ! i)) (Command (l ! i))) [a..<b]"

lemma applyCommitted_Done:
  assumes "commitIndex p \<le> lastApplied p \<or> unat (commitIndex p) \<le> length (log p)"
    "length (log p) < 2 ^ 64"
  shows "applyCommitted p = Done (p\<lparr>lastApplied := max (lastApplied p) (commitIndex p),
    ctx := (ctx p)\<lparr>out := out (ctx p) @ map Published
      (appliedNotes (log p) (unat (lastApplied p)) (unat (commitIndex p)))\<rparr>\<rparr>)"
  using assms
proof (induction p rule: applyCommitted.induct)
  case (1 p)
  show ?case
  proof (cases "lastApplied p < commitIndex p")
    case False
    then have "max (lastApplied p) (commitIndex p) = lastApplied p"
        "unat (commitIndex p) \<le> unat (lastApplied p)"
      by (simp_all add: max_absorb1 word_le_nat_alt word_less_nat_alt)
    with False show ?thesis
      by (subst applyCommitted.simps) (simp add: appliedNotes_def)
  next
    case True
    let ?q = "p\<lparr>lastApplied := lastApplied p + 1\<rparr>"
    have n1: "lastApplied p \<noteq> - 1" using True by (metis not_less word_order.extremum)
    then have s: "unat (lastApplied p + 1) = Suc (unat (lastApplied p))"
      by (simp add: unat_add_one)
    have le: "unat (lastApplied p) < unat (commitIndex p)" using True by (simp add: word_less_nat_alt)
    have le': "lastApplied p + 1 \<le> commitIndex p" using le s by (simp add: word_le_nat_alt)
    have cl: "unat (commitIndex p) \<le> length (log p)" using "1.prems"(1) True by auto
    have nz: "lastApplied p + 1 \<noteq> 0" using s by auto
    have at: "logAt (log p) (lastApplied p + 1) = Some (log p ! unat (lastApplied p))"
      using logAt_nth [OF "1.prems"(2) nz] s le cl by simp
    have w: "word_of_nat (Suc (unat (lastApplied p))) = lastApplied p + 1"
      by (simp add: add.commute)
    have "[unat (lastApplied p)..<unat (commitIndex p)] =
        unat (lastApplied p) # [Suc (unat (lastApplied p))..<unat (commitIndex p)]"
      using le by (rule upt_conv_Cons)
    then have nts: "appliedNotes (log p) (unat (lastApplied p)) (unat (commitIndex p)) =
        Applied (lastApplied p + 1) (Term (log p ! unat (lastApplied p)))
          (Command (log p ! unat (lastApplied p))) #
        appliedNotes (log p) (Suc (unat (lastApplied p))) (unat (commitIndex p))"
      by (simp add: appliedNotes_def w)
    show ?thesis
      using "1.IH" [OF True refl, of "log p ! unat (lastApplied p)"] at cl "1.prems"(2) True le' nts s
      by (subst applyCommitted.simps)
        (simp add: raft_publish_def emit_def Let_def max_def)
  qed
qed

subsection \<open>The commit rule\<close>

text \<open>
  Index \<open>k\<close> may be committed by counting: it is above the commit index, its entry is of the
  leader's own term, and a majority of the members hold it.
\<close>

definition committable :: "uint64 \<Rightarrow> uint64 \<Rightarrow> raftLog \<Rightarrow> uint64 list \<Rightarrow> nat \<Rightarrow> uint64 \<Rightarrow> bool" where
  "committable cc ct lg ms n k \<longleftrightarrow>
     cc < k \<and> k \<le> lastIndex lg \<and> termAt lg k = ct \<and> n div 2 + 1 \<le> replicas ms k"

lemma commitLoop_bounds:
  "commitLoop cc ct lg ms maj n = cc \<or>
   cc < commitLoop cc ct lg ms maj n \<and> commitLoop cc ct lg ms maj n \<le> n \<and>
     termAt lg (commitLoop cc ct lg ms maj n) = ct \<and> maj \<le> replicas ms (commitLoop cc ct lg ms maj n)"
proof (induction cc ct lg ms maj n rule: commitLoop.induct)
  case (1 cc ct lg ms maj n)
  have "n - 1 \<le> n" if "cc < n"
  proof -
    have "n \<noteq> 0" using that by auto
    then show ?thesis by (simp add: word_le_nat_alt unat_minus_one)
  qed
  with 1 show ?case
    by (subst (1 2 3 4 5) commitLoop.simps) (auto intro: order.trans)
qed

lemma termAt_mono:
  assumes "sorted (map Term lg)" "length lg < 2 ^ 64" "k \<noteq> 0" "k \<le> n" "n \<le> lastIndex lg"
  shows "termAt lg k \<le> termAt lg n"
proof -
  have u: "unat k \<le> unat n" "unat n \<le> length lg" "unat k \<noteq> 0"
    using assms by (simp_all add: word_le_nat_alt unat_lastIndex unat_eq_zero)
  then have "n \<noteq> 0" by auto
  with u assms have "termAt lg k = Term (lg ! (unat k - 1))" "termAt lg n = Term (lg ! (unat n - 1))"
    by (simp_all add: termAt_nth)
  moreover have "map Term lg ! (unat k - 1) \<le> map Term lg ! (unat n - 1)"
    using u by (intro sorted_nth_mono [OF assms(1)]) auto
  ultimately show ?thesis using u by simp
qed

lemma commitLoop_greatest:
  assumes "sorted (map Term lg)" "length lg < 2 ^ 64"
    "\<And>k. k \<le> lastIndex lg \<Longrightarrow> termAt lg k \<le> ct"
  shows "n \<le> lastIndex lg \<Longrightarrow> cc < k \<Longrightarrow> k \<le> n \<Longrightarrow> termAt lg k = ct \<Longrightarrow> maj \<le> replicas ms k \<Longrightarrow>
    k \<le> commitLoop cc ct lg ms maj n"
proof (induction n rule: measure_induct_rule [of unat])
  case (less n)
  then have n: "cc < n" "n \<noteq> 0" "k \<noteq> 0" by auto
  have t: "termAt lg n = ct"
    using termAt_mono [OF assms(1,2) n(3) less.prems(3,1)] less.prems(4) assms(3) [OF less.prems(1)]
    by simp
  show ?case
  proof (cases "maj \<le> replicas ms n")
    case True
    then show ?thesis using n t less.prems(3) by (subst commitLoop.simps) simp
  next
    case False
    then have "k \<noteq> n" using less.prems(5) by auto
    then have "unat k < unat n" using less.prems(3) by (simp add: word_le_nat_alt word_unat_eq_iff)
    then have "k \<le> n - 1" "n - 1 \<le> lastIndex lg" "unat (n - 1) < unat n"
      using n less.prems(1) by (simp_all add: word_le_nat_alt unat_minus_one)
    then have "k \<le> commitLoop cc ct lg ms maj (n - 1)"
      using less.IH [of "n - 1"] less.prems by simp
    then show ?thesis using n t False by (subst commitLoop.simps) simp
  qed
qed

text \<open>
  C37. The commit rule: on a log whose terms never decrease and never exceed the leader's term,
  which stops its scan at the first older term, \<open>advanceCommitIndex\<close> still finds the greatest
  index that may be committed by counting, and leaves the commit index alone when there is none.
\<close>

theorem advanceCommitIndex_greatest:
  assumes "sorted (map Term lg)" "slice_ok lg" "\<forall>e \<in> set lg. Term e \<le> ct"
  shows "(\<forall>k. committable cc ct lg ms n k \<longrightarrow> k \<le> advanceCommitIndex cc ct lg ms n) \<and>
    (committable cc ct lg ms n (advanceCommitIndex cc ct lg ms n) \<or>
     advanceCommitIndex cc ct lg ms n = cc \<and> (\<forall>k. \<not> committable cc ct lg ms n k))"
proof -
  let ?r = "advanceCommitIndex cc ct lg ms n"
  have len: "length lg < 2 ^ 64" using assms(2) by (simp add: slice_ok_def)
  have "termAt lg k \<le> ct" if "k \<le> lastIndex lg" for k
  proof (cases "k = 0")
    case False
    then have u: "unat k \<noteq> 0" "unat k \<le> length lg"
      using that len by (simp_all add: word_le_nat_alt unat_lastIndex unat_eq_zero)
    then have "lg ! (unat k - 1) \<in> set lg" by (intro nth_mem) linarith
    then show ?thesis using assms(3) False len u by (simp add: termAt_nth)
  qed (simp add: termAt_def)
  then have g: "k \<le> ?r" if "committable cc ct lg ms n k" for k
    using that commitLoop_greatest [OF assms(1) len]
    by (auto simp: committable_def advanceCommitIndex_def)
  have b: "?r = cc \<or> committable cc ct lg ms n ?r"
    using commitLoop_bounds [of cc ct lg ms "n div 2 + 1" "lastIndex lg"]
    by (simp add: committable_def advanceCommitIndex_def)
  have "\<not> committable cc ct lg ms n k" if "?r = cc" for k
    using g [of k] that by (auto simp: committable_def)
  with g b show ?thesis by blast
qed

theorem advanceCommitIndex_greatest_witness:
  "committable 0 2 [LogEntry 1 [], LogEntry 2 []] [2, 2, 0] 3 2 \<and>
   2 \<le> advanceCommitIndex 0 2 [LogEntry 1 [], LogEntry 2 []] [2, 2, 0] 3"
  using advanceCommitIndex_greatest [of "[LogEntry 1 [], LogEntry 2 []]" 2 0 "[2, 2, 0]" 3]
  by (simp add: committable_def slice_ok_def lastIndex_def termAt_def replicas_def)

subsection \<open>No handler panics\<close>

lemma maybeAdvanceCommit_Done:
  assumes "slice_ok (log p)"
  shows "\<exists>q. maybeAdvanceCommit p = Done q"
proof -
  have len: "length (log p) < 2 ^ 64" using assms by (simp add: slice_ok_def)
  let ?n = "advanceCommitIndex (commitIndex p) (currentTerm p) (log p)
    (lastIndex (log p) # map (mget (matchIndex p)) (peers p)) (length (peers p) + 1)"
  have "?n = commitIndex p \<or> ?n \<le> lastIndex (log p)"
    using commitLoop_bounds unfolding advanceCommitIndex_def by blast
  then have "?n > commitIndex p \<Longrightarrow> unat ?n \<le> length (log p)"
    using len by (auto simp: word_le_nat_alt unat_lastIndex)
  then show ?thesis
    using applyCommitted_Done [of "p\<lparr>commitIndex := ?n\<rparr>"] len
    by (auto simp: maybeAdvanceCommit_def Let_def)
qed

text \<open>The follower holds every entry up to the match index it reports.\<close>

lemma appendConflictFree_bounds:
  assumes "pi \<le> lastIndex (log p)" "slice_ok (log p)" "slice_ok es"
  defines "q \<equiv> appendConflictFree pi es p"
  shows "unat (pi + word_of_nat (length es)) = unat pi + length es"
    "unat pi + length es \<le> length (log q)" "length (log q) < 2 ^ 64"
    "commitIndex q = commitIndex p" "lastApplied q = lastApplied p" "currentTerm q = currentTerm p"
proof -
  have b: "length (log p) < 2 ^ 63" "length es < 2 ^ 63"
    using assms(2,3) by (simp_all add: slice_ok_def)
  then have "length (log p) < 2 ^ 64" by simp
  then have k: "unat pi \<le> length (log p)"
    using assms(1) by (simp add: word_le_nat_alt unat_lastIndex)
  obtain c where q: "q = p\<lparr>log := take (unat pi) (log p) @ mergeSuffix (drop (unat pi) (log p)) es,
      ctx := c\<rparr>"
    using appendConflictFree_merge [OF assms(1-3)] unfolding q_def by blast
  have "unat pi + length es < 2 ^ 64" using b k by simp
  then show "unat (pi + word_of_nat (length es)) = unat pi + length es"
    by (simp add: unat_word_ariths unat_of_nat64)
  show "unat pi + length es \<le> length (log q)"
    using k length_mergeSuffix [of es "drop (unat pi) (log p)"] by (simp add: q)
  show "length (log q) < 2 ^ 64"
    using k b length_mergeSuffix_le [of "drop (unat pi) (log p)" es] by (simp add: q)
  show "commitIndex q = commitIndex p" "lastApplied q = lastApplied p" "currentTerm q = currentTerm p"
    by (simp_all add: q)
qed

lemma onAppendEntries_Done:
  assumes "slice_ok (log p)" "slice_ok es"
  shows "\<exists>q. onAppendEntries t pi pt lc es f p = Done q"
proof -
  let ?p = "heardLeader t f p" and ?mi = "pi + word_of_nat (length es)"
  let ?q = "appendConflictFree pi es ?p"
  have "\<exists>r. applyCommitted (?q\<lparr>commitIndex := min lc ?mi\<rparr>) = Done r" if "pi \<le> lastIndex (log ?p)"
  proof -
    have "slice_ok (log ?p)" using assms(1) by simp
    note b = appendConflictFree_bounds [OF that this assms(2)]
    have "unat (min lc ?mi) \<le> length (log ?q)"
      using b(1,2) by (auto simp: min_def word_le_nat_alt)
    then show ?thesis
      using applyCommitted_Done [of "?q\<lparr>commitIndex := min lc ?mi\<rparr>"] b(3) by auto
  qed
  then show ?thesis
    by (auto simp: onAppendEntries_heardLeader Let_def not_less)
qed

lemma raft_handle_Done:
  assumes "slice_ok (log p)" "slice_ok (raft_entries m)"
  shows "\<exists>q. raft_handle m from p = Done q"
  using assms onAppendEntries_Done [OF assms(1)]
  by (cases m) (auto simp: onAppendEntriesReply_def Let_def intro!: maybeAdvanceCommit_Done)


definition noConf :: RaftConfig where
  "noConf = \<lparr>rPeers = [], HeartbeatInterval = 0, ElectionTimeoutMin = 0, ElectionTimeoutMax = 0,
     rReconnectInterval = 0\<rparr>"


text \<open>
  No proposal panics: the leader's own append, commit and replication stay inside the log.
\<close>

theorem raft_handlePropose_no_panic:
  assumes "length (log p) + 1 < 2 ^ 63"
  shows "\<exists>q. raft_handlePropose cmd p = Done q"
proof -
  let ?e = "LogEntry (currentTerm p) cmd"
  let ?p = "raft_store (SaveEntries (lastIndex (log p @ [?e])) [?e]) (p\<lparr>log := log p @ [?e]\<rparr>)"
  obtain q where "maybeAdvanceCommit ?p = Done q"
    using maybeAdvanceCommit_Done [of ?p] assms by (auto simp: slice_ok_def raft_store_def)
  then show ?thesis
    by (simp add: raft_handlePropose_def logAppend_def Let_def)
qed

theorem raft_handlePropose_no_panic_witness:
  "\<exists>q. raft_handlePropose [7] (raft_New zeroHost noConf (\<lambda>_. False)) = Done q"
  by (rule raft_handlePropose_no_panic) (simp add: raft_New_def Let_def)

end
