(* ===== verification/Raft_Cluster.thy ===== *)
theory Raft_Cluster
  imports Raft_Rules
begin

text \<open>
  A group of Raft servers over a network that may lose, duplicate, delay and reorder messages,
  with restarts from durable storage.  A step is one event handled by one member.  The theory
  proves that the votes of a term elect at most one leader and that every claim to leadership on
  the network or in a notification is backed by a majority of votes.
\<close>

subsection \<open>The group\<close>

type_synonym rgroup = "(raft, raft_msg, raft_note, raft_write, RaftMemory) cluster"

definition rclear :: "raft \<Rightarrow> raft" where
  "rclear p = p\<lparr>ctx := (ctx p)\<lparr>out := []\<rparr>\<rparr>"

definition rrun :: "Host \<Rightarrow> raft \<Rightarrow> rgroup \<Rightarrow> rgroup" where
  "rrun h p s = absorb raft_save h (rclear p) (out (ctx p)) s"

text \<open>Every member lists exactly the other members, each once.\<close>

definition raft_group :: "Host set \<Rightarrow> (Host \<Rightarrow> RaftConfig) \<Rightarrow> bool" where
  "raft_group M conf \<longleftrightarrow> finite M \<and>
     (\<forall>h \<in> M. distinct (filter (\<lambda>p. p \<noteq> h) (rPeers (conf h))) \<and>
        set (filter (\<lambda>p. p \<noteq> h) (rPeers (conf h))) = M - {h})"

definition raft_start ::
  "(uint64 \<Rightarrow> uint64 \<Rightarrow> nat stream) \<Rightarrow> (Host \<Rightarrow> bool) \<Rightarrow> (Host \<Rightarrow> RaftConfig) \<Rightarrow> rgroup" where
  "raft_start pcg ce conf =
     \<lparr>nodes = (\<lambda>h. rclear (raft_Init pcg (raft_Load raft_NewMemoryStorage) (raft_New h (conf h) ce))),
      net = {}, notices = {}, writes = {}, disk = (\<lambda>_. raft_NewMemoryStorage)\<rparr>"

text \<open>
  A member stands for election only while its term is below \<open>2 ^ 64 - 1\<close>, and a log that grows
  stays a Go slice.
\<close>

inductive raft_reach ::
  "Host set \<Rightarrow> (uint64 \<Rightarrow> uint64 \<Rightarrow> nat stream) \<Rightarrow> (Host \<Rightarrow> bool) \<Rightarrow> (Host \<Rightarrow> RaftConfig) \<Rightarrow>
     rgroup \<Rightarrow> bool"
  for M pcg ce conf where
  start: "raft_reach M pcg ce conf (raft_start pcg ce conf)"
| deliver: "raft_reach M pcg ce conf s \<Longrightarrow> h \<in> M \<Longrightarrow> (f, h, m) \<in> net s \<Longrightarrow>
    slice_ok (log (final (raft_handle m f (nodes s h)))) \<Longrightarrow>
    raft_reach M pcg ce conf (rrun h (final (raft_handle m f (nodes s h))) s)"
| propose: "raft_reach M pcg ce conf s \<Longrightarrow> h \<in> M \<Longrightarrow> length (log (nodes s h)) + 1 < 2 ^ 63 \<Longrightarrow>
    raft_reach M pcg ce conf (rrun h (final (raft_handlePropose cmd (nodes s h))) s)"
| timer: "raft_reach M pcg ce conf s \<Longrightarrow> h \<in> M \<Longrightarrow> t \<in> set (pending (ctx (nodes s h))) \<Longrightarrow>
    currentTerm (nodes s h) \<noteq> - 1 \<Longrightarrow>
    raft_reach M pcg ce conf
      (rrun h (raft_callback (tfn t) ((nodes s h)\<lparr>ctx := fire t (ctx (nodes s h))\<rparr>)) s)"
| debug: "raft_reach M pcg ce conf s \<Longrightarrow> h \<in> M \<Longrightarrow>
    raft_reach M pcg ce conf (rrun h (raft_handleDebugState (nodes s h)) s)"
| connected: "raft_reach M pcg ce conf s \<Longrightarrow> h \<in> M \<Longrightarrow>
    raft_reach M pcg ce conf (rrun h (raft_OnSessionConnected f (nodes s h)) s)"
| disconnected: "raft_reach M pcg ce conf s \<Longrightarrow> h \<in> M \<Longrightarrow>
    raft_reach M pcg ce conf (rrun h (raft_OnSessionDisconnected f (nodes s h)) s)"
| givenUp: "raft_reach M pcg ce conf s \<Longrightarrow> h \<in> M \<Longrightarrow>
    raft_reach M pcg ce conf (rrun h (raft_OnSessionGivenUp f (nodes s h)) s)"
| restart: "raft_reach M pcg ce conf s \<Longrightarrow> h \<in> M \<Longrightarrow>
    raft_reach M pcg ce conf
      (rrun h (raft_Init pcg (raft_Load (disk s h)) (raft_New h (conf h) ce)) s)"

subsection \<open>What the history says\<close>

definition rvoted :: "rgroup \<Rightarrow> Host \<Rightarrow> uint64 \<Rightarrow> Host \<Rightarrow> bool" where
  "rvoted s a t c \<longleftrightarrow> (a, SaveTerm t c True) \<in> writes s"

definition elected :: "Host set \<Rightarrow> rgroup \<Rightarrow> Host \<Rightarrow> uint64 \<Rightarrow> bool" where
  "elected M s c t \<longleftrightarrow> (\<exists>Q. majority M Q \<and> (\<forall>v \<in> Q. rvoted s v t c))"

definition rpersisted :: "raft \<Rightarrow> RaftState" where
  "rpersisted p = \<lparr>CurrentTerm = currentTerm p, VotedFor = votedFor p, HasVoted = hasVoted p, Log = log p\<rparr>"

definition rmember_ok :: "Host set \<Rightarrow> Host \<Rightarrow> raft \<Rightarrow> bool" where
  "rmember_ok M h p \<longleftrightarrow> self p = h \<and> set (peers p) = M - {h} \<and> length (peers p) + 1 = card M"

text \<open>Only a leader has a heartbeat timer that can fire.\<close>

definition beats :: "raft \<Rightarrow> bool" where
  "beats p \<longleftrightarrow> (\<forall>t \<in> set (pending (ctx p)). tfn t = BroadcastAppendEntries \<longrightarrow>
     role p = Leader \<and> heartbeatTimer p = Some (tid t))"

subsection \<open>The invariant\<close>

text \<open>What holds of a member on its own.\<close>

definition node_ok :: "Host set \<Rightarrow> rgroup \<Rightarrow> Host \<Rightarrow> raft \<Rightarrow> bool" where
  "node_ok M s a p \<longleftrightarrow> rmember_ok M a p \<and> beats p \<and> slice_ok (log p) \<and>
     (\<forall>t c. rvoted s a t c \<longrightarrow> t \<le> currentTerm p \<and> (t = currentTerm p \<longrightarrow> hasVoted p \<and> votedFor p = c)) \<and>
     (\<forall>t c d. rvoted s a t c \<and> rvoted s a t d \<longrightarrow> c = d) \<and>
     (role p = Candidate \<longrightarrow> (\<forall>v \<in> votesGranted p. v \<in> M \<and> rvoted s v (currentTerm p) a)) \<and>
     (role p = Leader \<longrightarrow> elected M s a (currentTerm p))"

text \<open>What holds of a message that \<open>a\<close> sent to \<open>d\<close>, and of a notification.\<close>

fun msg_ok :: "Host set \<Rightarrow> rgroup \<Rightarrow> Host \<Rightarrow> Host \<Rightarrow> raft_msg \<Rightarrow> bool" where
  "msg_ok M s a d (RequestVote _ _ _) = (a \<in> M \<and> a \<noteq> d)"
| "msg_ok M s a d (RequestVoteReply t g) = (a \<in> M \<and> a \<noteq> d \<and> (g \<longrightarrow> rvoted s a t d))"
| "msg_ok M s a d (AppendEntries t _ _ _ es) = (a \<in> M \<and> a \<noteq> d \<and> elected M s a t \<and> slice_ok es)"
| "msg_ok M s a d (AppendEntriesReply _ _ _) = (a \<in> M \<and> a \<noteq> d)"

fun note_ok :: "Host set \<Rightarrow> rgroup \<Rightarrow> raft_note \<Rightarrow> bool" where
  "note_ok M s (LeaderChanged l t) = elected M s l t"
| "note_ok M s (Applied _ _ _) = True"

definition rinv :: "Host set \<Rightarrow> rgroup \<Rightarrow> bool" where
  "rinv M s \<longleftrightarrow> finite M \<and> (\<forall>a \<in> M. node_ok M s a (nodes s a)) \<and>
     (\<forall>a d m. (a, d, m) \<in> net s \<longrightarrow> msg_ok M s a d m) \<and>
     (\<forall>a n. (a, n) \<in> notices s \<longrightarrow> note_ok M s n) \<and>
     (\<forall>a \<in> M. raft_Load (disk s a) = rpersisted (nodes s a))"

subsection \<open>At most one leader per term\<close>

lemma elected_unique:
  assumes "\<And>a t c d. a \<in> M \<Longrightarrow> rvoted s a t c \<Longrightarrow> rvoted s a t d \<Longrightarrow> c = d"
    and "elected M s c t" "elected M s d t"
  shows "c = d"
proof -
  obtain Q R where Q: "majority M Q" "\<forall>v \<in> Q. rvoted s v t c"
    and R: "majority M R" "\<forall>v \<in> R. rvoted s v t d"
    using assms(2,3) by (auto simp: elected_def)
  show ?thesis
  proof (rule maj.unique_winner [where vote = "\<lambda>v x. v \<in> M \<and> rvoted s v t x"])
    show "majority M Q" "majority M R" by fact+
  qed (use Q R assms(1) in \<open>auto simp: majority_def\<close>)
qed

lemma rinv_elected_unique: "rinv M s \<Longrightarrow> elected M s c t \<Longrightarrow> elected M s d t \<Longrightarrow> c = d"
  by (rule elected_unique) (auto simp: rinv_def node_ok_def)

lemma elected_mono:
  "elected M s c t \<Longrightarrow> (\<And>a t c. rvoted s a t c \<Longrightarrow> rvoted s' a t c) \<Longrightarrow> elected M s' c t"
  by (auto simp: elected_def)

lemma msg_ok_mono:
  "msg_ok M s a d m \<Longrightarrow> (\<And>a t c. rvoted s a t c \<Longrightarrow> rvoted s' a t c) \<Longrightarrow> msg_ok M s' a d m"
  by (cases m) (auto intro: elected_mono)

lemma note_ok_mono:
  "note_ok M s n \<Longrightarrow> (\<And>a t c. rvoted s a t c \<Longrightarrow> rvoted s' a t c) \<Longrightarrow> note_ok M s' n"
  by (cases n) (auto intro: elected_mono)

lemma node_ok_mono:
  assumes "node_ok M s a p" "\<And>a t c. rvoted s a t c \<Longrightarrow> rvoted s' a t c"
    "\<And>t c. rvoted s' a t c \<Longrightarrow> rvoted s a t c"
  shows "node_ok M s' a p"
proof -
  have eq: "rvoted s' a t c = rvoted s a t c" for t c using assms(2,3) by blast
  have el: "elected M s' a t" if "elected M s a t" for t
    using that assms(2) by (rule elected_mono)
  show ?thesis
    using assms(1) el assms(2) unfolding node_ok_def eq by simp
qed

subsection \<open>How a running handler changes the group\<close>

lemma rclear_simps [simp]:
  "rpersisted (rclear p) = rpersisted p" "node_ok M s a (rclear p) = node_ok M s a p"
  by (simp_all add: rclear_def rpersisted_def node_ok_def rmember_ok_def beats_def)

lemma rrun_simps [simp]:
  "nodes (rrun h p s) = (nodes s)(h := rclear p)"
  "(a, b, m) \<in> net (rrun h p s) \<longleftrightarrow> (a, b, m) \<in> net s \<or> a = h \<and> Sent m b \<in> set (out (ctx p))"
  "(a, n) \<in> notices (rrun h p s) \<longleftrightarrow> (a, n) \<in> notices s \<or> a = h \<and> Published n \<in> set (out (ctx p))"
  "(a, w) \<in> writes (rrun h p s) \<longleftrightarrow> (a, w) \<in> writes s \<or> a = h \<and> Stored w \<in> set (out (ctx p))"
  "disk (rrun h p s) = (disk s)(h := fold raft_save (storedL (out (ctx p))) (disk s h))"
  by (simp_all add: rrun_def)

text \<open>
  \<open>K M c s p\<close>: the group would satisfy the invariant if member \<open>c\<close>, in the middle of a handler
  that started in \<open>s\<close>, stopped in the state \<open>p\<close>.
\<close>

definition K :: "Host set \<Rightarrow> Host \<Rightarrow> rgroup \<Rightarrow> raft \<Rightarrow> bool" where
  "K M c s p \<longleftrightarrow> c \<in> M \<and> rinv M (rrun c p s)"

lemma rvoted_run:
  "rvoted (rrun c p s) a t x \<longleftrightarrow>
     rvoted s a t x \<or> a = c \<and> Stored (SaveTerm t x True) \<in> set (out (ctx p))"
  by (auto simp: rvoted_def)

lemma K_facts:
  assumes "K M c s p"
  shows "c \<in> M" "finite M" "node_ok M (rrun c p s) c p"
    "\<And>f m. (f, c, m) \<in> net s \<Longrightarrow> msg_ok M (rrun c p s) f c m"
    "\<And>x y t. elected M (rrun c p s) x t \<Longrightarrow> elected M (rrun c p s) y t \<Longrightarrow> x = y"
proof -
  show c: "c \<in> M" and i: "finite M" using assms by (simp_all add: K_def rinv_def)
  have inv: "rinv M (rrun c p s)" using assms by (simp add: K_def)
  then have "node_ok M (rrun c p s) c (nodes (rrun c p s) c)"
    using c unfolding rinv_def by blast
  then show "node_ok M (rrun c p s) c p" by simp
  show "msg_ok M (rrun c p s) f c m" if "(f, c, m) \<in> net s" for f m
  proof -
    have "(f, c, m) \<in> net (rrun c p s)" using that by simp
    then show ?thesis using inv unfolding rinv_def by blast
  qed
  show "x = y" if "elected M (rrun c p s) x t" "elected M (rrun c p s) y t" for x y t
    using inv that by (rule rinv_elected_unique)
qed

lemma K_step:
  assumes K: "K M c s p" and out: "out (ctx p') = out (ctx p) @ es"
    and node: "node_ok M (rrun c p' s) c p'"
    and sends: "\<And>m d. Sent m d \<in> set es \<Longrightarrow> msg_ok M (rrun c p' s) c d m"
    and pubs: "\<And>n. Published n \<in> set es \<Longrightarrow> note_ok M (rrun c p' s) n"
    and disk: "saves_ok (storedL es) (rpersisted p)"
      "fold state_save (storedL es) (rpersisted p) = rpersisted p'"
  shows "K M c s p'"
proof -
  let ?S = "rrun c p s" and ?S' = "rrun c p' s"
  have inv: "c \<in> M" "rinv M ?S" using K by (simp_all add: K_def)
  have up: "rvoted ?S' a t x" if "rvoted ?S a t x" for a t x
    using that by (auto simp: rvoted_run out)
  have same: "rvoted ?S a t x" if "rvoted ?S' a t x" "a \<noteq> c" for a t x
    using that by (auto simp: rvoted_run)
  have "node_ok M ?S' a (nodes ?S' a)" if "a \<in> M" for a
  proof (cases "a = c")
    case True
    then show ?thesis using node by simp
  next
    case False
    then have "node_ok M ?S a (nodes s a)" using inv that by (auto simp: rinv_def)
    then have "node_ok M ?S' a (nodes s a)"
      by (rule node_ok_mono) (use up same False in blast)+
    then show ?thesis using False by simp
  qed
  moreover have "msg_ok M ?S' a d m" if "(a, d, m) \<in> net ?S'" for a d m
  proof -
    have "(a, d, m) \<in> net ?S \<or> a = c \<and> Sent m d \<in> set es" using that by (auto simp: out)
    then show ?thesis using inv(2) sends msg_ok_mono [OF _ up] unfolding rinv_def by blast
  qed
  moreover have "note_ok M ?S' n" if "(a, n) \<in> notices ?S'" for a n
  proof -
    have "(a, n) \<in> notices ?S \<or> Published n \<in> set es" using that by (auto simp: out)
    then show ?thesis using inv(2) pubs note_ok_mono [OF _ up] unfolding rinv_def by blast
  qed
  moreover have "raft_Load (disk ?S' a) = rpersisted (nodes ?S' a)" if "a \<in> M" for a
  proof (cases "a = c")
    case True
    have "raft_Load (disk ?S c) = rpersisted p" using inv unfolding rinv_def by auto
    then have "raft_Load (fold raft_save (storedL es) (disk ?S c)) = rpersisted p'"
      using rmem.load_fold [of "storedL es" "disk ?S c"] disk by simp
    with True show ?thesis by (simp add: out)
  next
    case False
    then show ?thesis using inv(2) that by (auto simp: rinv_def)
  qed
  ultimately show ?thesis
    using inv by (simp add: K_def rinv_def)
qed

text \<open>Changes with no storage write: the votes stay.\<close>

lemma rvoted_same:
  "out (ctx p') = out (ctx p) @ es \<Longrightarrow> storedL es = [] \<Longrightarrow>
     rvoted (rrun c p' s) a t x = rvoted (rrun c p s) a t x"
  using set_storedL [of es] by (auto simp: rvoted_run)

lemma K_same:
  assumes K: "K M c s p" and out: "out (ctx p') = out (ctx p) @ es" "storedL es = []"
    and same: "rpersisted p' = rpersisted p" and mem: "rmember_ok M c p'" and beat: "beats p'"
    and cand: "\<And>v. role p' = Candidate \<Longrightarrow> v \<in> votesGranted p' \<Longrightarrow>
      v \<in> M \<and> rvoted (rrun c p s) v (currentTerm p) c"
    and lead: "role p' = Leader \<Longrightarrow> elected M (rrun c p s) c (currentTerm p)"
    and sends: "\<And>m d. Sent m d \<in> set es \<Longrightarrow> msg_ok M (rrun c p s) c d m"
    and pubs: "\<And>n. Published n \<in> set es \<Longrightarrow> note_ok M (rrun c p s) n"
  shows "K M c s p'"
proof -
  have v: "rvoted (rrun c p' s) a t x = rvoted (rrun c p s) a t x" for a t x
    using out by (rule rvoted_same)
  have el: "elected M (rrun c p' s) a t = elected M (rrun c p s) a t" for a t
    by (simp add: elected_def v)
  have f: "currentTerm p' = currentTerm p" "votedFor p' = votedFor p" "hasVoted p' = hasVoted p"
      "log p' = log p"
    using same by (simp_all add: rpersisted_def)
  have "node_ok M (rrun c p' s) c p'"
    using K_facts(3) [OF K] mem beat cand lead unfolding node_ok_def v el f by blast
  then show ?thesis
    using K_step [OF K out(1)] sends pubs out(2) same v
    by (metis (no_types, lifting) msg_ok_mono note_ok_mono fold_simps(1) saves_ok.simps(1))
qed

lemma K_quiet:
  assumes K: "K M c s p" and out: "out (ctx p') = out (ctx p) @ es" "storedL es = []"
    and same: "rpersisted p' = rpersisted p" "rmember_ok M c p'" "beats p'" "role p' = role p"
      "votesGranted p' = votesGranted p"
    and sends: "\<And>m d. Sent m d \<in> set es \<Longrightarrow> msg_ok M (rrun c p s) c d m"
    and pubs: "\<And>n. Published n \<in> set es \<Longrightarrow> note_ok M (rrun c p s) n"
  shows "K M c s p'"
  using K out same(1-3) _ _ sends pubs
  by (rule K_same) (use K_facts(3) [OF K] same(4,5) in \<open>auto simp: node_ok_def\<close>)

lemma K_node:
  assumes "K M c s p"
  shows "rmember_ok M c p" "beats p" "slice_ok (log p)" "self p = c"
    "\<And>h. h \<in> set (peers p) \<Longrightarrow> h \<noteq> c"
    "role p = Leader \<Longrightarrow> elected M (rrun c p s) c (currentTerm p)"
  using K_facts(3) [OF assms] by (auto simp: node_ok_def rmember_ok_def)

subsection \<open>The helpers\<close>

lemma rmember_ok_cong:
  "self p' = self p \<Longrightarrow> peers p' = peers p \<Longrightarrow> rmember_ok M c p' = rmember_ok M c p"
  by (simp add: rmember_ok_def)

lemma rpersisted_cong:
  "currentTerm p' = currentTerm p \<Longrightarrow> votedFor p' = votedFor p \<Longrightarrow> hasVoted p' = hasVoted p \<Longrightarrow>
     log p' = log p \<Longrightarrow> rpersisted p' = rpersisted p"
  by (simp add: rpersisted_def)

lemma beats_reset [simp]: "beats p \<Longrightarrow> beats (resetElectionTimer p)"
  by (auto simp: beats_def resetElectionTimer_def randomElectionTimeout_def IntN_def after_def
      cancel_def Let_def split: option.splits)

lemma K_reset:
  assumes "K M c s p"
  shows "K M c s (resetElectionTimer p)"
  using K_node(1,2) [OF assms]
  by (intro K_quiet [OF assms, of _ "[]"]) (simp_all add: rmember_ok_def rpersisted_def)

lemma beats_cong:
  "pending (ctx p') = pending (ctx p) \<Longrightarrow> role p' = role p \<Longrightarrow> heartbeatTimer p' = heartbeatTimer p \<Longrightarrow>
     beats p' = beats p"
  by (simp add: beats_def)

lemma K_emit:
  assumes "K M c s p" "storedL [e] = []"
    and "\<And>m d. e = Sent m d \<Longrightarrow> msg_ok M (rrun c p s) c d m"
    and "\<And>n. e = Published n \<Longrightarrow> note_ok M (rrun c p s) n"
  shows "K M c s (p\<lparr>ctx := emit e (ctx p)\<rparr>)"
  using K_node(1,2) [OF assms(1)] assms(2-4)
  by (intro K_quiet [OF assms(1), of _ "[e]"])
    (auto simp: emit_def rpersisted_def rmember_ok_def beats_def)

lemma K_send: "K M c s p \<Longrightarrow> msg_ok M (rrun c p s) c d m \<Longrightarrow> K M c s (raft_send m d p)"
  unfolding raft_send_def by (rule K_emit) auto

lemma K_answer: "K M c s p \<Longrightarrow> K M c s (raft_answer r p)"
  unfolding raft_answer_def by (rule K_emit) auto

lemma K_publish: "K M c s p \<Longrightarrow> note_ok M (rrun c p s) n \<Longrightarrow> K M c s (raft_publish n p)"
  unfolding raft_publish_def by (rule K_emit) auto

text \<open>Volatile fields no clause of the invariant mentions.\<close>

lemma K_volatile:
  assumes "K M c s p"
  shows "K M c s (p\<lparr>nextIndex := ni, matchIndex := mi\<rparr>)" "K M c s (p\<lparr>commitIndex := ci\<rparr>)"
    "K M c s (p\<lparr>nextIndex := ni\<rparr>)" "K M c s (p\<lparr>matchIndex := mi\<rparr>)"
    "K M c s (p\<lparr>lastApplied := la\<rparr>)" "K M c s (p\<lparr>sessions := S\<rparr>)"
    "K M c s (p\<lparr>leader := l, hasLeader := hl\<rparr>)"
  by (rule K_quiet [OF assms, of _ "[]"];
      use K_node(1,2) [OF assms] in \<open>simp add: rpersisted_def rmember_ok_def beats_def\<close>)+

lemma rvoted_send [simp]: "rvoted (rrun c (raft_send m d p) s) a t x = rvoted (rrun c p s) a t x"
  by (auto simp: rvoted_run raft_send_def emit_def)

lemma K_setLeader:
  assumes "K M c s p" "elected M (rrun c p s) h (currentTerm p)"
  shows "K M c s (setLeader h p)"
proof -
  let ?p = "p\<lparr>leader := h, hasLeader := True\<rparr>"
  have "rvoted (rrun c ?p s) a t x = rvoted (rrun c p s) a t x" for a t x
    by (simp add: rvoted_run)
  then show ?thesis
    using K_volatile(7) [OF assms(1)] assms
    by (auto simp: setLeader_def elected_def intro!: K_publish)
qed

subsection \<open>Elections\<close>

lemma beats_stepDown:
  assumes "beats p"
  shows "beats (stepDown t p)"
proof -
  let ?q = "p\<lparr>currentTerm := t, votedFor := zeroHost, hasVoted := False, role := Follower,
    leader := zeroHost, hasLeader := False\<rparr>"
  let ?r = "if role p = Leader then ?q\<lparr>ctx := cancel (heartbeatTimer p) (ctx p)\<rparr> else ?q"
  have "beats (persistTerm ?r)"
    using assms
    by (auto simp: beats_def persistTerm_def raft_store_def emit_def cancel_def split: option.splits)
  then have "beats (resetElectionTimer (persistTerm ?r))" by (rule beats_reset)
  then show ?thesis
    by (cases "role p = Leader") (simp_all add: stepDown_def Let_def clearLeader_def)
qed

lemma K_stepDown:
  assumes K: "K M c s p" and t: "currentTerm p < t"
  shows "K M c s (stepDown t p)"
proof -
  let ?q = "stepDown t p" and ?es = "[Stored (SaveTerm t zeroHost False)]"
  have v: "rvoted (rrun c ?q s) a u x = rvoted (rrun c p s) a u x" for a u x
    by (auto simp: rvoted_run)
  have n: "node_ok M (rrun c p s) c p" by (rule K_facts(3) [OF K])
  have "u \<le> t \<and> u \<noteq> t" if "rvoted (rrun c p s) c u x" for u x
    using n that t unfolding node_ok_def by force
  then have "node_ok M (rrun c ?q s) c ?q"
    using n beats_stepDown [of p t] by (auto simp: node_ok_def v rmember_ok_def)
  then show ?thesis
    by (intro K_step [OF K, of _ ?es]) (simp_all add: rpersisted_def)
qed

lemma K_sendAppendEntries:
  assumes K: "K M c s p" and r: "role p = Leader" and d: "d \<noteq> c"
  shows "K M c s (sendAppendEntries d p)"
proof -
  have "slice_ok (sliceFrom (log p) i)" for i
    using K_node(3) [OF K] by (auto simp: slice_ok_def sliceFrom_def)
  then show ?thesis
    using K_facts(1) [OF K] K_node(6) [OF K r] d
    by (auto simp: sendAppendEntries_def Let_def intro!: K_send [OF K])
qed

lemma sendAppendEntries_simps [simp]:
  "role (sendAppendEntries d p) = role p" "peers (sendAppendEntries d p) = peers p"
  by (simp_all add: sendAppendEntries_def raft_send_def Let_def)

lemma K_broadcast:
  assumes "K M c s p" "role p = Leader"
  shows "K M c s (broadcastAppendEntries p)"
proof -
  have "K M c s (fold sendAppendEntries hs q)"
    if "K M c s q" "role q = Leader" "\<forall>h \<in> set hs. h \<noteq> c" for hs q
    using that by (induction hs arbitrary: q) (simp_all add: K_sendAppendEntries)
  then show ?thesis
    using assms K_node(5) [OF assms(1)] by (simp add: broadcastAppendEntries_def)
qed

lemma won_elected:
  assumes K: "K M c s p" and "role p = Candidate" "wonElection p"
  shows "elected M (rrun c p s) c (currentTerm p)"
proof -
  have "\<forall>v \<in> votesGranted p. v \<in> M \<and> rvoted (rrun c p s) v (currentTerm p) c"
    using K_facts(3) [OF K] assms(2) by (simp add: node_ok_def)
  moreover have "card M div 2 + 1 \<le> card (votesGranted p)"
    using assms(3) K_node(1) [OF K] by (simp add: wonElection_def rmember_ok_def)
  ultimately show ?thesis
    using K_facts(2) [OF K] unfolding elected_def majority_def by blast
qed

lemma fill_indices:
  "fold (\<lambda>peer p. p\<lparr>nextIndex := (nextIndex p)(peer \<mapsto> v),
      matchIndex := (matchIndex p)(peer \<mapsto> 0)\<rparr>) hs p =
   p\<lparr>nextIndex := fold (\<lambda>h m. m(h \<mapsto> v)) hs (nextIndex p),
     matchIndex := fold (\<lambda>h m. m(h \<mapsto> 0)) hs (matchIndex p)\<rparr>"
  by (induction hs arbitrary: p) simp_all

lemma K_becomeLeader:
  assumes K: "K M c s p" and cand: "role p = Candidate" and won: "wonElection p"
  shows "K M c s (becomeLeader p)"
proof -
  let ?q = "p\<lparr>role := Leader, ctx := cancel (electionTimer p) (ctx p)\<rparr>"
  have el: "elected M (rrun c p s) c (currentTerm p)"
    using K cand won by (rule won_elected)
  have none: "tfn t \<noteq> BroadcastAppendEntries" if "t \<in> set (pending (ctx p))" for t
    using K_node(2) [OF K] cand that by (auto simp: beats_def)
  have o: "out (cancel h k) = out k" "set (pending (cancel h k)) \<subseteq> set (pending k)"
      for h and k :: raft_ctx
    by (auto simp: cancel_def split: option.splits)
  have none': "tfn t \<noteq> BroadcastAppendEntries" if "t \<in> set (pending (ctx ?q))" for t
    using that none o(2) by auto
  have K1: "K M c s ?q"
    using K_node(1) [OF K] el none'
    by (intro K_same [OF K, of _ "[]"]) (auto simp: o rpersisted_def rmember_ok_def beats_def)
  let ?r = "?q\<lparr>nextIndex := fold (\<lambda>h m. m(h \<mapsto> lastIndex (log p) + 1)) (peers p) Map.empty,
    matchIndex := fold (\<lambda>h m. m(h \<mapsto> 0)) (peers p) Map.empty\<rparr>"
  have K2: "K M c s ?r" using K1 by (rule K_volatile)
  have el2: "elected M (rrun c ?r s) c (currentTerm ?r)"
    using K_node(6) [OF K2] by simp
  let ?t = "setLeader c ?r"
  have K3: "K M c s ?t" using K2 el2 by (rule K_setLeader)
  obtain h k where ev: "every (HeartbeatInterval (cfg ?t)) BroadcastAppendEntries (ctx ?t) = (h, k)"
    by fastforce
  have pend: "pending (ctx ?t) = pending (ctx ?q)"
    by (simp add: setLeader_def raft_publish_def emit_def)
  have hk: "out k = out (ctx ?t)" "h = Some (nextTimerID k)"
      "pending k = pending (ctx ?q) @ [Timer (nextTimerID k) (HeartbeatInterval (cfg ?t)) True BroadcastAppendEntries]"
    using ev pend by (auto simp: every_def Let_def)
  have "K M c s (?t\<lparr>ctx := k, heartbeatTimer := h\<rparr>)"
    using K_node(1) [OF K3] none'
    by (intro K_quiet [OF K3, of _ "[]"])
      (auto simp: hk rpersisted_def rmember_ok_def beats_def)
  then have "K M c s (broadcastAppendEntries (?t\<lparr>ctx := k, heartbeatTimer := h\<rparr>))"
    by (rule K_broadcast) simp
  then show ?thesis
    using ev K_node(4) [OF K2] by (simp add: becomeLeader_def Let_def fill_indices)
qed

lemma K_sends:
  assumes "K M c s p" "\<And>d. d \<in> set hs \<Longrightarrow> d \<noteq> c" "\<And>S d. d \<noteq> c \<Longrightarrow> msg_ok M S c d m"
  shows "K M c s (fold (raft_send m) hs p)"
  using assms(1,2)
proof (induction hs arbitrary: p)
  case Nil
  then show ?case by simp
next
  case (Cons h hs)
  have "K M c s (raft_send m h p)"
    using Cons.prems assms(3) by (intro K_send) auto
  then show ?case using Cons by simp
qed

lemma sends_simps [simp]:
  "role (fold (raft_send m) hs p) = role p" "currentTerm (fold (raft_send m) hs p) = currentTerm p"
  by (induction hs arbitrary: p) (simp_all add: raft_send_def)

text \<open>A vote is a storage write for the current term, by a server that has not voted otherwise.\<close>

lemma K_vote:
  assumes K: "K M c s p"
    and r: "role q = Candidate \<Longrightarrow> votesGranted q = {c} \<and> x = c \<or>
        role p = Candidate \<and> votesGranted q = votesGranted p \<and> currentTerm q = currentTerm p"
      "role q = Leader \<Longrightarrow> role p = Leader \<and> currentTerm q = currentTerm p"
    and q: "rmember_ok M c q" "beats q" "log q = log p" "hasVoted q" "votedFor q = x"
      "out (ctx q) = out (ctx p) @ [Stored (SaveTerm (currentTerm q) x True)]"
    and new: "currentTerm p < currentTerm q \<or>
      currentTerm q = currentTerm p \<and> (\<not> hasVoted p \<or> votedFor p = x)"
  shows "K M c s q" and "rvoted (rrun c q s) c (currentTerm q) x"
proof -
  have v: "rvoted (rrun c q s) a t y \<longleftrightarrow>
      rvoted (rrun c p s) a t y \<or> a = c \<and> t = currentTerm q \<and> y = x" for a t y
    by (auto simp: rvoted_run q(6))
  show "rvoted (rrun c q s) c (currentTerm q) x" by (simp add: v)
  note n = K_facts(3) [OF K, unfolded node_ok_def]
  have old: "t \<le> currentTerm q \<and> (t = currentTerm q \<longrightarrow> y = x)" if "rvoted (rrun c p s) c t y" for t y
    using n that new by force
  have el: "elected M (rrun c q s) a t" if "elected M (rrun c p s) a t" for a t
    using that by (rule elected_mono) (simp add: v)
  have "node_ok M (rrun c q s) c q"
    unfolding node_ok_def
  proof (intro conjI allI impI ballI; (elim conjE)?)
    fix t y assume "rvoted (rrun c q s) c t y"
    then show "t \<le> currentTerm q" "t = currentTerm q \<Longrightarrow> votedFor q = y"
      using old q(5) by (auto simp: v)
  next
    fix t y z assume "rvoted (rrun c q s) c t y" "rvoted (rrun c q s) c t z"
    then show "y = z" using n old unfolding v by blast
  next
    fix w assume "role q = Candidate" "w \<in> votesGranted q"
    then show "w \<in> M" "rvoted (rrun c q s) w (currentTerm q) c"
      using r(1) n K_facts(1) [OF K] by (auto simp: v)
  next
    assume "role q = Leader"
    then show "elected M (rrun c q s) c (currentTerm q)"
      using r(2) n el by simp
  qed (use n q in auto)
  then show "K M c s q"
    by (intro K_step [OF K q(6)]) (simp_all add: rpersisted_def q)
qed

text \<open>The part of \<open>startElection\<close> before the candidate counts its own vote.\<close>

definition standing :: "raft \<Rightarrow> raft" where
  "standing p =
     (let q = resetElectionTimer (persistTerm (p\<lparr>role := Candidate, currentTerm := currentTerm p + 1,
            votedFor := self p, hasVoted := True, leader := zeroHost, hasLeader := False,
            votesGranted := {self p}\<rparr>))
      in fold (raft_send (RequestVote (currentTerm q) (lastIndex (log q)) (lastTerm (log q)))) (peers q) q)"

lemma startElection_standing:
  "startElection p = (if wonElection (standing p) then becomeLeader (standing p) else standing p)"
  by (simp add: startElection_def standing_def clearLeader_def Let_def)

lemma standing_role [simp]: "role (standing p) = Candidate"
  by (simp add: standing_def persistTerm_def raft_store_def Let_def)

lemma K_standing:
  assumes K: "K M c s p" and r: "role p \<noteq> Leader" and t: "currentTerm p \<noteq> - 1"
  shows "K M c s (standing p)"
proof -
  let ?q = "persistTerm (p\<lparr>role := Candidate, currentTerm := currentTerm p + 1, votedFor := c,
    hasVoted := True, leader := zeroHost, hasLeader := False, votesGranted := {c}\<rparr>)"
  have lt: "currentTerm p < currentTerm p + 1" using t by (rule less_add_one_word)
  have "beats ?q"
    using K_node(2) [OF K] r by (auto simp: beats_def persistTerm_def raft_store_def emit_def)
  then have "K M c s ?q"
    using K_node(1) [OF K] lt
    by (intro K_vote [OF K]) (auto simp: persistTerm_def raft_store_def emit_def rmember_ok_def)
  then have Kr: "K M c s (resetElectionTimer ?q)" by (rule K_reset)
  let ?m = "RequestVote (currentTerm (resetElectionTimer ?q)) (lastIndex (log (resetElectionTimer ?q)))
    (lastTerm (log (resetElectionTimer ?q)))"
  have "K M c s (fold (raft_send ?m) (peers (resetElectionTimer ?q)) (resetElectionTimer ?q))"
    using Kr K_node(5) [OF Kr] K_facts(1) [OF K] by (intro K_sends) auto
  then show ?thesis
    using K_node(4) [OF K] by (simp add: standing_def Let_def)
qed

lemma K_startElection:
  "K M c s p \<Longrightarrow> role p \<noteq> Leader \<Longrightarrow> currentTerm p \<noteq> - 1 \<Longrightarrow> K M c s (startElection p)"
  using K_standing K_becomeLeader by (simp add: startElection_standing)

lemma K_onRequestVote:
  assumes K: "K M c s p" and f: "f \<noteq> c"
  shows "K M c s (onRequestVote t li lt f p)"
proof -
  let ?p = "if t > currentTerm p then stepDown t p else p"
  have K1: "K M c s ?p" using K K_stepDown by simp
  let ?g = "t = currentTerm ?p \<and> (\<not> hasVoted ?p \<or> votedFor ?p = f) \<and>
      logIsUpToDate lt li (lastTerm (log ?p)) (lastIndex (log ?p))"
  let ?q = "persistTerm (?p\<lparr>votedFor := f, hasVoted := True\<rparr>)"
  show ?thesis
  proof (cases ?g)
    case False
    then show ?thesis
      using K1 K_facts(1) [OF K] f
      by (auto simp: onRequestVote_def Let_def simp del: stepDown_simps intro!: K_send)
  next
    case True
    have q: "K M c s ?q" "rvoted (rrun c ?q s) c (currentTerm ?q) f"
      by (rule K_vote [OF K1, of ?q f];
          use True K_node(1,2) [OF K1] in
            \<open>auto simp: persistTerm_def raft_store_def emit_def rmember_ok_def beats_def
              simp del: stepDown_simps\<close>)+
    have "rvoted (rrun c (resetElectionTimer ?q) s) c t f"
      using q(2) True by (simp add: rvoted_run persistTerm_def raft_store_def del: stepDown_simps)
    then have "K M c s (raft_send (RequestVoteReply t True) f (resetElectionTimer ?q))"
      using f K_facts(1) [OF K] by (intro K_send K_reset q) auto
    moreover have "onRequestVote t li lt f p =
        raft_send (RequestVoteReply t True) f (resetElectionTimer ?q)"
      using True by (simp add: onRequestVote_def Let_def persistTerm_def raft_store_def del: stepDown_simps)
    ultimately show ?thesis by simp
  qed
qed

lemma K_onRequestVoteReply:
  assumes K: "K M c s p" and g: "g \<Longrightarrow> f \<in> M \<and> rvoted (rrun c p s) f t c"
  shows "K M c s (onRequestVoteReply t g f p)"
proof -
  let ?q = "p\<lparr>votesGranted := insert f (votesGranted p)\<rparr>"
  have "K M c s ?q" if "role p = Candidate" "t = currentTerm p" "g"
    using K_facts(3) [OF K, unfolded node_ok_def] g that
    by (intro K_same [OF K, of _ "[]"]) (auto simp: rpersisted_def rmember_ok_def beats_def)
  then show ?thesis
    using K K_stepDown [OF K] K_becomeLeader
    by (auto simp: onRequestVoteReply_def Let_def)
qed

subsection \<open>Replication\<close>

lemma K_log:
  assumes K: "K M c s p" and l: "slice_ok l"
    and w: "ws = [] \<and> l = log p \<or> (\<exists>i sfx. ws = [SaveEntries i sfx] \<and> 1 \<le> i \<and> l = spliceAt i sfx (log p))"
  shows "K M c s (p\<lparr>log := l, ctx := (ctx p)\<lparr>out := out (ctx p) @ map Stored ws\<rparr>\<rparr>)"
proof -
  let ?q = "p\<lparr>log := l, ctx := (ctx p)\<lparr>out := out (ctx p) @ map Stored ws\<rparr>\<rparr>"
  have v: "rvoted (rrun c ?q s) a t x = rvoted (rrun c p s) a t x" for a t x
    using w by (auto simp: rvoted_run)
  have el: "elected M (rrun c ?q s) a t = elected M (rrun c p s) a t" for a t
    by (simp add: elected_def v)
  have "node_ok M (rrun c ?q s) c ?q"
    using K_facts(3) [OF K] l unfolding node_ok_def v el by (simp add: rmember_ok_def beats_def)
  moreover have "length (log p) < 2 ^ 64"
    using K_node(3) [OF K] by (simp add: slice_ok_def)
  moreover have "storedL (map Stored ws :: (raft_msg, raft_note, raft_reply, raft_write) effect list) = ws"
    by (induction ws) simp_all
  ultimately show ?thesis
    using w by (intro K_step [OF K, of _ "map Stored ws"]) (auto simp: rpersisted_def)
qed

lemma K_appendConflictFree:
  assumes K: "K M c s p" and "pi \<le> lastIndex (log p)" "slice_ok es"
    and "slice_ok (log (appendConflictFree pi es p))"
  shows "K M c s (appendConflictFree pi es p)"
proof -
  obtain ws where e: "appendConflictFree pi es p =
      p\<lparr>log := take (unat pi) (log p) @ mergeSuffix (drop (unat pi) (log p)) es,
        ctx := (ctx p)\<lparr>out := out (ctx p) @ map Stored ws\<rparr>\<rparr>"
    and w: "ws = [] \<and> take (unat pi) (log p) @ mergeSuffix (drop (unat pi) (log p)) es = log p \<or>
      (\<exists>i sfx. ws = [SaveEntries i sfx] \<and> 1 \<le> i \<and>
        take (unat pi) (log p) @ mergeSuffix (drop (unat pi) (log p)) es = spliceAt i sfx (log p))"
    using appendConflictFree_merge [OF assms(2) K_node(3) [OF K] assms(3)] by blast
  show ?thesis
    unfolding e by (rule K_log [OF K _ w]) (use assms(4) e in simp)
qed

lemma storedL_published [simp]: "storedL (map Published ns) = []"
  by (induction ns) simp_all

lemma applied_note_ok: "n \<in> set (appliedNotes l a b) \<Longrightarrow> note_ok M S n"
  by (auto simp: appliedNotes_def)

lemma K_applyCommitted:
  assumes K: "K M c s p" and "applyCommitted p = Done q"
    and "commitIndex p \<le> lastApplied p \<or> unat (commitIndex p) \<le> length (log p)"
  shows "K M c s q" "log q = log p" "role q = role p" "currentTerm q = currentTerm p"
proof -
  have "length (log p) < 2 ^ 64" using K_node(3) [OF K] by (simp add: slice_ok_def)
  then have q: "q = p\<lparr>lastApplied := max (lastApplied p) (commitIndex p),
      ctx := (ctx p)\<lparr>out := out (ctx p) @ map Published
        (appliedNotes (log p) (unat (lastApplied p)) (unat (commitIndex p)))\<rparr>\<rparr>"
    using applyCommitted_Done [OF assms(3)] assms(2) by simp
  show "log q = log p" "role q = role p" "currentTerm q = currentTerm p" by (simp_all add: q)
  show "K M c s q"
    unfolding q using K_node(1,2) [OF K]
    by (intro K_quiet [OF K, of _ "map Published
        (appliedNotes (log p) (unat (lastApplied p)) (unat (commitIndex p)))"])
      (auto simp: rpersisted_def rmember_ok_def beats_def intro: applied_note_ok)
qed

lemma K_maybeAdvanceCommit:
  assumes K: "K M c s p" and d: "maybeAdvanceCommit p = Done q"
  shows "K M c s q" "log q = log p" "role q = role p" "currentTerm q = currentTerm p"
proof -
  let ?n = "advanceCommitIndex (commitIndex p) (currentTerm p) (log p)
    (lastIndex (log p) # map (mget (matchIndex p)) (peers p)) (length (peers p) + 1)"
  have len: "length (log p) < 2 ^ 64" using K_node(3) [OF K] by (simp add: slice_ok_def)
  have "?n = commitIndex p \<or> ?n \<le> lastIndex (log p)"
    using commitLoop_bounds unfolding advanceCommitIndex_def by blast
  then have n: "unat ?n \<le> length (log p)" if "?n > commitIndex p"
    using len that by (auto simp: word_le_nat_alt unat_lastIndex)
  have a: "K M c s r \<and> log r = log p \<and> role r = role p \<and> currentTerm r = currentTerm p"
    if "applyCommitted (p\<lparr>commitIndex := ?n\<rparr>) = Done r" "?n > commitIndex p" for r
    using K_applyCommitted [OF K_volatile(2) [OF K] that(1)] n [OF that(2)] by simp
  have "K M c s q \<and> log q = log p \<and> role q = role p \<and> currentTerm q = currentTerm p"
  proof (cases "?n > commitIndex p")
    case True
    then show ?thesis using a [OF _ True, of q] d unfolding maybeAdvanceCommit_def Let_def by simp
  next
    case False
    then show ?thesis using d K unfolding maybeAdvanceCommit_def Let_def by simp
  qed
  then show "K M c s q" "log q = log p" "role q = role p" "currentTerm q = currentTerm p"
    by simp_all
qed

lemma K_heardLeader:
  assumes K: "K M c s p" and t: "\<not> t < currentTerm p" and f: "f \<noteq> c" "elected M (rrun c p s) f t"
  shows "K M c s (heardLeader t f p)"
proof -
  let ?p = "if t > currentTerm p then stepDown t p else p"
  have K1: "K M c s ?p" using K K_stepDown by simp
  have ct: "currentTerm ?p = t" using t by auto
  have "rvoted (rrun c ?p s) a u x = rvoted (rrun c p s) a u x" for a u x
    by (auto simp: rvoted_run)
  then have el: "elected M (rrun c ?p s) f t" using f(2) by (simp add: elected_def)
  have nl: "role ?p \<noteq> Leader"
    using K_node(6) [OF K1] K_facts(5) [OF K1 _ el, of c] f(1) unfolding ct by blast
  let ?q = "?p\<lparr>role := Follower\<rparr>"
  have K2: "K M c s ?q"
    using K_node(1,2) [OF K1] nl
    by (intro K_same [OF K1, of _ "[]"])
      (auto simp: rpersisted_def rmember_ok_def beats_def simp del: stepDown_simps)
  have "rvoted (rrun c ?q s) a u x = rvoted (rrun c ?p s) a u x" for a u x
    by (auto simp: rvoted_run)
  then have "elected M (rrun c ?q s) f (currentTerm ?q)"
    using el ct by (simp add: elected_def)
  with K2 show ?thesis
    unfolding heardLeader_def by (intro K_reset K_setLeader)
qed

lemma K_onAppendEntries:
  assumes K: "K M c s p" and f: "f \<noteq> c" "elected M (rrun c p s) f t" and es: "slice_ok es"
    and d: "onAppendEntries t pi pt lc es f p = Done q" "slice_ok (log q)"
  shows "K M c s q"
proof (cases "t < currentTerm p")
  case True
  then have "q = raft_send (AppendEntriesReply (currentTerm p) 0 False) f p"
    using d(1) by (simp add: onAppendEntries_heardLeader)
  then show ?thesis using K K_facts(1) [OF K] f(1) by (auto intro!: K_send)
next
  case False
  let ?p = "heardLeader t f p" and ?mi = "pi + word_of_nat (length es)"
  let ?a = "appendConflictFree pi es ?p"
  have K1: "K M c s ?p" using K False f by (rule K_heardLeader)
  have K2: "K M c s (raft_send (AppendEntriesReply x y z) f r)" if "K M c s r" for x y z r
    using that K_facts(1) [OF K] f(1) by (auto intro!: K_send)
  show ?thesis
  proof (cases "pi > lastIndex (log ?p) \<or> termAt (log ?p) pi \<noteq> pt")
    case True
    then have "q = raft_send (AppendEntriesReply (currentTerm ?p) 0 False) f ?p"
      using d(1) False by (simp add: onAppendEntries_heardLeader Let_def)
    then show ?thesis using K1 K2 by simp
  next
    case ok: False
    then have pi: "pi \<le> lastIndex (log ?p)" by (simp add: not_less)
    note b = appendConflictFree_bounds [OF pi K_node(3) [OF K1] es]
    let ?x = "if lc > commitIndex ?a then applyCommitted (?a\<lparr>commitIndex := min lc ?mi\<rparr>) else Done ?a"
    have le: "unat (min lc ?mi) \<le> length (log ?a)"
      using b(1,2) by (auto simp: min_def word_le_nat_alt)
    note ac = applyCommitted_Done [of "?a\<lparr>commitIndex := min lc ?mi\<rparr>"]
    obtain y where y: "?x = Done y" "log y = log ?a"
      using ac le b(3) by (cases "lc > commitIndex ?a") simp_all
    have "onAppendEntries t pi pt lc es f p =
        bindO ?x (\<lambda>p. Done (raft_send (AppendEntriesReply (currentTerm p) ?mi True) f p))"
      using False ok unfolding onAppendEntries_heardLeader Let_def by (simp only: if_False)
    then have q: "q = raft_send (AppendEntriesReply (currentTerm y) ?mi True) f y"
      using d(1) y(1) by simp
    then have "slice_ok (log ?a)" using d(2) y(2) by (simp add: raft_send_def)
    then have K3: "K M c s ?a" by (rule K_appendConflictFree [OF K1 pi es])
    have "K M c s y"
      using K3 K_applyCommitted(1) [OF K_volatile(2) [OF K3], of _ y] le y(1)
      by (cases "lc > commitIndex ?a") simp_all
    then show ?thesis using K2 q by simp
  qed
qed

lemma K_onAppendEntriesReply:
  assumes K: "K M c s p" and f: "f \<noteq> c" and d: "onAppendEntriesReply t mi ok f p = Done q"
  shows "K M c s q"
proof -
  note v = K_volatile [OF K]
  have "K M c s r" if "maybeAdvanceCommit (p\<lparr>matchIndex := a, nextIndex := b\<rparr>) = Done r" for a b r
    using K_maybeAdvanceCommit(1) [OF K_volatile(3) [OF v(4)] that] .
  moreover have "K M c s (sendAppendEntries f (p\<lparr>nextIndex := b\<rparr>))" "K M c s (sendAppendEntries f p)"
    if "role p = Leader" for b
    using K_sendAppendEntries [OF v(3)] K_sendAppendEntries [OF K] that f by simp_all
  ultimately show ?thesis
    using d K K_stepDown [OF K]
    by (auto simp: onAppendEntriesReply_def Let_def split: if_splits)
qed

subsection \<open>Every event keeps the invariant\<close>

lemma K_deliver:
  assumes K: "K M c s p" and m: "(f, c, m) \<in> net s"
    and l: "slice_ok (log (final (raft_handle m f p)))"
  shows "K M c s (final (raft_handle m f p))"
proof -
  have ok: "msg_ok M (rrun c p s) f c m" using K_facts(4) [OF K m] .
  show ?thesis
  proof (cases m)
    case (RequestVote t li lt)
    then show ?thesis using K ok by (auto intro: K_onRequestVote)
  next
    case (RequestVoteReply t g)
    then show ?thesis using K ok by (auto intro: K_onRequestVoteReply)
  next
    case (AppendEntries t pi pt lc es)
    then have o: "f \<noteq> c" "elected M (rrun c p s) f t" "slice_ok es" using ok by auto
    obtain q where "onAppendEntries t pi pt lc es f p = Done q"
      using onAppendEntries_Done [OF K_node(3) [OF K] o(3)] by blast
    then show ?thesis using K_onAppendEntries [OF K o] l AppendEntries by simp
  next
    case (AppendEntriesReply t mi g)
    then have "f \<noteq> c" using ok by simp
    moreover obtain q where "onAppendEntriesReply t mi g f p = Done q"
      using raft_handle_Done [OF K_node(3) [OF K], of m f] AppendEntriesReply
      by (auto simp: slice_ok_def)
    ultimately show ?thesis using K_onAppendEntriesReply [OF K] AppendEntriesReply by simp
  qed
qed

lemma K_proposed:
  fixes p :: raft and cmd :: bytes
  assumes K: "K M c s p" and "role p = Leader" and len: "length (log p) + 1 < 2 ^ 63"
  defines "e \<equiv> LogEntry (currentTerm p) cmd"
  shows "K M c s (raft_store (SaveEntries (lastIndex (log p @ [e])) [e]) (p\<lparr>log := log p @ [e]\<rparr>))"
proof -
  let ?i = "lastIndex (log p @ [e])"
  have u: "unat ?i = length (log p) + 1" using len by (subst unat_lastIndex) simp_all
  then have "?i \<noteq> 0" by auto
  then have "unat (?i - 1) = length (log p)" "1 \<le> ?i"
    using u by (simp_all add: unat_minus_one word_le_nat_alt)
  then have "K M c s (p\<lparr>log := log p @ [e],
      ctx := (ctx p)\<lparr>out := out (ctx p) @ map Stored [SaveEntries ?i [e]]\<rparr>\<rparr>)"
    using len by (intro K_log [OF K]) (auto simp: spliceAt_def slice_ok_def)
  then show ?thesis by (simp add: raft_store_def emit_def)
qed

lemma K_propose:
  assumes K: "K M c s p" and len: "length (log p) + 1 < 2 ^ 63"
  shows "K M c s (final (raft_handlePropose cmd p))"
proof (cases "role p = Leader")
  case False
  then show ?thesis using K by (simp add: raft_handlePropose_def K_answer)
next
  case True
  let ?e = "LogEntry (currentTerm p) cmd"
  let ?i = "lastIndex (log p @ [?e])"
  note K1 = K_proposed [OF K True len, of cmd]
  obtain q where q: "maybeAdvanceCommit (raft_store (SaveEntries ?i [?e]) (p\<lparr>log := log p @ [?e]\<rparr>)) = Done q"
    using maybeAdvanceCommit_Done K_node(3) [OF K1] by blast
  have "K M c s (broadcastAppendEntries (raft_answer (RaftProposeReply ?i (currentTerm q)) q))"
    using K_maybeAdvanceCommit [OF K1 q] True
    by (intro K_broadcast K_answer) (simp_all add: raft_answer_def raft_store_def)
  then show ?thesis
    using True q by (simp add: raft_handlePropose_def logAppend_def Let_def)
qed

lemma raft_ensureConnections_eq:
  "raft_ensureConnections p = p\<lparr>ctx := (ctx p)\<lparr>out := out (ctx p) @
     map Connects (filter (\<lambda>h. h \<notin> sessions p) (peers p))\<rparr>\<rparr>"
proof -
  have "fold (\<lambda>peer p. if peer \<notin> sessions p then raft_connect peer p else p) hs p =
      p\<lparr>ctx := (ctx p)\<lparr>out := out (ctx p) @ map Connects (filter (\<lambda>h. h \<notin> sessions p) hs)\<rparr>\<rparr>" for hs
    by (induction hs arbitrary: p) (simp_all add: raft_connect_def emit_def)
  then show ?thesis by (simp add: raft_ensureConnections_def)
qed

lemma storedL_connects [simp]: "storedL (map Connects hs) = []"
  by (induction hs) simp_all

lemma K_ensureConnections:
  assumes K: "K M c s p"
  shows "K M c s (raft_ensureConnections p)"
  unfolding raft_ensureConnections_eq using K_node(1,2) [OF K]
  by (intro K_quiet [OF K _ storedL_connects])
    (auto simp: rpersisted_def rmember_ok_def beats_def)

lemma K_timer:
  assumes K: "K M c s p" and t: "t \<in> set (pending (ctx p))" "currentTerm p \<noteq> - 1"
  shows "K M c s (raft_callback (tfn t) (p\<lparr>ctx := fire t (ctx p)\<rparr>))"
proof -
  let ?p = "p\<lparr>ctx := fire t (ctx p)\<rparr>"
  have K1: "K M c s ?p"
    using K_node(1,2) [OF K]
    by (intro K_quiet [OF K, of _ "[]"])
      (auto simp: fire_def rpersisted_def rmember_ok_def beats_def)
  show ?thesis
  proof (cases "tfn t")
    case OnElectionTimeout
    then show ?thesis
      using K1 K_startElection [OF K1] t(2) by (simp add: onElectionTimeout_def)
  next
    case BroadcastAppendEntries
    then have "role ?p = Leader" using K_node(2) [OF K] t(1) by (auto simp: beats_def)
    then show ?thesis using K_broadcast [OF K1] BroadcastAppendEntries by simp
  next
    case RaftEnsureConnections
    then show ?thesis using K_ensureConnections [OF K1] by simp
  qed
qed

lemma rPeers_fillDefaults [simp]: "rPeers (raft_fillDefaults c) = rPeers c"
  by (simp add: raft_fillDefaults_def Let_def)

lemma rmember_ok_New:
  assumes "raft_group M conf" "h \<in> M"
  shows "rmember_ok M h (raft_New h (conf h) ce)"
proof -
  let ?ps = "sort (filter (\<lambda>p. p \<noteq> h) (rPeers (conf h)))"
  have d: "distinct ?ps" "set ?ps = M - {h}" and fin: "finite M"
    using assms by (auto simp: raft_group_def)
  have "card (M - {h}) = length ?ps"
    using d distinct_card by metis
  then have "length ?ps + 1 = card M"
    using assms(2) fin by (metis Suc_eq_plus1 card_Suc_Diff1)
  then show ?thesis
    using d(2) by (simp add: rmember_ok_def raft_New_def Let_def)
qed

text \<open>A server that starts is a follower with the loaded state, two timers and its dials.\<close>

lemma Init_facts:
  defines "n h k ce \<equiv> raft_New h k ce"
  shows "rpersisted (raft_Init pcg st (n h k ce)) = st" "role (raft_Init pcg st (n h k ce)) = Follower"
    "rmember_ok M c (raft_Init pcg st (n h k ce)) = rmember_ok M c (n h k ce)"
    "out (ctx (raft_Init pcg st (n h k ce))) = map Connects (peers (n h k ce))"
    "beats (raft_Init pcg st (n h k ce))"
proof -
  let ?c = "snd (every (rReconnectInterval (cfg (n h k ce))) RaftEnsureConnections
    ((ctx (n h k ce))\<lparr>out := map Connects (peers (n h k ce))\<rparr>))"
  have e: "raft_Init pcg st (n h k ce) = resetElectionTimer ((n h k ce)\<lparr>
      rng := pcg (fst (seedFromHost h)) (snd (seedFromHost h)), currentTerm := CurrentTerm st, votedFor := VotedFor st, hasVoted := HasVoted st, log := Log st,
      ctx := ?c\<rparr>)"
    by (simp add: raft_Init_def n_def raft_New_def raft_ensureConnections_eq every_def newCtx_def
        newRaftLog_def Let_def split_beta)
  show "rpersisted (raft_Init pcg st (n h k ce)) = st" "role (raft_Init pcg st (n h k ce)) = Follower"
    "rmember_ok M c (raft_Init pcg st (n h k ce)) = rmember_ok M c (n h k ce)"
    "out (ctx (raft_Init pcg st (n h k ce))) = map Connects (peers (n h k ce))"
    unfolding e by (simp_all add: rpersisted_def rmember_ok_def every_def n_def raft_New_def Let_def)
  show "beats (raft_Init pcg st (n h k ce))"
    unfolding e by (rule beats_reset)
      (simp add: beats_def every_def n_def raft_New_def newCtx_def Let_def)
qed

lemma K_restart:
  assumes K: "K M c s p" and o: "out (ctx p) = []" and grp: "raft_group M conf"
    and st: "st = rpersisted p"
  shows "K M c s (raft_Init pcg st (raft_New c (conf c) ce))"
proof -
  let ?es = "map Connects (peers (raft_New c (conf c) ce))"
  show ?thesis
    using rmember_ok_New [OF grp K_facts(1) [OF K], of ce]
    by (intro K_same [OF K, of _ ?es]) (auto simp: Init_facts o st)
qed

lemma rclear_idle: "out (ctx p) = [] \<Longrightarrow> rclear p = p"
  by (cases p; cases "ctx p") (simp add: rclear_def)

lemma rrun_idle: "out (ctx (nodes s h)) = [] \<Longrightarrow> rrun h (nodes s h) s = s"
  by (cases s) (simp add: rrun_def absorb_def rclear_idle sent_def published_def)

lemma K_idle: "rinv M s \<Longrightarrow> h \<in> M \<Longrightarrow> out (ctx (nodes s h)) = [] \<Longrightarrow> K M h s (nodes s h)"
  by (simp add: K_def rrun_idle)

lemma K_inv: "K M h s p \<Longrightarrow> rinv M (rrun h p s)"
  by (simp add: K_def)

lemma rinv_start:
  assumes "raft_group M conf"
  shows "rinv M (raft_start pcg ce conf)"
proof -
  let ?s = "raft_start pcg ce conf"
  have v: "\<not> rvoted ?s a t x" for a t x by (simp add: rvoted_def raft_start_def)
  let ?i = "\<lambda>h. raft_Init pcg (raft_Load raft_NewMemoryStorage) (raft_New h (conf h) ce)"
  have p: "rpersisted (?i h) = raft_Load raft_NewMemoryStorage" for h by (rule Init_facts)
  then have "log (?i h) = []" for h
    by (simp add: rpersisted_def raft_NewMemoryStorage_def)
  then have "node_ok M ?s h (?i h)" if "h \<in> M" for h
    using rmember_ok_New [OF assms that, of ce]
    by (simp add: node_ok_def v Init_facts slice_ok_def)
  then show ?thesis
    using assms p by (simp add: rinv_def raft_start_def raft_group_def)
qed

lemma raft_reach_inv:
  assumes "raft_reach M pcg ce conf s" and grp: "raft_group M conf"
  shows "rinv M s \<and> (\<forall>h. out (ctx (nodes s h)) = [])"
  using assms(1)
proof induction
  case start
  then show ?case
    using rinv_start [OF grp] by (simp add: raft_start_def rclear_def)
next
  case (deliver s h f m)
  then show ?case
    by (auto simp: rclear_def intro!: K_inv K_deliver K_idle)
next
  case (propose s h cmd)
  then show ?case
    by (auto simp: rclear_def intro!: K_inv K_propose K_idle)
next
  case (timer s h t)
  then show ?case
    by (auto simp: rclear_def intro!: K_inv K_timer K_idle)
next
  case (debug s h)
  then show ?case
    by (auto simp: rclear_def raft_handleDebugState_def intro!: K_inv K_answer K_idle)
next
  case (connected s h f)
  then show ?case
    by (auto simp: rclear_def raft_OnSessionConnected_def intro!: K_inv K_volatile K_idle)
next
  case (disconnected s h f)
  then show ?case
    by (auto simp: rclear_def raft_OnSessionDisconnected_def intro!: K_inv K_volatile K_idle)
next
  case (givenUp s h f)
  then show ?case
    by (auto simp: rclear_def raft_OnSessionGivenUp_def intro!: K_inv K_volatile K_idle)
next
  case (restart s h)
  have "raft_Load (disk s h) = rpersisted (nodes s h)"
    using restart unfolding rinv_def by blast
  with restart show ?case
    by (auto simp: rclear_def intro!: K_inv K_restart [OF K_idle _ grp] simp del: raft_Load_simps)
qed

end
