(* ===== verification/Raft_Spec.thy ===== *)
theory Raft_Spec
  imports Raft_Rules "HOL-Library.Sublist"
begin

text \<open>
  The abstract specification of replication: members with a term and a log, the claims of the
  candidates, the ballots cast for them, and for each term its winner, the log the winner started
  from and the log of the term, which only grows.  A step raises a term, stands for election,
  votes, wins, appends to the log of a term, or adopts a prefix of it.  In every reachable state
  what a majority has adopted of a term, up to an entry of that term, is a prefix of the log of
  every later winner.  The cluster of \<open>Raft_Cluster\<close> refines this machine.
\<close>

subsection \<open>The machine\<close>

record raft_spec =
  trm :: "Host \<Rightarrow> uint64"
  slog :: "Host \<Rightarrow> raftLog"
  claim :: "Host \<Rightarrow> uint64 \<Rightarrow> (uint64 \<times> uint64) option"
  ballots :: "(Host \<times> uint64 \<times> Host \<times> raftLog) set"
  winner :: "uint64 \<Rightarrow> Host option"
  base :: "uint64 \<Rightarrow> raftLog"
  glog :: "uint64 \<Rightarrow> raftLog"
  acked :: "(Host \<times> uint64 \<times> nat) set"

definition sinit :: raft_spec where
  "sinit = \<lparr>trm = (\<lambda>_. 0), slog = (\<lambda>_. []), claim = (\<lambda>_ _. None), ballots = {},
     winner = (\<lambda>_. None), base = (\<lambda>_. []), glog = (\<lambda>_. []), acked = {}\<rparr>"

definition lastOf :: "raftLog \<Rightarrow> uint64 \<times> uint64" where
  "lastOf l = (lastTerm l, lastIndex l)"

definition upToDate :: "uint64 \<times> uint64 \<Rightarrow> raftLog \<Rightarrow> bool" where
  "upToDate c l \<longleftrightarrow> logIsUpToDate (fst c) (snd c) (lastTerm l) (lastIndex l)"

definition adopt :: "raftLog \<Rightarrow> raftLog \<Rightarrow> raftLog" where
  "adopt l own = (if prefix l own then own else l)"

definition acks :: "Host \<Rightarrow> uint64 \<Rightarrow> nat \<Rightarrow> (Host \<times> uint64 \<times> nat) set" where
  "acks q t n = {(q, t, k) | k. k \<le> n}"

inductive sstep :: "Host set \<Rightarrow> Host \<Rightarrow> raft_spec \<Rightarrow> raft_spec \<Rightarrow> bool" for M q where
  raise_term: "trm g q < t \<Longrightarrow> sstep M q g (g\<lparr>trm := (trm g)(q := t)\<rparr>)"
| stand: "trm g q < t \<Longrightarrow> sstep M q g (g\<lparr>trm := (trm g)(q := t),
     claim := (claim g)(q := (claim g q)(t := Some (lastOf (slog g q))))\<rparr>)"
| ballot: "claim g c (trm g q) = Some x \<Longrightarrow> upToDate x (slog g q) \<Longrightarrow> winner g (trm g q) = None \<Longrightarrow>
     sstep M q g (g\<lparr>ballots := insert (q, trm g q, c, slog g q) (ballots g)\<rparr>)"
| win: "winner g (trm g q) = None \<Longrightarrow> claim g q (trm g q) = Some (lastOf (slog g q)) \<Longrightarrow>
     majority M Q \<Longrightarrow> (\<And>v. v \<in> Q \<Longrightarrow> \<exists>l. (v, trm g q, q, l) \<in> ballots g) \<Longrightarrow>
     sstep M q g (g\<lparr>winner := (winner g)(trm g q := Some q), base := (base g)(trm g q := slog g q),
       glog := (glog g)(trm g q := slog g q),
       acked := acked g \<union> acks q (trm g q) (length (slog g q))\<rparr>)"
| extend: "winner g (trm g q) = Some q \<Longrightarrow> slog g q = glog g (trm g q) \<Longrightarrow> Term e = trm g q \<Longrightarrow>
     slice_ok (slog g q @ [e]) \<Longrightarrow>
     sstep M q g (g\<lparr>slog := (slog g)(q := slog g q @ [e]),
       glog := (glog g)(trm g q := slog g q @ [e]),
       acked := acked g \<union> acks q (trm g q) (length (slog g q @ [e]))\<rparr>)"
| accept: "winner g (trm g q) \<noteq> None \<Longrightarrow> k \<le> length (glog g (trm g q)) \<Longrightarrow>
     sstep M q g (g\<lparr>slog := (slog g)(q := adopt (take k (glog g (trm g q))) (slog g q)),
       acked := acked g \<union> acks q (trm g q) k\<rparr>)"

inductive sreach :: "Host set \<Rightarrow> raft_spec \<Rightarrow> bool" for M where
  sreach_init: "sreach M sinit"
| sreach_step: "sreach M g \<Longrightarrow> sstep M q g h \<Longrightarrow> sreach M h"

text \<open>
  \<open>decided\<close>: a majority has adopted the first \<open>n\<close> entries of term \<open>t\<close>, the last of which is the
  term's own.  \<open>settled\<close>: a log that was decided up to its end by term \<open>T\<close>.
\<close>

definition decided :: "Host set \<Rightarrow> raft_spec \<Rightarrow> uint64 \<Rightarrow> nat \<Rightarrow> bool" where
  "decided M g t n \<longleftrightarrow> 0 < n \<and> n \<le> length (glog g t) \<and> Term (glog g t ! (n - 1)) = t \<and>
     (\<exists>Q. majority M Q \<and> (\<forall>q \<in> Q. (q, t, n) \<in> acked g))"

definition settled :: "Host set \<Rightarrow> raft_spec \<Rightarrow> uint64 \<Rightarrow> raftLog \<Rightarrow> bool" where
  "settled M g T l \<longleftrightarrow> l = [] \<or> (\<exists>t n. t \<le> T \<and> decided M g t n \<and> prefix l (take n (glog g t)))"

subsection \<open>Logs of a history\<close>

text \<open>
  A log belongs to the history when each of its prefixes is the prefix of the log of the term in
  which its last entry was made.
\<close>

definition historic :: "raft_spec \<Rightarrow> raftLog \<Rightarrow> bool" where
  "historic g l \<longleftrightarrow> (\<forall>k < length l. winner g (Term (l ! k)) \<noteq> None \<and>
     k < length (glog g (Term (l ! k))) \<and> take (Suc k) l = take (Suc k) (glog g (Term (l ! k))))"

lemma historicD:
  "historic g l \<Longrightarrow> k < length l \<Longrightarrow> winner g (Term (l ! k)) \<noteq> None \<and>
     k < length (glog g (Term (l ! k))) \<and> take (Suc k) l = take (Suc k) (glog g (Term (l ! k)))"
  by (simp add: historic_def)

lemma historic_Nil [simp]: "historic g []"
  by (simp add: historic_def)

lemma historic_take: "historic g l \<Longrightarrow> historic g (take n l)"
  by (auto simp: historic_def min_def)

lemma historic_prefix: "historic g l \<Longrightarrow> prefix k l \<Longrightarrow> historic g k"
  using historic_take [of g l "length k"] by (auto simp: prefix_def)

text \<open>Log matching: logs that agree in the term of an entry agree up to it.\<close>

lemma historic_match:
  assumes "historic g l" "historic g m" "k < length l" "k < length m" "Term (l ! k) = Term (m ! k)"
  shows "take (Suc k) l = take (Suc k) m"
  using historicD [OF assms(1,3)] historicD [OF assms(2,4)] assms(5) by simp

lemma historic_adopt: "historic g l \<Longrightarrow> historic g own \<Longrightarrow> historic g (adopt l own)"
  by (simp add: adopt_def)

text \<open>The splice of a follower, on logs that match, is the adoption of the leader's prefix.\<close>

lemma mergeSuffix_adopt:
  "(\<And>i. i < length xs \<Longrightarrow> i < length ys \<Longrightarrow> Term (xs ! i) = Term (ys ! i) \<Longrightarrow>
      take (Suc i) xs = take (Suc i) ys) \<Longrightarrow> mergeSuffix xs ys = adopt ys xs"
proof (induction xs ys rule: mergeSuffix.induct)
  case (3 x xs e es)
  show ?case
  proof (cases "Term x = Term e")
    case True
    then have "x = e" using "3.prems" [of 0] by simp
    moreover have "take (Suc i) xs = take (Suc i) es"
      if "i < length xs" "i < length es" "Term (xs ! i) = Term (es ! i)" for i
      using "3.prems" [of "Suc i"] that by simp
    ultimately show ?thesis using "3.IH" [OF True] True by (simp add: adopt_def)
  qed (auto simp: adopt_def)
qed (simp_all add: adopt_def)

lemma splice_adopt:
  assumes h: "historic g l" "historic g own" and n: "n \<le> length own" "n \<le> length l"
    and at: "n = 0 \<or> Term (own ! (n - 1)) = Term (l ! (n - 1))"
  shows "take n own @ mergeSuffix (drop n own) (drop n l) = adopt l own"
proof -
  have eq: "take n own = take n l"
  proof (cases "n = 0")
    case False
    then have "Suc (n - 1) = n" "n - 1 < length own" "n - 1 < length l" using n by auto
    then show ?thesis using historic_match [OF h(2,1), of "n - 1"] at False by simp
  qed simp
  have "take (Suc i) (drop n own) = take (Suc i) (drop n l)"
    if "i < length (drop n own)" "i < length (drop n l)" "Term (drop n own ! i) = Term (drop n l ! i)"
    for i
  proof -
    have "take (Suc (n + i)) own = take (Suc (n + i)) l"
      using that n by (intro historic_match [OF h(2,1)]) auto
    then have "drop n (take (Suc (n + i)) own) = drop n (take (Suc (n + i)) l)" by simp
    then show ?thesis using n by (simp add: drop_take)
  qed
  then have m: "mergeSuffix (drop n own) (drop n l) = adopt (drop n l) (drop n own)"
    by (rule mergeSuffix_adopt)
  have "prefix l own \<longleftrightarrow> prefix (take n l @ drop n l) (take n l @ drop n own)"
    using eq by (metis append_take_drop_id)
  then have "prefix l own \<longleftrightarrow> prefix (drop n l) (drop n own)"
    by (simp only: same_prefix_prefix)
  then show ?thesis
    using m eq by (auto simp: adopt_def) (metis append_take_drop_id)
qed

subsection \<open>How a step changes the history\<close>

definition grows :: "Host \<Rightarrow> raft_spec \<Rightarrow> raft_spec \<Rightarrow> bool" where
  "grows q g h \<longleftrightarrow>
     (\<forall>a. a \<noteq> q \<longrightarrow> trm h a = trm g a \<and> slog h a = slog g a) \<and> trm g q \<le> trm h q \<and>
     (\<forall>t c. winner g t = Some c \<longrightarrow> winner h t = Some c \<and> base h t = base g t \<and>
        prefix (glog g t) (glog h t) \<and> (c \<noteq> q \<longrightarrow> glog h t = glog g t)) \<and>
     (\<forall>t c. winner h t = Some c \<longrightarrow> winner g t = Some c \<or> winner g t = None \<and> c = q) \<and>
     ballots g \<subseteq> ballots h \<and> acked g \<subseteq> acked h \<and>
     (\<forall>c t x. claim g c t = Some x \<longrightarrow> claim h c t = Some x)"

definition claim_inv :: "raft_spec \<Rightarrow> bool" where
  "claim_inv g \<longleftrightarrow> (\<forall>c t x. claim g c t = Some x \<longrightarrow> t \<noteq> 0 \<and> t \<le> trm g c)"

lemma sstep_grows: "sstep M q g h \<Longrightarrow> claim_inv g \<Longrightarrow> grows q g h"
  by (induction rule: sstep.induct) (fastforce simp: grows_def claim_inv_def)+

lemma sstep_claim: "sstep M q g h \<Longrightarrow> claim_inv g \<Longrightarrow> claim_inv h"
proof (induction rule: sstep.induct)
  case (raise_term g t)
  then show ?case by (force simp: claim_inv_def)
next
  case (stand g t)
  then have "t \<noteq> 0" by auto
  with stand show ?case by (force simp: claim_inv_def)
qed (simp_all add: claim_inv_def)

lemma grows_winner:
  "grows q g h \<Longrightarrow> winner g t \<noteq> None \<Longrightarrow>
     winner h t = winner g t \<and> base h t = base g t \<and> prefix (glog g t) (glog h t)"
  by (auto simp: grows_def)

lemma grows_take:
  "grows q g h \<Longrightarrow> winner g t \<noteq> None \<Longrightarrow> n \<le> length (glog g t) \<Longrightarrow>
     n \<le> length (glog h t) \<and> take n (glog h t) = take n (glog g t)"
  using grows_winner [of q g h t] by (auto simp: prefix_def)

lemma grows_other: "grows q g h \<Longrightarrow> a \<noteq> q \<Longrightarrow> trm h a = trm g a \<and> slog h a = slog g a"
  by (simp add: grows_def)

lemma grows_trm: "grows q g h \<Longrightarrow> trm g a \<le> trm h a"
  by (cases "a = q") (simp_all add: grows_def)

lemma grows_acked: "grows q g h \<Longrightarrow> acked g \<subseteq> acked h"
  by (simp add: grows_def)

lemma grows_historic:
  assumes "grows q g h" "historic g l"
  shows "historic h l"
  unfolding historic_def
proof (intro allI impI)
  fix k assume "k < length l"
  then show "winner h (Term (l ! k)) \<noteq> None \<and> k < length (glog h (Term (l ! k))) \<and>
      take (Suc k) l = take (Suc k) (glog h (Term (l ! k)))"
    using historicD [OF assms(2)] grows_winner [OF assms(1)] grows_take [OF assms(1), of _ "Suc k"]
    by (auto simp: Suc_le_eq)
qed

subsection \<open>The invariants\<close>

text \<open>
  \<open>keeps g S t l v\<close>: the log \<open>v\<close> still has the prefix \<open>l\<close> of term \<open>t\<close>, unless a winner of a later
  term in \<open>S\<close> started without it.
\<close>

definition keeps :: "raft_spec \<Rightarrow> uint64 set \<Rightarrow> uint64 \<Rightarrow> raftLog \<Rightarrow> raftLog \<Rightarrow> bool" where
  "keeps g S t l v \<longleftrightarrow>
     prefix l v \<or> (\<exists>u \<in> S. t < u \<and> winner g u \<noteq> None \<and> \<not> prefix l (base g u))"

definition log_inv :: "raft_spec \<Rightarrow> bool" where
  "log_inv g \<longleftrightarrow> (\<forall>q. historic g (slog g q) \<and> slice_ok (slog g q) \<and>
     (\<forall>e \<in> set (slog g q). Term e \<le> trm g q))"

definition term_inv :: "raft_spec \<Rightarrow> bool" where
  "term_inv g \<longleftrightarrow> (\<forall>t. winner g t \<noteq> None \<longrightarrow> t \<noteq> 0 \<and> historic g (glog g t) \<and> slice_ok (glog g t) \<and>
     (\<exists>own. glog g t = base g t @ own \<and> (\<forall>e \<in> set own. Term e = t)) \<and>
     (\<forall>e \<in> set (base g t). Term e < t))"

definition ack_inv :: "raft_spec \<Rightarrow> bool" where
  "ack_inv g \<longleftrightarrow> (\<forall>q t n. (q, t, n) \<in> acked g \<longrightarrow>
     winner g t \<noteq> None \<and> t \<le> trm g q \<and> n \<le> length (glog g t) \<and>
     keeps g {..trm g q} t (take n (glog g t)) (slog g q) \<and> (\<forall>m \<le> n. (q, t, m) \<in> acked g))"

definition ballot_inv :: "raft_spec \<Rightarrow> bool" where
  "ballot_inv g \<longleftrightarrow> (\<forall>q T c v. (q, T, c, v) \<in> ballots g \<longrightarrow>
     T \<le> trm g q \<and> historic g v \<and> slice_ok v \<and>
     (\<exists>x. claim g c T = Some x \<and> upToDate x v) \<and>
     (\<forall>t n. (q, t, n) \<in> acked g \<and> t < T \<longrightarrow> keeps g {..<T} t (take n (glog g t)) v))"

definition win_inv :: "Host set \<Rightarrow> raft_spec \<Rightarrow> bool" where
  "win_inv M g \<longleftrightarrow> (\<forall>T c. winner g T = Some c \<longrightarrow>
     (\<exists>Q. majority M Q \<and> (\<forall>q \<in> Q. \<exists>v. (q, T, c, v) \<in> ballots g \<and> upToDate (lastOf (base g T)) v)))"

definition sinv :: "Host set \<Rightarrow> raft_spec \<Rightarrow> bool" where
  "sinv M g \<longleftrightarrow> claim_inv g \<and> log_inv g \<and> term_inv g \<and> ack_inv g \<and> ballot_inv g \<and> win_inv M g"

lemma keeps_grows:
  assumes "keeps g S t l v" "grows q g h" "S \<subseteq> S'"
  shows "keeps h S' t l v"
  using assms grows_winner [OF assms(2)] unfolding keeps_def by (metis subsetD)

lemma log_invD:
  "log_inv g \<Longrightarrow> historic g (slog g q)"
  "log_inv g \<Longrightarrow> slice_ok (slog g q)"
  "log_inv g \<Longrightarrow> e \<in> set (slog g q) \<Longrightarrow> Term e \<le> trm g q"
  by (auto simp: log_inv_def)

lemma term_inv_le:
  assumes "term_inv g" "winner g t \<noteq> None" "e \<in> set (glog g t)"
  shows "Term e \<le> t"
proof -
  obtain own where "glog g t = base g t @ own" "\<forall>e \<in> set own. Term e = t" "\<forall>e \<in> set (base g t). Term e < t"
    using assms unfolding term_inv_def by blast
  then show ?thesis using assms(3) by auto
qed

text \<open>What was made before a term is in the log of the term only if its winner started with it.\<close>

lemma prefix_base:
  assumes i: "term_inv g" and w: "winner g t \<noteq> None" "winner g u \<noteq> None" "t < u"
  shows "prefix (take n (glog g t)) (glog g u) \<longleftrightarrow> prefix (take n (glog g t)) (base g u)"
proof -
  obtain own where own: "glog g u = base g u @ own" "\<forall>e \<in> set own. Term e = u"
    using i w(2) unfolding term_inv_def by blast
  have "us = []" if us: "take n (glog g t) = base g u @ us" "prefix us own" for us
  proof (rule ccontr)
    assume "us \<noteq> []"
    then obtain e where e: "e \<in> set us" by (cases us) auto
    then have "e \<in> set (take n (glog g t))" using us(1) by simp
    then have "Term e \<le> t" using term_inv_le [OF i w(1)] by (blast dest: in_set_takeD)
    moreover have "Term e = u" using own(2) e us(2) by (auto simp: prefix_def)
    ultimately show False using w(3) by simp
  qed
  then show ?thesis
    unfolding own(1) prefix_append by fastforce
qed

lemma historic_snoc:
  assumes "historic g l" "winner g (Term e) \<noteq> None" "prefix (l @ [e]) (glog g (Term e))"
  shows "historic g (l @ [e])"
  unfolding historic_def
proof (intro allI impI)
  fix k assume "k < length (l @ [e])"
  moreover have "k = length l \<Longrightarrow> take (Suc k) (glog g (Term e)) = l @ [e] \<and> k < length (glog g (Term e))"
    using assms(3) by (auto simp: prefix_def)
  ultimately show "winner g (Term ((l @ [e]) ! k)) \<noteq> None \<and>
      k < length (glog g (Term ((l @ [e]) ! k))) \<and>
      take (Suc k) (l @ [e]) = take (Suc k) (glog g (Term ((l @ [e]) ! k)))"
    using historicD [OF assms(1), of k] assms(2) by (cases "k < length l") (simp_all add: nth_append)
qed

lemma log_inv_step:
  assumes s: "sstep M q g h" and i: "log_inv g" "term_inv g" "grows q g h"
  shows "log_inv h"
proof -
  have old: "historic h (slog g a)" for a using i(1) grows_historic [OF i(3)] by (simp add: log_inv_def)
  show ?thesis
    using s
  proof cases
    case (raise_term t)
    then show ?thesis using i(1) old by (fastforce simp: log_inv_def)
  next
    case (stand t)
    then show ?thesis using i(1) old by (fastforce simp: log_inv_def)
  next
    case (extend e)
    have "historic h (slog g q @ [e])"
    proof (rule historic_snoc [OF old])
      show "winner h (Term e) \<noteq> None" "prefix (slog g q @ [e]) (glog h (Term e))"
        using extend by simp_all
    qed
    moreover have "\<forall>x \<in> set (slog g q @ [e]). Term x \<le> trm g q"
      using extend(4) i(1) by (auto simp: log_inv_def)
    ultimately show ?thesis using i(1) old extend(1,5) by (simp add: log_inv_def)
  next
    case (accept k)
    let ?l = "take k (glog g (trm g q))"
    have t: "historic g (glog g (trm g q))" "slice_ok (glog g (trm g q))"
      using i(2) accept(2) unfolding term_inv_def by blast+
    have l: "historic h ?l"
      by (rule grows_historic [OF i(3) historic_take [OF t(1)]])
    moreover have "slice_ok ?l" using t(2) by (simp add: slice_ok_def)
    moreover have "\<forall>e \<in> set ?l. Term e \<le> trm g q"
      using term_inv_le [OF i(2) accept(2)] by (blast dest: in_set_takeD)
    ultimately
    have "historic h (adopt ?l (slog g q))" "slice_ok (adopt ?l (slog g q))"
      "\<forall>e \<in> set (adopt ?l (slog g q)). Term e \<le> trm g q"
      using old i(1) by (simp_all add: adopt_def log_inv_def)
    with accept show ?thesis using i(1) old by (simp add: log_inv_def)
  qed (use i(1) old in \<open>simp_all add: log_inv_def\<close>)
qed

lemma term_inv_step:
  assumes s: "sstep M q g h" and i: "term_inv g" "log_inv g" "claim_inv g" "grows q g h"
  shows "term_inv h"
proof -
  have old: "historic g l \<Longrightarrow> historic h l" for l by (rule grows_historic [OF i(4)])
  show ?thesis
    using s
  proof cases
    case (win Q)
    have "Term e < trm g q" if e: "e \<in> set (slog g q)" for e
    proof -
      obtain k where "k < length (slog g q)" "slog g q ! k = e"
        using e by (auto simp: in_set_conv_nth)
      then have "winner g (Term e) \<noteq> None"
        using historicD [OF log_invD(1) [OF i(2)]] by blast
      then have "Term e \<noteq> trm g q" using win(2) by auto
      then show ?thesis using log_invD(3) [OF i(2) e] by simp
    qed
    moreover have "trm g q \<noteq> 0" using i(3) win(3) unfolding claim_inv_def by blast
    ultimately show ?thesis
      using i(1) old log_invD(1,2) [OF i(2), of q] win(1) by (simp add: term_inv_def)
  next
    case (extend e)
    obtain own where own: "glog g (trm g q) = base g (trm g q) @ own" "\<forall>e \<in> set own. Term e = trm g q"
      using i(1) extend(2) unfolding term_inv_def by blast
    have "historic h (slog g q @ [e])"
    proof (rule historic_snoc [OF old])
      show "winner h (Term e) \<noteq> None" "prefix (slog g q @ [e]) (glog h (Term e))"
        using extend by simp_all
    qed (rule log_invD(1) [OF i(2)])
    moreover have "slog g q @ [e] = base g (trm g q) @ (own @ [e]) \<and> (\<forall>x \<in> set (own @ [e]). Term x = trm g q)"
      using own extend(3,4) by auto
    ultimately show ?thesis
      using i(1) old extend(1,5) by (auto simp: term_inv_def)
  qed (use i(1) old in \<open>auto simp: term_inv_def\<close>)
qed

lemma claim_grows: "grows q g h \<Longrightarrow> claim g c t = Some x \<Longrightarrow> claim h c t = Some x"
  unfolding grows_def by blast

lemma win_inv_step:
  assumes s: "sstep M q g h" and i: "win_inv M g" "ballot_inv g" "grows q g h"
  shows "win_inv M h"
proof -
  have "\<exists>Q. majority M Q \<and> (\<forall>a \<in> Q. \<exists>v. (a, T, c, v) \<in> ballots h \<and> upToDate (lastOf (base h T)) v)"
    if w: "winner h T = Some c" for T c
  proof (cases "winner g T")
    case None
    with s w show ?thesis
    proof cases
      case (win Q)
      then have T: "T = trm g q" "c = q" using None w by (auto split: if_splits)
      have "\<exists>v. (a, T, c, v) \<in> ballots h \<and> upToDate (lastOf (base h T)) v" if "a \<in> Q" for a
      proof -
        obtain v where v: "(a, T, c, v) \<in> ballots g" using win(5) \<open>a \<in> Q\<close> T by blast
        then obtain x where "claim g c T = Some x" "upToDate x v"
          using i(2) unfolding ballot_inv_def by blast
        then have "upToDate (lastOf (slog g q)) v" using win(3) T by simp
        then show ?thesis using v win(1) T by auto
      qed
      then show ?thesis using win(4) by blast
    qed simp_all
  next
    case (Some d)
    then have e: "d = c" "base h T = base g T" "ballots g \<subseteq> ballots h"
      using i(3) w by (auto simp: grows_def)
    with Some i(1) obtain Q where "majority M Q"
        "\<forall>a \<in> Q. \<exists>v. (a, T, c, v) \<in> ballots g \<and> upToDate (lastOf (base g T)) v"
      unfolding win_inv_def by blast
    then show ?thesis unfolding e(2) using e(3) by (meson subsetD)
  qed
  then show ?thesis by (simp add: win_inv_def)
qed

text \<open>A member acknowledges only in its own term, and only what its log then has.\<close>

lemma take_prefix_le: "m \<le> n \<Longrightarrow> prefix (take m l) (take n l)"
  by (metis min.absorb1 take_is_prefix take_take)

lemma prefix_adopt: "prefix l (adopt l own)"
  by (simp add: adopt_def)

lemma sstep_acked:
  assumes "sstep M q g h" "(a, t, n) \<in> acked h" "(a, t, n) \<notin> acked g"
  shows "a = q \<and> t = trm g q \<and> trm h q = trm g q \<and> winner h t \<noteq> None \<and> n \<le> length (glog h t) \<and>
    prefix (take n (glog h t)) (slog h q) \<and> (\<forall>m \<le> n. (q, t, m) \<in> acked h)"
  using assms
proof cases
  case (accept k)
  then have n: "a = q" "t = trm g q" "n \<le> k" using assms(2,3) by (auto simp: acks_def)
  have "prefix (take n (glog g t)) (take k (glog g t))" using n(3) by (rule take_prefix_le)
  then have "prefix (take n (glog g t)) (adopt (take k (glog g t)) (slog g q))"
    using prefix_adopt prefix_order.trans by blast
  with accept n show ?thesis by (auto simp: acks_def)
next
  case (extend e)
  have "prefix (take n (slog g q @ [e])) (slog g q @ [e])" by (rule take_is_prefix)
  with extend assms(2,3) show ?thesis by (auto simp: acks_def simp del: take_append prefix_snoc)
qed (auto simp: acks_def take_is_prefix)

text \<open>Adopting from the winner of a term keeps what was acknowledged, unless it started without.\<close>

lemma keeps_adopt:
  assumes i: "term_inv g" and w: "winner g t \<noteq> None" "winner g u \<noteq> None" "t \<le> u"
    and p: "prefix (take n (glog g t)) own"
  shows "keeps g {..u} t (take n (glog g t)) (adopt (take k (glog g u)) own)"
proof (cases "prefix (take n (glog g t)) (glog g u)")
  case True
  then have "prefix (take n (glog g t)) (take k (glog g u)) \<or>
      prefix (take k (glog g u)) (take n (glog g t))"
    using take_is_prefix prefix_same_cases by blast
  then show ?thesis
    using p prefix_order.trans unfolding keeps_def adopt_def by auto
next
  case False
  then have "t \<noteq> u" using take_is_prefix by metis
  then have "t < u" using w(3) by simp
  then have "\<not> prefix (take n (glog g t)) (base g u)" using prefix_base [OF i w(1,2)] False by simp
  with \<open>t < u\<close> w(2) show ?thesis unfolding keeps_def by blast
qed

lemma keeps_slog:
  assumes "sstep M q g h" "term_inv g" "winner g t \<noteq> None" "t \<le> trm g q"
    and p: "prefix (take n (glog g t)) (slog g q)"
  shows "keeps g {..trm g q} t (take n (glog g t)) (slog h q)"
  using assms(1)
proof cases
  case (accept k)
  with keeps_adopt [OF assms(2,3) _ assms(4) p] show ?thesis by simp
next
  case (extend e)
  have "prefix (take n (glog g t)) (slog g q @ [e])" using p by simp
  then show ?thesis using extend(1) by (simp add: keeps_def)
qed (use p in \<open>simp_all add: keeps_def\<close>)

lemma ack_inv_step:
  assumes s: "sstep M q g h" and i: "ack_inv g" "term_inv g" "grows q g h"
  shows "ack_inv h"
  unfolding ack_inv_def
proof (intro allI impI)
  fix a t n assume a: "(a, t, n) \<in> acked h"
  show "winner h t \<noteq> None \<and> t \<le> trm h a \<and> n \<le> length (glog h t) \<and>
     keeps h {..trm h a} t (take n (glog h t)) (slog h a) \<and> (\<forall>m \<le> n. (a, t, m) \<in> acked h)"
  proof (cases "(a, t, n) \<in> acked g")
    case False
    then show ?thesis using sstep_acked [OF s a] by (auto simp: keeps_def)
  next
    case True
    then have o: "winner g t \<noteq> None" "t \<le> trm g a" "n \<le> length (glog g t)"
        "keeps g {..trm g a} t (take n (glog g t)) (slog g a)" "\<forall>m \<le> n. (a, t, m) \<in> acked g"
      using i(1) unfolding ack_inv_def by blast+
    note m = grows_trm [OF i(3), of a] grows_acked [OF i(3)]
    have "keeps g {..trm g a} t (take n (glog g t)) (slog h a)"
    proof (cases "a = q")
      case True
      then show ?thesis
        using o(4) keeps_slog [OF s i(2) o(1)] o(2) by (auto simp: keeps_def)
    next
      case False
      then show ?thesis using grows_other [OF i(3)] o(4) by simp
    qed
    then have "keeps h {..trm h a} t (take n (glog g t)) (slog h a)"
      by (rule keeps_grows [OF _ i(3)]) (use m in auto)
    then show ?thesis
      using o m grows_winner [OF i(3) o(1)] grows_take [OF i(3) o(1,3)] by auto
  qed
qed

lemma ballot_inv_step:
  assumes s: "sstep M q g h"
    and i: "ballot_inv g" "ack_inv g" "log_inv g" "term_inv g" "claim_inv g" "grows q g h"
  shows "ballot_inv h"
  unfolding ballot_inv_def
proof (intro allI impI)
  fix a T c v assume b: "(a, T, c, v) \<in> ballots h"
  have "T \<le> trm g a \<and> historic g v \<and> slice_ok v \<and> (\<exists>x. claim g c T = Some x \<and> upToDate x v) \<and>
     (\<forall>t n. (a, t, n) \<in> acked g \<and> t < T \<longrightarrow> keeps g {..<T} t (take n (glog g t)) v)"
  proof (cases "(a, T, c, v) \<in> ballots g")
    case True
    then show ?thesis using i(1) unfolding ballot_inv_def by blast
  next
    case False
    with s b show ?thesis
    proof cases
      case (ballot d x)
      then have e: "a = q" "T = trm g q" "c = d" "v = slog g q" using b False by auto
      have "keeps g {..<T} t (take n (glog g t)) v" if "(a, t, n) \<in> acked g" for t n
        using i(2) that ballot(4) e unfolding ack_inv_def keeps_def
        by (metis atMost_iff lessThan_iff order_le_less)
      then show ?thesis using e ballot log_invD [OF i(3)] by auto
    qed simp_all
  qed
  then have o: "T \<le> trm g a" "historic g v" "slice_ok v" "\<exists>x. claim g c T = Some x \<and> upToDate x v"
     "\<And>t n. (a, t, n) \<in> acked g \<Longrightarrow> t < T \<Longrightarrow> keeps g {..<T} t (take n (glog g t)) v"
    by blast+
  note m = grows_trm [OF i(6), of a]
  have "keeps h {..<T} t (take n (glog h t)) v" if k: "(a, t, n) \<in> acked h" "t < T" for t n
  proof -
    have k': "(a, t, n) \<in> acked g" using sstep_acked [OF s k(1)] k(2) o(1) by force
    then have "winner g t \<noteq> None" "n \<le> length (glog g t)"
      using i(2) unfolding ack_inv_def by blast+
    then show ?thesis
      using keeps_grows [OF o(5) [OF k' k(2)] i(6) order_refl] grows_take [OF i(6)] by simp
  qed
  then show "T \<le> trm h a \<and> historic h v \<and> slice_ok v \<and> (\<exists>x. claim h c T = Some x \<and> upToDate x v) \<and>
     (\<forall>t n. (a, t, n) \<in> acked h \<and> t < T \<longrightarrow> keeps h {..<T} t (take n (glog h t)) v)"
    using order.trans [OF o(1) m] grows_historic [OF i(6) o(2)] o(3,4) claim_grows [OF i(6)]
    by blast
qed

lemma sinv_step:
  assumes "sstep M q g h" "sinv M g"
  shows "sinv M h"
proof -
  have i: "claim_inv g" "log_inv g" "term_inv g" "ack_inv g" "ballot_inv g" "win_inv M g"
    using assms(2) by (simp_all add: sinv_def)
  note s = assms(1) and gr = sstep_grows [OF assms(1) i(1)]
  show ?thesis
    unfolding sinv_def
    using sstep_claim [OF s i(1)] log_inv_step [OF s i(2,3) gr] term_inv_step [OF s i(3,2,1) gr]
      ack_inv_step [OF s i(4,3) gr] ballot_inv_step [OF s i(5,4,2,3,1) gr] win_inv_step [OF s i(6,5) gr]
    by blast
qed

lemma sreach_sinv: "sreach M g \<Longrightarrow> sinv M g"
proof (induction rule: sreach.induct)
  case sreach_init
  show ?case
    by (simp add: sinv_def sinit_def claim_inv_def log_inv_def term_inv_def ack_inv_def ballot_inv_def
        win_inv_def slice_ok_def)
next
  case (sreach_step g q h)
  then show ?case by (blast intro: sinv_step)
qed

lemma winner_trm:
  assumes "sinv M g" "winner g T = Some c"
  shows "T \<le> trm g c"
proof -
  obtain Q where Q: "majority M Q" "\<forall>q \<in> Q. \<exists>v. (q, T, c, v) \<in> ballots g"
    using assms unfolding sinv_def win_inv_def by meson
  then obtain q v where "(q, T, c, v) \<in> ballots g" using maj.quorum_nonempty by blast
  then obtain x where "claim g c T = Some x" using assms(1) unfolding sinv_def ballot_inv_def by blast
  then show ?thesis using assms(1) unfolding sinv_def claim_inv_def by blast
qed

subsection \<open>Leader completeness\<close>

lemma historic_last:
  assumes "historic g l" "l \<noteq> []"
  shows "winner g (lastTerm l) \<noteq> None \<and> l = take (length l) (glog g (lastTerm l))"
  using historicD [OF assms(1), of "length l - 1"] assms(2) by (simp add: lastTerm_def)

lemma lastTerm_in: "l \<noteq> [] \<Longrightarrow> \<exists>e \<in> set l. lastTerm l = Term e"
  by (auto simp: lastTerm_def)

lemma historic_le:
  assumes "term_inv g" "historic g l" "e \<in> set l"
  shows "Term e \<le> lastTerm l"
proof -
  have "l \<noteq> []" using assms(3) by auto
  then have l: "winner g (lastTerm l) \<noteq> None" "l = take (length l) (glog g (lastTerm l))"
    using historic_last [OF assms(2)] by blast+
  then have "e \<in> set (glog g (lastTerm l))" using assms(3) by (metis in_set_takeD)
  with l(1) show ?thesis by (rule term_inv_le [OF assms(1)])
qed

text \<open>
  A log that is as up to date as one that has a decided prefix has that prefix, given that the
  winners of the terms between do.
\<close>

lemma upToDate_prefix:
  assumes i: "term_inv g" "historic g v" "historic g b" "slice_ok v" "slice_ok b"
    and w: "winner g t \<noteq> None"
    and l: "l = take n (glog g t)" "e \<in> set l" "Term e = t" "prefix l v"
    and up: "upToDate (lastOf b) v"
    and between: "\<And>u. t < u \<Longrightarrow> u \<le> lastTerm b \<Longrightarrow> winner g u \<noteq> None \<Longrightarrow> prefix l (base g u)"
  shows "prefix l b"
proof -
  have "e \<in> set v" using l(2,4) by (auto simp: prefix_def)
  then have v: "v \<noteq> []" "t \<le> lastTerm v" using historic_le [OF i(1,2)] l(3) by auto
  have "t \<noteq> 0" using i(1) w unfolding term_inv_def by blast
  then have t0: "lastTerm v \<noteq> 0" using v(2) by auto
  have c: "lastTerm b = lastTerm v \<and> length v \<le> length b \<or> lastTerm v < lastTerm b"
    using up i(4,5)
    by (auto simp: upToDate_def lastOf_def logIsUpToDate_def slice_ok_def word_le_nat_alt unat_lastIndex
        split: if_splits)
  then have b0: "b \<noteq> []" using v t0 by (auto simp: lastTerm_def)
  note b = historic_last [OF i(3) b0] and v' = historic_last [OF i(2) v(1)]
  from c show ?thesis
  proof (elim disjE conjE)
    assume "lastTerm b = lastTerm v" "length v \<le> length b"
    then have "prefix v b" using b v' take_prefix_le by metis
    then show ?thesis using l(4) prefix_order.trans by blast
  next
    assume lt: "lastTerm v < lastTerm b"
    then have t: "t < lastTerm b" using v(2) by simp
    then have "prefix l (base g (lastTerm b))" using between b by blast
    then have "prefix l (glog g (lastTerm b))"
      using i(1) b unfolding term_inv_def by (metis prefix_prefix)
    then have "prefix l b \<or> prefix b l"
      using b take_is_prefix prefix_same_cases by metis
    moreover have "\<not> prefix b l"
    proof
      assume "prefix b l"
      then obtain e where "e \<in> set l" "Term e = lastTerm b"
        using lastTerm_in [OF b0] set_mono_prefix by fastforce
      then show False
        using term_inv_le [OF i(1) w] l(1) t in_set_takeD not_less by metis
    qed
    ultimately show ?thesis by blast
  qed
qed

lemma decided_last:
  assumes "decided M g t n"
  shows "glog g t ! (n - 1) \<in> set (take n (glog g t)) \<and> Term (glog g t ! (n - 1)) = t"
proof -
  have "take n (glog g t) ! (n - 1) \<in> set (take n (glog g t))"
    using assms by (intro nth_mem) (auto simp: decided_def)
  then show ?thesis using assms by (simp add: decided_def)
qed

lemma decided_winner:
  assumes "sinv M g" "decided M g t n"
  shows "winner g t \<noteq> None"
proof -
  obtain Q where Q: "majority M Q" "\<forall>q \<in> Q. (q, t, n) \<in> acked g"
    using assms(2) by (auto simp: decided_def)
  then obtain q where "q \<in> Q" using maj.quorum_nonempty by blast
  then show ?thesis using Q(2) assms(1) unfolding sinv_def ack_inv_def by blast
qed

lemma decided_complete:
  assumes inv: "sinv M g" and d: "decided M g t n"
  shows "winner g T \<noteq> None \<Longrightarrow> t < T \<Longrightarrow> prefix (take n (glog g t)) (base g T)"
proof (induction T rule: measure_induct_rule [of unat])
  case (less T)
  have i: "term_inv g" "ack_inv g" "ballot_inv g" "win_inv M g"
    using inv by (simp_all add: sinv_def)
  let ?l = "take n (glog g t)"
  obtain c where c: "winner g T = Some c" using less.prems(1) by blast
  obtain R where R: "majority M R"
      "\<forall>q \<in> R. \<exists>v. (q, T, c, v) \<in> ballots g \<and> upToDate (lastOf (base g T)) v"
    using i(4) c unfolding win_inv_def by blast
  obtain Q where Q: "majority M Q" "\<forall>q \<in> Q. (q, t, n) \<in> acked g"
    using d by (auto simp: decided_def)
  obtain q where q: "q \<in> Q" "q \<in> R" using maj.meets Q(1) R(1) by blast
  then obtain v where v: "(q, T, c, v) \<in> ballots g" "upToDate (lastOf (base g T)) v"
    using R(2) by blast
  have bv: "historic g v" "slice_ok v" "keeps g {..<T} t ?l v"
    using i(3) v(1) Q(2) q(1) less.prems(2) unfolding ballot_inv_def by blast+
  have IH: "prefix ?l (base g u)" if "t < u" "u < T" "winner g u \<noteq> None" for u
    using less.IH [of u] that by (simp add: word_less_nat_alt)
  then have p: "prefix ?l v" using bv(3) unfolding keeps_def by blast
  obtain own where own: "historic g (glog g T)" "slice_ok (glog g T)" "glog g T = base g T @ own"
      "\<forall>e \<in> set (base g T). Term e < T"
    using i(1) less.prems(1) unfolding term_inv_def by blast
  then have b: "historic g (base g T)" "slice_ok (base g T)"
    using historic_prefix [of g "glog g T" "base g T"] by (simp_all add: slice_ok_def)
  note e = decided_last [OF d]
  show ?case
  proof (rule upToDate_prefix [OF i(1) bv(1) b(1) bv(2) b(2) decided_winner [OF inv d] refl _ _ p v(2)])
    show "prefix ?l (base g u)" if "t < u" "u \<le> lastTerm (base g T)" "winner g u \<noteq> None" for u
    proof -
      have "base g T \<noteq> []" using that(1,2) by (auto simp: lastTerm_def)
      then have "lastTerm (base g T) < T" using own(4) lastTerm_in by metis
      then show ?thesis using IH that by simp
    qed
  qed (use e in blast)+
qed

text \<open>The log of a term has everything that was decided up to it.\<close>

lemma decided_glog:
  assumes "sinv M g" "decided M g t n" "winner g T \<noteq> None" "t \<le> T"
  shows "prefix (take n (glog g t)) (glog g T)"
proof (cases "t = T")
  case True
  then show ?thesis by (simp add: take_is_prefix)
next
  case False
  then have "prefix (take n (glog g t)) (base g T)"
    using decided_complete [OF assms(1-3)] assms(4) by simp
  then show ?thesis
    using assms(1,3) unfolding sinv_def term_inv_def by (metis prefix_prefix)
qed

lemma settled_glog:
  "sinv M g \<Longrightarrow> settled M g t l \<Longrightarrow> winner g T \<noteq> None \<Longrightarrow> t \<le> T \<Longrightarrow> prefix l (glog g T)"
  using decided_glog prefix_order.trans order.trans unfolding settled_def by fastforce

text \<open>Settled logs are prefixes of one another.\<close>

lemma settled_agree:
  assumes inv: "sinv M g" and s: "settled M g t l" "settled M g t' l'"
  shows "prefix l l' \<or> prefix l' l"
proof (cases "l = [] \<or> l' = []")
  case False
  then obtain u n u' n' where d: "decided M g u n" "prefix l (take n (glog g u))"
      "decided M g u' n'" "prefix l' (take n' (glog g u'))"
    using s unfolding settled_def by blast
  let ?U = "max u u'"
  have "winner g ?U \<noteq> None"
    using decided_winner [OF inv d(1)] decided_winner [OF inv d(3)] by (simp add: max_def)
  then have "prefix l (glog g ?U)" "prefix l' (glog g ?U)"
    using decided_glog [OF inv d(1)] decided_glog [OF inv d(3)] d(2,4) prefix_order.trans
    by (metis max.cobounded1 max.cobounded2)+
  then show ?thesis by (rule prefix_same_cases)
qed auto

lemma grows_decided:
  assumes "sinv M g" "grows q g h" "decided M g t n"
  shows "decided M h t n"
proof -
  have w: "winner g t \<noteq> None" using decided_winner assms(1,3) .
  have n: "0 < n" "n \<le> length (glog g t)" using assms(3) by (simp_all add: decided_def)
  have t: "n \<le> length (glog h t)" "take n (glog h t) = take n (glog g t)"
    using grows_take [OF assms(2) w n(2)] by simp_all
  then have "glog h t ! (n - 1) = glog g t ! (n - 1)"
    using n by (metis diff_less less_one nth_take zero_less_one)
  then show ?thesis
    using assms(2,3) t(1) unfolding decided_def grows_def by (metis subsetD)
qed

lemma grows_settled:
  assumes "sinv M g" "grows q g h" "settled M g t l"
  shows "settled M h t l"
  using assms(3) grows_decided [OF assms(1,2)] decided_winner [OF assms(1)] grows_take [OF assms(2)]
  unfolding settled_def decided_def by metis

end
