(* ===== verification/Raft_Refinement.thy ===== *)
theory Raft_Refinement
  imports Raft_Cluster Raft_Spec
begin

text \<open>
  The group of \<open>Raft_Cluster\<close> refines the machine of \<open>Raft_Spec\<close>: every reachable state of the
  group is related to a reachable state of the machine.  The relation says which abstract log
  a server's log is, what a message carries of the log of its term, and that every commit index
  and every notification is about a settled log.
\<close>

subsection \<open>The relation\<close>

fun smsg :: "Host set \<Rightarrow> raft_spec \<Rightarrow> Host \<Rightarrow> Host \<Rightarrow> raft_msg \<Rightarrow> bool" where
  "smsg M g a d (RequestVote t li lt) = (claim g a t = Some (lt, li))"
| "smsg M g a d (RequestVoteReply _ _) = True"
| "smsg M g a d (AppendEntries t pi pt lc es) =
     (winner g t = Some a \<and> unat pi + length es \<le> length (glog g t) \<and>
      es = drop (unat pi) (take (unat pi + length es) (glog g t)) \<and>
      (pi = 0 \<or> pt = Term (glog g t ! (unat pi - 1))) \<and>
      unat lc \<le> length (glog g t) \<and> settled M g t (take (unat lc) (glog g t)))"
| "smsg M g a d (AppendEntriesReply t mi ok) = (ok \<longrightarrow> winner g t = Some d \<and> (a, t, unat mi) \<in> acked g)"

fun snote :: "Host set \<Rightarrow> raft_spec \<Rightarrow> raft_note \<Rightarrow> bool" where
  "snote M g (LeaderChanged _ _) = True"
| "snote M g (Applied i t cmd) =
     (\<exists>T l. settled M g T l \<and> i \<noteq> 0 \<and> unat i \<le> length l \<and> l ! (unat i - 1) = LogEntry t cmd)"

definition leads :: "raft_spec \<Rightarrow> Host \<Rightarrow> raft \<Rightarrow> bool" where
  "leads g a p \<longleftrightarrow> winner g (currentTerm p) = Some a \<and> log p = glog g (currentTerm p) \<and>
     (a, currentTerm p, length (log p)) \<in> acked g \<and>
     (\<forall>h. unat (mget (nextIndex p) h) \<le> length (log p) + 1) \<and>
     (\<forall>h. mget (matchIndex p) h = 0 \<or> (h, currentTerm p, unat (mget (matchIndex p) h)) \<in> acked g)"

definition stands :: "raft_spec \<Rightarrow> Host \<Rightarrow> raft \<Rightarrow> bool" where
  "stands g a p \<longleftrightarrow> claim g a (currentTerm p) = Some (lastOf (log p)) \<and>
     winner g (currentTerm p) \<noteq> Some a"

definition snode :: "Host set \<Rightarrow> raft_spec \<Rightarrow> Host \<Rightarrow> raft \<Rightarrow> bool" where
  "snode M g a p \<longleftrightarrow> trm g a = currentTerm p \<and> slog g a = log p \<and>
     unat (commitIndex p) \<le> length (log p) \<and>
     settled M g (currentTerm p) (take (unat (commitIndex p)) (log p)) \<and>
     (role p = Candidate \<longrightarrow> stands g a p) \<and> (role p = Leader \<longrightarrow> leads g a p)"

definition sim :: "Host set \<Rightarrow> raft_spec \<Rightarrow> rgroup \<Rightarrow> bool" where
  "sim M g s \<longleftrightarrow> sreach M g \<and> (\<forall>a \<in> M. snode M g a (nodes s a)) \<and>
     (\<forall>a d m. (a, d, m) \<in> net s \<longrightarrow> smsg M g a d m) \<and>
     (\<forall>a n. (a, n) \<in> notices s \<longrightarrow> snote M g n) \<and>
     (\<forall>a t c. rvoted s a t c \<and> winner g t = None \<longrightarrow> (\<exists>l. (a, t, c, l) \<in> ballots g)) \<and>
     (\<forall>t c. winner g t = Some c \<longrightarrow> elected M s c t)"

lemma snode_rclear [simp]: "snode M g a (rclear p) = snode M g a p"
  by (simp add: snode_def stands_def leads_def rclear_def)

lemma commitIndex_role [simp]:
  "leads g a (p\<lparr>commitIndex := n\<rparr>) = leads g a p" "stands g a (p\<lparr>commitIndex := n\<rparr>) = stands g a p"
  by (simp_all add: leads_def stands_def)

subsection \<open>What a step of the machine keeps of the relation\<close>

lemma sim_inv: "sim M g s \<Longrightarrow> sinv M g"
  by (simp add: sim_def sreach_sinv)

lemma settled_mono: "settled M g T l \<Longrightarrow> T \<le> T' \<Longrightarrow> settled M g T' l"
  unfolding settled_def by (meson order.trans)

lemma settled_prefix: "settled M g T l \<Longrightarrow> prefix k l \<Longrightarrow> settled M g T k"
  unfolding settled_def by (auto intro: prefix_order.trans)

lemma smsg_grows:
  assumes inv: "sinv M g" and gr: "grows q g h" and m: "smsg M g a d m"
  shows "smsg M h a d m"
proof (cases m)
  case (RequestVote t li lt)
  then show ?thesis using m claim_grows [OF gr] by simp
next
  case (AppendEntries t pi pt lc es)
  then have w: "winner g t \<noteq> None" using m by auto
  note gw = grows_winner [OF gr w] and gt = grows_take [OF gr w]
  let ?k = "unat pi + length es"
  have k: "?k \<le> length (glog g t)" "unat lc \<le> length (glog g t)" using m AppendEntries by simp_all
  have "pi = 0 \<or> pt = Term (glog h t ! (unat pi - 1))"
  proof (cases "pi = 0")
    case False
    then have "unat pi \<noteq> 0" by (simp add: unat_eq_zero)
    then have "glog h t ! (unat pi - 1) = glog g t ! (unat pi - 1)"
      using gw k(1) by (auto simp: prefix_def nth_append)
    with False show ?thesis using m AppendEntries by simp
  qed simp
  then show ?thesis
    using AppendEntries m gw gt [OF k(1)] gt [OF k(2)] grows_settled [OF inv gr] by simp
next
  case (AppendEntriesReply t mi ok)
  then show ?thesis using m gr unfolding grows_def by auto
qed (use m in simp)

lemma snote_grows: "sinv M g \<Longrightarrow> grows q g h \<Longrightarrow> snote M g n \<Longrightarrow> snote M h n"
  by (cases n) (auto intro: grows_settled)

lemma snode_grows:
  assumes inv: "sinv M g" and gr: "grows q g h" and a: "a \<noteq> q" and n: "snode M g a p"
  shows "snode M h a p"
proof -
  have "stands h a p" if "stands g a p"
    using that gr a unfolding stands_def grows_def by metis
  moreover have "leads h a p" if "leads g a p"
  proof -
    have w: "winner g (currentTerm p) = Some a" using that by (simp add: leads_def)
    then have "winner h (currentTerm p) = Some a" "glog h (currentTerm p) = glog g (currentTerm p)"
      "acked g \<subseteq> acked h"
      using gr a unfolding grows_def by metis+
    then show ?thesis using that unfolding leads_def by auto
  qed
  moreover have "trm h a = trm g a" "slog h a = slog g a" using gr a by (simp_all add: grows_def)
  ultimately show ?thesis
    using n grows_settled [OF inv gr] by (auto simp: snode_def)
qed

text \<open>One piece of a handler of member \<open>c\<close>, as zero or one steps of the machine.\<close>

lemma sim_step:
  assumes sim: "sim M g (rrun c p s)" and c: "c \<in> M" and h: "sreach M h" "grows c g h"
    and out: "out (ctx p') = out (ctx p) @ es" and node: "snode M h c p'"
    and sends: "\<And>m d. Sent m d \<in> set es \<Longrightarrow> smsg M h c d m"
    and pubs: "\<And>n. Published n \<in> set es \<Longrightarrow> snote M h n"
    and cast: "\<And>t x. Stored (SaveTerm t x True) \<in> set es \<Longrightarrow> winner h t = None \<Longrightarrow>
      \<exists>l. (c, t, x, l) \<in> ballots h"
    and wins: "\<And>t. winner h t = Some c \<Longrightarrow> winner g t = None \<Longrightarrow> elected M (rrun c p' s) c t"
  shows "sim M h (rrun c p' s)"
proof -
  let ?S = "rrun c p s" and ?S' = "rrun c p' s"
  have inv: "sinv M g" using sim by (rule sim_inv)
  have "snode M h a (nodes ?S' a)" if "a \<in> M" for a
  proof (cases "a = c")
    case True
    then show ?thesis using node by simp
  next
    case False
    then have "snode M g a (nodes s a)" using sim that by (auto simp: sim_def)
    then show ?thesis using snode_grows [OF inv h(2) False] False by simp
  qed
  moreover have "smsg M h a d m" if "(a, d, m) \<in> net ?S'" for a d m
  proof -
    have "(a, d, m) \<in> net ?S \<or> a = c \<and> Sent m d \<in> set es" using that by (auto simp: out)
    then show ?thesis using sim sends smsg_grows [OF inv h(2)] unfolding sim_def by blast
  qed
  moreover have "snote M h n" if "(a, n) \<in> notices ?S'" for a n
  proof -
    have "(a, n) \<in> notices ?S \<or> Published n \<in> set es" using that by (auto simp: out)
    then show ?thesis using sim pubs snote_grows [OF inv h(2)] unfolding sim_def by blast
  qed
  moreover have "\<exists>l. (a, t, x, l) \<in> ballots h" if "rvoted ?S' a t x" "winner h t = None" for a t x
  proof -
    have "rvoted ?S a t x \<or> a = c \<and> Stored (SaveTerm t x True) \<in> set es"
      using that(1) by (auto simp: rvoted_run out)
    moreover have "winner g t = None" "ballots g \<subseteq> ballots h"
      using that(2) h(2) by (cases "winner g t"; auto simp: grows_def)+
    ultimately show ?thesis using that(2) cast sim unfolding sim_def by blast
  qed
  moreover have "elected M ?S' x t" if "winner h t = Some x" for t x
  proof (cases "winner g t")
    case None
    then have "x = c" using h(2) that unfolding grows_def by (metis option.distinct(1))
    then show ?thesis using wins None that by simp
  next
    case (Some y)
    then have "x = y" using h(2) that by (simp add: grows_def)
    then have "elected M ?S x t" using Some sim by (simp add: sim_def)
    then show ?thesis by (rule elected_mono) (auto simp: rvoted_run out)
  qed
  ultimately show ?thesis using h(1) by (simp add: sim_def)
qed

subsection \<open>Changes the machine does not see\<close>

lemma grows_refl: "grows q g g"
  by (simp add: grows_def)

lemma sim_same:
  assumes "sim M g (rrun c p s)" "c \<in> M" "out (ctx p') = out (ctx p) @ es" "snode M g c p'"
    and "\<And>m d. Sent m d \<in> set es \<Longrightarrow> smsg M g c d m"
    and "\<And>n. Published n \<in> set es \<Longrightarrow> snote M g n"
    and "\<And>t x. Stored (SaveTerm t x True) \<notin> set es"
  shows "sim M g (rrun c p' s)"
  using assms by (intro sim_step [OF assms(1,2) _ grows_refl assms(3,4)]) (auto simp: sim_def)

lemma sim_node: "sim M g (rrun c p s) \<Longrightarrow> c \<in> M \<Longrightarrow> snode M g c p"
  by (auto simp: sim_def)

lemma sim_log:
  assumes "sim M g (rrun c p s)" "c \<in> M"
  shows "historic g (log p)" "slice_ok (log p)" "slog g c = log p" "trm g c = currentTerm p"
  using sim_node [OF assms] log_invD [where g = g and q = c] sim_inv [OF assms(1)]
  by (auto simp: snode_def sinv_def)

text \<open>The fields the relation reads.\<close>

definition rcore :: "raft \<Rightarrow> uint64 \<times> raftLog \<times> Role \<times> uint64 \<times> (Host \<rightharpoonup> uint64) \<times> (Host \<rightharpoonup> uint64)" where
  "rcore p = (currentTerm p, log p, role p, commitIndex p, nextIndex p, matchIndex p)"

lemma snode_core: "rcore q = rcore p \<Longrightarrow> snode M g a q = snode M g a p"
  by (simp add: rcore_def snode_def stands_def leads_def)

lemma sim_core:
  assumes "sim M g (rrun c p s)" "c \<in> M" "out (ctx p') = out (ctx p) @ es" "rcore p' = rcore p"
    and "\<And>m d. Sent m d \<in> set es \<Longrightarrow> smsg M g c d m"
    and "\<And>n. Published n \<in> set es \<Longrightarrow> snote M g n"
    and "\<And>t x. Stored (SaveTerm t x True) \<notin> set es"
  shows "sim M g (rrun c p' s)"
  using assms(1-3) _ assms(5-7)
  by (rule sim_same) (simp add: snode_core [OF assms(4)] sim_node [OF assms(1,2)])

lemma sim_reset:
  "sim M g (rrun c p s) \<Longrightarrow> c \<in> M \<Longrightarrow> sim M g (rrun c (resetElectionTimer p) s)"
  by (rule sim_core [where es = "[]"]) (simp_all add: rcore_def)

lemma sim_send:
  "sim M g (rrun c p s) \<Longrightarrow> c \<in> M \<Longrightarrow> smsg M g c d m \<Longrightarrow> sim M g (rrun c (raft_send m d p) s)"
  by (rule sim_core [where es = "[Sent m d]"]) (simp_all add: rcore_def raft_send_def emit_def)

lemma sim_answer:
  "sim M g (rrun c p s) \<Longrightarrow> c \<in> M \<Longrightarrow> sim M g (rrun c (raft_answer r p) s)"
  by (rule sim_core [where es = "[Replied r]"]) (simp_all add: rcore_def raft_answer_def emit_def)

lemma sim_setLeader:
  assumes "sim M g (rrun c p s)" "c \<in> M"
  shows "sim M g (rrun c (setLeader h p) s)"
proof (cases "hasLeader p \<and> leader p = h")
  case False
  then show ?thesis
    using assms
    by (intro sim_core [OF assms, of _ "[Published (LeaderChanged h (currentTerm p))]"])
      (simp_all add: rcore_def setLeader_def raft_publish_def emit_def)
qed (use assms in \<open>simp add: setLeader_def\<close>)

lemma sim_follower:
  assumes "sim M g (rrun c p s)" "c \<in> M"
  shows "sim M g (rrun c (p\<lparr>role := Follower\<rparr>) s)"
  using sim_node [OF assms]
  by (intro sim_same [OF assms, of _ "[]"]) (simp_all add: snode_def)

subsection \<open>Terms and votes\<close>

lemma sim_sreach: "sim M g s \<Longrightarrow> sreach M g"
  by (simp add: sim_def)

lemma sim_grows: "sim M g s \<Longrightarrow> sstep M q g h \<Longrightarrow> sreach M h \<and> grows q g h"
  using sim_inv sstep_grows sreach_step sim_sreach unfolding sinv_def by blast

lemma sim_stepDown:
  assumes sim: "sim M g (rrun c p s)" and c: "c \<in> M" and t: "currentTerm p < t"
  shows "\<exists>h. sim M h (rrun c (stepDown t p) s) \<and> grows c g h"
proof -
  let ?h = "g\<lparr>trm := (trm g)(c := t)\<rparr>"
  have st: "sstep M c g ?h" using sim_log(4) [OF sim c] t by (intro raise_term) simp
  note h = sim_grows [OF sim st]
  have d: "settled M ?h T l = settled M g T l" for T l
    by (simp add: settled_def decided_def)
  have "snode M ?h c (stepDown t p)"
    using sim_node [OF sim c] t settled_mono [of M g "currentTerm p" _ t]
    by (simp add: snode_def d)
  then have "sim M ?h (rrun c (stepDown t p) s)"
    using h t by (intro sim_step [OF sim c, of ?h _ "[Stored (SaveTerm t zeroHost False)]"]) auto
  then show ?thesis using h by blast
qed

text \<open>A vote is a ballot of the machine unless the term already has its winner.\<close>

lemma sim_vote:
  assumes sim: "sim M g (rrun c p s)" and c: "c \<in> M"
    and cl: "claim g f (currentTerm p) = Some x" "upToDate x (log p)"
    and q: "rcore q = rcore p" "out (ctx q) = out (ctx p) @ [Stored (SaveTerm (currentTerm p) f True)]"
  shows "\<exists>h. sim M h (rrun c q s)"
proof (cases "winner g (currentTerm p)")
  case (Some w)
  have "sim M g (rrun c q s)"
    using Some sim_node [OF sim c] snode_core [OF q(1)]
    by (intro sim_step [OF sim c sim_sreach [OF sim] grows_refl q(2)]) auto
  then show ?thesis by blast
next
  case None
  let ?h = "g\<lparr>ballots := insert (c, currentTerm p, f, log p) (ballots g)\<rparr>"
  note l = sim_log [OF sim c]
  have st: "sstep M c g ?h"
    using ballot [of g f c x M] cl None l(3,4) by simp
  note h = sim_grows [OF sim st]
  have d: "settled M ?h T l = settled M g T l" for T l
    by (simp add: settled_def decided_def)
  have "snode M ?h c q = snode M g c q"
    by (simp add: snode_def d stands_def leads_def)
  then have "snode M ?h c q" using sim_node [OF sim c] snode_core [OF q(1)] by simp
  then have "sim M ?h (rrun c q s)"
    using h by (intro sim_step [OF sim c, of ?h _ "[Stored (SaveTerm (currentTerm p) f True)]"])
      (auto simp: q)
  then show ?thesis by blast
qed

lemma sim_onRequestVote:
  assumes sim: "sim M g (rrun c p s)" and c: "c \<in> M" and m: "smsg M g f c (RequestVote t li lt)"
  shows "\<exists>h. sim M h (rrun c (onRequestVote t li lt f p) s)"
proof -
  let ?p = "if t > currentTerm p then stepDown t p else p"
  obtain g1 where g1: "sim M g1 (rrun c ?p s)" "claim g1 f t = Some (lt, li)"
    using sim m claim_grows sim_stepDown [OF sim c, of t] by (cases "t > currentTerm p") auto
  let ?g = "t = currentTerm ?p \<and> (\<not> hasVoted ?p \<or> votedFor ?p = f) \<and>
      logIsUpToDate lt li (lastTerm (log ?p)) (lastIndex (log ?p))"
  let ?q = "persistTerm (?p\<lparr>votedFor := f, hasVoted := True\<rparr>)"
  have r: "smsg M k c f (RequestVoteReply u ok)" for k u ok by simp
  show ?thesis
  proof (cases ?g)
    case False
    then have "onRequestVote t li lt f p = raft_send (RequestVoteReply (currentTerm ?p) False) f ?p"
      by (auto simp: onRequestVote_def Let_def)
    then show ?thesis using sim_send [OF g1(1) c r] by (simp only:) blast
  next
    case True
    have "\<exists>h. sim M h (rrun c ?q s)"
      using True g1(2)
      by (intro sim_vote [OF g1(1) c, of f "(lt, li)"])
        (auto simp: upToDate_def rcore_def persistTerm_def raft_store_def emit_def simp del: stepDown_simps)
    then obtain h where "sim M h (rrun c ?q s)" by blast
    then have "sim M h (rrun c (raft_send (RequestVoteReply t True) f (resetElectionTimer ?q)) s)"
      by (intro sim_send sim_reset c r)
    moreover have "onRequestVote t li lt f p =
        raft_send (RequestVoteReply t True) f (resetElectionTimer ?q)"
      using True by (simp add: onRequestVote_def Let_def persistTerm_def raft_store_def del: stepDown_simps)
    ultimately show ?thesis by auto
  qed
qed

subsection \<open>Replication, the leader's side\<close>

text \<open>The message to a peer carries the log of the term from some index on.\<close>

lemma sendAppendEntries_smsg:
  fixes d :: Host
  assumes n: "snode M g c p" and r: "role p = Leader" and l: "slice_ok (log p)"
  defines "ni \<equiv> max (mget (nextIndex p) d) 1"
  shows "smsg M g c d (AppendEntries (currentTerm p) (ni - 1) (termAt (log p) (ni - 1))
    (commitIndex p) (sliceFrom (log p) ni))"
proof -
  have len: "length (log p) < 2 ^ 64" using l by (simp add: slice_ok_def)
  have ld: "leads g c p" and co: "unat (commitIndex p) \<le> length (log p)"
      "settled M g (currentTerm p) (take (unat (commitIndex p)) (log p))"
    using n r by (simp_all add: snode_def)
  have ni: "ni \<noteq> 0" "unat ni \<le> length (log p) + 1"
    using ld by (auto simp: ni_def leads_def max_def not_le)
  have "unat ni \<noteq> 0" using ni(1) by (simp add: unat_eq_zero)
  then have u: "unat (ni - 1) = unat ni - 1" "unat ni - 1 \<le> length (log p)"
    using ni by (simp_all add: unat_minus_one)
  have sl: "sliceFrom (log p) ni = drop (unat (ni - 1)) (log p)"
    using ni u len \<open>unat ni \<noteq> 0\<close>
    by (auto simp: sliceFrom_def word_less_nat_alt unat_lastIndex)
  have "ni - 1 = 0 \<or> termAt (log p) (ni - 1) = Term (log p ! (unat (ni - 1) - 1))"
    using termAt_nth [OF len, of "ni - 1"] u by auto
  then show ?thesis
    using ld co u sl by (auto simp: leads_def)
qed

lemma sim_sendAppendEntries:
  assumes sim: "sim M g (rrun c p s)" and c: "c \<in> M" and r: "role p = Leader"
  shows "sim M g (rrun c (sendAppendEntries d p) s)"
  using sendAppendEntries_smsg [OF sim_node [OF sim c] r sim_log(2) [OF sim c]]
  by (simp only: sendAppendEntries_def Let_def) (rule sim_send [OF sim c])

lemma sim_broadcast:
  assumes "sim M g (rrun c p s)" "c \<in> M" "role p = Leader"
  shows "sim M g (rrun c (broadcastAppendEntries p) s)"
proof -
  have "sim M g (rrun c (fold sendAppendEntries hs q) s)"
    if "sim M g (rrun c q s)" "role q = Leader" for hs q
    using that assms(2) by (induction hs arbitrary: q) (simp_all add: sim_sendAppendEntries)
  then show ?thesis using assms by (simp add: broadcastAppendEntries_def)
qed

subsection \<open>Elections\<close>

lemma mget_fill:
  "mget (fold (\<lambda>h m. m(h \<mapsto> v)) hs m0) h = (if h \<in> set hs then v else mget m0 h)"
  by (induction hs arbitrary: m0) (auto simp: mget_def)

lemma won_ballots:
  assumes sim: "sim M g (rrun c p s)" and K: "K M c s p"
    and r: "role p = Candidate" "wonElection p" "winner g (currentTerm p) = None"
  shows "majority M (votesGranted p)"
    "\<And>v. v \<in> votesGranted p \<Longrightarrow> \<exists>l. (v, currentTerm p, c, l) \<in> ballots g"
proof -
  have v: "\<forall>v \<in> votesGranted p. v \<in> M \<and> rvoted (rrun c p s) v (currentTerm p) c"
    using K_facts(3) [OF K] r(1) by (simp add: node_ok_def)
  have "card M div 2 + 1 \<le> card (votesGranted p)"
    using r(2) K_node(1) [OF K] by (simp add: wonElection_def rmember_ok_def)
  with v show "majority M (votesGranted p)"
    using K_facts(2) [OF K] unfolding majority_def by blast
  show "\<exists>l. (v, currentTerm p, c, l) \<in> ballots g" if "v \<in> votesGranted p" for v
    using v that r(3) sim unfolding sim_def by blast
qed

lemma sim_becomeLeader:
  assumes sim: "sim M g (rrun c p s)" and K: "K M c s p"
    and r: "role p = Candidate" "wonElection p"
  shows "\<exists>h. sim M h (rrun c (becomeLeader p) s)"
proof -
  let ?t = "currentTerm p" and ?l = "log p"
  have c: "c \<in> M" using K_facts(1) [OF K] .
  note n = sim_node [OF sim c] and l = sim_log [OF sim c]
  have el: "elected M (rrun c p s) c ?t" using won_elected [OF K r] .
  have st: "stands g c p" using n r(1) by (simp add: snode_def)
  have w: "winner g ?t = None"
    using st el K_facts(5) [OF K el] sim unfolding stands_def sim_def
    by (metis not_None_eq)
  let ?h = "g\<lparr>winner := (winner g)(?t := Some c), base := (base g)(?t := ?l),
    glog := (glog g)(?t := ?l), acked := acked g \<union> acks c ?t (length ?l)\<rparr>"
  have "sstep M c g ?h"
    using win [of g c M "votesGranted p"] w won_ballots [OF sim K r w] st l(3,4)
    by (simp add: stands_def)
  note h = sim_grows [OF sim this]
  let ?r = "p\<lparr>role := Leader, ctx := cancel (electionTimer p) (ctx p),
    nextIndex := fold (\<lambda>h m. m(h \<mapsto> lastIndex ?l + 1)) (peers p) Map.empty,
    matchIndex := fold (\<lambda>h m. m(h \<mapsto> 0)) (peers p) Map.empty\<rparr>"
  have len: "unat (lastIndex ?l + 1) = length ?l + 1"
  proof -
    have b: "length ?l < 2 ^ 63" using l(2) by (simp add: slice_ok_def)
    then have "unat (lastIndex ?l) = length ?l" by (simp add: unat_lastIndex)
    moreover from this b have "lastIndex ?l \<noteq> - 1" by (auto simp: unat_max64)
    ultimately show ?thesis by (simp add: unat_add_one)
  qed
  have "leads ?h c ?r"
    by (simp add: leads_def acks_def mget_fill len) (simp add: mget_def)
  moreover have "settled M ?h ?t (take (unat (commitIndex p)) ?l)"
    by (rule grows_settled [OF sim_inv [OF sim]]) (use n h in \<open>auto simp: snode_def\<close>)
  ultimately have nr: "snode M ?h c ?r" using n by (simp add: snode_def)
  have o: "out (cancel x k) = out k" for x and k :: raft_ctx
    by (auto simp: cancel_def split: option.splits)
  have "elected M (rrun c ?r s) c ?t"
    using el by (rule elected_mono) (simp add: rvoted_run o)
  then have S1: "sim M ?h (rrun c ?r s)"
    using h nr w by (intro sim_step [OF sim c, of ?h _ "[]"]) (auto simp: o split: if_splits)
  let ?s = "setLeader c ?r"
  have S2: "sim M ?h (rrun c ?s s)" using S1 c by (rule sim_setLeader)
  obtain x k where ev: "every (HeartbeatInterval (cfg ?s)) BroadcastAppendEntries (ctx ?s) = (x, k)"
    by fastforce
  then have "out k = out (ctx ?s)" by (auto simp: every_def Let_def)
  then have "sim M ?h (rrun c (?s\<lparr>ctx := k, heartbeatTimer := x\<rparr>) s)"
    by (intro sim_core [OF S2 c, of _ "[]"]) (simp_all add: rcore_def)
  then have "sim M ?h (rrun c (broadcastAppendEntries (?s\<lparr>ctx := k, heartbeatTimer := x\<rparr>)) s)"
    using c by (rule sim_broadcast) simp
  then show ?thesis
    using ev K_node(4) [OF K] by (auto simp: becomeLeader_def Let_def fill_indices)
qed

lemma sim_standing:
  assumes sim: "sim M g (rrun c p s)" and c: "c \<in> M" and K: "self p = c"
    and t: "currentTerm p \<noteq> - 1"
  shows "\<exists>h. sim M h (rrun c (standing p) s)"
proof -
  let ?t = "currentTerm p + 1"
  let ?r = "p\<lparr>role := Candidate, currentTerm := ?t, votedFor := c, hasVoted := True,
    leader := zeroHost, hasLeader := False, votesGranted := {c}\<rparr>"
  let ?h = "g\<lparr>trm := (trm g)(c := ?t), claim := (claim g)(c := (claim g c)(?t := Some (lastOf (log p))))\<rparr>"
  note l = sim_log [OF sim c] and n = sim_node [OF sim c]
  have lt: "currentTerm p < ?t" using t by (rule less_add_one_word)
  have "sstep M c g ?h" using stand [of g c ?t M] l(3,4) lt by simp
  note h = sim_grows [OF sim this]
  have "winner g ?t \<noteq> Some c" using winner_trm [OF sim_inv [OF sim], of ?t c] l(4) lt by auto
  moreover have "settled M ?h ?t (take (unat (commitIndex p)) (log p))"
    by (rule settled_mono [OF grows_settled [OF sim_inv [OF sim]]])
      (use n h lt in \<open>auto simp: snode_def\<close>)
  ultimately have "snode M ?h c ?r" using n by (simp add: snode_def stands_def)
  then have S1: "sim M ?h (rrun c ?r s)"
    using h by (intro sim_step [OF sim c, of ?h _ "[]"]) auto
  let ?q = "persistTerm ?r"
  have "\<exists>h. sim M h (rrun c ?q s)"
    by (rule sim_vote [OF S1 c, of c "lastOf (log p)"])
      (auto simp: upToDate_def lastOf_def logIsUpToDate_def rcore_def persistTerm_def raft_store_def emit_def)
  then obtain h' where "sim M h' (rrun c ?q s)" by blast
  then have S3: "sim M h' (rrun c (resetElectionTimer ?q) s)" using c by (rule sim_reset)
  let ?z = "resetElectionTimer ?q"
  have "role ?z = Candidate" by (simp add: persistTerm_def raft_store_def)
  then have "claim h' c (currentTerm ?z) = Some (lastOf (log ?z))"
    using sim_node [OF S3 c] by (simp add: snode_def stands_def)
  then have m: "smsg M h' c d (RequestVote (currentTerm ?z) (lastIndex (log ?z)) (lastTerm (log ?z)))" for d
    by (simp add: lastOf_def)
  have "sim M h' (rrun c (fold (raft_send m) hs q) s)"
    if "\<And>d. smsg M h' c d m" "sim M h' (rrun c q s)" for m hs q
    using that c by (induction hs arbitrary: q) (simp_all add: sim_send)
  then show ?thesis
    using m S3 K unfolding standing_def Let_def by blast
qed

lemma sim_startElection:
  assumes sim: "sim M g (rrun c p s)" and K: "K M c s p"
    and r: "role p \<noteq> Leader" "currentTerm p \<noteq> - 1"
  shows "\<exists>h. sim M h (rrun c (startElection p) s)"
proof -
  obtain h where "sim M h (rrun c (standing p) s)"
    using sim_standing [OF sim K_facts(1) [OF K] K_node(4) [OF K] r(2)] by blast
  then show ?thesis
    using sim_becomeLeader [OF _ K_standing [OF K r]] by (auto simp: startElection_standing)
qed

lemma sim_onRequestVoteReply:
  assumes sim: "sim M g (rrun c p s)" and K: "K M c s p"
    and v: "ok \<Longrightarrow> f \<in> M \<and> rvoted (rrun c p s) f t c"
  shows "\<exists>h. sim M h (rrun c (onRequestVoteReply t ok f p) s)"
proof -
  have c: "c \<in> M" using K_facts(1) [OF K] .
  let ?q = "p\<lparr>votesGranted := insert f (votesGranted p)\<rparr>"
  have S: "sim M g (rrun c ?q s)"
    using sim c by (rule sim_core [where es = "[]"]) (simp_all add: rcore_def)
  have Kq: "K M c s ?q" if "role p = Candidate" "t = currentTerm p" "ok"
    using K_facts(3) [OF K, unfolded node_ok_def] v that
    by (intro K_same [OF K, of _ "[]"]) (auto simp: rpersisted_def rmember_ok_def beats_def)
  show ?thesis
    using sim S sim_stepDown [OF sim c] sim_becomeLeader [OF S Kq]
    unfolding onRequestVoteReply_def Let_def by auto
qed

subsection \<open>Replication, the follower's side\<close>

lemma sim_heardLeader:
  assumes sim: "sim M g (rrun c p s)" and c: "c \<in> M" and t: "\<not> t < currentTerm p"
  shows "\<exists>h. sim M h (rrun c (heardLeader t f p) s) \<and> grows c g h \<and> currentTerm (heardLeader t f p) = t"
proof -
  let ?p = "if t > currentTerm p then stepDown t p else p"
  obtain h where "sim M h (rrun c ?p s)" "grows c g h"
    using sim sim_stepDown [OF sim c, of t] grows_refl by (cases "t > currentTerm p") auto
  then show ?thesis
    using t unfolding heardLeader_def by (auto intro!: exI [of _ h] sim_reset sim_setLeader sim_follower c)
qed

text \<open>Applying is telling of settled entries.\<close>

lemma settled_note:
  assumes "settled M g T (take (unat n) l)" "unat n \<le> length l" "length l < 2 ^ 64"
    "x \<in> set (appliedNotes l a (unat n))"
  shows "snote M g x"
proof -
  obtain i where i: "i < unat n" "x = Applied (word_of_nat (Suc i)) (Term (l ! i)) (Command (l ! i))"
    using assms(4) by (auto simp: appliedNotes_def)
  have u: "unat (word_of_nat (Suc i) :: uint64) = Suc i"
    using i(1) assms(2,3) by (intro unat_of_nat64) simp
  then have "(word_of_nat (Suc i) :: uint64) \<noteq> 0" by (metis unat_0 nat.distinct(1))
  then show ?thesis
    using assms(1,2) i u by (auto intro!: exI [of _ T] exI [of _ "take (unat n) l"] simp del: of_nat_Suc)
qed

lemma sim_apply:
  assumes sim: "sim M g (rrun c p s)" and c: "c \<in> M"
    and n: "unat n \<le> length (log p)" "settled M g (currentTerm p) (take (unat n) (log p))"
    and d: "applyCommitted (p\<lparr>commitIndex := n\<rparr>) = Done q"
  shows "sim M g (rrun c q s)" "role q = role p" "currentTerm q = currentTerm p"
proof -
  let ?ns = "appliedNotes (log p) (unat (lastApplied p)) (unat n)"
  have len: "length (log p) < 2 ^ 64" using sim_log(2) [OF sim c] by (simp add: slice_ok_def)
  have q: "q = p\<lparr>commitIndex := n, lastApplied := max (lastApplied p) n,
      ctx := (ctx p)\<lparr>out := out (ctx p) @ map Published ?ns\<rparr>\<rparr>"
    using applyCommitted_Done [of "p\<lparr>commitIndex := n\<rparr>"] n(1) len d by simp
  show "role q = role p" "currentTerm q = currentTerm p" by (simp_all add: q)
  have "snode M g c (p\<lparr>commitIndex := n\<rparr>)"
    using sim_node [OF sim c] n by (simp add: snode_def)
  moreover have "rcore q = rcore (p\<lparr>commitIndex := n\<rparr>)" by (simp add: rcore_def q)
  ultimately have "snode M g c q" using snode_core by blast
  then show "sim M g (rrun c q s)"
    using settled_note [OF n(2,1) len]
    by (intro sim_same [OF sim c, of _ "map Published ?ns"]) (auto simp: q)
qed

text \<open>The splice of a message's entries is one adoption, which keeps every settled prefix.\<close>

lemma prefix_adopt_log:
  assumes "prefix l own" "prefix l whole"
  shows "prefix l (adopt (take k whole) own)"
  using assms prefix_same_cases [OF assms(2), of "take k whole"] prefix_order.trans
  by (auto simp: adopt_def take_is_prefix)

lemma sim_appendConflictFree:
  assumes sim: "sim M g (rrun c p s)" and c: "c \<in> M" and r: "role p = Follower"
    and m: "smsg M g f c (AppendEntries (currentTerm p) pi pt lc es)"
    and ok: "pi \<le> lastIndex (log p)" "termAt (log p) pi = pt" and es: "slice_ok es"
  defines "k \<equiv> unat pi + length es" and "q \<equiv> appendConflictFree pi es p"
  shows "\<exists>h. sim M h (rrun c q s) \<and> grows c g h \<and> (c, currentTerm p, k) \<in> acked h \<and>
    prefix (take k (glog g (currentTerm p))) (log q) \<and> currentTerm q = currentTerm p \<and>
    commitIndex q = commitIndex p \<and> role q = Follower"
proof -
  let ?t = "currentTerm p"
  let ?l = "take k (glog g ?t)"
  note l = sim_log [OF sim c] and n = sim_node [OF sim c]
  have w: "winner g ?t \<noteq> None" and kl: "k \<le> length (glog g ?t)" and e: "es = drop (unat pi) ?l"
    using m by (auto simp: k_def)
  have len: "length (log p) < 2 ^ 64" using l(2) by (simp add: slice_ok_def)
  then have pi: "unat pi \<le> length (log p)" using ok(1) by (simp add: le_lastIndex)
  have hl: "historic g (glog g ?t)" using w sim_inv [OF sim] unfolding sinv_def term_inv_def by blast
  have at: "unat pi = 0 \<or> Term (log p ! (unat pi - 1)) = Term (?l ! (unat pi - 1))"
  proof (cases "pi = 0")
    case False
    then have "unat pi \<noteq> 0" by (simp add: unat_eq_zero)
    then show ?thesis
      using False termAt_nth [OF len False pi] ok(2) m by (simp add: k_def)
  qed simp
  have sp: "take (unat pi) (log p) @ mergeSuffix (drop (unat pi) (log p)) es = adopt ?l (log p)"
    unfolding e by (rule splice_adopt [OF historic_take [OF hl] l(1) pi _ at]) (use kl in \<open>simp add: k_def\<close>)
  obtain ws where q: "q = p\<lparr>log := adopt ?l (log p), ctx := (ctx p)\<lparr>out := out (ctx p) @ map Stored ws\<rparr>\<rparr>"
    and ws: "ws = [] \<or> (\<exists>i sfx. ws = [SaveEntries i sfx])"
    using appendConflictFree_merge [OF ok(1) l(2) es] unfolding sp q_def by blast
  let ?h = "g\<lparr>slog := (slog g)(c := adopt ?l (log p)), acked := acked g \<union> acks c ?t k\<rparr>"
  have "sstep M c g ?h" using accept [of g c k M] w kl l(3,4) by simp
  note h = sim_grows [OF sim this]
  have ci: "unat (commitIndex p) \<le> length (log p)" "settled M g ?t (take (unat (commitIndex p)) (log p))"
    using n by (simp_all add: snode_def)
  let ?s = "take (unat (commitIndex p)) (log p)"
  have "prefix ?s (glog g ?t)" using settled_glog [OF sim_inv [OF sim] ci(2) w] by simp
  then have "prefix ?s (adopt ?l (log p))" by (intro prefix_adopt_log take_is_prefix)
  then have "unat (commitIndex p) \<le> length (adopt ?l (log p))"
      "take (unat (commitIndex p)) (adopt ?l (log p)) = ?s"
    using ci(1) by (auto simp: prefix_def)
  moreover have "settled M ?h ?t ?s"
    by (rule grows_settled [OF sim_inv [OF sim] _ ci(2)]) (use h in blast)
  ultimately have "snode M ?h c q" using n r by (simp add: snode_def q)
  then have "sim M ?h (rrun c q s)"
    using h ws by (intro sim_step [OF sim c, of ?h _ "map Stored ws"]) (auto simp: q)
  then show ?thesis
    using h r by (intro exI [of _ ?h]) (auto simp: q acks_def prefix_adopt)
qed

lemma sim_reject:
  "sim M g (rrun c p s) \<Longrightarrow> c \<in> M \<Longrightarrow>
     \<exists>h. sim M h (rrun c (raft_send (AppendEntriesReply t mi False) f p) s)"
  by (rule exI [of _ g]) (simp add: sim_send)

lemma sim_onAppendEntries:
  assumes sim: "sim M g (rrun c p s)" and c: "c \<in> M"
    and m: "smsg M g f c (AppendEntries t pi pt lc es)" and es: "slice_ok es"
    and d: "onAppendEntries t pi pt lc es f p = Done q"
  shows "\<exists>h. sim M h (rrun c q s)"
proof (cases "t < currentTerm p")
  case True
  then have "q = raft_send (AppendEntriesReply (currentTerm p) 0 False) f p"
    using d by (simp add: onAppendEntries_heardLeader)
  then show ?thesis using sim_reject [OF sim c] by simp
next
  case False
  let ?p = "heardLeader t f p" and ?mi = "pi + word_of_nat (length es)"
  obtain g1 where g1: "sim M g1 (rrun c ?p s)" "grows c g g1" and t: "currentTerm ?p = t"
    using sim_heardLeader [OF sim c False] by blast
  have m1: "smsg M g1 f c (AppendEntries t pi pt lc es)"
    by (rule smsg_grows [OF sim_inv [OF sim] g1(2) m])
  show ?thesis
  proof (cases "pi > lastIndex (log ?p) \<or> termAt (log ?p) pi \<noteq> pt")
    case True
    then have "q = raft_send (AppendEntriesReply (currentTerm ?p) 0 False) f ?p"
      using d False by (simp add: onAppendEntries_heardLeader Let_def)
    then show ?thesis using sim_reject [OF g1(1) c] by simp
  next
    case ok: False
    let ?a = "appendConflictFree pi es ?p"
    have pi: "pi \<le> lastIndex (log ?p)" using ok by (simp add: not_less)
    note b = appendConflictFree_bounds [OF pi sim_log(2) [OF g1(1) c] es]
    obtain h where h: "sim M h (rrun c ?a s)" "grows c g1 h" "(c, t, unat ?mi) \<in> acked h"
        "prefix (take (unat ?mi) (glog g1 t)) (log ?a)" "currentTerm ?a = t" "role ?a = Follower"
      using sim_appendConflictFree [OF g1(1) c, of f pi pt lc es] m1 ok pi es t b(1) by auto
    let ?n = "min lc ?mi"
    have st: "unat ?n \<le> length (log ?a)" "settled M h t (take (unat ?n) (log ?a))"
    proof -
      have le: "unat ?n \<le> unat ?mi" "unat ?n \<le> unat lc" by (simp_all add: min_def word_le_nat_alt)
      then show "unat ?n \<le> length (log ?a)" using b(1,2) by linarith
      have "unat ?mi \<le> length (glog g1 t)" using m1 b(1) by simp
      then have "take (unat ?n) (log ?a) = take (unat ?n) (glog g1 t)"
        using h(4) le(1) by (auto simp: prefix_def)
      moreover have "settled M g1 t (take (unat lc) (glog g1 t))" using m1 by simp
      ultimately show "settled M h t (take (unat ?n) (log ?a))"
        using grows_settled [OF sim_inv [OF g1(1)] h(2)] settled_prefix take_prefix_le [OF le(2)] by metis
    qed
    have "\<exists>y. (if lc > commitIndex ?a then applyCommitted (?a\<lparr>commitIndex := ?n\<rparr>) else Done ?a) = Done y \<and>
        sim M h (rrun c y s) \<and> currentTerm y = t"
      using st applyCommitted_Done [of "?a\<lparr>commitIndex := ?n\<rparr>"] b(3) h(1,5)
        sim_apply [OF h(1) c st(1)] by auto
    then obtain y where y: "sim M h (rrun c y s)" "currentTerm y = t"
      "q = raft_send (AppendEntriesReply (currentTerm y) ?mi True) f y"
      using d False ok unfolding onAppendEntries_heardLeader Let_def by auto
    have "winner h t = Some f" using m1 grows_winner [OF h(2)] by simp
    then have "sim M h (rrun c (raft_send (AppendEntriesReply (currentTerm y) ?mi True) f y) s)"
      using h(3) y(2) by (intro sim_send [OF y(1) c]) simp
    then show ?thesis using y(3) by blast
  qed
qed

subsection \<open>Commitment\<close>

text \<open>The index the leader counts to is decided: the members it counted are a majority.\<close>

lemma replicas_map: "replicas (map f hs) n = length (filter (\<lambda>h. n \<le> f h) hs)"
  by (simp add: replicas_def filter_map o_def)

lemma counted_majority:
  assumes m: "rmember_ok M c p" and M: "finite M" "c \<in> M"
    and n: "card M div 2 + 1 \<le> replicas (x # map f (peers p)) n"
  shows "\<exists>Q. majority M Q \<and> (\<forall>h \<in> Q. n \<le> (if h = c then x else f h))"
proof -
  let ?hs = "c # peers p" and ?f = "\<lambda>h. if h = c then x else f h"
  have s: "set (peers p) = M - {c}" "length (peers p) + 1 = card M"
    using m by (simp_all add: rmember_ok_def)
  have "card (set (peers p)) = length (peers p)" using s M by (simp add: card_Diff_singleton)
  then have d: "distinct ?hs" using s(1) card_distinct by fastforce
  have "x # map f (peers p) = map ?f ?hs" using s(1) by auto
  then have "replicas (x # map f (peers p)) n = length (filter (\<lambda>h. n \<le> ?f h) ?hs)"
    by (simp only: replicas_map)
  also have "\<dots> = card (set (filter (\<lambda>h. n \<le> ?f h) ?hs))"
    by (rule distinct_card [OF distinct_filter [OF d], symmetric])
  finally have "majority M (set (filter (\<lambda>h. n \<le> ?f h) ?hs))"
    using n M s(1) by (auto simp: majority_def)
  then show ?thesis by (intro exI [of _ "set (filter (\<lambda>h. n \<le> ?f h) ?hs)"]) auto
qed

lemma acked_le: "sinv M g \<Longrightarrow> (q, t, n) \<in> acked g \<Longrightarrow> m \<le> n \<Longrightarrow> (q, t, m) \<in> acked g"
  unfolding sinv_def ack_inv_def by blast

lemma leader_decided:
  assumes sim: "sim M g (rrun c p s)" and K: "K M c s p" and r: "role p = Leader"
  defines "n \<equiv> advanceCommitIndex (commitIndex p) (currentTerm p) (log p)
    (lastIndex (log p) # map (mget (matchIndex p)) (peers p)) (length (peers p) + 1)"
  assumes n: "n > commitIndex p"
  shows "unat n \<le> length (log p)" "settled M g (currentTerm p) (take (unat n) (log p))"
proof -
  let ?t = "currentTerm p" and ?ms = "lastIndex (log p) # map (mget (matchIndex p)) (peers p)"
  have c: "c \<in> M" using K_facts(1) [OF K] .
  have len: "length (log p) < 2 ^ 64" using sim_log(2) [OF sim c] by (simp add: slice_ok_def)
  have ld: "leads g c p" using sim_node [OF sim c] r by (simp add: snode_def)
  have "length (peers p) + 1 = card M" using K_node(1) [OF K] by (simp add: rmember_ok_def)
  then have "n = commitIndex p \<or> n \<le> lastIndex (log p) \<and> termAt (log p) n = ?t \<and>
      card M div 2 + 1 \<le> replicas ?ms n"
    using commitLoop_bounds [of "commitIndex p" ?t "log p" ?ms "card M div 2 + 1" "lastIndex (log p)"]
    unfolding n_def advanceCommitIndex_def by auto
  then have b: "n \<le> lastIndex (log p)" "termAt (log p) n = ?t" "card M div 2 + 1 \<le> replicas ?ms n"
    using n by auto
  have n0: "n \<noteq> 0" "unat n \<noteq> 0" using n by (auto simp: unat_eq_zero)
  show u: "unat n \<le> length (log p)" using b(1) len by (simp add: le_lastIndex)
  obtain Q where Q: "majority M Q"
      "\<forall>h \<in> Q. n \<le> (if h = c then lastIndex (log p) else mget (matchIndex p) h)"
    using counted_majority [OF K_node(1) [OF K] K_facts(2) [OF K] c b(3)] by blast
  have "(h, ?t, unat n) \<in> acked g" if "h \<in> Q" for h
  proof (cases "h = c")
    case True
    then show ?thesis using ld u acked_le [OF sim_inv [OF sim]] unfolding leads_def by blast
  next
    case False
    then have h: "n \<le> mget (matchIndex p) h" using Q(2) that by auto
    then have "mget (matchIndex p) h \<noteq> 0" using n0(1) by auto
    then have "(h, ?t, unat (mget (matchIndex p) h)) \<in> acked g" using ld unfolding leads_def by blast
    then show ?thesis using h acked_le [OF sim_inv [OF sim]] by (simp add: word_le_nat_alt)
  qed
  moreover have "Term (log p ! (unat n - 1)) = ?t"
    using termAt_nth [OF len n0(1) u] b(2) by simp
  ultimately have "decided M g ?t (unat n)"
    using ld u n0(2) Q(1) unfolding decided_def leads_def by auto
  then show "settled M g ?t (take (unat n) (log p))"
    using ld unfolding settled_def leads_def by auto
qed

lemma sim_maybeAdvanceCommit:
  assumes sim: "sim M g (rrun c p s)" and K: "K M c s p" and r: "role p = Leader"
    and d: "maybeAdvanceCommit p = Done q"
  shows "sim M g (rrun c q s)"
  using leader_decided [OF sim K r] sim_apply(1) [OF sim K_facts(1) [OF K]] sim d
  by (auto simp: maybeAdvanceCommit_def Let_def split: if_splits)

lemma sim_onAppendEntriesReply:
  assumes sim: "sim M g (rrun c p s)" and K: "K M c s p"
    and m: "smsg M g f c (AppendEntriesReply t mi ok)"
    and d: "onAppendEntriesReply t mi ok f p = Done q"
  shows "\<exists>h. sim M h (rrun c q s)"
proof -
  have c: "c \<in> M" using K_facts(1) [OF K] .
  note n = sim_node [OF sim c] and l = sim_log [OF sim c]
  consider "t > currentTerm p" | "\<not> t > currentTerm p" "role p \<noteq> Leader \<or> t \<noteq> currentTerm p"
    | (ack) "t = currentTerm p" "role p = Leader" "ok" | (nack) "t = currentTerm p" "role p = Leader" "\<not> ok"
    by blast
  then show ?thesis
  proof cases
    case 1
    then show ?thesis using d sim_stepDown [OF sim c] by (auto simp: onAppendEntriesReply_def)
  next
    case 2
    then show ?thesis using d sim by (auto simp: onAppendEntriesReply_def)
  next
    case nack
    let ?q = "p\<lparr>nextIndex := (nextIndex p)(f \<mapsto> mget (nextIndex p) f - 1)\<rparr>"
    have "leads g c ?q" if "mget (nextIndex p) f > 1"
    proof -
      have "mget (nextIndex p) f \<noteq> 0" using that by auto
      then have "unat (mget (nextIndex p) f - 1) \<le> unat (mget (nextIndex p) f)"
        by (simp add: unat_minus_one)
      moreover have "leads g c p" using n nack by (simp add: snode_def)
      ultimately show ?thesis unfolding leads_def by (auto simp: mget_def intro: order.trans)
    qed
    then have "mget (nextIndex p) f > 1 \<Longrightarrow> snode M g c ?q"
      using n nack by (simp add: snode_def)
    then have "mget (nextIndex p) f > 1 \<Longrightarrow> sim M g (rrun c ?q s)"
      by (intro sim_same [OF sim c, of _ "[]"]) simp_all
    then show ?thesis
      using d nack sim_sendAppendEntries [OF sim c] sim_sendAppendEntries [of M g c ?q s f] c
      by (auto simp: onAppendEntriesReply_def Let_def split: if_splits)
  next
    case ack
    let ?m = "max (mget (matchIndex p) f) mi"
    let ?q = "p\<lparr>matchIndex := (matchIndex p)(f \<mapsto> ?m), nextIndex := (nextIndex p)(f \<mapsto> ?m + 1)\<rparr>"
    have ld: "leads g c p" using n ack by (simp add: snode_def)
    have a: "(f, t, unat ?m) \<in> acked g"
    proof (cases "mget (matchIndex p) f \<le> mi")
      case True
      then show ?thesis using m ack by (simp add: max_def)
    next
      case False
      then have "mget (matchIndex p) f \<noteq> 0" by auto
      then have "(f, currentTerm p, unat (mget (matchIndex p) f)) \<in> acked g"
        using ld unfolding leads_def by blast
      with False ack(1) show ?thesis by (simp add: max_def)
    qed
    then have "unat ?m \<le> length (log p)"
      using sim_inv [OF sim] ld ack(1) unfolding sinv_def ack_inv_def leads_def by metis
    moreover from this have "?m \<noteq> - 1" using l(2) by (auto simp: slice_ok_def unat_max64)
    ultimately have "unat (?m + 1) \<le> length (log p) + 1" by (simp add: unat_add_one)
    then have "leads g c ?q" using ld a ack(1) by (auto simp: leads_def mget_def)
    then have "snode M g c ?q" using n ack by (simp add: snode_def)
    then have S: "sim M g (rrun c ?q s)"
      by (intro sim_same [OF sim c, of _ "[]"]) simp_all
    have Kq: "K M c s ?q" using K_volatile(3) [OF K_volatile(4) [OF K]] by simp
    have "maybeAdvanceCommit ?q = Done q"
      using d ack by (simp add: onAppendEntriesReply_def Let_def mget_def)
    then have "sim M g (rrun c q s)"
      using ack(2) by (intro sim_maybeAdvanceCommit [OF S Kq]) simp_all
    then show ?thesis by blast
  qed
qed

subsection \<open>Proposals\<close>

lemma sim_append:
  assumes sim: "sim M g (rrun c p s)" and c: "c \<in> M" and r: "role p = Leader"
    and e: "Term e = currentTerm p" "slice_ok (log p @ [e])"
  shows "\<exists>h. sim M h (rrun c (raft_store (SaveEntries i [e]) (p\<lparr>log := log p @ [e]\<rparr>)) s)"
proof -
  let ?t = "currentTerm p" and ?q = "raft_store (SaveEntries i [e]) (p\<lparr>log := log p @ [e]\<rparr>)"
  note l = sim_log [OF sim c] and n = sim_node [OF sim c]
  have ld: "leads g c p" using n r by (simp add: snode_def)
  let ?h = "g\<lparr>slog := (slog g)(c := log p @ [e]), glog := (glog g)(?t := log p @ [e]),
    acked := acked g \<union> acks c ?t (length (log p @ [e]))\<rparr>"
  have "sstep M c g ?h"
    using extend [of g c e M] ld l(3,4) e by (simp add: leads_def)
  note h = sim_grows [OF sim this]
  have "settled M ?h ?t (take (unat (commitIndex p)) (log p))"
    by (rule grows_settled [OF sim_inv [OF sim]]) (use n h in \<open>auto simp: snode_def\<close>)
  moreover have "leads ?h c (p\<lparr>log := log p @ [e]\<rparr>)"
    using ld by (auto simp: leads_def acks_def intro: le_SucI)
  ultimately have "snode M ?h c (p\<lparr>log := log p @ [e]\<rparr>)" using n r by (simp add: snode_def)
  moreover have "rcore ?q = rcore (p\<lparr>log := log p @ [e]\<rparr>)" by (simp add: rcore_def raft_store_def)
  ultimately have "snode M ?h c ?q" using snode_core by blast
  moreover have "winner ?h t = Some c \<Longrightarrow> winner g t \<noteq> None" for t by simp
  ultimately have "sim M ?h (rrun c ?q s)"
    using h by (intro sim_step [OF sim c, of ?h _ "[Stored (SaveEntries i [e])]"])
      (auto simp: raft_store_def emit_def)
  then show ?thesis by blast
qed

lemma sim_propose:
  assumes sim: "sim M g (rrun c p s)" and K: "K M c s p" and len: "length (log p) + 1 < 2 ^ 63"
  shows "\<exists>h. sim M h (rrun c (final (raft_handlePropose cmd p)) s)"
proof (cases "role p = Leader")
  case False
  then show ?thesis
    using sim_answer [OF sim K_facts(1) [OF K]] by (auto simp: raft_handlePropose_def)
next
  case True
  let ?e = "LogEntry (currentTerm p) cmd"
  let ?q = "raft_store (SaveEntries (lastIndex (log p @ [?e])) [?e]) (p\<lparr>log := log p @ [?e]\<rparr>)"
  have c: "c \<in> M" using K_facts(1) [OF K] .
  obtain h where h: "sim M h (rrun c ?q s)"
    using sim_append [OF sim c True, of ?e] len by (auto simp: slice_ok_def)
  have Kq: "K M c s ?q" using K True len by (rule K_proposed)
  obtain q where q: "maybeAdvanceCommit ?q = Done q"
    using maybeAdvanceCommit_Done K_node(3) [OF Kq] by blast
  have rq: "role ?q = Leader" using True by (simp add: raft_store_def)
  have "sim M h (rrun c (broadcastAppendEntries (raft_answer
      (RaftProposeReply (lastIndex (log p @ [?e])) (currentTerm q)) q)) s)"
    using sim_maybeAdvanceCommit [OF h Kq rq q] K_maybeAdvanceCommit(3) [OF Kq q] rq c
    by (intro sim_broadcast sim_answer) (simp_all add: raft_answer_def)
  then show ?thesis
    using True q by (auto simp: raft_handlePropose_def logAppend_def Let_def)
qed

subsection \<open>Every event is simulated\<close>

lemma sim_deliver:
  assumes sim: "sim M g (rrun c p s)" and K: "K M c s p" and m: "(f, c, m) \<in> net s"
  shows "\<exists>h. sim M h (rrun c (final (raft_handle m f p)) s)"
proof -
  have c: "c \<in> M" using K_facts(1) [OF K] .
  have ok: "msg_ok M (rrun c p s) f c m" using K_facts(4) [OF K m] .
  have sm: "smsg M g f c m" using sim m unfolding sim_def by auto
  show ?thesis
  proof (cases m)
    case (RequestVote t li lt)
    then show ?thesis using sim_onRequestVote [OF sim c] sm by simp
  next
    case (RequestVoteReply t b)
    then show ?thesis using sim_onRequestVoteReply [OF sim K] ok by simp
  next
    case (AppendEntries t pi pt lc es)
    then have es: "slice_ok es" using ok by simp
    obtain q where "onAppendEntries t pi pt lc es f p = Done q"
      using onAppendEntries_Done [OF K_node(3) [OF K] es] by blast
    then show ?thesis using sim_onAppendEntries [OF sim c _ es] sm AppendEntries by simp
  next
    case (AppendEntriesReply t mi b)
    obtain q where "onAppendEntriesReply t mi b f p = Done q"
      using raft_handle_Done [OF K_node(3) [OF K], of m f] AppendEntriesReply
      by (auto simp: slice_ok_def)
    then show ?thesis using sim_onAppendEntriesReply [OF sim K] sm AppendEntriesReply by simp
  qed
qed

lemma sim_ensureConnections:
  assumes "sim M g (rrun c p s)" "c \<in> M"
  shows "sim M g (rrun c (raft_ensureConnections p) s)"
  unfolding raft_ensureConnections_eq
  by (rule sim_core [OF assms, where es = "map Connects (filter (\<lambda>h. h \<notin> sessions p) (peers p))"])
    (auto simp: rcore_def)

lemma sim_timer:
  assumes sim: "sim M g (rrun c p s)" and K: "K M c s p"
    and t: "t \<in> set (pending (ctx p))" "currentTerm p \<noteq> - 1"
  shows "\<exists>h. sim M h (rrun c (raft_callback (tfn t) (p\<lparr>ctx := fire t (ctx p)\<rparr>)) s)"
proof -
  let ?p = "p\<lparr>ctx := fire t (ctx p)\<rparr>"
  have c: "c \<in> M" using K_facts(1) [OF K] .
  have S: "sim M g (rrun c ?p s)"
    using sim c by (rule sim_core [where es = "[]"]) (simp_all add: rcore_def fire_def)
  have K1: "K M c s ?p"
    using K_node(1,2) [OF K]
    by (intro K_quiet [OF K, of _ "[]"])
      (auto simp: fire_def rpersisted_def rmember_ok_def beats_def)
  show ?thesis
  proof (cases "tfn t")
    case OnElectionTimeout
    then show ?thesis
      using S sim_startElection [OF S K1] t(2) by (auto simp: onElectionTimeout_def)
  next
    case BroadcastAppendEntries
    then have "role ?p = Leader" using K_node(2) [OF K] t(1) by (auto simp: beats_def)
    then show ?thesis using sim_broadcast [OF S c] BroadcastAppendEntries by auto
  next
    case RaftEnsureConnections
    then show ?thesis using sim_ensureConnections [OF S c] by auto
  qed
qed

lemma commitIndex_Init: "commitIndex (raft_Init pcg st (raft_New h k ce)) = 0"
  by (simp add: raft_Init_def raft_ensureConnections_eq raft_New_def Let_def split_beta)

lemma snode_Init:
  assumes "trm g h = CurrentTerm st" "slog g h = Log st"
  shows "snode M g h (raft_Init pcg st (raft_New h k ce))"
proof -
  let ?p = "raft_Init pcg st (raft_New h k ce)"
  have "currentTerm ?p = CurrentTerm (rpersisted ?p)" "log ?p = Log (rpersisted ?p)"
    by (simp_all add: rpersisted_def)
  then show ?thesis
    using assms by (simp add: snode_def settled_def commitIndex_Init Init_facts)
qed

lemma sim_restart:
  assumes sim: "sim M g (rrun c p s)" and c: "c \<in> M" and o: "out (ctx p) = []"
    and st: "st = rpersisted p"
  shows "sim M g (rrun c (raft_Init pcg st (raft_New c (conf c) ce)) s)"
proof -
  let ?es = "map Connects (peers (raft_New c (conf c) ce))"
  have "snode M g c (raft_Init pcg st (raft_New c (conf c) ce))"
    using sim_log(3,4) [OF sim c] st by (intro snode_Init) (simp_all add: rpersisted_def)
  then show ?thesis
    by (intro sim_same [OF sim c, of _ ?es]) (auto simp: Init_facts o)
qed

lemma sim_start: "sim M sinit (raft_start pcg ce conf)"
proof -
  have "snode M sinit a (raft_Init pcg (raft_Load raft_NewMemoryStorage) (raft_New a (conf a) ce))" for a
    by (rule snode_Init) (simp_all add: sinit_def raft_NewMemoryStorage_def)
  then show ?thesis
    by (auto simp: sim_def sreach_init raft_start_def rvoted_def) (simp add: sinit_def)
qed

lemma sim_volatile:
  assumes "sim M g (rrun c p s)" "c \<in> M"
  shows "sim M g (rrun c (p\<lparr>sessions := S\<rparr>) s)"
  using assms by (rule sim_core [where es = "[]"]) (simp_all add: rcore_def)

text \<open>The group refines the machine.\<close>

lemma raft_reach_sim:
  assumes "raft_reach M pcg ce conf s" and grp: "raft_group M conf"
  shows "\<exists>g. sim M g s"
  using assms(1)
proof induction
  case start
  show ?case using sim_start by blast
next
  case (deliver s h f m)
  note i = raft_reach_inv [OF deliver(1) grp]
  then have "K M h s (nodes s h)" "rrun h (nodes s h) s = s"
    using deliver(2) by (simp_all add: K_idle rrun_idle)
  with deliver show ?case using sim_deliver by metis
next
  case (propose s h cmd)
  note i = raft_reach_inv [OF propose(1) grp]
  then have "K M h s (nodes s h)" "rrun h (nodes s h) s = s"
    using propose(2) by (simp_all add: K_idle rrun_idle)
  with propose show ?case using sim_propose by metis
next
  case (timer s h t)
  note i = raft_reach_inv [OF timer(1) grp]
  then have "K M h s (nodes s h)" "rrun h (nodes s h) s = s"
    using timer(2) by (simp_all add: K_idle rrun_idle)
  with timer show ?case using sim_timer by metis
next
  case (debug s h)
  then have "rrun h (nodes s h) s = s"
    using raft_reach_inv [OF debug(1) grp] by (simp add: rrun_idle)
  with debug show ?case using sim_answer unfolding raft_handleDebugState_def by metis
next
  case (connected s h f)
  then have "rrun h (nodes s h) s = s"
    using raft_reach_inv [OF connected(1) grp] by (simp add: rrun_idle)
  with connected show ?case using sim_volatile unfolding raft_OnSessionConnected_def by metis
next
  case (disconnected s h f)
  then have "rrun h (nodes s h) s = s"
    using raft_reach_inv [OF disconnected(1) grp] by (simp add: rrun_idle)
  with disconnected show ?case using sim_volatile unfolding raft_OnSessionDisconnected_def by metis
next
  case (givenUp s h f)
  then have "rrun h (nodes s h) s = s"
    using raft_reach_inv [OF givenUp(1) grp] by (simp add: rrun_idle)
  with givenUp show ?case using sim_volatile unfolding raft_OnSessionGivenUp_def by metis
next
  case (restart s h)
  note i = raft_reach_inv [OF restart(1) grp]
  then have "out (ctx (nodes s h)) = []" "raft_Load (disk s h) = rpersisted (nodes s h)"
    using restart(2) unfolding rinv_def by blast+
  with restart show ?case using sim_restart rrun_idle by metis
qed

end
