(* ===== verification/Raft_Safety.thy ===== *)
theory Raft_Safety
  imports Raft_Cluster
begin

text \<open>
  What a group of \<open>Raft_Cluster\<close> guarantees, and a run of two servers in which \<open>a:1\<close> times out,
  gets the vote of \<open>a:2\<close> and becomes the leader of term 1.
\<close>

subsection \<open>A run of two servers\<close>

definition rxA :: Host where "rxA = Host 1 ''a''"
definition rxB :: Host where "rxB = Host 2 ''a''"

definition rxConf :: "Host \<Rightarrow> RaftConfig" where
  "rxConf h = \<lparr>rPeers = [rxA, rxB], HeartbeatInterval = 0, ElectionTimeoutMin = 0,
     ElectionTimeoutMax = 0, rReconnectInterval = 0\<rparr>"

definition rxPCG :: "uint64 \<Rightarrow> uint64 \<Rightarrow> nat stream" where
  "rxPCG a b = sconst 0"

definition rxStart :: rgroup where
  "rxStart = raft_start rxPCG (\<lambda>_. False) rxConf"

definition rxTimer :: "raft_cb timer" where
  "rxTimer = Timer 2 150000000 False OnElectionTimeout"

definition rx1 :: rgroup where
  "rx1 = rrun rxA (raft_callback (tfn rxTimer)
     ((nodes rxStart rxA)\<lparr>ctx := fire rxTimer (ctx (nodes rxStart rxA))\<rparr>)) rxStart"

definition rx2 :: rgroup where
  "rx2 = rrun rxB (final (raft_handle (RequestVote 1 0 0) rxA (nodes rx1 rxB))) rx1"

definition rx3 :: rgroup where
  "rx3 = rrun rxA (final (raft_handle (RequestVoteReply 1 True) rxB (nodes rx2 rxA))) rx2"

lemma rx_hosts [simp]:
  "rxA \<noteq> rxB" "rxB \<noteq> rxA" "rxA < rxB" "\<not> rxB < rxA" "rxA \<le> rxB" "\<not> rxB \<le> rxA"
  by (simp_all add: rxA_def rxB_def less_eq_Host_def less_Host_def hostLess_def)

lemma rx_group: "raft_group {rxA, rxB} rxConf"
  by (auto simp: raft_group_def rxConf_def)

lemmas raft_boot = rxStart_def raft_start_def raft_Init_def raft_New_def rxConf_def
  raft_fillDefaults_def raft_ensureConnections_eq every_def newCtx_def newRaftLog_def
  resetElectionTimer_def randomElectionTimeout_def IntN_def after_def cancel_def rclear_def
  raft_NewMemoryStorage_def rxPCG_def durOr_def millisecond_def wrap64_def Let_def split_beta

lemmas raft_handlers = startElection_def onElectionTimeout_def clearLeader_def persistTerm_def
  raft_store_def raft_send_def emit_def onRequestVote_def onRequestVoteReply_def
  wonElection_def lastIndex_def lastTerm_def logIsUpToDate_def becomeLeader_def setLeader_def
  raft_publish_def broadcastAppendEntries_def sendAppendEntries_def every_def rclear_def fire_def
  Let_def

lemma rx_startA:
  "currentTerm (nodes rxStart rxA) = 0" "role (nodes rxStart rxA) = Follower"
  "self (nodes rxStart rxA) = rxA" "peers (nodes rxStart rxA) = [rxB]" "log (nodes rxStart rxA) = []"
  "out (ctx (nodes rxStart rxA)) = []" "commitIndex (nodes rxStart rxA) = 0" "rxTimer \<in> set (pending (ctx (nodes rxStart rxA)))"
  by (simp_all add: raft_boot rxTimer_def)

lemma rx_startB:
  "currentTerm (nodes rxStart rxB) = 0" "hasVoted (nodes rxStart rxB) = False"
  "log (nodes rxStart rxB) = []" "out (ctx (nodes rxStart rxB)) = []"
  by (simp_all add: raft_boot)

lemma rx_step1:
  "currentTerm (nodes rx1 rxA) = 1" "role (nodes rx1 rxA) = Candidate" "self (nodes rx1 rxA) = rxA"
  "votesGranted (nodes rx1 rxA) = {rxA}" "hasLeader (nodes rx1 rxA) = False"
  "peers (nodes rx1 rxA) = [rxB]" "log (nodes rx1 rxA) = []" "out (ctx (nodes rx1 rxA)) = []"
  "nodes rx1 rxB = nodes rxStart rxB" "(rxA, rxB, RequestVote 1 0 0) \<in> net rx1"
  "commitIndex (nodes rx1 rxA) = 0"
  by (simp_all add: rx1_def rx_startA raft_handlers rxTimer_def)

lemma rx_step2:
  "nodes rx2 rxA = nodes rx1 rxA" "(rxB, rxA, RequestVoteReply 1 True) \<in> net rx2"
  "log (final (raft_handle (RequestVote 1 0 0) rxA (nodes rx1 rxB))) = []"
  by (simp_all add: rx2_def rx_step1 rx_startB raft_handlers)

lemma rx_step3:
  "(rxA, LeaderChanged rxA 1) \<in> notices rx3" "role (nodes rx3 rxA) = Leader"
  "currentTerm (nodes rx3 rxA) = 1" "(rxA, rxB, AppendEntries 1 0 0 0 []) \<in> net rx3"
  "log (final (raft_handle (RequestVoteReply 1 True) rxB (nodes rx2 rxA))) = []"
  by (simp_all add: rx3_def rx_step1 rx_step2 raft_handlers mget_def termAt_def sliceFrom_def)

lemma rx_reach: "raft_reach {rxA, rxB} rxPCG (\<lambda>_. False) rxConf rx3"
proof -
  have "raft_reach {rxA, rxB} rxPCG (\<lambda>_. False) rxConf rx1"
    unfolding rx1_def rxStart_def
    by (rule raft_reach.timer [OF raft_reach.start])
      (use rx_startA in \<open>simp_all add: rxStart_def\<close>)
  from raft_reach.deliver [OF this _ rx_step1(10)]
  have "raft_reach {rxA, rxB} rxPCG (\<lambda>_. False) rxConf rx2"
    using rx_step2(3) by (simp add: rx2_def slice_ok_def)
  from raft_reach.deliver [OF this _ rx_step2(2)] show ?thesis
    using rx_step3(5) by (simp add: rx3_def slice_ok_def)
qed

subsection \<open>What the group guarantees\<close>

text \<open>
  C3. Election Safety: over a lossy, duplicating, reordering network with restarts, any two
  \<open>LeaderChanged\<close> notifications of the same term, on whatever servers, name the same leader.
\<close>

theorem raft_election_safety:
  assumes "raft_reach M pcg ce conf s" "raft_group M conf"
    and "(a, LeaderChanged l t) \<in> notices s" "(b, LeaderChanged l' t) \<in> notices s"
  shows "l = l'"
proof -
  have i: "rinv M s" using raft_reach_inv [OF assms(1,2)] by blast
  then have "note_ok M s (LeaderChanged l t)" "note_ok M s (LeaderChanged l' t)"
    using assms(3,4) unfolding rinv_def by blast+
  then have "elected M s l t" "elected M s l' t" by simp_all
  with i show ?thesis by (rule rinv_elected_unique)
qed

theorem raft_election_safety_witness:
  "{l. \<exists>b. (b, LeaderChanged l 1) \<in> notices rx3} = {rxA}"
  using raft_election_safety [OF rx_reach rx_group _ rx_step3(1)] rx_step3(1) by blast

text \<open>
  Authority: whoever sends an \<open>AppendEntries\<close> of a term, now or earlier, is the server that
  every \<open>LeaderChanged\<close> notification of that term names.
\<close>

theorem raft_authority:
  assumes "raft_reach M pcg ce conf s" "raft_group M conf"
    and "(a, d, AppendEntries t pi pt lc es) \<in> net s" "(b, LeaderChanged l t) \<in> notices s"
  shows "a = l"
proof -
  have i: "rinv M s" using raft_reach_inv [OF assms(1,2)] by blast
  then have "msg_ok M s a d (AppendEntries t pi pt lc es)" "note_ok M s (LeaderChanged l t)"
    using assms(3,4) unfolding rinv_def by blast+
  then have "elected M s a t" "elected M s l t" by simp_all
  with i show ?thesis by (rule rinv_elected_unique)
qed

theorem raft_authority_witness:
  "{l. \<exists>b. (b, LeaderChanged l 1) \<in> notices rx3} \<subseteq> {rxA}"
  using raft_authority [OF rx_reach rx_group rx_step3(4)] by blast

text \<open>
  At most one leader per term: two servers that are in the role \<open>Leader\<close> in the same term at the
  same time are one server.
\<close>

theorem raft_one_leader:
  assumes "raft_reach M pcg ce conf s" "raft_group M conf" "a \<in> M" "b \<in> M"
    and "role (nodes s a) = Leader" "role (nodes s b) = Leader"
    and "currentTerm (nodes s a) = currentTerm (nodes s b)"
  shows "a = b"
proof -
  have i: "rinv M s" using raft_reach_inv [OF assms(1,2)] by blast
  then have "node_ok M s a (nodes s a)" "node_ok M s b (nodes s b)"
    using assms(3,4) unfolding rinv_def by blast+
  then have "elected M s a (currentTerm (nodes s a))" "elected M s b (currentTerm (nodes s a))"
    using assms(5-7) by (simp_all add: node_ok_def)
  with i show ?thesis by (rule rinv_elected_unique)
qed

theorem raft_one_leader_witness:
  "{b \<in> {rxA, rxB}. role (nodes rx3 b) = Leader \<and>
      currentTerm (nodes rx3 b) = currentTerm (nodes rx3 rxA)} = {rxA}"
  using raft_one_leader [OF rx_reach rx_group, of rxA rxB] rx_step3(2) by auto

text \<open>
  Durability: between two events the storage of a server holds exactly its term, vote and log,
  so a restart loses none of them.
\<close>

theorem raft_durable:
  assumes "raft_reach M pcg ce conf s" "raft_group M conf" "h \<in> M"
  shows "raft_Load (disk s h) = rpersisted (nodes s h)"
  using raft_reach_inv [OF assms(1,2)] assms(3) unfolding rinv_def by blast

theorem raft_durable_witness: "raft_Load (disk rx3 rxA) = rpersisted (nodes rx3 rxA)"
  by (rule raft_durable [OF rx_reach rx_group]) simp

text \<open>
  Votes: a server grants a vote exactly when the candidate's term is current or newer, the
  server has not voted for another in that term and the candidate's log is at least as up to date;
  the new term and the vote reach the storage before the reply is sent.
\<close>

theorem onRequestVote_effects:
  "out (ctx (onRequestVote t li lt f p)) =
     (let grant = (currentTerm p \<le> t \<and> (currentTerm p < t \<or> hasVoted p = False \<or> votedFor p = f) \<and>
            logIsUpToDate lt li (lastTerm (log p)) (lastIndex (log p)))
      in out (ctx p)
         @ (if currentTerm p < t then [Stored (SaveTerm t zeroHost False)] else [])
         @ (if grant then [Stored (SaveTerm t f True)] else [])
         @ [Sent (RequestVoteReply (max t (currentTerm p)) grant) f])"
  by (auto simp: onRequestVote_def Let_def raft_send_def emit_def persistTerm_def raft_store_def
      max_def)

end
