(* ===== verification/Raft_Replication.thy ===== *)
theory Raft_Replication
  imports Raft_Refinement Raft_Safety
begin

text \<open>
  What the refinement gives the group of \<open>Raft_Cluster\<close>: log matching, leader completeness and
  state machine safety, with a run of two servers in which \<open>a:1\<close> is elected, commits an entry and
  both apply it.
\<close>

subsection \<open>The run goes on\<close>

definition rxE :: LogEntry where "rxE = LogEntry 1 [7]"
definition rxF :: LogEntry where "rxF = LogEntry 1 [8]"

definition rx4 :: rgroup where
  "rx4 = rrun rxA (final (raft_handlePropose [7] (nodes rx3 rxA))) rx3"

definition rx5 :: rgroup where
  "rx5 = rrun rxB (final (raft_handle (AppendEntries 1 0 0 0 [rxE]) rxA (nodes rx4 rxB))) rx4"

definition rx6 :: rgroup where
  "rx6 = rrun rxA (final (raft_handle (AppendEntriesReply 1 1 True) rxB (nodes rx5 rxA))) rx5"

definition rx7 :: rgroup where
  "rx7 = rrun rxA (final (raft_handlePropose [8] (nodes rx6 rxA))) rx6"

definition rx8 :: rgroup where
  "rx8 = rrun rxB (final (raft_handle (AppendEntries 1 1 1 1 [rxF]) rxA (nodes rx7 rxB))) rx7"

lemmas raft_replies = raft_handlePropose_def onAppendEntries_heardLeader onAppendEntriesReply_def
  maybeAdvanceCommit_def advanceCommitIndex_def logAppend_def appendConflictFree_def
  raft_answer_def mget_def termAt_def sliceFrom_def replicas_def

lemma rx_volatile:
  "lastApplied (nodes rxStart rxA) = 0" "commitIndex (nodes rxStart rxB) = 0"
  "lastApplied (nodes rxStart rxB) = 0"
  by (simp_all add: raft_boot)

lemma rx1_A: "lastApplied (nodes rx1 rxA) = 0"
  by (simp add: rx1_def rx_startA rx_volatile rxTimer_def raft_handlers)

lemma rx3_A:
  "peers (nodes rx3 rxA) = [rxB]" "log (nodes rx3 rxA) = []" "commitIndex (nodes rx3 rxA) = 0"
  "nextIndex (nodes rx3 rxA) = [rxB \<mapsto> 1]" "matchIndex (nodes rx3 rxA) = [rxB \<mapsto> 0]"
  "lastApplied (nodes rx3 rxA) = 0" "out (ctx (nodes rx3 rxA)) = []"
  "nodes rx3 rxB = nodes rx2 rxB"
  by (simp_all add: rx3_def rx_step1 rx_step2 rx1_A raft_handlers)

lemma rx2_B:
  "currentTerm (nodes rx2 rxB) = 1" "log (nodes rx2 rxB) = []" "commitIndex (nodes rx2 rxB) = 0"
  "lastApplied (nodes rx2 rxB) = 0" "out (ctx (nodes rx2 rxB)) = []"
  by (simp_all add: rx2_def rx_step1 rx_startB rx_volatile raft_handlers)

lemma rx4_A:
  "currentTerm (nodes rx4 rxA) = 1" "role (nodes rx4 rxA) = Leader" "log (nodes rx4 rxA) = [rxE]"
  "commitIndex (nodes rx4 rxA) = 0" "lastApplied (nodes rx4 rxA) = 0" "peers (nodes rx4 rxA) = [rxB]"
  "nextIndex (nodes rx4 rxA) = [rxB \<mapsto> 1]" "matchIndex (nodes rx4 rxA) = [rxB \<mapsto> 0]"
  "out (ctx (nodes rx4 rxA)) = []" "(rxA, rxB, AppendEntries 1 0 0 0 [rxE]) \<in> net rx4"
  "nodes rx4 rxB = nodes rx2 rxB"
  by (simp_all add: rx4_def rx3_A rx_step3 raft_handlers raft_replies commitLoop.simps rxE_def)

lemma rx5_B:
  "currentTerm (nodes rx5 rxB) = 1" "log (nodes rx5 rxB) = [rxE]" "commitIndex (nodes rx5 rxB) = 0"
  "lastApplied (nodes rx5 rxB) = 0" "out (ctx (nodes rx5 rxB)) = []"
  "(rxB, rxA, AppendEntriesReply 1 1 True) \<in> net rx5" "nodes rx5 rxA = nodes rx4 rxA"
  "log (final (raft_handle (AppendEntries 1 0 0 0 [rxE]) rxA (nodes rx4 rxB))) = [rxE]"
  by (simp_all add: rx5_def rx4_A rx2_B raft_replies heardLeader_def setLeader_def raft_handlers rxE_def)

lemma rx6_A:
  "currentTerm (nodes rx6 rxA) = 1" "role (nodes rx6 rxA) = Leader" "log (nodes rx6 rxA) = [rxE]"
  "commitIndex (nodes rx6 rxA) = 1" "lastApplied (nodes rx6 rxA) = 1" "peers (nodes rx6 rxA) = [rxB]"
  "nextIndex (nodes rx6 rxA) = [rxB \<mapsto> 2]" "matchIndex (nodes rx6 rxA) = [rxB \<mapsto> 1]"
  "out (ctx (nodes rx6 rxA)) = []" "(rxA, Applied 1 1 [7]) \<in> notices rx6"
  "nodes rx6 rxB = nodes rx5 rxB"
  "log (final (raft_handle (AppendEntriesReply 1 1 True) rxB (nodes rx5 rxA))) = [rxE]"
  by (simp_all add: rx6_def rx4_A rx5_B raft_handlers raft_replies commitLoop.simps applyCommitted.simps
      logAt_def rxE_def)

lemma two_not_le_one [simp]: "\<not> (2 :: uint64) \<le> 1"
  by (simp add: word_le_nat_alt)

lemma rx7_A:
  "currentTerm (nodes rx7 rxA) = 1" "role (nodes rx7 rxA) = Leader" "log (nodes rx7 rxA) = [rxE, rxF]"
  "(rxA, rxB, AppendEntries 1 1 1 1 [rxF]) \<in> net rx7" "nodes rx7 rxB = nodes rx5 rxB"
  "(rxA, Applied 1 1 [7]) \<in> notices rx7" "commitIndex (nodes rx7 rxA) = 1"
  by (simp_all add: rx7_def rx6_A raft_handlers raft_replies commitLoop.simps rxE_def rxF_def)

lemma rx8_B:
  "(rxB, Applied 1 1 [7]) \<in> notices rx8" "(rxA, Applied 1 1 [7]) \<in> notices rx8"
  "currentTerm (nodes rx8 rxB) = 1" "log (nodes rx8 rxB) = [rxE, rxF]" "nodes rx8 rxA = nodes rx7 rxA"
  "commitIndex (nodes rx8 rxB) = 1"
  "log (final (raft_handle (AppendEntries 1 1 1 1 [rxF]) rxA (nodes rx7 rxB))) = [rxE, rxF]"
  by (simp_all add: rx8_def rx5_B rx7_A raft_replies heardLeader_def setLeader_def raft_handlers
      applyCommitted.simps logAt_def rxE_def rxF_def)

lemma rx8_reach: "raft_reach {rxA, rxB} rxPCG (\<lambda>_. False) rxConf rx8"
proof -
  let ?R = "raft_reach {rxA, rxB} rxPCG (\<lambda>_. False) rxConf"
  have "?R rx4"
    unfolding rx4_def by (rule raft_reach.propose [OF rx_reach]) (simp_all add: rx3_A)
  from raft_reach.deliver [OF this _ rx4_A(10)] have "?R rx5"
    using rx5_B(8) by (simp add: rx5_def slice_ok_def)
  from raft_reach.deliver [OF this _ rx5_B(6)] have "?R rx6"
    using rx6_A(12) by (simp add: rx6_def slice_ok_def)
  then have "?R rx7"
    unfolding rx7_def by (rule raft_reach.propose) (simp_all add: rx6_A)
  from raft_reach.deliver [OF this _ rx7_A(4)] show "?R rx8"
    using rx8_B(7) by (simp add: rx8_def slice_ok_def)
qed

subsection \<open>What the group guarantees\<close>

text \<open>
  C6. Refinement: every state of the group, over a lossy, duplicating, reordering network with
  restarts, is the state of a run of the abstract machine with the same terms and logs, in which
  what each member has committed is settled.
\<close>

theorem raft_refines_spec:
  assumes "raft_reach M pcg ce conf s" "raft_group M conf"
  shows "\<exists>g. sreach M g \<and> (\<forall>a \<in> M. trm g a = currentTerm (nodes s a) \<and> slog g a = log (nodes s a) \<and>
    settled M g (currentTerm (nodes s a)) (take (unat (commitIndex (nodes s a))) (log (nodes s a))))"
proof -
  obtain g where "sim M g s" using raft_reach_sim [OF assms] by blast
  then show ?thesis by (intro exI [of _ g]) (simp add: sim_def snode_def)
qed

theorem raft_refines_spec_witness:
  "\<exists>g. sreach {rxA, rxB} g \<and> slog g rxB = [rxE, rxF] \<and> settled {rxA, rxB} g 1 [rxE]"
  using raft_refines_spec [OF rx8_reach rx_group] rx8_B by force

text \<open>
  C2. State Machine Safety: if two servers tell their applications of the entry at the same index, at
  whatever time, they tell of the same entry.
\<close>

theorem raft_state_machine_safety:
  assumes "raft_reach M pcg ce conf s" "raft_group M conf"
    and "(a, Applied i t cmd) \<in> notices s" "(b, Applied i t' cmd') \<in> notices s"
  shows "t = t' \<and> cmd = cmd'"
proof -
  obtain g where g: "sim M g s" using raft_reach_sim [OF assms(1,2)] by blast
  then have "snote M g (Applied i t cmd)" "snote M g (Applied i t' cmd')"
    using assms(3,4) unfolding sim_def by blast+
  then obtain T l T' l' where l: "settled M g T l" "unat i \<le> length l" "l ! (unat i - 1) = LogEntry t cmd"
      "settled M g T' l'" "unat i \<le> length l'" "l' ! (unat i - 1) = LogEntry t' cmd'" and i: "i \<noteq> 0"
    by auto
  have "unat i \<noteq> 0" using i by (simp add: unat_eq_zero)
  moreover have "prefix l l' \<or> prefix l' l" by (rule settled_agree [OF sim_inv [OF g] l(1,4)])
  ultimately have "l ! (unat i - 1) = l' ! (unat i - 1)"
    using l(2,5) by (auto simp: prefix_def nth_append)
  then show ?thesis using l(3,6) by simp
qed

theorem raft_state_machine_safety_witness:
  "{e. \<exists>a t cmd. (a, Applied 1 t cmd) \<in> notices rx8 \<and> e = (t, cmd)} = {(1, [7])} \<and>
   (rxA, Applied 1 1 [7]) \<in> notices rx8 \<and> (rxB, Applied 1 1 [7]) \<in> notices rx8"
  using raft_state_machine_safety [OF rx8_reach rx_group _ rx8_B(1)] rx8_B(1,2) by blast

text \<open>
  C15. Log Matching: two logs whose entries at one index have the same term are equal up to that index.
\<close>

theorem raft_log_matching:
  assumes "raft_reach M pcg ce conf s" "raft_group M conf" "a \<in> M" "b \<in> M"
    and "k < length (log (nodes s a))" "k < length (log (nodes s b))"
    and "Term (log (nodes s a) ! k) = Term (log (nodes s b) ! k)"
  shows "take (Suc k) (log (nodes s a)) = take (Suc k) (log (nodes s b))"
proof -
  obtain g where g: "sim M g s" using raft_reach_sim [OF assms(1,2)] by blast
  then have "historic g (log (nodes s h))" if "h \<in> M" for h
    using that sim_inv [OF g] unfolding sim_def snode_def sinv_def log_inv_def by metis
  then show ?thesis using historic_match assms(3-) by blast
qed

theorem raft_log_matching_witness: "take (Suc 1) (log (nodes rx8 rxA)) = take (Suc 1) (log (nodes rx8 rxB))"
  by (rule raft_log_matching [OF rx8_reach rx_group]) (simp_all add: rx8_B rx7_A)

text \<open>
  C5. Leader Completeness: a leader whose term is not behind any member's holds every entry that any
  server has ever applied, at the index at which it was applied.
\<close>

theorem raft_leader_completeness:
  assumes "raft_reach M pcg ce conf s" "raft_group M conf" "(a, Applied i t cmd) \<in> notices s"
    and "h \<in> M" "role (nodes s h) = Leader" "\<forall>b \<in> M. currentTerm (nodes s b) \<le> currentTerm (nodes s h)"
  shows "logAt (log (nodes s h)) i = Some (LogEntry t cmd)"
proof -
  let ?p = "nodes s h"
  obtain g where g: "sim M g s" using raft_reach_sim [OF assms(1,2)] by blast
  note inv = sim_inv [OF g]
  have "snote M g (Applied i t cmd)" using g assms(3) unfolding sim_def by blast
  then obtain T l where l: "settled M g T l" "i \<noteq> 0" "unat i \<le> length l" "l ! (unat i - 1) = LogEntry t cmd"
    by auto
  then have u: "unat i \<noteq> 0" by (simp add: unat_eq_zero)
  have n: "snode M g b (nodes s b)" if "b \<in> M" for b using g that by (simp add: sim_def)
  then have ld: "winner g (currentTerm ?p) \<noteq> None" "log ?p = glog g (currentTerm ?p)"
    using assms(4,5) by (auto simp: snode_def leads_def)
  obtain u' n' where d: "decided M g u' n'" "prefix l (take n' (glog g u'))"
    using l u unfolding settled_def by auto
  then obtain Q where Q: "majority M Q" "\<forall>q \<in> Q. (q, u', n') \<in> acked g" by (auto simp: decided_def)
  then obtain q where q: "q \<in> Q" "q \<in> M" using maj.quorum_nonempty unfolding majority_def by blast
  have "u' \<le> trm g q" using Q(2) q(1) inv unfolding sinv_def ack_inv_def by blast
  also have "trm g q = currentTerm (nodes s q)" using n [OF q(2)] by (simp add: snode_def)
  also have "\<dots> \<le> currentTerm ?p" using assms(6) q(2) by blast
  finally have "prefix l (log ?p)"
    using decided_glog [OF inv d(1) ld(1)] d(2) ld(2) prefix_order.trans by metis
  then have "i - 1 < i" "unat (i - 1) < length (log ?p)" "log ?p ! (unat i - 1) = LogEntry t cmd"
    using l(2-4) u by (auto simp: prefix_def nth_append unat_minus_one word_less_nat_alt)
  then show ?thesis using l(2) by (simp add: logAt_def unat_minus_one)
qed

theorem raft_leader_completeness_witness: "logAt (log (nodes rx8 rxA)) 1 = Some (LogEntry 1 [7])"
  by (rule raft_leader_completeness [OF rx8_reach rx_group rx8_B(1)]) (simp_all add: rx8_B rx7_A)

lemma prefix_takes:
  assumes "m \<le> n" "m \<le> length xs" "n \<le> length ys"
    and "prefix (take m xs) (take n ys) \<or> prefix (take n ys) (take m xs)"
  shows "take m xs = take m ys"
  using assms(4)
proof
  assume "prefix (take m xs) (take n ys)"
  then obtain zs where "take n ys = take m xs @ zs" by (auto simp: prefix_def)
  then have "take m (take n ys) = take m (take m xs @ zs)" by (rule arg_cong)
  then show ?thesis using assms(1,2) by (simp add: min_def)
next
  assume p: "prefix (take n ys) (take m xs)"
  then have "length (take n ys) \<le> length (take m xs)" by (rule prefix_length_le)
  then have "n = m" using assms(1-3) by simp
  from p obtain zs where zs: "take m xs = take n ys @ zs" by (auto simp: prefix_def)
  then have "length (take m xs) = length (take n ys) + length zs" by (metis length_append)
  then have "zs = []" using \<open>n = m\<close> assms(2,3) by simp
  with zs \<open>n = m\<close> show ?thesis by simp
qed

text \<open>
  Committed prefixes agree: up to the smaller of two members' commit indices, their logs are equal.
\<close>

theorem raft_committed_agree:
  assumes "raft_reach M pcg ce conf s" "raft_group M conf" "a \<in> M" "b \<in> M"
    and "commitIndex (nodes s a) \<le> commitIndex (nodes s b)"
  shows "take (unat (commitIndex (nodes s a))) (log (nodes s a)) =
    take (unat (commitIndex (nodes s a))) (log (nodes s b))"
proof -
  obtain g where g: "sim M g s" using raft_reach_sim [OF assms(1,2)] by blast
  let ?c = "\<lambda>h. unat (commitIndex (nodes s h))" and ?l = "\<lambda>h. log (nodes s h)"
  have n: "?c h \<le> length (?l h)" "settled M g (currentTerm (nodes s h)) (take (?c h) (?l h))"
    if "h \<in> M" for h
    using g that by (simp_all add: sim_def snode_def)
  have le: "?c a \<le> ?c b" using assms(5) by (simp add: word_le_nat_alt)
  have "prefix (take (?c a) (?l a)) (take (?c b) (?l b)) \<or> prefix (take (?c b) (?l b)) (take (?c a) (?l a))"
    using settled_agree [OF sim_inv [OF g]] n(2) assms(3,4) by blast
  then show ?thesis using le n(1) assms(3,4) by (intro prefix_takes) simp_all
qed

theorem raft_committed_agree_witness:
  "take (unat (commitIndex (nodes rx8 rxB))) (log (nodes rx8 rxB)) =
   take (unat (commitIndex (nodes rx8 rxB))) (log (nodes rx8 rxA))"
  by (rule raft_committed_agree [OF rx8_reach rx_group]) (simp_all add: rx8_B rx7_A)

end
