(* ===== verification/Plumtree_Messages.thy ===== *)
theory Plumtree_Messages
  imports Proto_Context
begin

text \<open>
  \<open>pkg/protocols/plumtree/messages.go\<close>: message identities and the four broadcast-tree messages
  with their codecs.
\<close>

datatype MessageID = MessageID (Origin: Host) (Seq: uint64)

datatype announce = Announce (annID: MessageID) (annRound: uint32)

datatype plum_msg =
    Gossip MessageID uint32 bytes
  | IHave "announce list"
  | Graft MessageID uint32
  | Prune

definition writeMessageID :: "bytes \<Rightarrow> MessageID \<Rightarrow> ioerror + bytes" where
  "writeMessageID b i = bindE (WriteHost b (Origin i)) (\<lambda>b. WriteUint64 b (Seq i))"

definition readMessageID :: "bytes \<Rightarrow> ioerror + MessageID \<times> bytes" where
  "readMessageID r =
     bindE (ReadHost r) (\<lambda>(origin, r). bindE (ReadUint64 r) (\<lambda>(seq, r). Inr (MessageID origin seq, r)))"

definition Gossip_MarshalWire :: "MessageID \<Rightarrow> uint32 \<Rightarrow> bytes \<Rightarrow> ioerror + bytes" where
  "Gossip_MarshalWire i round payload =
     bindE (writeMessageID [] i) (\<lambda>b. bindE (WriteUint32 b round) (\<lambda>b. WriteBytes b payload))"

definition Gossip_UnmarshalWire :: "bytes \<Rightarrow> ioerror + plum_msg" where
  "Gossip_UnmarshalWire d =
     bindE (readMessageID d) (\<lambda>(i, r).
     bindE (ReadUint32 r) (\<lambda>(round, r).
     bindE (ReadBytes r) (\<lambda>(payload, r). Inr (Gossip i round payload))))"

definition writeAnnounce :: "bytes \<Rightarrow> announce \<Rightarrow> ioerror + bytes" where
  "writeAnnounce b a = bindE (writeMessageID b (annID a)) (\<lambda>b. WriteUint32 b (annRound a))"

definition readAnnounce :: "bytes \<Rightarrow> ioerror + announce \<times> bytes" where
  "readAnnounce r =
     bindE (readMessageID r) (\<lambda>(i, r). bindE (ReadUint32 r) (\<lambda>(round, r). Inr (Announce i round, r)))"

definition IHave_MarshalWire :: "announce list \<Rightarrow> ioerror + bytes" where
  "IHave_MarshalWire anns = writeCounted16 writeAnnounce [] anns"

definition IHave_UnmarshalWire :: "bytes \<Rightarrow> ioerror + plum_msg" where
  "IHave_UnmarshalWire d = bindE (readCounted16 readAnnounce d) (\<lambda>(anns, r). Inr (IHave anns))"

definition Graft_MarshalWire :: "MessageID \<Rightarrow> uint32 \<Rightarrow> ioerror + bytes" where
  "Graft_MarshalWire i round = bindE (writeMessageID [] i) (\<lambda>b. WriteUint32 b round)"

definition Graft_UnmarshalWire :: "bytes \<Rightarrow> ioerror + plum_msg" where
  "Graft_UnmarshalWire d =
     bindE (readMessageID d) (\<lambda>(i, r). bindE (ReadUint32 r) (\<lambda>(round, r). Inr (Graft i round)))"

definition Prune_MarshalWire :: "ioerror + bytes" where
  "Prune_MarshalWire = Inr []"

definition Prune_UnmarshalWire :: "bytes \<Rightarrow> ioerror + plum_msg" where
  "Prune_UnmarshalWire d = Inr Prune"

fun plum_WireName :: "plum_msg \<Rightarrow> string" where
  "plum_WireName (Gossip _ _ _) = ''plumtree.Gossip''"
| "plum_WireName (IHave _) = ''plumtree.IHave''"
| "plum_WireName (Graft _ _) = ''plumtree.Graft''"
| "plum_WireName Prune = ''plumtree.Prune''"

fun plum_Marshal :: "plum_msg \<Rightarrow> ioerror + bytes" where
  "plum_Marshal (Gossip i r p) = Gossip_MarshalWire i r p"
| "plum_Marshal (IHave anns) = IHave_MarshalWire anns"
| "plum_Marshal (Graft i r) = Graft_MarshalWire i r"
| "plum_Marshal Prune = Prune_MarshalWire"

definition plum_Unmarshal :: "string \<Rightarrow> bytes \<Rightarrow> (ioerror + plum_msg) option" where
  "plum_Unmarshal name d =
     (if name = ''plumtree.Gossip'' then Some (Gossip_UnmarshalWire d)
      else if name = ''plumtree.IHave'' then Some (IHave_UnmarshalWire d)
      else if name = ''plumtree.Graft'' then Some (Graft_UnmarshalWire d)
      else if name = ''plumtree.Prune'' then Some (Prune_UnmarshalWire d)
      else None)"

subsection \<open>Round trip\<close>

definition id_image :: "MessageID \<Rightarrow> bytes" where
  "id_image i = host_image (Origin i) @ le_put 8 (unat (Seq i))"

definition id_ok :: "MessageID \<Rightarrow> bool" where
  "id_ok i \<longleftrightarrow> host_ok (Origin i)"

interpretation mid: wire_codec writeMessageID readMessageID id_image id_ok
  by unfold_locales
    (simp_all add: writeMessageID_def readMessageID_def id_image_def id_ok_def wire_simps
      host.wr_image host.rd_image)

definition ann_image :: "announce \<Rightarrow> bytes" where
  "ann_image a = id_image (annID a) @ le_put 4 (unat (annRound a))"

definition ann_ok :: "announce \<Rightarrow> bool" where
  "ann_ok a \<longleftrightarrow> id_ok (annID a)"

interpretation ann: wire_codec writeAnnounce readAnnounce ann_image ann_ok
  by unfold_locales
    (simp_all add: writeAnnounce_def readAnnounce_def ann_image_def ann_ok_def wire_simps
      mid.wr_image mid.rd_image)

interpretation anns: wire_codec "writeCounted16 writeAnnounce" "readCounted16 readAnnounce"
  "counted16_image ann_image" "counted16_ok ann_ok"
  by (rule ann.counted16)

fun plum_ok :: "plum_msg \<Rightarrow> bool" where
  "plum_ok (Gossip i _ p) = (id_ok i \<and> bytes_ok p)"
| "plum_ok (IHave anns) = counted16_ok ann_ok anns"
| "plum_ok (Graft i _) = id_ok i"
| "plum_ok Prune = True"

lemmas plum_codec_defs =
  Gossip_MarshalWire_def Gossip_UnmarshalWire_def IHave_MarshalWire_def IHave_UnmarshalWire_def
  Graft_MarshalWire_def Graft_UnmarshalWire_def Prune_MarshalWire_def Prune_UnmarshalWire_def

text \<open>
  Round trip of the Plumtree messages: a message whose hosts, payload and number of
  announcements fit their length prefixes is encoded, and decoding the bytes under its wire name
  gives it back.
\<close>

theorem plum_wire_roundtrip:
  assumes "plum_ok m"
  shows "\<exists>d. plum_Marshal m = Inr d \<and> plum_Unmarshal (plum_WireName m) d = Some (Inr m)"
  using assms
  by (cases m)
    (simp_all add: plum_codec_defs plum_Unmarshal_def wire_simps mid.wr_image mid.rd_image
      anns.wr_image anns.rd_image_nil)

theorem plum_wire_roundtrip_witness:
  "\<exists>d. plum_Marshal (IHave [Announce (MessageID (Host 7 ''a'') 1) 0]) = Inr d \<and>
     plum_Unmarshal ''plumtree.IHave'' d = Some (Inr (IHave [Announce (MessageID (Host 7 ''a'') 1) 0]))"
  using plum_wire_roundtrip [of "IHave [Announce (MessageID (Host 7 ''a'') 1) 0]"]
  by (simp add: counted16_ok_def ann_ok_def id_ok_def host_ok_def)

text \<open>
  The announcement count wraps: the encoder truncates the number of announcements to 16 bits,
  so a batch of exactly \<open>2 ^ 16\<close> announcements is accepted and decodes to an empty batch.
\<close>

theorem IHave_count_wraps:
  assumes "length anns = 2 ^ 16" "list_all ann_ok anns"
  shows "\<exists>d. IHave_MarshalWire anns = Inr d \<and> IHave_UnmarshalWire d = Inr (IHave [])"
proof -
  have n: "(word_of_nat (length anns) :: uint16) = 0"
    using assms(1) by (simp add: word_eq_iff_unsigned unsigned_of_nat take_bit_eq_mod)
  have "IHave_MarshalWire anns = Inr (le_put 2 (unat (0 :: uint16)) @ concat (map ann_image anns))"
    using assms(2) n by (simp add: IHave_MarshalWire_def writeCounted16_def WriteUint16_def
        ann.writeAll_image)
  then show ?thesis
    using u16.rd_image [of 0 "concat (map ann_image anns)"]
    by (simp add: IHave_UnmarshalWire_def readCounted16_def)
qed

theorem IHave_count_wraps_witness:
  "\<exists>d. IHave_MarshalWire (replicate (2 ^ 16) (Announce (MessageID (Host 1 ''a'') 1) 0)) = Inr d \<and>
     IHave_UnmarshalWire d = Inr (IHave [])"
  by (rule IHave_count_wraps)
    (simp_all only: length_replicate list_all_iff set_replicate_conv_if,
     simp add: ann_ok_def id_ok_def host_ok_def)

end
