(* ===== verification/Host_Set.thy ===== *)
theory Host_Set
  imports Proto_Context "HOL-Library.Multiset"
begin

text \<open>
  \<open>views.go\<close> of HyParView and of Plumtree: a set of hosts whose ordered operations go through the
  list of its members sorted by printed form.  The Go map is a set here; \<open>hs_sorted\<close> is the one
  list that the sort can return, whatever order the map was iterated in.  The random picks take
  the draws of a seeded generator.
\<close>

type_synonym hostSet = "Host set"

definition newHostSet :: hostSet where
  "newHostSet = {}"

definition hs_contains :: "Host \<Rightarrow> hostSet \<Rightarrow> bool" where
  "hs_contains h s \<longleftrightarrow> h \<in> s"

definition hs_len :: "hostSet \<Rightarrow> nat" where
  "hs_len s = card s"

definition hs_add :: "Host \<Rightarrow> hostSet \<Rightarrow> hostSet" where
  "hs_add h s = insert h s"

definition hs_remove :: "Host \<Rightarrow> hostSet \<Rightarrow> hostSet" where
  "hs_remove h s = s - {h}"

definition hs_sorted :: "hostSet \<Rightarrow> Host list" where
  "hs_sorted s = sort_key Host_String (sorted_list_of_set s)"

definition filterExcept :: "Host list \<Rightarrow> Host set \<Rightarrow> Host list" where
  "filterExcept hosts exclude = filter (\<lambda>h. h \<notin> exclude) hosts"

definition randomExcept :: "hostSet \<Rightarrow> nat stream \<Rightarrow> Host set \<Rightarrow> Host option \<times> nat stream" where
  "randomExcept s rng exclude =
     (let cand = filterExcept (hs_sorted s) exclude
      in if length cand = 0 then (None, rng)
         else let (i, rng) = IntN (length cand) rng in (Some (cand ! i), rng))"

text \<open>\<open>rand.Shuffle\<close>: for each position from the last to the second, swap it with a random one below.\<close>

definition swapAt :: "nat \<Rightarrow> nat \<Rightarrow> 'a list \<Rightarrow> 'a list" where
  "swapAt i j xs = xs[i := xs ! j, j := xs ! i]"

fun shuffleLoop :: "nat \<Rightarrow> 'a list \<Rightarrow> nat stream \<Rightarrow> 'a list \<times> nat stream" where
  "shuffleLoop 0 xs rng = (xs, rng)"
| "shuffleLoop (Suc i) xs rng =
     (let (j, rng) = IntN (Suc (Suc i)) rng in shuffleLoop i (swapAt (Suc i) j xs) rng)"

definition Shuffle_list :: "'a list \<Rightarrow> nat stream \<Rightarrow> 'a list \<times> nat stream" where
  "Shuffle_list xs rng = shuffleLoop (length xs - 1) xs rng"

definition randomSample :: "hostSet \<Rightarrow> nat stream \<Rightarrow> nat \<Rightarrow> Host set \<Rightarrow> Host list \<times> nat stream" where
  "randomSample s rng n exclude =
     (let cand = filterExcept (hs_sorted s) exclude;
          (cand, rng) = Shuffle_list cand rng
      in (if n < length cand then take n cand else cand, rng))"

lemmas hs_defs [simp] = newHostSet_def hs_contains_def hs_len_def hs_add_def hs_remove_def

subsection \<open>The sorted members\<close>

lemma hs_sorted_props [simp]:
  "finite s \<Longrightarrow> set (hs_sorted s) = s"
  "distinct (hs_sorted s)"
  "finite s \<Longrightarrow> length (hs_sorted s) = card s"
  "sorted (map Host_String (hs_sorted s))"
  "finite s \<Longrightarrow> hs_sorted s = [] \<longleftrightarrow> s = {}"
proof -
  show *: "finite s \<Longrightarrow> set (hs_sorted s) = s" "distinct (hs_sorted s)"
      "finite s \<Longrightarrow> length (hs_sorted s) = card s" "sorted (map Host_String (hs_sorted s))"
    by (simp_all add: hs_sorted_def)
  show "finite s \<Longrightarrow> hs_sorted s = [] \<longleftrightarrow> s = {}"
    using *(1) by force
qed

lemma hs_sorted_empty [simp]: "hs_sorted {} = []"
  by simp

text \<open>
  Determinism of the fan-outs: Go iterates a map in an order it randomises, and \<open>sort.Slice\<close> is
  not stable, yet every list of the members of a host set, each once, that is sorted by printed
  form is the list \<open>sorted\<close> returns.
\<close>

theorem hs_sorted_unique:
  assumes "distinct xs" "set xs = s" "sorted (map Host_String xs)"
  shows "xs = hs_sorted s"
proof -
  have fin: "finite s" using assms(2) by auto
  have inj: "inj Host_String" by (simp add: inj_def Host_String_inj)
  have "map Host_String xs = map Host_String (hs_sorted s)"
  proof (rule sorted_distinct_set_unique)
    show "sorted (map Host_String xs)" "sorted (map Host_String (hs_sorted s))"
      using assms(3) by simp_all
    show "distinct (map Host_String xs)" "distinct (map Host_String (hs_sorted s))"
      using assms(1) inj by (simp_all add: distinct_map inj_on_def)
    show "set (map Host_String xs) = set (map Host_String (hs_sorted s))"
      using assms(2) fin by simp
  qed
  then show ?thesis
    using inj by (simp add: inj_map_eq_map)
qed

theorem hs_sorted_unique_witness:
  "[Host 1 ''a'', Host 2 ''a''] = hs_sorted {Host 2 ''a'', Host 1 ''a''}"
  by (rule hs_sorted_unique)
    (auto simp: Host_String_def showInt_def showNat.simps less_char_def)

subsection \<open>Random picks\<close>

lemma filterExcept_simps [simp]:
  "finite s \<Longrightarrow> set (filterExcept (hs_sorted s) X) = s - X"
  "distinct (filterExcept (hs_sorted s) X)"
  by (auto simp: filterExcept_def)

lemma randomExcept_Some:
  assumes "finite s" "randomExcept s g X = (Some h, g')"
  shows "h \<in> s" "h \<notin> X"
proof -
  let ?c = "filterExcept (hs_sorted s) X"
  have "length ?c \<noteq> 0" "h = ?c ! (shd g mod length ?c)"
    using assms(2) by (auto simp: randomExcept_def IntN_def Let_def split: if_splits)
  then have "h \<in> set ?c" by simp
  then show "h \<in> s" "h \<notin> X" using assms(1) by simp_all
qed

lemma randomExcept_None: "finite s \<Longrightarrow> randomExcept s g X = (None, g') \<Longrightarrow> s \<subseteq> X"
proof -
  assume fin: "finite s" and "randomExcept s g X = (None, g')"
  then have "filterExcept (hs_sorted s) X = []"
    by (auto simp: randomExcept_def Let_def split: if_splits prod.splits)
  then have "s - X = {}"
    using filterExcept_simps(1) [OF fin, of X] by (metis list.set(1))
  then show ?thesis by blast
qed

lemma mset_swapAt: "i < length xs \<Longrightarrow> j < length xs \<Longrightarrow> mset (swapAt i j xs) = mset xs"
  by (simp add: swapAt_def mset_swap)

lemma length_swapAt [simp]: "length (swapAt i j xs) = length xs"
  by (simp add: swapAt_def)

lemma mset_shuffleLoop: "i < length xs \<or> i = 0 \<Longrightarrow> mset (fst (shuffleLoop i xs g)) = mset xs"
proof (induction i arbitrary: xs g)
  case 0
  then show ?case by simp
next
  case (Suc i)
  let ?j = "fst (IntN (Suc (Suc i)) g)"
  have j: "?j < length xs"
    using Suc.prems IntN_bound [of "Suc (Suc i)" g] by simp
  have "mset (fst (shuffleLoop i (swapAt (Suc i) ?j xs) (snd (IntN (Suc (Suc i)) g)))) =
      mset (swapAt (Suc i) ?j xs)"
    using Suc.prems by (intro Suc.IH) simp
  also have "\<dots> = mset xs"
    using j Suc.prems by (intro mset_swapAt) simp_all
  finally show ?case by (simp add: Let_def split_beta)
qed

lemma mset_Shuffle: "mset (fst (Shuffle_list xs g)) = mset xs"
  unfolding Shuffle_list_def by (rule mset_shuffleLoop) (cases xs; simp)

text \<open>
  A random sample is a list of distinct members of the set outside the excluded ones, as many
  as asked for or all of them.
\<close>

theorem randomSample_subset:
  assumes "finite s" "randomSample s g n X = (hs, g')"
  shows "distinct hs \<and> set hs \<subseteq> s - X \<and> length hs = min n (card (s - X))"
proof -
  let ?c = "filterExcept (hs_sorted s) X"
  let ?r = "fst (Shuffle_list ?c g)"
  have m: "mset ?r = mset ?c" by (rule mset_Shuffle)
  then have r: "set ?r = s - X" "distinct ?r" "length ?r = card (s - X)"
    using assms(1) filterExcept_simps(1) [OF assms(1), of X]
    by (metis mset_eq_setD, metis filterExcept_simps(2) mset_eq_imp_distinct_iff,
        metis distinct_card filterExcept_simps mset_eq_length)
  have "hs = take n ?r"
    using assms(2) by (auto simp: randomSample_def Let_def split: prod.splits if_splits)
  then show ?thesis
    using r set_take_subset [of n ?r] by auto
qed

theorem randomSample_subset_witness:
  "length (fst (randomSample {Host 1 ''a'', Host 2 ''a''} (sconst 0) 1 {})) = 1"
  using randomSample_subset [of "{Host 1 ''a'', Host 2 ''a''}" "sconst 0" 1 "{}"]
  by (metis (no_types, lifting) Diff_empty One_nat_def card_2_iff finite.emptyI finite_insert
      min.absorb1 one_le_numeral prod.collapse Host.inject numeral_eq_one_iff semiring_norm(85))

end
