(* ===== verification/Plumtree.thy ===== *)
theory Plumtree
  imports Plumtree_Messages Host_Set
begin

text \<open>
  \<open>pkg/protocols/plumtree\<close>: one Plumtree instance (\<open>protocol.go\<close>), its bounded payload cache
  (\<open>cache.go\<close>) and its configuration (\<open>config.go\<close>).  \<open>pkg/protocols/membership\<close> contributes the
  notifications \<open>NeighborUp\<close> and \<open>NeighborDown\<close> and the \<open>View\<close> reply it consumes.
\<close>

subsection \<open>The payload cache\<close>

record payloadCache =
  cmax :: int
  items :: "MessageID \<rightharpoonup> bytes"
  order :: "MessageID list"

definition newPayloadCache :: "int \<Rightarrow> payloadCache" where
  "newPayloadCache m = \<lparr>cmax = m, items = Map.empty, order = []\<rparr>"

definition cache_put :: "MessageID \<Rightarrow> bytes \<Rightarrow> payloadCache \<Rightarrow> payloadCache" where
  "cache_put i payload c =
     (if items c i \<noteq> None then c
      else let c = c\<lparr>items := (items c)(i \<mapsto> payload), order := order c @ [i]\<rparr>
           in if int (length (order c)) > cmax c
              then let oldest = order c ! 0
                   in c\<lparr>order := drop 1 (order c), items := (items c)(oldest := None)\<rparr>
              else c)"

definition cache_get :: "MessageID \<Rightarrow> payloadCache \<Rightarrow> bytes option" where
  "cache_get i c = items c i"

definition cache_len :: "payloadCache \<Rightarrow> nat" where
  "cache_len c = card (dom (items c))"

subsection \<open>Data\<close>

record PlumConfig =
  MissingTimeout :: duration
  GraftRetryTimeout :: duration
  LazyInterval :: duration
  CacheSize :: int

definition plum_withDefaults :: "PlumConfig \<Rightarrow> PlumConfig" where
  "plum_withDefaults c =
     (let c = (if MissingTimeout c \<le> 0 then c\<lparr>MissingTimeout := second\<rparr> else c);
          c = (if GraftRetryTimeout c \<le> 0 then c\<lparr>GraftRetryTimeout := 500 * millisecond\<rparr> else c);
          c = (if LazyInterval c \<le> 0 then c\<lparr>LazyInterval := 100 * millisecond\<rparr> else c)
      in if CacheSize c \<le> 0 then c\<lparr>CacheSize := 1024\<rparr> else c)"

datatype plum_note = Delivered MessageID bytes Host

datatype plum_ipc =
    GetView
  | BroadcastAck
  | DebugStatsReply nat nat nat nat "Host list" "Host list"

datatype plum_cb = OnMissingTimeout MessageID | FlushLazy

type_synonym plum_ctx = "(plum_cb, plum_msg, plum_note, plum_ipc, unit) proto_ctx"

datatype pendingGraft = PendingGraft (pgPeer: Host) (pgRound: uint32)

record plumtree =
  cfg :: PlumConfig
  ctx :: plum_ctx
  self :: Host
  eager :: hostSet
  lazy :: hostSet
  received :: "MessageID set"
  cache :: payloadCache
  missing :: "MessageID \<rightharpoonup> pendingGraft list"
  timers :: "MessageID \<rightharpoonup> TimerHandle"
  lazyQueue :: "Host \<rightharpoonup> announce list"
  seq :: uint64
  duplicates :: nat

definition plum_New :: "Host \<Rightarrow> PlumConfig \<Rightarrow> (Host \<Rightarrow> bool) \<Rightarrow> plumtree" where
  "plum_New me c ce =
     (let c = plum_withDefaults c
      in \<lparr>cfg = c, ctx = newCtx ce, self = me, eager = newHostSet, lazy = newHostSet, received = {},
          cache = newPayloadCache (CacheSize c), missing = Map.empty, timers = Map.empty,
          lazyQueue = Map.empty, seq = 0, duplicates = 0\<rparr>)"

subsection \<open>Calls into the context\<close>

definition plum_send :: "plum_msg \<Rightarrow> Host \<Rightarrow> plumtree \<Rightarrow> plumtree" where
  "plum_send m h p = p\<lparr>ctx := emit (Sent m h) (ctx p)\<rparr>"

definition plum_reply :: "plum_ipc \<Rightarrow> plumtree \<Rightarrow> plumtree" where
  "plum_reply r p = p\<lparr>ctx := emit (Replied r) (ctx p)\<rparr>"

definition deliver :: "MessageID \<Rightarrow> bytes \<Rightarrow> Host \<Rightarrow> plumtree \<Rightarrow> plumtree" where
  "deliver i payload from p = p\<lparr>ctx := emit (Published (Delivered i payload from)) (ctx p)\<rparr>"

subsection \<open>Pushing\<close>

definition eagerPush :: "MessageID \<Rightarrow> bytes \<Rightarrow> uint32 \<Rightarrow> Host \<Rightarrow> plumtree \<Rightarrow> plumtree" where
  "eagerPush i payload round except p =
     fold (\<lambda>peer p. if peer = except then p else plum_send (Gossip i round payload) peer p)
       (hs_sorted (eager p)) p"

definition queued :: "(Host \<rightharpoonup> announce list) \<Rightarrow> Host \<Rightarrow> announce list" where
  "queued q h = (case q h of None \<Rightarrow> [] | Some as \<Rightarrow> as)"

definition lazyPush :: "MessageID \<Rightarrow> uint32 \<Rightarrow> Host \<Rightarrow> plumtree \<Rightarrow> plumtree" where
  "lazyPush i round except p =
     fold (\<lambda>peer p. if peer = except then p
         else p\<lparr>lazyQueue := (lazyQueue p)(peer \<mapsto> queued (lazyQueue p) peer @ [Announce i round])\<rparr>)
       (hs_sorted (lazy p)) p"

definition flushLazy :: "plumtree \<Rightarrow> plumtree" where
  "flushLazy p =
     (if dom (lazyQueue p) = {} then p
      else let peers = hs_sorted (dom (lazyQueue p));
               p = fold (\<lambda>peer p. let anns = queued (lazyQueue p) peer
                          in if length anns > 0 then plum_send (IHave anns) peer p else p) peers p
           in p\<lparr>lazyQueue := Map.empty\<rparr>)"

subsection \<open>Missing messages\<close>

definition cancelMissing :: "MessageID \<Rightarrow> plumtree \<Rightarrow> plumtree" where
  "cancelMissing i p =
     (let p = (case timers p i of None \<Rightarrow> p
               | Some t \<Rightarrow> p\<lparr>ctx := cancel t (ctx p), timers := (timers p)(i := None)\<rparr>)
      in p\<lparr>missing := (missing p)(i := None)\<rparr>)"

definition announcers :: "plumtree \<Rightarrow> MessageID \<Rightarrow> pendingGraft list" where
  "announcers p i = (case missing p i of None \<Rightarrow> [] | Some es \<Rightarrow> es)"

definition onMissingTimeout :: "MessageID \<Rightarrow> plumtree \<Rightarrow> plumtree" where
  "onMissingTimeout i p =
     (let p = p\<lparr>timers := (timers p)(i := None)\<rparr>
      in if i \<in> received p then p\<lparr>missing := (missing p)(i := None)\<rparr>
         else let entries = announcers p i
              in case entries of
                   [] \<Rightarrow> p
                 | first # rest \<Rightarrow>
                     let p = p\<lparr>missing := (missing p)(i \<mapsto> rest)\<rparr>;
                         (h, c) = after (GraftRetryTimeout (cfg p)) (OnMissingTimeout i) (ctx p);
                         p = p\<lparr>ctx := c, timers := (timers p)(i \<mapsto> h)\<rparr>;
                         p = p\<lparr>eager := hs_add (pgPeer first) (eager p),
                               lazy := hs_remove (pgPeer first) (lazy p)\<rparr>
                     in plum_send (Graft i (pgRound first)) (pgPeer first) p)"

subsection \<open>Membership\<close>

definition onView :: "Host list \<Rightarrow> plumtree \<Rightarrow> plumtree" where
  "onView active p =
     fold (\<lambda>peer p. p\<lparr>eager := hs_add peer (eager p), lazy := hs_remove peer (lazy p)\<rparr>) active p"

definition onNeighborUp :: "Host \<Rightarrow> plumtree \<Rightarrow> plumtree" where
  "onNeighborUp peer p =
     (if peer = self p then p
      else p\<lparr>eager := hs_add peer (eager p), lazy := hs_remove peer (lazy p)\<rparr>)"

text \<open>
  \<open>onNeighborDown\<close> ranges over the map of missing messages; each iteration reads and writes only the
  entry and the timer of its own message, so the order does not matter and is taken as the sorted
  one.
\<close>

instantiation MessageID :: linorder
begin

definition less_MessageID :: "MessageID \<Rightarrow> MessageID \<Rightarrow> bool" where
  "less_MessageID a b \<longleftrightarrow> Origin a < Origin b \<or> Origin a = Origin b \<and> Seq a < Seq b"

definition less_eq_MessageID :: "MessageID \<Rightarrow> MessageID \<Rightarrow> bool" where
  "less_eq_MessageID a b \<longleftrightarrow> Origin a < Origin b \<or> Origin a = Origin b \<and> Seq a \<le> Seq b"

instance
proof
  fix x y z :: MessageID
  show "x < y \<longleftrightarrow> x \<le> y \<and> \<not> y \<le> x"
    by (auto simp: less_MessageID_def less_eq_MessageID_def)
  show "x \<le> x" by (simp add: less_eq_MessageID_def)
  show "x \<le> y \<Longrightarrow> y \<le> z \<Longrightarrow> x \<le> z"
    by (auto simp: less_eq_MessageID_def)
  show "x \<le> y \<Longrightarrow> y \<le> x \<Longrightarrow> x = y"
    by (auto simp: less_eq_MessageID_def intro: MessageID.expand)
  show "x \<le> y \<or> y \<le> x"
    by (auto simp: less_eq_MessageID_def)
qed

end

definition dropAnnouncer :: "Host \<Rightarrow> MessageID \<Rightarrow> plumtree \<Rightarrow> plumtree" where
  "dropAnnouncer peer i p =
     (let kept = filter (\<lambda>e. pgPeer e \<noteq> peer) (announcers p i)
      in if length kept = 0 then cancelMissing i p else p\<lparr>missing := (missing p)(i \<mapsto> kept)\<rparr>)"

definition onNeighborDown :: "Host \<Rightarrow> plumtree \<Rightarrow> plumtree" where
  "onNeighborDown peer p =
     (let p = p\<lparr>eager := hs_remove peer (eager p), lazy := hs_remove peer (lazy p),
                lazyQueue := (lazyQueue p)(peer := None)\<rparr>
      in fold (dropAnnouncer peer) (sorted_list_of_set (dom (missing p))) p)"

subsection \<open>Messages and requests\<close>

definition handleBroadcast :: "bytes \<Rightarrow> plumtree \<Rightarrow> plumtree" where
  "handleBroadcast payload p =
     (let p = p\<lparr>seq := seq p + 1\<rparr>;
          i = MessageID (self p) (seq p);
          p = p\<lparr>received := insert i (received p)\<rparr>;
          p = p\<lparr>cache := cache_put i payload (cache p)\<rparr>;
          p = deliver i payload (self p) p;
          p = eagerPush i payload 0 (self p) p;
          p = lazyPush i 0 (self p) p
      in plum_reply BroadcastAck p)"

definition onGossip :: "MessageID \<Rightarrow> uint32 \<Rightarrow> bytes \<Rightarrow> Host \<Rightarrow> plumtree \<Rightarrow> plumtree" where
  "onGossip i round payload from p =
     (if i \<in> received p
      then let p = p\<lparr>duplicates := duplicates p + 1, eager := hs_remove from (eager p),
                     lazy := hs_add from (lazy p)\<rparr>
           in plum_send Prune from p
      else let p = p\<lparr>received := insert i (received p)\<rparr>;
               p = p\<lparr>cache := cache_put i payload (cache p)\<rparr>;
               p = cancelMissing i p;
               p = deliver i payload from p;
               p = p\<lparr>eager := hs_add from (eager p), lazy := hs_remove from (lazy p)\<rparr>;
               p = eagerPush i payload (round + 1) from p
           in lazyPush i (round + 1) from p)"

definition heardAnnounce :: "Host \<Rightarrow> announce \<Rightarrow> plumtree \<Rightarrow> plumtree" where
  "heardAnnounce from a p =
     (if annID a \<in> received p then p
      else let i = annID a;
               p = p\<lparr>missing := (missing p)(i \<mapsto> announcers p i @ [PendingGraft from (annRound a)])\<rparr>
           in if timers p i = None
              then let (h, c) = after (MissingTimeout (cfg p)) (OnMissingTimeout i) (ctx p)
                   in p\<lparr>ctx := c, timers := (timers p)(i \<mapsto> h)\<rparr>
              else p)"

definition onIHave :: "announce list \<Rightarrow> Host \<Rightarrow> plumtree \<Rightarrow> plumtree" where
  "onIHave anns from p = fold (heardAnnounce from) anns p"

definition onGraft :: "MessageID \<Rightarrow> uint32 \<Rightarrow> Host \<Rightarrow> plumtree \<Rightarrow> plumtree" where
  "onGraft i round from p =
     (let p = p\<lparr>eager := hs_add from (eager p), lazy := hs_remove from (lazy p)\<rparr>
      in case cache_get i (cache p) of
           None \<Rightarrow> p
         | Some payload \<Rightarrow> plum_send (Gossip i round payload) from p)"

definition onPrune :: "Host \<Rightarrow> plumtree \<Rightarrow> plumtree" where
  "onPrune from p = p\<lparr>eager := hs_remove from (eager p), lazy := hs_add from (lazy p)\<rparr>"

definition handleDebugStats :: "plumtree \<Rightarrow> plumtree" where
  "handleDebugStats p =
     plum_reply (DebugStatsReply (card (received p)) (duplicates p) (hs_len (eager p)) (hs_len (lazy p))
       (hs_sorted (eager p)) (hs_sorted (lazy p))) p"

definition plum_Init :: "plumtree \<Rightarrow> plumtree" where
  "plum_Init p =
     (let p = p\<lparr>ctx := emit (Requested GetView) (ctx p)\<rparr>;
          (h, c) = every (LazyInterval (cfg p)) FlushLazy (ctx p)
      in p\<lparr>ctx := c\<rparr>)"

text \<open>What \<open>Start\<close> registers, the answer to \<open>GetView\<close>, and the timers: everything that can happen.\<close>

datatype plum_event =
    PlumMsg plum_msg Host
  | PlumUp Host
  | PlumDown Host
  | PlumBroadcast bytes
  | PlumView "Host list"
  | PlumTimer nat
  | PlumStats

fun plum_handle :: "plum_msg \<Rightarrow> Host \<Rightarrow> plumtree \<Rightarrow> plumtree" where
  "plum_handle (Gossip i r payload) from p = onGossip i r payload from p"
| "plum_handle (IHave anns) from p = onIHave anns from p"
| "plum_handle (Graft i r) from p = onGraft i r from p"
| "plum_handle Prune from p = onPrune from p"

fun plum_callback :: "plum_cb \<Rightarrow> plumtree \<Rightarrow> plumtree" where
  "plum_callback (OnMissingTimeout i) p = onMissingTimeout i p"
| "plum_callback FlushLazy p = flushLazy p"

fun plum_step :: "plum_event \<Rightarrow> plumtree \<Rightarrow> plumtree" where
  "plum_step (PlumMsg m from) p = plum_handle m from p"
| "plum_step (PlumUp h) p = onNeighborUp h p"
| "plum_step (PlumDown h) p = onNeighborDown h p"
| "plum_step (PlumBroadcast payload) p = handleBroadcast payload p"
| "plum_step (PlumView hs) p = onView hs p"
| "plum_step (PlumTimer n) p =
     (case find (\<lambda>t. tid t = n) (pending (ctx p)) of
        None \<Rightarrow> p
      | Some t \<Rightarrow> plum_callback (tfn t) (p\<lparr>ctx := fire t (ctx p)\<rparr>))"
| "plum_step PlumStats p = handleDebugStats p"

end
