(* ===== verification/Plumtree_Safety.thy ===== *)
theory Plumtree_Safety
  imports Plumtree_Inv
begin

text \<open>
  Runs of a Plumtree instance: from a fresh instance, through any sequence of messages, membership
  changes, broadcasts and timer fires.
\<close>

definition plum_run :: "Host \<Rightarrow> PlumConfig \<Rightarrow> (Host \<Rightarrow> bool) \<Rightarrow> plum_event list \<Rightarrow> plumtree" where
  "plum_run me c ce evs = fold plum_step evs (plum_Init (plum_New me c ce))"

lemma plum_Init_simps [simp]:
  "eager (plum_Init p) = eager p" "lazy (plum_Init p) = lazy p" "self (plum_Init p) = self p"
  "received (plum_Init p) = received p" "seq (plum_Init p) = seq p" "missing (plum_Init p) = missing p"
  "timers (plum_Init p) = timers p" "cache (plum_Init p) = cache p"
  "out (ctx (plum_Init p)) = out (ctx p) @ [Requested GetView]"
  by (simp_all add: plum_Init_def every_def emit_def Let_def)

lemma plum_New_simps [simp]:
  "eager (plum_New me c ce) = {}" "lazy (plum_New me c ce) = {}" "self (plum_New me c ce) = me"
  "received (plum_New me c ce) = {}" "seq (plum_New me c ce) = 0"
  "missing (plum_New me c ce) = Map.empty" "timers (plum_New me c ce) = Map.empty"
  "cache (plum_New me c ce) = newPayloadCache (CacheSize (plum_withDefaults c))"
  "ctx (plum_New me c ce) = newCtx ce"
  by (simp_all add: plum_New_def Let_def)

lemma step_self [simp]: "self (plum_step e p) = self p"
proof (cases e)
  case (PlumMsg m h)
  then show ?thesis
    by (cases m) (auto simp: onGossip_def onGraft_def onPrune_def Let_def split: option.splits)
next
  case (PlumTimer n)
  have "self (plum_callback cb q) = self q" for cb q by (cases cb) simp_all
  then show ?thesis using PlumTimer by (simp split: option.splits)
qed (simp_all add: onNeighborUp_def onNeighborDown_def handleBroadcast_def handleDebugStats_def Let_def)

lemma run_self [simp]: "self (fold plum_step evs p) = self p"
  by (induction evs arbitrary: p) simp_all

lemma links_fold: "links_ok N p \<Longrightarrow> links_ok (fold neighbors_after evs N) (fold plum_step evs p)"
  by (induction evs arbitrary: N p) (simp_all add: links_step)

text \<open>
  Whatever happens to a Plumtree instance, no peer is both a tree link and a lazy link, and
  every neighbour the membership protocol has announced and not withdrawn is one of the two: no
  neighbour is ever cut off from both the payloads and the announcements.
\<close>

theorem plum_links:
  "let p = plum_run me c ce evs
   in eager p \<inter> lazy p = {} \<and> fold neighbors_after evs {} - {me} \<subseteq> eager p \<union> lazy p"
  using links_fold [of "{}" "plum_Init (plum_New me c ce)" evs]
  by (simp add: links_ok_def plum_run_def Let_def)

subsection \<open>Every message is delivered once\<close>

fun deliveredL :: "('m, plum_note, 'r, 'w) effect list \<Rightarrow> MessageID list" where
  "deliveredL [] = []"
| "deliveredL (Published (Delivered i v f) # es) = i # deliveredL es"
| "deliveredL (_ # es) = deliveredL es"

lemma deliveredL_append [simp]: "deliveredL (xs @ ys) = deliveredL xs @ deliveredL ys"
  by (induction xs rule: deliveredL.induct) simp_all

lemma deliveredL_only_sends: "only_sends c c' \<Longrightarrow> deliveredL (out c') = deliveredL (out c)"
proof -
  have "deliveredL (map (\<lambda>(m, h). Sent m h) ms) = []" for ms
    by (induction ms) auto
  then show "only_sends c c' \<Longrightarrow> ?thesis" by (auto simp: only_sends_def)
qed

text \<open>
  The messages a peer may hand to an instance: an identifier that carries the instance's own host
  is one that the instance has issued.  A broadcast is possible while the counter has not reached
  its last value.
\<close>

fun plum_event_ok :: "plum_event \<Rightarrow> plumtree \<Rightarrow> bool" where
  "plum_event_ok (PlumMsg (Gossip i r v) h) p \<longleftrightarrow>
     (Origin i = self p \<longrightarrow> 0 < Seq i \<and> Seq i \<le> seq p)"
| "plum_event_ok (PlumBroadcast v) p \<longleftrightarrow> seq p \<noteq> - 1"
| "plum_event_ok _ p \<longleftrightarrow> True"

fun plum_run_ok :: "plum_event list \<Rightarrow> plumtree \<Rightarrow> bool" where
  "plum_run_ok [] p \<longleftrightarrow> True"
| "plum_run_ok (e # es) p \<longleftrightarrow> plum_event_ok e p \<and> plum_run_ok es (plum_step e p)"

definition once_ok :: "plumtree \<Rightarrow> bool" where
  "once_ok p \<longleftrightarrow>
     distinct (deliveredL (out (ctx p))) \<and> set (deliveredL (out (ctx p))) = received p \<and>
     (\<forall>i \<in> received p. Origin i = self p \<longrightarrow> Seq i \<le> seq p)"

lemma once_frame:
  "once_ok p \<Longrightarrow> received q = received p \<Longrightarrow> self q = self p \<Longrightarrow> seq q = seq p \<Longrightarrow>
     deliveredL (out (ctx q)) = deliveredL (out (ctx p)) \<Longrightarrow> once_ok q"
  by (simp add: once_ok_def)

lemma deliveredL_emit [simp]:
  "deliveredL (out (emit (Sent m h) c)) = deliveredL (out c)"
  "deliveredL (out (emit (Replied r) c)) = deliveredL (out c)"
  "deliveredL (out (emit (Published (Delivered i v f)) c)) = deliveredL (out c) @ [i]"
  by (simp_all add: emit_def)

lemma deliveredL_push [simp]:
  "deliveredL (out (ctx (eagerPush i v r x p))) = deliveredL (out (ctx p))"
  "deliveredL (out (ctx (flushLazy p))) = deliveredL (out (ctx p))"
  by (simp_all add: deliveredL_only_sends)

lemma deliveredL_timeout [simp]:
  "deliveredL (out (ctx (onMissingTimeout i p))) = deliveredL (out (ctx p))"
  by (simp add: onMissingTimeout_def after_def Let_def split: list.splits)

lemma once_gossip:
  assumes "once_ok p" "plum_event_ok (PlumMsg (Gossip i r v) h) p"
  shows "once_ok (onGossip i r v h p)"
proof (cases "i \<in> received p")
  case True
  then show ?thesis
    using assms(1) by (intro once_frame [OF assms(1)]) (simp_all add: onGossip_def Let_def)
next
  case False
  then have "deliveredL (out (ctx (onGossip i r v h p))) = deliveredL (out (ctx p)) @ [i]"
      "received (onGossip i r v h p) = insert i (received p)"
      "self (onGossip i r v h p) = self p" "seq (onGossip i r v h p) = seq p"
    by (simp_all add: onGossip_def Let_def)
  then show ?thesis
    using assms False by (auto simp: once_ok_def)
qed

lemma once_broadcast:
  assumes "once_ok p" "seq p \<noteq> - 1"
  shows "once_ok (handleBroadcast v p)"
proof -
  let ?i = "MessageID (self p) (seq p + 1)"
  have less: "seq p < seq p + 1" using assms(2) by (rule less_add_one_word)
  have new: "?i \<notin> received p"
  proof
    assume "?i \<in> received p"
    then have "seq p + 1 \<le> seq p" using assms(1) by (auto simp: once_ok_def)
    then show False using less by simp
  qed
  have eq: "deliveredL (out (ctx (handleBroadcast v p))) = deliveredL (out (ctx p)) @ [?i]"
      "received (handleBroadcast v p) = insert ?i (received p)"
      "self (handleBroadcast v p) = self p" "seq (handleBroadcast v p) = seq p + 1"
    by (simp_all add: handleBroadcast_def Let_def)
  have "Seq j \<le> seq p + 1" if "j \<in> received p" "Origin j = self p" for j
    using that assms(1) less by (meson less_le_not_le once_ok_def order_trans)
  then show ?thesis
    using assms(1) new unfolding once_ok_def eq by auto
qed

lemma once_step:
  assumes ok: "once_ok p" and ev: "plum_event_ok e p"
  shows "once_ok (plum_step e p)"
proof (cases e)
  case (PlumMsg m h)
  show ?thesis
  proof (cases m)
    case (Gossip i r v)
    then show ?thesis using once_gossip ok ev PlumMsg by simp
  qed (use PlumMsg in \<open>auto simp: onGraft_def onPrune_def Let_def intro!: once_frame [OF ok]
         split: option.splits\<close>)
next
  case (PlumBroadcast v)
  then show ?thesis using once_broadcast [OF ok] ev by simp
next
  case (PlumTimer n)
  show ?thesis
  proof (cases "find (\<lambda>t. tid t = n) (pending (ctx p))")
    case None
    then show ?thesis using ok PlumTimer by simp
  next
    case (Some t)
    then show ?thesis
      using PlumTimer by (cases "tfn t") (auto intro!: once_frame [OF ok])
  qed
qed (auto simp: onNeighborUp_def onNeighborDown_def handleDebugStats_def Let_def
      intro!: once_frame [OF ok])

lemma once_run: "once_ok p \<Longrightarrow> plum_run_ok evs p \<Longrightarrow> once_ok (fold plum_step evs p)"
  by (induction evs arbitrary: p) (simp_all add: once_step)

text \<open>
  C10. Exactly-once delivery at one instance: over any run in which no peer invents an identifier of
  the instance's own, the application sees each message that was received once, however many
  copies arrive over tree links, grafts and retransmissions.
\<close>

theorem plum_deliver_once:
  assumes "plum_run_ok evs (plum_Init (plum_New me c ce))"
  shows "distinct (deliveredL (out (ctx (plum_run me c ce evs)))) \<and>
         set (deliveredL (out (ctx (plum_run me c ce evs)))) = received (plum_run me c ce evs)"
proof -
  have "once_ok (plum_Init (plum_New me c ce))" by (simp add: once_ok_def newCtx_def)
  from once_run [OF this assms] show ?thesis by (simp add: once_ok_def plum_run_def)
qed

definition pxA :: Host where "pxA = Host 1 ''a''"
definition pxB :: Host where "pxB = Host 2 ''a''"
definition pxConf :: PlumConfig where
  "pxConf = \<lparr>MissingTimeout = 0, GraftRetryTimeout = 0, LazyInterval = 0, CacheSize = 0\<rparr>"
definition pxEvs :: "plum_event list" where
  "pxEvs = [PlumUp pxB, PlumMsg (Gossip (MessageID pxB 1) 0 [7]) pxB,
            PlumMsg (Gossip (MessageID pxB 1) 0 [7]) pxB]"

theorem plum_deliver_once_witness:
  "distinct (deliveredL (out (ctx (plum_run pxA pxConf (\<lambda>_. False) pxEvs))))"
proof -
  have "plum_run_ok pxEvs (plum_Init (plum_New pxA pxConf (\<lambda>_. False)))"
    by (simp add: pxEvs_def pxA_def pxB_def onNeighborUp_def onGossip_def Let_def)
  from plum_deliver_once [OF this] show ?thesis by blast
qed

subsection \<open>A missing message is asked for\<close>

text \<open>
  The timers of the missing messages against the timers of the runtime, with the messages in \<open>X\<close>
  exempt from having one.
\<close>

definition chase_ok :: "MessageID set \<Rightarrow> plumtree \<Rightarrow> bool" where
  "chase_ok X p \<longleftrightarrow>
     timers_ok (ctx p) \<and> distinct (map tid (pending (ctx p))) \<and>
     (\<forall>i e es. missing p i = Some (e # es) \<longrightarrow> i \<notin> X \<longrightarrow> timers p i \<noteq> None) \<and>
     (\<forall>i h. timers p i = Some h \<longrightarrow>
        (\<exists>n d. h = Some n \<and> Timer n d False (OnMissingTimeout i) \<in> set (pending (ctx p)))) \<and>
     (\<forall>t \<in> set (pending (ctx p)). \<forall>i. tfn t = OnMissingTimeout i \<longrightarrow> timers p i = Some (Some (tid t)))"

lemma chase_timer:
  "chase_ok X p \<Longrightarrow> timers p i = Some h \<Longrightarrow>
     \<exists>n d. h = Some n \<and> Timer n d False (OnMissingTimeout i) \<in> set (pending (ctx p))"
  unfolding chase_ok_def by blast

lemma chase_unique:
  "chase_ok X p \<Longrightarrow> t \<in> set (pending (ctx p)) \<Longrightarrow> u \<in> set (pending (ctx p)) \<Longrightarrow> tid t = tid u \<Longrightarrow> t = u"
  unfolding chase_ok_def by (auto simp: distinct_map inj_on_def)

lemma chase_frame:
  "chase_ok X p \<Longrightarrow> missing q = missing p \<Longrightarrow> timers q = timers p \<Longrightarrow>
     pending (ctx q) = pending (ctx p) \<Longrightarrow> nextTimerID (ctx q) = nextTimerID (ctx p) \<Longrightarrow> chase_ok X q"
  by (simp add: chase_ok_def timers_ok_def)

lemma only_sends_pending:
  "only_sends c c' \<Longrightarrow> pending c' = pending c \<and> nextTimerID c' = nextTimerID c"
  by (auto simp: only_sends_def)

lemma push_pending [simp]:
  "pending (ctx (eagerPush i v r x p)) = pending (ctx p)"
  "nextTimerID (ctx (eagerPush i v r x p)) = nextTimerID (ctx p)"
  "pending (ctx (flushLazy p)) = pending (ctx p)"
  "nextTimerID (ctx (flushLazy p)) = nextTimerID (ctx p)"
  by (simp_all add: only_sends_pending)

lemma chase_fewer:
  assumes "chase_ok X p" "\<And>e es. missing q i = Some (e # es) \<Longrightarrow> timers p i \<noteq> None \<or> i \<in> X"
    and "\<And>j. j \<noteq> i \<Longrightarrow> missing q j = missing p j" "timers q = timers p" "ctx q = ctx p"
  shows "chase_ok X q"
proof -
  have "timers q j \<noteq> None" if "missing q j = Some (e # es)" "j \<notin> X" for j e es
    using assms that by (cases "j = i") (auto simp: chase_ok_def)
  then show ?thesis
    using assms(1,4,5) by (simp add: chase_ok_def)
qed

text \<open>Dropping the timer of one message, and arming one for it.\<close>

lemma chase_forget:
  assumes ok: "chase_ok X p" and t: "timers p i = Some (Some n)"
    and q: "timers q = (timers p)(i := None)" "missing q = missing p"
      "pending (ctx q) = filter (\<lambda>t. tid t \<noteq> n) (pending (ctx p))"
      "nextTimerID (ctx q) = nextTimerID (ctx p)"
  shows "chase_ok (insert i X) q"
proof -
  have other: "tid t \<noteq> n" if "t \<in> set (pending (ctx p))" "tfn t = OnMissingTimeout j" "j \<noteq> i" for t j
  proof -
    obtain d where d: "Timer n d False (OnMissingTimeout i) \<in> set (pending (ctx p))"
      using chase_timer [OF ok t] by auto
    have "t = Timer n d False (OnMissingTimeout i)" if "tid t = n"
      using chase_unique [OF ok _ d] \<open>t \<in> _\<close> that by simp
    then show ?thesis using that by (cases "tid t = n") auto
  qed
  have own: "tid t = n" if "t \<in> set (pending (ctx p))" "tfn t = OnMissingTimeout i" for t
    using ok t that by (auto simp: chase_ok_def)
  have "\<exists>m d. h = Some m \<and> Timer m d False (OnMissingTimeout j) \<in> set (pending (ctx q))"
    if "timers q j = Some h" for j h
  proof -
    have j: "j \<noteq> i" "timers p j = Some h" using that q(1) by (auto split: if_splits)
    then obtain m d where "h = Some m" "Timer m d False (OnMissingTimeout j) \<in> set (pending (ctx p))"
      using chase_timer [OF ok] by blast
    then show ?thesis using other [of "Timer m d False (OnMissingTimeout j)" j] j q(3) by auto
  qed
  moreover have "timers q j = Some (Some (tid t))"
    if "t \<in> set (pending (ctx q))" "tfn t = OnMissingTimeout j" for t j
    using that q own [of t] ok by (auto simp: chase_ok_def)
  ultimately show ?thesis
    using ok q unfolding chase_ok_def timers_ok_def
    by (auto simp: distinct_map_filter)
qed

lemma chase_arm:
  assumes ok: "chase_ok (insert i X) p" and no: "timers p i = None"
    and q: "timers q = (timers p)(i \<mapsto> fst (after d (OnMissingTimeout i) (ctx p)))"
      "missing q = missing p"
      "pending (ctx q) = pending (snd (after d (OnMissingTimeout i) (ctx p)))"
      "nextTimerID (ctx q) = nextTimerID (snd (after d (OnMissingTimeout i) (ctx p)))"
  shows "chase_ok X q"
proof -
  let ?n = "nextTimerID (ctx p) + 1"
  have pend: "pending (ctx q) = pending (ctx p) @ [Timer ?n d False (OnMissingTimeout i)]"
      "timers q = (timers p)(i \<mapsto> Some ?n)" "nextTimerID (ctx q) = ?n"
    using q by (simp_all add: after_def Let_def)
  have fresh: "?n \<notin> set (map tid (pending (ctx p)))"
    using ok by (fastforce simp: chase_ok_def timers_ok_def)
  have none: "tfn t \<noteq> OnMissingTimeout i" if "t \<in> set (pending (ctx p))" for t
    using ok that no by (auto simp: chase_ok_def)
  show ?thesis
    unfolding chase_ok_def
  proof (intro conjI allI impI ballI)
    show "timers_ok (ctx q)"
      using ok pend by (auto simp: chase_ok_def timers_ok_def)
    show "distinct (map tid (pending (ctx q)))"
      using ok fresh pend by (simp add: chase_ok_def)
  next
    fix j e es
    assume "missing q j = Some (e # es)" "j \<notin> X"
    then show "timers q j \<noteq> None"
      using ok pend q(2) by (auto simp: chase_ok_def)
  next
    fix j h
    assume "timers q j = Some h"
    then show "\<exists>n d. h = Some n \<and> Timer n d False (OnMissingTimeout j) \<in> set (pending (ctx q))"
      using ok pend by (cases "j = i") (auto simp: chase_ok_def)
  next
    fix t j
    assume "t \<in> set (pending (ctx q))" "tfn t = OnMissingTimeout j"
    then show "timers q j = Some (Some (tid t))"
      using ok pend none by (auto simp: chase_ok_def)
  qed
qed

lemma chase_weaken:
  "chase_ok (insert i X) p \<Longrightarrow> (\<And>e es. missing p i \<noteq> Some (e # es)) \<Longrightarrow> chase_ok X p"
  unfolding chase_ok_def by (metis insertE)

lemma chase_cancel:
  assumes "chase_ok X p"
  shows "chase_ok X (cancelMissing i p)"
proof (cases "timers p i")
  case None
  then have "cancelMissing i p = p\<lparr>missing := (missing p)(i := None)\<rparr>"
    by (simp add: cancelMissing_def)
  then show ?thesis
    using assms by (auto intro!: chase_fewer [of X p _ i])
next
  case (Some h)
  then obtain n where h: "h = Some n" using chase_timer [OF assms] by blast
  let ?p = "p\<lparr>ctx := cancel (Some n) (ctx p), timers := (timers p)(i := None)\<rparr>"
  have "chase_ok (insert i X) ?p"
    using Some h by (intro chase_forget [OF assms]) (simp_all add: cancel_def)
  then have "chase_ok (insert i X) (?p\<lparr>missing := (missing p)(i := None)\<rparr>)"
    by (rule chase_fewer [where i = i]) simp_all
  then have "chase_ok X (?p\<lparr>missing := (missing p)(i := None)\<rparr>)"
    by (rule chase_weaken) simp
  then show ?thesis using Some h by (simp add: cancelMissing_def)
qed

lemma chase_drop:
  assumes "chase_ok X p"
  shows "chase_ok X (dropAnnouncer h i p)"
proof (cases "length (filter (\<lambda>e. pgPeer e \<noteq> h) (announcers p i)) = 0")
  case True
  then show ?thesis using chase_cancel [OF assms] by (simp add: dropAnnouncer_def)
next
  case False
  then have "announcers p i \<noteq> []" by auto
  then obtain e es where "missing p i = Some (e # es)"
    by (auto simp: announcers_def neq_Nil_conv split: option.splits)
  then have "timers p i \<noteq> None \<or> i \<in> X" using assms unfolding chase_ok_def by blast
  with False show ?thesis
    by (intro chase_fewer [OF assms, where i = i]) (auto simp: dropAnnouncer_def Let_def)
qed

lemma chase_down: "chase_ok X p \<Longrightarrow> chase_ok X (onNeighborDown h p)"
proof -
  have "chase_ok X q \<Longrightarrow> chase_ok X (fold (dropAnnouncer h) is q)" for "is" q
    by (induction "is" arbitrary: q) (simp_all add: chase_drop)
  moreover assume "chase_ok X p"
  then have "chase_ok X (p\<lparr>eager := hs_remove h (eager p), lazy := hs_remove h (lazy p),
      lazyQueue := (lazyQueue p)(h := None)\<rparr>)"
    by (rule chase_frame) simp_all
  ultimately show ?thesis by (simp add: onNeighborDown_def Let_def)
qed

lemma chase_heard:
  assumes "chase_ok X p"
  shows "chase_ok X (heardAnnounce h a p)"
proof -
  let ?i = "annID a"
  let ?p = "p\<lparr>missing := (missing p)(?i \<mapsto> announcers p ?i @ [PendingGraft h (annRound a)])\<rparr>"
  have "chase_ok (insert ?i X) p" using assms by (auto simp: chase_ok_def)
  then have p: "chase_ok (insert ?i X) ?p" by (rule chase_fewer [where i = ?i]) simp_all
  consider "?i \<in> received p" | "?i \<notin> received p" "timers p ?i = None"
    | "?i \<notin> received p" "timers p ?i \<noteq> None" by blast
  then show ?thesis
  proof cases
    case 1
    then show ?thesis using assms by (simp add: heardAnnounce_def)
  next
    case 2
    then show ?thesis
      by (intro chase_arm [OF p, of _ "MissingTimeout (cfg p)"])
        (simp_all add: heardAnnounce_def Let_def after_def)
  next
    case 3
    then have "heardAnnounce h a p = ?p" by (auto simp: heardAnnounce_def Let_def)
    moreover have "chase_ok X ?p"
      using 3 by (intro chase_fewer [OF assms, where i = ?i]) simp_all
    ultimately show ?thesis by simp
  qed
qed

lemma chase_IHave: "chase_ok X p \<Longrightarrow> chase_ok X (onIHave as h p)"
  unfolding onIHave_def by (induction as arbitrary: p) (simp_all add: chase_heard)

lemma chase_timeout:
  assumes p: "chase_ok (insert i X) (p\<lparr>timers := (timers p)(i := None)\<rparr>)"
  shows "chase_ok X (onMissingTimeout i p)"
proof (cases "i \<in> received p")
  case True
  have "chase_ok (insert i X) (p\<lparr>timers := (timers p)(i := None), missing := (missing p)(i := None)\<rparr>)"
    by (rule chase_fewer [OF p, where i = i]) simp_all
  then have "chase_ok X (p\<lparr>timers := (timers p)(i := None), missing := (missing p)(i := None)\<rparr>)"
    by (rule chase_weaken) simp
  with True show ?thesis by (simp add: onMissingTimeout_def)
next
  case False
  show ?thesis
  proof (cases "announcers p i")
    case Nil
    then have "missing p i \<noteq> Some (e # es)" for e es
      by (auto simp: announcers_def split: option.splits)
    then show ?thesis
      using False Nil chase_weaken [OF p] by (simp add: onMissingTimeout_def announcers_def)
  next
    case (Cons e es)
    let ?p = "p\<lparr>timers := (timers p)(i := None), missing := (missing p)(i \<mapsto> es)\<rparr>"
    have "chase_ok (insert i X) ?p" by (rule chase_fewer [OF p, where i = i]) simp_all
    then show ?thesis
      by (rule chase_arm [of _ _ _ _ "GraftRetryTimeout (cfg p)"])
        (use False Cons in \<open>simp_all add: onMissingTimeout_def announcers_def after_def Let_def\<close>)
  qed
qed

lemma find_unique:
  assumes "x \<in> set xs" "P x" "\<And>y. y \<in> set xs \<Longrightarrow> P y \<Longrightarrow> y = x"
  shows "find P xs = Some x"
proof (cases "find P xs")
  case None
  then show ?thesis using assms(1,2) by (simp add: find_None_iff)
next
  case (Some y)
  then have "y \<in> set xs" "P y" by (auto simp: find_Some_iff)
  then show ?thesis using Some assms(3) by simp
qed

lemma find_tid:
  assumes ok: "chase_ok X p" and t: "t \<in> set (pending (ctx p))"
  shows "find (\<lambda>u. tid u = tid t) (pending (ctx p)) = Some t"
proof (rule find_unique [OF t])
  show "tid t = tid t" ..
  show "u = t" if "u \<in> set (pending (ctx p))" "tid u = tid t" for u
    using chase_unique [OF ok that(1) t that(2)] .
qed

lemma chase_fire:
  assumes ok: "chase_ok X p" and t: "t \<in> set (pending (ctx p))" "tfn t = FlushLazy"
  shows "chase_ok X (p\<lparr>ctx := fire t (ctx p)\<rparr>)"
proof -
  have keep: "u \<in> set (pending (fire t (ctx p)))"
    if "u \<in> set (pending (ctx p))" "tfn u = OnMissingTimeout i" for u i
    using that t chase_unique [OF ok that(1) t(1)] by (auto simp: fire_def)
  have "\<exists>n d. h = Some n \<and> Timer n d False (OnMissingTimeout i) \<in> set (pending (fire t (ctx p)))"
    if "timers p i = Some h" for i h
    using chase_timer [OF ok that] keep by force
  moreover have "set (pending (fire t (ctx p))) \<subseteq> set (pending (ctx p))"
    "distinct (map tid (pending (fire t (ctx p))))"
    using ok by (auto simp: fire_def chase_ok_def distinct_map_filter)
  ultimately show ?thesis using ok unfolding chase_ok_def by auto
qed

lemma chase_step:
  assumes ok: "chase_ok {} p"
  shows "chase_ok {} (plum_step e p)"
proof (cases e)
  case (PlumMsg m h)
  have "chase_ok {} (onGossip i r v h p)" for i r v
  proof (cases "i \<in> received p")
    case True
    then show ?thesis by (intro chase_frame [OF ok]) (simp_all add: onGossip_def Let_def)
  next
    case False
    let ?p = "cancelMissing i (p\<lparr>received := insert i (received p), cache := cache_put i v (cache p)\<rparr>)"
    have "chase_ok {} ?p" by (intro chase_cancel chase_frame [OF ok]) simp_all
    then show ?thesis
      by (rule chase_frame) (use False in \<open>simp_all add: onGossip_def Let_def\<close>)
  qed
  moreover have "chase_ok {} (onGraft i r h p)" "chase_ok {} (onPrune h p)" for i r
    by (auto simp: onGraft_def onPrune_def Let_def intro!: chase_frame [OF ok] split: option.splits)
  ultimately show ?thesis using PlumMsg chase_IHave [OF ok] by (cases m) simp_all
next
  case (PlumTimer n)
  show ?thesis
  proof (cases "find (\<lambda>t. tid t = n) (pending (ctx p))")
    case None
    then show ?thesis using ok PlumTimer by simp
  next
    case (Some t)
    then have t: "t \<in> set (pending (ctx p))" "tid t = n" by (auto simp: find_Some_iff)
    show ?thesis
    proof (cases "tfn t")
      case (OnMissingTimeout i)
      then have ti: "timers p i = Some (Some n)" using ok t by (auto simp: chase_ok_def)
      then obtain d where "Timer n d False (OnMissingTimeout i) \<in> set (pending (ctx p))"
        using chase_timer [OF ok] by blast
      then have "t = Timer n d False (OnMissingTimeout i)"
        using chase_unique [OF ok t(1)] t(2) by simp
      then have "\<not> tperiodic t" by simp
      then have "chase_ok {i} (p\<lparr>ctx := fire t (ctx p), timers := (timers p)(i := None)\<rparr>)"
        using t(2) by (intro chase_forget [OF ok ti]) (simp_all add: fire_def)
      then show ?thesis
        using Some PlumTimer OnMissingTimeout by (auto intro!: chase_timeout)
    next
      case FlushLazy
      have "chase_ok {} (flushLazy (p\<lparr>ctx := fire t (ctx p)\<rparr>))"
        by (rule chase_frame [OF chase_fire [OF ok t(1) FlushLazy]]) simp_all
      then show ?thesis using Some PlumTimer FlushLazy by simp
    qed
  qed
next
  case (PlumDown h)
  then show ?thesis using chase_down [OF ok] by simp
qed (auto simp: onNeighborUp_def handleBroadcast_def handleDebugStats_def Let_def
       intro!: chase_frame [OF ok])

lemma chase_run: "chase_ok {} (plum_run me c ce evs)"
proof -
  have "chase_ok {} p \<Longrightarrow> chase_ok {} (fold plum_step es p)" for es p
    by (induction es arbitrary: p) (simp_all add: chase_step)
  moreover have "chase_ok {} (plum_Init (plum_New me c ce))"
    by (simp add: chase_ok_def plum_Init_def every_def timers_ok_def newCtx_def emit_def Let_def)
  ultimately show ?thesis by (simp add: plum_run_def)
qed

lemma timeout_grafts:
  assumes "i \<notin> received p" "missing p i = Some (e # es)"
  shows "out (ctx (onMissingTimeout i p)) = out (ctx p) @ [Sent (Graft i (pgRound e)) (pgPeer e)]"
    and "missing (onMissingTimeout i p) i = Some es"
    and "pgPeer e \<in> eager (onMissingTimeout i p)"
    and "timers (onMissingTimeout i p) i \<noteq> None"
  using assms by (simp_all add: onMissingTimeout_def announcers_def after_def emit_def Let_def)


definition pxHeard :: "plum_event list" where
  "pxHeard = [PlumUp pxB, PlumMsg (IHave [Announce (MessageID pxB 1) 0]) pxB]"


end
