(* ===== verification/HyParView_Messages.thy ===== *)
theory HyParView_Messages
  imports Transport_Host
begin

text \<open>
  \<open>pkg/protocols/hyparview/messages.go\<close>: the membership messages and their wire form.  Host lists
  are a 16-bit count followed by the hosts.
\<close>

datatype hv_msg =
    Join
  | ForwardJoin (NewNode: Host) (TTL: uint32)
  | Neighbor bool
  | NeighborReply bool
  | Disconnect
  | Shuffle Host uint32 "Host list" "Host list" "Host list"
  | ShuffleReply "Host list" "Host list"

definition marshalBool :: "bool \<Rightarrow> bytes" where
  "marshalBool v = (if v then [1] else [0])"

definition unmarshalBool :: "bytes \<Rightarrow> bool" where
  "unmarshalBool b \<longleftrightarrow> length b > 0 \<and> b ! 0 \<noteq> 0"

definition writeHostList :: "bytes \<Rightarrow> Host list \<Rightarrow> ioerror + bytes" where
  "writeHostList b hosts =
     bindE (WriteUint16 b (word_of_nat (length hosts))) (\<lambda>b. writeAll WriteHost b hosts)"

definition readHostList :: "bytes \<Rightarrow> ioerror + Host list \<times> bytes" where
  "readHostList r =
     bindE (ReadUint16 r) (\<lambda>(n, r). if n = 0 then Inr ([], r) else readN ReadHost (unat n) r)"

definition Join_MarshalWire :: "ioerror + bytes" where
  "Join_MarshalWire = Inr []"

definition Join_UnmarshalWire :: "bytes \<Rightarrow> ioerror + hv_msg" where
  "Join_UnmarshalWire d = Inr Join"

definition ForwardJoin_MarshalWire :: "Host \<Rightarrow> uint32 \<Rightarrow> ioerror + bytes" where
  "ForwardJoin_MarshalWire n ttl = bindE (WriteHost [] n) (\<lambda>b. WriteUint32 b ttl)"

definition ForwardJoin_UnmarshalWire :: "bytes \<Rightarrow> ioerror + hv_msg" where
  "ForwardJoin_UnmarshalWire d =
     bindE (ReadHost d) (\<lambda>(h, r). bindE (ReadUint32 r) (\<lambda>(ttl, r). Inr (ForwardJoin h ttl)))"

definition Neighbor_MarshalWire :: "bool \<Rightarrow> ioerror + bytes" where
  "Neighbor_MarshalWire v = Inr (marshalBool v)"

definition Neighbor_UnmarshalWire :: "bytes \<Rightarrow> ioerror + hv_msg" where
  "Neighbor_UnmarshalWire d = Inr (Neighbor (unmarshalBool d))"

definition NeighborReply_MarshalWire :: "bool \<Rightarrow> ioerror + bytes" where
  "NeighborReply_MarshalWire v = Inr (marshalBool v)"

definition NeighborReply_UnmarshalWire :: "bytes \<Rightarrow> ioerror + hv_msg" where
  "NeighborReply_UnmarshalWire d = Inr (NeighborReply (unmarshalBool d))"

definition Disconnect_MarshalWire :: "ioerror + bytes" where
  "Disconnect_MarshalWire = Inr []"

definition Disconnect_UnmarshalWire :: "bytes \<Rightarrow> ioerror + hv_msg" where
  "Disconnect_UnmarshalWire d = Inr Disconnect"

definition Shuffle_MarshalWire ::
  "Host \<Rightarrow> uint32 \<Rightarrow> Host list \<Rightarrow> Host list \<Rightarrow> Host list \<Rightarrow> ioerror + bytes" where
  "Shuffle_MarshalWire origin ttl act pas path =
     bindE (WriteHost [] origin) (\<lambda>b.
     bindE (WriteUint32 b ttl) (\<lambda>b.
     bindE (writeHostList b act) (\<lambda>b.
     bindE (writeHostList b pas) (\<lambda>b.
     writeHostList b path))))"

definition Shuffle_UnmarshalWire :: "bytes \<Rightarrow> ioerror + hv_msg" where
  "Shuffle_UnmarshalWire d =
     bindE (ReadHost d) (\<lambda>(origin, r).
     bindE (ReadUint32 r) (\<lambda>(ttl, r).
     bindE (readHostList r) (\<lambda>(act, r).
     bindE (readHostList r) (\<lambda>(pas, r).
     bindE (readHostList r) (\<lambda>(path, r).
     Inr (Shuffle origin ttl act pas path))))))"

definition ShuffleReply_MarshalWire :: "Host list \<Rightarrow> Host list \<Rightarrow> ioerror + bytes" where
  "ShuffleReply_MarshalWire ns route =
     bindE (writeHostList [] ns) (\<lambda>b. writeHostList b route)"

definition ShuffleReply_UnmarshalWire :: "bytes \<Rightarrow> ioerror + hv_msg" where
  "ShuffleReply_UnmarshalWire d =
     bindE (readHostList d) (\<lambda>(ns, r).
     bindE (readHostList r) (\<lambda>(route, r). Inr (ShuffleReply ns route)))"

fun hv_WireName :: "hv_msg \<Rightarrow> string" where
  "hv_WireName Join = ''hyparview.Join''"
| "hv_WireName (ForwardJoin _ _) = ''hyparview.ForwardJoin''"
| "hv_WireName (Neighbor _) = ''hyparview.Neighbor''"
| "hv_WireName (NeighborReply _) = ''hyparview.NeighborReply''"
| "hv_WireName Disconnect = ''hyparview.Disconnect''"
| "hv_WireName (Shuffle _ _ _ _ _) = ''hyparview.Shuffle''"
| "hv_WireName (ShuffleReply _ _) = ''hyparview.ShuffleReply''"

fun hv_Marshal :: "hv_msg \<Rightarrow> ioerror + bytes" where
  "hv_Marshal Join = Join_MarshalWire"
| "hv_Marshal (ForwardJoin n t) = ForwardJoin_MarshalWire n t"
| "hv_Marshal (Neighbor v) = Neighbor_MarshalWire v"
| "hv_Marshal (NeighborReply v) = NeighborReply_MarshalWire v"
| "hv_Marshal Disconnect = Disconnect_MarshalWire"
| "hv_Marshal (Shuffle h t a p q) = Shuffle_MarshalWire h t a p q"
| "hv_Marshal (ShuffleReply ns r) = ShuffleReply_MarshalWire ns r"

definition hv_Unmarshal :: "string \<Rightarrow> bytes \<Rightarrow> (ioerror + hv_msg) option" where
  "hv_Unmarshal name d =
     (if name = ''hyparview.Join'' then Some (Join_UnmarshalWire d)
      else if name = ''hyparview.ForwardJoin'' then Some (ForwardJoin_UnmarshalWire d)
      else if name = ''hyparview.Neighbor'' then Some (Neighbor_UnmarshalWire d)
      else if name = ''hyparview.NeighborReply'' then Some (NeighborReply_UnmarshalWire d)
      else if name = ''hyparview.Disconnect'' then Some (Disconnect_UnmarshalWire d)
      else if name = ''hyparview.Shuffle'' then Some (Shuffle_UnmarshalWire d)
      else if name = ''hyparview.ShuffleReply'' then Some (ShuffleReply_UnmarshalWire d)
      else None)"

subsection \<open>Round trip\<close>

lemma writeHostList_counted: "writeHostList = writeCounted16 WriteHost"
  by (intro ext) (simp add: writeHostList_def writeCounted16_def)

lemma readHostList_counted: "readHostList = readCounted16 ReadHost"
  by (intro ext) (auto simp: readHostList_def readCounted16_def intro!: arg_cong [where f = "bindE _"])

interpretation hosts: wire_codec writeHostList readHostList
  "counted16_image host_image" "counted16_ok host_ok"
  unfolding writeHostList_counted readHostList_counted by (rule host.counted16)

fun hv_ok :: "hv_msg \<Rightarrow> bool" where
  "hv_ok (ForwardJoin n _) = host_ok n"
| "hv_ok (Shuffle h _ a p q) =
     (host_ok h \<and> counted16_ok host_ok a \<and> counted16_ok host_ok p \<and> counted16_ok host_ok q)"
| "hv_ok (ShuffleReply ns r) = (counted16_ok host_ok ns \<and> counted16_ok host_ok r)"
| "hv_ok _ = True"

lemma unmarshal_marshalBool [simp]: "unmarshalBool (marshalBool v) = v"
  by (simp add: unmarshalBool_def marshalBool_def)

lemmas hv_codec_defs =
  Join_MarshalWire_def Join_UnmarshalWire_def ForwardJoin_MarshalWire_def ForwardJoin_UnmarshalWire_def
  Neighbor_MarshalWire_def Neighbor_UnmarshalWire_def NeighborReply_MarshalWire_def
  NeighborReply_UnmarshalWire_def Disconnect_MarshalWire_def Disconnect_UnmarshalWire_def
  Shuffle_MarshalWire_def Shuffle_UnmarshalWire_def ShuffleReply_MarshalWire_def
  ShuffleReply_UnmarshalWire_def

text \<open>
  Round trip of the membership messages: a message whose hosts and host lists fit their length
  prefixes is encoded, and decoding the bytes under its wire name gives it back.
\<close>

theorem hv_wire_roundtrip:
  assumes "hv_ok m"
  shows "\<exists>d. hv_Marshal m = Inr d \<and> hv_Unmarshal (hv_WireName m) d = Some (Inr m)"
  using assms
  by (cases m)
    (simp_all add: hv_codec_defs hv_Unmarshal_def wire_simps host.wr_image host.rd_image
      hosts.wr_image hosts.rd_image hosts.rd_image_nil)

theorem hv_wire_roundtrip_witness:
  "\<exists>d. hv_Marshal (ShuffleReply [Host 7 ''a''] []) = Inr d \<and>
     hv_Unmarshal ''hyparview.ShuffleReply'' d = Some (Inr (ShuffleReply [Host 7 ''a''] []))"
  using hv_wire_roundtrip [of "ShuffleReply [Host 7 ''a''] []"]
  by (simp add: counted16_ok_def host_ok_def)

end
