(* ===== verification/Membership.thy ===== *)
theory Membership
  imports Host_Set
begin

text \<open>
  \<open>pkg/protocols/membership\<close>: what a membership protocol tells the protocols above it.  It publishes
  \<open>NeighborUp\<close> and \<open>NeighborDown\<close> as peers enter and leave the active view and answers \<open>GetView\<close> with
  a snapshot.  A subscriber that applies what it is told, in order, should hold the active view:
  this is the contract, stated as a locale over any membership protocol.  \<open>ViewsReply\<close> is HyParView's
  own \<open>DebugStateReply\<close>, which is not part of the contract.
\<close>

datatype member_note = NeighborUp Host | NeighborDown Host

datatype member_reply = View "Host list" | ViewsReply "Host list" "Host list"

text \<open>What one effect of the membership protocol says about the neighbours.\<close>

fun hear :: "('m, member_note, member_reply, 'w) effect \<Rightarrow> Host set \<Rightarrow> Host set" where
  "hear (Published (NeighborUp h)) N = insert h N"
| "hear (Published (NeighborDown h)) N = N - {h}"
| "hear (Replied (View hs)) N = N \<union> set hs"
| "hear _ N = N"

text \<open>
  A notification is news: \<open>NeighborUp\<close> names a host that was not a neighbour, \<open>NeighborDown\<close> one that
  was, and a snapshot lists the neighbours exactly.
\<close>

fun news :: "('m, member_note, member_reply, 'w) effect \<Rightarrow> Host set \<Rightarrow> bool" where
  "news (Published (NeighborUp h)) N \<longleftrightarrow> h \<notin> N"
| "news (Published (NeighborDown h)) N \<longleftrightarrow> h \<in> N"
| "news (Replied (View hs)) N \<longleftrightarrow> set hs = N"
| "news _ N \<longleftrightarrow> True"

fun all_news :: "('m, member_note, member_reply, 'w) effect list \<Rightarrow> Host set \<Rightarrow> bool" where
  "all_news [] N \<longleftrightarrow> True"
| "all_news (e # es) N \<longleftrightarrow> news e N \<and> all_news es (hear e N)"

definition heard :: "('m, member_note, member_reply, 'w) effect list \<Rightarrow> Host set" where
  "heard es = fold hear es {}"

lemma heard_snoc [simp]: "heard (es @ [e]) = hear e (heard es)"
  by (simp add: heard_def)

lemma all_news_snoc [simp]: "all_news (es @ [e]) N \<longleftrightarrow> all_news es N \<and> news e (fold hear es N)"
  by (induction es arbitrary: N) auto

locale membership =
  fixes start :: 'p and step :: "'e \<Rightarrow> 'p \<Rightarrow> 'p"
    and view :: "'p \<Rightarrow> Host set"
    and said :: "'p \<Rightarrow> ('m, member_note, member_reply, 'w) effect list"
    and ok :: "'p \<Rightarrow> bool"
  assumes ok_start: "ok start"
    and ok_step: "ok p \<Longrightarrow> ok (step e p)"
    and ok_heard: "ok p \<Longrightarrow> view p = heard (said p)"
    and ok_news: "ok p \<Longrightarrow> all_news (said p) {}"
begin

lemma run_ok: "ok (fold step es start)"
proof -
  have "ok p \<Longrightarrow> ok (fold step es p)" for p
    by (induction es arbitrary: p) (simp_all add: ok_step)
  then show ?thesis by (simp add: ok_start)
qed

text \<open>A subscriber that follows the effects holds the active view.\<close>

lemma subscriber_view: "heard (said (fold step es start)) = view (fold step es start)"
  using ok_heard [OF run_ok] by simp

lemma subscriber_news: "all_news (said (fold step es start)) {}"
  using ok_news [OF run_ok] .

end

end
