(* ===== verification/HyParView.thy ===== *)
theory HyParView
  imports HyParView_Messages Membership
begin

text \<open>
  \<open>pkg/protocols/hyparview\<close>: one HyParView instance (\<open>protocol.go\<close>, \<open>config.go\<close>).  Each handler, timer
  callback and session hook is a function on the instance; the hosts a random pick excludes are a
  set, which is how \<open>filterExcept\<close> uses them.
\<close>

subsection \<open>Data\<close>

record HvConfig =
  Contacts :: "Host list"
  ActiveSize :: int
  PassiveSize :: int
  ARWL :: int
  PRWL :: int
  ShuffleActive :: int
  ShufflePassive :: int
  ShuffleInterval :: duration
  JoinInterval :: duration
  NeighborTimeout :: duration

definition hv_fillDefaults :: "HvConfig \<Rightarrow> HvConfig" where
  "hv_fillDefaults c =
     (let c = c\<lparr>ActiveSize := intOr (ActiveSize c) 5\<rparr>;
          c = c\<lparr>PassiveSize := intOr (PassiveSize c) 30\<rparr>;
          c = c\<lparr>ARWL := intOr (ARWL c) 6\<rparr>;
          c = c\<lparr>PRWL := intOr (PRWL c) 3\<rparr>;
          c = c\<lparr>ShuffleActive := intOr (ShuffleActive c) 3\<rparr>;
          c = c\<lparr>ShufflePassive := intOr (ShufflePassive c) 4\<rparr>;
          c = c\<lparr>ShuffleInterval := durOr (ShuffleInterval c) (10 * second)\<rparr>;
          c = c\<lparr>JoinInterval := durOr (JoinInterval c) (5 * second)\<rparr>;
          c = c\<lparr>NeighborTimeout := durOr (NeighborTimeout c) (3 * second)\<rparr>
      in if PRWL c \<ge> ARWL c then c\<lparr>PRWL := ARWL c - 1\<rparr> else c)"

datatype intentKind = IntentJoin | IntentNeighbor

datatype outIntent = OutIntent (ikind: intentKind) (ipriority: bool) (itimer: TimerHandle)

datatype hv_cb = OnAttemptTimeout Host | OnShuffleTick | OnMaintenanceTick

type_synonym hv_ctx = "(hv_cb, hv_msg, member_note, member_reply, unit) proto_ctx"

record hyparview =
  cfg :: HvConfig
  ctx :: hv_ctx
  self :: Host
  rng :: "nat stream"
  active :: hostSet
  passives :: hostSet
  sessions :: hostSet
  pendings :: "Host \<rightharpoonup> outIntent"

definition hv_New :: "Host \<Rightarrow> HvConfig \<Rightarrow> (Host \<Rightarrow> bool) \<Rightarrow> hyparview" where
  "hv_New me c ce =
     (let c = hv_fillDefaults c
      in \<lparr>cfg = c, ctx = newCtx ce, self = me, rng = sconst 0, active = newHostSet,
          passives = newHostSet, sessions = newHostSet, pendings = Map.empty\<rparr>)"

subsection \<open>Calls into the context\<close>

definition hv_send :: "hv_msg \<Rightarrow> Host \<Rightarrow> hyparview \<Rightarrow> hyparview" where
  "hv_send m h p = p\<lparr>ctx := emit (Sent m h) (ctx p)\<rparr>"

definition hv_publish :: "member_note \<Rightarrow> hyparview \<Rightarrow> hyparview" where
  "hv_publish n p = p\<lparr>ctx := emit (Published n) (ctx p)\<rparr>"

definition hv_connect :: "Host \<Rightarrow> hyparview \<Rightarrow> hyparview" where
  "hv_connect h p = p\<lparr>ctx := emit (Connects h) (ctx p)\<rparr>"

definition hv_disconnect :: "Host \<Rightarrow> hyparview \<Rightarrow> hyparview" where
  "hv_disconnect h p = p\<lparr>ctx := emit (Disconnects h) (ctx p)\<rparr>"

text \<open>A random pick, with the generator stepped.\<close>

definition pick_active :: "Host set \<Rightarrow> hyparview \<Rightarrow> Host option \<times> hyparview" where
  "pick_active X p = (let (h, g) = randomExcept (active p) (rng p) X in (h, p\<lparr>rng := g\<rparr>))"

definition pick_passive :: "Host set \<Rightarrow> hyparview \<Rightarrow> Host option \<times> hyparview" where
  "pick_passive X p = (let (h, g) = randomExcept (passives p) (rng p) X in (h, p\<lparr>rng := g\<rparr>))"

subsection \<open>View manipulation\<close>

definition removeActive :: "Host \<Rightarrow> hyparview \<Rightarrow> hyparview" where
  "removeActive host p =
     (if \<not> hs_contains host (active p) then p
      else hv_publish (NeighborDown host) (p\<lparr>active := hs_remove host (active p)\<rparr>))"

definition addPassive :: "Host \<Rightarrow> hyparview \<Rightarrow> hyparview" where
  "addPassive host p =
     (if host = self p \<or> hs_contains host (active p) \<or> hs_contains host (passives p) then p
      else let p = (if int (hs_len (passives p)) \<ge> PassiveSize (cfg p)
                    then case pick_passive {} p of
                           (Some v, p) \<Rightarrow> p\<lparr>passives := hs_remove v (passives p)\<rparr>
                         | (None, p) \<Rightarrow> p
                    else p)
           in p\<lparr>passives := hs_add host (passives p)\<rparr>)"

definition integratePassive :: "Host list \<Rightarrow> hyparview \<Rightarrow> hyparview" where
  "integratePassive hosts p = fold addPassive hosts p"

definition dropRandomActive :: "Host \<Rightarrow> hyparview \<Rightarrow> hyparview" where
  "dropRandomActive keep p =
     (case pick_active {keep} p of
        (None, p) \<Rightarrow> p
      | (Some victim, p) \<Rightarrow>
          let p = removeActive victim p;
              p = addPassive victim p;
              p = hv_send Disconnect victim p
          in hv_disconnect victim p)"

definition addActive :: "Host \<Rightarrow> hyparview \<Rightarrow> hyparview" where
  "addActive host p =
     (if host = self p \<or> hs_contains host (active p) then p
      else let p = (if int (hs_len (active p)) \<ge> ActiveSize (cfg p) then dropRandomActive host p else p);
               p = p\<lparr>passives := hs_remove host (passives p)\<rparr>;
               p = p\<lparr>active := hs_add host (active p)\<rparr>
           in hv_publish (NeighborUp host) p)"

subsection \<open>Outgoing attempts\<close>

definition clearPending :: "Host \<Rightarrow> outIntent \<Rightarrow> hyparview \<Rightarrow> hyparview" where
  "clearPending host intent p =
     p\<lparr>ctx := cancel (itimer intent) (ctx p), pendings := (pendings p)(host := None)\<rparr>"

definition driveIntent :: "Host \<Rightarrow> outIntent \<Rightarrow> hyparview \<Rightarrow> hyparview" where
  "driveIntent host intent p =
     (case ikind intent of
        IntentJoin \<Rightarrow>
          let p = hv_send Join host p;
              p = clearPending host intent p
          in addActive host p
      | IntentNeighbor \<Rightarrow> hv_send (Neighbor (ipriority intent)) host p)"

definition openActive :: "Host \<Rightarrow> intentKind \<Rightarrow> bool \<Rightarrow> hyparview \<Rightarrow> hyparview" where
  "openActive host kind priority p =
     (if host = self p \<or> hs_contains host (active p) \<or> pendings p host \<noteq> None then p
      else let (tm, c) = after (NeighborTimeout (cfg p)) (OnAttemptTimeout host) (ctx p);
               p = p\<lparr>ctx := c\<rparr>;
               intent = OutIntent kind priority tm;
               p = p\<lparr>pendings := (pendings p)(host \<mapsto> intent)\<rparr>
           in if hs_contains host (sessions p) then driveIntent host intent p
              else let p = hv_connect host p
                   in if connectErr (ctx p) host then clearPending host intent p else p)"

definition pendingCount :: "hyparview \<Rightarrow> nat" where
  "pendingCount p = card (dom (pendings p))"

definition pendingHosts :: "hyparview \<Rightarrow> Host set" where
  "pendingHosts p = dom (pendings p)"

definition promote :: "hyparview \<Rightarrow> hyparview" where
  "promote p =
     (if int (hs_len (active p)) + int (pendingCount p) \<ge> ActiveSize (cfg p) then p
      else case pick_passive (pendingHosts p) p of
             (None, p) \<Rightarrow> p
           | (Some cand, p) \<Rightarrow> openActive cand IntentNeighbor (hs_len (active p) = 0) p)"

definition onAttemptTimeout :: "Host \<Rightarrow> hyparview \<Rightarrow> hyparview" where
  "onAttemptTimeout host p =
     (case pendings p host of
        None \<Rightarrow> p
      | Some intent \<Rightarrow>
          if hs_contains host (active p) then p
          else let p = p\<lparr>pendings := (pendings p)(host := None)\<rparr>;
                   p = hv_disconnect host p
               in if ikind intent = IntentNeighbor then promote p else p)"

subsection \<open>Session hooks\<close>

definition hv_OnSessionConnected :: "Host \<Rightarrow> hyparview \<Rightarrow> hyparview" where
  "hv_OnSessionConnected host p =
     (let p = p\<lparr>sessions := hs_add host (sessions p)\<rparr>
      in case pendings p host of None \<Rightarrow> p | Some intent \<Rightarrow> driveIntent host intent p)"

definition onSessionDown :: "Host \<Rightarrow> hyparview \<Rightarrow> hyparview" where
  "onSessionDown host p =
     (let p = p\<lparr>sessions := hs_remove host (sessions p)\<rparr>;
          p = (case pendings p host of None \<Rightarrow> p | Some intent \<Rightarrow> clearPending host intent p)
      in if hs_contains host (active p) then promote (removeActive host p) else p)"

definition hv_OnSessionDisconnected :: "Host \<Rightarrow> hyparview \<Rightarrow> hyparview" where
  "hv_OnSessionDisconnected host p = onSessionDown host p"

definition hv_OnSessionGivenUp :: "Host \<Rightarrow> hyparview \<Rightarrow> hyparview" where
  "hv_OnSessionGivenUp host p = onSessionDown host p"

subsection \<open>Messages\<close>

definition onJoin :: "Host \<Rightarrow> hyparview \<Rightarrow> hyparview" where
  "onJoin from p =
     (let p = addActive from p
      in fold (\<lambda>n p. if n = from then p
               else hv_send (ForwardJoin from (word_of_int (ARWL (cfg p)))) n p)
           (hs_sorted (active p)) p)"

definition onForwardJoin :: "Host \<Rightarrow> uint32 \<Rightarrow> Host \<Rightarrow> hyparview \<Rightarrow> hyparview" where
  "onForwardJoin newNode ttl from p =
     (if newNode = self p then p
      else let p = (if ttl = word_of_int (PRWL (cfg p)) then addPassive newNode p else p)
           in if ttl = 0 \<or> hs_len (active p) \<le> 1 then openActive newNode IntentNeighbor False p
              else case pick_active {from, newNode} p of
                     (None, p) \<Rightarrow> openActive newNode IntentNeighbor False p
                   | (Some n, p) \<Rightarrow> hv_send (ForwardJoin newNode (ttl - 1)) n p)"

definition onNeighbor :: "bool \<Rightarrow> Host \<Rightarrow> hyparview \<Rightarrow> hyparview" where
  "onNeighbor priority from p =
     (if hs_contains from (active p) then hv_send (NeighborReply True) from p
      else if priority \<or> int (hs_len (active p)) < ActiveSize (cfg p)
      then hv_send (NeighborReply True) from (addActive from p)
      else addPassive from (hv_send (NeighborReply False) from p))"

definition onNeighborReply :: "bool \<Rightarrow> Host \<Rightarrow> hyparview \<Rightarrow> hyparview" where
  "onNeighborReply accepted from p =
     (case pendings p from of
        None \<Rightarrow> p
      | Some intent \<Rightarrow>
          let p = clearPending from intent p
          in if accepted then addActive from p
             else promote (hv_disconnect from (addPassive from p)))"

definition onDisconnect :: "Host \<Rightarrow> hyparview \<Rightarrow> hyparview" where
  "onDisconnect from p =
     (if \<not> hs_contains from (active p) then p
      else promote (addPassive from (removeActive from p)))"

subsection \<open>Shuffle\<close>

definition onShuffleTick :: "hyparview \<Rightarrow> hyparview" where
  "onShuffleTick p =
     (case pick_active {} p of
        (None, p) \<Rightarrow> p
      | (Some q, p) \<Rightarrow>
          let (act, g) = randomSample (active p) (rng p) (nat (ShuffleActive (cfg p))) {q};
              (pas, g) = randomSample (passives p) g (nat (ShufflePassive (cfg p))) {};
              p = p\<lparr>rng := g\<rparr>
          in hv_send (Shuffle (self p) (word_of_int (ARWL (cfg p))) act pas [self p]) q p)"

definition appendHost :: "Host list \<Rightarrow> Host \<Rightarrow> Host list" where
  "appendHost path host = path @ [host]"

definition combineHosts :: "Host \<Rightarrow> Host list \<Rightarrow> Host list \<Rightarrow> Host list" where
  "combineHosts origin act pas = [origin] @ act @ pas"

definition acceptShuffle ::
  "Host \<Rightarrow> Host list \<Rightarrow> Host list \<Rightarrow> Host list \<Rightarrow> hyparview \<Rightarrow> hyparview" where
  "acceptShuffle origin act pas path p =
     (let offered = combineHosts origin act pas;
          (reply, g) = randomSample (passives p) (rng p) (length offered) {};
          p = p\<lparr>rng := g\<rparr>;
          p = integratePassive offered p
      in if length path = 0 then p
         else hv_send (ShuffleReply reply path) (path ! (length path - 1)) p)"

definition onShuffle ::
  "Host \<Rightarrow> uint32 \<Rightarrow> Host list \<Rightarrow> Host list \<Rightarrow> Host list \<Rightarrow> Host \<Rightarrow> hyparview \<Rightarrow> hyparview" where
  "onShuffle origin ttl act pas path from p =
     (if origin \<noteq> self p \<and> ttl > 0 \<and> hs_len (active p) > 1
      then case pick_active {from, origin} p of
             (Some n, p) \<Rightarrow>
               hv_send (Shuffle origin (ttl - 1) act pas (appendHost path (self p))) n p
           | (None, p) \<Rightarrow> acceptShuffle origin act pas path p
      else acceptShuffle origin act pas path p)"

definition onShuffleReply :: "Host list \<Rightarrow> Host list \<Rightarrow> hyparview \<Rightarrow> hyparview" where
  "onShuffleReply hosts route p =
     (let route = (if length route > 0 \<and> route ! (length route - 1) = self p
                   then take (length route - 1) route else route)
      in if length route = 0 then integratePassive hosts p
         else hv_send (ShuffleReply hosts route) (route ! (length route - 1)) p)"

subsection \<open>Maintenance, requests and initialisation\<close>

definition joinContacts :: "hyparview \<Rightarrow> hyparview" where
  "joinContacts p = fold (\<lambda>c. openActive c IntentJoin False) (Contacts (cfg p)) p"

definition onMaintenanceTick :: "hyparview \<Rightarrow> hyparview" where
  "onMaintenanceTick p =
     (if hs_len (active p) = 0 \<and> card (dom (pendings p)) = 0 then joinContacts p
      else if int (hs_len (active p)) < ActiveSize (cfg p) then promote p else p)"

definition handleGetView :: "hyparview \<Rightarrow> hyparview" where
  "handleGetView p = p\<lparr>ctx := emit (Replied (View (hs_sorted (active p)))) (ctx p)\<rparr>"

definition hv_handleDebugState :: "hyparview \<Rightarrow> hyparview" where
  "hv_handleDebugState p =
     p\<lparr>ctx := emit (Replied (ViewsReply (hs_sorted (active p)) (hs_sorted (passives p)))) (ctx p)\<rparr>"

definition hv_Init :: "(uint64 \<Rightarrow> uint64 \<Rightarrow> nat stream) \<Rightarrow> hyparview \<Rightarrow> hyparview" where
  "hv_Init newPCG p =
     (let (s1, s2) = seedFromHost (self p);
          p = p\<lparr>rng := newPCG s1 s2\<rparr>;
          p = joinContacts p;
          (h, c) = every (ShuffleInterval (cfg p)) OnShuffleTick (ctx p);
          p = p\<lparr>ctx := c\<rparr>;
          (h, c) = every (JoinInterval (cfg p)) OnMaintenanceTick (ctx p)
      in p\<lparr>ctx := c\<rparr>)"

text \<open>Everything that can happen to an instance: what \<open>Start\<close> registers, the hooks and the timers.\<close>

fun hv_handle :: "hv_msg \<Rightarrow> Host \<Rightarrow> hyparview \<Rightarrow> hyparview" where
  "hv_handle Join from p = onJoin from p"
| "hv_handle (ForwardJoin n ttl) from p = onForwardJoin n ttl from p"
| "hv_handle (Neighbor priority) from p = onNeighbor priority from p"
| "hv_handle (NeighborReply accepted) from p = onNeighborReply accepted from p"
| "hv_handle Disconnect from p = onDisconnect from p"
| "hv_handle (Shuffle origin ttl act pas path) from p = onShuffle origin ttl act pas path from p"
| "hv_handle (ShuffleReply hosts route) from p = onShuffleReply hosts route p"

fun hv_callback :: "hv_cb \<Rightarrow> hyparview \<Rightarrow> hyparview" where
  "hv_callback (OnAttemptTimeout host) p = onAttemptTimeout host p"
| "hv_callback OnShuffleTick p = onShuffleTick p"
| "hv_callback OnMaintenanceTick p = onMaintenanceTick p"

datatype hv_event =
    HvMsg hv_msg Host
  | HvConnected Host
  | HvDisconnected Host
  | HvGivenUp Host
  | HvTimer nat
  | HvGetView
  | HvDebugState

fun hv_step :: "hv_event \<Rightarrow> hyparview \<Rightarrow> hyparview" where
  "hv_step (HvMsg m from) p = hv_handle m from p"
| "hv_step (HvConnected h) p = hv_OnSessionConnected h p"
| "hv_step (HvDisconnected h) p = hv_OnSessionDisconnected h p"
| "hv_step (HvGivenUp h) p = hv_OnSessionGivenUp h p"
| "hv_step (HvTimer n) p =
     (case find (\<lambda>t. tid t = n) (pending (ctx p)) of
        None \<Rightarrow> p
      | Some t \<Rightarrow> hv_callback (tfn t) (p\<lparr>ctx := fire t (ctx p)\<rparr>))"
| "hv_step HvGetView p = handleGetView p"
| "hv_step HvDebugState p = hv_handleDebugState p"

end
