(* ===== verification/HyParView_Inv.thy ===== *)
theory HyParView_Inv
  imports HyParView
begin

text \<open>
  What holds of a HyParView instance whatever events reach it: both views stay within their sizes,
  they never overlap and never hold the node itself, and the notifications published so far add
  up to the active view, which makes HyParView a membership provider.
\<close>

subsection \<open>The invariant\<close>

definition good :: "Host \<Rightarrow> HvConfig \<Rightarrow> hyparview \<Rightarrow> bool" where
  "good me c p \<longleftrightarrow>
     self p = me \<and> cfg p = c \<and> 0 < ActiveSize c \<and> 0 < PassiveSize c \<and>
     finite (active p) \<and> finite (passives p) \<and>
     me \<notin> active p \<and> me \<notin> passives p \<and> active p \<inter> passives p = {} \<and>
     int (card (active p)) \<le> ActiveSize c \<and> int (card (passives p)) \<le> PassiveSize c \<and>
     heard (out (ctx p)) = active p \<and> all_news (out (ctx p)) {}"

text \<open>Changes the invariant does not see.\<close>

lemma good_frame:
  "good me c p \<Longrightarrow> self q = self p \<Longrightarrow> cfg q = cfg p \<Longrightarrow> active q = active p \<Longrightarrow>
     passives q = passives p \<Longrightarrow> out (ctx q) = out (ctx p) \<Longrightarrow> good me c q"
  by (simp add: good_def)

lemma good_emit:
  assumes "good me c p" "hear e (active p) = active p" "news e (active p)"
  shows "good me c (p\<lparr>ctx := emit e (ctx p)\<rparr>)"
  using assms by (auto simp: good_def emit_def heard_def)

lemma good_calls [intro]:
  assumes "good me c p"
  shows "good me c (hv_send m h p)" "good me c (hv_connect h p)" "good me c (hv_disconnect h p)"
    "good me c (p\<lparr>rng := g\<rparr>)" "good me c (p\<lparr>sessions := S\<rparr>)" "good me c (p\<lparr>pendings := P\<rparr>)"
    "good me c (clearPending h i p)" "good me c (p\<lparr>ctx := fire t (ctx p)\<rparr>)"
    "good me c (p\<lparr>ctx := snd (after d f (ctx p))\<rparr>)" "good me c (p\<lparr>ctx := snd (every d f (ctx p))\<rparr>)"
    "good me c (handleGetView p)" "good me c (hv_handleDebugState p)"
proof -
  show "good me c (hv_send m h p)" "good me c (hv_connect h p)" "good me c (hv_disconnect h p)"
    unfolding hv_send_def hv_connect_def hv_disconnect_def by (rule good_emit [OF assms]; simp)+
  show "good me c (handleGetView p)" "good me c (hv_handleDebugState p)"
    unfolding handleGetView_def hv_handleDebugState_def
    by (rule good_emit [OF assms]; use assms in \<open>simp add: good_def\<close>)+
qed (rule good_frame [OF assms]; simp add: clearPending_def fire_def cancel_def after_def every_def
      Let_def split: option.splits)+

lemma hv_call_simps [simp]:
  "active (hv_send m h p) = active p" "active (hv_connect h p) = active p"
  "active (hv_disconnect h p) = active p" "active (hv_publish n p) = active p"
  "active (clearPending h i p) = active p"
  by (simp_all add: hv_send_def hv_connect_def hv_disconnect_def hv_publish_def clearPending_def)

subsection \<open>View manipulation keeps it\<close>

lemma good_removeActive [intro]:
  assumes "good me c p"
  shows "good me c (removeActive h p)"
proof (cases "h \<in> active p")
  case True
  have "int (card (active p - {h})) \<le> ActiveSize c"
    using assms card_Diff1_le [of "active p" h] unfolding good_def by linarith
  then show ?thesis
    using assms True by (auto simp: good_def removeActive_def hv_publish_def emit_def heard_def)
next
  case False
  then show ?thesis using assms by (simp add: removeActive_def)
qed

lemma removeActive_active [simp]: "active (removeActive h p) = active p - {h}"
  by (simp add: removeActive_def)

lemma pick_passive_cases:
  assumes "pick_passive X p = (v, q)"
  shows "\<exists>g. q = p\<lparr>rng := g\<rparr>" and "finite (passives p) \<Longrightarrow> v = Some h \<Longrightarrow> h \<in> passives p \<and> h \<notin> X"
    and "finite (passives p) \<Longrightarrow> v = None \<Longrightarrow> passives p \<subseteq> X"
proof -
  obtain g where g: "randomExcept (passives p) (rng p) X = (v, g)" "q = p\<lparr>rng := g\<rparr>"
    using assms by (auto simp: pick_passive_def Let_def split: prod.splits)
  show "\<exists>g. q = p\<lparr>rng := g\<rparr>" using g by blast
  show "finite (passives p) \<Longrightarrow> v = Some h \<Longrightarrow> h \<in> passives p \<and> h \<notin> X"
    using randomExcept_Some g by blast
  show "finite (passives p) \<Longrightarrow> v = None \<Longrightarrow> passives p \<subseteq> X"
    using randomExcept_None g by blast
qed

lemma pick_active_cases:
  assumes "pick_active X p = (v, q)"
  shows "\<exists>g. q = p\<lparr>rng := g\<rparr>" and "finite (active p) \<Longrightarrow> v = Some h \<Longrightarrow> h \<in> active p \<and> h \<notin> X"
    and "finite (active p) \<Longrightarrow> v = None \<Longrightarrow> active p \<subseteq> X"
proof -
  obtain g where g: "randomExcept (active p) (rng p) X = (v, g)" "q = p\<lparr>rng := g\<rparr>"
    using assms by (auto simp: pick_active_def Let_def split: prod.splits)
  show "\<exists>g. q = p\<lparr>rng := g\<rparr>" using g by blast
  show "finite (active p) \<Longrightarrow> v = Some h \<Longrightarrow> h \<in> active p \<and> h \<notin> X"
    using randomExcept_Some g by blast
  show "finite (active p) \<Longrightarrow> v = None \<Longrightarrow> active p \<subseteq> X"
    using randomExcept_None g by blast
qed

text \<open>The room that \<open>addPassive\<close> makes.\<close>

definition makeRoom :: "hyparview \<Rightarrow> hyparview" where
  "makeRoom p =
     (if int (hs_len (passives p)) \<ge> PassiveSize (cfg p)
      then case pick_passive {} p of
             (Some v, p) \<Rightarrow> p\<lparr>passives := hs_remove v (passives p)\<rparr>
           | (None, p) \<Rightarrow> p
      else p)"

lemma addPassive_room:
  "addPassive h p =
     (if h = self p \<or> h \<in> active p \<or> h \<in> passives p then p
      else (makeRoom p)\<lparr>passives := insert h (passives (makeRoom p))\<rparr>)"
  by (simp add: addPassive_def makeRoom_def Let_def)

lemma makeRoom_room:
  assumes "good me c p"
  shows "\<exists>g P. makeRoom p = p\<lparr>rng := g, passives := P\<rparr> \<and> P \<subseteq> passives p \<and> int (card P) < PassiveSize c"
proof (cases "int (card (passives p)) \<ge> PassiveSize c")
  case False
  then show ?thesis
    using assms by (intro exI [of _ "rng p"] exI [of _ "passives p"]) (simp add: makeRoom_def good_def)
next
  case True
  have fin: "finite (passives p)" and pos: "0 < PassiveSize c" and sz: "int (card (passives p)) \<le> PassiveSize c"
    using assms by (simp_all add: good_def)
  obtain v q where vq: "pick_passive {} p = (v, q)" by fastforce
  then obtain g where q: "q = p\<lparr>rng := g\<rparr>" using pick_passive_cases(1) by blast
  have "passives p \<noteq> {}" using True pos by auto
  then obtain w where w: "v = Some w" using pick_passive_cases(3) [OF vq fin] by (cases v) auto
  then have "w \<in> passives p" using pick_passive_cases(2) [OF vq fin] by blast
  then have "int (card (passives p - {w})) < PassiveSize c"
    using fin sz card_Diff1_less [OF fin] by fastforce
  then show ?thesis
    using assms True vq q w
    by (intro exI [of _ g] exI [of _ "passives p - {w}"]) (simp add: makeRoom_def good_def)
qed

lemma good_addPassive [intro]:
  assumes "good me c p"
  shows "good me c (addPassive h p)"
proof (cases "h = self p \<or> h \<in> active p \<or> h \<in> passives p")
  case True
  then show ?thesis using assms by (auto simp: addPassive_room)
next
  case False
  obtain g P where P: "makeRoom p = p\<lparr>rng := g, passives := P\<rparr>" "P \<subseteq> passives p"
      "int (card P) < PassiveSize c"
    using makeRoom_room [OF assms] by blast
  have fin: "finite P" using assms P(2) by (auto simp: good_def intro: finite_subset)
  then have "int (card (insert h P)) \<le> PassiveSize c"
    using P(3) card_insert_le_m1 [of "Suc (card P)" P h] by (simp add: card_insert_if)
  then show ?thesis
    using assms False P(1,2) fin by (auto simp: addPassive_room good_def)
qed

lemma addPassive_active [simp]: "active (addPassive h p) = active p"
proof -
  have "active (makeRoom p) = active p"
    by (auto simp: makeRoom_def pick_passive_def Let_def split: prod.splits option.splits)
  then show ?thesis by (simp add: addPassive_room)
qed

lemma good_integrate [intro]: "good me c p \<Longrightarrow> good me c (integratePassive hs p)"
  unfolding integratePassive_def by (induction hs arbitrary: p) auto

lemma dropRandomActive_good:
  assumes "good me c p" "h \<notin> active p"
  shows "good me c (dropRandomActive h p)"
    and "active (dropRandomActive h p) \<subseteq> active p"
    and "active p \<noteq> {} \<Longrightarrow> card (active (dropRandomActive h p)) < card (active p)"
proof -
  obtain v q where vq: "pick_active {h} p = (v, q)" by fastforce
  then obtain g where q: "q = p\<lparr>rng := g\<rparr>" using pick_active_cases(1) by blast
  have fin: "finite (active p)" using assms(1) by (simp add: good_def)
  have gq: "good me c q" using assms(1) q by auto
  show "good me c (dropRandomActive h p)"
    using gq by (cases v) (auto simp: dropRandomActive_def vq Let_def)
  show "active (dropRandomActive h p) \<subseteq> active p"
    using q by (cases v) (auto simp: dropRandomActive_def vq Let_def)
  show "card (active (dropRandomActive h p)) < card (active p)" if "active p \<noteq> {}"
  proof -
    have "\<not> active p \<subseteq> {h}" using that assms(2) by auto
    then obtain w where w: "v = Some w"
      using pick_active_cases(3) [OF vq fin] by (cases v) auto
    then have "w \<in> active p" using pick_active_cases(2) [OF vq fin] by blast
    then have "card (active p - {w}) < card (active p)" by (rule card_Diff1_less [OF fin])
    then show ?thesis using w q by (simp add: dropRandomActive_def vq Let_def)
  qed
qed

lemma good_admit:
  assumes "good me c p" "h \<noteq> me" "h \<notin> active p" "int (card (active p)) < ActiveSize c"
  shows "good me c (hv_publish (NeighborUp h)
    (p\<lparr>passives := passives p - {h}, active := insert h (active p)\<rparr>))"
proof -
  have "int (card (passives p - {h})) \<le> PassiveSize c"
    using assms(1) card_Diff1_le [of "passives p" h] unfolding good_def by linarith
  then show ?thesis
    using assms by (auto simp: good_def hv_publish_def emit_def heard_def card_insert_if)
qed

lemma good_addActive [intro]:
  assumes "good me c p"
  shows "good me c (addActive h p)"
proof (cases "h = self p \<or> h \<in> active p")
  case True
  then show ?thesis using assms by (auto simp: addActive_def)
next
  case False
  define q where "q = (if int (card (active p)) \<ge> ActiveSize c then dropRandomActive h p else p)"
  have h: "h \<noteq> me" "h \<notin> active p" and sz: "int (card (active p)) \<le> ActiveSize c" "0 < ActiveSize c"
    using assms False by (auto simp: good_def)
  have "active p \<noteq> {}" if "int (card (active p)) \<ge> ActiveSize c" using that sz by auto
  then have q: "good me c q" "active q \<subseteq> active p" "int (card (active q)) < ActiveSize c"
    using assms h sz dropRandomActive_good [OF assms h(2)] by (auto simp: q_def)
  have "addActive h p =
      hv_publish (NeighborUp h) (q\<lparr>passives := passives q - {h}, active := insert h (active q)\<rparr>)"
    using assms False by (simp add: addActive_def q_def good_def Let_def)
  then show ?thesis using good_admit [OF q(1) h(1) _ q(3)] q(2) h(2) by auto
qed

subsection \<open>Attempts, hooks and handlers keep it\<close>

lemma good_drive [intro]: "good me c p \<Longrightarrow> good me c (driveIntent h i p)"
  by (cases "ikind i") (auto simp: driveIntent_def Let_def)

lemma good_open [intro]:
  assumes "good me c p"
  shows "good me c (openActive h k b p)"
proof -
  let ?a = "after (NeighborTimeout (cfg p)) (OnAttemptTimeout h) (ctx p)"
  let ?i = "OutIntent k b (fst ?a)"
  let ?p = "p\<lparr>ctx := snd ?a, pendings := (pendings p)(h \<mapsto> ?i)\<rparr>"
  have "good me c (p\<lparr>ctx := snd ?a\<rparr>)" using assms by auto
  then have "good me c (p\<lparr>ctx := snd ?a\<rparr>\<lparr>pendings := (pendings p)(h \<mapsto> ?i)\<rparr>)" by (rule good_calls)
  then have "good me c ?p" by simp
  then have "good me c (driveIntent h ?i ?p)" "good me c (hv_connect h ?p)"
      "good me c (clearPending h ?i (hv_connect h ?p))"
    by auto
  then show ?thesis using assms by (simp add: openActive_def Let_def split_beta)
qed

lemma good_promote [intro]:
  assumes "good me c p"
  shows "good me c (promote p)"
proof -
  obtain v q where vq: "pick_passive (pendingHosts p) p = (v, q)" by fastforce
  then obtain g where "q = p\<lparr>rng := g\<rparr>" using pick_passive_cases(1) by blast
  then have "good me c q" using assms by auto
  then show ?thesis using assms by (cases v) (auto simp: promote_def vq)
qed

lemma good_hooks [intro]:
  assumes "good me c p"
  shows "good me c (hv_OnSessionConnected h p)" "good me c (onSessionDown h p)"
    "good me c (onAttemptTimeout h p)"
  using assms
  by (auto simp: hv_OnSessionConnected_def onSessionDown_def onAttemptTimeout_def Let_def
      split: option.splits)

lemma good_join [intro]:
  assumes "good me c p"
  shows "good me c (onJoin h p)"
proof -
  have send: "good me c q \<Longrightarrow> good me c (fold (\<lambda>n p. if n = h then p
      else hv_send (ForwardJoin h (word_of_int (ARWL (cfg p)))) n p) hs q)" for hs q
    by (induction hs arbitrary: q) auto
  show ?thesis unfolding onJoin_def Let_def by (rule send [OF good_addActive [OF assms]])
qed

lemma good_forward [intro]:
  assumes "good me c p"
  shows "good me c (onForwardJoin n ttl h p)"
proof -
  let ?p = "if ttl = word_of_int (PRWL (cfg p)) then addPassive n p else p"
  have p: "good me c ?p" using assms by auto
  obtain v q where vq: "pick_active {h, n} ?p = (v, q)" by fastforce
  then obtain g where "q = ?p\<lparr>rng := g\<rparr>" using pick_active_cases(1) by blast
  then have "good me c q" using p by auto
  then show ?thesis using assms p vq by (cases v) (auto simp: onForwardJoin_def Let_def)
qed

lemma good_accept [intro]: "good me c p \<Longrightarrow> good me c (acceptShuffle origin act pas path p)"
  by (auto simp: acceptShuffle_def Let_def split_beta)

lemma good_shuffle [intro]:
  assumes "good me c p"
  shows "good me c (onShuffle origin ttl act pas path h p)" "good me c (onShuffleTick p)"
    "good me c (onShuffleReply hs route p)"
proof -
  obtain v q where vq: "pick_active {h, origin} p = (v, q)" by fastforce
  then obtain g where "q = p\<lparr>rng := g\<rparr>" using pick_active_cases(1) by blast
  then have "good me c q" using assms by auto
  then show "good me c (onShuffle origin ttl act pas path h p)"
    using assms by (cases v) (auto simp: onShuffle_def vq)
  obtain v q where vq: "pick_active {} p = (v, q)" by fastforce
  then obtain g where "q = p\<lparr>rng := g\<rparr>" using pick_active_cases(1) by blast
  then have "good me c q" using assms by auto
  then show "good me c (onShuffleTick p)"
    using assms by (cases v) (auto simp: onShuffleTick_def vq Let_def split_beta)
  show "good me c (onShuffleReply hs route p)"
    using assms by (auto simp: onShuffleReply_def Let_def)
qed

lemma good_contacts [intro]: "good me c p \<Longrightarrow> good me c (joinContacts p)"
proof -
  have "good me c p \<Longrightarrow> good me c (fold (\<lambda>h. openActive h IntentJoin False) hs p)" for hs p
    by (induction hs arbitrary: p) auto
  then show "good me c p \<Longrightarrow> ?thesis" by (simp add: joinContacts_def)
qed

lemma good_handle: "good me c p \<Longrightarrow> good me c (hv_handle m h p)"
  by (cases m) (auto simp: onNeighbor_def onNeighborReply_def onDisconnect_def Let_def
      split: option.splits)

lemma good_callback: "good me c p \<Longrightarrow> good me c (hv_callback cb p)"
  by (cases cb) (auto simp: onMaintenanceTick_def)

lemma good_step:
  assumes "good me c p"
  shows "good me c (hv_step e p)"
proof (cases e)
  case (HvTimer n)
  have "good me c (hv_callback (tfn t) (p\<lparr>ctx := fire t (ctx p)\<rparr>))" for t
    using assms by (auto intro: good_callback)
  then show ?thesis using assms HvTimer by (simp split: option.splits)
qed (use assms good_handle in \<open>auto simp: hv_OnSessionDisconnected_def hv_OnSessionGivenUp_def\<close>)

lemma fillDefaults_sizes [simp]:
  "0 < ActiveSize (hv_fillDefaults c)" "0 < PassiveSize (hv_fillDefaults c)"
  by (simp_all add: hv_fillDefaults_def intOr_def Let_def)

lemma good_start: "good me (hv_fillDefaults c) (hv_Init pcg (hv_New me c ce))"
proof -
  let ?c = "hv_fillDefaults c"
  have "good me ?c (hv_New me c ce)"
    using fillDefaults_sizes [of c, THEN less_imp_le]
    by (simp add: good_def hv_New_def newCtx_def heard_def Let_def)
  then have "good me ?c (joinContacts ((hv_New me c ce)\<lparr>rng := g\<rparr>))" for g by auto
  from this [of "pcg (fst (seedFromHost me)) (snd (seedFromHost me))"] show ?thesis
    by (rule good_frame) (simp_all add: hv_Init_def hv_New_def every_def Let_def split_beta)
qed

end
