(* ===== verification/HyParView_Safety.thy ===== *)
theory HyParView_Safety
  imports HyParView_Inv
begin

text \<open>
  Runs of a HyParView instance, HyParView as a membership provider, the random walks, the return
  of a shuffle reply, and recovery from isolation.
\<close>

definition hxA :: Host where "hxA = Host 1 ''a''"
definition hxB :: Host where "hxB = Host 2 ''a''"
definition hxC :: Host where "hxC = Host 3 ''a''"
definition hxConf :: HvConfig where
  "hxConf = \<lparr>Contacts = [], ActiveSize = 0, PassiveSize = 0, ARWL = 0, PRWL = 0, ShuffleActive = 0,
     ShufflePassive = 0, ShuffleInterval = 0, JoinInterval = 0, NeighborTimeout = 0\<rparr>"

definition hv_run ::
  "(uint64 \<Rightarrow> uint64 \<Rightarrow> nat stream) \<Rightarrow> Host \<Rightarrow> HvConfig \<Rightarrow> (Host \<Rightarrow> bool) \<Rightarrow> hv_event list \<Rightarrow> hyparview" where
  "hv_run pcg me c ce evs = fold hv_step evs (hv_Init pcg (hv_New me c ce))"

interpretation hv: membership "hv_Init pcg (hv_New me c ce)" hv_step active "\<lambda>p. out (ctx p)"
  "good me (hv_fillDefaults c)" for pcg me c ce
  by unfold_locales (simp_all add: good_start good_step, simp_all add: good_def)

text \<open>
  The two views: whatever messages, session events, timers and requests an instance goes
  through, neither view holds the node itself, no peer is in both, and neither outgrows its
  configured size.
\<close>

theorem hv_views:
  "let p = hv_run pcg me c ce evs
   in me \<notin> active p \<and> me \<notin> passives p \<and> active p \<inter> passives p = {} \<and>
      int (card (active p)) \<le> ActiveSize (hv_fillDefaults c) \<and>
      int (card (passives p)) \<le> PassiveSize (hv_fillDefaults c)"
  using hv.run_ok [of me c evs pcg ce] by (simp add: hv_run_def good_def Let_def)

text \<open>
  C11. The membership contract: the notifications and snapshots an instance has issued, applied in
  order, are exactly its active view; no peer is announced twice in a row or withdrawn without
  having been announced, and every snapshot is the view of its moment.
\<close>

theorem hv_membership:
  "heard (out (ctx (hv_run pcg me c ce evs))) = active (hv_run pcg me c ce evs) \<and>
   all_news (out (ctx (hv_run pcg me c ce evs))) {}"
  unfolding hv_run_def using hv.subscriber_view hv.subscriber_news by blast

subsection \<open>Random walks end\<close>

fun walkL :: "hv_msg \<Rightarrow> hv_msg list" where
  "walkL (ForwardJoin n t) = [ForwardJoin n t]"
| "walkL (Shuffle h t a q path) = [Shuffle h t a q path]"
| "walkL _ = []"

fun walks :: "(hv_msg, 'n, 'r, 'w) effect list \<Rightarrow> hv_msg list" where
  "walks [] = []"
| "walks (Sent m d # es) = walkL m @ walks es"
| "walks (_ # es) = walks es"

fun hops :: "hv_msg \<Rightarrow> nat" where
  "hops (ForwardJoin n t) = unat t"
| "hops (Shuffle h t a q path) = unat t"
| "hops _ = 0"

lemma walks_append [simp]: "walks (xs @ ys) = walks xs @ walks ys"
  by (induction xs rule: walks.induct) simp_all

lemma walks_calls [simp]:
  "walks (out (ctx (hv_connect h p))) = walks (out (ctx p))"
  "walks (out (ctx (hv_disconnect h p))) = walks (out (ctx p))"
  "walks (out (ctx (hv_publish n p))) = walks (out (ctx p))"
  "walks (out (ctx (clearPending h i p))) = walks (out (ctx p))"
  "walks (out (ctx (hv_send m h p))) = walks (out (ctx p)) @ walkL m"
  by (simp_all add: hv_connect_def hv_disconnect_def hv_publish_def clearPending_def hv_send_def
      emit_def cancel_def split: option.splits)

lemma pick_ctx [simp]:
  "pick_active X p = (v, q) \<Longrightarrow> ctx q = ctx p" "pick_passive X p = (v, q) \<Longrightarrow> ctx q = ctx p"
  using pick_active_cases(1) pick_passive_cases(1) by fastforce+

lemma walks_views [simp]:
  "walks (out (ctx (removeActive h p))) = walks (out (ctx p))"
  "out (ctx (addPassive h p)) = out (ctx p)"
  "walks (out (ctx (dropRandomActive h p))) = walks (out (ctx p))"
  "walks (out (ctx (addActive h p))) = walks (out (ctx p))"
proof -
  show r: "walks (out (ctx (removeActive h p))) = walks (out (ctx p))" for h p
    by (simp add: removeActive_def)
  have "ctx (makeRoom p) = ctx p" for p
    by (simp add: makeRoom_def split: prod.splits option.splits)
  then show a: "out (ctx (addPassive h p)) = out (ctx p)" for h p
    by (simp add: addPassive_room)
  show d: "walks (out (ctx (dropRandomActive h p))) = walks (out (ctx p))" for h p
    by (simp add: dropRandomActive_def Let_def a r split: prod.splits option.splits)
  show "walks (out (ctx (addActive h p))) = walks (out (ctx p))"
    by (simp add: addActive_def Let_def d)
qed

lemma walks_attempts [simp]:
  "walks (out (ctx (driveIntent h i p))) = walks (out (ctx p))"
  "walks (out (ctx (openActive h k b p))) = walks (out (ctx p))"
  "walks (out (ctx (promote p))) = walks (out (ctx p))"
  "out (ctx (integratePassive hs p)) = out (ctx p)"
proof -
  show d: "walks (out (ctx (driveIntent h i p))) = walks (out (ctx p))" for h i p
    by (simp add: driveIntent_def Let_def split: intentKind.splits)
  show o: "walks (out (ctx (openActive h k b p))) = walks (out (ctx p))" for h k b p
    by (simp add: openActive_def after_def Let_def d)
  show "walks (out (ctx (promote p))) = walks (out (ctx p))"
    by (simp add: promote_def o split: prod.splits option.splits)
  show "out (ctx (integratePassive hs p)) = out (ctx p)"
    unfolding integratePassive_def by (induction hs arbitrary: p) simp_all
qed

lemma ttl_decreases: "(t :: uint32) \<noteq> 0 \<Longrightarrow> unat (t - 1) < unat t"
  by (simp add: unat_minus_one unat_gt_0)

lemma walks_shuffle:
  "walks (out (ctx (acceptShuffle origin act pas path p))) = walks (out (ctx p))"
  "walks (out (ctx (onShuffleReply hs route p))) = walks (out (ctx p))"
  by (simp_all add: acceptShuffle_def onShuffleReply_def Let_def split_beta)

text \<open>
  C40. Every random walk ends: a \<open>ForwardJoin\<close> or a \<open>Shuffle\<close> makes its receiver send at most one
  walk message on, with a strictly smaller time to live, and no other message but \<open>Join\<close> makes it
  send any.
\<close>

theorem hv_walks_end:
  assumes "m \<noteq> Join"
  shows "\<exists>ws. walks (out (ctx (hv_handle m h p))) = walks (out (ctx p)) @ ws \<and> length ws \<le> 1 \<and>
    (\<forall>w \<in> set ws. hops w < hops m)"
proof (cases m)
  case (ForwardJoin n t)
  let ?p = "if t = word_of_int (PRWL (cfg p)) then addPassive n p else p"
  obtain v q where vq: "pick_active {h, n} ?p = (v, q)" by fastforce
  have w: "walks (out (ctx ?p)) = walks (out (ctx p))" "ctx q = ctx ?p" using vq by simp_all
  have "walks (out (ctx (onForwardJoin n t h p))) = walks (out (ctx p)) \<or>
      t \<noteq> 0 \<and> walks (out (ctx (onForwardJoin n t h p))) = walks (out (ctx p)) @ [ForwardJoin n (t - 1)]"
    using vq w by (cases v) (auto simp: onForwardJoin_def Let_def)
  then show ?thesis using ForwardJoin ttl_decreases by auto
next
  case (Shuffle origin t act pas path)
  obtain v q where vq: "pick_active {h, origin} p = (v, q)" by fastforce
  then have "ctx q = ctx p" by simp
  then have "walks (out (ctx (onShuffle origin t act pas path h p))) = walks (out (ctx p)) \<or>
      t \<noteq> 0 \<and> walks (out (ctx (onShuffle origin t act pas path h p))) =
        walks (out (ctx p)) @ [Shuffle origin (t - 1) act pas (appendHost path (self q))]"
    using vq by (cases v) (auto simp: onShuffle_def walks_shuffle)
  then show ?thesis using Shuffle ttl_decreases by auto
qed (use assms walks_shuffle in \<open>auto simp: onNeighbor_def onNeighborReply_def onDisconnect_def Let_def
       split: option.splits\<close>)

theorem hv_walks_end_witness:
  "\<exists>ws. walks (out (ctx (hv_handle (ForwardJoin hxB 2) hxC (hv_New hxA hxConf (\<lambda>_. False))))) =
     walks (out (ctx (hv_New hxA hxConf (\<lambda>_. False)))) @ ws \<and> length ws \<le> 1"
  using hv_walks_end [of "ForwardJoin hxB 2" hxC "hv_New hxA hxConf (\<lambda>_. False)"] by blast

subsection \<open>A shuffle reply finds its way home\<close>

lemma onShuffleReply_last:
  "onShuffleReply ns (path @ [self p]) p =
     (if path = [] then integratePassive ns p else hv_send (ShuffleReply ns path) (last path) p)"
  by (simp add: onShuffleReply_def last_conv_nth nth_append Let_def)

text \<open>
  The nodes of an overlay at the moments they handle the reply; \<open>relayed\<close> follows the messages that
  their handlers send, from a reply in one node's hands to a reply in another's.
\<close>

inductive relayed ::
  "(Host \<Rightarrow> hyparview) \<Rightarrow> Host list \<Rightarrow> Host \<Rightarrow> Host list \<Rightarrow> Host \<Rightarrow> Host list \<Rightarrow> bool"
  for N ns where
  here: "relayed N ns h route h route"
| on: "relayed N ns h route h' route' \<Longrightarrow>
    out (ctx (onShuffleReply ns route' (N h'))) = out (ctx (N h')) @ [Sent (ShuffleReply ns route'') h''] \<Longrightarrow>
    relayed N ns h route h'' route''"

lemma relayed_trans:
  "relayed N ns h' r' h'' r'' \<Longrightarrow> relayed N ns h r h' r' \<Longrightarrow> relayed N ns h r h'' r''"
  by (induction rule: relayed.induct) (auto intro: on)

lemma relayed_hop:
  assumes "self (N h) = h"
  shows "relayed N ns h ((origin # path) @ [h]) (last (origin # path)) (origin # path)"
proof (rule on [OF here])
  show "out (ctx (onShuffleReply ns ((origin # path) @ [h]) (N h))) =
      out (ctx (N h)) @ [Sent (ShuffleReply ns (origin # path)) (last (origin # path))]"
    using onShuffleReply_last [of ns "origin # path" "N h"] assms
    by (simp add: hv_send_def emit_def)
qed

text \<open>
  The reply to a shuffle returns to its origin: along any recorded path, starting at the node
  recorded last, every node hands the reply to the one recorded before it, until the first one,
  the origin of the walk, files the returned sample in its passive view.
\<close>

theorem shuffle_reply_returns:
  assumes "\<forall>h. self (N h) = h"
  shows "relayed N ns (last (origin # path)) (origin # path) origin [origin] \<and>
    onShuffleReply ns [origin] (N origin) = integratePassive ns (N origin)"
proof
  show "relayed N ns (last (origin # path)) (origin # path) origin [origin]"
  proof (induction path rule: rev_induct)
    case Nil
    then show ?case by (simp add: here)
  next
    case (snoc h path)
    have "relayed N ns h ((origin # path) @ [h]) (last (origin # path)) (origin # path)"
      using assms by (intro relayed_hop) simp
    from relayed_trans [OF snoc.IH this] show ?case by simp
  qed
  show "onShuffleReply ns [origin] (N origin) = integratePassive ns (N origin)"
    using onShuffleReply_last [of ns "[]" "N origin"] assms by simp
qed

theorem shuffle_reply_returns_witness:
  "relayed (\<lambda>h. hv_New h hxConf (\<lambda>_. False)) [hxC] hxB [hxA, hxB] hxA [hxA]"
  using shuffle_reply_returns [of "\<lambda>h. hv_New h hxConf (\<lambda>_. False)" "[hxC]" hxA "[hxB]"]
  by (simp add: hv_New_def Let_def)

subsection \<open>Recovery from isolation\<close>

text \<open>The hosts that the effects since \<open>o0\<close> try to reach.\<close>

definition tried :: "(hv_msg, 'n, 'r, 'w) effect list \<Rightarrow> Host set" where
  "tried es = {h. Connects h \<in> set es \<or> Sent Join h \<in> set es}"

text \<open>
  From \<open>p\<close>, the state \<open>q\<close> was reached with the effects \<open>es\<close>, and its active peers and pending
  attempts were all tried on the way.
\<close>

definition trying :: "hyparview \<Rightarrow> hyparview \<Rightarrow> Host set \<Rightarrow> bool" where
  "trying p q H \<longleftrightarrow> self q = self p \<and>
     (\<exists>es. out (ctx q) = out (ctx p) @ es \<and> active q \<union> dom (pendings q) \<union> H \<subseteq> tried es)"

lemma tryingI:
  "self q = self p \<Longrightarrow> out (ctx q) = out (ctx p) @ es \<Longrightarrow>
     active q \<union> dom (pendings q) \<union> H \<subseteq> tried es \<Longrightarrow> trying p q H"
  unfolding trying_def by blast

lemma tried_append: "tried (xs @ ys) = tried xs \<union> tried ys"
  by (auto simp: tried_def)

lemma tried_self: "h \<in> tried [Sent Join h]" "h \<in> tried [Connects h]"
  by (simp_all add: tried_def)

lemma addActive_grows:
  "self (addActive h p) = self p \<and> active (addActive h p) \<subseteq> insert h (active p) \<and>
   pendings (addActive h p) = pendings p \<and> (\<exists>es. out (ctx (addActive h p)) = out (ctx p) @ es)"
proof -
  have r: "self (removeActive h p) = self p" "pendings (removeActive h p) = pendings p"
      "\<exists>es. out (ctx (removeActive h p)) = out (ctx p) @ es" for h p
    by (auto simp: removeActive_def hv_publish_def emit_def)
  have m: "self (makeRoom p) = self p" "pendings (makeRoom p) = pendings p" for p
    using pick_passive_cases(1) by (fastforce simp: makeRoom_def split: prod.splits option.splits)+
  have a: "self (addPassive h p) = self p" "pendings (addPassive h p) = pendings p" for h p
    by (simp_all add: addPassive_room m)
  have d: "self (dropRandomActive h p) = self p" "pendings (dropRandomActive h p) = pendings p"
      "active (dropRandomActive h p) \<subseteq> active p"
      "\<exists>es. out (ctx (dropRandomActive h p)) = out (ctx p) @ es" for h p
  proof -
    obtain v q where vq: "pick_active {h} p = (v, q)" by fastforce
    then obtain g where "q = p\<lparr>rng := g\<rparr>" using pick_active_cases(1) by blast
    then have q: "self q = self p" "pendings q = pendings p" "active q = active p" "ctx q = ctx p"
      by simp_all
    then show "self (dropRandomActive h p) = self p" "pendings (dropRandomActive h p) = pendings p"
      "active (dropRandomActive h p) \<subseteq> active p"
      by (cases v; force simp: dropRandomActive_def vq Let_def hv_send_def hv_disconnect_def a r)+
    show "\<exists>es. out (ctx (dropRandomActive h p)) = out (ctx p) @ es"
    proof (cases v)
      case None
      then show ?thesis using q by (simp add: dropRandomActive_def vq)
    next
      case (Some w)
      obtain es where "out (ctx (removeActive w q)) = out (ctx p) @ es" using r(3) [of w q] q by auto
      then show ?thesis
        using Some by (intro exI [of _ "es @ [Sent Disconnect w, Disconnects w]"])
          (simp add: dropRandomActive_def vq Let_def hv_send_def hv_disconnect_def emit_def)
    qed
  qed
  show ?thesis
    using d [of h p] by (cases "h = self p \<or> h \<in> active p"; cases "int (card (active p)) \<ge> ActiveSize (cfg p)")
      (auto simp: addActive_def Let_def hv_publish_def emit_def)
qed

lemma trying_open:
  assumes "trying p q H" "h \<noteq> self p"
  shows "trying p (openActive h IntentJoin False q) (insert h H)"
proof -
  obtain es where es: "self q = self p" "out (ctx q) = out (ctx p) @ es"
      "active q \<union> dom (pendings q) \<union> H \<subseteq> tried es"
    using assms(1) by (auto simp: trying_def)
  show ?thesis
  proof (cases "h \<in> active q \<or> pendings q h \<noteq> None")
    case True
    then have "h \<in> tried es" using es(3) by auto
    then show ?thesis using True es by (auto simp: trying_def openActive_def)
  next
    case False
    then have new: "\<not> (h = self q \<or> h \<in> active q \<or> pendings q h \<noteq> None)" using assms(2) es(1) by simp
    let ?a = "after (NeighborTimeout (cfg q)) (OnAttemptTimeout h) (ctx q)"
    let ?i = "OutIntent IntentJoin False (fst ?a)"
    let ?q = "q\<lparr>ctx := snd ?a, pendings := (pendings q)(h \<mapsto> ?i)\<rparr>"
    have out: "out (snd ?a) = out (ctx p) @ es" "connectErr (snd ?a) = connectErr (ctx q)"
      using es(2) by (simp_all add: after_def Let_def)
    show ?thesis
    proof (cases "h \<in> sessions q")
      case True
      let ?j = "clearPending h ?i (hv_send Join h ?q)"
      have j: "out (ctx ?j) = out (ctx p) @ es @ [Sent Join h]" "self ?j = self q"
          "active ?j = active q" "pendings ?j = (pendings q)(h := None)"
        using out by (simp_all add: clearPending_def hv_send_def emit_def)
      obtain fs where fs: "out (ctx (addActive h ?j)) = out (ctx ?j) @ fs"
        using addActive_grows [of h ?j] by blast
      have "active (addActive h ?j) \<union> dom (pendings (addActive h ?j)) \<subseteq> insert h (active q \<union> dom (pendings q))"
        using addActive_grows [of h ?j] j(3,4) by auto
      then have "active (addActive h ?j) \<union> dom (pendings (addActive h ?j)) \<union> insert h H
          \<subseteq> tried (es @ [Sent Join h] @ fs)"
        using es(3) tried_self(1) [of h] unfolding tried_append by blast
      moreover have "self (addActive h ?j) = self p" using addActive_grows [of h ?j] j(2) es(1) by simp
      ultimately have "trying p (addActive h ?j) (insert h H)"
        using fs j(1) by (intro tryingI) simp_all
      moreover have "openActive h IntentJoin False q = addActive h ?j"
        using new True by (simp add: openActive_def driveIntent_def Let_def split_beta)
      ultimately show ?thesis by simp
    next
      case False
      let ?c = "hv_connect h ?q"
      let ?r = "if connectErr (ctx q) h then clearPending h ?i ?c else ?c"
      have r: "out (ctx ?r) = out (ctx p) @ es @ [Connects h]" "self ?r = self p" "active ?r = active q"
        using out es(1) by (simp_all add: clearPending_def hv_connect_def emit_def)
      have "dom (pendings ?r) \<subseteq> insert h (dom (pendings q))"
        by (auto simp: clearPending_def hv_connect_def)
      then have "active ?r \<union> dom (pendings ?r) \<union> insert h H \<subseteq> tried (es @ [Connects h])"
        using es(3) r(3) tried_self(2) [of h] unfolding tried_append by blast
      then have "trying p ?r (insert h H)" using r by (intro tryingI) simp_all
      moreover have "openActive h IntentJoin False q = ?r"
        using new False out(2) by (simp add: openActive_def hv_connect_def emit_def Let_def split_beta)
      ultimately show ?thesis by simp
    qed
  qed
qed

lemma trying_contacts:
  "trying p q H \<Longrightarrow> trying p (fold (\<lambda>c. openActive c IntentJoin False) cs q) (H \<union> (set cs - {self p}))"
proof (induction cs arbitrary: q H)
  case (Cons c cs)
  show ?case
  proof (cases "c = self p")
    case True
    then have "openActive c IntentJoin False q = q"
      using Cons.prems by (simp add: openActive_def trying_def)
    then show ?thesis using Cons True by (simp add: Un_insert_right)
  next
    case False
    from Cons.IH [OF trying_open [OF Cons.prems False]] False show ?thesis
      by (simp add: Un_commute insert_Diff_if)
  qed
qed simp

text \<open>
  Recovery from isolation: when the maintenance timer of a node fires while it has no active
  peer and no attempt under way, the node dials, or sends \<open>Join\<close> over a live session to, every one
  of its contacts.
\<close>

theorem isolated_rejoins:
  assumes "active p = {}" "pendings p = Map.empty" "h \<in> set (Contacts (cfg p))" "h \<noteq> self p"
  shows "\<exists>es. out (ctx (onMaintenanceTick p)) = out (ctx p) @ es \<and>
    (Connects h \<in> set es \<or> Sent Join h \<in> set es)"
proof -
  have "trying p p {}" using assms(1,2) by (simp add: trying_def)
  from trying_contacts [OF this, of "Contacts (cfg p)"] show ?thesis
    using assms by (auto simp: trying_def tried_def onMaintenanceTick_def joinContacts_def)
qed

theorem isolated_rejoins_witness:
  "\<exists>es. out (ctx (onMaintenanceTick (hv_New hxA (hxConf\<lparr>Contacts := [hxB]\<rparr>) (\<lambda>_. False)))) =
     out (ctx (hv_New hxA (hxConf\<lparr>Contacts := [hxB]\<rparr>) (\<lambda>_. False))) @ es \<and>
   (Connects hxB \<in> set es \<or> Sent Join hxB \<in> set es)"
  by (rule isolated_rejoins)
    (simp_all add: hv_New_def hxConf_def hv_fillDefaults_def hxA_def hxB_def Let_def)

end
