(* ===== verification/Overlay.thy ===== *)
theory Overlay
  imports Plumtree_Safety HyParView_Safety
begin

text \<open>
  Plumtree over a membership protocol: the notifications and snapshots of the membership instance
  reach the Plumtree instance of the same node in order, between its own events.  What Plumtree
  then knows of its neighbours follows from the membership contract alone, and HyParView provides
  that contract.
\<close>

text \<open>What the runtime turns an effect of the membership instance into.\<close>

fun feed :: "('m, member_note, member_reply, 'w) effect \<Rightarrow> plum_event list" where
  "feed (Published (NeighborUp h)) = [PlumUp h]"
| "feed (Published (NeighborDown h)) = [PlumDown h]"
| "feed (Replied (View hs)) = [PlumView hs]"
| "feed _ = []"

fun from_membership :: "plum_event \<Rightarrow> bool" where
  "from_membership (PlumUp h) \<longleftrightarrow> True"
| "from_membership (PlumDown h) \<longleftrightarrow> True"
| "from_membership (PlumView hs) \<longleftrightarrow> True"
| "from_membership _ \<longleftrightarrow> False"

lemma neighbors_own: "fold neighbors_after (filter from_membership evs) N = fold neighbors_after evs N"
proof (induction evs arbitrary: N)
  case (Cons e evs)
  then show ?case by (cases e) simp_all
qed simp

lemma feed_hear: "fold neighbors_after (feed e) N = hear e N"
  by (cases "(e, N)" rule: hear.cases) simp_all

lemma feeds_hear: "fold neighbors_after (concat (map feed es)) N = fold hear es N"
  by (induction es arbitrary: N) (simp_all add: feed_hear)

context membership
begin

lemma covers:
  assumes "filter from_membership evs = concat (map feed (said (fold step es start)))"
  shows "view (fold step es start) - {me} \<subseteq>
    eager (plum_run me c ce evs) \<union> lazy (plum_run me c ce evs)"
proof -
  have "fold neighbors_after evs {} = view (fold step es start)"
    using neighbors_own [of evs "{}"] assms feeds_hear [of "said (fold step es start)" "{}"]
      subscriber_view [of es]
    by (simp add: heard_def)
  moreover have "links_ok (fold neighbors_after evs {}) (plum_run me c ce evs)"
    unfolding plum_run_def by (rule links_fold) (simp add: links_ok_def)
  ultimately show ?thesis by (simp add: links_ok_def plum_run_def)
qed

end



end
