(* ===== verification/Ipc_Router.thy ===== *)
theory Ipc_Router
  imports Prelude
begin

text \<open>
  \<open>pkg/protorun/ipc_router.go\<close> and \<open>codec_registry.go\<close>: the tables of the runtime that say which
  protocol owns a wire identifier.  A protocol is known by the identity of its \<open>protoProtocol\<close>, a
  number here; handlers, subscriber functions and codecs are opaque values.

  The codec table and the request-route table promise the same thing to the supervisor, stated
  once as the locale \<open>owner_table\<close>.
\<close>

type_synonym proto_id = nat

subsection \<open>The codec registry\<close>

type_synonym 'c codecEntry = "proto_id \<times> 'c"

record 'c codecRegistry =
  lookup :: "uint64 \<rightharpoonup> 'c codecEntry"

definition newCodecRegistry :: "'c codecRegistry" where
  "newCodecRegistry = \<lparr>lookup = Map.empty\<rparr>"

definition codec_Set :: "uint64 \<Rightarrow> proto_id \<Rightarrow> 'c \<Rightarrow> 'c codecRegistry \<Rightarrow> 'c codecRegistry" where
  "codec_Set wireID proto c r = r\<lparr>lookup := (lookup r)(wireID \<mapsto> (proto, c))\<rparr>"

definition codec_Get :: "uint64 \<Rightarrow> 'c codecRegistry \<Rightarrow> 'c codecEntry option" where
  "codec_Get wireID r = lookup r wireID"

text \<open>Deletion of every entry that satisfies a condition, while the map is being ranged over.\<close>

definition delete_where :: "('v \<Rightarrow> bool) \<Rightarrow> ('k \<rightharpoonup> 'v) \<Rightarrow> ('k \<rightharpoonup> 'v)" where
  "delete_where P m = (\<lambda>k. case m k of None \<Rightarrow> None | Some v \<Rightarrow> if P v then None else Some v)"

definition codec_RemoveOwner :: "proto_id \<Rightarrow> 'c codecRegistry \<Rightarrow> 'c codecRegistry" where
  "codec_RemoveOwner proto r = r\<lparr>lookup := delete_where (\<lambda>e. fst e = proto) (lookup r)\<rparr>"

subsection \<open>The IPC router\<close>

type_synonym 'h requestRoute = "proto_id \<times> 'h"
type_synonym 'f notificationSub = "proto_id \<times> 'f"

record ('h, 'f) ipcRouter =
  requestRoutes :: "uint64 \<rightharpoonup> 'h requestRoute"
  notificationFanout :: "uint64 \<rightharpoonup> 'f notificationSub list"

definition newIPCRouter :: "('h, 'f) ipcRouter" where
  "newIPCRouter = \<lparr>requestRoutes = Map.empty, notificationFanout = Map.empty\<rparr>"

definition RegisterRequestRoute ::
  "uint64 \<Rightarrow> proto_id \<Rightarrow> 'h \<Rightarrow> ('h, 'f) ipcRouter \<Rightarrow> 'h requestRoute option \<times> ('h, 'f) ipcRouter" where
  "RegisterRequestRoute wireID proto handler r =
     (requestRoutes r wireID, r\<lparr>requestRoutes := (requestRoutes r)(wireID \<mapsto> (proto, handler))\<rparr>)"

definition Route :: "uint64 \<Rightarrow> ('h, 'f) ipcRouter \<Rightarrow> 'h requestRoute option" where
  "Route wireID r = requestRoutes r wireID"

text \<open>The loop of \<open>Subscribe\<close> over the copied slice: the first entry of the protocol is replaced.\<close>

fun setSub :: "proto_id \<Rightarrow> 'f \<Rightarrow> 'f notificationSub list \<Rightarrow> 'f notificationSub list" where
  "setSub proto fn [] = [(proto, fn)]"
| "setSub proto fn (s # subs) = (if fst s = proto then (proto, fn) # subs else s # setSub proto fn subs)"

definition subsOf :: "uint64 \<Rightarrow> ('h, 'f) ipcRouter \<Rightarrow> 'f notificationSub list" where
  "subsOf wireID r = (case notificationFanout r wireID of None \<Rightarrow> [] | Some subs \<Rightarrow> subs)"

definition Subscribe :: "uint64 \<Rightarrow> proto_id \<Rightarrow> 'f \<Rightarrow> ('h, 'f) ipcRouter \<Rightarrow> ('h, 'f) ipcRouter" where
  "Subscribe wireID proto fn r =
     r\<lparr>notificationFanout := (notificationFanout r)(wireID \<mapsto> setSub proto fn (subsOf wireID r))\<rparr>"

fun removeSub :: "'f notificationSub list \<Rightarrow> proto_id \<Rightarrow> 'f notificationSub list" where
  "removeSub [] proto = []"
| "removeSub (s # subs) proto = (if fst s \<noteq> proto then s # removeSub subs proto else subs)"

definition Unsubscribe :: "uint64 \<Rightarrow> proto_id \<Rightarrow> ('h, 'f) ipcRouter \<Rightarrow> ('h, 'f) ipcRouter" where
  "Unsubscribe wireID proto r =
     (let r = r\<lparr>notificationFanout := (notificationFanout r)(wireID \<mapsto> removeSub (subsOf wireID r) proto)\<rparr>
      in if length (subsOf wireID r) = 0
         then r\<lparr>notificationFanout := (notificationFanout r)(wireID := None)\<rparr> else r)"

definition router_RemoveOwner :: "proto_id \<Rightarrow> ('h, 'f) ipcRouter \<Rightarrow> ('h, 'f) ipcRouter" where
  "router_RemoveOwner proto r =
     (let r = r\<lparr>requestRoutes := delete_where (\<lambda>route. fst route = proto) (requestRoutes r)\<rparr>
      in r\<lparr>notificationFanout :=
           (\<lambda>wireID. case notificationFanout r wireID of
                       None \<Rightarrow> None
                     | Some subs \<Rightarrow>
                         let trimmed = removeSub subs proto
                         in if length trimmed = 0 then None else Some trimmed)\<rparr>)"

definition SnapshotSubscribers :: "uint64 \<Rightarrow> ('h, 'f) ipcRouter \<Rightarrow> 'f notificationSub list" where
  "SnapshotSubscribers wireID r = subsOf wireID r"

subsection \<open>Tables with owners\<close>

locale owner_table =
  fixes empty :: 't and insert :: "uint64 \<Rightarrow> proto_id \<Rightarrow> 'v \<Rightarrow> 't \<Rightarrow> 't"
    and get :: "uint64 \<Rightarrow> 't \<Rightarrow> (proto_id \<times> 'v) option" and purge :: "proto_id \<Rightarrow> 't \<Rightarrow> 't"
  assumes get_empty: "get k empty = None"
    and get_insert: "get k (insert k' p v t) = (if k = k' then Some (p, v) else get k t)"
    and get_purge: "get k (purge p t) =
      (case get k t of None \<Rightarrow> None | Some e \<Rightarrow> if fst e = p then None else Some e)"
begin

definition owned :: "proto_id \<Rightarrow> 't \<Rightarrow> uint64 set" where
  "owned p t = {k. \<exists>v. get k t = Some (p, v)}"

lemma owned_purge: "owned p (purge q t) = (if p = q then {} else owned p t)"
  by (auto simp: owned_def get_purge split: option.splits if_splits)

lemma purge_others: "get k t = Some (q, v) \<Longrightarrow> q \<noteq> p \<Longrightarrow> get k (purge p t) = Some (q, v)"
  by (simp add: get_purge)

text \<open>A restart: what the old instance registered is purged, what the fresh one registers is found.\<close>

lemma purge_register:
  "get k (fold (\<lambda>(k, v). insert k p v) kvs (purge p t)) =
     (case map_of (rev kvs) k of Some v \<Rightarrow> Some (p, v) | None \<Rightarrow> get k (purge p t))"
proof (induction kvs rule: rev_induct)
  case (snoc kv kvs)
  then show ?case by (cases kv) (simp add: get_insert)
qed simp

end

interpretation codecs: owner_table newCodecRegistry codec_Set codec_Get codec_RemoveOwner
  by unfold_locales
    (simp_all add: newCodecRegistry_def codec_Set_def codec_Get_def codec_RemoveOwner_def delete_where_def)

interpretation routes: owner_table newIPCRouter "\<lambda>k p v r. snd (RegisterRequestRoute k p v r)" Route
  router_RemoveOwner
  by unfold_locales
    (simp_all add: newIPCRouter_def RegisterRequestRoute_def Route_def router_RemoveOwner_def
      delete_where_def Let_def)

subsection \<open>Subscriptions\<close>

definition router_ok :: "('h, 'f) ipcRouter \<Rightarrow> bool" where
  "router_ok r \<longleftrightarrow> (\<forall>k subs. notificationFanout r k = Some subs \<longrightarrow> subs \<noteq> [] \<and> distinct (map fst subs))"

lemma setSub_fst: "fst ` set (setSub p f subs) = insert p (fst ` set subs)"
  by (induction subs) auto

lemma setSub_ok: "distinct (map fst subs) \<Longrightarrow> setSub p f subs \<noteq> [] \<and> distinct (map fst (setSub p f subs))"
  by (induction subs) (auto simp: setSub_fst)

lemma other_keys: "distinct (map fst (s # subs)) \<Longrightarrow> x \<in> set subs \<Longrightarrow> fst x \<noteq> fst s"
  by (metis distinct.simps(2) image_eqI list.simps(9) set_map)

lemma removeSub_filter: "distinct (map fst subs) \<Longrightarrow> removeSub subs p = filter (\<lambda>s. fst s \<noteq> p) subs"
proof (induction subs)
  case (Cons s subs)
  note other = other_keys [OF Cons.prems]
  have "filter (\<lambda>x. fst x \<noteq> fst s) subs = subs" using other by (simp add: filter_id_conv)
  then show ?case using Cons by auto
qed simp

lemma removeSub_ok: "distinct (map fst subs) \<Longrightarrow> distinct (map fst (removeSub subs p))"
  by (simp add: removeSub_filter distinct_map_filter)

lemma subsOf_distinct: "router_ok r \<Longrightarrow> distinct (map fst (subsOf k r))"
  by (auto simp: router_ok_def subsOf_def split: option.splits)

lemma router_ok_ops [simp]:
  "router_ok newIPCRouter"
  "router_ok r \<Longrightarrow> router_ok (snd (RegisterRequestRoute k p h r))"
  "router_ok r \<Longrightarrow> router_ok (Subscribe k p f r)"
  "router_ok r \<Longrightarrow> router_ok (Unsubscribe k p r)"
  "router_ok r \<Longrightarrow> router_ok (router_RemoveOwner p r)"
proof -
  show "router_ok newIPCRouter" by (simp add: router_ok_def newIPCRouter_def)
  assume ok: "router_ok r"
  then show "router_ok (snd (RegisterRequestRoute k p h r))"
    by (simp add: router_ok_def RegisterRequestRoute_def)
  show "router_ok (Subscribe k p f r)"
    using ok setSub_ok [OF subsOf_distinct [OF ok], of p f k] by (simp add: router_ok_def Subscribe_def)
  show "router_ok (Unsubscribe k p r)"
    using ok removeSub_ok [OF subsOf_distinct [OF ok]]
    by (auto simp: router_ok_def Unsubscribe_def subsOf_def Let_def)
  show "router_ok (router_RemoveOwner p r)"
    using ok removeSub_ok by (auto simp: router_ok_def router_RemoveOwner_def Let_def split: option.splits if_splits)
qed

datatype ('h, 'f) router_op =
    RouteOp uint64 proto_id 'h
  | SubscribeOp uint64 proto_id 'f
  | UnsubscribeOp uint64 proto_id
  | RemoveOp proto_id

fun router_step :: "('h, 'f) router_op \<Rightarrow> ('h, 'f) ipcRouter \<Rightarrow> ('h, 'f) ipcRouter" where
  "router_step (RouteOp k p h) r = snd (RegisterRequestRoute k p h r)"
| "router_step (SubscribeOp k p f) r = Subscribe k p f r"
| "router_step (UnsubscribeOp k p) r = Unsubscribe k p r"
| "router_step (RemoveOp p) r = router_RemoveOwner p r"

lemma router_run_ok: "router_ok r \<Longrightarrow> router_ok (fold router_step ops r)"
proof (induction ops arbitrary: r)
  case (Cons op ops)
  then show ?case by (cases op) simp_all
qed simp

text \<open>The subscribers of one identifier by the book: an ordered list with one entry per protocol.\<close>

fun subs_step :: "uint64 \<Rightarrow> ('h, 'f) router_op \<Rightarrow> 'f notificationSub list \<Rightarrow> 'f notificationSub list" where
  "subs_step k (SubscribeOp k' p f) subs =
     (if k \<noteq> k' then subs
      else if p \<in> fst ` set subs then map (\<lambda>s. if fst s = p then (p, f) else s) subs
      else subs @ [(p, f)])"
| "subs_step k (UnsubscribeOp k' p) subs = (if k \<noteq> k' then subs else filter (\<lambda>s. fst s \<noteq> p) subs)"
| "subs_step k (RemoveOp p) subs = filter (\<lambda>s. fst s \<noteq> p) subs"
| "subs_step k (RouteOp k' p h) subs = subs"

lemma setSub_book:
  "distinct (map fst subs) \<Longrightarrow> setSub p f subs =
     (if p \<in> fst ` set subs then map (\<lambda>s. if fst s = p then (p, f) else s) subs else subs @ [(p, f)])"
proof (induction subs)
  case (Cons s subs)
  note other = other_keys [OF Cons.prems]
  have "map (\<lambda>x. if fst x = fst s then (fst s, f) else x) subs = subs"
    using other by (intro map_idI) simp
  then show ?case using Cons by auto
qed simp

lemma router_step_book:
  assumes "router_ok r"
  shows "SnapshotSubscribers k (router_step op r) = subs_step k op (SnapshotSubscribers k r)"
proof (cases op)
  case (RemoveOp p)
  have "removeSub subs p = filter (\<lambda>s. fst s \<noteq> p) subs" if "notificationFanout r k = Some subs" for subs
    using assms that by (simp add: router_ok_def removeSub_filter)
  then show ?thesis
    using RemoveOp
    by (auto simp: SnapshotSubscribers_def subsOf_def router_RemoveOwner_def Let_def split: option.splits)
qed (use subsOf_distinct [OF assms] in \<open>auto simp: SnapshotSubscribers_def subsOf_def
      RegisterRequestRoute_def Subscribe_def Unsubscribe_def setSub_book removeSub_filter Let_def
      split: option.splits\<close>)

text \<open>
  The fan-out of a notification: after any sequence of registrations, subscriptions,
  unsubscriptions and removals, the snapshot that a publish ranges over is the list kept by the
  book: one entry per subscribed protocol, in the order of first subscription, each with the
  function it subscribed last.
\<close>

theorem fanout_by_the_book:
  "SnapshotSubscribers k (fold router_step ops newIPCRouter) = fold (subs_step k) ops []"
proof -
  have "router_ok r \<Longrightarrow>
      SnapshotSubscribers k (fold router_step ops r) = fold (subs_step k) ops (SnapshotSubscribers k r)" for r
  proof (induction ops arbitrary: r)
    case (Cons op ops)
    have "router_ok (router_step op r)" using Cons.prems by (cases op) simp_all
    then show ?case using Cons.IH router_step_book [OF Cons.prems] by simp
  qed simp
  from this [of newIPCRouter, OF router_ok_ops(1)] show ?thesis
    by (simp add: SnapshotSubscribers_def subsOf_def newIPCRouter_def)
qed

text \<open>
  A removed protocol is gone from every table and nobody else is touched: after \<open>RemoveOwner\<close> no
  request route, codec or subscription names it, and every entry of another protocol is as before.
\<close>

theorem removed_owner_gone:
  assumes "r = fold router_step ops newIPCRouter"
  shows "routes.owned p (router_RemoveOwner p r) = {} \<and> codecs.owned p (codec_RemoveOwner p c) = {} \<and>
    SnapshotSubscribers k (router_RemoveOwner p r) = filter (\<lambda>s. fst s \<noteq> p) (SnapshotSubscribers k r) \<and>
    (q \<noteq> p \<longrightarrow> routes.owned q (router_RemoveOwner p r) = routes.owned q r \<and>
       codecs.owned q (codec_RemoveOwner p c) = codecs.owned q c)"
proof -
  have "router_ok r" using assms by (simp add: router_run_ok)
  from router_step_book [OF this, of k "RemoveOp p"] show ?thesis
    by (simp add: routes.owned_purge codecs.owned_purge)
qed

theorem removed_owner_gone_witness:
  "routes.owned 1 (router_RemoveOwner 1 (fold router_step [RouteOp 7 1 (), SubscribeOp 8 2 ()] newIPCRouter)) = {}"
  using removed_owner_gone [OF refl, of 1 "[RouteOp 7 1 (), SubscribeOp 8 2 ()]" newCodecRegistry 0 0]
  by blast

end
