(* ===== verification/Mailbox.thy ===== *)
theory Mailbox
  imports Prelude "HOL-Library.Multiset" "HOL-Library.Sublist"
begin

text \<open>
  \<open>pkg/protorun/mailbox.go\<close>: the event queue of a protocol.  \<open>push\<close> and \<open>next\<close> select between the
  queue and the context of the runtime; \<open>dn\<close> says whether the context is done and \<open>pick\<close> which of two
  ready cases the select takes, so a theorem over every \<open>pick\<close> covers every choice of the scheduler.
  A call that would block returns \<open>Blocks\<close> or \<open>Waits\<close>: it has not happened yet.

  The contract the event loop relies on is the locale \<open>mailbox\<close>; both implementations and the sum
  type that \<open>newMailbox\<close> builds interpret it.
\<close>

subsection \<open>Configuration\<close>

datatype OverflowPolicy = OverflowBlock | OverflowDropOldest | OverflowDropNewest | OverflowUnbounded

fun OverflowPolicy_String :: "OverflowPolicy \<Rightarrow> string" where
  "OverflowPolicy_String OverflowBlock = ''block''"
| "OverflowPolicy_String OverflowDropOldest = ''drop_oldest''"
| "OverflowPolicy_String OverflowDropNewest = ''drop_newest''"
| "OverflowPolicy_String OverflowUnbounded = ''unbounded''"

record MailboxCfg =
  Capacity :: int
  Overflow :: OverflowPolicy

definition defaultMailboxCapacity :: int where
  "defaultMailboxCapacity = 1024"

subsection \<open>Results of the operations\<close>

datatype ('e, 'b) pushed = Pushed "'e option" 'b | Aborted 'b | Blocks

datatype ('e, 'b) got = Got 'e 'b | Closed 'b | Waits 'b

fun map_pushed_box :: "('b \<Rightarrow> 'c) \<Rightarrow> ('e, 'b) pushed \<Rightarrow> ('e, 'c) pushed" where
  "map_pushed_box f (Pushed d b) = Pushed d (f b)"
| "map_pushed_box f (Aborted b) = Aborted (f b)"
| "map_pushed_box f Blocks = Blocks"

fun map_got_box :: "('b \<Rightarrow> 'c) \<Rightarrow> ('e, 'b) got \<Rightarrow> ('e, 'c) got" where
  "map_got_box f (Got e b) = Got e (f b)"
| "map_got_box f (Closed b) = Closed (f b)"
| "map_got_box f (Waits b) = Waits (f b)"

subsection \<open>The blocking mailbox\<close>

record 'e blockingMailbox =
  ch :: "'e list"
  bcap :: int

definition bm_push :: "bool \<Rightarrow> bool \<Rightarrow> 'e \<Rightarrow> 'e blockingMailbox \<Rightarrow> ('e, 'e blockingMailbox) pushed" where
  "bm_push pick dn ev b =
     (if int (length (ch b)) < bcap b \<and> (dn \<longrightarrow> pick) then Pushed None (b\<lparr>ch := ch b @ [ev]\<rparr>)
      else if dn then Aborted b else Blocks)"

definition bm_next :: "bool \<Rightarrow> bool \<Rightarrow> 'e blockingMailbox \<Rightarrow> ('e, 'e blockingMailbox) got" where
  "bm_next pick dn b =
     (case ch b of
        ev # q \<Rightarrow> if dn \<longrightarrow> pick then Got ev (b\<lparr>ch := q\<rparr>) else Closed b
      | [] \<Rightarrow> if dn then Closed b else Waits b)"

fun bm_drainLoop :: "'e list \<Rightarrow> 'e list \<Rightarrow> 'e list" where
  "bm_drainLoop acc [] = acc"
| "bm_drainLoop acc (ev # q) = bm_drainLoop (acc @ [ev]) q"

definition bm_drain :: "'e blockingMailbox \<Rightarrow> 'e list \<times> 'e blockingMailbox" where
  "bm_drain b = (bm_drainLoop [] (ch b), b\<lparr>ch := []\<rparr>)"

definition bm_depth :: "'e blockingMailbox \<Rightarrow> nat" where
  "bm_depth b = length (ch b)"

definition bm_capacity :: "'e blockingMailbox \<Rightarrow> int" where
  "bm_capacity b = bcap b"

definition bm_policy :: "'e blockingMailbox \<Rightarrow> OverflowPolicy" where
  "bm_policy b = OverflowBlock"

subsection \<open>The deque mailbox\<close>

record 'e dequeMailbox =
  pol :: OverflowPolicy
  dcap :: int
  queue :: "'e list"
  signal :: bool

definition enqueueLocked :: "'e \<Rightarrow> 'e dequeMailbox \<Rightarrow> 'e option \<times> 'e dequeMailbox" where
  "enqueueLocked ev d =
     (case pol d of
        OverflowUnbounded \<Rightarrow> (None, d\<lparr>queue := queue d @ [ev]\<rparr>)
      | OverflowDropNewest \<Rightarrow>
          if int (length (queue d)) \<ge> dcap d then (Some ev, d)
          else (None, d\<lparr>queue := queue d @ [ev]\<rparr>)
      | OverflowDropOldest \<Rightarrow>
          if int (length (queue d)) \<ge> dcap d
          then let old = queue d ! 0
               in (Some old, d\<lparr>queue := drop 1 (queue d) @ [ev]\<rparr>)
          else (None, d\<lparr>queue := queue d @ [ev]\<rparr>)
      | _ \<Rightarrow> (None, d\<lparr>queue := queue d @ [ev]\<rparr>))"

definition dm_push :: "bool \<Rightarrow> bool \<Rightarrow> 'e \<Rightarrow> 'e dequeMailbox \<Rightarrow> ('e, 'e dequeMailbox) pushed" where
  "dm_push pick dn ev d = (let (dropped, d) = enqueueLocked ev d in Pushed dropped (d\<lparr>signal := True\<rparr>))"

text \<open>
  The loop of \<open>next\<close>: after it has taken the signal it finds the queue as it left it, so it turns at
  most twice before it returns or waits.
\<close>

definition dm_next :: "bool \<Rightarrow> bool \<Rightarrow> 'e dequeMailbox \<Rightarrow> ('e, 'e dequeMailbox) got" where
  "dm_next pick dn d =
     (case queue d of
        ev # q \<Rightarrow> Got ev (d\<lparr>queue := q\<rparr>)
      | [] \<Rightarrow>
          if signal d \<and> (dn \<longrightarrow> pick)
          then if dn then Closed (d\<lparr>signal := False\<rparr>) else Waits (d\<lparr>signal := False\<rparr>)
          else if dn then Closed d else Waits d)"

definition dm_drain :: "'e dequeMailbox \<Rightarrow> 'e list \<times> 'e dequeMailbox" where
  "dm_drain d = (queue d, d\<lparr>queue := []\<rparr>)"

definition dm_depth :: "'e dequeMailbox \<Rightarrow> nat" where
  "dm_depth d = length (queue d)"

definition dm_capacity :: "'e dequeMailbox \<Rightarrow> int" where
  "dm_capacity d = (if pol d = OverflowUnbounded then 0 else dcap d)"

definition dm_policy :: "'e dequeMailbox \<Rightarrow> OverflowPolicy" where
  "dm_policy d = pol d"

subsection \<open>The mailbox of a protocol\<close>

datatype 'e mbox = Blocking "'e blockingMailbox" | Deque "'e dequeMailbox"

definition newMailbox :: "MailboxCfg \<Rightarrow> 'e mbox" where
  "newMailbox m =
     (let capacity = (if Capacity m \<le> 0 then defaultMailboxCapacity else Capacity m)
      in if Overflow m = OverflowBlock then Blocking \<lparr>ch = [], bcap = capacity\<rparr>
         else Deque \<lparr>pol = Overflow m, dcap = capacity, queue = [], signal = False\<rparr>)"

fun mb_push :: "bool \<Rightarrow> bool \<Rightarrow> 'e \<Rightarrow> 'e mbox \<Rightarrow> ('e, 'e mbox) pushed" where
  "mb_push pick dn ev (Blocking b) = map_pushed_box Blocking (bm_push pick dn ev b)"
| "mb_push pick dn ev (Deque d) = map_pushed_box Deque (dm_push pick dn ev d)"

fun mb_next :: "bool \<Rightarrow> bool \<Rightarrow> 'e mbox \<Rightarrow> ('e, 'e mbox) got" where
  "mb_next pick dn (Blocking b) = map_got_box Blocking (bm_next pick dn b)"
| "mb_next pick dn (Deque d) = map_got_box Deque (dm_next pick dn d)"

fun mb_drain :: "'e mbox \<Rightarrow> 'e list \<times> 'e mbox" where
  "mb_drain (Blocking b) = (let (evs, b) = bm_drain b in (evs, Blocking b))"
| "mb_drain (Deque d) = (let (evs, d) = dm_drain d in (evs, Deque d))"

fun mb_depth :: "'e mbox \<Rightarrow> nat" where
  "mb_depth (Blocking b) = bm_depth b"
| "mb_depth (Deque d) = dm_depth d"

fun mb_capacity :: "'e mbox \<Rightarrow> int" where
  "mb_capacity (Blocking b) = bm_capacity b"
| "mb_capacity (Deque d) = dm_capacity d"

fun mb_policy :: "'e mbox \<Rightarrow> OverflowPolicy" where
  "mb_policy (Blocking b) = bm_policy b"
| "mb_policy (Deque d) = dm_policy d"

fun contents :: "'e mbox \<Rightarrow> 'e list" where
  "contents (Blocking b) = ch b"
| "contents (Deque d) = queue d"

subsection \<open>The contract\<close>

text \<open>
  \<open>lossless m\<close> holds of the mailboxes whose policy never drops; \<open>bound m\<close> is how many events may wait.
\<close>

locale mailbox =
  fixes items :: "'b \<Rightarrow> 'e list"
    and push :: "bool \<Rightarrow> bool \<Rightarrow> 'e \<Rightarrow> 'b \<Rightarrow> ('e, 'b) pushed"
    and take_next :: "bool \<Rightarrow> bool \<Rightarrow> 'b \<Rightarrow> ('e, 'b) got"
    and bound :: "'b \<Rightarrow> nat option" and lossless :: "'b \<Rightarrow> bool" and ok :: "'b \<Rightarrow> bool"
  assumes push_items: "ok m \<Longrightarrow> push pick dn ev m = Pushed d m' \<Longrightarrow>
      d = None \<and> items m' = items m @ [ev] \<or> d = Some ev \<and> items m' = items m \<or>
      (\<exists>old q. items m = old # q \<and> d = Some old \<and> items m' = q @ [ev])"
    and push_keeps: "ok m \<Longrightarrow> push pick dn ev m = Pushed d m' \<Longrightarrow>
      ok m' \<and> bound m' = bound m \<and> lossless m' = lossless m \<and> (lossless m \<longrightarrow> d = None)"
    and push_abort: "push pick dn ev m = Aborted m' \<Longrightarrow> dn \<and> m' = m"
    and got_items: "ok m \<Longrightarrow> take_next pick dn m = Got ev m' \<Longrightarrow> items m = ev # items m'"
    and got_keeps: "ok m \<Longrightarrow> take_next pick dn m = Got ev m' \<Longrightarrow>
      ok m' \<and> bound m' = bound m \<and> lossless m' = lossless m"
    and idle_items: "ok m \<Longrightarrow> take_next pick dn m = Waits m' \<or> take_next pick dn m = Closed m' \<Longrightarrow>
      ok m' \<and> items m' = items m \<and> bound m' = bound m \<and> lossless m' = lossless m"
    and waits_empty: "ok m \<Longrightarrow> take_next pick dn m = Waits m' \<Longrightarrow> items m = [] \<and> \<not> dn"
    and within: "ok m \<Longrightarrow> bound m = Some n \<Longrightarrow> length (items m) \<le> n"

datatype 'e mb_op = Push bool bool 'e | Next bool bool

text \<open>What a run of pushes and nexts did: the events accepted, delivered and dropped, in order.\<close>

record ('e, 'b) mb_trace =
  box :: 'b
  accepted :: "'e list"
  delivered :: "'e list"
  lost :: "'e list"

definition mb_begin :: "'b \<Rightarrow> ('e, 'b) mb_trace" where
  "mb_begin m = \<lparr>box = m, accepted = [], delivered = [], lost = []\<rparr>"

fun mb_step ::
  "(bool \<Rightarrow> bool \<Rightarrow> 'e \<Rightarrow> 'b \<Rightarrow> ('e, 'b) pushed) \<Rightarrow> (bool \<Rightarrow> bool \<Rightarrow> 'b \<Rightarrow> ('e, 'b) got) \<Rightarrow>
     'e mb_op \<Rightarrow> ('e, 'b) mb_trace \<Rightarrow> ('e, 'b) mb_trace" where
  "mb_step push nxt (Push pick dn ev) t =
     (case push pick dn ev (box t) of
        Pushed None m \<Rightarrow> t\<lparr>box := m, accepted := accepted t @ [ev]\<rparr>
      | Pushed (Some d) m \<Rightarrow> t\<lparr>box := m, accepted := accepted t @ [ev], lost := lost t @ [d]\<rparr>
      | _ \<Rightarrow> t)"
| "mb_step push nxt (Next pick dn) t =
     (case nxt pick dn (box t) of
        Got ev m \<Rightarrow> t\<lparr>box := m, delivered := delivered t @ [ev]\<rparr>
      | Closed m \<Rightarrow> t\<lparr>box := m\<rparr>
      | Waits m \<Rightarrow> t\<lparr>box := m\<rparr>)"

context mailbox
begin

definition honest :: "('e, 'b) mb_trace \<Rightarrow> bool" where
  "honest t \<longleftrightarrow> ok (box t) \<and>
     mset (accepted t) = mset (delivered t) + mset (lost t) + mset (items (box t)) \<and>
     subseq (delivered t @ items (box t)) (accepted t) \<and>
     (lossless (box t) \<longrightarrow> lost t = [])"

lemma honest_push:
  assumes "honest t" "push pick dn ev (box t) = Pushed d m"
  shows "honest (t\<lparr>box := m, accepted := accepted t @ [ev],
    lost := (case d of None \<Rightarrow> lost t | Some x \<Rightarrow> lost t @ [x])\<rparr>)"
proof -
  have t: "ok (box t)" "subseq (delivered t @ items (box t)) (accepted t)"
      "mset (accepted t) = mset (delivered t) + mset (lost t) + mset (items (box t))"
      "lossless (box t) \<longrightarrow> lost t = []"
    using assms(1) by (simp_all add: honest_def)
  note k = push_keeps [OF t(1) assms(2)]
  consider "d = None" "items m = items (box t) @ [ev]" | "d = Some ev" "items m = items (box t)"
    | old q where "items (box t) = old # q" "d = Some old" "items m = q @ [ev]"
    using push_items [OF t(1) assms(2)] by blast
  then show ?thesis
  proof cases
    case 1
    have "subseq ((delivered t @ items (box t)) @ [ev]) (accepted t @ [ev])"
      using t(2) by (intro list_emb_append_mono) simp_all
    then show ?thesis using 1 k t by (simp add: honest_def)
  next
    case 2
    then show ?thesis using k t by (auto simp: honest_def)
  next
    case 3
    have "subseq (delivered t @ q) (delivered t @ items (box t))"
      using 3 by (intro list_emb_append_mono) (auto intro: subseq_order.refl list_emb_Cons)
    then have "subseq (delivered t @ q) (accepted t)" using t(2) subseq_order.trans by blast
    then have "subseq ((delivered t @ q) @ [ev]) (accepted t @ [ev])"
      by (intro list_emb_append_mono) simp_all
    then show ?thesis using 3 k t by (auto simp: honest_def)
  qed
qed

lemma honest_step: "honest t \<Longrightarrow> honest (mb_step push take_next op t)"
proof (cases op)
  case (Push pick dn ev)
  assume h: "honest t"
  show ?thesis
  proof (cases "push pick dn ev (box t)")
    case (Pushed d m)
    then show ?thesis using honest_push [OF h Pushed] \<open>op = _\<close> by (cases d) simp_all
  qed (use h Push in simp_all)
next
  case (Next pick dn)
  assume h: "honest t"
  then have t: "ok (box t)" by (simp add: honest_def)
  show ?thesis
  proof (cases "take_next pick dn (box t)")
    case (Got ev m)
    then show ?thesis
      using h Next got_items [OF t Got] got_keeps [OF t Got] by (auto simp: honest_def)
  next
    case (Closed m)
    then show ?thesis using h Next idle_items [OF t, of pick dn m] by (simp add: honest_def)
  next
    case (Waits m)
    then show ?thesis using h Next idle_items [OF t, of pick dn m] by (simp add: honest_def)
  qed
qed

lemma honest_run:
  assumes "ok m" "items m = []"
  shows "honest (fold (mb_step push take_next) ops (mb_begin m))"
proof -
  have "honest (mb_begin m)" using assms by (simp add: honest_def mb_begin_def)
  then show ?thesis
    by (induction ops rule: rev_induct) (simp_all add: honest_step)
qed

lemma same_bound: "ok (box t) \<Longrightarrow>
  bound (box (mb_step push take_next op t)) = bound (box t) \<and>
  lossless (box (mb_step push take_next op t)) = lossless (box t) \<and>
  ok (box (mb_step push take_next op t))"
  by (cases op) (auto split: pushed.splits option.splits got.splits
      dest: push_keeps push_abort got_keeps idle_items)

lemma run_bound: "ok (box t) \<Longrightarrow>
  bound (box (fold (mb_step push take_next) ops t)) = bound (box t) \<and>
  lossless (box (fold (mb_step push take_next) ops t)) = lossless (box t) \<and>
  ok (box (fold (mb_step push take_next) ops t))"
  by (induction ops arbitrary: t) (simp_all add: same_bound)

text \<open>Without losses the queue is a FIFO: the events come out in the order they went in.\<close>

lemma lossless_fifo:
  fixes ops
  assumes "ok m" "items m = []" "lossless m"
  defines "t \<equiv> fold (mb_step push take_next) ops (mb_begin m)"
  shows "lost t = [] \<and> delivered t @ items (box t) = accepted t"
proof -
  have h: "honest t" unfolding t_def by (rule honest_run [OF assms(1,2)])
  have "lossless (box t)"
    unfolding t_def using run_bound [of "mb_begin m" ops] assms(1,3) by (simp add: mb_begin_def)
  then have l: "lost t = []" using h by (simp add: honest_def)
  then have "length (delivered t @ items (box t)) = length (accepted t)"
    using h by (metis honest_def mset_append size_mset append_Nil2)
  then have "delivered t @ items (box t) = accepted t"
    using h by (simp add: honest_def subseq_same_length)
  then show ?thesis using l by simp
qed

end


subsection \<open>The implementations keep the contract\<close>

definition bm_ok :: "'e blockingMailbox \<Rightarrow> bool" where
  "bm_ok b \<longleftrightarrow> 0 < bcap b \<and> int (length (ch b)) \<le> bcap b"

interpretation bm: mailbox ch bm_push bm_next "\<lambda>b. Some (nat (bcap b))" "\<lambda>b. True" bm_ok
  by unfold_locales
    (auto simp: bm_push_def bm_next_def bm_ok_def split: if_splits list.splits)

definition dm_ok :: "'e dequeMailbox \<Rightarrow> bool" where
  "dm_ok d \<longleftrightarrow> 0 < dcap d \<and> pol d \<noteq> OverflowBlock \<and>
     (pol d \<noteq> OverflowUnbounded \<longrightarrow> int (length (queue d)) \<le> dcap d)"

definition dm_bound :: "'e dequeMailbox \<Rightarrow> nat option" where
  "dm_bound d = (if pol d = OverflowUnbounded then None else Some (nat (dcap d)))"

lemma enqueueLocked_cases:
  assumes "dm_ok d" "enqueueLocked ev d = (r, d')"
  shows "r = None \<and> queue d' = queue d @ [ev] \<or> r = Some ev \<and> queue d' = queue d \<or>
      (\<exists>old q. queue d = old # q \<and> r = Some old \<and> queue d' = q @ [ev])"
    and "pol d' = pol d" "dcap d' = dcap d" "pol d = OverflowUnbounded \<Longrightarrow> r = None"
    and "pol d \<noteq> OverflowUnbounded \<Longrightarrow> int (length (queue d')) \<le> dcap d"
  using assms
  by (cases "pol d"; cases "queue d"; auto simp: enqueueLocked_def dm_ok_def Let_def split: if_splits)+

interpretation dm: mailbox queue dm_push dm_next dm_bound "\<lambda>d. pol d = OverflowUnbounded" dm_ok
proof unfold_locales
  fix m m' :: "'e dequeMailbox" and pick dn and ev :: 'e and d
  assume ok: "dm_ok m"
  {
    assume "dm_push pick dn ev m = Pushed d m'"
    then obtain m1 where m1: "enqueueLocked ev m = (d, m1)" "m' = m1\<lparr>signal := True\<rparr>"
      by (auto simp: dm_push_def Let_def split: prod.splits)
    note c = enqueueLocked_cases [OF ok m1(1)]
    show "d = None \<and> queue m' = queue m @ [ev] \<or> d = Some ev \<and> queue m' = queue m \<or>
        (\<exists>old q. queue m = old # q \<and> d = Some old \<and> queue m' = q @ [ev])"
      using c(1) m1(2) by simp
    show "dm_ok m' \<and> dm_bound m' = dm_bound m \<and> (pol m' = OverflowUnbounded) = (pol m = OverflowUnbounded) \<and>
        (pol m = OverflowUnbounded \<longrightarrow> d = None)"
      using c(2-) m1(2) ok by (auto simp: dm_ok_def dm_bound_def)
  }
qed (auto simp: dm_push_def dm_next_def dm_ok_def dm_bound_def Let_def split: if_splits list.splits
      prod.splits)

fun mb_ok :: "'e mbox \<Rightarrow> bool" where
  "mb_ok (Blocking b) = bm_ok b"
| "mb_ok (Deque d) = dm_ok d"

fun mb_bound :: "'e mbox \<Rightarrow> nat option" where
  "mb_bound (Blocking b) = Some (nat (bcap b))"
| "mb_bound (Deque d) = dm_bound d"

fun mb_lossless :: "'e mbox \<Rightarrow> bool" where
  "mb_lossless (Blocking b) = True"
| "mb_lossless (Deque d) = (pol d = OverflowUnbounded)"


lemma pushed_box_iff [simp]:
  "map_pushed_box f r = Pushed d m \<longleftrightarrow> (\<exists>b. r = Pushed d b \<and> m = f b)"
  "map_pushed_box f r = Aborted m \<longleftrightarrow> (\<exists>b. r = Aborted b \<and> m = f b)"
  by (cases r; auto)+

lemma got_box_iff [simp]:
  "map_got_box f g = Got e m \<longleftrightarrow> (\<exists>b. g = Got e b \<and> m = f b)"
  "map_got_box f g = Closed m \<longleftrightarrow> (\<exists>b. g = Closed b \<and> m = f b)"
  "map_got_box f g = Waits m \<longleftrightarrow> (\<exists>b. g = Waits b \<and> m = f b)"
  by (cases g; auto)+

lemma mb_pushE:
  assumes "mb_push pick dn ev m = Pushed d m'"
  obtains b b' where "m = Blocking b" "m' = Blocking b'" "bm_push pick dn ev b = Pushed d b'"
    | b b' where "m = Deque b" "m' = Deque b'" "dm_push pick dn ev b = Pushed d b'"
  using assms by (cases m) auto

lemma mb_gotE:
  assumes "mb_next pick dn m = Got ev m'"
  obtains b b' where "m = Blocking b" "m' = Blocking b'" "bm_next pick dn b = Got ev b'"
    | b b' where "m = Deque b" "m' = Deque b'" "dm_next pick dn b = Got ev b'"
  using assms by (cases m) auto

lemma mb_idleE:
  assumes "mb_next pick dn m = Waits m' \<or> mb_next pick dn m = Closed m'"
  obtains b b' where "m = Blocking b" "m' = Blocking b'"
      "bm_next pick dn b = Waits b' \<or> bm_next pick dn b = Closed b'"
    | b b' where "m = Deque b" "m' = Deque b'"
      "dm_next pick dn b = Waits b' \<or> dm_next pick dn b = Closed b'"
  using assms by (cases m) auto

interpretation mb: mailbox contents mb_push mb_next mb_bound mb_lossless mb_ok
proof unfold_locales
  fix m m' :: "'e mbox" and pick dn and ev :: 'e and d
  assume ok: "mb_ok m"
  show "d = None \<and> contents m' = contents m @ [ev] \<or> d = Some ev \<and> contents m' = contents m \<or>
      (\<exists>old q. contents m = old # q \<and> d = Some old \<and> contents m' = q @ [ev])"
    if "mb_push pick dn ev m = Pushed d m'"
    using that
  proof (cases rule: mb_pushE)
    case (1 b b')
    then show ?thesis using ok bm.push_items [of b pick dn ev d b'] by simp
  next
    case (2 b b')
    then show ?thesis using ok dm.push_items [of b pick dn ev d b'] by simp
  qed
  show "mb_ok m' \<and> mb_bound m' = mb_bound m \<and> mb_lossless m' = mb_lossless m \<and>
      (mb_lossless m \<longrightarrow> d = None)"
    if "mb_push pick dn ev m = Pushed d m'"
    using that
  proof (cases rule: mb_pushE)
    case (1 b b')
    then show ?thesis using ok bm.push_keeps [of b pick dn ev d b'] by simp
  next
    case (2 b b')
    then show ?thesis using ok dm.push_keeps [of b pick dn ev d b'] by simp
  qed
  show "contents m = ev # contents m'"
    and "mb_ok m' \<and> mb_bound m' = mb_bound m \<and> mb_lossless m' = mb_lossless m"
    if "mb_next pick dn m = Got ev m'"
  proof -
    have "contents m = ev # contents m' \<and>
        mb_ok m' \<and> mb_bound m' = mb_bound m \<and> mb_lossless m' = mb_lossless m"
      using that
    proof (cases rule: mb_gotE)
      case (1 b b')
      then show ?thesis using ok bm.got_items [of b pick dn ev b'] bm.got_keeps [of b pick dn ev b'] by simp
    next
      case (2 b b')
      then show ?thesis using ok dm.got_items [of b pick dn ev b'] dm.got_keeps [of b pick dn ev b'] by simp
    qed
    then show "contents m = ev # contents m'"
      "mb_ok m' \<and> mb_bound m' = mb_bound m \<and> mb_lossless m' = mb_lossless m" by simp_all
  qed
  show "mb_ok m' \<and> contents m' = contents m \<and> mb_bound m' = mb_bound m \<and> mb_lossless m' = mb_lossless m"
    if "mb_next pick dn m = Waits m' \<or> mb_next pick dn m = Closed m'"
    using that
  proof (cases rule: mb_idleE)
    case (1 b b')
    then show ?thesis using ok bm.idle_items [of b pick dn b'] by simp
  next
    case (2 b b')
    then show ?thesis using ok dm.idle_items [of b pick dn b'] by simp
  qed
  show "contents m = [] \<and> \<not> dn" if "mb_next pick dn m = Waits m'"
    using ok that bm.waits_empty [of _ pick dn] dm.waits_empty [of _ pick dn] by (cases m) fastforce+
next
  fix m m' :: "'e mbox" and pick dn and ev :: 'e
  show "dn \<and> m' = m" if "mb_push pick dn ev m = Aborted m'"
    using that bm.push_abort [of pick dn ev] dm.push_abort [of pick dn ev] by (cases m) fastforce+
next
  fix m :: "'e mbox" and n
  show "length (contents m) \<le> n" if "mb_ok m" "mb_bound m = Some n"
    using that bm.within [of _ n] dm.within [of _ n] by (cases m) simp_all
qed

subsection \<open>What a mailbox guarantees\<close>

definition mb_run :: "MailboxCfg \<Rightarrow> 'e mb_op list \<Rightarrow> ('e, 'e mbox) mb_trace" where
  "mb_run cfg ops = fold (mb_step mb_push mb_next) ops (mb_begin (newMailbox cfg))"

lemma newMailbox_ok [simp]: "mb_ok (newMailbox cfg)" "contents (newMailbox cfg) = []"
  by (simp_all add: newMailbox_def bm_ok_def dm_ok_def defaultMailboxCapacity_def)

text \<open>
  C24. Nothing is lost silently and nothing is reordered: whatever the overflow policy and however
  pushes and nexts interleave, every accepted event was delivered, handed to the dead-letter hook
  or is still queued, exactly once, and the events delivered or queued are in the order in which
  they were accepted.
\<close>

theorem mailbox_conserves:
  "mset (accepted (mb_run cfg ops)) =
     mset (delivered (mb_run cfg ops)) + mset (lost (mb_run cfg ops)) + mset (contents (box (mb_run cfg ops)))
   \<and> subseq (delivered (mb_run cfg ops) @ contents (box (mb_run cfg ops))) (accepted (mb_run cfg ops))"
  using mb.honest_run [of "newMailbox cfg" ops] by (simp add: mb_run_def mb.honest_def)

text \<open>
  Under the policies \<open>OverflowBlock\<close> and \<open>OverflowUnbounded\<close> arrival order is delivery order:
  no event is dropped, and the delivered events are a prefix of the accepted ones.
\<close>

theorem mailbox_fifo:
  assumes "Overflow cfg = OverflowBlock \<or> Overflow cfg = OverflowUnbounded"
  shows "lost (mb_run cfg ops) = [] \<and>
    delivered (mb_run cfg ops) @ contents (box (mb_run cfg ops)) = accepted (mb_run cfg ops)"
proof -
  have "mb_lossless (newMailbox cfg)" using assms by (auto simp: newMailbox_def Let_def)
  then show ?thesis unfolding mb_run_def by (intro mb.lossless_fifo) simp_all
qed

theorem mailbox_fifo_witness:
  "lost (mb_run \<lparr>Capacity = 1, Overflow = OverflowBlock\<rparr> [Push True False (CHR ''a''), Push True False (CHR ''b'')]) = [] \<and>
   accepted (mb_run \<lparr>Capacity = 1, Overflow = OverflowBlock\<rparr> [Push True False (CHR ''a''), Push True False (CHR ''b'')]) = ''a''"
  using mailbox_fifo [of "\<lparr>Capacity = 1, Overflow = OverflowBlock\<rparr>" "[Push True False (CHR ''a''), Push True False (CHR ''b'')]"]
  by (simp add: mb_run_def mb_begin_def newMailbox_def bm_push_def)

text \<open>
  A bounded mailbox stays within its configured capacity, and reports it.
\<close>

theorem mailbox_bounded:
  fixes ops :: "'e mb_op list"
  assumes "Overflow cfg \<noteq> OverflowUnbounded"
  shows "int (mb_depth (box (mb_run cfg ops))) \<le> (if Capacity cfg \<le> 0 then 1024 else Capacity cfg) \<and>
    mb_capacity (newMailbox cfg :: 'e mbox) = (if Capacity cfg \<le> 0 then 1024 else Capacity cfg)"
proof -
  let ?c = "if Capacity cfg \<le> 0 then 1024 else Capacity cfg"
  let ?m = "newMailbox cfg :: 'e mbox"
  have b: "mb_bound ?m = Some (nat ?c)"
    using assms by (auto simp: newMailbox_def dm_bound_def defaultMailboxCapacity_def Let_def)
  have "mb_bound (box (mb_run cfg ops)) = Some (nat ?c) \<and> mb_ok (box (mb_run cfg ops))"
    using mb.run_bound [of "mb_begin ?m" ops] b by (simp add: mb_run_def mb_begin_def)
  then have "length (contents (box (mb_run cfg ops))) \<le> nat ?c" using mb.within by blast
  moreover have "mb_depth (box (mb_run cfg ops)) = length (contents (box (mb_run cfg ops)))"
    by (cases "box (mb_run cfg ops)") (simp_all add: bm_depth_def dm_depth_def)
  moreover have "mb_capacity (newMailbox cfg :: 'e mbox) = ?c"
    using assms by (auto simp: newMailbox_def bm_capacity_def dm_capacity_def
        defaultMailboxCapacity_def Let_def)
  ultimately show ?thesis by auto
qed

theorem mailbox_bounded_witness:
  "int (mb_depth (box (mb_run \<lparr>Capacity = 1, Overflow = OverflowDropOldest\<rparr> [Push True False (CHR ''a''), Push True False (CHR ''b'')]))) \<le> 1"
  using mailbox_bounded [of "\<lparr>Capacity = 1, Overflow = OverflowDropOldest\<rparr>" "[Push True False (CHR ''a''), Push True False (CHR ''b'')]"]
  by simp

text \<open>Filling a deque without reading from it.\<close>

definition dm_fill :: "'e list \<Rightarrow> 'e dequeMailbox \<Rightarrow> 'e dequeMailbox" where
  "dm_fill evs d = fold (\<lambda>ev d. snd (enqueueLocked ev d)) evs d"

lemma enqueueLocked_pol [simp]:
  "pol (snd (enqueueLocked ev d)) = pol d" "dcap (snd (enqueueLocked ev d)) = dcap d"
  by (simp_all add: enqueueLocked_def Let_def split: OverflowPolicy.splits)

lemma dm_fill_pol [simp]: "pol (dm_fill evs d) = pol d" "dcap (dm_fill evs d) = dcap d"
  unfolding dm_fill_def by (induction evs arbitrary: d) simp_all

text \<open>
  What a full mailbox keeps: with \<open>OverflowDropOldest\<close> the latest events, with
  \<open>OverflowDropNewest\<close> the earliest, as many as fit.
\<close>

theorem overflow_keeps:
  assumes "0 < dcap d" "queue d = []"
  shows "queue (dm_fill evs (d\<lparr>pol := OverflowDropOldest\<rparr>)) = drop (length evs - nat (dcap d)) evs \<and>
         queue (dm_fill evs (d\<lparr>pol := OverflowDropNewest\<rparr>)) = take (nat (dcap d)) evs"
proof (induction evs rule: rev_induct)
  case Nil
  then show ?case using assms by (simp add: dm_fill_def)
next
  case (snoc ev evs)
  let ?o = "dm_fill evs (d\<lparr>pol := OverflowDropOldest\<rparr>)"
  let ?n = "dm_fill evs (d\<lparr>pol := OverflowDropNewest\<rparr>)"
  have step: "dm_fill (evs @ [ev]) x = snd (enqueueLocked ev (dm_fill evs x))" for x :: "'a dequeMailbox"
    by (simp add: dm_fill_def)
  have old: "queue ?o = drop (length evs - nat (dcap d)) evs" and new: "queue ?n = take (nat (dcap d)) evs"
    using snoc.IH by simp_all
  have "queue (snd (enqueueLocked ev ?o)) = drop (length (evs @ [ev]) - nat (dcap d)) (evs @ [ev])"
  proof (cases "int (length (queue ?o)) \<ge> dcap d")
    case True
    then have "Suc (length evs - nat (dcap d)) = Suc (length evs) - nat (dcap d)"
      using old assms(1) by auto
    then show ?thesis using True old assms(1) by (simp add: enqueueLocked_def Let_def)
  next
    case False
    then show ?thesis using old assms(1) by (auto simp: enqueueLocked_def)
  qed
  moreover have "queue (snd (enqueueLocked ev ?n)) = take (nat (dcap d)) (evs @ [ev])"
    using new assms(1) by (auto simp: enqueueLocked_def)
  ultimately show ?case by (simp add: step)
qed

theorem overflow_keeps_witness:
  "queue (dm_fill ''abc'' \<lparr>pol = OverflowDropOldest, dcap = 2, queue = [], signal = False\<rparr>) = ''bc''"
  using overflow_keeps [of "\<lparr>pol = OverflowDropOldest, dcap = 2, queue = [], signal = False\<rparr>" "''abc''"]
  by simp

subsection \<open>No wake-up is lost\<close>

text \<open>
  The deque mailbox under concurrency: producers enqueue under the lock and signal after they have
  released it; the event loop takes an event, or finds the queue empty and parks in its select
  until the signal channel is readable.  \<open>owing\<close> counts the producers between their two steps.
\<close>

record 'e wake_state =
  wbox :: "'e dequeMailbox"
  parked :: bool
  owing :: nat

inductive wake_reach :: "MailboxCfg \<Rightarrow> 'e wake_state \<Rightarrow> bool" for cfg where
  start: "newMailbox cfg = Deque d \<Longrightarrow> wake_reach cfg \<lparr>wbox = d, parked = False, owing = 0\<rparr>"
| enqueue: "wake_reach cfg s \<Longrightarrow> enqueueLocked ev (wbox s) = (r, d) \<Longrightarrow>
    wake_reach cfg (s\<lparr>wbox := d, owing := owing s + 1\<rparr>)"
| notify: "wake_reach cfg s \<Longrightarrow> owing s = Suc n \<Longrightarrow>
    wake_reach cfg (s\<lparr>wbox := (wbox s)\<lparr>signal := True\<rparr>, owing := n\<rparr>)"
| take_event: "wake_reach cfg s \<Longrightarrow> \<not> parked s \<Longrightarrow> queue (wbox s) = ev # q \<Longrightarrow>
    wake_reach cfg (s\<lparr>wbox := (wbox s)\<lparr>queue := q\<rparr>\<rparr>)"
| park: "wake_reach cfg s \<Longrightarrow> \<not> parked s \<Longrightarrow> queue (wbox s) = [] \<Longrightarrow> wake_reach cfg (s\<lparr>parked := True\<rparr>)"
| wake: "wake_reach cfg s \<Longrightarrow> parked s \<Longrightarrow> signal (wbox s) \<Longrightarrow>
    wake_reach cfg (s\<lparr>wbox := (wbox s)\<lparr>signal := False\<rparr>, parked := False\<rparr>)"

text \<open>
  No lost wake-up: whenever events are queued, the event loop is awake, or the signal that will
  wake it is set, or a producer is about to set it.
\<close>

theorem no_lost_wakeup:
  assumes "wake_reach cfg s" "queue (wbox s) \<noteq> []"
  shows "parked s = False \<or> signal (wbox s) \<or> 0 < owing s"
  using assms by (induction rule: wake_reach.induct) auto

theorem no_lost_wakeup_witness:
  "\<exists>s :: char wake_state. wake_reach \<lparr>Capacity = 1, Overflow = OverflowUnbounded\<rparr> s \<and> queue (wbox s) \<noteq> [] \<and>
     parked s \<and> 0 < owing s"
proof -
  let ?cfg = "\<lparr>Capacity = 1, Overflow = OverflowUnbounded\<rparr>"
  let ?d = "\<lparr>pol = OverflowUnbounded, dcap = 1, queue = [], signal = False\<rparr> :: char dequeMailbox"
  let ?s = "\<lparr>wbox = ?d\<lparr>queue := ''x''\<rparr>, parked = True, owing = 1\<rparr>"
  have "wake_reach ?cfg \<lparr>wbox = ?d, parked = False, owing = 0\<rparr>"
    by (rule start) (simp add: newMailbox_def)
  from park [OF this] have "wake_reach ?cfg \<lparr>wbox = ?d, parked = True, owing = 0\<rparr>" by simp
  from enqueue [OF this, of "CHR ''x''"] have s: "wake_reach ?cfg ?s" by (simp add: enqueueLocked_def)
  then have "0 < owing ?s" using no_lost_wakeup [OF s] by simp
  with s show ?thesis by (intro exI [of _ ?s]) simp
qed

end
