(* ===== verification/Event_Loop.thy ===== *)
theory Event_Loop
  imports Mailbox Transport_Host
begin

text \<open>
  \<open>pkg/protorun/protocol.go\<close>: the envelope around a user protocol: how events enter its mailbox,
  how its event loop dispatches them, how panics of handlers are caught, and how replies meet the
  requests they answer (\<open>ipc.go\<close>, \<open>runtime.go\<close>).

  Handlers are user code.  The model records each invocation as a \<open>call\<close>, in order, and takes as a
  parameter which calls panic; everything the runtime does around them is written out.  A request
  identifier is a 64-bit counter; the proofs ask that it has not wrapped.
\<close>

subsection \<open>Events\<close>

datatype sessionEvent =
    SessionConnectedEvent Host
  | SessionDisconnectedEvent Host
  | SessionGivenUpEvent Host int
  | SessionFailedEvent Host

fun session_host :: "sessionEvent \<Rightarrow> Host" where
  "session_host (SessionConnectedEvent h) = h"
| "session_host (SessionDisconnectedEvent h) = h"
| "session_host (SessionGivenUpEvent h n) = h"
| "session_host (SessionFailedEvent h) = h"

datatype ipc_error =
    ErrNoRequestHandler
  | ErrRequestTimeout
  | ErrResponderFailed ipc_error
  | ErrHandlerPanicked
  | UserError string
  | ErrProtocolRestarting

datatype replyToken = ReplyToken (requester: nat) (requestID: uint64)

datatype ('m, 'n, 'q, 'r) protoEvent =
    EvMessage uint64 'm Host
  | EvTimer nat
  | EvSession sessionEvent
  | EvRequest 'q replyToken
  | EvReply uint64 "ipc_error + 'r"
  | EvNotification 'n
  | EvCallback nat

fun kind_String :: "('m, 'n, 'q, 'r) protoEvent \<Rightarrow> string" where
  "kind_String (EvMessage w m h) = ''message''"
| "kind_String (EvTimer t) = ''timer''"
| "kind_String (EvSession e) = ''session''"
| "kind_String (EvRequest q t) = ''request''"
| "kind_String (EvReply i r) = ''reply''"
| "kind_String (EvNotification n) = ''notification''"
| "kind_String (EvCallback a) = ''callback''"

fun event_peer :: "('m, 'n, 'q, 'r) protoEvent \<Rightarrow> Host" where
  "event_peer (EvMessage w m h) = h"
| "event_peer (EvSession e) = session_host e"
| "event_peer _ = zeroHost"

datatype DeadLetter = DeadLetter (dlKind: string) (dlPeer: Host)

datatype ('m, 'n, 'q, 'r) handler_call =
    MessageHandler uint64 'm Host
  | TimerHandler nat
  | SessionHandler sessionEvent
  | RequestHandler 'q replyToken
  | ReplyCallback uint64 "ipc_error + 'r"
  | NotificationHandler 'n
  | RestartCallback nat

text \<open>
  User code: which calls panic, and the first \<open>Reply\<close> or \<open>Fail\<close> that a request handler makes on its
  responder before it returns or panics, if any (later ones are dropped by the \<open>done\<close> flag), and the
  session events whose optional handler interface the protocol implements.
\<close>

record ('m, 'n, 'q, 'r) user_code =
  panics :: "('m, 'n, 'q, 'r) handler_call \<Rightarrow> bool"
  answers :: "'q \<Rightarrow> replyToken \<Rightarrow> (ipc_error + 'r) option"
  listens :: "sessionEvent \<Rightarrow> bool"

subsection \<open>The envelope\<close>

record ('m, 'n, 'q, 'r) protoProtocol =
  pmailbox :: "('m, 'n, 'q, 'r) protoEvent mbox"
  supervised :: bool
  quarantined :: bool
  exitLoop :: bool
  inFlight :: int
  handlers :: "uint64 set"
  cancelledTimers :: "nat set"
  ptimers :: "nat set"
  requests :: "uint64 set"
  nextRequestID :: uint64
  calls :: "('m, 'n, 'q, 'r) handler_call list"
  deadLetters :: "DeadLetter list"
  panicSignal :: "string option"
  replied :: "(replyToken \<times> (ipc_error + 'r)) list"

definition newProtoProtocolMailbox :: "MailboxCfg \<Rightarrow> bool \<Rightarrow> ('m, 'n, 'q, 'r) protoProtocol" where
  "newProtoProtocolMailbox m watched =
     \<lparr>pmailbox = newMailbox m, supervised = watched, quarantined = False, exitLoop = False, inFlight = 0,
      handlers = {}, cancelledTimers = {}, ptimers = {}, requests = {}, nextRequestID = 0, calls = [],
      deadLetters = [], panicSignal = None, replied = []\<rparr>"

definition deadLetterEvent ::
  "('m, 'n, 'q, 'r) protoEvent \<Rightarrow> ('m, 'n, 'q, 'r) protoProtocol \<Rightarrow> ('m, 'n, 'q, 'r) protoProtocol" where
  "deadLetterEvent ev p = p\<lparr>deadLetters := deadLetters p @ [DeadLetter (kind_String ev) (event_peer ev)]\<rparr>"

text \<open>\<open>enqueue\<close> is \<open>None\<close> while a full blocking mailbox holds the producer.\<close>

definition enqueue ::
  "bool \<Rightarrow> bool \<Rightarrow> ('m, 'n, 'q, 'r) protoEvent \<Rightarrow> ('m, 'n, 'q, 'r) protoProtocol \<Rightarrow>
     (bool \<times> ('m, 'n, 'q, 'r) protoProtocol) option" where
  "enqueue pick dn ev p =
     (if supervised p \<and> quarantined p then Some (True, deadLetterEvent ev p)
      else let p = p\<lparr>inFlight := inFlight p + 1\<rparr>
           in case mb_push pick dn ev (pmailbox p) of
                Blocks \<Rightarrow> None
              | Aborted m \<Rightarrow> Some (False, p\<lparr>pmailbox := m, inFlight := inFlight p - 1\<rparr>)
              | Pushed None m \<Rightarrow> Some (True, p\<lparr>pmailbox := m\<rparr>)
              | Pushed (Some dropped) m \<Rightarrow>
                  Some (True, deadLetterEvent dropped (p\<lparr>pmailbox := m, inFlight := inFlight p - 1\<rparr>)))"

definition signalPanic :: "string \<Rightarrow> ('m, 'n, 'q, 'r) protoProtocol \<Rightarrow> ('m, 'n, 'q, 'r) protoProtocol" where
  "signalPanic where' p = (if panicSignal p = None then p\<lparr>panicSignal := Some where'\<rparr> else p)"

definition handPanicToSupervisor ::
  "string \<Rightarrow> ('m, 'n, 'q, 'r) protoProtocol \<Rightarrow> ('m, 'n, 'q, 'r) protoProtocol" where
  "handPanicToSupervisor where' p =
     (if \<not> supervised p then p else (signalPanic where' p)\<lparr>exitLoop := True\<rparr>)"

definition safeCall ::
  "('m, 'n, 'q, 'r) user_code \<Rightarrow> string \<Rightarrow> ('m, 'n, 'q, 'r) handler_call \<Rightarrow>
     ('m, 'n, 'q, 'r) protoProtocol \<Rightarrow> ('m, 'n, 'q, 'r) protoProtocol" where
  "safeCall u where' c p =
     (let p = p\<lparr>calls := calls p @ [c]\<rparr>
      in if panics u c then handPanicToSupervisor where' p else p)"

definition handleMessage ::
  "('m, 'n, 'q, 'r) user_code \<Rightarrow> uint64 \<Rightarrow> 'm \<Rightarrow> Host \<Rightarrow>
     ('m, 'n, 'q, 'r) protoProtocol \<Rightarrow> ('m, 'n, 'q, 'r) protoProtocol" where
  "handleMessage u w msg from p =
     (if w \<notin> handlers p then p else safeCall u ''message handler'' (MessageHandler w msg from) p)"

definition deliverReply ::
  "('m, 'n, 'q, 'r) user_code \<Rightarrow> uint64 \<Rightarrow> ipc_error + 'r \<Rightarrow>
     ('m, 'n, 'q, 'r) protoProtocol \<Rightarrow> ('m, 'n, 'q, 'r) protoProtocol" where
  "deliverReply u i rep p =
     (if i \<in> requests p
      then safeCall u ''reply handler'' (ReplyCallback i rep) (p\<lparr>requests := requests p - {i}\<rparr>)
      else p)"

definition deliverSessionEvent ::
  "('m, 'n, 'q, 'r) user_code \<Rightarrow> sessionEvent \<Rightarrow>
     ('m, 'n, 'q, 'r) protoProtocol \<Rightarrow> ('m, 'n, 'q, 'r) protoProtocol" where
  "deliverSessionEvent u ev p =
     (if listens u ev then safeCall u ''session event handler'' (SessionHandler ev) p else p)"

text \<open>
  The closure that \<open>RegisterRequestHandler\<close> installs: a handler that panics before it has answered
  fails its responder, and the panic still reaches the supervisor.
\<close>

definition runRequestHandler ::
  "('m, 'n, 'q, 'r) user_code \<Rightarrow> 'q \<Rightarrow> replyToken \<Rightarrow>
     ('m, 'n, 'q, 'r) protoProtocol \<Rightarrow> ('m, 'n, 'q, 'r) protoProtocol" where
  "runRequestHandler u q tok p =
     (let c = RequestHandler q tok;
          p = p\<lparr>calls := calls p @ [c]\<rparr>;
          p = (case answers u q tok of None \<Rightarrow> p | Some r \<Rightarrow> p\<lparr>replied := replied p @ [(tok, r)]\<rparr>)
      in if panics u c
         then let p = (if answers u q tok = None
                       then p\<lparr>replied := replied p @ [(tok, Inl (ErrResponderFailed ErrHandlerPanicked))]\<rparr>
                       else p)
              in handPanicToSupervisor ''request handler'' p
         else p)"

fun dispatch ::
  "('m, 'n, 'q, 'r) user_code \<Rightarrow> ('m, 'n, 'q, 'r) protoEvent \<Rightarrow>
     ('m, 'n, 'q, 'r) protoProtocol \<Rightarrow> ('m, 'n, 'q, 'r) protoProtocol" where
  "dispatch u (EvMessage w m h) p = handleMessage u w m h p"
| "dispatch u (EvNotification n) p = safeCall u ''notification handler'' (NotificationHandler n) p"
| "dispatch u (EvTimer t) p =
     (if t \<in> cancelledTimers p then p else safeCall u ''timer handler'' (TimerHandler t) p)"
| "dispatch u (EvSession e) p = deliverSessionEvent u e p"
| "dispatch u (EvRequest q tok) p = runRequestHandler u q tok p"
| "dispatch u (EvReply i rep) p = deliverReply u i rep p"
| "dispatch u (EvCallback a) p = safeCall u ''restart handler'' (RestartCallback a) p"

text \<open>One turn of \<open>eventHandler\<close>; the boolean says whether the loop goes on.\<close>

definition loopTurn ::
  "('m, 'n, 'q, 'r) user_code \<Rightarrow> bool \<Rightarrow> bool \<Rightarrow> ('m, 'n, 'q, 'r) protoProtocol \<Rightarrow>
     bool \<times> ('m, 'n, 'q, 'r) protoProtocol" where
  "loopTurn u pick dn p =
     (case mb_next pick dn (pmailbox p) of
        Waits m \<Rightarrow> (True, p\<lparr>pmailbox := m\<rparr>)
      | Closed m \<Rightarrow> (False, p\<lparr>pmailbox := m\<rparr>)
      | Got ev m \<Rightarrow>
          let p = dispatch u ev (p\<lparr>pmailbox := m\<rparr>);
              p = p\<lparr>inFlight := inFlight p - 1\<rparr>
          in (\<not> exitLoop p, p))"

definition trackTimer :: "nat \<Rightarrow> ('m, 'n, 'q, 'r) protoProtocol \<Rightarrow> ('m, 'n, 'q, 'r) protoProtocol" where
  "trackTimer t p = p\<lparr>ptimers := insert t (ptimers p)\<rparr>"

definition forgetTimer :: "nat \<Rightarrow> ('m, 'n, 'q, 'r) protoProtocol \<Rightarrow> ('m, 'n, 'q, 'r) protoProtocol" where
  "forgetTimer t p = p\<lparr>ptimers := ptimers p - {t}\<rparr>"

definition cancelTimer :: "nat \<Rightarrow> ('m, 'n, 'q, 'r) protoProtocol \<Rightarrow> ('m, 'n, 'q, 'r) protoProtocol" where
  "cancelTimer t p =
     (if t \<in> cancelledTimers p then p
      else forgetTimer t (p\<lparr>cancelledTimers := insert t (cancelledTimers p)\<rparr>))"

definition cancelAllTimers :: "('m, 'n, 'q, 'r) protoProtocol \<Rightarrow> ('m, 'n, 'q, 'r) protoProtocol" where
  "cancelAllTimers p = fold cancelTimer (sorted_list_of_set (ptimers p)) p"

definition drainMailboxToDeadLetter ::
  "('m, 'n, 'q, 'r) protoProtocol \<Rightarrow> ('m, 'n, 'q, 'r) protoProtocol" where
  "drainMailboxToDeadLetter p =
     (let (drained, m) = mb_drain (pmailbox p);
          p = fold deadLetterEvent drained (p\<lparr>pmailbox := m\<rparr>)
      in if length drained > 0 then p\<lparr>inFlight := inFlight p - int (length drained)\<rparr> else p)"

text \<open>The requester's side of \<open>sendRequest\<close>: the identifier and the pending entry.\<close>

definition registerRequest ::
  "('m, 'n, 'q, 'r) protoProtocol \<Rightarrow> uint64 \<times> ('m, 'n, 'q, 'r) protoProtocol" where
  "registerRequest p =
     (let i = nextRequestID p + 1
      in (i, p\<lparr>nextRequestID := i, requests := insert i (requests p)\<rparr>))"

definition failPendingRestarting ::
  "('m, 'n, 'q, 'r) protoProtocol \<Rightarrow> ('m, 'n, 'q, 'r) protoProtocol" where
  "failPendingRestarting p =
     (let pend = requests p;
          p = p\<lparr>requests := {}\<rparr>
      in fold (\<lambda>i p. p\<lparr>calls := calls p @ [ReplyCallback i (Inl ErrProtocolRestarting)]\<rparr>)
           (sorted_list_of_set pend) p)"

definition resetForRestart ::
  "MailboxCfg \<Rightarrow> ('m, 'n, 'q, 'r) protoProtocol \<Rightarrow> ('m, 'n, 'q, 'r) protoProtocol" where
  "resetForRestart cfg p =
     p\<lparr>pmailbox := newMailbox cfg, handlers := {}, requests := {}, ptimers := {}, exitLoop := False\<rparr>"

text \<open>
  The protocol's half of \<open>quarantineAndClean\<close>, run when its event loop has exited; the routes it owns
  are removed in the theory of the supervisor.
\<close>

definition quarantine :: "('m, 'n, 'q, 'r) protoProtocol \<Rightarrow> ('m, 'n, 'q, 'r) protoProtocol" where
  "quarantine p =
     failPendingRestarting (cancelAllTimers (drainMailboxToDeadLetter (p\<lparr>quarantined := True\<rparr>)))"

subsection \<open>What the envelope does to one protocol\<close>

text \<open>
  Everything that reaches the envelope between two turns of other goroutines: a producer's event, a
  turn of the loop, a request of the protocol, a timer set or cancelled, and the two halves of a
  restart.
\<close>

datatype ('m, 'n, 'q, 'r) env_event =
    Produce bool bool "('m, 'n, 'q, 'r) protoEvent"
  | Turn bool bool
  | Ask
  | SetTimer nat
  | CancelTimer nat
  | Quarantine
  | Rebuild MailboxCfg

fun env_step ::
  "('m, 'n, 'q, 'r) user_code \<Rightarrow> ('m, 'n, 'q, 'r) env_event \<Rightarrow>
     ('m, 'n, 'q, 'r) protoProtocol \<Rightarrow> ('m, 'n, 'q, 'r) protoProtocol" where
  "env_step u (Produce pick dn ev) p = (case enqueue pick dn ev p of None \<Rightarrow> p | Some (ok, p) \<Rightarrow> p)"
| "env_step u (Turn pick dn) p = snd (loopTurn u pick dn p)"
| "env_step u Ask p = snd (registerRequest p)"
| "env_step u (SetTimer t) p = trackTimer t p"
| "env_step u (CancelTimer t) p = cancelTimer t p"
| "env_step u Quarantine p = (if supervised p then quarantine p else p)"
| "env_step u (Rebuild cfg) p =
     (if quarantined p then (resetForRestart cfg p)\<lparr>quarantined := False\<rparr> else p)"

definition env_run ::
  "('m, 'n, 'q, 'r) user_code \<Rightarrow> MailboxCfg \<Rightarrow> bool \<Rightarrow> ('m, 'n, 'q, 'r) env_event list \<Rightarrow>
     ('m, 'n, 'q, 'r) protoProtocol" where
  "env_run u cfg watched es = fold (env_step u) es (newProtoProtocolMailbox cfg watched)"

subsection \<open>What each operation leaves alone\<close>

lemma safeCall_simps [simp]:
  "pmailbox (safeCall u w c p) = pmailbox p" "inFlight (safeCall u w c p) = inFlight p"
  "requests (safeCall u w c p) = requests p" "nextRequestID (safeCall u w c p) = nextRequestID p"
  "calls (safeCall u w c p) = calls p @ [c]" "deadLetters (safeCall u w c p) = deadLetters p"
  "cancelledTimers (safeCall u w c p) = cancelledTimers p" "replied (safeCall u w c p) = replied p"
  "ptimers (safeCall u w c p) = ptimers p"
  by (simp_all add: safeCall_def handPanicToSupervisor_def signalPanic_def Let_def)

lemma runRequestHandler_simps [simp]:
  "pmailbox (runRequestHandler u q t p) = pmailbox p" "inFlight (runRequestHandler u q t p) = inFlight p"
  "requests (runRequestHandler u q t p) = requests p"
  "nextRequestID (runRequestHandler u q t p) = nextRequestID p"
  "calls (runRequestHandler u q t p) = calls p @ [RequestHandler q t]"
  "deadLetters (runRequestHandler u q t p) = deadLetters p"
  "cancelledTimers (runRequestHandler u q t p) = cancelledTimers p"
  "ptimers (runRequestHandler u q t p) = ptimers p"
  by (simp_all add: runRequestHandler_def handPanicToSupervisor_def signalPanic_def Let_def
      split: option.splits)

lemma dispatch_simps [simp]:
  "pmailbox (dispatch u ev p) = pmailbox p" "inFlight (dispatch u ev p) = inFlight p"
  "deadLetters (dispatch u ev p) = deadLetters p" "nextRequestID (dispatch u ev p) = nextRequestID p"
  "cancelledTimers (dispatch u ev p) = cancelledTimers p" "ptimers (dispatch u ev p) = ptimers p"
  by (cases ev; simp add: handleMessage_def deliverReply_def deliverSessionEvent_def)+

lemma deadLetterEvent_simps [simp]:
  "pmailbox (deadLetterEvent ev p) = pmailbox p" "inFlight (deadLetterEvent ev p) = inFlight p"
  "requests (deadLetterEvent ev p) = requests p" "nextRequestID (deadLetterEvent ev p) = nextRequestID p"
  "calls (deadLetterEvent ev p) = calls p" "cancelledTimers (deadLetterEvent ev p) = cancelledTimers p"
  "ptimers (deadLetterEvent ev p) = ptimers p"
  by (simp_all add: deadLetterEvent_def)

lemma fold_deadLetterEvent [simp]:
  "pmailbox (fold deadLetterEvent evs p) = pmailbox p" "inFlight (fold deadLetterEvent evs p) = inFlight p"
  "requests (fold deadLetterEvent evs p) = requests p"
  "nextRequestID (fold deadLetterEvent evs p) = nextRequestID p"
  "calls (fold deadLetterEvent evs p) = calls p"
  "cancelledTimers (fold deadLetterEvent evs p) = cancelledTimers p"
  "ptimers (fold deadLetterEvent evs p) = ptimers p"
  by (induction evs arbitrary: p) simp_all

lemma drain_simps [simp]:
  "requests (drainMailboxToDeadLetter p) = requests p"
  "nextRequestID (drainMailboxToDeadLetter p) = nextRequestID p"
  "calls (drainMailboxToDeadLetter p) = calls p"
  "cancelledTimers (drainMailboxToDeadLetter p) = cancelledTimers p"
  "ptimers (drainMailboxToDeadLetter p) = ptimers p"
  by (simp_all add: drainMailboxToDeadLetter_def Let_def split_beta)

lemma cancelTimer_simps [simp]:
  "pmailbox (cancelTimer t p) = pmailbox p" "inFlight (cancelTimer t p) = inFlight p"
  "requests (cancelTimer t p) = requests p" "nextRequestID (cancelTimer t p) = nextRequestID p"
  "calls (cancelTimer t p) = calls p" "cancelledTimers (cancelTimer t p) = insert t (cancelledTimers p)"
  by (auto simp: cancelTimer_def forgetTimer_def)

lemma fold_cancelTimer [simp]:
  "pmailbox (fold cancelTimer ts p) = pmailbox p" "inFlight (fold cancelTimer ts p) = inFlight p"
  "requests (fold cancelTimer ts p) = requests p" "nextRequestID (fold cancelTimer ts p) = nextRequestID p"
  "calls (fold cancelTimer ts p) = calls p"
  "cancelledTimers (fold cancelTimer ts p) = set ts \<union> cancelledTimers p"
  by (induction ts arbitrary: p) simp_all

lemma fold_fail:
  "fold (\<lambda>i p. p\<lparr>calls := calls p @ [ReplyCallback i r]\<rparr>) js p =
     p\<lparr>calls := calls p @ map (\<lambda>i. ReplyCallback i r) js\<rparr>"
  by (induction js arbitrary: p) simp_all

lemma failPending_simps [simp]:
  "pmailbox (failPendingRestarting p) = pmailbox p" "inFlight (failPendingRestarting p) = inFlight p"
  "requests (failPendingRestarting p) = {}" "nextRequestID (failPendingRestarting p) = nextRequestID p"
  "cancelledTimers (failPendingRestarting p) = cancelledTimers p"
  "calls (failPendingRestarting p) =
     calls p @ map (\<lambda>i. ReplyCallback i (Inl ErrProtocolRestarting)) (sorted_list_of_set (requests p))"
  by (simp_all add: failPendingRestarting_def Let_def fold_fail)

lemma quarantine_simps [simp]:
  "requests (quarantine p) = {}" "nextRequestID (quarantine p) = nextRequestID p"
  "calls (quarantine p) =
     calls p @ map (\<lambda>i. ReplyCallback i (Inl ErrProtocolRestarting)) (sorted_list_of_set (requests p))"
  "cancelledTimers (quarantine p) = set (sorted_list_of_set (ptimers p)) \<union> cancelledTimers p"
  by (simp_all add: quarantine_def cancelAllTimers_def)

text \<open>An event that a producer brings changes the mailbox, the counter and the dead letters only.\<close>

lemma enqueue_simps:
  assumes "enqueue pick dn ev p = Some (ok, p')"
  shows "requests p' = requests p" "nextRequestID p' = nextRequestID p" "calls p' = calls p"
    "cancelledTimers p' = cancelledTimers p" "ptimers p' = ptimers p"
  using assms by (auto simp: enqueue_def Let_def split: if_splits pushed.splits option.splits)

lemma loopTurn_cases:
  obtains (idle) m where "snd (loopTurn u pick dn p) = p\<lparr>pmailbox := m\<rparr>"
    "mb_next pick dn (pmailbox p) = Waits m \<or> mb_next pick dn (pmailbox p) = Closed m"
  | (event) ev m where "mb_next pick dn (pmailbox p) = Got ev m"
    "snd (loopTurn u pick dn p) = (dispatch u ev (p\<lparr>pmailbox := m\<rparr>))\<lparr>inFlight := inFlight p - 1\<rparr>"
  by (cases "mb_next pick dn (pmailbox p)") (auto simp: loopTurn_def Let_def)

subsection \<open>Requests\<close>

fun completes :: "('m, 'n, 'q, 'r) handler_call \<Rightarrow> uint64 list" where
  "completes (ReplyCallback i r) = [i]"
| "completes _ = []"

definition completed :: "('m, 'n, 'q, 'r) protoProtocol \<Rightarrow> uint64 list" where
  "completed p = concat (map completes (calls p))"

definition asks :: "('m, 'n, 'q, 'r) env_event list \<Rightarrow> nat" where
  "asks es = length (filter (\<lambda>e. e = Ask) es)"

text \<open>The identifiers in use after \<open>n\<close> requests, none of them lost unless \<open>lossy\<close>.\<close>

definition ids_ok :: "bool \<Rightarrow> nat \<Rightarrow> ('m, 'n, 'q, 'r) protoProtocol \<Rightarrow> bool" where
  "ids_ok lossy n p \<longleftrightarrow> unat (nextRequestID p) = n \<and> distinct (completed p) \<and>
     set (completed p) \<inter> requests p = {} \<and>
     set (completed p) \<union> requests p \<subseteq> {0 <.. nextRequestID p} \<and>
     (lossy \<or> set (completed p) \<union> requests p = {0 <.. nextRequestID p})"

lemma ids_ok_cong:
  assumes "requests p' = requests p" "nextRequestID p' = nextRequestID p" "completed p' = completed p"
  shows "ids_ok l n p' = ids_ok l n p"
  using assms by (simp add: ids_ok_def)

lemma dispatch_completes:
  "completed (dispatch u ev p) = completed p \<and> requests (dispatch u ev p) = requests p \<or>
   (\<exists>i \<in> requests p. completed (dispatch u ev p) = completed p @ [i] \<and>
      requests (dispatch u ev p) = requests p - {i})"
  by (cases ev) (auto simp: handleMessage_def deliverReply_def deliverSessionEvent_def completed_def)

lemma ids_ok_dispatch:
  assumes "ids_ok l n p" shows "ids_ok l n (dispatch u ev p)"
  using dispatch_completes [of u ev p]
proof (elim disjE bexE conjE)
  fix i assume i: "i \<in> requests p" and eq: "completed (dispatch u ev p) = completed p @ [i]"
      "requests (dispatch u ev p) = requests p - {i}"
  then have "set (completed p @ [i]) \<union> (requests p - {i}) = set (completed p) \<union> requests p" by auto
  with assms i show ?thesis unfolding ids_ok_def eq dispatch_simps by auto
qed (use assms in \<open>simp add: ids_ok_def\<close>)

lemma ids_ok_ask:
  assumes "ids_ok l n p" "Suc n < 2 ^ 64"
  shows "ids_ok l (Suc n) (snd (registerRequest p))"
proof -
  let ?i = "nextRequestID p + 1"
  have n: "unat ?i = Suc n"
    using assms by (simp add: ids_ok_def unat_word_ariths(1))
  then have "{0 <.. ?i} = insert ?i {0 <.. nextRequestID p}" "?i \<notin> {0 <.. nextRequestID p}"
    using assms(1) by (auto simp: ids_ok_def word_le_nat_alt word_less_nat_alt word_unat_eq_iff)
  then show ?thesis
    using assms(1) n by (auto simp: ids_ok_def registerRequest_def completed_def Let_def)
qed

lemma ids_ok_quarantine:
  assumes "ids_ok l n p" shows "ids_ok l n (quarantine p)"
proof -
  have "completed (quarantine p) = completed p @ sorted_list_of_set (requests p)"
    by (simp add: completed_def comp_def)
  then show ?thesis using assms finite [of "requests p"] by (auto simp: ids_ok_def)
qed

lemma ids_ok_step:
  assumes "ids_ok l n p" "n + asks [e] < 2 ^ 64"
  shows "ids_ok (l \<or> (\<exists>cfg. e = Rebuild cfg)) (n + asks [e]) (env_step u e p)"
proof (cases e)
  case (Produce pick dn ev)
  then show ?thesis using assms
    by (auto simp: asks_def completed_def enqueue_simps split: option.split elim!: ids_ok_cong [THEN iffD2, rotated -1])
next
  case (Turn pick dn)
  show ?thesis
  proof (cases rule: loopTurn_cases [of u pick dn p])
    case (idle m)
    then show ?thesis using assms Turn by (simp add: asks_def ids_ok_def completed_def)
  next
    case (event ev m)
    have "ids_ok l n (dispatch u ev (p\<lparr>pmailbox := m\<rparr>))"
      using assms(1) by (intro ids_ok_dispatch) (simp add: ids_ok_def completed_def)
    then show ?thesis using event Turn by (simp add: asks_def ids_ok_def completed_def)
  qed
next
  case Ask
  then show ?thesis using assms ids_ok_ask by (simp add: asks_def)
qed (use assms ids_ok_quarantine in \<open>auto simp: asks_def ids_ok_def completed_def trackTimer_def resetForRestart_def\<close>)

lemma ids_ok_run:
  assumes "asks es < 2 ^ 64"
  shows "ids_ok (\<exists>cfg. Rebuild cfg \<in> set es) (asks es) (env_run u cfg0 watched es)"
  using assms
proof (induction es rule: rev_induct)
  case Nil
  show ?case
    by (simp add: env_run_def newProtoProtocolMailbox_def ids_ok_def asks_def completed_def)
next
  case (snoc e es)
  have "asks (es @ [e]) = asks es + asks [e]" by (simp add: asks_def)
  moreover have "(\<exists>cfg. Rebuild cfg \<in> set (es @ [e])) \<longleftrightarrow> (\<exists>cfg. Rebuild cfg \<in> set es) \<or> (\<exists>cfg. e = Rebuild cfg)"
    by auto
  ultimately show ?case
    using snoc ids_ok_step [of "\<exists>cfg. Rebuild cfg \<in> set es" "asks es" _ e u]
    by (simp add: env_run_def)
qed

text \<open>
  C7. Every request completes at most once, whatever replies, timeouts, duplicates of either and
  restarts arrive in whatever order; and in a run without a rebuild no request is forgotten: each
  identifier handed out has completed or is still pending, and no callback runs for any other.
\<close>

theorem request_once:
  fixes u :: "('m, 'n, 'q, 'r) user_code" and cfg watched
  assumes "asks es < 2 ^ 64"
  defines "p \<equiv> env_run u cfg watched es"
  shows "distinct (completed p) \<and> set (completed p) \<inter> requests p = {} \<and>
    ((\<forall>cfg. Rebuild cfg \<notin> set es) \<longrightarrow>
       unat ` (set (completed p) \<union> requests p) = {1 .. asks es})"
proof (intro conjI impI)
  note ok = ids_ok_run [OF assms(1), of u cfg watched, folded p_def]
  show "distinct (completed p)" "set (completed p) \<inter> requests p = {}"
    using ok by (auto simp: ids_ok_def)
  assume "\<forall>cfg. Rebuild cfg \<notin> set es"
  with ok have all: "set (completed p) \<union> requests p = {0 <.. nextRequestID p}"
      and n: "unat (nextRequestID p) = asks es" by (auto simp: ids_ok_def)
  have "i \<in> unat ` {0 <.. nextRequestID p}" if "i \<in> {1 .. asks es}" for i
    using that n assms(1)
    by (intro image_eqI [of _ _ "word_of_nat i"])
      (auto simp: word_le_nat_alt word_less_nat_alt unat_of_nat take_bit_nat_eq_self_iff)
  then show "unat ` (set (completed p) \<union> requests p) = {1 .. asks es}"
    using n unfolding all by (auto simp: word_le_nat_alt word_less_nat_alt)
qed

theorem request_once_witness:
  defines "p \<equiv> env_run \<lparr>panics = \<lambda>c. False, answers = \<lambda>q t. None, listens = \<lambda>e. False\<rparr> \<lparr>Capacity = 4, Overflow = OverflowBlock\<rparr> False
     [Ask, Ask, Produce True False (EvReply 1 (Inr True)),
      Produce True False (EvReply 1 (Inl ErrRequestTimeout)), Turn True False, Turn True False]
     :: (unit, unit, unit, bool) protoProtocol"
  shows "completed p = [1] \<and> requests p = {2} \<and> distinct (completed p) \<and>
    unat ` (set (completed p) \<union> requests p) = {1 .. 2}"
proof -
  let ?es = "[Ask, Ask, Produce True False (EvReply 1 (Inr True)),
      Produce True False (EvReply 1 (Inl ErrRequestTimeout)), Turn True False, Turn True False]
      :: (unit, unit, unit, bool) env_event list"
  have "asks ?es = 2" by (simp add: asks_def)
  then have once: "distinct (completed p)" "unat ` (set (completed p) \<union> requests p) = {1 .. 2}"
    using request_once [of ?es "\<lparr>panics = \<lambda>c. False, answers = \<lambda>q t. None, listens = \<lambda>e. False\<rparr>"
        "\<lparr>Capacity = 4, Overflow = OverflowBlock\<rparr>" False] by (simp_all add: p_def)
  have "completed p = [1] \<and> requests p = {2}"
    by (simp add: p_def env_run_def newProtoProtocolMailbox_def newMailbox_def registerRequest_def
        enqueue_def bm_push_def bm_next_def loopTurn_def deliverReply_def safeCall_def completed_def
        Let_def) auto
  with once show ?thesis by simp
qed

subsection \<open>Timers\<close>

lemma timers_finite:
  assumes "finite (ptimers p)" shows "finite (ptimers (env_step u e p))"
proof (cases e)
  case (Produce pick dn ev)
  then show ?thesis using assms by (auto split: option.split simp: enqueue_simps)
next
  case (Turn pick dn)
  then show ?thesis using assms by (cases rule: loopTurn_cases [of u pick dn p]) simp_all
next
  case Quarantine
  have "finite (ptimers (fold cancelTimer ts q))" if "finite (ptimers q)"
    for ts and q :: "('a, 'b, 'c, 'd) protoProtocol"
    using that by (induction ts arbitrary: q) (simp_all add: cancelTimer_def forgetTimer_def)
  then show ?thesis using assms Quarantine
    by (simp add: quarantine_def cancelAllTimers_def failPendingRestarting_def Let_def fold_fail)
qed (use assms in \<open>simp_all add: registerRequest_def trackTimer_def cancelTimer_def forgetTimer_def
    resetForRestart_def Let_def\<close>)

lemma run_timers_finite: "finite (ptimers (env_run u cfg watched es))"
  by (induction es rule: rev_induct) (simp_all add: env_run_def newProtoProtocolMailbox_def timers_finite)

abbreviation fires :: "nat \<Rightarrow> ('m, 'n, 'q, 'r) protoProtocol \<Rightarrow> ('m, 'n, 'q, 'r) handler_call list" where
  "fires t p \<equiv> filter (\<lambda>c. c = TimerHandler t) (calls p)"

lemma dispatch_cancelled:
  assumes "t \<in> cancelledTimers p" shows "fires t (dispatch u ev p) = fires t p"
  using assms by (cases ev) (auto simp: handleMessage_def deliverReply_def deliverSessionEvent_def)

lemma cancelled_step:
  assumes "t \<in> cancelledTimers p"
  shows "t \<in> cancelledTimers (env_step u e p) \<and> fires t (env_step u e p) = fires t p"
proof (cases e)
  case (Produce pick dn ev)
  then show ?thesis using assms by (auto split: option.split simp: enqueue_simps)
next
  case (Turn pick dn)
  then show ?thesis using assms
    by (cases rule: loopTurn_cases [of u pick dn p]) (simp_all add: dispatch_cancelled)
qed (use assms in \<open>auto simp: registerRequest_def trackTimer_def resetForRestart_def Let_def filter_empty_conv\<close>)

lemma cancelled_fold:
  assumes "t \<in> cancelledTimers p" shows "fires t (fold (env_step u) es p) = fires t p"
  using assms by (induction es arbitrary: p) (simp_all add: cancelled_step)

text \<open>
  A cancelled timer never fires again, whatever is already queued for it: neither one that the
  protocol cancelled nor one that its discarded instance owned when it was quarantined.
\<close>

theorem cancelled_never_fires:
  assumes "e = CancelTimer t \<or>
    e = Quarantine \<and> supervised (env_run u cfg watched es) \<and> t \<in> ptimers (env_run u cfg watched es)"
  shows "fires t (env_run u cfg watched (es @ e # es')) = fires t (env_run u cfg watched es)"
proof -
  let ?p = "env_run u cfg watched es"
  have "t \<in> cancelledTimers (env_step u e ?p) \<and> fires t (env_step u e ?p) = fires t ?p"
    using assms run_timers_finite [of u cfg watched es] by (auto simp: filter_empty_conv)
  then show ?thesis
    using cancelled_fold [of t "env_step u e ?p" u es'] by (simp add: env_run_def)
qed

theorem cancelled_never_fires_witness:
  "\<exists>p :: (unit, unit, unit, unit) protoProtocol. fires 7 p = [] \<and> calls p = [NotificationHandler ()] \<and>
     p = env_run \<lparr>panics = \<lambda>c. False, answers = \<lambda>q t. None, listens = \<lambda>e. False\<rparr> \<lparr>Capacity = 4, Overflow = OverflowBlock\<rparr> False
       ([SetTimer 7, Produce True False (EvTimer 7), Produce True False (EvNotification ())] @
        CancelTimer 7 # [Turn True False, Turn True False])"
proof -
  let ?run = "env_run \<lparr>panics = \<lambda>c. False, answers = \<lambda>q t. None, listens = \<lambda>e. False\<rparr> \<lparr>Capacity = 4, Overflow = OverflowBlock\<rparr> False
      :: (unit, unit, unit, unit) env_event list \<Rightarrow> (unit, unit, unit, unit) protoProtocol"
  let ?es = "[SetTimer 7, Produce True False (EvTimer 7), Produce True False (EvNotification ())]"
  have "fires 7 (?run (?es @ CancelTimer 7 # [Turn True False, Turn True False])) = fires 7 (?run ?es)"
    by (rule cancelled_never_fires) simp
  moreover have "calls (?run ?es) = []"
    "calls (?run (?es @ CancelTimer 7 # [Turn True False, Turn True False])) = [NotificationHandler ()]"
    by (simp_all add: env_run_def newProtoProtocolMailbox_def newMailbox_def enqueue_def bm_push_def
        bm_next_def loopTurn_def safeCall_def trackTimer_def cancelTimer_def forgetTimer_def Let_def)
  ultimately show ?thesis by simp
qed

subsection \<open>Panics\<close>

text \<open>
  A handler that panics does not go unnoticed: the request it was serving is answered exactly
  once, with an error when the handler had not answered itself, the loop of a supervised protocol
  stops after this event, and the supervisor has a panic to act on.
\<close>

theorem request_panic_handled:
  assumes "panics u (RequestHandler q tok)"
  shows "(\<exists>r. replied (dispatch u (EvRequest q tok) p) = replied p @ [(tok, r)] \<and>
      (answers u q tok = None \<longrightarrow> r = Inl (ErrResponderFailed ErrHandlerPanicked))) \<and>
    (supervised p \<longrightarrow> exitLoop (dispatch u (EvRequest q tok) p) \<and>
      panicSignal (dispatch u (EvRequest q tok) p) \<noteq> None)"
  using assms
  by (auto simp: runRequestHandler_def handPanicToSupervisor_def signalPanic_def Let_def
      split: option.splits)

theorem request_panic_handled_witness:
  defines "u \<equiv> \<lparr>panics = \<lambda>c. True, answers = \<lambda>q t. None, listens = \<lambda>e. False\<rparr> :: (unit, unit, unit, unit) user_code"
  defines "p \<equiv> dispatch u (EvRequest () (ReplyToken 3 9))
    (newProtoProtocolMailbox \<lparr>Capacity = 1, Overflow = OverflowBlock\<rparr> True)"
  shows "replied p = [(ReplyToken 3 9, Inl (ErrResponderFailed ErrHandlerPanicked))] \<and> exitLoop p \<and>
    panicSignal p = Some ''request handler''"
proof -
  have "exitLoop p"
    using request_panic_handled [of u "()" "ReplyToken 3 9"
        "newProtoProtocolMailbox \<lparr>Capacity = 1, Overflow = OverflowBlock\<rparr> True"]
    by (simp add: u_def p_def newProtoProtocolMailbox_def)
  then show ?thesis
    by (simp add: u_def p_def newProtoProtocolMailbox_def runRequestHandler_def
        handPanicToSupervisor_def signalPanic_def Let_def)
qed

subsection \<open>Quiescence\<close>

text \<open>\<open>simhook.go\<close>\<close>

definition Quiescent :: "('m, 'n, 'q, 'r) protoProtocol list \<Rightarrow> bool" where
  "Quiescent ps = list_all (\<lambda>p. inFlight p = 0) ps"

text \<open>When no producer is between its increment and its push, the counter is the queue length.\<close>

definition flight_ok :: "('m, 'n, 'q, 'r) protoProtocol \<Rightarrow> bool" where
  "flight_ok p \<longleftrightarrow> mb_ok (pmailbox p) \<and> inFlight p = int (length (contents (pmailbox p))) \<and>
     (quarantined p \<longrightarrow> supervised p \<and> contents (pmailbox p) = [])"

lemma dispatch_flags [simp]:
  "quarantined (dispatch u ev p) = quarantined p" "supervised (dispatch u ev p) = supervised p"
  by (cases ev; simp add: handleMessage_def deliverReply_def deliverSessionEvent_def safeCall_def runRequestHandler_def
      handPanicToSupervisor_def signalPanic_def Let_def split: option.splits)+

lemma deadLetterEvent_flags [simp]:
  "quarantined (deadLetterEvent ev p) = quarantined p" "supervised (deadLetterEvent ev p) = supervised p"
  by (simp_all add: deadLetterEvent_def)

lemma flight_ok_pushed:
  assumes "flight_ok p" "\<not> quarantined p" "mb_push pick dn ev (pmailbox p) = Pushed d m"
    and "pmailbox p' = m" "\<not> quarantined p'"
    and "inFlight p' = (if d = None then inFlight p + 1 else inFlight p)"
  shows "flight_ok p'"
proof -
  have ok: "mb_ok (pmailbox p)" using assms(1) by (simp add: flight_ok_def)
  note mb.push_keeps [OF ok assms(3)] mb.push_items [OF ok assms(3)]
  then have "mb_ok m"
      "length (contents m) = length (contents (pmailbox p)) + (if d = None then 1 else 0)"
    by (simp, elim conjE disjE exE) simp_all
  with assms show ?thesis by (simp add: flight_ok_def)
qed

lemma flight_ok_enqueue:
  assumes "flight_ok p" "enqueue pick dn ev p = Some (ok, p')"
  shows "flight_ok p'"
proof (cases "supervised p \<and> quarantined p")
  case True
  then show ?thesis using assms by (simp add: enqueue_def flight_ok_def) (metis deadLetterEvent_flags deadLetterEvent_simps(1,2))
next
  case False
  then have q: "\<not> quarantined p" using assms(1) by (auto simp: flight_ok_def)
  show ?thesis
  proof (cases "mb_push pick dn ev (pmailbox p)")
    case (Pushed d m)
    show ?thesis
      by (rule flight_ok_pushed [OF assms(1) q Pushed])
        (use assms(2) Pushed False q in \<open>cases d; auto simp: enqueue_def Let_def\<close>)+
  next
    case (Aborted m)
    have "m = pmailbox p" using mb.push_abort [OF Aborted] by simp
    then have "p' = p" using assms(2) Aborted False by (simp add: enqueue_def Let_def)
    then show ?thesis using assms(1) by simp
  next
    case Blocks
    then show ?thesis using assms(2) False by (simp add: enqueue_def Let_def)
  qed
qed

lemma flight_ok_turn:
  assumes "flight_ok p" shows "flight_ok (snd (loopTurn u pick dn p))"
proof (cases rule: loopTurn_cases [of u pick dn p])
  case (idle m)
  have "mb_ok m \<and> contents m = contents (pmailbox p)"
    using mb.idle_items [OF _ idle(2)] assms by (simp add: flight_ok_def)
  then show ?thesis using assms idle by (simp add: flight_ok_def)
next
  case (event ev m)
  have ok: "mb_ok (pmailbox p)" using assms by (simp add: flight_ok_def)
  then show ?thesis
    using assms event mb.got_items [OF ok event(1)] mb.got_keeps [OF ok event(1)]
    by (simp add: flight_ok_def)
qed

lemma drain_contents:
  assumes "mb_ok m" "mb_drain m = (evs, m')"
  shows "mb_ok m'" "contents m' = []" "evs = contents m"
proof -
  have loop: "bm_drainLoop acc q = acc @ q" for acc q :: "'a list"
    by (induction q arbitrary: acc) simp_all
  show "mb_ok m'" "contents m' = []" "evs = contents m"
    using assms by (cases m; auto simp: bm_drain_def dm_drain_def bm_ok_def dm_ok_def loop)+
qed

lemma fold_supervised [simp]:
  "supervised (fold deadLetterEvent evs p) = supervised p"
  "supervised (fold cancelTimer ts p) = supervised p"
  by (induction evs arbitrary: p, simp_all)
    (induction ts arbitrary: p, simp_all add: cancelTimer_def forgetTimer_def)

lemma quarantine_supervised [simp]: "supervised (quarantine p) = supervised p"
  by (simp add: quarantine_def cancelAllTimers_def drainMailboxToDeadLetter_def
      failPendingRestarting_def fold_fail Let_def split_beta)

lemma flight_ok_quarantine:
  assumes "flight_ok p" "supervised p" shows "flight_ok (quarantine p)"
proof -
  obtain evs m where d: "mb_drain (pmailbox p) = (evs, m)" by fastforce
  have ok: "mb_ok (pmailbox p)" using assms by (simp add: flight_ok_def)
  note drain_contents [OF ok d]
  moreover have "pmailbox (quarantine p) = m" "inFlight (quarantine p) = inFlight p - int (length evs)"
    by (simp_all add: quarantine_def cancelAllTimers_def drainMailboxToDeadLetter_def d Let_def)
  ultimately show ?thesis using assms by (simp add: flight_ok_def)
qed

lemma flight_ok_step:
  assumes "flight_ok p" shows "flight_ok (env_step u e p)"
proof (cases e)
  case (Produce pick dn ev)
  then show ?thesis using assms flight_ok_enqueue by (auto split: option.split)
next
  case (Turn pick dn)
  then show ?thesis using assms flight_ok_turn by simp
next
  case Quarantine
  then show ?thesis using assms flight_ok_quarantine [OF assms] by simp
qed (use assms in \<open>simp_all add: flight_ok_def registerRequest_def trackTimer_def cancelTimer_def
    forgetTimer_def resetForRestart_def Let_def\<close>)

lemma flight_ok_run: "flight_ok (env_run u cfg watched es)"
proof (induction es rule: rev_induct)
  case Nil
  show ?case by (simp add: env_run_def flight_ok_def newProtoProtocolMailbox_def)
qed (simp add: env_run_def flight_ok_step)

text \<open>
  With nothing between an increment and its push, \<open>Quiescent\<close> is exact over any history of the
  protocols, overflow drops, aborted producers and restarts included: it holds when and only when
  every mailbox is empty.
\<close>

theorem Quiescent_exact:
  "Quiescent (map (\<lambda>(cfg, watched, es). env_run u cfg watched es) hist) \<longleftrightarrow>
     concat (map (\<lambda>(cfg, watched, es). contents (pmailbox (env_run u cfg watched es))) hist) = []"
  using flight_ok_run [of u]
  by (induction hist) (auto simp: Quiescent_def flight_ok_def)

text \<open>
  The counter at the grain of its atomic operations.  A producer increments (\<open>arriving\<close>), loads the
  mailbox and pushes; a drop or an abort is balanced in a later step (\<open>undoing\<close>); the loop takes an
  event, dispatches it (\<open>busy\<close>) and decrements.  A restart, its loop gone, drains the mailbox and
  later swaps in a fresh one: a producer that had loaded the old mailbox keeps it (\<open>stale\<close>), and what
  the old mailbox holds then or receives later is out of reach (\<open>stranded\<close>).
\<close>

record 'e flight =
  fbox :: "'e mbox"
  fcount :: int
  arriving :: nat
  stale :: nat
  undoing :: nat
  busy :: bool
  stranded :: nat

inductive flight_reach :: "MailboxCfg \<Rightarrow> 'e flight \<Rightarrow> bool" for cfg where
  boot: "flight_reach cfg \<lparr>fbox = newMailbox cfg, fcount = 0, arriving = 0, stale = 0, undoing = 0,
    busy = False, stranded = 0\<rparr>"
| arrive: "flight_reach cfg s \<Longrightarrow> flight_reach cfg (s\<lparr>fcount := fcount s + 1, arriving := arriving s + 1\<rparr>)"
| push: "flight_reach cfg s \<Longrightarrow> arriving s = Suc k \<Longrightarrow> mb_push pick dn ev (fbox s) = Pushed None m \<Longrightarrow>
    flight_reach cfg (s\<lparr>fbox := m, arriving := k\<rparr>)"
| overflow: "flight_reach cfg s \<Longrightarrow> arriving s = Suc k \<Longrightarrow>
    mb_push pick dn ev (fbox s) = Pushed (Some d) m \<Longrightarrow>
    flight_reach cfg (s\<lparr>fbox := m, arriving := k, undoing := undoing s + 1\<rparr>)"
| abort: "flight_reach cfg s \<Longrightarrow> arriving s = Suc k \<Longrightarrow> mb_push pick dn ev (fbox s) = Aborted m \<Longrightarrow>
    flight_reach cfg (s\<lparr>arriving := k, undoing := undoing s + 1\<rparr>)"
| undo: "flight_reach cfg s \<Longrightarrow> undoing s = Suc k \<Longrightarrow>
    flight_reach cfg (s\<lparr>fcount := fcount s - 1, undoing := k\<rparr>)"
| next_event: "flight_reach cfg s \<Longrightarrow> \<not> busy s \<Longrightarrow> mb_next pick dn (fbox s) = Got ev m \<Longrightarrow>
    flight_reach cfg (s\<lparr>fbox := m, busy := True\<rparr>)"
| next_idle: "flight_reach cfg s \<Longrightarrow> \<not> busy s \<Longrightarrow>
    mb_next pick dn (fbox s) = Waits m \<or> mb_next pick dn (fbox s) = Closed m \<Longrightarrow>
    flight_reach cfg (s\<lparr>fbox := m\<rparr>)"
| dispatched: "flight_reach cfg s \<Longrightarrow> busy s \<Longrightarrow>
    flight_reach cfg (s\<lparr>fcount := fcount s - 1, busy := False\<rparr>)"
| drain: "flight_reach cfg s \<Longrightarrow> \<not> busy s \<Longrightarrow> mb_drain (fbox s) = (evs, m) \<Longrightarrow>
    flight_reach cfg (s\<lparr>fbox := m, fcount := fcount s - int (length evs)\<rparr>)"
| swap: "flight_reach cfg s \<Longrightarrow> \<not> busy s \<Longrightarrow>
    flight_reach cfg (s\<lparr>fbox := newMailbox cfg, arriving := 0, stale := stale s + arriving s,
      stranded := stranded s + length (contents (fbox s))\<rparr>)"
| stale_push: "flight_reach cfg s \<Longrightarrow> stale s = Suc k \<Longrightarrow>
    flight_reach cfg (s\<lparr>stale := k, stranded := stranded s + 1\<rparr>)"

lemma flight_count:
  assumes "flight_reach cfg s"
  shows "mb_ok (fbox s) \<and> fcount s = int (length (contents (fbox s)) + arriving s + stale s +
    undoing s + (if busy s then 1 else 0) + stranded s)"
  using assms
proof induction
  case (push s k pick dn ev m)
  then have ok: "mb_ok (fbox s)" by simp
  show ?case using push mb.push_items [OF ok push(3)] mb.push_keeps [OF ok push(3)] by auto
next
  case (overflow s k pick dn ev d m)
  then have ok: "mb_ok (fbox s)" by simp
  show ?case using overflow mb.push_items [OF ok overflow(3)] mb.push_keeps [OF ok overflow(3)] by auto
next
  case (next_event s pick dn ev m)
  then have ok: "mb_ok (fbox s)" by simp
  show ?case using next_event mb.got_items [OF ok next_event(3)] mb.got_keeps [OF ok next_event(3)] by auto
next
  case (next_idle s pick dn m)
  then have ok: "mb_ok (fbox s)" by simp
  show ?case using next_idle mb.idle_items [OF ok next_idle(3)] by auto
next
  case (drain s evs m)
  then show ?case using drain_contents [of "fbox s" evs m] by auto
qed auto



text \<open>
  It is not complete across a restart: a producer that loaded the mailbox before the restart and
  pushes after the drain leaves its event where nothing will take it, and its count with it.
\<close>

theorem restart_strands_event:
  "\<exists>s :: char flight. flight_reach cfg s \<and> contents (fbox s) = [] \<and> busy s = False \<and> arriving s = 0 \<and>
     stale s = 0 \<and> undoing s = 0 \<and> fcount s = 1"
proof -
  let ?s = "\<lparr>fbox = newMailbox cfg, fcount = 1, arriving = 0, stale = 0, undoing = 0, busy = False,
    stranded = 1\<rparr> :: char flight"
  note r = arrive [OF boot, of cfg]
  have "flight_reach cfg ?s"
    using stale_push [OF swap [OF r]] by simp
  then show ?thesis by (intro exI [of _ ?s]) simp
qed

end
