(* ===== verification/Runtime.thy ===== *)
theory Runtime
  imports Ipc_Router Event_Loop Wire
begin

text \<open>
  \<open>pkg/protorun/runtime.go\<close> and \<open>message.go\<close>: how messages, requests, replies, notifications and
  session events cross from one protocol, or from the network, into the mailboxes of the protocols
  of a runtime.  This is where the codec registry, the IPC router and the event loops meet.

  A protocol is known by its number; \<open>protos\<close> holds every envelope ever registered and \<open>live\<close> the
  list of those the runtime still hosts.  A codec is a pair of user functions.  An operation is
  \<open>None\<close> while a full blocking mailbox holds it.  \<open>pick\<close> resolves the select between a free place in
  a mailbox and a cancelled context, for each protocol.
\<close>

record 'm codec =
  marshal :: "'m \<Rightarrow> bytes option"
  unmarshal :: "bytes \<Rightarrow> 'm option"

record ('m, 'n, 'q, 'r) runtime =
  rself :: Host
  strict :: bool
  protos :: "proto_id \<Rightarrow> ('m, 'n, 'q, 'r) protoProtocol"
  live :: "proto_id list"
  rcodecs :: "'m codec codecRegistry"
  ipc :: "(unit, unit) ipcRouter"
  cancelled :: bool
  fatalErr :: "(string \<times> string) option"
  timeouts :: "(replyToken \<times> int) list"
  sentOut :: "(bytes \<times> Host) list"

text \<open>\<open>New\<close>: no protocol is hosted yet; every number stands for an envelope with the default mailbox.\<close>

definition newRuntime :: "Host \<Rightarrow> bool \<Rightarrow> ('m, 'n, 'q, 'r) runtime" where
  "newRuntime self str =
     \<lparr>rself = self, strict = str,
      protos = (\<lambda>_. newProtoProtocolMailbox \<lparr>Capacity = defaultMailboxCapacity, Overflow = OverflowBlock\<rparr> False),
      live = [], rcodecs = newCodecRegistry, ipc = newIPCRouter, cancelled = False, fatalErr = None,
      timeouts = [], sentOut = []\<rparr>"

subsection \<open>Into one mailbox\<close>

definition enqueueAt ::
  "(proto_id \<Rightarrow> bool) \<Rightarrow> proto_id \<Rightarrow> ('m, 'n, 'q, 'r) protoEvent \<Rightarrow> ('m, 'n, 'q, 'r) runtime \<Rightarrow>
     (bool \<times> ('m, 'n, 'q, 'r) runtime) option" where
  "enqueueAt pick i ev r =
     (case enqueue (pick i) (cancelled r) ev (protos r i) of
        None \<Rightarrow> None
      | Some (ok, p) \<Rightarrow> Some (ok, r\<lparr>protos := (protos r)(i := p)\<rparr>))"

text \<open>The fan-out loops: each target in turn, until one is aborted by the cancelled context.\<close>

fun fanout ::
  "(proto_id \<Rightarrow> bool) \<Rightarrow> ('m, 'n, 'q, 'r) protoEvent \<Rightarrow> proto_id list \<Rightarrow> ('m, 'n, 'q, 'r) runtime \<Rightarrow>
     (bool \<times> ('m, 'n, 'q, 'r) runtime) option" where
  "fanout pick ev [] r = Some (True, r)"
| "fanout pick ev (i # is) r =
     (case enqueueAt pick i ev r of
        None \<Rightarrow> None
      | Some (ok, r) \<Rightarrow> if \<not> ok then Some (False, r) else fanout pick ev is r)"

subsection \<open>Operations\<close>

definition registerProtocol ::
  "proto_id \<Rightarrow> ('m, 'n, 'q, 'r) protoProtocol \<Rightarrow> ('m, 'n, 'q, 'r) runtime \<Rightarrow> ('m, 'n, 'q, 'r) runtime" where
  "registerProtocol i p r = r\<lparr>protos := (protos r)(i := p), live := live r @ [i]\<rparr>"

definition snapshotProtocols :: "('m, 'n, 'q, 'r) runtime \<Rightarrow> proto_id list" where
  "snapshotProtocols r = live r"

definition removeProtocol :: "proto_id \<Rightarrow> ('m, 'n, 'q, 'r) runtime \<Rightarrow> ('m, 'n, 'q, 'r) runtime" where
  "removeProtocol i r = r\<lparr>live := remove1 i (live r)\<rparr>"

text \<open>
  What a protocol registers in \<open>Start\<close>.  \<open>None\<close> is the panic of strict mode on a second registration.
\<close>

definition registerCodec ::
  "proto_id \<Rightarrow> uint64 \<Rightarrow> 'm codec \<Rightarrow> ('m, 'n, 'q, 'r) runtime \<Rightarrow> ('m, 'n, 'q, 'r) runtime option" where
  "registerCodec i wireID c r =
     (if strict r \<and> codec_Get wireID (rcodecs r) \<noteq> None then None
      else Some (r\<lparr>rcodecs := codec_Set wireID i c (rcodecs r)\<rparr>))"

definition registerHandler ::
  "proto_id \<Rightarrow> uint64 \<Rightarrow> ('m, 'n, 'q, 'r) runtime \<Rightarrow> ('m, 'n, 'q, 'r) runtime option" where
  "registerHandler i wireID r =
     (if strict r \<and> wireID \<in> handlers (protos r i) then None
      else Some (r\<lparr>protos := (protos r)(i := (protos r i)\<lparr>handlers := insert wireID (handlers (protos r i))\<rparr>)\<rparr>))"

definition registerRequestHandler ::
  "proto_id \<Rightarrow> uint64 \<Rightarrow> ('m, 'n, 'q, 'r) runtime \<Rightarrow> ('m, 'n, 'q, 'r) runtime option" where
  "registerRequestHandler i wireID r =
     (let (prev, router) = RegisterRequestRoute wireID i () (ipc r);
          r' = r\<lparr>ipc := router\<rparr>
      in case prev of
           None \<Rightarrow> Some r'
         | Some (owner, h) \<Rightarrow> if owner \<noteq> i \<and> strict r then None else Some r')"

definition subscribeNotification ::
  "proto_id \<Rightarrow> uint64 \<Rightarrow> ('m, 'n, 'q, 'r) runtime \<Rightarrow> ('m, 'n, 'q, 'r) runtime" where
  "subscribeNotification i wireID r = r\<lparr>ipc := Subscribe wireID i () (ipc r)\<rparr>"

definition unsubscribeNotification ::
  "proto_id \<Rightarrow> uint64 \<Rightarrow> ('m, 'n, 'q, 'r) runtime \<Rightarrow> ('m, 'n, 'q, 'r) runtime" where
  "unsubscribeNotification i wireID r = r\<lparr>ipc := Unsubscribe wireID i (ipc r)\<rparr>"

definition fanoutSessionEvent ::
  "(proto_id \<Rightarrow> bool) \<Rightarrow> sessionEvent \<Rightarrow> ('m, 'n, 'q, 'r) runtime \<Rightarrow>
     (bool \<times> ('m, 'n, 'q, 'r) runtime) option" where
  "fanoutSessionEvent pick ev r = fanout pick (EvSession ev) (snapshotProtocols r) r"

definition publishNotification ::
  "(proto_id \<Rightarrow> bool) \<Rightarrow> uint64 \<Rightarrow> 'n \<Rightarrow> ('m, 'n, 'q, 'r) runtime \<Rightarrow> ('m, 'n, 'q, 'r) runtime option" where
  "publishNotification pick wireID n r =
     map_option snd (fanout pick (EvNotification n) (map fst (SnapshotSubscribers wireID (ipc r))) r)"

definition rt_deliverReply ::
  "(proto_id \<Rightarrow> bool) \<Rightarrow> replyToken \<Rightarrow> ipc_error + 'r \<Rightarrow> ('m, 'n, 'q, 'r) runtime \<Rightarrow>
     ('m, 'n, 'q, 'r) runtime option" where
  "rt_deliverReply pick token rep r =
     map_option snd (enqueueAt pick (requester token) (EvReply (requestID token) rep) r)"

definition sendRequest ::
  "(proto_id \<Rightarrow> bool) \<Rightarrow> proto_id \<Rightarrow> uint64 \<Rightarrow> 'q \<Rightarrow> int \<Rightarrow> ('m, 'n, 'q, 'r) runtime \<Rightarrow>
     ('m, 'n, 'q, 'r) runtime option" where
  "sendRequest pick reqr wireID req timeout r =
     (let (i, p) = registerRequest (protos r reqr);
          r = r\<lparr>protos := (protos r)(reqr := p)\<rparr>;
          token = ReplyToken reqr i
      in case Route wireID (ipc r) of
           None \<Rightarrow> rt_deliverReply pick token (Inl ErrNoRequestHandler) r
         | Some (owner, h) \<Rightarrow>
             let r = r\<lparr>timeouts := timeouts r @ [(token, timeout)]\<rparr>
             in map_option snd (enqueueAt pick owner (EvRequest req token) r))"

text \<open>The timer that \<open>sendRequest\<close> arms.\<close>

definition requestTimesOut ::
  "(proto_id \<Rightarrow> bool) \<Rightarrow> replyToken \<Rightarrow> ('m, 'n, 'q, 'r) runtime \<Rightarrow> ('m, 'n, 'q, 'r) runtime option" where
  "requestTimesOut pick token r = rt_deliverReply pick token (Inl ErrRequestTimeout) r"

definition processMessage ::
  "(proto_id \<Rightarrow> bool) \<Rightarrow> bytes \<Rightarrow> Host \<Rightarrow> ('m, 'n, 'q, 'r) runtime \<Rightarrow> ('m, 'n, 'q, 'r) runtime option" where
  "processMessage pick buffer from r =
     (case ReadUint64 buffer of
        Inl e \<Rightarrow> Some r
      | Inr (wireID, body) \<Rightarrow>
          (case codec_Get wireID (rcodecs r) of
             None \<Rightarrow> Some r
           | Some (proto, c) \<Rightarrow>
               (case unmarshal c body of
                  None \<Rightarrow> Some r
                | Some message \<Rightarrow> map_option snd (enqueueAt pick proto (EvMessage wireID message from) r))))"

datatype send_error = ErrNoCodec | MarshalError | HeaderError ioerror

definition sendMessage ::
  "(proto_id \<Rightarrow> bool) \<Rightarrow> ('m \<Rightarrow> uint64) \<Rightarrow> 'm \<Rightarrow> Host \<Rightarrow> ('m, 'n, 'q, 'r) runtime \<Rightarrow>
     (send_error option \<times> ('m, 'n, 'q, 'r) runtime) option" where
  "sendMessage pick wireIDOf msg sendTo r =
     (let wireID = wireIDOf msg
      in case codec_Get wireID (rcodecs r) of
           None \<Rightarrow> Some (Some ErrNoCodec, r)
         | Some (proto, c) \<Rightarrow>
             (case marshal c msg of
                None \<Rightarrow> Some (Some MarshalError, r)
              | Some payload \<Rightarrow>
                  (case WriteUint64 [] wireID of
                     Inl e \<Rightarrow> Some (Some (HeaderError e), r)
                   | Inr header \<Rightarrow>
                       let buffer = header @ payload
                       in if sendTo = rself r
                          then map_option (Pair None) (processMessage pick buffer (rself r) r)
                          else Some (None, r\<lparr>sentOut := sentOut r @ [(buffer, sendTo)]\<rparr>))))"

definition rt_escalate :: "string \<Rightarrow> string \<Rightarrow> ('m, 'n, 'q, 'r) runtime \<Rightarrow> ('m, 'n, 'q, 'r) runtime" where
  "rt_escalate protocol desc r =
     (let r = (if fatalErr r = None then r\<lparr>fatalErr := Some (protocol, desc)\<rparr> else r)
      in r\<lparr>cancelled := True\<rparr>)"

definition fatalError :: "('m, 'n, 'q, 'r) runtime \<Rightarrow> (string \<times> string) option" where
  "fatalError r = fatalErr r"

subsection \<open>Mailboxes of an idle protocol\<close>

lemma push_empty:
  assumes "mb_ok m" "contents m = []"
  obtains m' where "mb_push pick False ev m = Pushed None m'" "mb_ok m'" "contents m' = [ev]"
proof (cases m)
  case (Blocking b)
  then show ?thesis using assms that by (auto simp: bm_push_def bm_ok_def)
next
  case (Deque d)
  obtain r d' where e: "enqueueLocked ev d = (r, d')" by fastforce
  have "r = None" using e assms Deque by (cases "pol d") (auto simp: enqueueLocked_def dm_ok_def Let_def)
  then have "mb_push pick False ev m = Pushed None (Deque (d'\<lparr>signal := True\<rparr>))"
    using Deque e by (simp add: dm_push_def)
  from that [OF this] mb.push_keeps [OF assms(1) this] mb.push_items [OF assms(1) this] assms(2)
  show ?thesis by simp
qed

lemma next_first:
  assumes "mb_ok m" "contents m = ev # q"
  obtains m' where "mb_next pick False m = Got ev m'" "mb_ok m'" "contents m' = q"
proof (cases "mb_next pick False m")
  case (Got x m')
  then show ?thesis using that mb.got_items [OF assms(1) Got] mb.got_keeps [OF assms(1) Got] assms(2) by simp
next
  case (Closed m')
  then show ?thesis using assms by (cases m) (auto simp: bm_next_def dm_next_def split: list.splits if_splits)
next
  case (Waits m')
  then show ?thesis using mb.waits_empty [OF assms(1) Waits] assms(2) by simp
qed

definition idle :: "('m, 'n, 'q, 'r) protoProtocol \<Rightarrow> bool" where
  "idle p \<longleftrightarrow> mb_ok (pmailbox p) \<and> contents (pmailbox p) = [] \<and> \<not> quarantined p"

text \<open>An event for an idle protocol is accepted, and the next turn of its loop dispatches it.\<close>

lemma enqueue_turn:
  assumes "idle p"
  obtains p' m where "enqueue pick False ev p = Some (True, p')"
    "p' = p\<lparr>inFlight := inFlight p + 1, pmailbox := pmailbox p'\<rparr>"
    "snd (loopTurn u pick' False p') = (dispatch u ev (p\<lparr>inFlight := inFlight p + 1, pmailbox := m\<rparr>))\<lparr>inFlight := inFlight p\<rparr>"
    "mb_ok m" "contents m = []"
proof -
  have ok: "mb_ok (pmailbox p)" "contents (pmailbox p) = []" "\<not> quarantined p"
    using assms by (auto simp: idle_def)
  obtain m1 where m1: "mb_push pick False ev (pmailbox p) = Pushed None m1" "mb_ok m1" "contents m1 = [ev]"
    using push_empty [OF ok(1,2)] by blast
  obtain m where m: "mb_next pick' False m1 = Got ev m" "mb_ok m" "contents m = []"
    using next_first [OF m1(2,3)] by blast
  let ?p = "p\<lparr>inFlight := inFlight p + 1, pmailbox := m1\<rparr>"
  have "enqueue pick False ev p = Some (True, ?p)" using m1(1) ok by (simp add: enqueue_def)
  moreover have "snd (loopTurn u pick' False ?p) =
      (dispatch u ev (p\<lparr>inFlight := inFlight p + 1, pmailbox := m\<rparr>))\<lparr>inFlight := inFlight p\<rparr>"
    using m(1) by (simp add: loopTurn_def Let_def)
  ultimately show ?thesis using that [of ?p m] m by simp
qed

subsection \<open>Messages\<close>

lemma read_header: "ReadUint64 (le_put 8 (unat w) @ body) = Inr (w, body)"
  using u64.rd_image [of w body] by simp

text \<open>
  A message reaches the protocol that registered its type, and nobody else.  The bytes that \<open>Send\<close>
  hands to the session layer make the receiving runtime queue one message event, with the decoded
  value and its sender, for the protocol that owns the wire identifier there; a message to oneself
  takes the same path without a session, and is decoded too.
\<close>

theorem message_delivery:
  assumes "codec_Get (wid msg) (rcodecs r) = Some (i, c)" "marshal c msg = Some body"
    and "codec_Get (wid msg) (rcodecs r') = Some (j, c')" "unmarshal c' body = Some msg'"
  shows "\<exists>buffer. processMessage pick buffer from r' =
      map_option snd (enqueueAt pick j (EvMessage (wid msg) msg' from) r') \<and>
    sendMessage pick wid msg to r =
      (if to = rself r then map_option (Pair None) (processMessage pick buffer (rself r) r)
       else Some (None, r\<lparr>sentOut := sentOut r @ [(buffer, to)]\<rparr>))"
proof (intro exI conjI)
  let ?b = "le_put 8 (unat (wid msg)) @ body"
  show "processMessage pick ?b from r' = map_option snd (enqueueAt pick j (EvMessage (wid msg) msg' from) r')"
    using assms by (simp add: processMessage_def read_header)
  show "sendMessage pick wid msg to r =
      (if to = rself r then map_option (Pair None) (processMessage pick ?b (rself r) r)
       else Some (None, r\<lparr>sentOut := sentOut r @ [(?b, to)]\<rparr>))"
    using assms by (simp add: sendMessage_def WriteUint64_def Let_def)
qed

theorem message_delivery_witness:
  defines "c \<equiv> \<lparr>marshal = Some, unmarshal = Some\<rparr> :: bytes codec"
  defines "r \<equiv> (newRuntime (Host 1 ''a'') False)\<lparr>rcodecs := codec_Set 7 0 c newCodecRegistry\<rparr>
    :: (bytes, unit, unit, unit) runtime"
  shows "\<exists>buffer r'. sendMessage (\<lambda>_. True) (\<lambda>_. 7) [1] (Host 2 ''b'') r =
      Some (None, r\<lparr>sentOut := [(buffer, Host 2 ''b'')]\<rparr>) \<and>
    processMessage (\<lambda>_. True) buffer (Host 1 ''a'') r = Some r' \<and>
    contents (pmailbox (protos r' 0)) = [EvMessage 7 [1] (Host 1 ''a'')]"
proof -
  have c: "codec_Get 7 (rcodecs r) = Some (0, c)" by (simp add: r_def codec_Get_def codec_Set_def)
  then obtain buffer where b: "processMessage (\<lambda>_. True) buffer (Host 1 ''a'') r =
      map_option snd (enqueueAt (\<lambda>_. True) 0 (EvMessage 7 [1] (Host 1 ''a'')) r)"
    "sendMessage (\<lambda>_. True) (\<lambda>_. 7) [1] (Host 2 ''b'') r = Some (None, r\<lparr>sentOut := [(buffer, Host 2 ''b'')]\<rparr>)"
    using message_delivery [of "\<lambda>_. 7" "[1]" r 0 c "[1]" r 0 c "[1]" "\<lambda>_. True" "Host 1 ''a''" "Host 2 ''b''"]
    by (auto simp: c_def r_def newRuntime_def)
  have "\<exists>r'. enqueueAt (\<lambda>_. True) 0 (EvMessage 7 [1] (Host 1 ''a'')) r = Some (True, r') \<and>
      contents (pmailbox (protos r' 0)) = [EvMessage 7 [1] (Host 1 ''a'')]"
    by (simp add: enqueueAt_def enqueue_def r_def newRuntime_def newProtoProtocolMailbox_def newMailbox_def
        bm_push_def defaultMailboxCapacity_def)
  with b show ?thesis by auto
qed

subsection \<open>Fan-out\<close>

lemma enqueue_open: "enqueue pick False ev p = Some (ok, p') \<Longrightarrow> ok"
  by (auto simp: enqueue_def Let_def split: if_splits pushed.splits option.splits dest: mb.push_abort)

lemma fanout_exact:
  assumes "fanout pick ev is r = Some (ok, r')" "\<not> cancelled r" "distinct is"
  shows "ok \<and> \<not> cancelled r' \<and> protos r' = (\<lambda>i. if i \<in> set is
    then snd (the (enqueue (pick i) False ev (protos r i))) else protos r i)"
  using assms
proof (induction "is" arbitrary: r)
  case (Cons i "is")
  then obtain p where p: "enqueue (pick i) False ev (protos r i) = Some (True, p)"
      "fanout pick ev is (r\<lparr>protos := (protos r)(i := p)\<rparr>) = Some (ok, r')"
    by (auto simp: enqueueAt_def split: option.splits if_splits dest: enqueue_open)
  from Cons.IH [OF p(2)] Cons.prems p(1) show ?case by auto
qed simp

text \<open>
  A published notification is queued exactly once for every protocol subscribed at that moment and
  for no other, and a session event exactly once for every hosted protocol.
\<close>

theorem fanout_reaches_all:
  assumes "ipc r = fold router_step ops newIPCRouter" "distinct (live r)" "\<not> cancelled r"
    and "publishNotification pick wireID n r = Some r1" "fanoutSessionEvent pick ev r = Some (ok, r2)"
  shows "protos r1 = (\<lambda>i. if i \<in> fst ` set (SnapshotSubscribers wireID (ipc r))
      then snd (the (enqueue (pick i) False (EvNotification n) (protos r i))) else protos r i) \<and>
    protos r2 = (\<lambda>i. if i \<in> set (live r)
      then snd (the (enqueue (pick i) False (EvSession ev) (protos r i))) else protos r i)"
proof -
  have "distinct (map fst (SnapshotSubscribers wireID (ipc r)))"
    unfolding SnapshotSubscribers_def by (rule subsOf_distinct) (simp add: assms(1) router_run_ok)
  with assms(3-5) show ?thesis
    using fanout_exact [of pick _ _ r] assms(2)
    by (force simp: publishNotification_def fanoutSessionEvent_def snapshotProtocols_def)
qed

theorem fanout_reaches_all_witness:
  defines "r \<equiv> (newRuntime (Host 1 ''a'') False)\<lparr>live := [0, 1], ipc := fold router_step [SubscribeOp 7 1 ()] newIPCRouter\<rparr>
    :: (unit, unit, unit, unit) runtime"
  defines "r1 \<equiv> the (publishNotification (\<lambda>_. True) 7 () r)"
  shows "contents (pmailbox (protos r1 1)) = [EvNotification ()] \<and> contents (pmailbox (protos r1 0)) = []"
proof -
  have subs: "SnapshotSubscribers 7 (ipc r) = [(1, ())]"
    by (simp add: r_def SnapshotSubscribers_def subsOf_def Subscribe_def newIPCRouter_def)
  have room: "enqueue True False ev (protos r i) = Some (True, (protos r i)\<lparr>inFlight := 1,
      pmailbox := Blocking \<lparr>ch = [ev], bcap = defaultMailboxCapacity\<rparr>\<rparr>)" for i ev
    by (simp add: r_def newRuntime_def newProtoProtocolMailbox_def newMailbox_def enqueue_def bm_push_def
        defaultMailboxCapacity_def)
  then have "publishNotification (\<lambda>_. True) 7 () r = Some r1"
    "\<exists>ok r2. fanoutSessionEvent (\<lambda>_. True) (SessionFailedEvent (Host 2 ''b'')) r = Some (ok, r2)"
    unfolding r1_def
    by (simp_all add: publishNotification_def fanoutSessionEvent_def snapshotProtocols_def subs
        enqueueAt_def)
      (auto simp: r_def newRuntime_def newProtoProtocolMailbox_def newMailbox_def enqueue_def bm_push_def
        defaultMailboxCapacity_def enqueueAt_def)
  then have "protos r1 = (\<lambda>i. if i \<in> fst ` set (SnapshotSubscribers 7 (ipc r))
      then snd (the (enqueue True False (EvNotification ()) (protos r i))) else protos r i)"
    using fanout_reaches_all [of r "[SubscribeOp 7 1 ()]" "\<lambda>_. True" 7 "()" r1]
    by (auto simp: r_def newRuntime_def)
  then show ?thesis
    by (simp add: subs room) (simp add: r_def newRuntime_def newProtoProtocolMailbox_def)
qed

subsection \<open>Requests\<close>

text \<open>
  C21. A request makes the round trip through the router, two mailboxes and two event loops: the
  protocol that owns the request type handles it, and the requester's callback runs with exactly
  the handler's answer, or with the error of a handler that panicked before it answered; after
  that the requester waits for nothing new.
\<close>

theorem request_reply_roundtrip:
  fixes r :: "('m, 'n, 'q, 'r) runtime" and a :: proto_id
  defines "i \<equiv> nextRequestID (protos r a) + 1"
  assumes "idle (protos r a)" "idle (protos r b)" "a \<noteq> b" "\<not> cancelled r"
    and "Route wireID (ipc r) = Some (b, ())" "i \<notin> requests (protos r a)"
    and "answers u q (ReplyToken a i) = Some rep \<or> answers u q (ReplyToken a i) = None \<and>
      panics u (RequestHandler q (ReplyToken a i)) \<and> rep = Inl (ErrResponderFailed ErrHandlerPanicked)"
  shows "\<exists>r1 p r2 p2. sendRequest pick a wireID q timeout r = Some r1 \<and>
    p = snd (loopTurn u (pick b) False (protos r1 b)) \<and>
    replied p = replied (protos r b) @ [(ReplyToken a i, rep)] \<and>
    rt_deliverReply pick (ReplyToken a i) rep (r1\<lparr>protos := (protos r1)(b := p)\<rparr>) = Some r2 \<and>
    p2 = snd (loopTurn v (pick a) False (protos r2 a)) \<and>
    calls p2 = calls (protos r a) @ [ReplyCallback i rep] \<and> requests p2 = requests (protos r a)"
proof -
  let ?tok = "ReplyToken a i"
  obtain pa0 where reg: "registerRequest (protos r a) = (i, pa0)"
      "requests pa0 = insert i (requests (protos r a))" "calls pa0 = calls (protos r a)" "idle pa0"
    using assms(2) by (simp add: registerRequest_def i_def idle_def Let_def)
  obtain pb m where b: "enqueue (pick b) False (EvRequest q ?tok) (protos r b) = Some (True, pb)"
      "snd (loopTurn u (pick b) False pb) = (dispatch u (EvRequest q ?tok)
         ((protos r b)\<lparr>inFlight := inFlight (protos r b) + 1, pmailbox := m\<rparr>))\<lparr>inFlight := inFlight (protos r b)\<rparr>"
    using enqueue_turn [OF assms(3), of "pick b" "EvRequest q ?tok" u "pick b"] by metis
  obtain pa m2 where a: "enqueue (pick a) False (EvReply i rep) pa0 = Some (True, pa)"
      "snd (loopTurn v (pick a) False pa) = (dispatch v (EvReply i rep)
         (pa0\<lparr>inFlight := inFlight pa0 + 1, pmailbox := m2\<rparr>))\<lparr>inFlight := inFlight pa0\<rparr>"
    using enqueue_turn [OF reg(4), of "pick a" "EvReply i rep" v "pick a"] by metis
  let ?r1 = "r\<lparr>protos := (protos r)(a := pa0, b := pb), timeouts := timeouts r @ [(?tok, timeout)]\<rparr>"
  let ?p = "snd (loopTurn u (pick b) False pb)"
  have "sendRequest pick a wireID q timeout r = Some ?r1"
    using assms(4-6) b(1) by (simp add: sendRequest_def reg enqueueAt_def Let_def fun_upd_twist)
  moreover have "replied ?p = replied (protos r b) @ [(?tok, rep)]"
    using assms(8) by (auto simp: b(2) runRequestHandler_def handPanicToSupervisor_def signalPanic_def Let_def)
  moreover have "rt_deliverReply pick ?tok rep (?r1\<lparr>protos := (protos ?r1)(b := ?p)\<rparr>) =
      Some (?r1\<lparr>protos := (protos ?r1)(b := ?p, a := pa)\<rparr>)"
    using assms(4,5) a(1) by (simp add: rt_deliverReply_def enqueueAt_def)
  moreover have "calls (snd (loopTurn v (pick a) False pa)) = calls (protos r a) @ [ReplyCallback i rep]"
    "requests (snd (loopTurn v (pick a) False pa)) = requests (protos r a)"
    using assms(7) by (simp_all add: a(2) deliverReply_def reg)
  ultimately show ?thesis using assms(4) by fastforce
qed

theorem request_reply_roundtrip_witness:
  defines "r \<equiv> (newRuntime (Host 1 ''a'') False)\<lparr>ipc := snd (RegisterRequestRoute 7 2 () newIPCRouter)\<rparr>
    :: (unit, unit, nat, nat) runtime"
  defines "u \<equiv> \<lparr>panics = \<lambda>c. False, answers = \<lambda>q t. Some (Inr (q + 1)), listens = \<lambda>e. False\<rparr>"
  shows "\<exists>r1 p r2. sendRequest (\<lambda>_. True) 1 7 41 100 r = Some r1 \<and>
    p = snd (loopTurn u True False (protos r1 2)) \<and>
    rt_deliverReply (\<lambda>_. True) (ReplyToken 1 1) (Inr 42) (r1\<lparr>protos := (protos r1)(2 := p)\<rparr>) = Some r2 \<and>
    calls (snd (loopTurn u True False (protos r2 1))) = [ReplyCallback 1 (Inr 42)]"
proof -
  have new: "nextRequestID (protos r 1) = 0" "requests (protos r 1) = {}" "calls (protos r 1) = []"
    "idle (protos r i)" "\<not> cancelled r" "Route 7 (ipc r) = Some (2, ())" for i
    by (simp_all add: r_def newRuntime_def newProtoProtocolMailbox_def idle_def Route_def
        RegisterRequestRoute_def)
  show ?thesis
    using request_reply_roundtrip [of r 1 2 7 u 41 "Inr 42" "\<lambda>_. True" 100 u] new
    by (simp add: u_def) fastforce
qed

end
