(* ===== verification/Supervision.thy ===== *)
theory Supervision
  imports Runtime "HOL-Library.Sublist"
begin

text \<open>
  \<open>pkg/protorun/supervision.go\<close> and \<open>supervisor.go\<close>: what the runtime does with a protocol that
  panics: how often it is rebuilt, after which delays, what is torn down first and what the fresh
  instance finds, and how it ends when the budget is spent.

  Durations and clock readings are nanosecond counts; the arithmetic of \<open>ExpBackoff\<close> wraps at 64
  bits as in the code.  What happens during one round of a restart (the clock, the outcome of the
  backoff wait, whether \<open>Start\<close> or \<open>Init\<close> of the fresh instance panics, what it registers, the peers
  established then) is given by a \<open>round\<close>.
\<close>

subsection \<open>Policy\<close>

datatype Directive = Resume | Restart | Stop | Escalate | OtherDirective int

fun Directive_String :: "Directive \<Rightarrow> string" where
  "Directive_String Resume = ''resume''"
| "Directive_String Restart = ''restart''"
| "Directive_String Stop = ''stop''"
| "Directive_String Escalate = ''escalate''"
| "Directive_String (OtherDirective d) = ''directive('' @ showInt d @ '')''"

text \<open>The doubling loop of \<open>ExpBackoff\<close>, with \<open>n\<close> turns to go.\<close>

fun expLoop :: "nat \<Rightarrow> int \<Rightarrow> int \<Rightarrow> int" where
  "expLoop 0 d mx = d"
| "expLoop (Suc n) d mx =
     (let d = wrap64 (d * 2)
      in if d \<le> 0 \<or> d \<ge> mx then mx else expLoop n d mx)"

text \<open>\<open>rnd k\<close> is what \<open>rand.N\<close> draws below \<open>k\<close>.\<close>

definition ExpBackoff :: "int \<Rightarrow> int \<Rightarrow> (int \<Rightarrow> int) \<Rightarrow> int \<Rightarrow> int" where
  "ExpBackoff base mx rnd attempt =
     (let attempt = (if attempt < 1 then 1 else attempt);
          d = expLoop (nat (attempt - 1)) base mx;
          d = (if d > mx then mx else d)
      in if d > 0 then wrap64 (d + rnd (d div 4 + 1)) else d)"

record Supervision =
  OnPanic :: Directive
  MaxRestarts :: int
  Window :: int
  Backoff :: "(int \<Rightarrow> int) option"
  OnGiveUp :: Directive

definition sup_withDefaults :: "(int \<Rightarrow> int) \<Rightarrow> Supervision \<Rightarrow> Supervision" where
  "sup_withDefaults rnd s =
     (let s = (if MaxRestarts s \<le> 0 then s\<lparr>MaxRestarts := 5\<rparr> else s);
          s = (if Window s \<le> 0 then s\<lparr>Window := 60 * 1000000000\<rparr> else s);
          s = (if Backoff s = None
               then s\<lparr>Backoff := Some (ExpBackoff (100 * 1000000) (5 * 1000000000) rnd)\<rparr> else s)
      in if OnGiveUp s \<noteq> Escalate then s\<lparr>OnGiveUp := Stop\<rparr> else s)"

subsection \<open>Backoff\<close>

lemma wrap64_over:
  assumes "2 ^ 63 \<le> x" "x < 2 ^ 64" shows "wrap64 x < 0"
proof -
  have "(x + 2 ^ 63) mod 2 ^ 64 = (x + 2 ^ 63 - 2 ^ 64) mod 2 ^ 64" by (rule minus_mod_self2 [symmetric])
  also have "\<dots> = x + 2 ^ 63 - 2 ^ 64" using assms by (intro mod_pos_pos_trivial) simp_all
  finally have "(x + 2 ^ 63) mod 2 ^ 64 = x + 2 ^ 63 - 2 ^ 64" .
  then show ?thesis using assms by (simp add: wrap64_def)
qed

lemma expLoop_value:
  assumes "0 < d" "d < 2 ^ 63" "0 < mx" "mx < 2 ^ 63"
  shows "min (expLoop n d mx) mx = min (d * 2 ^ n) mx"
  using assms(1,2)
proof (induction n arbitrary: d)
  case (Suc n)
  have grows: "d * 2 \<le> d * 2 ^ Suc n" using Suc.prems(1) by (simp add: mult_left_mono)
  show ?case
  proof (cases "d * 2 < 2 ^ 63")
    case True
    then have w: "wrap64 (d * 2) = d * 2" using Suc.prems(1) by (intro wrap64_id) simp_all
    show ?thesis
    proof (cases "d * 2 \<ge> mx")
      case True
      then have "min (d * 2 ^ Suc n) mx = mx" using grows by simp
      then show ?thesis using True by (simp add: w)
    next
      case False
      then show ?thesis using Suc.IH [of "d * 2"] Suc.prems(1) \<open>d * 2 < 2 ^ 63\<close>
        by (simp add: w mult.assoc)
    qed
  next
    case False
    then have "wrap64 (d * 2) < 0" using Suc.prems(2) by (intro wrap64_over) simp_all
    moreover have "mx \<le> d * 2 ^ Suc n" using False grows assms(4) by linarith
    ultimately show ?thesis by (simp add: min_absorb2)
  qed
qed simp

text \<open>
  The backoff before attempt \<open>n\<close> is \<open>base * 2 ^ (n - 1)\<close> capped at the maximum, plus at most a
  quarter of it, for every attempt however large: the wrapped doubling is caught.
\<close>

theorem ExpBackoff_bounds:
  assumes "0 < base" "base < 2 ^ 63" "0 < mx" "mx + mx div 4 < 2 ^ 63" "1 \<le> attempt"
    and "\<And>k. 0 < k \<Longrightarrow> 0 \<le> rnd k \<and> rnd k < k"
  defines "d \<equiv> min (base * 2 ^ nat (attempt - 1)) mx"
  shows "d \<le> ExpBackoff base mx rnd attempt \<and> ExpBackoff base mx rnd attempt \<le> d + d div 4"
proof -
  have mx: "mx < 2 ^ 63" using assms(3,4) by (smt (verit) pos_imp_zdiv_nonneg_iff)
  have cap: "(if mx < e then mx else e) = min e mx" for e by (simp add: min_def)
  note v = expLoop_value [OF assms(1-3) mx, of "nat (attempt - 1)", folded d_def]
  have d: "0 < d" "d \<le> mx" using assms(1,3) by (simp_all add: d_def)
  then have "d div 4 \<le> mx div 4" by (simp add: zdiv_mono1)
  moreover have "0 \<le> rnd (d div 4 + 1)" "rnd (d div 4 + 1) \<le> d div 4"
    using assms(6) [of "d div 4 + 1"] d(1) by (simp_all add: pos_imp_zdiv_nonneg_iff)
  ultimately have "wrap64 (d + rnd (d div 4 + 1)) = d + rnd (d div 4 + 1)"
    using assms(4) d by (intro wrap64_id) simp_all
  moreover have "ExpBackoff base mx rnd attempt = wrap64 (d + rnd (d div 4 + 1))"
    using assms(5) v d(1) unfolding ExpBackoff_def Let_def cap by simp
  ultimately show ?thesis using \<open>0 \<le> rnd (d div 4 + 1)\<close> \<open>rnd (d div 4 + 1) \<le> d div 4\<close> by simp
qed

theorem ExpBackoff_bounds_witness:
  "8 \<le> ExpBackoff 1 100 (\<lambda>k. k - 1) 4 \<and> ExpBackoff 1 100 (\<lambda>k. k - 1) 4 \<le> 10"
  using ExpBackoff_bounds [of 1 100 4 "\<lambda>k. k - 1"] by simp

subsection \<open>The supervisor\<close>

datatype panicSignal_t = PanicSignal (sigWhere: string) (sigRec: string)

record ('m, 'n, 'q, 'r) supervisor =
  srt :: "('m, 'n, 'q, 'r) runtime"
  sid :: proto_id
  sname :: string
  smailbox :: MailboxCfg
  spec :: Supervision
  times :: "int list"
  rebuilds :: "int list"

record 'm round =
  rnow :: int
  waited :: bool
  startPanic :: "string option"
  initPanic :: "string option"
  registers :: "(uint64 \<times> 'm codec) list"
  peers :: "Host list"
  restartHandler :: bool

definition recordPanic :: "int \<Rightarrow> ('m, 'n, 'q, 'r) supervisor \<Rightarrow> int \<times> ('m, 'n, 'q, 'r) supervisor" where
  "recordPanic now s =
     (let ts = times s @ [now];
          cutoff = now - Window (spec s);
          kept = filter (\<lambda>t. t > cutoff) ts
      in (int (length kept), s\<lparr>times := kept\<rparr>))"

definition quarantineAndClean :: "proto_id \<Rightarrow> ('m, 'n, 'q, 'r) runtime \<Rightarrow> ('m, 'n, 'q, 'r) runtime" where
  "quarantineAndClean i r =
     (let r = r\<lparr>protos := (protos r)(i := quarantine (protos r i))\<rparr>;
          r = r\<lparr>rcodecs := codec_RemoveOwner i (rcodecs r)\<rparr>
      in r\<lparr>ipc := router_RemoveOwner i (ipc r)\<rparr>)"

definition backoff :: "('m, 'n, 'q, 'r) supervisor \<Rightarrow> int \<Rightarrow> bool \<Rightarrow> bool" where
  "backoff s n w = (case Backoff (spec s) of None \<Rightarrow> w | Some f \<Rightarrow> if f n \<le> 0 then True else w)"

text \<open>What \<open>Start\<close> of the fresh instance registers, message codecs with their handlers.\<close>

definition registerAll ::
  "proto_id \<Rightarrow> (uint64 \<times> 'm codec) list \<Rightarrow> ('m, 'n, 'q, 'r) runtime \<Rightarrow> ('m, 'n, 'q, 'r) runtime" where
  "registerAll i regs r =
     r\<lparr>rcodecs := fold (\<lambda>(w, c). codec_Set w i c) regs (rcodecs r),
       protos := (protos r)(i := (protos r i)\<lparr>handlers := fold insert (map fst regs) (handlers (protos r i))\<rparr>)\<rparr>"

definition rebuild ::
  "'m round \<Rightarrow> ('m, 'n, 'q, 'r) supervisor \<Rightarrow> panicSignal_t option \<times> ('m, 'n, 'q, 'r) supervisor" where
  "rebuild rd s =
     (let i = sid s;
          p = resetForRestart (smailbox s) (protos (srt s) i);
          s = s\<lparr>srt := (srt s)\<lparr>protos := (protos (srt s))(i := p)\<rparr>, rebuilds := rebuilds s @ [rnow rd]\<rparr>
      in case startPanic rd of
           Some w \<Rightarrow> (Some (PanicSignal ''Start'' w), s)
         | None \<Rightarrow>
             let s = s\<lparr>srt := registerAll i (registers rd) (srt s)\<rparr>;
                 p = (protos (srt s) i)\<lparr>quarantined := False\<rparr>;
                 s = s\<lparr>srt := (srt s)\<lparr>protos := (protos (srt s))(i := p)\<rparr>\<rparr>
             in case initPanic rd of
                  Some w \<Rightarrow> (Some (PanicSignal ''Init'' w), s)
                | None \<Rightarrow> (None, s))"

text \<open>
  Announcements go through the notification fan-out; \<open>mk\<close> is the constructor of \<open>ProtocolFailed\<close> and
  \<open>wid\<close> its wire identifier.
\<close>

record 'n announcer =
  mk :: "string \<Rightarrow> string \<Rightarrow> int \<Rightarrow> 'n"
  wid :: uint64
  room :: "proto_id \<Rightarrow> bool"

definition publishProtocolFailed ::
  "'n announcer \<Rightarrow> string \<Rightarrow> string \<Rightarrow> int \<Rightarrow> ('m, 'n, 'q, 'r) runtime \<Rightarrow> ('m, 'n, 'q, 'r) runtime option" where
  "publishProtocolFailed a name outcome n r = publishNotification (room a) (wid a) (mk a name outcome n) r"

text \<open>The loop that replays the established peers into the fresh mailbox.\<close>

fun replay ::
  "(proto_id \<Rightarrow> bool) \<Rightarrow> proto_id \<Rightarrow> Host list \<Rightarrow> ('m, 'n, 'q, 'r) runtime \<Rightarrow> ('m, 'n, 'q, 'r) runtime option" where
  "replay pick i [] r = Some r"
| "replay pick i (h # hs) r =
     (case enqueueAt pick i (EvSession (SessionConnectedEvent h)) r of
        None \<Rightarrow> None
      | Some (ok, r) \<Rightarrow> replay pick i hs r)"

definition finishRestart ::
  "'n announcer \<Rightarrow> int \<Rightarrow> 'm round \<Rightarrow> ('m, 'n, 'q, 'r) supervisor \<Rightarrow> ('m, 'n, 'q, 'r) supervisor option" where
  "finishRestart a n rd s =
     (case replay (room a) (sid s) (peers rd) (srt s) of
        None \<Rightarrow> None
      | Some r \<Rightarrow>
          (case (if restartHandler rd then map_option snd (enqueueAt (room a) (sid s) (EvCallback (nat n)) r)
                 else Some r) of
             None \<Rightarrow> None
           | Some r \<Rightarrow>
               map_option (\<lambda>r. s\<lparr>srt := r\<rparr>) (publishProtocolFailed a (sname s) ''restarted'' n r)))"

definition sup_stop ::
  "'n announcer \<Rightarrow> ('m, 'n, 'q, 'r) supervisor \<Rightarrow> ('m, 'n, 'q, 'r) supervisor option" where
  "sup_stop a s =
     (let r = removeProtocol (sid s) (quarantineAndClean (sid s) (srt s))
      in map_option (\<lambda>r. s\<lparr>srt := r\<rparr>) (publishProtocolFailed a (sname s) ''stopped'' (int (length (times s))) r))"

definition sup_escalate ::
  "'n announcer \<Rightarrow> panicSignal_t \<Rightarrow> ('m, 'n, 'q, 'r) supervisor \<Rightarrow> ('m, 'n, 'q, 'r) supervisor option" where
  "sup_escalate a sig s =
     (let r = removeProtocol (sid s) (quarantineAndClean (sid s) (srt s))
      in map_option (\<lambda>r. s\<lparr>srt := rt_escalate (sname s) (sigWhere sig @ '': '' @ sigRec sig) r\<rparr>)
           (publishProtocolFailed a (sname s) ''escalated'' (int (length (times s))) r))"

definition giveUp ::
  "'n announcer \<Rightarrow> panicSignal_t \<Rightarrow> ('m, 'n, 'q, 'r) supervisor \<Rightarrow> ('m, 'n, 'q, 'r) supervisor option" where
  "giveUp a sig s = (if OnGiveUp (spec s) = Escalate then sup_escalate a sig s else sup_stop a s)"

text \<open>
  \<open>runRestart\<close> over the rounds that happen.  It is \<open>Waiting\<close> when they run out, in the wait of the next
  one; \<open>Restarted\<close> is the code's \<open>true\<close>, \<open>GaveUp\<close> and \<open>ShutDown\<close> its \<open>false\<close>.
\<close>

datatype restart_outcome = Restarted | GaveUp | ShutDown | Waiting

fun runRestart ::
  "'n announcer \<Rightarrow> 'm round list \<Rightarrow> panicSignal_t \<Rightarrow> ('m, 'n, 'q, 'r) supervisor \<Rightarrow>
     (restart_outcome \<times> ('m, 'n, 'q, 'r) supervisor) option" where
  "runRestart a [] sig s = Some (Waiting, s)"
| "runRestart a (rd # rds) sig s =
     (let (cnt, s) = recordPanic (rnow rd) s
      in if cnt > MaxRestarts (spec s) then map_option (Pair GaveUp) (giveUp a sig s)
         else let s = s\<lparr>srt := quarantineAndClean (sid s) (srt s)\<rparr>
              in if \<not> backoff s cnt (waited rd) then Some (ShutDown, s)
                 else case rebuild rd s of
                        (Some sig', s) \<Rightarrow> runRestart a rds sig' s
                      | (None, s) \<Rightarrow> map_option (Pair Restarted) (finishRestart a cnt rd s))"

definition handle_panic ::
  "'n announcer \<Rightarrow> 'm round list \<Rightarrow> panicSignal_t \<Rightarrow> ('m, 'n, 'q, 'r) supervisor \<Rightarrow>
     (bool \<times> ('m, 'n, 'q, 'r) supervisor) option" where
  "handle_panic a rds sig s =
     (case OnPanic (spec s) of
        Restart \<Rightarrow> map_option (\<lambda>(out, s). (out = Restarted, s)) (runRestart a rds sig s)
      | Stop \<Rightarrow> map_option (Pair False) (sup_stop a s)
      | Escalate \<Rightarrow> map_option (Pair False) (sup_escalate a sig s)
      | _ \<Rightarrow> Some (True, s))"

text \<open>One turn of \<open>run\<close>: the buffered panic, if there is one, is taken and handled.\<close>

definition sup_run ::
  "'n announcer \<Rightarrow> 'm round list \<Rightarrow> ('m, 'n, 'q, 'r) supervisor \<Rightarrow>
     (bool \<times> ('m, 'n, 'q, 'r) supervisor) option" where
  "sup_run a rds s =
     (let p = protos (srt s) (sid s)
      in case panicSignal p of
           None \<Rightarrow> Some (True, s)
         | Some w \<Rightarrow>
             handle_panic a rds (PanicSignal w [])
               (s\<lparr>srt := (srt s)\<lparr>protos := (protos (srt s))(sid s := p\<lparr>panicSignal := None\<rparr>)\<rparr>\<rparr>))"

text \<open>
  Registration and boot.  \<open>buildProtocol\<close> is \<open>None\<close> where strict mode panics; \<open>boot_Start\<close> and
  \<open>boot_Init\<close> are \<open>None\<close> where a panic of an unsupervised protocol reaches the caller, and their
  boolean says whether an event loop was started.
\<close>

definition buildProtocol ::
  "(int \<Rightarrow> int) \<Rightarrow> MailboxCfg option \<Rightarrow> Supervision option \<Rightarrow> bool \<Rightarrow> proto_id \<Rightarrow> ('m, 'n, 'q, 'r) runtime \<Rightarrow>
     (Supervision option \<times> ('m, 'n, 'q, 'r) runtime) option" where
  "buildProtocol rnd opt supervision factory i r =
     (let mb = (case opt of None \<Rightarrow> \<lparr>Capacity = defaultMailboxCapacity, Overflow = OverflowBlock\<rparr> | Some m \<Rightarrow> m)
      in case supervision of
           None \<Rightarrow> Some (None, registerProtocol i (newProtoProtocolMailbox mb False) r)
         | Some sp \<Rightarrow>
             if OnPanic sp = Restart \<and> \<not> factory \<and> strict r then None
             else let sp = (if OnPanic sp = Restart \<and> \<not> factory then sp\<lparr>OnPanic := Resume\<rparr> else sp);
                      sup' = (if OnPanic sp \<noteq> Resume then Some (sup_withDefaults rnd sp) else None)
                  in Some (sup', registerProtocol i (newProtoProtocolMailbox mb (sup' \<noteq> None)) r))"

definition boot_Start ::
  "string option \<Rightarrow> ('m, 'n, 'q, 'r) protoProtocol \<Rightarrow> (bool \<times> ('m, 'n, 'q, 'r) protoProtocol) option" where
  "boot_Start panic p =
     (if \<not> supervised p then (case panic of None \<Rightarrow> Some (True, p) | Some w \<Rightarrow> None)
      else case panic of
             Some w \<Rightarrow> Some (False, signalPanic ''Start'' (p\<lparr>quarantined := True\<rparr>))
           | None \<Rightarrow> Some (True, p))"

definition boot_Init ::
  "string option \<Rightarrow> ('m, 'n, 'q, 'r) protoProtocol \<Rightarrow> ('m, 'n, 'q, 'r) protoProtocol option" where
  "boot_Init panic p =
     (if \<not> supervised p then (case panic of None \<Rightarrow> Some p | Some w \<Rightarrow> None)
      else if quarantined p then Some p
      else case panic of
             Some w \<Rightarrow> Some (signalPanic ''Init'' (p\<lparr>quarantined := True, exitLoop := True\<rparr>))
           | None \<Rightarrow> Some p)"

subsection \<open>The restart budget\<close>

text \<open>A supervised life: one panic after the other, each with the rounds of its restart.\<close>

fun restart_seq ::
  "'n announcer \<Rightarrow> (panicSignal_t \<times> 'm round list) list \<Rightarrow> ('m, 'n, 'q, 'r) supervisor \<Rightarrow>
     ('m, 'n, 'q, 'r) supervisor option" where
  "restart_seq a [] s = Some s"
| "restart_seq a ((sig, rds) # xs) s =
     (case runRestart a rds sig s of
        None \<Rightarrow> None
      | Some (out, s) \<Rightarrow> if out = Restarted then restart_seq a xs s else Some s)"

definition in_window :: "int \<Rightarrow> int \<Rightarrow> int list \<Rightarrow> int" where
  "in_window w t xs = int (length (filter (\<lambda>x. t - w < x \<and> x \<le> t) xs))"

text \<open>The panics so far, all before \<open>lo\<close>: what \<open>times\<close> keeps of them, and the rebuilds they led to.\<close>

definition budget_ok :: "int \<Rightarrow> ('m, 'n, 'q, 'r) supervisor \<Rightarrow> bool" where
  "budget_ok lo s \<longleftrightarrow> (\<exists>ps m. times s = filter (\<lambda>x. m - Window (spec s) < x) ps \<and> m \<le> lo \<and>
     (\<forall>x \<in> set ps. x \<le> lo) \<and> subseq (rebuilds s) ps \<and>
     (\<forall>t. in_window (Window (spec s)) t (rebuilds s) \<le> MaxRestarts (spec s)))"

lemma subseq_filter_length: "subseq xs ys \<Longrightarrow> length (filter P xs) \<le> length (filter P ys)"
  by (rule list_emb_length [OF subseq_filter])

lemma filter_length_mono: "(\<And>x. P x \<Longrightarrow> Q x) \<Longrightarrow> length (filter P xs) \<le> length (filter Q xs)"
  by (induction xs) auto

lemma budget_panic:
  assumes "budget_ok lo s" "lo \<le> now" "recordPanic now s = (cnt, s')"
  shows "budget_ok now s'"
    and "cnt \<le> MaxRestarts (spec s) \<Longrightarrow> budget_ok now (s'\<lparr>srt := r, rebuilds := rebuilds s' @ [now]\<rparr>)"
proof -
  let ?w = "Window (spec s)" and ?N = "MaxRestarts (spec s)"
  obtain ps m where ps: "times s = filter (\<lambda>x. m - ?w < x) ps" "m \<le> lo" "\<And>x. x \<in> set ps \<Longrightarrow> x \<le> lo"
      "subseq (rebuilds s) ps" "\<And>t. in_window ?w t (rebuilds s) \<le> ?N"
    using assms(1) unfolding budget_ok_def by blast
  have kept: "filter (\<lambda>x. now - ?w < x) (times s @ [now]) = filter (\<lambda>x. now - ?w < x) (ps @ [now])"
    using ps(1,2) assms(2) by (auto intro: filter_cong)
  have s': "times s' = filter (\<lambda>x. now - ?w < x) (ps @ [now])" "spec s' = spec s" "rebuilds s' = rebuilds s"
      "cnt = int (length (filter (\<lambda>x. now - ?w < x) (ps @ [now])))"
    using assms(3) kept by (auto simp: recordPanic_def Let_def)
  have old: "\<forall>x \<in> set (ps @ [now]). x \<le> now" using ps(3) assms(2) by force
  have sub: "subseq (rebuilds s) (ps @ [now])" by (rule subseq_rev_drop_many [OF ps(4)])
  show "budget_ok now s'"
    unfolding budget_ok_def s' using old sub ps(5)
    by (intro exI [of _ "ps @ [now]"] exI [of _ now]) blast
  assume n: "cnt \<le> ?N"
  have sub': "subseq (rebuilds s @ [now]) (ps @ [now])" using ps(4) by (simp add: list_emb_append_mono)
  have "in_window ?w t (rebuilds s @ [now]) \<le> ?N" for t
  proof (cases "now \<le> t")
    case True
    have "length (filter (\<lambda>x. t - ?w < x \<and> x \<le> t) (rebuilds s @ [now])) \<le>
        length (filter (\<lambda>x. now - ?w < x) (rebuilds s @ [now]))"
      by (rule filter_length_mono) (use True in auto)
    also have "\<dots> \<le> length (filter (\<lambda>x. now - ?w < x) (ps @ [now]))" by (rule subseq_filter_length [OF sub'])
    finally show ?thesis using n s'(4) by (simp add: in_window_def)
  next
    case False
    then show ?thesis using ps(5) [of t] by (simp add: in_window_def)
  qed
  then show "budget_ok now (s'\<lparr>srt := r, rebuilds := rebuilds s' @ [now]\<rparr>)"
    unfolding budget_ok_def using s' old sub'
    by (intro exI [of _ "ps @ [now]"] exI [of _ now]) simp
qed

lemma ends_keep:
  "giveUp a sig s = Some s' \<Longrightarrow> times s' = times s \<and> rebuilds s' = rebuilds s \<and> spec s' = spec s"
  "finishRestart a n rd s = Some s' \<Longrightarrow> times s' = times s \<and> rebuilds s' = rebuilds s \<and> spec s' = spec s"
  by (auto simp: giveUp_def sup_escalate_def sup_stop_def finishRestart_def Let_def
      split: if_splits option.splits)

lemma budget_cong:
  "times s' = times s \<and> rebuilds s' = rebuilds s \<and> spec s' = spec s \<Longrightarrow> budget_ok lo s' = budget_ok lo s"
  by (simp add: budget_ok_def)

lemma rebuild_srt:
  assumes "rebuild rd s = (sig, s')" obtains r where "s' = s\<lparr>srt := r, rebuilds := rebuilds s @ [rnow rd]\<rparr>"
proof -
  have "s' = s\<lparr>srt := srt s', rebuilds := rebuilds s @ [rnow rd]\<rparr>"
    using assms by (auto simp: rebuild_def Let_def split: option.splits)
  then show ?thesis using that by blast
qed

lemma budget_later: "budget_ok lo s \<Longrightarrow> lo \<le> hi \<Longrightarrow> budget_ok hi s"
  unfolding budget_ok_def by (meson order_trans)

lemma recordPanic_keeps:
  "recordPanic now s = (n, s') \<Longrightarrow> spec s' = spec s \<and> rebuilds s' = rebuilds s \<and> srt s' = srt s \<and> sid s' = sid s"
  by (auto simp: recordPanic_def Let_def)

lemma sorted_last: "sorted (lo # xs) \<Longrightarrow> lo \<le> last (lo # xs)"
  by (cases xs rule: rev_cases) auto

lemma sorted_from_last: "sorted (xs @ ys) \<Longrightarrow> xs \<noteq> [] \<Longrightarrow> sorted (last xs # ys)"
  by (auto simp: sorted_append)

lemma budget_run:
  assumes "runRestart a rds sig s = Some (out, s')" "budget_ok lo s" "sorted (lo # map rnow rds)"
  shows "budget_ok (last (lo # map rnow rds)) s' \<and> spec s' = spec s"
  using assms
proof (induction rds arbitrary: sig s lo)
  case (Cons rd rds)
  obtain n s1 where p: "recordPanic (rnow rd) s = (n, s1)" by fastforce
  note k = recordPanic_keeps [OF p]
  have lo: "lo \<le> rnow rd" "sorted (rnow rd # map rnow rds)" using Cons.prems(3) by auto
  note b = budget_panic [OF Cons.prems(2) lo(1) p]
  let ?q = "s1\<lparr>srt := quarantineAndClean (sid s1) (srt s1)\<rparr>"
  have q: "budget_ok (rnow rd) ?q" using b(1) by (simp add: budget_ok_def)
  have last: "last (lo # map rnow (rd # rds)) = last (rnow rd # map rnow rds)" by simp
  note later = budget_later [OF _ sorted_last [OF lo(2)]]
  show ?case
  proof (cases "n > MaxRestarts (spec s)")
    case True
    then have "giveUp a sig s1 = Some s'" using Cons.prems(1) p k by simp
    then show ?thesis using later b(1) budget_cong ends_keep(1) k unfolding last by metis
  next
    case False
    obtain sg s2 where rb: "rebuild rd ?q = (sg, s2)" by fastforce
    then obtain r where s2: "s2 = ?q\<lparr>srt := r, rebuilds := rebuilds ?q @ [rnow rd]\<rparr>" by (rule rebuild_srt)
    have b2: "budget_ok (rnow rd) s2" using b(2) [of r] False s2 by (simp add: budget_ok_def)
    show ?thesis
    proof (cases "backoff ?q n (waited rd)")
      case False
      then have "s' = ?q" using Cons.prems(1) p k \<open>\<not> n > _\<close> by simp
      then show ?thesis using later [OF q] k unfolding last by (simp del: last.simps)
    next
      case True
      show ?thesis
      proof (cases sg)
        case None
        then have "finishRestart a n rd s2 = Some s'"
          using Cons.prems(1) p k \<open>\<not> n > _\<close> True rb by simp
        note e = ends_keep(2) [OF this]
        show ?thesis using later [OF b2] budget_cong [OF e] e k s2 unfolding last by (simp del: last.simps)
      next
        case (Some sig')
        then have "runRestart a rds sig' s2 = Some (out, s')"
          using Cons.prems(1) p k \<open>\<not> n > _\<close> True rb by simp
        from Cons.IH [OF this b2 lo(2)] show ?thesis using k s2 unfolding last by simp
      qed
    qed
  qed
qed simp



subsection \<open>Clean slate\<close>

lemma quarantine_flags [simp]: "quarantined (quarantine p)"
proof -
  have "quarantined (fold deadLetterEvent evs q) = quarantined q" for evs :: "('a, 'b, 'c, 'd) protoEvent list" and q
    by (induction evs arbitrary: q) simp_all
  moreover have "quarantined (fold cancelTimer ts q) = quarantined q" for ts and q :: "('a, 'b, 'c, 'd) protoProtocol"
    by (induction ts arbitrary: q) (simp_all add: cancelTimer_def forgetTimer_def)
  ultimately show ?thesis
    by (simp add: quarantine_def cancelAllTimers_def drainMailboxToDeadLetter_def failPendingRestarting_def
        fold_fail Let_def split_beta)
qed

text \<open>
  Steps 1 to 4 of the restart contract: the protocol that panicked holds no queued event, waits for
  no reply and is named by no codec, request route or subscription; every other protocol and its
  registrations are untouched.  An event that arrives for it meanwhile neither blocks its producer
  nor is lost silently.
\<close>

theorem quarantine_clean_slate:
  assumes "mb_ok (pmailbox (protos r i))" "supervised (protos r i)" "ipc r = fold router_step ops newIPCRouter"
  defines "r' \<equiv> quarantineAndClean i r"
  shows "contents (pmailbox (protos r' i)) = [] \<and> requests (protos r' i) = {} \<and>
    codecs.owned i (rcodecs r') = {} \<and> routes.owned i (ipc r') = {} \<and>
    i \<notin> fst ` set (SnapshotSubscribers k (ipc r')) \<and>
    (j \<noteq> i \<longrightarrow> protos r' j = protos r j \<and> codecs.owned j (rcodecs r') = codecs.owned j (rcodecs r) \<and>
       routes.owned j (ipc r') = routes.owned j (ipc r)) \<and>
    enqueue pick dn ev (protos r' i) = Some (True, deadLetterEvent ev (protos r' i))"
proof -
  obtain evs m where d: "mb_drain (pmailbox (protos r i)) = (evs, m)" by fastforce
  have box: "pmailbox (quarantine (protos r i)) = m"
    by (simp add: quarantine_def cancelAllTimers_def drainMailboxToDeadLetter_def d Let_def)
  have ok: "router_ok (ipc r)" by (simp add: assms(3) router_run_ok)
  have "SnapshotSubscribers k (router_RemoveOwner i (ipc r)) =
      filter (\<lambda>s. fst s \<noteq> i) (SnapshotSubscribers k (ipc r))"
    using router_step_book [OF ok, of k "RemoveOp i"] by simp
  then have subs: "i \<notin> fst ` set (SnapshotSubscribers k (router_RemoveOwner i (ipc r)))" by auto
  have "enqueue pick dn ev (quarantine (protos r i)) = Some (True, deadLetterEvent ev (quarantine (protos r i)))"
    using assms(2) by (simp add: enqueue_def)
  then show ?thesis using drain_contents [OF assms(1) d] box subs
    by (simp add: r'_def quarantineAndClean_def Let_def codecs.owned_purge routes.owned_purge)
qed

theorem quarantine_clean_slate_witness:
  defines "p \<equiv> snd (the (enqueue True False (EvNotification ()) (newProtoProtocolMailbox
      \<lparr>Capacity = 4, Overflow = OverflowBlock\<rparr> True))) :: (unit, unit, unit, unit) protoProtocol"
  defines "r \<equiv> (newRuntime (Host 1 ''a'') False)\<lparr>protos := \<lambda>_. p, ipc := fold router_step [SubscribeOp 7 3 ()] newIPCRouter\<rparr>"
  shows "contents (pmailbox (protos r 3)) = [EvNotification ()] \<and>
    contents (pmailbox (protos (quarantineAndClean 3 r) 3)) = [] \<and> protos (quarantineAndClean 3 r) 4 = p"
proof -
  have p: "contents (pmailbox p) = [EvNotification ()]" "mb_ok (pmailbox p)" "supervised p"
    by (simp_all add: p_def newProtoProtocolMailbox_def newMailbox_def enqueue_def bm_push_def bm_ok_def)
  have "ipc r = fold router_step [SubscribeOp 7 3 ()] newIPCRouter" "protos r = (\<lambda>_. p)"
    by (simp_all add: r_def)
  then show ?thesis
    using quarantine_clean_slate [of r 3 "[SubscribeOp 7 3 ()]" 7 4] p by simp
qed

subsection \<open>The fresh instance\<close>

definition accepts :: "proto_id \<Rightarrow> ('m, 'n, 'q, 'r) runtime \<Rightarrow> bool" where
  "accepts i r \<longleftrightarrow> mb_ok (pmailbox (protos r i)) \<and> mb_lossless (pmailbox (protos r i)) \<and>
     \<not> quarantined (protos r i) \<and> \<not> cancelled r"

text \<open>\<open>r'\<close> is \<open>r\<close> with \<open>evs\<close> queued for \<open>i\<close>.\<close>

definition queued_for ::
  "proto_id \<Rightarrow> ('m, 'n, 'q, 'r) protoEvent list \<Rightarrow> ('m, 'n, 'q, 'r) runtime \<Rightarrow> ('m, 'n, 'q, 'r) runtime \<Rightarrow> bool" where
  "queued_for i evs r r' \<longleftrightarrow>
     contents (pmailbox (protos r' i)) = contents (pmailbox (protos r i)) @ evs \<and>
     handlers (protos r' i) = handlers (protos r i) \<and> requests (protos r' i) = requests (protos r i) \<and>
     exitLoop (protos r' i) = exitLoop (protos r i) \<and> rcodecs r' = rcodecs r \<and> ipc r' = ipc r \<and>
     accepts i r'"

lemma queued_for_trans: "queued_for i xs r r1 \<Longrightarrow> queued_for i ys r1 r2 \<Longrightarrow> queued_for i (xs @ ys) r r2"
  by (simp add: queued_for_def)

lemma enqueueAt_accepts:
  assumes "accepts i r" "enqueueAt pick i ev r = Some (ok, r')"
  shows "queued_for i [ev] r r'"
proof -
  have a: "mb_ok (pmailbox (protos r i))" "mb_lossless (pmailbox (protos r i))" "\<not> quarantined (protos r i)"
      "\<not> cancelled r"
    using assms(1) by (auto simp: accepts_def)
  show ?thesis
  proof (cases "mb_push (pick i) False ev (pmailbox (protos r i))")
    case (Pushed d m)
    have d: "d = None" "mb_ok m" "mb_lossless m" using mb.push_keeps [OF a(1) Pushed] a(2) by auto
    have "contents m = contents (pmailbox (protos r i)) @ [ev]"
      using mb.push_items [OF a(1) Pushed] d(1) by auto
    then show ?thesis using assms(2) a d Pushed
      by (auto simp: enqueueAt_def enqueue_def queued_for_def accepts_def Let_def)
  next
    case (Aborted m)
    then show ?thesis using mb.push_abort [OF Aborted] by simp
  next
    case Blocks
    then show ?thesis using assms(2) a by (simp add: enqueueAt_def enqueue_def Let_def)
  qed
qed

lemma replay_queues:
  assumes "accepts i r" "replay pick i hs r = Some r'"
  shows "queued_for i (map (\<lambda>h. EvSession (SessionConnectedEvent h)) hs) r r'"
  using assms
proof (induction hs arbitrary: r)
  case Nil
  then show ?case by (simp add: queued_for_def)
next
  case (Cons h hs)
  then obtain ok r1 where r1: "enqueueAt pick i (EvSession (SessionConnectedEvent h)) r = Some (ok, r1)"
      "replay pick i hs r1 = Some r'" by (auto split: option.splits)
  note q = enqueueAt_accepts [OF Cons.prems(1) r1(1)]
  have "accepts i r1" using q by (simp add: queued_for_def)
  from queued_for_trans [OF q Cons.IH [OF this r1(2)]] show ?case by simp
qed

lemma publish_keeps:
  assumes "publishProtocolFailed a name outcome n r = Some r'"
  shows "rcodecs r' = rcodecs r \<and> ipc r' = ipc r \<and> live r' = live r \<and> fatalErr r' = fatalErr r"
proof -
  have "fanout pick ev is q = Some (ok, q') \<Longrightarrow>
      rcodecs q' = rcodecs q \<and> ipc q' = ipc q \<and> live q' = live q \<and> fatalErr q' = fatalErr q"
    for pick ok "is" and ev :: "('a, 'b, 'c, 'd) protoEvent" and q q'
    by (induction "is" arbitrary: q) (auto simp: enqueueAt_def split: option.splits if_splits)
  with assms show ?thesis by (auto simp: publishProtocolFailed_def publishNotification_def)
qed

lemma publish_queues:
  assumes "accepts i r" "router_ok (ipc r)" "i \<notin> fst ` set (SnapshotSubscribers (wid a) (ipc r))"
    and "publishProtocolFailed a name outcome n r = Some r'"
  shows "queued_for i [] r r'"
proof -
  obtain ok where f: "fanout (room a) (EvNotification (mk a name outcome n))
      (map fst (SnapshotSubscribers (wid a) (ipc r))) r = Some (ok, r')"
    using assms(4) by (auto simp: publishProtocolFailed_def publishNotification_def)
  have "distinct (map fst (SnapshotSubscribers (wid a) (ipc r)))"
    using subsOf_distinct [OF assms(2)] by (simp add: SnapshotSubscribers_def)
  from fanout_exact [OF f _ this] assms(1,3) publish_keeps [OF assms(4)] show ?thesis
    by (simp add: queued_for_def accepts_def)
qed

lemma rebuild_fresh:
  assumes "rebuild rd (s\<lparr>srt := quarantineAndClean (sid s) (srt s)\<rparr>) = (sg, s')"
    and "startPanic rd = None" "initPanic rd = None" "\<not> cancelled (srt s)"
    and "Overflow (smailbox s) = OverflowBlock \<or> Overflow (smailbox s) = OverflowUnbounded"
  defines "i \<equiv> sid s"
  shows "sg = None \<and> accepts i (srt s') \<and> contents (pmailbox (protos (srt s') i)) = [] \<and>
    handlers (protos (srt s') i) = fst ` set (registers rd) \<and> requests (protos (srt s') i) = {} \<and>
    exitLoop (protos (srt s') i) = False \<and> ipc (srt s') = router_RemoveOwner i (ipc (srt s)) \<and>
    codecs.owned i (rcodecs (srt s')) = fst ` set (registers rd) \<and> sid s' = i \<and> sname s' = sname s"
proof -
  have lossless: "mb_lossless (newMailbox (smailbox s))" using assms(5) by (auto simp: newMailbox_def Let_def)
  have rc: "rcodecs (srt s') =
      fold (\<lambda>(w, c). codec_Set w i c) (registers rd) (codec_RemoveOwner i (rcodecs (srt s)))"
    using assms(1-3) by (auto simp: rebuild_def registerAll_def quarantineAndClean_def i_def Let_def)
  have "(\<exists>v. map_of (rev (registers rd)) k = Some v) \<longleftrightarrow> k \<in> fst ` set (registers rd)" for k
    by (metis dom_map_of_conv_image_fst domIff not_None_eq set_rev)
  then have "codecs.owned i (rcodecs (srt s')) = fst ` set (registers rd)"
    using codecs.owned_purge [of i i "rcodecs (srt s)"]
    by (auto simp: codecs.owned_def rc codecs.purge_register split: option.splits)
  moreover have "fold insert (map fst xs) A = fst ` set xs \<union> A" for xs :: "(uint64 \<times> 'a codec) list" and A
    by (induction xs arbitrary: A) auto
  ultimately show ?thesis using assms(1-4) lossless
    by (auto simp: rebuild_def registerAll_def quarantineAndClean_def resetForRestart_def accepts_def i_def Let_def)
      (metis fst_conv image_eqI)+
qed


subsection \<open>Giving up on a protocol\<close>

text \<open>
  When the budget is spent the protocol is gone for good: it is hosted no more, owns no route, and
  a message of a type it owned changes nothing; with \<open>Escalate\<close> the runtime is cancelled too and
  reports a failure, the first one if there are several.
\<close>

theorem give_up_is_final:
  assumes "giveUp a sig s = Some s'" "distinct (live (srt s))" "codec_Get w (rcodecs (srt s)) = Some (sid s, c)"
  shows "sid s \<notin> set (live (srt s')) \<and> codecs.owned (sid s) (rcodecs (srt s')) = {} \<and>
    processMessage pick (le_put 8 (unat w) @ body) from (srt s') = Some (srt s') \<and>
    (OnGiveUp (spec s) = Escalate \<longrightarrow> cancelled (srt s') \<and>
       fatalError (srt s') = (case fatalErr (srt s) of
         None \<Rightarrow> Some (sname s, sigWhere sig @ '': '' @ sigRec sig) | Some e \<Rightarrow> Some e))"
proof -
  let ?r = "removeProtocol (sid s) (quarantineAndClean (sid s) (srt s))"
  obtain outcome r where f: "publishProtocolFailed a (sname s) outcome (int (length (times s))) ?r = Some r"
      and s': "srt s' = (if OnGiveUp (spec s) = Escalate
        then rt_escalate (sname s) (sigWhere sig @ '': '' @ sigRec sig) r else r)"
    using assms(1) by (auto simp: giveUp_def sup_escalate_def sup_stop_def Let_def split: if_splits)
  have r: "live r = remove1 (sid s) (live (srt s))" "rcodecs r = codec_RemoveOwner (sid s) (rcodecs (srt s))"
      "fatalErr r = fatalErr (srt s)"
    using publish_keeps [OF f] by (simp_all add: removeProtocol_def quarantineAndClean_def Let_def)
  then have "live (srt s') = remove1 (sid s) (live (srt s))" "rcodecs (srt s') = codec_RemoveOwner (sid s) (rcodecs (srt s))"
    by (simp_all add: s' rt_escalate_def Let_def)
  moreover from this have "codec_Get w (rcodecs (srt s')) = None"
    using assms(3) by (simp add: codecs.get_purge)
  moreover have "OnGiveUp (spec s) = Escalate \<longrightarrow> cancelled (srt s') \<and>
      fatalError (srt s') = (case fatalErr (srt s) of
         None \<Rightarrow> Some (sname s, sigWhere sig @ '': '' @ sigRec sig) | Some e \<Rightarrow> Some e)"
    using r(3) by (simp add: s' rt_escalate_def fatalError_def Let_def split: option.split)
  ultimately show ?thesis using assms(2)
    by (simp add: codecs.owned_purge processMessage_def read_header)
qed

theorem give_up_is_final_witness:
  defines "sp \<equiv> \<lparr>OnPanic = Restart, MaxRestarts = 1, Window = 10, Backoff = None, OnGiveUp = Escalate\<rparr>"
  defines "c \<equiv> \<lparr>marshal = Some, unmarshal = Some\<rparr> :: bytes codec"
  defines "s \<equiv> \<lparr>srt = (newRuntime (Host 1 ''a'') False)\<lparr>live := [0], rcodecs := codec_Set 7 0 c newCodecRegistry\<rparr>,
      sid = 0, sname = ''p'', smailbox = \<lparr>Capacity = 4, Overflow = OverflowBlock\<rparr>, spec = sp, times = [], rebuilds = []\<rparr>
      :: (bytes, unit, unit, unit) supervisor"
  shows "\<exists>s'. giveUp \<lparr>mk = \<lambda>_ _ _. (), wid = 9, room = \<lambda>_. True\<rparr> (PanicSignal ''Init'' ''x'') s = Some s' \<and>
    live (srt s') = [] \<and> cancelled (srt s') \<and> fatalError (srt s') = Some (''p'', ''Init: x'')"
proof -
  let ?a = "\<lparr>mk = \<lambda>_ _ _. (), wid = 9, room = \<lambda>_. True\<rparr>"
  have none: "SnapshotSubscribers 9 (router_RemoveOwner 0 (newIPCRouter :: (unit, unit) ipcRouter)) = []"
    by (simp add: SnapshotSubscribers_def subsOf_def router_RemoveOwner_def newIPCRouter_def)
  obtain s' where s': "giveUp ?a (PanicSignal ''Init'' ''x'') s = Some s'" "live (srt s') = []"
    by (simp add: s_def sp_def giveUp_def sup_escalate_def publishProtocolFailed_def publishNotification_def
        removeProtocol_def quarantineAndClean_def rt_escalate_def newRuntime_def none Let_def)
  have "codec_Get 7 (rcodecs (srt s)) = Some (sid s, c)" "distinct (live (srt s))"
    by (simp_all add: s_def codec_Get_def codec_Set_def)
  from give_up_is_final [OF s'(1) this(2,1)] s' show ?thesis
    by (auto simp: s_def sp_def newRuntime_def)
qed


end
