(* ===== verification/Lifecycle.thy ===== *)
theory Lifecycle
  imports Supervision
begin

text \<open>
  How a runtime comes up and goes down: \<open>start\<close> and \<open>Cancel\<close> of \<open>runtime.go\<close>, \<open>Start\<close> and \<open>Init\<close> of the
  envelope (\<open>protocol.go\<close>), \<open>Shutdown\<close> (\<open>shutdown.go\<close>) and the phase checks of strict mode
  (\<open>strict.go\<close>).

  \<^item> What user code does in \<open>Start\<close> or \<open>Init\<close> is a list of calls on its context, which may end in a panic
    of its own.  \<open>CActive\<close> stands for the calls that are allowed from \<open>Init\<close> on (dials, sends, timers,
    requests, notifications), whose effects are the subject of other theories.
  \<^item> \<open>journal\<close> lists the calls that went through, with the phase in which they were made.
  \<^item> Goroutines are the lists \<open>loops\<close>, \<open>sups\<close> and the flag \<open>pumping\<close>.  Waiting for them to end is not
    modelled; whether \<open>Shutdown\<close> sees the end in time is an argument.
  \<^item> The watchdog and the warnings of strict mode only log.
\<close>

subsection \<open>Phases\<close>

datatype protoPhase =
    phaseUnstarted
  | phaseRegistering
  | phaseRegistered
  | phaseInitializing
  | phaseRunning
  | phaseCancelled

fun phaseNum :: "protoPhase \<Rightarrow> int" where
  "phaseNum phaseUnstarted = 0"
| "phaseNum phaseRegistering = 1"
| "phaseNum phaseRegistered = 2"
| "phaseNum phaseInitializing = 3"
| "phaseNum phaseRunning = 4"
| "phaseNum phaseCancelled = 5"

fun phase_String :: "protoPhase \<Rightarrow> string" where
  "phase_String phaseUnstarted = ''unstarted''"
| "phase_String phaseRegistering = ''registering''"
| "phase_String phaseRegistered = ''registered''"
| "phase_String phaseInitializing = ''initializing''"
| "phase_String phaseRunning = ''running''"
| "phase_String phaseCancelled = ''cancelled''"

datatype 'm ctx_call =
    CRegisterCodec uint64 "'m codec"
  | CRegisterHandler uint64
  | CRegisterRequestHandler uint64
  | CSubscribe uint64
  | CActive string
  | CPanic string

record ('m, 'n, 'q, 'r) life =
  lrt :: "('m, 'n, 'q, 'r) runtime"
  hasNetwork :: bool
  hasSessions :: bool
  takesInbound :: bool
  phase :: "proto_id \<Rightarrow> protoPhase"
  loops :: "proto_id list"
  sups :: "proto_id list"
  syncInbound :: bool
  pumping :: bool
  layersDown :: bool
  shutdownDone :: bool
  journal :: "(proto_id \<times> protoPhase \<times> 'm ctx_call) list"

definition setPhase ::
  "proto_id \<Rightarrow> protoPhase \<Rightarrow> ('m, 'n, 'q, 'r) life \<Rightarrow> ('m, 'n, 'q, 'r) life" where
  "setPhase i ph L = L\<lparr>phase := (phase L)(i := ph)\<rparr>"

text \<open>The checks: the panic message they raise, if they do.\<close>

definition strictPanic :: "string \<Rightarrow> string" where
  "strictPanic m = ''protorun strict: '' @ m"

definition requireRegisterPhase :: "string \<Rightarrow> proto_id \<Rightarrow> ('m, 'n, 'q, 'r) life \<Rightarrow> string option" where
  "requireRegisterPhase action i L =
     (if \<not> strict (lrt L) then None
      else if phase L i \<noteq> phaseRegistering
      then Some (strictPanic (action @ '' must be called from Start(ctx); current phase='' @ phase_String (phase L i)))
      else None)"

definition requireActivePhase :: "string \<Rightarrow> proto_id \<Rightarrow> ('m, 'n, 'q, 'r) life \<Rightarrow> string option" where
  "requireActivePhase action i L =
     (if \<not> strict (lrt L) then None
      else if phaseNum (phase L i) < phaseNum phaseInitializing
      then Some (strictPanic (action @ '' must be called from Init(ctx) or later; current phase='' @ phase_String (phase L i)))
      else None)"

subsection \<open>Calls on the context\<close>

definition noted :: "proto_id \<Rightarrow> 'm ctx_call \<Rightarrow> ('m, 'n, 'q, 'r) life \<Rightarrow> ('m, 'n, 'q, 'r) life" where
  "noted i c L = L\<lparr>journal := journal L @ [(i, phase L i, c)]\<rparr>"

definition ctx_registerCodec ::
  "proto_id \<Rightarrow> uint64 \<Rightarrow> 'm codec \<Rightarrow> ('m, 'n, 'q, 'r) life \<Rightarrow> string option \<times> ('m, 'n, 'q, 'r) life" where
  "ctx_registerCodec i wireID c L =
     (case requireRegisterPhase ''RegisterCodec'' i L of
        Some w \<Rightarrow> (Some w, L)
      | None \<Rightarrow>
          (case registerCodec i wireID c (lrt L) of
             None \<Rightarrow> (Some (strictPanic ''RegisterCodec called twice''), L)
           | Some r \<Rightarrow> (None, noted i (CRegisterCodec wireID c) (L\<lparr>lrt := r\<rparr>))))"

definition ctx_registerHandler ::
  "proto_id \<Rightarrow> uint64 \<Rightarrow> ('m, 'n, 'q, 'r) life \<Rightarrow> string option \<times> ('m, 'n, 'q, 'r) life" where
  "ctx_registerHandler i wireID L =
     (case requireRegisterPhase ''RegisterHandler'' i L of
        Some w \<Rightarrow> (Some w, L)
      | None \<Rightarrow>
          (case registerHandler i wireID (lrt L) of
             None \<Rightarrow> (Some (strictPanic ''RegisterHandler called twice on the same protocol''), L)
           | Some r \<Rightarrow> (None, noted i (CRegisterHandler wireID) (L\<lparr>lrt := r\<rparr>))))"

text \<open>The route is set before the check for another owner.\<close>

definition ctx_registerRequestHandler ::
  "proto_id \<Rightarrow> uint64 \<Rightarrow> ('m, 'n, 'q, 'r) life \<Rightarrow> string option \<times> ('m, 'n, 'q, 'r) life" where
  "ctx_registerRequestHandler i wireID L =
     (case requireRegisterPhase ''RegisterRequestHandler'' i L of
        Some w \<Rightarrow> (Some w, L)
      | None \<Rightarrow>
          let (prev, router) = RegisterRequestRoute wireID i () (ipc (lrt L));
              L = L\<lparr>lrt := (lrt L)\<lparr>ipc := router\<rparr>\<rparr>
          in if (case prev of None \<Rightarrow> False | Some (owner, h) \<Rightarrow> owner \<noteq> i) \<and> strict (lrt L)
             then (Some (strictPanic ''RegisterRequestHandler already owned by another protocol''), L)
             else (None, noted i (CRegisterRequestHandler wireID) L))"

definition ctx_subscribeNotification ::
  "proto_id \<Rightarrow> uint64 \<Rightarrow> ('m, 'n, 'q, 'r) life \<Rightarrow> string option \<times> ('m, 'n, 'q, 'r) life" where
  "ctx_subscribeNotification i wireID L =
     (case requireRegisterPhase ''SubscribeNotification'' i L of
        Some w \<Rightarrow> (Some w, L)
      | None \<Rightarrow> (None, noted i (CSubscribe wireID) (L\<lparr>lrt := subscribeNotification i wireID (lrt L)\<rparr>)))"

definition ctx_active ::
  "proto_id \<Rightarrow> string \<Rightarrow> ('m, 'n, 'q, 'r) life \<Rightarrow> string option \<times> ('m, 'n, 'q, 'r) life" where
  "ctx_active i action L =
     (case requireActivePhase action i L of
        Some w \<Rightarrow> (Some w, L)
      | None \<Rightarrow> (None, noted i (CActive action) L))"

fun doCall :: "proto_id \<Rightarrow> 'm ctx_call \<Rightarrow> ('m, 'n, 'q, 'r) life \<Rightarrow> string option \<times> ('m, 'n, 'q, 'r) life" where
  "doCall i (CRegisterCodec w c) L = ctx_registerCodec i w c L"
| "doCall i (CRegisterHandler w) L = ctx_registerHandler i w L"
| "doCall i (CRegisterRequestHandler w) L = ctx_registerRequestHandler i w L"
| "doCall i (CSubscribe w) L = ctx_subscribeNotification i w L"
| "doCall i (CActive a) L = ctx_active i a L"
| "doCall i (CPanic w) L = (Some w, L)"

text \<open>User code, up to its first panic.\<close>

fun runUser ::
  "proto_id \<Rightarrow> 'm ctx_call list \<Rightarrow> ('m, 'n, 'q, 'r) life \<Rightarrow> string option \<times> ('m, 'n, 'q, 'r) life" where
  "runUser i [] L = (None, L)"
| "runUser i (c # cs) L =
     (case doCall i c L of (Some w, L) \<Rightarrow> (Some w, L) | (None, L) \<Rightarrow> runUser i cs L)"

subsection \<open>Boot\<close>

definition setProto ::
  "proto_id \<Rightarrow> ('m, 'n, 'q, 'r) protoProtocol \<Rightarrow> ('m, 'n, 'q, 'r) life \<Rightarrow> ('m, 'n, 'q, 'r) life" where
  "setProto i p L = L\<lparr>lrt := (lrt L)\<lparr>protos := (protos (lrt L))(i := p)\<rparr>\<rparr>"

definition startLoop :: "proto_id \<Rightarrow> ('m, 'n, 'q, 'r) life \<Rightarrow> ('m, 'n, 'q, 'r) life" where
  "startLoop i L = L\<lparr>loops := loops L @ [i]\<rparr>"

text \<open>User code in its phases: the panic it ends in, and the state.\<close>

definition callStart ::
  "'m ctx_call list \<Rightarrow> proto_id \<Rightarrow> ('m, 'n, 'q, 'r) life \<Rightarrow> string option \<times> ('m, 'n, 'q, 'r) life" where
  "callStart user i L =
     (let (rec, L) = runUser i user (setPhase i phaseRegistering L)
      in (rec, if rec = None then setPhase i phaseRegistered L else L))"

definition callInit ::
  "'m ctx_call list \<Rightarrow> proto_id \<Rightarrow> ('m, 'n, 'q, 'r) life \<Rightarrow> string option \<times> ('m, 'n, 'q, 'r) life" where
  "callInit user i L =
     (let (rec, L) = runUser i user (setPhase i phaseInitializing L)
      in (rec, if rec = None then setPhase i phaseRunning L else L))"

text \<open>\<open>Start\<close> and \<open>Init\<close> of an envelope: the panic that reaches the caller, and the state.\<close>

definition proto_Start ::
  "'m ctx_call list \<Rightarrow> proto_id \<Rightarrow> ('m, 'n, 'q, 'r) life \<Rightarrow> string option \<times> ('m, 'n, 'q, 'r) life" where
  "proto_Start user i L =
     (let (rec, L) = callStart user i L
      in case boot_Start rec (protos (lrt L) i) of
           None \<Rightarrow> (rec, L)
         | Some (loop, p) \<Rightarrow>
             let L = setProto i p L in (None, if loop then startLoop i L else L))"

definition proto_Init ::
  "'m ctx_call list \<Rightarrow> proto_id \<Rightarrow> ('m, 'n, 'q, 'r) life \<Rightarrow> string option \<times> ('m, 'n, 'q, 'r) life" where
  "proto_Init user i L =
     (if supervised (protos (lrt L) i) \<and> quarantined (protos (lrt L) i) then (None, L)
      else let (rec, L) = callInit user i L
           in case boot_Init rec (protos (lrt L) i) of
                None \<Rightarrow> (rec, L)
              | Some p \<Rightarrow> (None, setProto i p L))"

fun startProtocols ::
  "(proto_id \<Rightarrow> 'm ctx_call list) \<Rightarrow> proto_id list \<Rightarrow> ('m, 'n, 'q, 'r) life \<Rightarrow>
     string option \<times> ('m, 'n, 'q, 'r) life" where
  "startProtocols user [] L = (None, L)"
| "startProtocols user (i # is) L =
     (case proto_Start (user i) i L of (Some w, L) \<Rightarrow> (Some w, L) | (None, L) \<Rightarrow> startProtocols user is L)"

fun initProtocols ::
  "(proto_id \<Rightarrow> 'm ctx_call list) \<Rightarrow> proto_id list \<Rightarrow> ('m, 'n, 'q, 'r) life \<Rightarrow>
     string option \<times> ('m, 'n, 'q, 'r) life" where
  "initProtocols user [] L = (None, L)"
| "initProtocols user (i # is) L =
     (case proto_Init (user i) i L of (Some w, L) \<Rightarrow> (Some w, L) | (None, L) \<Rightarrow> initProtocols user is L)"

definition startSupervisors :: "('m, 'n, 'q, 'r) life \<Rightarrow> ('m, 'n, 'q, 'r) life" where
  "startSupervisors L =
     L\<lparr>sups := sups L @ filter (\<lambda>i. supervised (protos (lrt L) i)) (live (lrt L))\<rparr>"

definition installSyncInbound :: "('m, 'n, 'q, 'r) life \<Rightarrow> ('m, 'n, 'q, 'r) life" where
  "installSyncInbound L = (if takesInbound L then L\<lparr>syncInbound := True\<rparr> else L)"

datatype start_error = ErrNoNetworkLayer | ErrNoSessionLayer | ErrAlreadyCancelled

datatype start_result = Started | StartError start_error | StartPanic string

definition rt_start ::
  "(proto_id \<Rightarrow> 'm ctx_call list) \<Rightarrow> (proto_id \<Rightarrow> 'm ctx_call list) \<Rightarrow> ('m, 'n, 'q, 'r) life \<Rightarrow>
     start_result \<times> ('m, 'n, 'q, 'r) life" where
  "rt_start onStart onInit L =
     (if \<not> hasSessions L then
        (StartError (if \<not> hasNetwork L then ErrNoNetworkLayer else ErrNoSessionLayer), L)
      else if cancelled (lrt L) then (StartError ErrAlreadyCancelled, L)
      else case startProtocols onStart (live (lrt L)) (installSyncInbound L) of
        (Some w, L) \<Rightarrow> (StartPanic w, L)
      | (None, L) \<Rightarrow>
          (case initProtocols onInit (live (lrt L)) L of
             (Some w, L) \<Rightarrow> (StartPanic w, L)
           | (None, L) \<Rightarrow>
               let L = startSupervisors L
               in (Started, if syncInbound L then L else L\<lparr>pumping := True\<rparr>)))"

subsection \<open>Shutdown\<close>

definition cancelProto :: "proto_id \<Rightarrow> ('m, 'n, 'q, 'r) life \<Rightarrow> ('m, 'n, 'q, 'r) life" where
  "cancelProto i L = setProto i (cancelAllTimers (protos (lrt L) i)) (setPhase i phaseCancelled L)"

definition teardown :: "('m, 'n, 'q, 'r) life \<Rightarrow> ('m, 'n, 'q, 'r) life" where
  "teardown L =
     (let L = fold cancelProto (snapshotProtocols (lrt L)) L;
          L = L\<lparr>lrt := (lrt L)\<lparr>cancelled := True\<rparr>\<rparr>
      in L\<lparr>layersDown := True, loops := [], sups := [], pumping := False\<rparr>)"

definition rt_Cancel :: "('m, 'n, 'q, 'r) life \<Rightarrow> ('m, 'n, 'q, 'r) life" where
  "rt_Cancel L = (if shutdownDone L then L else (teardown L)\<lparr>shutdownDone := True\<rparr>)"

datatype shutdown_error = ErrShutdownTimeout | FatalError "string \<times> string"

definition rt_Shutdown :: "bool \<Rightarrow> ('m, 'n, 'q, 'r) life \<Rightarrow> shutdown_error option \<times> ('m, 'n, 'q, 'r) life" where
  "rt_Shutdown inTime L =
     (let L = rt_Cancel L
      in (if inTime then (case fatalError (lrt L) of Some e \<Rightarrow> Some (FatalError e) | None \<Rightarrow> None)
          else Some ErrShutdownTimeout, L))"

end
