(* ===== verification/Lifecycle_Safety.thy ===== *)
theory Lifecycle_Safety
  imports Lifecycle
begin

text \<open>
  What a boot guarantees: in strict mode every wire identifier has one registrar and every call comes
  in its phase; a supervised protocol that panics while booting stops nobody else; a runtime that was
  cancelled stays down.  Then the places where strict mode falls short of its description.
\<close>

subsection \<open>Invariants of a boot\<close>

definition bootState :: "('m, 'n, 'q, 'r) protoProtocol \<Rightarrow> ('m, 'n, 'q, 'r) protoProtocol \<Rightarrow> bool" where
  "bootState p p' \<longleftrightarrow> handlers p' = handlers p \<and> supervised p' = supervised p"

lemma boot_keeps:
  "boot_Start w p = Some (l, p') \<Longrightarrow> bootState p p'" "boot_Init w p = Some p' \<Longrightarrow> bootState p p'"
  by (auto simp: boot_Start_def boot_Init_def bootState_def signalPanic_def split: if_splits option.splits)

locale boot_invariant =
  fixes P :: "('m, 'n, 'q, 'r) life \<Rightarrow> bool"
  assumes call: "P L \<Longrightarrow> doCall i c L = (r, L') \<Longrightarrow> P L'"
    and phased: "P L \<Longrightarrow> P (setPhase i ph L)"
    and enveloped: "P L \<Longrightarrow> bootState (protos (lrt L) i) p \<Longrightarrow> P (setProto i p L)"
    and running: "P L \<Longrightarrow> P (L\<lparr>loops := l, sups := s, syncInbound := y, pumping := b\<rparr>)"
begin

lemma user: "P L \<Longrightarrow> runUser i cs L = (r, L') \<Longrightarrow> P L'"
proof (induction cs arbitrary: L)
  case (Cons c cs)
  obtain w L1 where c: "doCall i c L = (w, L1)" by fastforce
  then have "P L1" using call Cons.prems(1) by blast
  then show ?case using Cons c by (cases w) auto
qed simp

lemma looped: "P L \<Longrightarrow> P (startLoop i L)"
  using running [where L = L and l = "loops L @ [i]" and s = "sups L" and y = "syncInbound L" and b = "pumping L"]
  by (simp add: startLoop_def)

lemma protoStart:
  assumes "P L" "proto_Start user i L = (r, L')"
  shows "P L'"
proof -
  obtain w L1 where u: "runUser i user (setPhase i phaseRegistering L) = (w, L1)" by fastforce
  let ?L = "if w = None then setPhase i phaseRegistered L1 else L1"
  have p: "P ?L" using local.user [OF phased [OF assms(1)] u] phased by simp
  show ?thesis
  proof (cases "boot_Start w (protos (lrt ?L) i)")
    case None
    then show ?thesis using assms(2) u p by (auto simp: proto_Start_def callStart_def Let_def split: if_splits)
  next
    case (Some lq)
    then obtain l q where b: "boot_Start w (protos (lrt ?L) i) = Some (l, q)" by (cases lq) simp
    then have L': "L' = (if l then startLoop i (setProto i q ?L) else setProto i q ?L)"
      using assms(2) u by (auto simp: proto_Start_def callStart_def Let_def split: if_splits)
    have "P (setProto i q ?L)" by (rule enveloped [OF p boot_keeps(1) [OF b]])
    then show ?thesis unfolding L' by (simp add: looped)
  qed
qed

lemma protoInit:
  assumes "P L" "proto_Init user i L = (r, L')"
  shows "P L'"
proof (cases "supervised (protos (lrt L) i) \<and> quarantined (protos (lrt L) i)")
  case True
  then show ?thesis using assms by (simp add: proto_Init_def)
next
  case False
  obtain w L1 where u: "runUser i user (setPhase i phaseInitializing L) = (w, L1)" by fastforce
  let ?L = "if w = None then setPhase i phaseRunning L1 else L1"
  have p: "P ?L" using local.user [OF phased [OF assms(1)] u] phased by simp
  show ?thesis
  proof (cases "boot_Init w (protos (lrt ?L) i)")
    case None
    then show ?thesis using assms(2) u p False by (auto simp: proto_Init_def callInit_def Let_def split: if_splits)
  next
    case (Some q)
    then have "L' = setProto i q ?L" using assms(2) u False by (auto simp: proto_Init_def callInit_def Let_def split: if_splits)
    then show ?thesis using enveloped [OF p boot_keeps(2) [OF Some]] by simp
  qed
qed

lemma allStarts: "P L \<Longrightarrow> startProtocols user is L = (r, L') \<Longrightarrow> P L'"
proof (induction "is" arbitrary: L)
  case (Cons i "is")
  obtain w L1 where c: "proto_Start (user i) i L = (w, L1)" by fastforce
  then have "P L1" using protoStart Cons.prems(1) by blast
  then show ?case using Cons c by (cases w) auto
qed simp

lemma allInits: "P L \<Longrightarrow> initProtocols user is L = (r, L') \<Longrightarrow> P L'"
proof (induction "is" arbitrary: L)
  case (Cons i "is")
  obtain w L1 where c: "proto_Init (user i) i L = (w, L1)" by fastforce
  then have "P L1" using protoInit Cons.prems(1) by blast
  then show ?case using Cons c by (cases w) auto
qed simp

lemma started:
  assumes "P L" "rt_start onStart onInit L = (r, L')"
  shows "P L'"
proof (cases "hasSessions L \<and> \<not> cancelled (lrt L)")
  case False
  then show ?thesis using assms by (auto simp: rt_start_def split: if_splits)
next
  case True
  have i: "P (installSyncInbound L)"
    using assms(1) running [where L = L and l = "loops L" and s = "sups L" and y = True and b = "pumping L"] by (simp add: installSyncInbound_def)
  obtain w L1 where s: "startProtocols onStart (live (lrt L)) (installSyncInbound L) = (w, L1)" by fastforce
  have p1: "P L1" by (rule allStarts [OF i s])
  show ?thesis
  proof (cases w)
    case (Some x)
    then show ?thesis using assms(2) True s p1 by (simp add: rt_start_def)
  next
    case None
    obtain w2 L2 where n: "initProtocols onInit (live (lrt L1)) L1 = (w2, L2)" by fastforce
    have p2: "P L2" by (rule allInits [OF p1 n])
    have run: "P (startSupervisors L2)"
      using running [OF p2, where l = "loops L2" and y = "syncInbound L2" and b = "pumping L2" and
          s = "sups L2 @ filter (\<lambda>i. supervised (protos (lrt L2) i)) (live (lrt L2))"]
      by (simp add: startSupervisors_def)
    moreover have "P (startSupervisors L2 \<lparr>pumping := True\<rparr>)"
      using running [OF run, where l = "loops L2" and y = "syncInbound L2" and b = True and
          s = "sups (startSupervisors L2)"]
      by (simp add: startSupervisors_def)
    ultimately show ?thesis using assms(2) True s n None p2
      by (cases w2) (auto simp: rt_start_def Let_def split: if_splits)
  qed
qed

end

subsection \<open>Strict mode: one registrar, every call in its phase\<close>

definition inPhase :: "proto_id \<times> protoPhase \<times> 'm ctx_call \<Rightarrow> bool" where
  "inPhase x = (case x of (i, ph, c) \<Rightarrow>
     (case c of CActive a \<Rightarrow> phaseNum phaseInitializing \<le> phaseNum ph | _ \<Rightarrow> ph = phaseRegistering))"

definition codecOf :: "uint64 \<Rightarrow> proto_id \<times> protoPhase \<times> 'm ctx_call \<Rightarrow> bool" where
  "codecOf w x = (case x of (i, ph, c) \<Rightarrow> (case c of CRegisterCodec v d \<Rightarrow> v = w | _ \<Rightarrow> False))"

definition handlerOf :: "proto_id \<Rightarrow> uint64 \<Rightarrow> proto_id \<times> protoPhase \<times> 'm ctx_call \<Rightarrow> bool" where
  "handlerOf j w x = (case x of (i, ph, c) \<Rightarrow> (case c of CRegisterHandler v \<Rightarrow> i = j \<and> v = w | _ \<Rightarrow> False))"

lemmas journal_line = inPhase_def codecOf_def handlerOf_def

definition registered_once :: "('m, 'n, 'q, 'r) life \<Rightarrow> bool" where
  "registered_once L \<longleftrightarrow> strict (lrt L) \<and> list_all inPhase (journal L) \<and>
     (\<forall>w. filter (codecOf w) (journal L) =
        (case codec_Get w (rcodecs (lrt L)) of
           None \<Rightarrow> [] | Some (i, c) \<Rightarrow> [(i, phaseRegistering, CRegisterCodec w c)])) \<and>
     (\<forall>i w. length (filter (handlerOf i w) (journal L)) =
        (if w \<in> handlers (protos (lrt L) i) then 1 else 0))"

lemma requirePhase_None:
  "requireRegisterPhase a i L = None \<Longrightarrow> strict (lrt L) \<Longrightarrow> phase L i = phaseRegistering"
  "requireActivePhase a i L = None \<Longrightarrow> strict (lrt L) \<Longrightarrow> phaseNum phaseInitializing \<le> phaseNum (phase L i)"
  by (auto simp: requireRegisterPhase_def requireActivePhase_def split: if_splits)

lemma registered_once_cong:
  assumes "registered_once L" "strict (lrt L') = strict (lrt L)" "rcodecs (lrt L') = rcodecs (lrt L)"
    "\<And>i. handlers (protos (lrt L') i) = handlers (protos (lrt L) i)" "journal L' = journal L"
  shows "registered_once L'"
  using assms by (simp add: registered_once_def)

text \<open>A call that is neither a codec nor a handler only adds its line.\<close>

lemma registered_once_line:
  assumes "registered_once L" "strict (lrt L') = strict (lrt L)" "rcodecs (lrt L') = rcodecs (lrt L)"
    "protos (lrt L') = protos (lrt L)" "journal L' = journal L @ [x]" "inPhase x"
    "\<And>w. \<not> codecOf w x" "\<And>i w. \<not> handlerOf i w x"
  shows "registered_once L'"
  using assms by (simp add: registered_once_def)

lemma registered_once_codec:
  assumes "registered_once L" "ctx_registerCodec i w c L = (r, L')"
  shows "registered_once L'"
proof (cases "requireRegisterPhase ''RegisterCodec'' i L = None \<and> codec_Get w (rcodecs (lrt L)) = None")
  case False
  then have "L' = L" using assms
    by (auto simp: ctx_registerCodec_def registerCodec_def registered_once_def split: option.splits if_splits)
  then show ?thesis using assms(1) by simp
next
  case True
  have ph: "phase L i = phaseRegistering" using requirePhase_None(1) True assms(1) by (auto simp: registered_once_def)
  have "L' = noted i (CRegisterCodec w c) (L\<lparr>lrt := (lrt L)\<lparr>rcodecs := codec_Set w i c (rcodecs (lrt L))\<rparr>\<rparr>)"
    using assms(2) True by (simp add: ctx_registerCodec_def registerCodec_def)
  then have L': "journal L' = journal L @ [(i, phaseRegistering, CRegisterCodec w c)]" "strict (lrt L') = strict (lrt L)"
      "rcodecs (lrt L') = codec_Set w i c (rcodecs (lrt L))" "protos (lrt L') = protos (lrt L)"
    by (simp_all add: noted_def ph)
  have "filter (codecOf v) (journal L') = (case codec_Get v (rcodecs (lrt L')) of
      None \<Rightarrow> [] | Some (i, c) \<Rightarrow> [(i, phaseRegistering, CRegisterCodec v c)])" for v
    using assms(1) True by (simp add: L' codecs.get_insert registered_once_def journal_line)
  then show ?thesis using assms(1) unfolding registered_once_def L' by (simp add: journal_line)
qed

lemma registered_once_handler:
  assumes "registered_once L" "ctx_registerHandler i w L = (r, L')"
  shows "registered_once L'"
proof (cases "requireRegisterPhase ''RegisterHandler'' i L = None \<and> w \<notin> handlers (protos (lrt L) i)")
  case False
  then have "L' = L" using assms
    by (auto simp: ctx_registerHandler_def registerHandler_def registered_once_def split: option.splits if_splits)
  then show ?thesis using assms(1) by simp
next
  case True
  have ph: "phase L i = phaseRegistering" using requirePhase_None(1) True assms(1) by (auto simp: registered_once_def)
  have L': "journal L' = journal L @ [(i, phaseRegistering, CRegisterHandler w)]" "strict (lrt L') = strict (lrt L)"
      "rcodecs (lrt L') = rcodecs (lrt L)"
      "handlers (protos (lrt L') j) = (if j = i then insert w (handlers (protos (lrt L) i)) else handlers (protos (lrt L) j))" for j
    using assms(2) True by (auto simp: ctx_registerHandler_def registerHandler_def noted_def ph)
  have "length (filter (handlerOf j v) (journal L')) = (if v \<in> handlers (protos (lrt L') j) then 1 else 0)" for j v
    using assms(1) True by (auto simp: L' registered_once_def journal_line)
  then show ?thesis using assms(1) unfolding registered_once_def L'(1-3) by (simp add: journal_line)
qed

lemma registered_once_call:
  assumes "registered_once L" "doCall i c L = (r, L')"
  shows "registered_once L'"
proof (cases c)
  case (CRegisterCodec w d)
  then show ?thesis using registered_once_codec assms by simp
next
  case (CRegisterHandler w)
  then show ?thesis using registered_once_handler assms by simp
next
  case (CRegisterRequestHandler w)
  let ?L = "L\<lparr>lrt := (lrt L)\<lparr>ipc := snd (RegisterRequestRoute w i () (ipc (lrt L)))\<rparr>\<rparr>"
  have ok: "registered_once ?L" by (rule registered_once_cong [OF assms(1)]) simp_all
  show ?thesis
  proof (cases "requireRegisterPhase ''RegisterRequestHandler'' i L")
    case None
    then have ph: "phase L i = phaseRegistering" using requirePhase_None(1) assms(1) by (auto simp: registered_once_def)
    have "registered_once (noted i (CRegisterRequestHandler w) ?L)"
      by (rule registered_once_line [OF ok, where x = "(i, phaseRegistering, CRegisterRequestHandler w)"]) (simp_all add: noted_def ph journal_line)
    then show ?thesis using assms(2) CRegisterRequestHandler None ok
      by (auto simp: ctx_registerRequestHandler_def Let_def split_beta split: if_splits)
  next
    case (Some m)
    then show ?thesis using assms CRegisterRequestHandler by (simp add: ctx_registerRequestHandler_def)
  qed
next
  case (CSubscribe w)
  let ?L = "noted i (CSubscribe w) (L\<lparr>lrt := subscribeNotification i w (lrt L)\<rparr>)"
  have "registered_once ?L" if "requireRegisterPhase ''SubscribeNotification'' i L = None"
  proof -
    have "phase L i = phaseRegistering" using requirePhase_None(1) that assms(1) by (auto simp: registered_once_def)
    then show ?thesis by (intro registered_once_line [OF assms(1), where x = "(i, phaseRegistering, CSubscribe w)"]) (simp_all add: noted_def subscribeNotification_def journal_line)
  qed
  then show ?thesis using assms CSubscribe by (auto simp: ctx_subscribeNotification_def split: option.splits)
next
  case (CActive a)
  have "registered_once (noted i (CActive a) L)" if "requireActivePhase a i L = None"
  proof -
    have "phaseNum phaseInitializing \<le> phaseNum (phase L i)"
      using requirePhase_None(2) that assms(1) by (auto simp: registered_once_def)
    then show ?thesis by (intro registered_once_line [OF assms(1), where x = "(i, phase L i, CActive a)"]) (simp_all add: noted_def journal_line)
  qed
  then show ?thesis using assms CActive by (auto simp: ctx_active_def split: option.splits)
qed (use assms in simp)

interpretation strict_boot: boot_invariant registered_once
proof unfold_locales
  fix L :: "('a, 'b, 'c, 'd) life" assume o: "registered_once L"
  show "registered_once L'" if "doCall i c L = (r, L')" for i c r L' by (rule registered_once_call [OF o that])
  show "registered_once (setPhase i ph L)" for i ph by (rule registered_once_cong [OF o]) (simp_all add: setPhase_def)
  show "registered_once (setProto i p L)" if "bootState (protos (lrt L) i) p" for i p
    by (rule registered_once_cong [OF o]) (use that in \<open>auto simp: setProto_def bootState_def\<close>)
  show "registered_once (L\<lparr>loops := l, sups := s, syncInbound := y, pumping := b\<rparr>)" for l s y b
    by (rule registered_once_cong [OF o]) simp_all
qed

text \<open>A runtime before its start: protocols are registered, nothing has run.\<close>

definition fresh :: "('m, 'n, 'q, 'r) life \<Rightarrow> bool" where
  "fresh L \<longleftrightarrow> journal L = [] \<and> rcodecs (lrt L) = newCodecRegistry \<and> (\<forall>i. handlers (protos (lrt L) i) = {})"

text \<open>C31. In strict mode, whatever the protocols do and however the start ends, every call that went through
  came in its phase, every wire identifier has at most one codec registration, whose protocol and codec
  are the ones messages are routed to, and no protocol registered two handlers for one identifier.\<close>

theorem strict_single_registrar:
  assumes "fresh L" "strict (lrt L)" "rt_start onStart onInit L = (r, L')"
  shows "list_all inPhase (journal L') \<and>
    filter (codecOf w) (journal L') =
      (case codec_Get w (rcodecs (lrt L')) of
         None \<Rightarrow> [] | Some (i, c) \<Rightarrow> [(i, phaseRegistering, CRegisterCodec w c)]) \<and>
    length (filter (handlerOf i w) (journal L')) = (if w \<in> handlers (protos (lrt L') i) then 1 else 0)"
proof -
  have "registered_once L" using assms(1,2) by (simp add: fresh_def registered_once_def codecs.get_empty)
  then have "registered_once L'" using strict_boot.started assms(3) by blast
  then show ?thesis by (simp add: registered_once_def)
qed

subsection \<open>A panic during boot\<close>

text \<open>What a boot changes of one protocol, and of the runtime.\<close>

definition sound :: "'m ctx_call list \<Rightarrow> bool" where
  "sound cs = list_all (\<lambda>c. case c of CPanic w \<Rightarrow> False | _ \<Rightarrow> True) cs"

record vitals =
  vphase :: protoPhase
  vloop :: bool
  vquarantined :: bool
  vexit :: bool
  vsignal :: "string option"
  vsupervised :: bool

definition watch :: "('m, 'n, 'q, 'r) life \<Rightarrow> proto_id \<Rightarrow> vitals" where
  "watch L i =
     (let p = protos (lrt L) i
      in \<lparr>vphase = phase L i, vloop = i \<in> set (loops L), vquarantined = quarantined p, vexit = exitLoop p,
          vsignal = panicSignal p, vsupervised = supervised p\<rparr>)"

definition common :: "('m, 'n, 'q, 'r) life \<Rightarrow> bool \<times> proto_id list \<times> proto_id list" where
  "common L = (strict (lrt L), live (lrt L), sups L)"

lemma watch_noted:
  assumes "protos r = protos (lrt L)" "strict r = strict (lrt L)" "live r = live (lrt L)"
  shows "watch (noted i c (L\<lparr>lrt := r\<rparr>)) = watch L" "common (noted i c (L\<lparr>lrt := r\<rparr>)) = common L"
  using assms by (simp_all add: watch_def common_def noted_def Let_def fun_eq_iff)

lemma doCall_watch:
  assumes d: "doCall i c L = (r, L')" and n: "\<not> strict (lrt L)"
  shows "watch L' = watch L \<and> common L' = common L \<and> (r = None \<longleftrightarrow> sound [c])"
proof -
  have q: "requireRegisterPhase a i L = None" "requireActivePhase a i L = None" for a
    using n by (simp_all add: requireRegisterPhase_def requireActivePhase_def)
  show ?thesis
  proof (cases c)
    case (CRegisterCodec w d)
    then have "r = None" "L' = noted i c (L\<lparr>lrt := (lrt L)\<lparr>rcodecs := codec_Set w i d (rcodecs (lrt L))\<rparr>\<rparr>)"
      using assms q by (simp_all add: ctx_registerCodec_def registerCodec_def)
    then show ?thesis using CRegisterCodec by (simp add: watch_noted sound_def)
  next
    case (CRegisterHandler w)
    then have "r = None" "L' = noted i c (L\<lparr>lrt := (lrt L)\<lparr>protos := (protos (lrt L))(i := (protos (lrt L) i)
        \<lparr>handlers := insert w (handlers (protos (lrt L) i))\<rparr>)\<rparr>\<rparr>)"
      using assms q by (simp_all add: ctx_registerHandler_def registerHandler_def)
    then show ?thesis using CRegisterHandler
      by (simp add: watch_def common_def noted_def sound_def Let_def fun_eq_iff)
  next
    case (CRegisterRequestHandler w)
    then have "r = None" "L' = noted i c (L\<lparr>lrt := (lrt L)\<lparr>ipc := snd (RegisterRequestRoute w i () (ipc (lrt L)))\<rparr>\<rparr>)"
      using assms q by (simp_all add: ctx_registerRequestHandler_def split_beta)
    then show ?thesis using CRegisterRequestHandler by (simp add: watch_noted sound_def)
  next
    case (CSubscribe w)
    then have "r = None" "L' = noted i c (L\<lparr>lrt := subscribeNotification i w (lrt L)\<rparr>)"
      using assms q by (simp_all add: ctx_subscribeNotification_def)
    then show ?thesis using CSubscribe by (simp add: watch_noted sound_def subscribeNotification_def)
  next
    case (CActive a)
    then have "r = None" "L' = noted i c (L\<lparr>lrt := lrt L\<rparr>)" using assms q by (simp_all add: ctx_active_def)
    then show ?thesis using CActive watch_noted [where r = "lrt L" and L = L] by (simp add: sound_def)
  next
    case (CPanic w)
    then show ?thesis using d by (auto simp: sound_def)
  qed
qed

lemma runUser_watch:
  assumes "runUser i cs L = (r, L')" "\<not> strict (lrt L)"
  shows "watch L' = watch L \<and> common L' = common L \<and> (r = None \<longleftrightarrow> sound cs)"
  using assms
proof (induction cs arbitrary: L)
  case (Cons c cs)
  obtain w L1 where c: "doCall i c L = (w, L1)" by fastforce
  note d = doCall_watch [OF c Cons.prems(2)]
  have "\<not> strict (lrt L1)" using d Cons.prems(2) by (simp add: common_def)
  then show ?case using Cons c d by (cases w) (auto simp: sound_def)
qed (simp add: sound_def)

definition signalled :: "string \<Rightarrow> vitals \<Rightarrow> vitals" where
  "signalled w v = v\<lparr>vquarantined := True, vsignal := (case vsignal v of None \<Rightarrow> Some w | Some x \<Rightarrow> Some x)\<rparr>"

definition startW :: "bool \<Rightarrow> vitals \<Rightarrow> vitals" where
  "startW ok v =
     (if ok then v\<lparr>vphase := phaseRegistered, vloop := True\<rparr>
      else signalled ''Start'' (v\<lparr>vphase := phaseRegistering\<rparr>))"

definition initW :: "bool \<Rightarrow> vitals \<Rightarrow> vitals" where
  "initW ok v =
     (if vquarantined v then v
      else if ok then v\<lparr>vphase := phaseRunning\<rparr>
      else signalled ''Init'' (v\<lparr>vphase := phaseInitializing, vexit := True\<rparr>))"

lemma watch_ops:
  "common (setPhase i ph L) = common L" "common (startLoop i L) = common L" "common (setProto i p L) = common L"
  "watch (setPhase i ph L) = (watch L)(i := (watch L i)\<lparr>vphase := ph\<rparr>)"
  "watch (startLoop i L) = (watch L)(i := (watch L i)\<lparr>vloop := True\<rparr>)"
  "watch (setProto i p L) = (watch L)(i := (watch L i)\<lparr>vquarantined := quarantined p, vexit := exitLoop p,
     vsignal := panicSignal p, vsupervised := supervised p\<rparr>)"
  by (auto simp: setPhase_def startLoop_def setProto_def watch_def common_def Let_def fun_eq_iff)

lemma watch_protos:
  "supervised (protos (lrt L) i) = vsupervised (watch L i)"
  "quarantined (protos (lrt L) i) = vquarantined (watch L i)"
  "exitLoop (protos (lrt L) i) = vexit (watch L i)"
  "panicSignal (protos (lrt L) i) = vsignal (watch L i)"
  by (simp_all add: watch_def Let_def)

lemma proto_Start_watch:
  assumes "proto_Start u i L = (r, L')" "\<not> strict (lrt L)" "vsupervised (watch L i)"
  shows "r = None \<and> common L' = common L \<and> watch L' = (watch L)(i := startW (sound u) (watch L i))"
proof -
  obtain w L1 where u: "runUser i u (setPhase i phaseRegistering L) = (w, L1)" by fastforce
  then have d: "watch L1 = watch (setPhase i phaseRegistering L) \<and> common L1 = common (setPhase i phaseRegistering L) \<and>
      (w = None \<longleftrightarrow> sound u)"
    by (rule runUser_watch) (use assms(2) in \<open>simp add: setPhase_def\<close>)
  show ?thesis
  proof (cases w)
    case None
    then show ?thesis using assms u d
      by (auto simp: proto_Start_def callStart_def Let_def boot_Start_def watch_protos watch_ops startW_def)
  next
    case (Some x)
    then show ?thesis using assms u d
      by (auto simp: proto_Start_def callStart_def Let_def boot_Start_def watch_protos watch_ops startW_def signalPanic_def
          signalled_def split: option.splits)
  qed
qed

lemma proto_Init_watch:
  assumes "proto_Init u i L = (r, L')" "\<not> strict (lrt L)" "vsupervised (watch L i)"
  shows "r = None \<and> common L' = common L \<and> watch L' = (watch L)(i := initW (sound u) (watch L i))"
proof (cases "vquarantined (watch L i)")
  case True
  then show ?thesis using assms by (auto simp: proto_Init_def watch_protos initW_def)
next
  case False
  obtain w L1 where u: "runUser i u (setPhase i phaseInitializing L) = (w, L1)" by fastforce
  then have d: "watch L1 = watch (setPhase i phaseInitializing L) \<and> common L1 = common (setPhase i phaseInitializing L) \<and>
      (w = None \<longleftrightarrow> sound u)"
    by (rule runUser_watch) (use assms(2) in \<open>simp add: setPhase_def\<close>)
  show ?thesis
  proof (cases w)
    case None
    then show ?thesis using assms u d False
      by (auto simp: proto_Init_def callInit_def Let_def boot_Init_def watch_protos watch_ops initW_def)
  next
    case (Some x)
    then show ?thesis using assms u d False
      by (auto simp: proto_Init_def callInit_def Let_def boot_Init_def watch_protos watch_ops initW_def signalPanic_def
          signalled_def split: option.splits)
  qed
qed

lemma startProtocols_watch:
  assumes "startProtocols user is L = (r, L')" "\<not> strict (lrt L)" "distinct is" "\<forall>i\<in>set is. vsupervised (watch L i)"
  shows "r = None \<and> common L' = common L \<and>
    watch L' = (\<lambda>i. if i \<in> set is then startW (sound (user i)) (watch L i) else watch L i)"
  using assms
proof (induction "is" arbitrary: L)
  case (Cons i "is")
  obtain w L1 where c: "proto_Start (user i) i L = (w, L1)" by fastforce
  note d = proto_Start_watch [OF c Cons.prems(2)]
  have "startProtocols user is L1 = (r, L')" using Cons.prems d c by simp
  moreover have "\<not> strict (lrt L1)" using Cons.prems d by (simp add: common_def)
  moreover have "\<forall>j\<in>set is. vsupervised (watch L1 j)" using Cons.prems d by auto
  ultimately show ?case using Cons.IH Cons.prems d by (auto simp: fun_eq_iff)
qed auto

lemma initProtocols_watch:
  assumes "initProtocols user is L = (r, L')" "\<not> strict (lrt L)" "distinct is" "\<forall>i\<in>set is. vsupervised (watch L i)"
  shows "r = None \<and> common L' = common L \<and>
    watch L' = (\<lambda>i. if i \<in> set is then initW (sound (user i)) (watch L i) else watch L i)"
  using assms
proof (induction "is" arbitrary: L)
  case (Cons i "is")
  obtain w L1 where c: "proto_Init (user i) i L = (w, L1)" by fastforce
  note d = proto_Init_watch [OF c Cons.prems(2)]
  have "initProtocols user is L1 = (r, L')" using Cons.prems d c by simp
  moreover have "\<not> strict (lrt L1)" using Cons.prems d by (simp add: common_def)
  moreover have "\<forall>j\<in>set is. vsupervised (watch L1 j)" using Cons.prems d by auto
  ultimately show ?case using Cons.IH Cons.prems d by (auto simp: fun_eq_iff)
qed auto

definition bootable :: "('m, 'n, 'q, 'r) life \<Rightarrow> bool" where
  "bootable L \<longleftrightarrow> hasSessions L \<and> \<not> cancelled (lrt L) \<and> \<not> strict (lrt L) \<and> distinct (live (lrt L)) \<and> sups L = [] \<and>
     (\<forall>i\<in>set (live (lrt L)). watch L i =
        \<lparr>vphase = phaseUnstarted, vloop = False, vquarantined = False, vexit = False, vsignal = None, vsupervised = True\<rparr>)"

lemma started_watch:
  assumes "bootable L" "rt_start onStart onInit L = (r, L')" "i \<in> set (live (lrt L))"
  shows "r = Started \<and> sups L' = live (lrt L) \<and>
    watch L' i = initW (sound (onInit i)) (startW (sound (onStart i)) (watch L i))"
proof -
  let ?L = "installSyncInbound L"
  let ?ls = "live (lrt L)"
  have i: "watch ?L = watch L" "common ?L = common L"
    by (simp_all add: installSyncInbound_def watch_def common_def fun_eq_iff)
  have nb: "\<not> strict (lrt L)" "distinct ?ls" "\<forall>i\<in>set ?ls. vsupervised (watch L i)"
    using assms(1) by (simp_all add: bootable_def)
  obtain w1 L1 where s: "startProtocols onStart ?ls ?L = (w1, L1)" by fastforce
  have "w1 = None \<and> common L1 = common ?L \<and>
      watch L1 = (\<lambda>i. if i \<in> set ?ls then startW (sound (onStart i)) (watch ?L i) else watch ?L i)"
    by (rule startProtocols_watch [OF s]) (use nb i in \<open>simp_all add: common_def\<close>)
  then have 1: "w1 = None" "common L1 = common L" "live (lrt L1) = ?ls" "\<not> strict (lrt L1)"
      "\<forall>i\<in>set ?ls. watch L1 i = startW (sound (onStart i)) (watch L i)"
    using i nb(1) by (simp_all add: common_def)
  obtain w2 L2 where n: "initProtocols onInit ?ls L1 = (w2, L2)" by fastforce
  have "w2 = None \<and> common L2 = common L1 \<and>
      watch L2 = (\<lambda>i. if i \<in> set ?ls then initW (sound (onInit i)) (watch L1 i) else watch L1 i)"
    by (rule initProtocols_watch [OF n 1(4) nb(2)]) (use nb 1(5) in \<open>auto simp: startW_def signalled_def\<close>)
  then have 2: "w2 = None" "common L2 = common L"
      "\<forall>i\<in>set ?ls. watch L2 i = initW (sound (onInit i)) (startW (sound (onStart i)) (watch L i))"
    using 1 by simp_all
  have r: "r = Started" "L' = (let L = startSupervisors L2 in if syncInbound L then L else L\<lparr>pumping := True\<rparr>)"
    using assms(1,2) s n 1 2(1) by (simp_all add: rt_start_def bootable_def Let_def)
  have w: "watch L' = watch L2" unfolding r(2)
    by (simp add: startSupervisors_def watch_def Let_def fun_eq_iff)
  have "\<forall>i\<in>set ?ls. supervised (protos (lrt L2) i)"
    using 2(3) nb(3) by (simp add: watch_protos initW_def startW_def signalled_def)
  moreover have "live (lrt L2) = ?ls" "sups L2 = []" using 2(2) assms(1) by (simp_all add: common_def bootable_def)
  ultimately have "sups L' = ?ls" unfolding r(2) by (simp add: startSupervisors_def Let_def)
  then show ?thesis using r(1) w 2(3) assms(3) by simp
qed

text \<open>C23. A panic of a supervised protocol during boot stops nobody else: the runtime is up with a supervisor
  for every protocol, and a protocol runs, with its event loop, exactly if its own \<open>Start\<close> and \<open>Init\<close> did
  not panic; otherwise it is quarantined with the panic handed to its supervisor, and a loop that was
  already started is told to leave.\<close>

theorem boot_panic_contained:
  assumes "bootable L" "rt_start onStart onInit L = (r, L')" "i \<in> set (live (lrt L))"
  shows "r = Started \<and> sups L' = live (lrt L) \<and>
    (if sound (onStart i) \<and> sound (onInit i)
     then phase L' i = phaseRunning \<and> i \<in> set (loops L') \<and> \<not> quarantined (protos (lrt L') i) \<and>
       \<not> exitLoop (protos (lrt L') i) \<and> panicSignal (protos (lrt L') i) = None
     else quarantined (protos (lrt L') i) \<and>
       panicSignal (protos (lrt L') i) = Some (if sound (onStart i) then ''Init'' else ''Start'') \<and>
       (i \<in> set (loops L')) = sound (onStart i) \<and> exitLoop (protos (lrt L') i) = sound (onStart i))"
proof -
  have w: "watch L i = \<lparr>vphase = phaseUnstarted, vloop = False, vquarantined = False, vexit = False,
      vsignal = None, vsupervised = True\<rparr>"
    using assms(1,3) by (simp add: bootable_def)
  have "phase L' i = vphase (watch L' i)" "(i \<in> set (loops L')) = vloop (watch L' i)" by (simp_all add: watch_def Let_def)
  then show ?thesis using started_watch [OF assms] w by (auto simp: watch_protos initW_def startW_def signalled_def)
qed

subsection \<open>Runs\<close>

text \<open>Protocols 1 and 2, both supervised, hosted in order by a runtime of type \<open>unit\<close>.\<close>

definition twoHosted :: "bool \<Rightarrow> (unit, unit, unit, unit) life" where
  "twoHosted str =
     \<lparr>lrt = registerProtocol 2 (newProtoProtocolMailbox \<lparr>Capacity = 4, Overflow = OverflowBlock\<rparr> True)
        (registerProtocol 1 (newProtoProtocolMailbox \<lparr>Capacity = 4, Overflow = OverflowBlock\<rparr> True)
          (newRuntime (Host 0 ''h'') str)),
      hasNetwork = True, hasSessions = True, takesInbound = False, phase = (\<lambda>i. phaseUnstarted), loops = [], sups = [],
      syncInbound = False, pumping = False, layersDown = False, shutdownDone = False, journal = []\<rparr>"

definition onlyFor :: "proto_id \<Rightarrow> unit ctx_call list \<Rightarrow> proto_id \<Rightarrow> unit ctx_call list" where
  "onlyFor i cs j = (if i = j then cs else [])"

lemma twoHosted_bootable: "bootable (twoHosted False)" "live (lrt (twoHosted b)) = [1, 2]" "fresh (twoHosted b)"
    "strict (lrt (twoHosted b)) = b"
  by (auto simp: bootable_def twoHosted_def registerProtocol_def newRuntime_def newProtoProtocolMailbox_def watch_def
      fresh_def)

theorem boot_panic_contained_witness:
  defines "u \<equiv> onlyFor 1 [CRegisterHandler 7, CPanic ''boom'']"
  defines "L' \<equiv> snd (rt_start u (onlyFor 2 [CActive ''Send'']) (twoHosted False))"
  shows "phase L' 2 = phaseRunning \<and> 2 \<in> set (loops L') \<and> quarantined (protos (lrt L') 1) \<and>
    panicSignal (protos (lrt L') 1) = Some ''Start''"
proof -
  obtain r where s: "rt_start u (onlyFor 2 [CActive ''Send'']) (twoHosted False) = (r, L')"
    unfolding L'_def by (metis prod.collapse)
  have s': "\<not> sound (u 1)" "sound (u 2)" "sound (onlyFor 2 [CActive ''Send''] 2)"
    by (simp_all add: u_def onlyFor_def sound_def)
  have "1 \<in> set (live (lrt (twoHosted False)))" "2 \<in> set (live (lrt (twoHosted False)))"
    by (simp_all add: twoHosted_bootable)
  then show ?thesis
    using boot_panic_contained [OF twoHosted_bootable(1) s, of 1] boot_panic_contained [OF twoHosted_bootable(1) s, of 2] s'
    by simp
qed

lemmas boot_eval =
  rt_start_def proto_Start_def proto_Init_def callStart_def callInit_def boot_Start_def boot_Init_def setPhase_def setProto_def startLoop_def
  startSupervisors_def installSyncInbound_def noted_def requireRegisterPhase_def requireActivePhase_def
  ctx_registerCodec_def ctx_registerHandler_def ctx_registerRequestHandler_def ctx_active_def registerCodec_def
  registerHandler_def RegisterRequestRoute_def Route_def onlyFor_def twoHosted_def registerProtocol_def newRuntime_def
  newProtoProtocolMailbox_def signalPanic_def newIPCRouter_def newCodecRegistry_def

text \<open>Strict mode refuses to give a request to a second protocol, but the route has been changed by then: the
  owner runs on without its requests, which now go to a protocol in quarantine.\<close>

definition bothRegister :: "proto_id \<Rightarrow> unit ctx_call list" where
  "bothRegister j = [CRegisterRequestHandler 7]"

lemma strict_refusal_steals_route:
  "let L' = snd (rt_start bothRegister (onlyFor 0 []) (twoHosted True))
   in phase L' 1 = phaseRunning \<and> quarantined (protos (lrt L') 2) \<and> Route 7 (ipc (lrt L')) = Some (2, ())"
  by (simp add: boot_eval bothRegister_def Let_def)

text \<open>The same protocol may register the same request twice, which the other registrations refuse.\<close>

lemma strict_misses_repeat:
  "fst (rt_start (onlyFor 1 [CRegisterRequestHandler 7, CRegisterRequestHandler 7]) (onlyFor 0 []) (twoHosted True)) = Started \<and>
   (let L' = snd (rt_start (onlyFor 1 [CRegisterRequestHandler 7, CRegisterRequestHandler 7]) (onlyFor 0 []) (twoHosted True))
    in phase L' 1 = phaseRunning) \<and>
   (let L' = snd (rt_start (onlyFor 1 [CRegisterHandler 7, CRegisterHandler 7]) (onlyFor 0 []) (twoHosted True))
    in quarantined (protos (lrt L') 1))"
  by (simp add: boot_eval Let_def)

theorem strict_single_registrar_witness:
  defines "L' \<equiv> snd (rt_start (onlyFor 1 [CRegisterHandler 7]) (onlyFor 0 []) (twoHosted True))"
  shows "journal L' = [(1, phaseRegistering, CRegisterHandler 7)] \<and> 7 \<in> handlers (protos (lrt L') 1)"
proof -
  obtain r where s: "rt_start (onlyFor 1 [CRegisterHandler 7]) (onlyFor 0 []) (twoHosted True) = (r, L')"
    unfolding L'_def by (metis prod.collapse)
  have j: "journal L' = [(1, phaseRegistering, CRegisterHandler 7)]"
    by (simp add: L'_def boot_eval Let_def)
  have "strict (lrt (twoHosted True))" by (simp add: twoHosted_bootable)
  from strict_single_registrar [OF twoHosted_bootable(3) this s, where i = 1 and w = 7]
  have l: "length (filter (handlerOf 1 7) (journal L')) = (if 7 \<in> handlers (protos (lrt L') 1) then 1 else 0)"
    by (elim conjE)
  have "length (filter (handlerOf 1 7) (journal L')) = 1"
    unfolding j by (simp only: filter.simps handlerOf_def prod.case ctx_call.case) simp
  then have "7 \<in> handlers (protos (lrt L') 1)" unfolding l by (rule contrapos_pp) simp
  then show ?thesis using j by (rule conjI [rotated])
qed

subsection \<open>Cancel\<close>

lemma cancel_protos:
  "live (lrt (fold cancelProto is L)) = live (lrt L)" "shutdownDone (fold cancelProto is L) = shutdownDone L"
  "hasSessions (fold cancelProto is L) = hasSessions L"
  "phase (fold cancelProto is L) i = (if i \<in> set is then phaseCancelled else phase L i)"
  by (induction "is" arbitrary: L; simp add: cancelProto_def setProto_def setPhase_def)+

text \<open>\<open>Cancel\<close> is final: every protocol is marked cancelled and no loop is left, a second \<open>Cancel\<close>
  changes nothing, and the runtime never starts again.\<close>

theorem cancel_is_final:
  assumes "hasSessions L" "\<not> shutdownDone L"
  shows "rt_start onStart onInit (rt_Cancel L) = (StartError ErrAlreadyCancelled, rt_Cancel L) \<and>
    rt_Cancel (rt_Cancel L) = rt_Cancel L \<and> loops (rt_Cancel L) = [] \<and> sups (rt_Cancel L) = [] \<and>
    list_all (\<lambda>i. phase (rt_Cancel L) i = phaseCancelled) (live (lrt L))"
  using assms
  by (simp add: rt_start_def rt_Cancel_def teardown_def snapshotProtocols_def cancel_protos list_all_iff Let_def)

theorem cancel_is_final_witness:
  "fst (rt_start (onlyFor 0 []) (onlyFor 0 []) (rt_Cancel (twoHosted False))) = StartError ErrAlreadyCancelled"
proof -
  have "hasSessions (twoHosted False)" "\<not> shutdownDone (twoHosted False)" by (simp_all add: twoHosted_def)
  from cancel_is_final [OF this, of "onlyFor 0 []" "onlyFor 0 []"] show ?thesis by simp
qed

end
