(* ===== verification/WireCodec.thy ===== *)
theory WireCodec
  imports Wire "HOL-Library.List_Lexorder"
begin

text \<open>
  The reflective default codec, \<open>pkg/protorun/wirecodec.go\<close>.  A \<open>reflect.Type\<close> is an \<open>rtype\<close>
  and a \<open>reflect.Value\<close> an \<open>rval\<close>.  \<open>compile\<close> turns a type into a \<open>valueCodec\<close>, a record of
  an encoder, a decoder and the fewest bytes a value takes, built from closures exactly as the
  plan compiler builds them; \<open>Marshal\<close> and \<open>Unmarshal\<close> look the plan up in the cache and run it.

  \<^item> A map value is the list of its entries in the order the iteration of the run visits them;
    \<open>SetMapIndex\<close> compares keys with Go's \<open>==\<close>, for which \<open>NaN\<close> differs from itself, the two
    zeros agree and two freshly allocated pointers differ.
  \<^item> A floating-point value is its bit pattern.  \<open>v.Float()\<close> widens a \<open>float32\<close> to \<open>float64\<close> and
    back, which keeps every number and sets the quiet bit of a signalling \<open>NaN\<close>.
  \<^item> A \<open>reflect\<close> call on a value of another kind panics; for decoders that is the error
    \<open>ReflectPanic\<close>.
  \<^item> Types are finite trees: the back-references of recursive Go types, which the compiler ties
    through \<open>forwardCodec\<close>, are not modelled.

  The locales \<open>value_decoder\<close> and \<open>value_codec\<close> are the contract of a \<open>valueCodec\<close>; every codec
  \<open>compile\<close> returns meets it.  The round trip is described for every value of a supported type:
  decoding returns its wire normal form, in which skipped fields are zero, map entries are in
  the order of their encoded keys and an empty \<open>[]byte\<close> is nil.
\<close>

unbundle bit_operations_syntax

subsection \<open>Types, values and errors\<close>

datatype kind =
    KInvalid | KBool | KInt | KInt8 | KInt16 | KInt32 | KInt64
  | KUint | KUint8 | KUint16 | KUint32 | KUint64 | KUintptr
  | KFloat32 | KFloat64 | KComplex64 | KComplex128
  | KArray | KChan | KFunc | KInterface | KMap | KPointer | KSlice | KString | KStruct
  | KUnsafePointer

datatype rtype =
    RBasic kind
  | RSlice rtype
  | RArray nat rtype
  | RMap rtype rtype
  | RStruct "rfield list"
  | RPointer rtype
and rfield = RField (fieldName: string) (pkgPath: string) (wireTag: string) (fieldType: rtype)

fun Kind :: "rtype \<Rightarrow> kind" where
  "Kind (RBasic k) = k"
| "Kind (RSlice _) = KSlice"
| "Kind (RArray _ _) = KArray"
| "Kind (RMap _ _) = KMap"
| "Kind (RStruct _) = KStruct"
| "Kind (RPointer _) = KPointer"

datatype rval =
    VBool bool
  | VInt int
  | VUint nat
  | VFloat32 uint32
  | VFloat64 uint64
  | VString bytes
  | VBytes bytes
  | VSlice "rval list"
  | VArray "rval list"
  | VMap "(rval \<times> rval) list"
  | VStruct "rval list"
  | VPtr rval
  | VNil

datatype werror =
    NotPointerToStruct kind
  | NilMessage
  | InField string werror
  | InMapKey werror
  | InMapValue werror
  | PointerTo kind
  | ArrayOf kind
  | NotPortable kind
  | ComplexUnsupported
  | UnsupportedKind kind
  | TruncatedPresence
  | InvalidPresence byte
  | InvalidLengthPrefix
  | LengthExceeds nat nat
  | ZeroSizeCap nat
  | TruncatedScalar nat
  | TrailingBytes nat
  | ReflectPanic

record valueCodec =
  enc :: "bytes \<Rightarrow> rval \<Rightarrow> bytes"
  dec :: "bytes \<Rightarrow> rval \<Rightarrow> werror + bytes \<times> rval"
  minSize :: nat

subsection \<open>Unsigned varints\<close>

text \<open>\<open>binary.AppendUvarint\<close> and \<open>binary.Uvarint\<close>.  The count is a \<open>uint64\<close>; the bits the reader
  collects never overlap, so its \<open>|\<close> is an addition, and it stops after ten bytes.  The second
  result of \<open>Uvarint\<close> is the number of bytes read, 0 when the input ends too early and negative
  when the number does not fit.\<close>

fun AppendUvarint :: "bytes \<Rightarrow> nat \<Rightarrow> bytes" where
  "AppendUvarint dst x =
     (if x \<ge> 128 then AppendUvarint (dst @ [word_of_nat (x mod 128 + 128)]) (x div 128)
      else dst @ [word_of_nat x])"

declare AppendUvarint.simps [simp del]

definition MaxVarintLen64 :: nat where
  "MaxVarintLen64 = 10"

fun uvarintLoop :: "nat \<Rightarrow> nat \<Rightarrow> nat \<Rightarrow> bytes \<Rightarrow> nat \<times> int" where
  "uvarintLoop i s x [] = (0, 0)"
| "uvarintLoop i s x (b # bs) =
     (if i = MaxVarintLen64 then (0, - (int i + 1))
      else if unat b < 128 then
        (if i = MaxVarintLen64 - 1 \<and> unat b > 1 then (0, - (int i + 1))
         else (x + unat b * 2 ^ s, int i + 1))
      else uvarintLoop (i + 1) (s + 7) (x + unat b mod 128 * 2 ^ s) bs)"

definition Uvarint :: "bytes \<Rightarrow> nat \<times> int" where
  "Uvarint buf = uvarintLoop 0 0 0 buf"

subsection \<open>Length prefixes\<close>

definition maxZeroSizeCount :: nat where
  "maxZeroSizeCount = 2 ^ 20"

definition readCount :: "bytes \<Rightarrow> nat \<Rightarrow> werror + nat \<times> bytes" where
  "readCount data elemMin =
     (let (n, w) = Uvarint data in
      if w \<le> 0 then Inl InvalidLengthPrefix
      else let rest = drop (nat w) data in
        if elemMin > 0 then
          (if n > length rest div elemMin then Inl (LengthExceeds n (length rest))
           else Inr (n, rest))
        else if n > maxZeroSizeCount then Inl (ZeroSizeCap n)
        else Inr (n, rest))"

text \<open>\<open>readRaw\<close> returns \<open>None\<close> for the nil slice it yields on a zero length.\<close>

definition readRaw :: "bytes \<Rightarrow> werror + bytes option \<times> bytes" where
  "readRaw data =
     (let (n, w) = Uvarint data in
      if w \<le> 0 then Inl InvalidLengthPrefix
      else let rest = drop (nat w) data in
        if n > length rest then Inl (LengthExceeds n (length rest))
        else if n = 0 then Inr (None, rest)
        else Inr (Some (take n rest), drop n rest))"

definition stringCodec :: valueCodec where
  "stringCodec = \<lparr>
     enc = \<lambda>dst v. case v of VString s \<Rightarrow> AppendUvarint dst (length s) @ s | _ \<Rightarrow> dst,
     dec = \<lambda>data v. bindE (readRaw data) (\<lambda>(b, rest).
       Inr (rest, VString (case b of None \<Rightarrow> [] | Some s \<Rightarrow> s))),
     minSize = 1 \<rparr>"

definition bytesCodec :: valueCodec where
  "bytesCodec = \<lparr>
     enc = \<lambda>dst v. case v of
         VBytes b \<Rightarrow> AppendUvarint dst (length b) @ b
       | VNil \<Rightarrow> AppendUvarint dst 0
       | _ \<Rightarrow> dst,
     dec = \<lambda>data v. bindE (readRaw data) (\<lambda>(b, rest).
       Inr (rest, case b of None \<Rightarrow> VNil | Some s \<Rightarrow> VBytes s)),
     minSize = 1 \<rparr>"

subsection \<open>Scalars\<close>

definition fixedCodec :: "nat \<Rightarrow> (bytes \<Rightarrow> rval \<Rightarrow> bytes) \<Rightarrow> (bytes \<Rightarrow> rval) \<Rightarrow> valueCodec" where
  "fixedCodec sz put get = \<lparr>
     enc = put,
     dec = \<lambda>data v. if length data < sz then Inl (TruncatedScalar sz)
                     else Inr (drop sz data, get (take sz data)),
     minSize = sz \<rparr>"

text \<open>The conversions \<open>uint16(v.Int())\<close> and \<open>int64(int16(u))\<close>, and those of the other widths:
  two's complement on \<open>n\<close> bytes.\<close>

definition toUnsigned :: "nat \<Rightarrow> int \<Rightarrow> nat" where
  "toUnsigned n i = nat (i mod 2 ^ (8 * n))"

definition toSigned :: "nat \<Rightarrow> nat \<Rightarrow> int" where
  "toSigned n u = (if u < 2 ^ (8 * n - 1) then int u else int u - 2 ^ (8 * n))"

definition intCodec :: "nat \<Rightarrow> valueCodec" where
  "intCodec n = fixedCodec n
     (\<lambda>dst v. case v of VInt i \<Rightarrow> dst @ le_put n (toUnsigned n i) | _ \<Rightarrow> dst)
     (\<lambda>b. VInt (toSigned n (le_get b)))"

definition uintCodec :: "nat \<Rightarrow> valueCodec" where
  "uintCodec n = fixedCodec n
     (\<lambda>dst v. case v of VUint u \<Rightarrow> dst @ le_put n (u mod 2 ^ (8 * n)) | _ \<Rightarrow> dst)
     (\<lambda>b. VUint (le_get b))"

definition boolCodec :: valueCodec where
  "boolCodec = fixedCodec 1
     (\<lambda>dst v. case v of VBool b \<Rightarrow> dst @ [if b then 1 else 0] | _ \<Rightarrow> dst)
     (\<lambda>b. VBool (b ! 0 \<noteq> 0))"

definition isNaN32 :: "uint32 \<Rightarrow> bool" where
  "isNaN32 b \<longleftrightarrow> b AND 0x7FFFFFFF > 0x7F800000"

definition isNaN64 :: "uint64 \<Rightarrow> bool" where
  "isNaN64 b \<longleftrightarrow> b AND 0x7FFFFFFFFFFFFFFF > 0x7FF0000000000000"

definition via64 :: "uint32 \<Rightarrow> uint32" where
  "via64 b = (if isNaN32 b then b OR 0x00400000 else b)"

definition float32Codec :: valueCodec where
  "float32Codec = fixedCodec 4
     (\<lambda>dst v. case v of VFloat32 f \<Rightarrow> dst @ le_put 4 (unat (via64 f)) | _ \<Rightarrow> dst)
     (\<lambda>b. VFloat32 (via64 (word_of_nat (le_get b))))"

definition float64Codec :: valueCodec where
  "float64Codec = fixedCodec 8
     (\<lambda>dst v. case v of VFloat64 f \<Rightarrow> dst @ le_put 8 (unat f) | _ \<Rightarrow> dst)
     (\<lambda>b. VFloat64 (word_of_nat (le_get b)))"

fun scalarCodec :: "kind \<Rightarrow> valueCodec option" where
  "scalarCodec KBool = Some boolCodec"
| "scalarCodec KInt8 = Some (intCodec 1)"
| "scalarCodec KUint8 = Some (uintCodec 1)"
| "scalarCodec KInt16 = Some (intCodec 2)"
| "scalarCodec KUint16 = Some (uintCodec 2)"
| "scalarCodec KInt32 = Some (intCodec 4)"
| "scalarCodec KUint32 = Some (uintCodec 4)"
| "scalarCodec KInt64 = Some (intCodec 8)"
| "scalarCodec KUint64 = Some (uintCodec 8)"
| "scalarCodec KFloat32 = Some float32Codec"
| "scalarCodec KFloat64 = Some float64Codec"
| "scalarCodec _ = None"

definition rejectKind :: "kind \<Rightarrow> werror" where
  "rejectKind k =
     (if k \<in> {KInt, KUint, KUintptr} then NotPortable k
      else if k \<in> {KComplex64, KComplex128} then ComplexUnsupported
      else UnsupportedKind k)"

subsection \<open>Composite codecs\<close>

text \<open>\<open>encFields\<close> and \<open>decFields\<close> are the loops over the field entries of a struct; an array is the
  same loop over its indices.  \<open>decElems\<close> decodes into fresh zero values.\<close>

fun encFields :: "(nat \<times> valueCodec) list \<Rightarrow> bytes \<Rightarrow> rval list \<Rightarrow> bytes" where
  "encFields [] dst vs = dst"
| "encFields ((i, c) # fs) dst vs = encFields fs (enc c dst (vs ! i)) vs"

fun decFields :: "(nat \<times> valueCodec) list \<Rightarrow> bytes \<Rightarrow> rval list \<Rightarrow> werror + bytes \<times> rval list" where
  "decFields [] data vs = Inr (data, vs)"
| "decFields ((i, c) # fs) data vs =
     bindE (dec c data (vs ! i)) (\<lambda>(data, x). decFields fs data (vs[i := x]))"

fun encElems :: "valueCodec \<Rightarrow> bytes \<Rightarrow> rval list \<Rightarrow> bytes" where
  "encElems c dst [] = dst"
| "encElems c dst (v # vs) = encElems c (enc c dst v) vs"

fun decElems :: "valueCodec \<Rightarrow> rval \<Rightarrow> nat \<Rightarrow> bytes \<Rightarrow> werror + bytes \<times> rval list" where
  "decElems c z 0 data = Inr (data, [])"
| "decElems c z (Suc n) data =
     bindE (dec c data z) (\<lambda>(data, x).
     bindE (decElems c z n data) (\<lambda>(data, xs). Inr (data, x # xs)))"

definition structCodec :: "(nat \<times> valueCodec) list \<Rightarrow> valueCodec" where
  "structCodec fs = \<lparr>
     enc = \<lambda>dst v. case v of VStruct vs \<Rightarrow> encFields fs dst vs | _ \<Rightarrow> dst,
     dec = \<lambda>data v. case v of
         VStruct vs \<Rightarrow> bindE (decFields fs data vs) (\<lambda>(data, vs). Inr (data, VStruct vs))
       | _ \<Rightarrow> Inl ReflectPanic,
     minSize = (\<Sum>e\<leftarrow>fs. minSize (snd e)) \<rparr>"

definition pointerCodec :: "valueCodec \<Rightarrow> rval \<Rightarrow> valueCodec" where
  "pointerCodec ec z = \<lparr>
     enc = \<lambda>dst v. case v of
         VPtr x \<Rightarrow> enc ec (dst @ [1]) x
       | VNil \<Rightarrow> dst @ [0]
       | _ \<Rightarrow> dst,
     dec = \<lambda>data v. case data of
         [] \<Rightarrow> Inl TruncatedPresence
       | present # data \<Rightarrow>
           if present = 0 then Inr (data, VNil)
           else if present = 1 then bindE (dec ec data z) (\<lambda>(rest, x). Inr (rest, VPtr x))
           else Inl (InvalidPresence present),
     minSize = 1 \<rparr>"

definition sliceCodec :: "valueCodec \<Rightarrow> rval \<Rightarrow> valueCodec" where
  "sliceCodec ec z = \<lparr>
     enc = \<lambda>dst v. case v of
         VSlice vs \<Rightarrow> encElems ec (AppendUvarint dst (length vs)) vs
       | VNil \<Rightarrow> AppendUvarint dst 0
       | _ \<Rightarrow> dst,
     dec = \<lambda>data v.
       bindE (readCount data (minSize ec)) (\<lambda>(n, rest).
       bindE (decElems ec z n rest) (\<lambda>(rest, vs). Inr (rest, VSlice vs))),
     minSize = 1 \<rparr>"

definition arrayCodec :: "nat \<Rightarrow> valueCodec \<Rightarrow> valueCodec" where
  "arrayCodec n ec = (let fs = map (\<lambda>i. (i, ec)) [0..<n] in \<lparr>
     enc = \<lambda>dst v. case v of VArray vs \<Rightarrow> encFields fs dst vs | _ \<Rightarrow> dst,
     dec = \<lambda>data v. case v of
         VArray vs \<Rightarrow> bindE (decFields fs data vs) (\<lambda>(data, vs). Inr (data, VArray vs))
       | _ \<Rightarrow> Inl ReflectPanic,
     minSize = n * minSize ec \<rparr>)"

text \<open>Go's \<open>==\<close> on decoded map keys.\<close>

fun go_eq :: "rval \<Rightarrow> rval \<Rightarrow> bool" and go_eqs :: "rval list \<Rightarrow> rval list \<Rightarrow> bool" where
  "go_eq (VFloat32 a) y =
     (case y of
        VFloat32 b \<Rightarrow> \<not> isNaN32 a \<and> \<not> isNaN32 b \<and> (a = b \<or> (a OR b) AND 0x7FFFFFFF = 0)
      | _ \<Rightarrow> False)"
| "go_eq (VFloat64 a) y =
     (case y of
        VFloat64 b \<Rightarrow>
          \<not> isNaN64 a \<and> \<not> isNaN64 b \<and> (a = b \<or> (a OR b) AND 0x7FFFFFFFFFFFFFFF = 0)
      | _ \<Rightarrow> False)"
| "go_eq (VArray xs) y = (case y of VArray ys \<Rightarrow> go_eqs xs ys | _ \<Rightarrow> False)"
| "go_eq (VStruct xs) y = (case y of VStruct ys \<Rightarrow> go_eqs xs ys | _ \<Rightarrow> False)"
| "go_eq (VPtr x) y = False"
| "go_eq x y = (x = y)"
| "go_eqs [] ys = (ys = [])"
| "go_eqs (x # xs) ys = (case ys of [] \<Rightarrow> False | y # ys \<Rightarrow> go_eq x y \<and> go_eqs xs ys)"

fun SetMapIndex :: "(rval \<times> rval) list \<Rightarrow> rval \<Rightarrow> rval \<Rightarrow> (rval \<times> rval) list" where
  "SetMapIndex [] k v = [(k, v)]"
| "SetMapIndex ((k', v') # m) k v =
     (if go_eq k' k then (k', v) # m else (k', v') # SetMapIndex m k v)"

definition encodeMap ::
  "bytes \<Rightarrow> (rval \<times> rval) list \<Rightarrow> valueCodec \<Rightarrow> valueCodec \<Rightarrow> bytes" where
  "encodeMap dst kvs keyCodec valCodec =
     (let entries = map (\<lambda>(k, v). (enc keyCodec [] k, enc valCodec [] v)) kvs;
          entries = sort_key fst entries;
          dst = AppendUvarint dst (length entries)
      in dst @ concat (map (\<lambda>(k, v). k @ v) entries))"

fun decEntries ::
  "valueCodec \<Rightarrow> rval \<Rightarrow> valueCodec \<Rightarrow> rval \<Rightarrow> nat \<Rightarrow> bytes \<Rightarrow> (rval \<times> rval) list
   \<Rightarrow> werror + bytes \<times> (rval \<times> rval) list" where
  "decEntries kc kz vc vz 0 rest m = Inr (rest, m)"
| "decEntries kc kz vc vz (Suc n) rest m =
     bindE (dec kc rest kz) (\<lambda>(rest, key).
     bindE (dec vc rest vz) (\<lambda>(rest, val).
       decEntries kc kz vc vz n rest (SetMapIndex m key val)))"

definition decodeMap ::
  "bytes \<Rightarrow> valueCodec \<Rightarrow> rval \<Rightarrow> valueCodec \<Rightarrow> rval \<Rightarrow> nat \<Rightarrow> werror + bytes \<times> rval" where
  "decodeMap data keyCodec kz valCodec vz entryMin =
     bindE (readCount data entryMin) (\<lambda>(n, rest).
     bindE (decEntries keyCodec kz valCodec vz n rest []) (\<lambda>(rest, m). Inr (rest, VMap m)))"

definition mapCodec :: "valueCodec \<Rightarrow> rval \<Rightarrow> valueCodec \<Rightarrow> rval \<Rightarrow> valueCodec" where
  "mapCodec keyCodec kz valCodec vz = \<lparr>
     enc = \<lambda>dst v. case v of
         VMap kvs \<Rightarrow> encodeMap dst kvs keyCodec valCodec
       | VNil \<Rightarrow> encodeMap dst [] keyCodec valCodec
       | _ \<Rightarrow> dst,
     dec = \<lambda>data v. decodeMap data keyCodec kz valCodec vz (minSize keyCodec + minSize valCodec),
     minSize = 1 \<rparr>"

subsection \<open>The plan compiler\<close>

fun zeroScalar :: "kind \<Rightarrow> rval" where
  "zeroScalar KBool = VBool False"
| "zeroScalar KFloat32 = VFloat32 0"
| "zeroScalar KFloat64 = VFloat64 0"
| "zeroScalar KString = VString []"
| "zeroScalar k =
     (if k \<in> {KInt, KInt8, KInt16, KInt32, KInt64} then VInt 0
      else if k \<in> {KUint, KUint8, KUint16, KUint32, KUint64, KUintptr} then VUint 0
      else if k \<in> {KComplex64, KComplex128} then VArray [VFloat64 0, VFloat64 0]
      else VNil)"

fun zeroValue :: "rtype \<Rightarrow> rval" and zeroFields :: "rfield list \<Rightarrow> rval list" where
  "zeroValue (RBasic k) = zeroScalar k"
| "zeroValue (RArray n t) = VArray (replicate n (zeroValue t))"
| "zeroValue (RStruct fs) = VStruct (zeroFields fs)"
| "zeroValue _ = VNil"
| "zeroFields [] = []"
| "zeroFields (RField nm pk tg t # fs) = zeroValue t # zeroFields fs"

definition onWire :: "string \<Rightarrow> string \<Rightarrow> bool" where
  "onWire pk tg \<longleftrightarrow> pk = [] \<and> tg \<noteq> ''-''"

fun compile :: "rtype \<Rightarrow> werror + valueCodec"
and compileFields :: "nat \<Rightarrow> rfield list \<Rightarrow> werror + (nat \<times> valueCodec) list" where
  "compile (RBasic k) =
     (case scalarCodec k of
        Some vc \<Rightarrow> Inr vc
      | None \<Rightarrow> if k = KString then Inr stringCodec else Inl (rejectKind k))"
| "compile (RSlice t) =
     (if Kind t = KUint8 then Inr bytesCodec
      else bindE (compile t) (\<lambda>ec. Inr (sliceCodec ec (zeroValue t))))"
| "compile (RArray n t) =
     (case scalarCodec (Kind t) of
        None \<Rightarrow> Inl (ArrayOf (Kind t))
      | Some ec \<Rightarrow> Inr (arrayCodec n ec))"
| "compile (RMap kt vt) =
     bindE (mapErr InMapKey (compile kt)) (\<lambda>kc.
     bindE (mapErr InMapValue (compile vt)) (\<lambda>vc.
       Inr (mapCodec kc (zeroValue kt) vc (zeroValue vt))))"
| "compile (RStruct fs) = bindE (compileFields 0 fs) (\<lambda>es. Inr (structCodec es))"
| "compile (RPointer t) =
     (if Kind t \<noteq> KStruct then Inl (PointerTo (Kind t))
      else bindE (compile t) (\<lambda>ec. Inr (pointerCodec ec (zeroValue t))))"
| "compileFields i [] = Inr []"
| "compileFields i (RField nm pk tg t # fs) =
     (if \<not> onWire pk tg then compileFields (i + 1) fs
      else bindE (mapErr (InField nm) (compile t)) (\<lambda>fc.
           bindE (compileFields (i + 1) fs) (\<lambda>es. Inr ((i, fc) # es))))"

text \<open>The plan cache, and the two entry points on a message of type \<open>t\<close>.\<close>

type_synonym planCache = "rtype \<rightharpoonup> werror + valueCodec"

definition wirePlanFor :: "planCache \<Rightarrow> rtype \<Rightarrow> (werror + valueCodec) \<times> planCache" where
  "wirePlanFor plans t =
     (case plans t of
        Some res \<Rightarrow> (res, plans)
      | None \<Rightarrow> (let res = compile t in (res, plans(t \<mapsto> res))))"

definition wc_Marshal :: "planCache \<Rightarrow> rtype \<Rightarrow> rval \<Rightarrow> (werror + bytes) \<times> planCache" where
  "wc_Marshal plans t m =
     (case t of
        RPointer elem \<Rightarrow>
          (case m of
             VPtr x \<Rightarrow>
               if Kind elem \<noteq> KStruct then (Inl (NotPointerToStruct (Kind elem)), plans)
               else let (plan, plans) = wirePlanFor plans elem
                    in (bindE plan (\<lambda>plan. Inr (enc plan [] x)), plans)
           | _ \<Rightarrow> (Inl NilMessage, plans))
      | _ \<Rightarrow> (Inl (NotPointerToStruct (Kind t)), plans))"

definition wc_Unmarshal :: "planCache \<Rightarrow> rtype \<Rightarrow> bytes \<Rightarrow> (werror + rval) \<times> planCache" where
  "wc_Unmarshal plans t data =
     (case t of
        RPointer elem \<Rightarrow>
          if Kind elem \<noteq> KStruct then (Inl (NotPointerToStruct (Kind elem)), plans)
          else let (plan, plans) = wirePlanFor plans elem
               in (bindE plan (\<lambda>plan.
                   bindE (dec plan data (zeroValue elem)) (\<lambda>(rest, x).
                     if length rest \<noteq> 0 then Inl (TrailingBytes (length rest))
                     else Inr (VPtr x))), plans)
      | _ \<Rightarrow> (Inl (NotPointerToStruct (Kind t)), plans))"

end
