(* ===== verification/WireCodec_Laws.thy ===== *)
theory WireCodec_Laws
  imports WireCodec
begin

text \<open>
  The laws of the reflective codec: the contract of a \<open>valueCodec\<close> as two locales, the codecs of
  the scalars, strings and byte slices as their interpretations, and the proof that every way the
  plan compiler combines codecs keeps the contract.
\<close>

subsection \<open>Unsigned varints\<close>

lemma AppendUvarint_append: "AppendUvarint dst x = dst @ AppendUvarint [] x"
proof (induction x arbitrary: dst rule: less_induct)
  case (less x)
  show ?case
  proof (cases "x \<ge> 128")
    case True
    then have "x div 128 < x" by simp
    then show ?thesis
      using True less.IH [of "x div 128" "dst @ [word_of_nat (x mod 128 + 128)]"]
        less.IH [of "x div 128" "[word_of_nat (x mod 128 + 128)]"]
      by (simp add: AppendUvarint.simps [of dst x] AppendUvarint.simps [of "[]" x])
  qed (simp add: AppendUvarint.simps [of _ x])
qed

lemma AppendUvarint_rec:
  "AppendUvarint [] x =
     (if x \<ge> 128 then word_of_nat (x mod 128 + 128) # AppendUvarint [] (x div 128)
      else [word_of_nat x])"
  using AppendUvarint_append [of "[word_of_nat (x mod 128 + 128)]" "x div 128"]
  by (simp add: AppendUvarint.simps [of "[]" x])

lemma AppendUvarint_nonempty: "1 \<le> length (AppendUvarint [] x)"
  by (subst AppendUvarint_rec) simp

lemma AppendUvarint_ne [simp]: "AppendUvarint [] x \<noteq> []"
  using AppendUvarint_nonempty [of x] by auto

lemma unat_byte: "n < 256 \<Longrightarrow> unat (word_of_nat n :: byte) = n"
  by (simp add: unat_of_nat take_bit_nat_eq_self)

text \<open>The reader's accumulator: after \<open>i\<close> bytes, what is left of the number is below
  \<open>2 ^ (64 - 7 i)\<close>, so the ten bytes are enough.\<close>

lemma uvarintLoop_put:
  assumes "i < 10" "n < 2 ^ (64 - 7 * i)"
  shows "uvarintLoop i s x (AppendUvarint [] n @ r) =
    (x + n * 2 ^ s, int i + int (length (AppendUvarint [] n)))"
  using assms
proof (induction n arbitrary: i s x rule: less_induct)
  case (less n)
  show ?case
  proof (cases "n < 128")
    case True
    have "i = 9 \<Longrightarrow> n < 2" using less.prems by simp
    with True less.prems show ?thesis
      by (subst (1 2) AppendUvarint_rec) (auto simp: unat_byte MaxVarintLen64_def)
  next
    case False
    have i: "i < 9"
    proof (rule ccontr)
      assume "\<not> i < 9"
      with less.prems have "i = 9" by simp
      with less.prems(2) False show False by simp
    qed
    have e: "64 - 7 * i = 7 + (64 - 7 * (i + 1))" using i by simp
    have "(128::nat) = 2 ^ 7" by simp
    then have q: "(2::nat) ^ (64 - 7 * i) = 128 * 2 ^ (64 - 7 * (i + 1))"
      by (metis e power_add)
    have "n < 128 * 2 ^ (64 - 7 * (i + 1))" using less.prems(2) unfolding q .
    then have lt: "n div 128 < 2 ^ (64 - 7 * (i + 1))"
      by (simp add: less_mult_imp_div_less mult.commute)
    have b: "unat (word_of_nat (n mod 128 + 128) :: byte) = n mod 128 + 128"
      by (rule unat_byte) (use mod_less_divisor [of 128 n] in linarith)
    have "uvarintLoop (i + 1) (s + 7) (x + n mod 128 * 2 ^ s) (AppendUvarint [] (n div 128) @ r) =
        (x + n mod 128 * 2 ^ s + n div 128 * 2 ^ (s + 7),
         int (i + 1) + int (length (AppendUvarint [] (n div 128))))"
      using False i lt by (intro less.IH) simp_all
    moreover have "n mod 128 * 2 ^ s + n div 128 * 2 ^ (s + 7) = n * 2 ^ s"
    proof -
      have "m * 2 ^ s + q * 2 ^ (s + 7) = (m + q * 128) * 2 ^ s" for m q :: nat
        by (simp add: power_add distrib_right)
      then show ?thesis by (simp only: mod_div_mult_eq)
    qed
    ultimately show ?thesis
      using False i b by (subst (1 2) AppendUvarint_rec) (simp add: MaxVarintLen64_def)
  qed
qed

lemma Uvarint_put:
  "n < 2 ^ 64 \<Longrightarrow> Uvarint (AppendUvarint [] n @ r) = (n, int (length (AppendUvarint [] n)))"
  by (simp add: Uvarint_def uvarintLoop_put)

text \<open>A successful read stays within the buffer.\<close>

lemma uvarintLoop_le: "uvarintLoop i s x bs = (n, w) \<Longrightarrow> 0 < w \<Longrightarrow> int i < w \<and> w \<le> int i + int (length bs)"
  by (induction i s x bs rule: uvarintLoop.induct) (force split: if_splits)+

lemma Uvarint_le: "Uvarint data = (n, w) \<Longrightarrow> 0 < w \<Longrightarrow> 1 \<le> nat w \<and> nat w \<le> length data"
  using uvarintLoop_le [of 0 0 0 data n w] by (simp add: Uvarint_def) arith

lemma readCount_put:
  assumes "n < 2 ^ 64" "if elemMin > 0 then n * elemMin \<le> length r else n \<le> maxZeroSizeCount"
  shows "readCount (AppendUvarint [] n @ r) elemMin = Inr (n, r)"
proof -
  have "\<not> n > length r div elemMin" if "elemMin > 0"
    using assms(2) that by (simp add: less_eq_div_iff_mult_less_eq not_less)
  then show ?thesis
    using assms AppendUvarint_nonempty [of n]
    by (cases "elemMin = 0") (simp_all add: readCount_def Uvarint_put Let_def)
qed

lemma readRaw_put:
  assumes "length b < 2 ^ 64"
  shows "readRaw (AppendUvarint [] (length b) @ b @ r) =
    Inr (if b = [] then None else Some b, r)"
  using assms AppendUvarint_nonempty [of "length b"]
  by (simp add: readRaw_def Uvarint_put Let_def)

lemma readCount_consumes:
  assumes "readCount data m = Inr (n, rest)"
  shows "\<exists>used. data = used @ rest \<and> 1 \<le> length used"
    and "m > 0 \<Longrightarrow> n * m \<le> length rest" and "m = 0 \<Longrightarrow> n \<le> maxZeroSizeCount"
proof -
  obtain k w where u: "Uvarint data = (k, w)" by (cases "Uvarint data")
  with assms have w: "0 < w" and rest: "rest = drop (nat w) data" and k: "n = k"
    by (auto simp: readCount_def Let_def split: if_splits)
  show "\<exists>used. data = used @ rest \<and> 1 \<le> length used"
    using Uvarint_le [OF u w] by (intro exI [of _ "take (nat w) data"]) (simp add: rest)
  show "n * m \<le> length rest" if "m > 0"
    using assms u w that
    by (auto simp: readCount_def Let_def k less_eq_div_iff_mult_less_eq not_less split: if_splits)
  show "n \<le> maxZeroSizeCount" if "m = 0"
    using assms u w that by (auto simp: readCount_def Let_def split: if_splits)
qed

lemma readRaw_consumes:
  assumes "readRaw data = Inr (b, rest)"
  shows "\<exists>used. data = used @ rest \<and> 1 \<le> length used"
proof -
  obtain k w where u: "Uvarint data = (k, w)" by (cases "Uvarint data")
  with assms have w: "0 < w" and k: "k \<le> length (drop (nat w) data)"
    and rest: "rest = drop (nat w + k) data"
    by (auto simp: readRaw_def Let_def add.commute split: if_splits)
  show ?thesis
    using Uvarint_le [OF u w] k
    by (intro exI [of _ "take (nat w + k) data"]) (simp add: rest)
qed

text \<open>Bytes that follow do not change what is read.\<close>

lemma uvarintLoop_extend:
  "uvarintLoop i s x bs = (n, w) \<Longrightarrow> 0 < w \<Longrightarrow> uvarintLoop i s x (bs @ t) = (n, w)"
  by (induction i s x bs rule: uvarintLoop.induct) (auto split: if_splits)

lemma Uvarint_extend: "Uvarint data = (n, w) \<Longrightarrow> 0 < w \<Longrightarrow> Uvarint (data @ t) = (n, w)"
  by (simp add: Uvarint_def uvarintLoop_extend)

lemma readCount_extend:
  assumes "readCount data m = Inr (n, rest)"
  shows "readCount (data @ t) m = Inr (n, rest @ t)"
proof -
  obtain k w where u: "Uvarint data = (k, w)" by (cases "Uvarint data")
  with assms have w: "0 < w" and rest: "rest = drop (nat w) data" and k: "n = k"
    and fits: "m > 0 \<Longrightarrow> n \<le> length rest div m" "m = 0 \<Longrightarrow> n \<le> maxZeroSizeCount"
    by (auto simp: readCount_def Let_def split: if_splits)
  have "length rest div m \<le> length (rest @ t) div m" by (simp add: div_le_mono)
  then have "m > 0 \<Longrightarrow> \<not> length (rest @ t) div m < n" using fits(1) by simp
  moreover have "drop (nat w) (data @ t) = rest @ t"
    using Uvarint_le [OF u w] rest by simp
  ultimately show ?thesis
    using Uvarint_extend [OF u w, of t] fits(2) w
    by (cases "m = 0") (simp_all add: readCount_def Let_def k not_less del: length_append)
qed

lemma readRaw_extend:
  assumes "readRaw data = Inr (b, rest)"
  shows "readRaw (data @ t) = Inr (b, rest @ t)"
proof -
  obtain k w where u: "Uvarint data = (k, w)" by (cases "Uvarint data")
  with assms have w: "0 < w" and k: "k \<le> length (drop (nat w) data)"
    by (auto simp: readRaw_def Let_def split: if_splits)
  with assms show ?thesis
    using Uvarint_extend [OF u w, of t] Uvarint_le [OF u w]
    by (auto simp: readRaw_def u Let_def split: if_splits)
qed

subsection \<open>The contract of a value codec\<close>

text \<open>A decoder takes its bytes off the front of the input, no fewer than its minimum, and does not
  look at what follows them.\<close>

locale value_decoder =
  fixes c :: valueCodec
  assumes dec_consumes:
    "dec c data v0 = Inr (rest, v) \<Longrightarrow> \<exists>used. data = used @ rest \<and> minSize c \<le> length used"
    and dec_extend: "dec c data v0 = Inr (rest, v) \<Longrightarrow> dec c (data @ t) v0 = Inr (rest @ t, v)"
begin

lemma decElems_extend:
  "decElems c z n data = Inr (rest, vs) \<Longrightarrow> decElems c z n (data @ t) = Inr (rest @ t, vs)"
proof (induction n arbitrary: data vs)
  case (Suc n)
  from Suc.prems obtain mid x xs where d: "dec c data z = Inr (mid, x)"
    and e: "decElems c z n mid = Inr (rest, xs)" and vs: "vs = x # xs"
    by (auto simp: bindE_Inr_iff)
  show ?case
    using dec_extend [OF d, of t] Suc.IH [OF e] vs by simp
qed simp

lemma decElems_consumes:
  "decElems c z n data = Inr (rest, vs) \<Longrightarrow>
     length vs = n \<and> (\<exists>used. data = used @ rest \<and> n * minSize c \<le> length used)"
proof (induction n arbitrary: data vs)
  case (Suc n)
  from Suc.prems obtain mid x xs where d: "dec c data z = Inr (mid, x)"
    and e: "decElems c z n mid = Inr (rest, xs)" and vs: "vs = x # xs"
    by (auto simp: bindE_Inr_iff)
  from dec_consumes [OF d] obtain u where u: "data = u @ mid" "minSize c \<le> length u" by blast
  from Suc.IH [OF e] obtain u' where "mid = u' @ rest" "n * minSize c \<le> length u'" "length xs = n"
    by blast
  then show ?case
    using u vs by (auto intro!: exI [of _ "u @ u'"])
qed simp

end

text \<open>An encoder appends; the decoder, started on the zero value \<open>z\<close>, reads back the wire normal
  form \<open>nrm v\<close> of every value \<open>v\<close> that satisfies \<open>ok\<close>.\<close>

locale value_codec = value_decoder c for c :: valueCodec +
  fixes ok :: "rval \<Rightarrow> bool"
    and nrm :: "rval \<Rightarrow> rval"
    and z :: rval
  assumes enc_append: "ok v \<Longrightarrow> enc c dst v = dst @ enc c [] v"
    and dec_enc: "ok v \<Longrightarrow> dec c (enc c [] v @ r) z = Inr (r, nrm v)"
begin

lemma min_enc:
  assumes "ok v"
  shows "minSize c \<le> length (enc c [] v)"
  using dec_consumes [OF dec_enc [OF assms, of "[]"]] by simp

text \<open>The encoding of a value is never the beginning of another's.\<close>

lemma enc_prefix_free:
  assumes "ok v" "ok v'" "enc c [] v @ r = enc c [] v' @ r'"
  shows "nrm v = nrm v' \<and> r = r'"
  using dec_enc [OF assms(1), of r] dec_enc [OF assms(2), of r'] assms(3) by simp

lemma encElems_concat:
  "list_all ok vs \<Longrightarrow> encElems c dst vs = dst @ concat (map (enc c []) vs)"
proof (induction vs arbitrary: dst)
  case (Cons v vs)
  then show ?case
    using enc_append [of v dst] by simp
qed simp

lemma decElems_enc:
  "list_all ok vs \<Longrightarrow>
     decElems c z (length vs) (concat (map (enc c []) vs) @ r) = Inr (r, map nrm vs)"
  by (induction vs) (simp_all add: dec_enc)

lemma min_elems: "list_all ok vs \<Longrightarrow> length vs * minSize c \<le> length (concat (map (enc c []) vs))"
  by (induction vs) (use min_enc in \<open>auto intro: add_mono\<close>)

end

subsection \<open>The contract of the scalars, strings and byte slices\<close>

lemma fixedCodec_consumes: "value_decoder (fixedCodec n put get)"
proof
  fix data v0 rest v
  assume "dec (fixedCodec n put get) data v0 = Inr (rest, v)"
  then show "\<exists>used. data = used @ rest \<and> minSize (fixedCodec n put get) \<le> length used"
    by (intro exI [of _ "take n data"]) (auto simp: fixedCodec_def split: if_splits)
qed (auto simp: fixedCodec_def split: if_splits)

lemma fixedCodec_contract:
  assumes "\<And>v dst. ok v \<Longrightarrow> put dst v = dst @ put [] v"
    and "\<And>v. ok v \<Longrightarrow> length (put [] v) = n"
    and "\<And>v. ok v \<Longrightarrow> get (put [] v) = nrm v"
  shows "value_codec (fixedCodec n put get) ok nrm z"
proof (rule value_codec.intro [OF fixedCodec_consumes], rule value_codec_axioms.intro)
  fix v dst r
  assume "ok v"
  then show "enc (fixedCodec n put get) dst v = dst @ enc (fixedCodec n put get) [] v"
    and "dec (fixedCodec n put get) (enc (fixedCodec n put get) [] v @ r) z = Inr (r, nrm v)"
    using assms(1) [of v dst] assms(2,3) [of v] by (simp_all add: fixedCodec_def)
qed

lemma pow256: "(256 :: nat) ^ n = 2 ^ (8 * n)"
  by (simp add: power_mult)

lemma toUnsigned_less: "toUnsigned n i < 2 ^ (8 * n)"
  by (simp add: toUnsigned_def nat_less_iff)

lemma toSigned_toUnsigned:
  assumes "0 < n" "- (2 ^ (8 * n - 1)) \<le> i" "i < 2 ^ (8 * n - 1)"
  shows "toSigned n (toUnsigned n i) = i"
proof -
  have p: "(2 :: int) ^ (8 * n) = 2 * 2 ^ (8 * n - 1)"
    using assms(1) by (simp flip: power_Suc)
  show ?thesis
  proof (cases "0 \<le> i")
    case True
    then have "i mod 2 ^ (8 * n) = i" using assms(3) p by (intro mod_pos_pos_trivial) auto
    then show ?thesis
      using True assms(3) by (simp add: toSigned_def toUnsigned_def nat_less_iff)
  next
    case False
    have "i mod 2 ^ (8 * n) = (i + 2 ^ (8 * n)) mod 2 ^ (8 * n)" by simp
    also have "\<dots> = i + 2 ^ (8 * n)"
      using False assms(2) p by (intro mod_pos_pos_trivial) auto
    finally have m: "i mod 2 ^ (8 * n) = i + 2 ^ (8 * n)" .
    have pos: "0 \<le> i + 2 ^ (8 * n)"
      using assms(2) p zero_le_power [of "2 :: int" "8 * n - 1"] by linarith
    moreover have "\<not> nat (i + 2 ^ (8 * n)) < 2 ^ (8 * n - 1)"
      using assms(2) p pos by (simp add: nat_less_iff)
    ultimately show ?thesis
      by (simp add: toSigned_def toUnsigned_def m)
  qed
qed

definition intOk :: "nat \<Rightarrow> rval \<Rightarrow> bool" where
  "intOk n v = (case v of VInt i \<Rightarrow> - (2 ^ (8 * n - 1)) \<le> i \<and> i < 2 ^ (8 * n - 1) | _ \<Rightarrow> False)"

definition uintOk :: "nat \<Rightarrow> rval \<Rightarrow> bool" where
  "uintOk n v = (case v of VUint u \<Rightarrow> u < 2 ^ (8 * n) | _ \<Rightarrow> False)"

definition boolOk :: "rval \<Rightarrow> bool" where
  "boolOk v = (case v of VBool _ \<Rightarrow> True | _ \<Rightarrow> False)"

definition f32Ok :: "rval \<Rightarrow> bool" where
  "f32Ok v = (case v of VFloat32 _ \<Rightarrow> True | _ \<Rightarrow> False)"

definition f32Norm :: "rval \<Rightarrow> rval" where
  "f32Norm v = (case v of VFloat32 b \<Rightarrow> VFloat32 (via64 b) | _ \<Rightarrow> v)"

definition f64Ok :: "rval \<Rightarrow> bool" where
  "f64Ok v = (case v of VFloat64 _ \<Rightarrow> True | _ \<Rightarrow> False)"

definition stringOk :: "rval \<Rightarrow> bool" where
  "stringOk v = (case v of VString s \<Rightarrow> length s < 2 ^ 64 | _ \<Rightarrow> False)"

definition bytesOk :: "rval \<Rightarrow> bool" where
  "bytesOk v = (case v of VBytes s \<Rightarrow> length s < 2 ^ 64 | VNil \<Rightarrow> True | _ \<Rightarrow> False)"

definition bytesNorm :: "rval \<Rightarrow> rval" where
  "bytesNorm v = (if v = VBytes [] then VNil else v)"

lemma intCodec_contract: "0 < n \<Longrightarrow> value_codec (intCodec n) (intOk n) (\<lambda>v. v) z"
  unfolding intCodec_def
  by (rule fixedCodec_contract)
    (auto simp: intOk_def le_get_put pow256 toUnsigned_less toSigned_toUnsigned split: rval.splits)

lemma uintCodec_contract: "value_codec (uintCodec n) (uintOk n) (\<lambda>v. v) z"
  unfolding uintCodec_def
  by (rule fixedCodec_contract) (auto simp: uintOk_def le_get_put pow256 split: rval.splits)

lemma via64_idem [simp]: "via64 (via64 b) = via64 b"
  by (simp add: via64_def or.assoc)

lemma le_get_put_word32: "word_of_nat (le_get (le_put 4 (unat v))) = (v :: uint32)"
  by (rule le_get_put_word) simp

lemma le_get_put_word64: "word_of_nat (le_get (le_put 8 (unat v))) = (v :: uint64)"
  by (rule le_get_put_word) simp

lemma boolCodec_contract: "value_codec boolCodec boolOk (\<lambda>v. v) z"
  unfolding boolCodec_def
  by (rule fixedCodec_contract) (auto simp: boolOk_def split: rval.splits)

interpretation boolC: value_codec boolCodec boolOk "\<lambda>v. v" "VBool False"
  by (rule boolCodec_contract)

lemma float32Codec_contract: "value_codec float32Codec f32Ok f32Norm z"
  unfolding float32Codec_def
  by (rule fixedCodec_contract)
    (auto simp: f32Ok_def f32Norm_def le_get_put_word32 split: rval.splits)

interpretation f32C: value_codec float32Codec f32Ok f32Norm "VFloat32 0"
  by (rule float32Codec_contract)

lemma float64Codec_contract: "value_codec float64Codec f64Ok (\<lambda>v. v) z"
  unfolding float64Codec_def
  by (rule fixedCodec_contract)
    (auto simp: f64Ok_def le_get_put_word64 split: rval.splits)

interpretation f64C: value_codec float64Codec f64Ok "\<lambda>v. v" "VFloat64 0"
  by (rule float64Codec_contract)

interpretation strC: value_codec stringCodec stringOk "\<lambda>v. v" "VString []"
proof
  show "\<exists>used. data = used @ rest \<and> minSize stringCodec \<le> length used"
    if "dec stringCodec data v0 = Inr (rest, v)" for data v0 rest v
    using that readRaw_consumes [of data _ rest]
    by (auto simp: stringCodec_def bindE_Inr_iff split: prod.splits)
  show "dec stringCodec (data @ t) v0 = Inr (rest @ t, v)"
    if "dec stringCodec data v0 = Inr (rest, v)" for data v0 rest v t
    using that readRaw_extend [of data _ rest t]
    by (auto simp: stringCodec_def bindE_Inr_iff split: prod.splits)
  fix v dst r
  assume ok: "stringOk v"
  then show "enc stringCodec dst v = dst @ enc stringCodec [] v"
    using AppendUvarint_append [of dst]
    by (auto simp: stringOk_def stringCodec_def split: rval.splits)
  show "dec stringCodec (enc stringCodec [] v @ r) (VString []) = Inr (r, v)"
    using ok by (auto simp: stringOk_def stringCodec_def readRaw_put split: rval.splits)
qed

interpretation bytC: value_codec bytesCodec bytesOk bytesNorm VNil
proof
  show "\<exists>used. data = used @ rest \<and> minSize bytesCodec \<le> length used"
    if "dec bytesCodec data v0 = Inr (rest, v)" for data v0 rest v
    using that readRaw_consumes [of data _ rest]
    by (auto simp: bytesCodec_def bindE_Inr_iff split: prod.splits)
  show "dec bytesCodec (data @ t) v0 = Inr (rest @ t, v)"
    if "dec bytesCodec data v0 = Inr (rest, v)" for data v0 rest v t
    using that readRaw_extend [of data _ rest t]
    by (auto simp: bytesCodec_def bindE_Inr_iff split: prod.splits)
  fix v dst r
  assume ok: "bytesOk v"
  then show "enc bytesCodec dst v = dst @ enc bytesCodec [] v"
    using AppendUvarint_append [of dst]
    by (auto simp: bytesOk_def bytesCodec_def split: rval.splits)
  show "dec bytesCodec (enc bytesCodec [] v @ r) VNil = Inr (r, bytesNorm v)"
    using ok readRaw_put [of "[]" r]
    by (auto simp: bytesOk_def bytesNorm_def bytesCodec_def readRaw_put split: rval.splits)
qed

subsection \<open>Structs and arrays\<close>

text \<open>\<open>field_entries i es ss\<close>: the entries \<open>es\<close> the compiler collected from index \<open>i\<close> on implement
  the specifications \<open>ss\<close>, one (admitted values, normal form, zero value) per field.  A field
  that is not on the wire has no entry: any value is admitted and its normal form is zero.\<close>

type_synonym fieldSpec = "(rval \<Rightarrow> bool) \<times> (rval \<Rightarrow> rval) \<times> rval"

inductive field_entries :: "nat \<Rightarrow> (nat \<times> valueCodec) list \<Rightarrow> fieldSpec list \<Rightarrow> bool" where
  no_fields: "field_entries i [] []"
| skipped: "field_entries (Suc i) es ss \<Longrightarrow> field_entries i es ((\<lambda>_. True, \<lambda>_. x, x) # ss)"
| encoded: "value_codec c ok nrm x \<Longrightarrow> field_entries (Suc i) es ss \<Longrightarrow>
    field_entries i ((i, c) # es) ((ok, nrm, x) # ss)"

definition admitted :: "fieldSpec list \<Rightarrow> rval list \<Rightarrow> bool" where
  "admitted ss vs = list_all2 (\<lambda>(ok, nrm, x) v. ok v) ss vs"

definition normals :: "fieldSpec list \<Rightarrow> rval list \<Rightarrow> rval list" where
  "normals ss vs = map2 (\<lambda>(ok, nrm, x) v. nrm v) ss vs"

definition zeros :: "fieldSpec list \<Rightarrow> rval list" where
  "zeros ss = map (\<lambda>(ok, nrm, x). x) ss"

lemma field_lists [simp]:
  "admitted [] vs \<longleftrightarrow> vs = []"
  "admitted ((ok, nrm, x) # ss) vs \<longleftrightarrow> (\<exists>v vs'. vs = v # vs' \<and> ok v \<and> admitted ss vs')"
  "normals [] vs = []"
  "normals ((ok, nrm, x) # ss) (v # vs) = nrm v # normals ss vs"
  "zeros [] = []"
  "zeros ((ok, nrm, x) # ss) = x # zeros ss"
  by (simp_all add: admitted_def normals_def zeros_def list_all2_Cons1)

lemma encFields_append:
  "field_entries i es ss \<Longrightarrow> admitted ss vs \<Longrightarrow> length pre = i \<Longrightarrow>
     encFields es dst (pre @ vs) = dst @ encFields es [] (pre @ vs)"
proof (induction i es ss arbitrary: pre vs dst rule: field_entries.induct)
  case (skipped i es ss x)
  then obtain v vs' where "vs = v # vs'" "admitted ss vs'" by auto
  then show ?case using skipped.IH [of vs' "pre @ [v]" dst] skipped.prems by simp
next
  case (encoded c ok nrm x i es ss)
  then obtain v vs' where vs: "vs = v # vs'" "ok v" "admitted ss vs'" by auto
  have "encFields es d (pre @ vs) = d @ encFields es [] (pre @ vs)" for d
    using encoded.IH [of vs' "pre @ [v]" d] encoded.prems vs by simp
  moreover have "enc c dst v = dst @ enc c [] v"
    using encoded.hyps(1) vs(2) by (rule value_codec.enc_append)
  ultimately show ?case
    using encoded.prems(2) vs(1) by (metis append.assoc encFields.simps(2) nth_append_length)
qed simp

lemma decFields_enc:
  "field_entries i es ss \<Longrightarrow> admitted ss vs \<Longrightarrow> length pre = i \<Longrightarrow> length pre' = i \<Longrightarrow>
     decFields es (encFields es [] (pre @ vs) @ r) (pre' @ zeros ss) = Inr (r, pre' @ normals ss vs)"
proof (induction i es ss arbitrary: pre pre' vs rule: field_entries.induct)
  case (skipped i es ss x)
  then obtain v vs' where "vs = v # vs'" "admitted ss vs'" by auto
  then show ?case using skipped.IH [of vs' "pre @ [v]" "pre' @ [x]"] skipped.prems by simp
next
  case (encoded c ok nrm x i es ss)
  then obtain v vs' where vs: "vs = v # vs'" "ok v" "admitted ss vs'" by auto
  let ?tail = "encFields es [] (pre @ vs)"
  have "encFields ((i, c) # es) [] (pre @ vs) = enc c [] v @ ?tail"
    using encFields_append [OF encoded.hyps(2) vs(3), of "pre @ [v]" "enc c [] v"] encoded.prems vs
    by (simp add: nth_append)
  moreover have "dec c (enc c [] v @ ?tail @ r) x = Inr (?tail @ r, nrm v)"
    using encoded.hyps(1) vs(2) by (rule value_codec.dec_enc)
  moreover have "decFields es (?tail @ r) (pre' @ nrm v # zeros ss) = Inr (r, pre' @ nrm v # normals ss vs')"
    using encoded.IH [of vs' "pre @ [v]" "pre' @ [nrm v]"] encoded.prems vs by simp
  ultimately show ?case
    using encoded.prems vs(1) by (simp add: nth_append list_update_append)
qed simp

lemma field_entries_decoders: "field_entries i es ss \<Longrightarrow> (j, c) \<in> set es \<Longrightarrow> value_decoder c"
  by (induction rule: field_entries.induct) (auto simp: value_codec_def)

lemma decFields_consumes:
  assumes "\<And>j c. (j, c) \<in> set es \<Longrightarrow> value_decoder c" "decFields es data vs = Inr (rest, vs')"
  shows "\<exists>used. data = used @ rest \<and> (\<Sum>e\<leftarrow>es. minSize (snd e)) \<le> length used"
  using assms
proof (induction es arbitrary: data vs)
  case (Cons e es)
  obtain i c where e: "e = (i, c)" by (cases e)
  with Cons.prems(2) obtain mid x where d: "dec c data (vs ! i) = Inr (mid, x)"
    and f: "decFields es mid (vs[i := x]) = Inr (rest, vs')"
    by (auto simp: bindE_Inr_iff)
  have "value_decoder c" using Cons.prems(1) [of i c] e by simp
  from value_decoder.dec_consumes [OF this d]
  obtain u where u: "data = u @ mid" "minSize c \<le> length u" by blast
  from Cons.IH [OF _ f] Cons.prems(1) obtain u' where
    "mid = u' @ rest" "(\<Sum>e\<leftarrow>es. minSize (snd e)) \<le> length u'" by fastforce
  then show ?case
    using u e by (auto intro!: exI [of _ "u @ u'"])
qed simp

lemma decFields_extend:
  assumes "\<And>j c. (j, c) \<in> set es \<Longrightarrow> value_decoder c" "decFields es data vs = Inr (rest, vs')"
  shows "decFields es (data @ t) vs = Inr (rest @ t, vs')"
  using assms
proof (induction es arbitrary: data vs)
  case (Cons e es)
  obtain i c where e: "e = (i, c)" by (cases e)
  with Cons.prems(2) obtain mid x where d: "dec c data (vs ! i) = Inr (mid, x)"
    and f: "decFields es mid (vs[i := x]) = Inr (rest, vs')"
    by (auto simp: bindE_Inr_iff)
  have "value_decoder c" using Cons.prems(1) [of i c] e by simp
  from value_decoder.dec_extend [OF this d]
  have "dec c (data @ t) (vs ! i) = Inr (mid @ t, x)" .
  moreover have "decFields es (mid @ t) (vs[i := x]) = Inr (rest @ t, vs')"
    by (rule Cons.IH [OF _ f]) (use Cons.prems(1) in auto)
  ultimately show ?case using e by simp
qed simp

definition structOk :: "(rval list \<Rightarrow> bool) \<Rightarrow> rval \<Rightarrow> bool" where
  "structOk ok v = (case v of VStruct vs \<Rightarrow> ok vs | _ \<Rightarrow> False)"

definition structNorm :: "(rval list \<Rightarrow> rval list) \<Rightarrow> rval \<Rightarrow> rval" where
  "structNorm nrm v = (case v of VStruct vs \<Rightarrow> VStruct (nrm vs) | _ \<Rightarrow> v)"

lemma structCodec_contract:
  assumes "field_entries 0 es ss"
  shows "value_codec (structCodec es) (structOk (admitted ss)) (structNorm (normals ss))
    (VStruct (zeros ss))"
proof
  show "\<exists>used. data = used @ rest \<and> minSize (structCodec es) \<le> length used"
    if "dec (structCodec es) data v0 = Inr (rest, v)" for data v0 rest v
    using that decFields_consumes [of es data _ rest] field_entries_decoders [OF assms]
    by (auto simp: structCodec_def bindE_Inr_iff split: rval.splits)
  show "dec (structCodec es) (data @ t) v0 = Inr (rest @ t, v)"
    if "dec (structCodec es) data v0 = Inr (rest, v)" for data v0 rest v t
    using that decFields_extend [of es data _ rest _ t] field_entries_decoders [OF assms]
    by (auto simp: structCodec_def bindE_Inr_iff split: rval.splits)
  fix v dst r
  assume "structOk (admitted ss) v"
  then obtain vs where v: "v = VStruct vs" "admitted ss vs"
    by (auto simp: structOk_def split: rval.splits)
  show "enc (structCodec es) dst v = dst @ enc (structCodec es) [] v"
    using encFields_append [OF assms v(2), of "[]" dst] v(1) by (simp add: structCodec_def)
  show "dec (structCodec es) (enc (structCodec es) [] v @ r) (VStruct (zeros ss)) =
      Inr (r, structNorm (normals ss) v)"
    using decFields_enc [OF assms v(2), of "[]" "[]" r] v(1)
    by (simp add: structCodec_def structNorm_def)
qed

text \<open>An array is a struct whose fields are its elements.\<close>

definition arrayOk :: "nat \<Rightarrow> (rval \<Rightarrow> bool) \<Rightarrow> rval \<Rightarrow> bool" where
  "arrayOk n ok v = (case v of VArray vs \<Rightarrow> length vs = n \<and> list_all ok vs | _ \<Rightarrow> False)"

definition arrayNorm :: "(rval \<Rightarrow> rval) \<Rightarrow> rval \<Rightarrow> rval" where
  "arrayNorm nrm v = (case v of VArray vs \<Rightarrow> VArray (map nrm vs) | _ \<Rightarrow> v)"

lemma array_entries:
  assumes "value_codec c ok nrm x"
  shows "field_entries i (map (\<lambda>j. (j, c)) [i..<i + n]) (replicate n (ok, nrm, x))"
proof (induction n arbitrary: i)
  case (Suc n)
  have "[i..<i + Suc n] = i # [Suc i..<Suc i + n]" by (simp add: upt_rec)
  then show ?case
    using Suc [of "Suc i"] assms by (simp add: encoded)
qed (simp add: no_fields)

lemma replicate_fields:
  "admitted (replicate n (ok, nrm, x)) vs \<longleftrightarrow> length vs = n \<and> list_all ok vs"
  "length vs = n \<Longrightarrow> normals (replicate n (ok, nrm, x)) vs = map nrm vs"
  "zeros (replicate n (ok, nrm, x)) = replicate n x"
proof (induction n arbitrary: vs)
  case (Suc n)
  { case 1 show ?case using Suc(1) by (cases vs) auto }
  { case 2 then show ?case using Suc(2) by (cases vs) auto }
  { case 3 show ?case using Suc(3) by simp }
qed auto

lemma arrayCodec_contract:
  assumes "value_codec c ok nrm x"
  shows "value_codec (arrayCodec n c) (arrayOk n ok) (arrayNorm nrm) (VArray (replicate n x))"
proof
  let ?es = "map (\<lambda>i. (i, c)) [0..<n]" and ?ss = "replicate n (ok, nrm, x)"
  have fe: "field_entries 0 ?es ?ss"
    using array_entries [OF assms, of 0 n] by simp
  have mins: "(\<Sum>e\<leftarrow>?es. minSize (snd e)) = n * minSize c"
    by (simp add: comp_def sum_list_triv)
  show "\<exists>used. data = used @ rest \<and> minSize (arrayCodec n c) \<le> length used"
    if "dec (arrayCodec n c) data v0 = Inr (rest, v)" for data v0 rest v
    using that decFields_consumes [of ?es data _ rest] field_entries_decoders [OF fe]
    unfolding mins by (auto simp: arrayCodec_def Let_def bindE_Inr_iff split: rval.splits)
  show "dec (arrayCodec n c) (data @ t) v0 = Inr (rest @ t, v)"
    if "dec (arrayCodec n c) data v0 = Inr (rest, v)" for data v0 rest v t
    using that decFields_extend [of ?es data _ rest _ t] field_entries_decoders [OF fe]
    by (auto simp: arrayCodec_def Let_def bindE_Inr_iff split: rval.splits)
  fix v dst r
  assume "arrayOk n ok v"
  then obtain vs where v: "v = VArray vs" "length vs = n" "list_all ok vs"
    by (auto simp: arrayOk_def split: rval.splits)
  then have ad: "admitted ?ss vs" by (simp add: replicate_fields)
  show "enc (arrayCodec n c) dst v = dst @ enc (arrayCodec n c) [] v"
    using encFields_append [OF fe ad, of "[]" dst] v(1) by (simp add: arrayCodec_def Let_def)
  show "dec (arrayCodec n c) (enc (arrayCodec n c) [] v @ r) (VArray (replicate n x)) =
      Inr (r, arrayNorm nrm v)"
    using decFields_enc [OF fe ad, of "[]" "[]" r] v(1,2)
    by (simp add: arrayCodec_def Let_def arrayNorm_def replicate_fields)
qed

subsection \<open>Pointers and slices\<close>

definition pointerOk :: "(rval \<Rightarrow> bool) \<Rightarrow> rval \<Rightarrow> bool" where
  "pointerOk ok v = (case v of VPtr x \<Rightarrow> ok x | VNil \<Rightarrow> True | _ \<Rightarrow> False)"

definition pointerNorm :: "(rval \<Rightarrow> rval) \<Rightarrow> rval \<Rightarrow> rval" where
  "pointerNorm nrm v = (case v of VPtr x \<Rightarrow> VPtr (nrm x) | _ \<Rightarrow> v)"

definition sliceOk :: "nat \<Rightarrow> (rval \<Rightarrow> bool) \<Rightarrow> rval \<Rightarrow> bool" where
  "sliceOk m ok v =
     (case v of
        VSlice vs \<Rightarrow>
          length vs < 2 ^ 64 \<and> (m = 0 \<longrightarrow> length vs \<le> maxZeroSizeCount) \<and> list_all ok vs
      | VNil \<Rightarrow> True
      | _ \<Rightarrow> False)"

definition sliceNorm :: "(rval \<Rightarrow> rval) \<Rightarrow> rval \<Rightarrow> rval" where
  "sliceNorm nrm v =
     (case v of VSlice vs \<Rightarrow> VSlice (map nrm vs) | VNil \<Rightarrow> VSlice [] | _ \<Rightarrow> v)"

context value_decoder
begin

lemma pointer_decoder: "value_decoder (pointerCodec c x)"
proof
  fix data v0 rest v
  assume d: "dec (pointerCodec c x) data v0 = Inr (rest, v)"
  then obtain b tl where data: "data = b # tl"
    by (cases data) (auto simp: pointerCodec_def)
  with d consider "tl = rest" | y where "dec c tl x = Inr (rest, y)"
    by (auto simp: pointerCodec_def bindE_Inr_iff split: if_splits)
  then show "\<exists>used. data = used @ rest \<and> minSize (pointerCodec c x) \<le> length used"
  proof cases
    case 1
    with data show ?thesis by (intro exI [of _ "[b]"]) (simp add: pointerCodec_def)
  next
    case 2
    from dec_consumes [OF 2] obtain u where "tl = u @ rest" by blast
    with data show ?thesis by (intro exI [of _ "b # u"]) (simp add: pointerCodec_def)
  qed
next
  show "dec (pointerCodec c x) (data @ t) v0 = Inr (rest @ t, v)"
    if "dec (pointerCodec c x) data v0 = Inr (rest, v)" for data v0 rest v t
    using that dec_extend [of _ x rest _ t]
    by (cases data) (auto simp: pointerCodec_def bindE_Inr_iff split: if_splits)
qed

lemma slice_decoder: "value_decoder (sliceCodec c x)"
proof
  fix data v0 rest v
  assume "dec (sliceCodec c x) data v0 = Inr (rest, v)"
  then obtain n mid vs where r: "readCount data (minSize c) = Inr (n, mid)"
    and d: "decElems c x n mid = Inr (rest, vs)"
    by (auto simp: sliceCodec_def bindE_Inr_iff)
  from readCount_consumes(1) [OF r] obtain u where "data = u @ mid" "1 \<le> length u" by blast
  moreover from decElems_consumes [OF d] obtain u' where "mid = u' @ rest" by blast
  ultimately show "\<exists>used. data = used @ rest \<and> minSize (sliceCodec c x) \<le> length used"
    by (intro exI [of _ "u @ u'"]) (simp add: sliceCodec_def)
next
  show "dec (sliceCodec c x) (data @ t) v0 = Inr (rest @ t, v)"
    if "dec (sliceCodec c x) data v0 = Inr (rest, v)" for data v0 rest v t
    using that readCount_extend [of data "minSize c" _ _ t] decElems_extend [of x _ _ rest _ t]
    by (fastforce simp: sliceCodec_def bindE_Inr_iff)
qed

end

context value_codec
begin

lemma pointer_codec: "value_codec (pointerCodec c z) (pointerOk ok) (pointerNorm nrm) VNil"
proof (rule value_codec.intro [OF pointer_decoder], rule value_codec_axioms.intro)
  fix v dst r
  assume "pointerOk ok v"
  then consider "v = VNil" | x where "v = VPtr x" "ok x"
    by (auto simp: pointerOk_def split: rval.splits)
  note cs = this
  show "enc (pointerCodec c z) dst v = dst @ enc (pointerCodec c z) [] v"
    using cs enc_append [of _ "dst @ [1]"] enc_append [of _ "[1]"]
    by cases (simp_all add: pointerCodec_def)
  from cs show "dec (pointerCodec c z) (enc (pointerCodec c z) [] v @ r) VNil =
      Inr (r, pointerNorm nrm v)"
  proof cases
    case 1
    then show ?thesis by (simp add: pointerCodec_def pointerNorm_def)
  next
    case 2
    then show ?thesis
      using enc_append [of x "[1]"] by (simp add: pointerCodec_def pointerNorm_def dec_enc)
  qed
qed

lemma readCount_elems:
  assumes "length vs < 2 ^ 64" "minSize c = 0 \<longrightarrow> length vs \<le> maxZeroSizeCount" "list_all ok vs"
  shows "readCount (AppendUvarint [] (length vs) @ concat (map (enc c []) vs) @ r) (minSize c) =
    Inr (length vs, concat (map (enc c []) vs) @ r)"
  using assms min_elems [OF assms(3)] by (intro readCount_put) auto

lemma slice_codec:
  "value_codec (sliceCodec c z) (sliceOk (minSize c) ok) (sliceNorm nrm) VNil"
proof (rule value_codec.intro [OF slice_decoder], rule value_codec_axioms.intro)
  fix v dst r
  assume "sliceOk (minSize c) ok v"
  then consider "v = VNil"
    | vs where "v = VSlice vs" "length vs < 2 ^ 64"
        "minSize c = 0 \<longrightarrow> length vs \<le> maxZeroSizeCount" "list_all ok vs"
    by (auto simp: sliceOk_def split: rval.splits)
  note cs = this
  from cs show "enc (sliceCodec c z) dst v = dst @ enc (sliceCodec c z) [] v"
  proof cases
    case 1
    show ?thesis
      unfolding 1 sliceCodec_def using AppendUvarint_append [of dst 0] by simp
  next
    case 2
    show ?thesis
      unfolding 2(1) sliceCodec_def using AppendUvarint_append [of dst "length vs"] 2(4)
      by (simp add: encElems_concat)
  qed
  from cs show "dec (sliceCodec c z) (enc (sliceCodec c z) [] v @ r) VNil =
      Inr (r, sliceNorm nrm v)"
  proof cases
    case 1
    then show ?thesis
      using readCount_put [of 0 "minSize c" r] by (simp add: sliceCodec_def sliceNorm_def)
  next
    case 2
    then show ?thesis
      using readCount_elems [OF 2(2-4), of r]
      by (simp add: sliceCodec_def sliceNorm_def encElems_concat decElems_enc)
  qed
qed

end

subsection \<open>Maps\<close>

definition keysApart :: "rval list \<Rightarrow> bool" where
  "keysApart ks = sorted_wrt (\<lambda>a b. \<not> go_eq a b) ks"

definition sortEntries :: "valueCodec \<Rightarrow> (rval \<times> rval) list \<Rightarrow> (rval \<times> rval) list" where
  "sortEntries kc kvs = sort_key (\<lambda>e. enc kc [] (fst e)) kvs"

definition mapOk ::
  "valueCodec \<Rightarrow> valueCodec \<Rightarrow> (rval \<Rightarrow> bool) \<Rightarrow> (rval \<Rightarrow> rval) \<Rightarrow> (rval \<Rightarrow> bool) \<Rightarrow> rval \<Rightarrow> bool" where
  "mapOk kc vc kok knrm vok v =
     (case v of
        VMap kvs \<Rightarrow>
          length kvs < 2 ^ 64 \<and>
          (minSize kc + minSize vc = 0 \<longrightarrow> length kvs \<le> maxZeroSizeCount) \<and>
          list_all (\<lambda>e. kok (fst e) \<and> vok (snd e)) kvs \<and>
          keysApart (map (knrm \<circ> fst) (sortEntries kc kvs))
      | VNil \<Rightarrow> True
      | _ \<Rightarrow> False)"

definition mapNorm ::
  "valueCodec \<Rightarrow> (rval \<Rightarrow> rval) \<Rightarrow> (rval \<Rightarrow> rval) \<Rightarrow> rval \<Rightarrow> rval" where
  "mapNorm kc knrm vnrm v =
     (case v of
        VMap kvs \<Rightarrow> VMap (map (\<lambda>e. (knrm (fst e), vnrm (snd e))) (sortEntries kc kvs))
      | VNil \<Rightarrow> VMap []
      | _ \<Rightarrow> v)"

lemma insort_key_map: "insort_key f (g x) (map g xs) = map g (insort_key (\<lambda>y. f (g y)) x xs)"
  by (induction xs) simp_all

lemma sort_key_map: "sort_key f (map g xs) = map g (sort_key (\<lambda>y. f (g y)) xs)"
  by (induction xs) (simp_all add: insort_key_map)

definition encEntry :: "valueCodec \<Rightarrow> valueCodec \<Rightarrow> rval \<times> rval \<Rightarrow> bytes" where
  "encEntry kc vc e = enc kc [] (fst e) @ enc vc [] (snd e)"

lemma encodeMap_entries:
  "encodeMap dst kvs kc vc =
     dst @ AppendUvarint [] (length kvs) @ concat (map (encEntry kc vc) (sortEntries kc kvs))"
proof -
  have "map (\<lambda>(k, v). (enc kc [] k, enc vc [] v)) kvs = map (\<lambda>e. (enc kc [] (fst e), enc vc [] (snd e))) kvs"
    by (simp add: split_beta)
  then show ?thesis
    using AppendUvarint_append [of dst "length kvs"]
    by (simp add: encodeMap_def Let_def sort_key_map sortEntries_def comp_def encEntry_def [abs_def]
        split_beta)
qed

lemma SetMapIndex_fresh: "\<forall>k'\<in>set (map fst m). \<not> go_eq k' k \<Longrightarrow> SetMapIndex m k v = m @ [(k, v)]"
  by (induction m k v rule: SetMapIndex.induct) auto

locale map_codecs =
  key: value_codec kc kok knrm kz + val: value_codec vc vok vnrm vz
  for kc kok knrm kz vc vok vnrm vz
begin

abbreviation entryOk :: "rval \<times> rval \<Rightarrow> bool" where
  "entryOk e \<equiv> kok (fst e) \<and> vok (snd e)"

abbreviation entryNorm :: "rval \<times> rval \<Rightarrow> rval \<times> rval" where
  "entryNorm e \<equiv> (knrm (fst e), vnrm (snd e))"

lemma decEntries_enc:
  "list_all entryOk kvs \<Longrightarrow> keysApart (map fst m @ map (knrm \<circ> fst) kvs) \<Longrightarrow>
   decEntries kc kz vc vz (length kvs) (concat (map (encEntry kc vc) kvs) @ r) m =
     Inr (r, m @ map entryNorm kvs)"
proof (induction kvs arbitrary: m)
  case (Cons e kvs)
  have "\<forall>k'\<in>set (map fst m). \<not> go_eq k' (knrm (fst e))"
    using Cons.prems(2) by (auto simp: keysApart_def sorted_wrt_append)
  then have s: "SetMapIndex m (knrm (fst e)) (vnrm (snd e)) = m @ [entryNorm e]"
    by (rule SetMapIndex_fresh)
  have "keysApart (map fst (m @ [entryNorm e]) @ map (knrm \<circ> fst) kvs)"
    using Cons.prems(2) by (simp add: comp_def)
  from Cons.IH [OF _ this] Cons.prems(1) show ?case
    by (simp add: encEntry_def key.dec_enc val.dec_enc s)
qed simp

lemma min_entries:
  "list_all entryOk kvs \<Longrightarrow>
     length kvs * (minSize kc + minSize vc) \<le> length (concat (map (encEntry kc vc) kvs))"
proof (induction kvs)
  case (Cons e kvs)
  then show ?case
    using key.min_enc [of "fst e"] val.min_enc [of "snd e"] by (simp add: encEntry_def)
qed simp

lemma decEntries_consumes:
  "decEntries kc kz vc vz n data m = Inr (rest, m') \<Longrightarrow> \<exists>used. data = used @ rest"
proof (induction n arbitrary: data m)
  case (Suc n)
  then obtain d1 k d2 v where k: "dec kc data kz = Inr (d1, k)" and v: "dec vc d1 vz = Inr (d2, v)"
    and e: "decEntries kc kz vc vz n d2 (SetMapIndex m k v) = Inr (rest, m')"
    by (auto simp: bindE_Inr_iff)
  from key.dec_consumes [OF k] val.dec_consumes [OF v] Suc.IH [OF e]
  obtain u1 u2 u3 where "data = u1 @ d1" "d1 = u2 @ d2" "d2 = u3 @ rest" by blast
  then show ?case by (intro exI [of _ "u1 @ u2 @ u3"]) simp
qed simp

lemma decEntries_extend:
  "decEntries kc kz vc vz n data m = Inr (rest, m') \<Longrightarrow>
     decEntries kc kz vc vz n (data @ t) m = Inr (rest @ t, m')"
proof (induction n arbitrary: data m)
  case (Suc n)
  then obtain d1 k d2 v where k: "dec kc data kz = Inr (d1, k)" and v: "dec vc d1 vz = Inr (d2, v)"
    and e: "decEntries kc kz vc vz n d2 (SetMapIndex m k v) = Inr (rest, m')"
    by (auto simp: bindE_Inr_iff)
  show ?case
    using key.dec_extend [OF k, of t] val.dec_extend [OF v, of t] Suc.IH [OF e] by simp
qed simp

lemma map_decoder: "value_decoder (mapCodec kc kz vc vz)"
proof
  fix data v0 rest v
  assume "dec (mapCodec kc kz vc vz) data v0 = Inr (rest, v)"
  then obtain n mid m where r: "readCount data (minSize kc + minSize vc) = Inr (n, mid)"
    and d: "decEntries kc kz vc vz n mid [] = Inr (rest, m)"
    by (auto simp: mapCodec_def decodeMap_def bindE_Inr_iff)
  from readCount_consumes(1) [OF r] obtain u where "data = u @ mid" "1 \<le> length u" by blast
  moreover from decEntries_consumes [OF d] obtain u' where "mid = u' @ rest" by blast
  ultimately show "\<exists>used. data = used @ rest \<and> minSize (mapCodec kc kz vc vz) \<le> length used"
    by (intro exI [of _ "u @ u'"]) (simp add: mapCodec_def)
next
  show "dec (mapCodec kc kz vc vz) (data @ t) v0 = Inr (rest @ t, v)"
    if "dec (mapCodec kc kz vc vz) data v0 = Inr (rest, v)" for data v0 rest v t
    using that readCount_extend [of data "minSize kc + minSize vc" _ _ t]
      decEntries_extend [of _ _ "[]" rest _ t]
    by (fastforce simp: mapCodec_def decodeMap_def bindE_Inr_iff)
qed

lemma decodeMap_encodeMap:
  assumes "mapOk kc vc kok knrm vok (VMap kvs)"
  shows "decodeMap (encodeMap [] kvs kc vc @ r) kc kz vc vz (minSize kc + minSize vc) =
    Inr (r, mapNorm kc knrm vnrm (VMap kvs))"
proof -
  let ?s = "sortEntries kc kvs"
  have len: "length ?s = length kvs" and set: "set ?s = set kvs"
    by (simp_all add: sortEntries_def)
  have ok: "list_all entryOk ?s" "keysApart (map (knrm \<circ> fst) ?s)"
    using assms set by (simp_all add: mapOk_def list_all_iff)
  have "readCount (encodeMap [] kvs kc vc @ r) (minSize kc + minSize vc) =
      Inr (length kvs, concat (map (encEntry kc vc) ?s) @ r)"
    unfolding encodeMap_entries append.left_neutral append.assoc
    by (rule readCount_put) (use assms min_entries [OF ok(1)] len in \<open>simp_all add: mapOk_def\<close>)
  then show ?thesis
    using decEntries_enc [OF ok(1), of "[]" r] ok(2) len
    by (simp add: decodeMap_def mapNorm_def)
qed

lemma map_codec:
  "value_codec (mapCodec kc kz vc vz) (mapOk kc vc kok knrm vok) (mapNorm kc knrm vnrm) VNil"
proof (rule value_codec.intro [OF map_decoder], rule value_codec_axioms.intro)
  fix v dst r
  assume ok: "mapOk kc vc kok knrm vok v"
  then consider "v = VNil" | kvs where "v = VMap kvs"
    by (auto simp: mapOk_def split: rval.splits)
  note cs = this
  then show "enc (mapCodec kc kz vc vz) dst v = dst @ enc (mapCodec kc kz vc vz) [] v"
    by cases (simp_all add: mapCodec_def encodeMap_entries)
  from cs show "dec (mapCodec kc kz vc vz) (enc (mapCodec kc kz vc vz) [] v @ r) VNil =
      Inr (r, mapNorm kc knrm vnrm v)"
  proof cases
    case 1
    have "mapOk kc vc kok knrm vok (VMap [])"
      by (simp add: mapOk_def keysApart_def sortEntries_def)
    from decodeMap_encodeMap [OF this, of r] 1 show ?thesis
      by (simp add: mapCodec_def mapNorm_def sortEntries_def)
  next
    case 2
    with ok decodeMap_encodeMap [of kvs r] show ?thesis by (simp add: mapCodec_def)
  qed
qed

end

text \<open>\<open>map[string]string\<close>.\<close>

interpretation strMap: map_codecs stringCodec stringOk "\<lambda>v. v" "VString []"
  stringCodec stringOk "\<lambda>v. v" "VString []"
  by unfold_locales

end
