(* ===== verification/WireCodec_Safety.thy ===== *)
theory WireCodec_Safety
  imports WireCodec_Laws "HOL-Library.Multiset"
begin

text \<open>
  What the reflective codec promises: the types the compiler accepts, the wire normal form of
  every value of such a type and the round trip to it, the detection of truncated and of trailing
  bytes, the determinism of map encoding, and the bound on what a payload can make the decoder
  build.
\<close>

subsection \<open>The values of a type and their normal forms\<close>

fun scalarOk :: "kind \<Rightarrow> rval \<Rightarrow> bool" where
  "scalarOk KBool = boolOk"
| "scalarOk KInt8 = intOk 1"
| "scalarOk KInt16 = intOk 2"
| "scalarOk KInt32 = intOk 4"
| "scalarOk KInt64 = intOk 8"
| "scalarOk KUint8 = uintOk 1"
| "scalarOk KUint16 = uintOk 2"
| "scalarOk KUint32 = uintOk 4"
| "scalarOk KUint64 = uintOk 8"
| "scalarOk KFloat32 = f32Ok"
| "scalarOk KFloat64 = f64Ok"
| "scalarOk KString = stringOk"
| "scalarOk _ = (\<lambda>_. False)"

definition scalarNorm :: "kind \<Rightarrow> rval \<Rightarrow> rval" where
  "scalarNorm k = (if k = KFloat32 then f32Norm else (\<lambda>v. v))"

definition planMin :: "rtype \<Rightarrow> nat" where
  "planMin t = (case compile t of Inl _ \<Rightarrow> 0 | Inr c \<Rightarrow> minSize c)"

text \<open>\<open>wireSpec t\<close>: which values of type \<open>t\<close> fit on the wire, their normal form, and the zero.\<close>

fun wireSpec :: "rtype \<Rightarrow> fieldSpec" and fieldSpecs :: "rfield list \<Rightarrow> fieldSpec list" where
  "wireSpec (RBasic k) = (scalarOk k, scalarNorm k, zeroScalar k)"
| "wireSpec (RSlice t) =
     (if Kind t = KUint8 then (bytesOk, bytesNorm, VNil)
      else case wireSpec t of (ok, nrm, _) \<Rightarrow> (sliceOk (planMin t) ok, sliceNorm nrm, VNil))"
| "wireSpec (RArray n t) =
     (arrayOk n (scalarOk (Kind t)), arrayNorm (scalarNorm (Kind t)),
      VArray (replicate n (zeroValue t)))"
| "wireSpec (RMap kt vt) =
     (case (compile kt, compile vt, wireSpec kt, wireSpec vt) of
        (Inr kc, Inr vc, (kok, knrm, _), (vok, vnrm, _)) \<Rightarrow>
          (mapOk kc vc kok knrm vok, mapNorm kc knrm vnrm, VNil)
      | _ \<Rightarrow> (\<lambda>_. False, \<lambda>v. v, VNil))"
| "wireSpec (RStruct fs) =
     (structOk (admitted (fieldSpecs fs)), structNorm (normals (fieldSpecs fs)),
      VStruct (zeroFields fs))"
| "wireSpec (RPointer t) =
     (case wireSpec t of (ok, nrm, _) \<Rightarrow> (pointerOk ok, pointerNorm nrm, VNil))"
| "fieldSpecs [] = []"
| "fieldSpecs (RField nm pk tg t # fs) =
     (if onWire pk tg then wireSpec t else (\<lambda>_. True, \<lambda>_. zeroValue t, zeroValue t))
     # fieldSpecs fs"

definition wire_ok :: "rtype \<Rightarrow> rval \<Rightarrow> bool" where
  "wire_ok t = fst (wireSpec t)"

definition wire_norm :: "rtype \<Rightarrow> rval \<Rightarrow> rval" where
  "wire_norm t = fst (snd (wireSpec t))"

lemma wireSpec_zero: "snd (snd (wireSpec t)) = zeroValue t"
  by (cases t) (auto split: prod.splits sum.splits)

lemma wireSpec_eq: "wireSpec t = (wire_ok t, wire_norm t, zeroValue t)"
  by (simp add: wire_ok_def wire_norm_def wireSpec_zero [symmetric])

lemma wire_type_simps [simp]:
  "wire_ok (RBasic k) = scalarOk k"
  "wire_norm (RBasic k) = scalarNorm k"
  "wire_ok (RSlice t) = (if Kind t = KUint8 then bytesOk else sliceOk (planMin t) (wire_ok t))"
  "wire_norm (RSlice t) = (if Kind t = KUint8 then bytesNorm else sliceNorm (wire_norm t))"
  "wire_ok (RArray n t) = arrayOk n (scalarOk (Kind t))"
  "wire_norm (RArray n t) = arrayNorm (scalarNorm (Kind t))"
  "wire_ok (RPointer t) = pointerOk (wire_ok t)"
  "wire_norm (RPointer t) = pointerNorm (wire_norm t)"
  "wire_ok (RStruct fs) = structOk (admitted (fieldSpecs fs))"
  "wire_norm (RStruct fs) = structNorm (normals (fieldSpecs fs))"
  by (simp_all add: wire_ok_def wire_norm_def split: prod.splits)

declare wireSpec.simps [simp del]

lemma wire_map_simps:
  assumes "compile kt = Inr kc" "compile vt = Inr vc"
  shows "wire_ok (RMap kt vt) = mapOk kc vc (wire_ok kt) (wire_norm kt) (wire_ok vt)"
    and "wire_norm (RMap kt vt) = mapNorm kc (wire_norm kt) (wire_norm vt)"
  using assms by (simp_all add: wire_ok_def wire_norm_def wireSpec.simps split: prod.splits)

lemma zeros_fieldSpecs: "zeros (fieldSpecs fs) = zeroFields fs"
proof (induction fs)
  case (Cons f fs)
  then show ?case by (cases f) (simp add: wireSpec_eq)
qed simp

lemma scalarCodec_contract:
  "scalarCodec k = Some c \<Longrightarrow> value_codec c (scalarOk k) (scalarNorm k) x"
  by (cases k) (auto simp: scalarNorm_def intro!: intCodec_contract uintCodec_contract
      boolCodec_contract float32Codec_contract float64Codec_contract)

subsection \<open>Every compiled codec meets the contract\<close>

lemma mapErr_Inr_iff [simp]: "mapErr g m = Inr x \<longleftrightarrow> m = Inr x"
  by (cases m) simp_all

lemma compile_contract_both:
  "compile t = Inr c \<Longrightarrow> value_codec c (wire_ok t) (wire_norm t) (zeroValue t)"
  "compileFields i fs = Inr es \<Longrightarrow> field_entries i es (fieldSpecs fs)"
proof (induction t and i fs arbitrary: c and es rule: compile_compileFields.induct)
  case (1 k)
  then show ?case
    using scalarCodec_contract [of k] strC.value_codec_axioms
    by (auto simp: scalarNorm_def split: option.splits if_splits)
next
  case (2 t)
  show ?case
  proof (cases "Kind t = KUint8")
    case True
    then show ?thesis
      using "2.prems" bytC.value_codec_axioms by simp
  next
    case False
    with "2.prems" obtain ec where ec: "compile t = Inr ec" "c = sliceCodec ec (zeroValue t)"
      by (auto simp: bindE_Inr_iff)
    from value_codec.slice_codec [OF "2.IH" [OF False ec(1)]] show ?thesis
      using False ec by (simp add: planMin_def)
  qed
next
  case (3 n t)
  then obtain ec where "scalarCodec (Kind t) = Some ec" "c = arrayCodec n ec"
    by (auto split: option.splits)
  then show ?case
    using arrayCodec_contract [OF scalarCodec_contract]
    by simp
next
  case (4 kt vt)
  then obtain kc vc where kc: "compile kt = Inr kc" and vc: "compile vt = Inr vc"
    and c: "c = mapCodec kc (zeroValue kt) vc (zeroValue vt)"
    by (auto simp: bindE_Inr_iff)
  have "map_codecs kc (wire_ok kt) (wire_norm kt) (zeroValue kt)
      vc (wire_ok vt) (wire_norm vt) (zeroValue vt)"
    using "4.IH"(1) [OF kc] "4.IH"(2) [OF vc] by (auto intro: map_codecs.intro)
  from map_codecs.map_codec [OF this] show ?case
    using wire_map_simps [OF kc vc] c by simp
next
  case (5 fs)
  then obtain es where es: "compileFields 0 fs = Inr es" "c = structCodec es"
    by (auto simp: bindE_Inr_iff)
  from structCodec_contract [OF "5.IH" [OF es(1)]] show ?case
    using es(2) by (simp add: zeros_fieldSpecs)
next
  case (6 t)
  then obtain ec where k: "Kind t = KStruct" and ec: "compile t = Inr ec"
    "c = pointerCodec ec (zeroValue t)"
    by (auto simp: bindE_Inr_iff split: if_splits)
  from value_codec.pointer_codec [OF "6.IH" [OF _ ec(1)]] k show ?case
    using ec(2) by simp
next
  case (7 i)
  then show ?case by (simp add: no_fields)
next
  case (8 i nm pk tg t fs)
  show ?case
  proof (cases "onWire pk tg")
    case True
    with "8.prems" obtain fc es' where fc: "compile t = Inr fc"
      and es: "compileFields (i + 1) fs = Inr es'" "es = (i, fc) # es'"
      by (auto simp: bindE_Inr_iff)
    from 8 True fc es show ?thesis
      by (auto simp: wireSpec_eq [of t] intro!: encoded)
  next
    case False
    with 8 show ?thesis by (auto intro!: skipped)
  qed
qed

lemmas compile_contract = compile_contract_both(1)

subsection \<open>The plan cache\<close>

definition plansOk :: "planCache \<Rightarrow> bool" where
  "plansOk plans \<longleftrightarrow> (\<forall>t res. plans t = Some res \<longrightarrow> res = compile t)"

lemma wirePlanFor_compile:
  "plansOk plans \<Longrightarrow> wirePlanFor plans t = (res, plans') \<Longrightarrow> res = compile t \<and> plansOk plans'"
  by (auto simp: wirePlanFor_def plansOk_def Let_def split: option.splits if_splits)

lemma plan_of [simp]:
  "plansOk plans \<Longrightarrow> fst (wirePlanFor plans t) = compile t"
  "plansOk plans \<Longrightarrow> plansOk (snd (wirePlanFor plans t))"
  using wirePlanFor_compile [of plans t] by (auto simp: prod_eq_iff)

text \<open>Caching the compiled plans, and the compile errors, is invisible: on a cache that only
  holds compile results, \<open>Marshal\<close> and \<open>Unmarshal\<close> answer what they answer with no cache at
  all, and they leave such a cache behind.\<close>

theorem plan_cache_transparent:
  assumes "plansOk plans"
  shows "fst (wc_Marshal plans t m) = fst (wc_Marshal Map.empty t m) \<and>
    fst (wc_Unmarshal plans t data) = fst (wc_Unmarshal Map.empty t data) \<and>
    plansOk (snd (wc_Marshal plans t m)) \<and> plansOk (snd (wc_Unmarshal plans t data))"
proof -
  have e: "plansOk Map.empty" by (simp add: plansOk_def)
  show ?thesis
    using assms e
    by (auto simp: wc_Marshal_def wc_Unmarshal_def split_beta Let_def split: rtype.splits rval.splits)
qed

theorem plan_cache_transparent_witness:
  "plansOk [RStruct [] \<mapsto> compile (RStruct [])] \<and>
   fst (wc_Marshal [RStruct [] \<mapsto> compile (RStruct [])] (RPointer (RStruct [])) (VPtr (VStruct [])))
     = Inr []"
proof -
  have ok: "plansOk [RStruct [] \<mapsto> compile (RStruct [])]"
    by (simp add: plansOk_def)
  show ?thesis
    using plan_cache_transparent [OF ok, of "RPointer (RStruct [])" "VPtr (VStruct [])" "[]"] ok
    by (simp add: wc_Marshal_def wirePlanFor_def structCodec_def)
qed

subsection \<open>Marshal and Unmarshal\<close>

lemma Marshal_struct:
  assumes "plansOk plans" "compile (RStruct fs) = Inr c"
  shows "fst (wc_Marshal plans (RPointer (RStruct fs)) (VPtr x)) = Inr (enc c [] x)"
    and "plansOk (snd (wc_Marshal plans (RPointer (RStruct fs)) (VPtr x)))"
  using plan_of [OF assms(1), of "RStruct fs"] assms(2)
  by (auto simp: wc_Marshal_def split_beta Let_def)

lemma Unmarshal_struct:
  assumes "plansOk plans" "compile (RStruct fs) = Inr c"
  shows "fst (wc_Unmarshal plans (RPointer (RStruct fs)) data) =
    bindE (dec c data (zeroValue (RStruct fs))) (\<lambda>(rest, x).
      if length rest \<noteq> 0 then Inl (TrailingBytes (length rest)) else Inr (VPtr x))"
  using plan_of [OF assms(1), of "RStruct fs"] assms(2)
  by (auto simp: wc_Unmarshal_def split_beta Let_def)

text \<open>
  C14. Marshalling any message of a supported struct type and unmarshalling the bytes yields
  the message's wire normal form: every field on the wire is back, a skipped field is zero, a nil
  slice or map is empty, an empty \<open>[]byte\<close> is nil.\<close>

theorem wirecodec_roundtrip:
  assumes "plansOk plans" "compile (RStruct fs) = Inr c" "wire_ok (RStruct fs) x"
  shows "\<exists>b plans'. wc_Marshal plans (RPointer (RStruct fs)) (VPtr x) = (Inr b, plans') \<and>
    plansOk plans' \<and>
    fst (wc_Unmarshal plans' (RPointer (RStruct fs)) b) = Inr (VPtr (wire_norm (RStruct fs) x))"
proof -
  let ?m = "wc_Marshal plans (RPointer (RStruct fs)) (VPtr x)"
  have "dec c (enc c [] x @ []) (zeroValue (RStruct fs)) = Inr ([], wire_norm (RStruct fs) x)"
    using compile_contract [OF assms(2)] assms(3) by (rule value_codec.dec_enc)
  then have "fst (wc_Unmarshal (snd ?m) (RPointer (RStruct fs)) (enc c [] x)) =
      Inr (VPtr (wire_norm (RStruct fs) x))"
    using Unmarshal_struct [OF Marshal_struct(2) [OF assms(1,2), of x] assms(2)] by simp
  then show ?thesis
    using Marshal_struct [OF assms(1,2), of x]
    by (intro exI [of _ "enc c [] x"] exI [of _ "snd ?m"]) (simp add: prod_eq_iff)
qed

definition sampleType :: "rfield list" where
  "sampleType =
     [RField ''Id'' [] [] (RBasic KUint16), RField ''Name'' [] [] (RBasic KString),
      RField ''cache'' ''main'' [] (RBasic KChan),
      RField ''Blob'' [] [] (RSlice (RBasic KUint8)),
      RField ''Tags'' [] [] (RMap (RBasic KString) (RSlice (RBasic KInt8))),
      RField ''Next'' [] [] (RPointer (RStruct [RField ''D'' [] [] (RArray 2 (RBasic KBool))]))]"

definition sampleValue :: rval where
  "sampleValue = VStruct
     [VUint 258, VString [104, 105], VNil, VBytes [],
      VMap [(VString [98], VNil), (VString [97], VSlice [VInt (- 2)])],
      VPtr (VStruct [VArray [VBool True, VBool False]])]"

definition sampleNormal :: rval where
  "sampleNormal = VStruct
     [VUint 258, VString [104, 105], VNil, VNil,
      VMap [(VString [97], VSlice [VInt (- 2)]), (VString [98], VSlice [])],
      VPtr (VStruct [VArray [VBool True, VBool False]])]"

lemma sample_codec:
  "\<exists>c. compile (RStruct sampleType) = Inr c"
  by (simp add: sampleType_def onWire_def)

lemma sort_sample:
  "sortEntries stringCodec [(VString [98], a), (VString [97], b)] =
     [(VString [97], b), (VString [98], a)]"
  by (simp add: sortEntries_def stringCodec_def AppendUvarint.simps)

lemma sample_ok: "wire_ok (RStruct sampleType) sampleValue"
  by (simp add: sampleType_def sampleValue_def onWire_def structOk_def wireSpec_eq wire_map_simps
      uintOk_def stringOk_def bytesOk_def mapOk_def pointerOk_def arrayOk_def boolOk_def sliceOk_def
      intOk_def keysApart_def sort_sample maxZeroSizeCount_def scalarNorm_def)

lemma sample_norm: "wire_norm (RStruct sampleType) sampleValue = sampleNormal"
  by (simp add: sampleType_def sampleValue_def sampleNormal_def onWire_def structNorm_def wireSpec_eq
      wire_map_simps scalarNorm_def bytesNorm_def mapNorm_def pointerNorm_def arrayNorm_def
      sliceNorm_def sort_sample)

lemma plansOk_empty [simp]: "plansOk Map.empty"
  by (simp add: plansOk_def)

theorem wirecodec_roundtrip_witness:
  "\<exists>b plans'. wc_Marshal Map.empty (RPointer (RStruct sampleType)) (VPtr sampleValue) = (Inr b, plans') \<and>
    fst (wc_Unmarshal plans' (RPointer (RStruct sampleType)) b) = Inr (VPtr sampleNormal)"
proof -
  obtain c where "compile (RStruct sampleType) = Inr c" using sample_codec by blast
  from wirecodec_roundtrip [OF plansOk_empty this sample_ok] show ?thesis
    unfolding sample_norm by blast
qed

text \<open>
  C36. Of all the inputs that extend a marshalled message or are cut off from it, only the
  message itself is accepted: what follows is reported as trailing bytes and every truncation is
  an error.\<close>

theorem marshalled_exact:
  assumes "plansOk plans" "compile (RStruct fs) = Inr c" "wire_ok (RStruct fs) x"
    and "fst (wc_Marshal plans (RPointer (RStruct fs)) (VPtr x)) = Inr b"
  shows "(s \<noteq> [] \<longrightarrow> fst (wc_Unmarshal plans (RPointer (RStruct fs)) (b @ s)) =
            Inl (TrailingBytes (length s))) \<and>
    (b = q @ s \<and> s \<noteq> [] \<longrightarrow> (\<exists>e. fst (wc_Unmarshal plans (RPointer (RStruct fs)) q) = Inl e))"
proof -
  let ?z = "zeroValue (RStruct fs)" and ?n = "wire_norm (RStruct fs) x"
  have b: "b = enc c [] x" using assms(4) Marshal_struct(1) [OF assms(1,2)] by simp
  have vc: "value_codec c (wire_ok (RStruct fs)) (wire_norm (RStruct fs)) ?z"
    by (rule compile_contract [OF assms(2)])
  then have d: "dec c (b @ r) ?z = Inr (r, ?n)" for r
    unfolding b using assms(3) by (rule value_codec.dec_enc)
  have "\<exists>e. fst (wc_Unmarshal plans (RPointer (RStruct fs)) q) = Inl e" if q: "b = q @ s" "s \<noteq> []"
  proof (rule ccontr)
    assume "\<not> ?thesis"
    then obtain v where "dec c q ?z = Inr ([], v)"
      by (auto simp: Unmarshal_struct [OF assms(1,2)] bindE_def split: sum.splits if_splits)
    then have "dec c (q @ s) ?z = Inr (s, v)"
      using vc value_decoder.dec_extend [of c q ?z "[]" v s] by (simp add: value_codec_def)
    with d [of "[]"] q show False by simp
  qed
  then show ?thesis
    using d [of s] by (auto simp: Unmarshal_struct [OF assms(1,2)])
qed

theorem marshalled_exact_witness:
  "\<exists>b. fst (wc_Marshal Map.empty (RPointer (RStruct sampleType)) (VPtr sampleValue)) = Inr b \<and>
    fst (wc_Unmarshal Map.empty (RPointer (RStruct sampleType)) (b @ [0])) = Inl (TrailingBytes 1)"
proof -
  obtain c where c: "compile (RStruct sampleType) = Inr c" using sample_codec by blast
  from marshalled_exact [OF plansOk_empty c sample_ok Marshal_struct(1) [OF plansOk_empty c], of "[0]" "[]"]
  show ?thesis
    by (auto simp: Marshal_struct(1) [OF plansOk_empty c])
qed

subsection \<open>The types the compiler accepts\<close>

fun supported :: "rtype \<Rightarrow> bool" and supportedFields :: "rfield list \<Rightarrow> bool" where
  "supported (RBasic k) \<longleftrightarrow> scalarCodec k \<noteq> None \<or> k = KString"
| "supported (RSlice t) \<longleftrightarrow> Kind t = KUint8 \<or> supported t"
| "supported (RArray n t) \<longleftrightarrow> scalarCodec (Kind t) \<noteq> None"
| "supported (RMap kt vt) \<longleftrightarrow> supported kt \<and> supported vt"
| "supported (RStruct fs) \<longleftrightarrow> supportedFields fs"
| "supported (RPointer t) \<longleftrightarrow> Kind t = KStruct \<and> supported t"
| "supportedFields [] \<longleftrightarrow> True"
| "supportedFields (RField nm pk tg t # fs) \<longleftrightarrow>
     (onWire pk tg \<longrightarrow> supported t) \<and> supportedFields fs"

lemma compile_supported:
  "(\<exists>c. compile t = Inr c) = supported t"
  "(\<exists>es. compileFields i fs = Inr es) = supportedFields fs"
proof (induction t and i fs rule: compile_compileFields.induct)
  case (8 i nm pk tg t fs)
  then show ?case
    by (cases "onWire pk tg"; cases "\<exists>fc. compile t = Inr fc") (auto simp: bindE_Inr_iff)
qed (auto simp: bindE_Inr_iff split: option.splits)


subsection \<open>Maps are encoded deterministically\<close>

lemma sort_key_perm:
  assumes "mset xs = mset ys" "distinct (map f xs)"
  shows "sort_key f xs = sort_key f ys"
proof (rule map_sorted_distinct_set_unique)
  have d: "distinct (map f ys)"
    using assms by (metis distinct_map mset_eq_imp_distinct_iff mset_eq_setD)
  show "inj_on f (set (sort_key f xs) \<union> set (sort_key f ys))"
    using assms by (simp add: distinct_map mset_eq_setD [OF assms(1)])
  show "distinct (map f (sort_key f xs))" "distinct (map f (sort_key f ys))"
    using assms(2) d by (simp_all add: distinct_map)
  show "set (sort_key f xs) = set (sort_key f ys)"
    using mset_eq_setD [OF assms(1)] by simp
qed simp_all

text \<open>
  A map encodes to the same bytes in whatever order the run iterates over it, provided
  its keys have different encodings.\<close>

theorem encodeMap_deterministic:
  assumes "mset kvs = mset kvs'" "distinct (map (\<lambda>e. enc kc [] (fst e)) kvs)"
  shows "encodeMap dst kvs kc vc = encodeMap dst kvs' kc vc"
proof -
  have "length kvs = length kvs'" using assms(1) by (rule mset_eq_length)
  then show ?thesis
    using sort_key_perm [OF assms] by (simp add: encodeMap_entries sortEntries_def)
qed

theorem encodeMap_deterministic_witness:
  "encodeMap [] [(VUint 1, VUint 5), (VUint 0, VUint 6)] (uintCodec 1) (uintCodec 1) =
   encodeMap [] [(VUint 0, VUint 6), (VUint 1, VUint 5)] (uintCodec 1) (uintCodec 1)"
  by (rule encodeMap_deterministic) (simp_all add: uintCodec_def fixedCodec_def)

text \<open>Keys that differ only in a field that is not on the wire are told apart by Go but not by
  their encodings: the payload then depends on the iteration order.\<close>

definition hiddenKey :: rtype where
  "hiddenKey = RStruct [RField ''A'' [] [] (RBasic KUint8), RField ''b'' ''main'' [] (RBasic KUint8)]"

theorem hidden_key_fields_break_determinism:
  "\<exists>kc vc k1 k2. compile hiddenKey = Inr kc \<and> compile (RBasic KUint8) = Inr vc \<and>
     wire_ok hiddenKey k1 \<and> wire_ok hiddenKey k2 \<and> \<not> go_eq k1 k2 \<and>
     encodeMap [] [(k1, VUint 7), (k2, VUint 8)] kc vc \<noteq>
     encodeMap [] [(k2, VUint 8), (k1, VUint 7)] kc vc"
proof -
  let ?c = "structCodec [(0, uintCodec 1)]"
  let ?k = "\<lambda>n. VStruct [VUint 1, VUint n]"
  have "compile hiddenKey = Inr ?c" "compile (RBasic KUint8) = Inr (uintCodec 1)"
    by (simp_all add: hiddenKey_def onWire_def)
  moreover have "wire_ok hiddenKey (?k 1)" "wire_ok hiddenKey (?k 2)"
    by (simp_all add: hiddenKey_def onWire_def structOk_def wireSpec_eq uintOk_def)
  moreover have "\<not> go_eq (?k 1) (?k 2)" by simp
  moreover have "encodeMap [] [(?k 1, VUint 7), (?k 2, VUint 8)] ?c (uintCodec 1) \<noteq>
      encodeMap [] [(?k 2, VUint 8), (?k 1, VUint 7)] ?c (uintCodec 1)"
    by (simp add: encodeMap_def structCodec_def uintCodec_def fixedCodec_def AppendUvarint.simps Let_def)
  ultimately show ?thesis by blast
qed

subsection \<open>Elements of size zero\<close>

text \<open>The encoder accepts what its own decoder refuses: a slice of more than \<open>2 ^ 20\<close> empty
  structs marshals to a few bytes, and unmarshalling them fails at the zero-size cap.\<close>

definition manyEmpty :: "rfield list" where
  "manyEmpty = [RField ''S'' [] [] (RSlice (RStruct []))]"

lemma enc_composite:
  "enc (structCodec fs) dst (VStruct vs) = encFields fs dst vs"
  "enc (sliceCodec c x) dst (VSlice vs) = encElems c (AppendUvarint dst (length vs)) vs"
  by (simp_all add: structCodec_def sliceCodec_def)

lemma encElems_empty: "encElems (structCodec []) dst (replicate n (VStruct [])) = dst"
  by (induction n) (simp_all add: structCodec_def)

lemma manyEmpty_codec:
  "compile (RStruct manyEmpty) = Inr (structCodec [(0, sliceCodec (structCodec []) (VStruct []))])"
  by (simp add: manyEmpty_def onWire_def)

lemma AppendUvarint_length: "0 < k \<Longrightarrow> n < 2 ^ (7 * k) \<Longrightarrow> length (AppendUvarint [] n) \<le> k"
proof (induction k arbitrary: n)
  case (Suc k)
  show ?case
  proof (cases "n < 128")
    case False
    have "k \<noteq> 0" using False Suc.prems(2) by (cases k) auto
    moreover have "n div 128 < 2 ^ (7 * k)"
      using Suc.prems(2) by (simp add: power_add less_mult_imp_div_less mult.commute)
    ultimately have "length (AppendUvarint [] (n div 128)) \<le> k" using Suc.IH by simp
    then show ?thesis by (subst AppendUvarint_rec) simp
  qed (subst AppendUvarint_rec, simp)
qed simp

theorem zero_size_not_readable:
  fixes n :: nat
  assumes "maxZeroSizeCount < n" "n < 2 ^ 64"
  defines "m \<equiv> wc_Marshal Map.empty (RPointer (RStruct manyEmpty))
    (VPtr (VStruct [VSlice (replicate n (VStruct []))]))"
  shows "\<exists>b. fst m = Inr b \<and> length b \<le> 10 \<and>
    fst (wc_Unmarshal (snd m) (RPointer (RStruct manyEmpty)) b) = Inl (ZeroSizeCap n)"
proof -
  let ?b = "AppendUvarint [] n"
  have "readCount (?b @ []) 0 = Inl (ZeroSizeCap n)"
    unfolding readCount_def using assms(1) Uvarint_put [OF assms(2), of "[]"]
    by (simp add: Let_def)
  then have "fst (wc_Unmarshal (snd m) (RPointer (RStruct manyEmpty)) ?b) = Inl (ZeroSizeCap n)"
    unfolding m_def
    using Unmarshal_struct [OF Marshal_struct(2) [OF plansOk_empty manyEmpty_codec] manyEmpty_codec]
    by (simp add: structCodec_def sliceCodec_def manyEmpty_def)
  moreover have "fst m = Inr ?b"
    unfolding m_def Marshal_struct(1) [OF plansOk_empty manyEmpty_codec]
    by (simp add: enc_composite encElems_empty)
  moreover have "length ?b \<le> 10"
    by (rule AppendUvarint_length) (use assms(2) in simp_all)
  ultimately show ?thesis by blast
qed

theorem zero_size_not_readable_witness:
  "\<exists>b. length b \<le> 10 \<and>
    fst (wc_Unmarshal (snd (wc_Marshal Map.empty (RPointer (RStruct manyEmpty))
          (VPtr (VStruct [VSlice (replicate (2 ^ 20 + 1) (VStruct []))]))))
      (RPointer (RStruct manyEmpty)) b) = Inl (ZeroSizeCap (2 ^ 20 + 1))"
  using zero_size_not_readable [of "2 ^ 20 + 1"] by (auto simp: maxZeroSizeCount_def)

subsection \<open>What a payload can make the decoder build\<close>

text \<open>The elements of all slices and maps and the bytes of all strings in a value.\<close>

fun cells :: "rval \<Rightarrow> nat" where
  "cells (VString s) = length s"
| "cells (VBytes b) = length b"
| "cells (VSlice vs) = (\<Sum>v\<leftarrow>vs. 1 + cells v)"
| "cells (VMap kvs) = (\<Sum>e\<leftarrow>kvs. 1 + cells (fst e) + cells (snd e))"
| "cells (VArray vs) = (\<Sum>v\<leftarrow>vs. cells v)"
| "cells (VStruct vs) = (\<Sum>v\<leftarrow>vs. cells v)"
| "cells (VPtr x) = cells x"
| "cells _ = 0"

text \<open>No slice or map of the type has elements that can take no bytes at all.\<close>

fun dense :: "rtype \<Rightarrow> bool" and denseFields :: "rfield list \<Rightarrow> bool" where
  "dense (RBasic k) = True"
| "dense (RSlice t) = (Kind t = KUint8 \<or> planMin t > 0 \<and> dense t)"
| "dense (RArray n t) = True"
| "dense (RMap kt vt) = (planMin kt + planMin vt > 0 \<and> dense kt \<and> dense vt)"
| "dense (RStruct fs) = denseFields fs"
| "dense (RPointer t) = dense t"
| "denseFields [] = True"
| "denseFields (RField nm pk tg t # fs) = ((onWire pk tg \<longrightarrow> dense t) \<and> denseFields fs)"

text \<open>A bounded decoder pays for every cell of what it builds with a byte of input.\<close>

locale bounded_decoder =
  fixes c :: valueCodec and x :: rval
  assumes dec_cells:
    "dec c data x = Inr (rest, v) \<Longrightarrow> cells v + minSize c + length rest \<le> length data"
begin

lemma decElems_cells:
  "decElems c x n data = Inr (rest, vs) \<Longrightarrow>
     (\<Sum>v\<leftarrow>vs. cells v + minSize c) + length rest \<le> length data"
proof (induction n arbitrary: data vs)
  case (Suc n)
  then obtain mid y ys where d: "dec c data x = Inr (mid, y)"
    and e: "decElems c x n mid = Inr (rest, ys)" and vs: "vs = y # ys"
    by (auto simp: bindE_Inr_iff)
  from dec_cells [OF d] Suc.IH [OF e] vs show ?case by simp
qed simp

lemma pointer_bounded: "bounded_decoder (pointerCodec c x) y"
proof
  fix data rest v
  assume d: "dec (pointerCodec c x) data y = Inr (rest, v)"
  then obtain b tl where data: "data = b # tl"
    by (cases data) (auto simp: pointerCodec_def)
  with d show "cells v + minSize (pointerCodec c x) + length rest \<le> length data"
    using dec_cells [of tl rest]
    by (fastforce simp: pointerCodec_def bindE_Inr_iff split: if_splits)
qed

lemma slice_bounded:
  assumes "0 < minSize c"
  shows "bounded_decoder (sliceCodec c x) y"
proof
  fix data rest v
  assume "dec (sliceCodec c x) data y = Inr (rest, v)"
  then obtain n mid vs where r: "readCount data (minSize c) = Inr (n, mid)"
    and d: "decElems c x n mid = Inr (rest, vs)" and v: "v = VSlice vs"
    by (auto simp: sliceCodec_def bindE_Inr_iff)
  have "cells v \<le> (\<Sum>w\<leftarrow>vs. cells w + minSize c)"
    unfolding v cells.simps using assms by (intro sum_list_mono) simp
  then show "cells v + minSize (sliceCodec c x) + length rest \<le> length data"
    using readCount_consumes(1) [OF r] decElems_cells [OF d] by (auto simp: sliceCodec_def)
qed

end

lemma fixed_bounded:
  "(\<And>b. cells (get b) = 0) \<Longrightarrow> bounded_decoder (fixedCodec n put get) x"
  by unfold_locales (auto simp: fixedCodec_def split: if_splits)

lemma scalar_bounded: "scalarCodec k = Some c \<Longrightarrow> bounded_decoder c x"
  by (cases k) (auto simp: boolCodec_def intCodec_def uintCodec_def float32Codec_def
      float64Codec_def intro!: fixed_bounded)

lemma readRaw_length:
  assumes "readRaw data = Inr (b, rest)"
  shows "length (case b of None \<Rightarrow> [] | Some s \<Rightarrow> s) + 1 + length rest \<le> length data"
proof -
  obtain k w where u: "Uvarint data = (k, w)" by (cases "Uvarint data")
  with assms have "0 < w" by (auto simp: readRaw_def Let_def split: if_splits)
  with assms u Uvarint_le [OF u] show ?thesis
    by (auto simp: readRaw_def Let_def split: if_splits)
qed

interpretation strB: bounded_decoder stringCodec x for x
  by unfold_locales (auto simp: stringCodec_def bindE_Inr_iff dest!: readRaw_length)

interpretation bytB: bounded_decoder bytesCodec x for x
  by unfold_locales (auto simp: bytesCodec_def bindE_Inr_iff dest!: readRaw_length split: option.splits)

inductive bounded_entries :: "nat \<Rightarrow> (nat \<times> valueCodec) list \<Rightarrow> rval list \<Rightarrow> bool" where
  no_bounded: "bounded_entries i [] []"
| skip_bounded: "bounded_entries (Suc i) es zs \<Longrightarrow> cells x = 0 \<Longrightarrow> bounded_entries i es (x # zs)"
| field_bounded: "bounded_decoder c x \<Longrightarrow> bounded_entries (Suc i) es zs \<Longrightarrow>
    bounded_entries i ((i, c) # es) (x # zs)"

lemma decFields_cells:
  "bounded_entries i es zs \<Longrightarrow> length pre = i \<Longrightarrow> decFields es data (pre @ zs) = Inr (rest, vs') \<Longrightarrow>
     \<exists>vs. vs' = pre @ vs \<and>
       (\<Sum>v\<leftarrow>vs. cells v) + (\<Sum>e\<leftarrow>es. minSize (snd e)) + length rest \<le> length data"
proof (induction i es zs arbitrary: pre data rule: bounded_entries.induct)
  case (skip_bounded i es zs x)
  then obtain vs where "vs' = (pre @ [x]) @ vs"
    "(\<Sum>v\<leftarrow>vs. cells v) + (\<Sum>e\<leftarrow>es. minSize (snd e)) + length rest \<le> length data"
    using skip_bounded.IH [of "pre @ [x]" data] by auto
  with skip_bounded.hyps show ?case by (intro exI [of _ "x # vs"]) simp
next
  case (field_bounded c x i es zs)
  then obtain mid y where d: "dec c data x = Inr (mid, y)"
    and f: "decFields es mid ((pre @ [y]) @ zs) = Inr (rest, vs')"
    by (auto simp: bindE_Inr_iff nth_append list_update_append)
  from field_bounded.IH [OF _ f] field_bounded.prems(1) obtain vs where "vs' = (pre @ [y]) @ vs"
    "(\<Sum>v\<leftarrow>vs. cells v) + (\<Sum>e\<leftarrow>es. minSize (snd e)) + length rest \<le> length mid" by auto
  with bounded_decoder.dec_cells [OF field_bounded.hyps(1) d] show ?case
    by (intro exI [of _ "y # vs"]) simp
qed simp

lemma struct_bounded:
  assumes "bounded_entries 0 es zs"
  shows "bounded_decoder (structCodec es) (VStruct zs)"
proof
  fix data rest v
  assume "dec (structCodec es) data (VStruct zs) = Inr (rest, v)"
  then obtain vs where "decFields es data ([] @ zs) = Inr (rest, vs)" "v = VStruct vs"
    by (auto simp: structCodec_def bindE_Inr_iff)
  with decFields_cells [OF assms, of "[]" data rest vs]
  show "cells v + minSize (structCodec es) + length rest \<le> length data"
    by (simp add: structCodec_def)
qed

lemma array_bounded_entries:
  "bounded_decoder c x \<Longrightarrow> bounded_entries i (map (\<lambda>j. (j, c)) [i..<i + n]) (replicate n x)"
proof (induction n arbitrary: i)
  case (Suc n)
  have "[i..<i + Suc n] = i # [Suc i..<Suc i + n]" by (simp add: upt_rec)
  then show ?case
    using Suc.IH [of "Suc i"] Suc.prems by (simp add: field_bounded)
qed (simp add: no_bounded)

lemma array_bounded:
  assumes "bounded_decoder c x"
  shows "bounded_decoder (arrayCodec n c) (VArray (replicate n x))"
proof
  let ?es = "map (\<lambda>i. (i, c)) [0..<n]"
  fix data rest v
  assume "dec (arrayCodec n c) data (VArray (replicate n x)) = Inr (rest, v)"
  then obtain vs where "decFields ?es data ([] @ replicate n x) = Inr (rest, vs)" "v = VArray vs"
    by (auto simp: arrayCodec_def Let_def bindE_Inr_iff)
  with decFields_cells [OF array_bounded_entries [OF assms, of 0 n], of "[]" data rest vs]
  show "cells v + minSize (arrayCodec n c) + length rest \<le> length data"
    by (simp add: arrayCodec_def Let_def comp_def sum_list_triv)
qed

lemma SetMapIndex_cells:
  "cells (VMap (SetMapIndex m k v)) \<le> cells (VMap m) + 1 + cells k + cells v"
  by (induction m k v rule: SetMapIndex.induct) auto

lemma decEntries_cells:
  assumes "bounded_decoder kc kz" "bounded_decoder vc vz" "0 < minSize kc + minSize vc"
  shows "decEntries kc kz vc vz n data m = Inr (rest, m') \<Longrightarrow>
    cells (VMap m') + length rest \<le> cells (VMap m) + length data"
proof (induction n arbitrary: data m)
  case (Suc n)
  then obtain d1 k d2 v where k: "dec kc data kz = Inr (d1, k)" and v: "dec vc d1 vz = Inr (d2, v)"
    and e: "decEntries kc kz vc vz n d2 (SetMapIndex m k v) = Inr (rest, m')"
    by (auto simp: bindE_Inr_iff)
  from bounded_decoder.dec_cells [OF assms(1) k] bounded_decoder.dec_cells [OF assms(2) v]
    Suc.IH [OF e] SetMapIndex_cells [of m k v] assms(3)
  show ?case by linarith
qed simp

lemma map_bounded:
  assumes "bounded_decoder kc kz" "bounded_decoder vc vz" "0 < minSize kc + minSize vc"
  shows "bounded_decoder (mapCodec kc kz vc vz) y"
proof
  fix data rest v
  assume "dec (mapCodec kc kz vc vz) data y = Inr (rest, v)"
  then obtain n mid m where r: "readCount data (minSize kc + minSize vc) = Inr (n, mid)"
    and d: "decEntries kc kz vc vz n mid [] = Inr (rest, m)" and v: "v = VMap m"
    by (auto simp: mapCodec_def decodeMap_def bindE_Inr_iff)
  from readCount_consumes(1) [OF r] obtain u where "data = u @ mid" "1 \<le> length u" by blast
  with decEntries_cells [OF assms d] v
  show "cells v + minSize (mapCodec kc kz vc vz) + length rest \<le> length data"
    by (simp add: mapCodec_def)
qed

lemma cells_zero [simp]: "cells (zeroValue t) = 0" "(\<Sum>v\<leftarrow>zeroFields fs. cells v) = 0"
proof (induction t and fs rule: zeroValue_zeroFields.induct)
  case (1 k)
  then show ?case by (cases k) auto
qed (auto simp: sum_list_replicate)

lemma compile_bounded:
  "compile t = Inr c \<Longrightarrow> dense t \<Longrightarrow> bounded_decoder c (zeroValue t)"
  "compileFields i fs = Inr es \<Longrightarrow> denseFields fs \<Longrightarrow> bounded_entries i es (zeroFields fs)"
proof (induction t and i fs arbitrary: c and es rule: compile_compileFields.induct)
  case (1 k)
  then show ?case
    using scalar_bounded [of k] strB.bounded_decoder_axioms by (auto split: option.splits if_splits)
next
  case (2 t)
  then show ?case
    using bytB.bounded_decoder_axioms
    by (auto simp: bindE_Inr_iff planMin_def split: if_splits
        intro: bounded_decoder.slice_bounded)
next
  case (3 n t)
  then obtain ec where "scalarCodec (Kind t) = Some ec" "c = arrayCodec n ec"
    by (auto split: option.splits)
  then show ?case using array_bounded [OF scalar_bounded] by simp
next
  case (4 kt vt)
  then obtain kc vc where "compile kt = Inr kc" "compile vt = Inr vc"
    "c = mapCodec kc (zeroValue kt) vc (zeroValue vt)"
    by (auto simp: bindE_Inr_iff)
  with 4 show ?case by (auto simp: planMin_def intro!: map_bounded)
next
  case (5 fs)
  then show ?case by (auto simp: bindE_Inr_iff intro!: struct_bounded)
next
  case (6 t)
  then show ?case
    by (auto simp: bindE_Inr_iff split: if_splits intro: bounded_decoder.pointer_bounded)
next
  case (8 i nm pk tg t fs)
  then show ?case
    by (cases "onWire pk tg") (auto simp: bindE_Inr_iff intro: skip_bounded field_bounded)
qed (simp add: no_bounded)

text \<open>
  C33. A payload cannot be a decompression bomb: whatever bytes arrive, the slice and map
  elements and string bytes of the message they decode to are no more than the bytes received, for
  every type without zero-size elements.\<close>

theorem payload_bounds_message:
  assumes "plansOk plans" "dense (RStruct fs)"
    and "fst (wc_Unmarshal plans (RPointer (RStruct fs)) data) = Inr m"
  shows "cells m \<le> length data"
proof -
  have "\<exists>c. compile (RStruct fs) = Inr c"
    using assms plan_of [OF assms(1), of "RStruct fs"]
    by (cases "compile (RStruct fs)") (auto simp: wc_Unmarshal_def split_beta Let_def)
  then obtain c where c: "compile (RStruct fs) = Inr c" by blast
  from assms(3) obtain v where "dec c data (zeroValue (RStruct fs)) = Inr ([], v)" "m = VPtr v"
    by (auto simp: Unmarshal_struct [OF assms(1) c] bindE_Inr_iff split: if_splits)
  with bounded_decoder.dec_cells [OF compile_bounded(1) [OF c assms(2)]] show ?thesis by fastforce
qed

theorem payload_bounds_message_witness:
  "cells (VPtr (VStruct [VSlice [VUint 5]])) \<le> length ([1, 5, 0] :: bytes)"
proof (rule payload_bounds_message [OF plansOk_empty])
  let ?fs = "[RField ''A'' [] [] (RSlice (RBasic KUint16))]"
  show "dense (RStruct ?fs)"
    by (simp add: planMin_def uintCodec_def fixedCodec_def onWire_def)
  have "compile (RStruct ?fs) = Inr (structCodec [(0, sliceCodec (uintCodec 2) (VUint 0))])"
    by (simp add: onWire_def)
  from Unmarshal_struct [OF plansOk_empty this]
  show "fst (wc_Unmarshal Map.empty (RPointer (RStruct ?fs)) [1, 5, 0]) = Inr (VPtr (VStruct [VSlice [VUint 5]]))"
    by (simp add: structCodec_def sliceCodec_def readCount_def Uvarint_def uintCodec_def
        fixedCodec_def MaxVarintLen64_def)
qed

end
