(* ===== verification/Session.thy ===== *)
theory Session
  imports Transport_Host
begin

text \<open>
  The session layer, \<open>pkg/transport/session.go\<close>: the handshake that binds an ephemeral transport
  address to a stable logical host, the two maps between them, and the framing byte.

  \<^item> A \<open>sessionLayer\<close> is the struct: \<open>sl_sessions\<close> keyed by the printed address, the two host maps.
    Calls into the transport, session events and delivered application messages are appended to
    \<open>tcalls\<close>, \<open>sevents\<close> and \<open>toRuntime\<close> in the order they are made.
  \<^item> The handler goroutine takes one input at a time, so a step is one call of a \<open>dispatch\<close>
    function: \<open>session_step\<close>.  The transport is whoever chooses the inputs.
  \<^item> \<open>time.AfterFunc\<close> is an entry of \<open>armed\<close>.  A timer that goes off leaves \<open>armed\<close> and its
    callback waits in \<open>expired\<close> until the handler receives from \<open>handshakeTimeoutChan\<close>;
    \<open>Stop\<close> removes an armed entry and does nothing to a callback that is already waiting.
  \<^item> A cancelled context and logging are not modelled.
\<close>

subsection \<open>Data\<close>

datatype session_layer_event =
    SessionConnected Host
  | SessionDisconnected Host
  | SessionFailed Host
  | SessionVersionMismatch Host "8 word" bool

fun event_Host :: "session_layer_event \<Rightarrow> Host" where
  "event_Host (SessionConnected h) = h"
| "event_Host (SessionDisconnected h) = h"
| "event_Host (SessionFailed h) = h"
| "event_Host (SessionVersionMismatch h v inbound) = h"

text \<open>\<open>LayerIdentifier\<close> and \<open>HandshakeType\<close> are written as one byte.\<close>

definition ApplicationLayer :: byte where "ApplicationLayer = 0"
definition SessionLayerId :: byte where "SessionLayerId = 1"

definition HandshakeHello :: byte where "HandshakeHello = 1"
definition HandshakeAck :: byte where "HandshakeAck = 2"
definition HandshakeReject :: byte where "HandshakeReject = 3"

definition ProtocolVersion :: byte where "ProtocolVersion = 1"

lemmas session_bytes = ApplicationLayer_def SessionLayerId_def HandshakeHello_def
  HandshakeAck_def HandshakeReject_def

datatype SessionState =
    SessionStateIdle
  | SessionStateHandshakingClient
  | SessionStateHandshakingServer
  | SessionStateEstablished
  | SessionStateFailed
  | SessionStateClosing

datatype hs_error =
    PayloadEmpty
  | UnknownType byte
  | ReadVersion ioerror
  | VersionMismatch byte
  | HelloHost ioerror
  | EncodeHelloFailed ioerror
  | PeerRejected Host byte
  | AckTimedOut Host

record sessionConn =
  logicalHost :: Host
  transportAddr :: Address
  sstate :: SessionState
  lastErr :: "hs_error option"
  handshakeTimer :: "nat option"

datatype transport_call =
    TConnect Address
  | TDisconnect Address
  | TSend bytes Address

record sessionLayer =
  sl_self :: Host
  sl_sessions :: "string \<rightharpoonup> sessionConn"
  transportToLogical :: "string \<rightharpoonup> Host"
  logicalToTransport :: "Host \<rightharpoonup> Address"
  armed :: "(nat \<times> Address) list"
  expired :: "Address list"
  nextHsTimer :: nat
  tcalls :: "transport_call list"
  sevents :: "session_layer_event list"
  toRuntime :: "(Host \<times> bytes) list"

text \<open>\<open>Address.String\<close>; a nil interface has no methods and never gets this far.\<close>

fun Address_String :: "Address \<Rightarrow> string" where
  "Address_String (HostAddress h) = Host_String h"
| "Address_String (HostPointer (Some h)) = Host_String h"
| "Address_String (OtherAddress s) = s"
| "Address_String _ = []"

fun hostFromAddress :: "Address \<Rightarrow> Host \<times> bool" where
  "hostFromAddress (HostAddress h) = (h, True)"
| "hostFromAddress (HostPointer (Some h)) = (h, True)"
| "hostFromAddress _ = (zeroHost, False)"

definition NewSessionLayer :: "Host \<Rightarrow> sessionLayer" where
  "NewSessionLayer h = \<lparr> sl_self = h, sl_sessions = Map.empty, transportToLogical = Map.empty,
     logicalToTransport = Map.empty, armed = [], expired = [], nextHsTimer = 0,
     tcalls = [], sevents = [], toRuntime = [] \<rparr>"

subsection \<open>Framing\<close>

definition frameFor :: "byte \<Rightarrow> bytes \<Rightarrow> bytes" where
  "frameFor layer body = layer # body"

fun splitFrame :: "bytes \<Rightarrow> byte \<times> bytes" where
  "splitFrame [] = (ApplicationLayer, [])"
| "splitFrame (header # buffer) = (header, buffer)"

subsection \<open>Handshake payloads\<close>

definition encodeHello :: "Host \<Rightarrow> hs_error + bytes" where
  "encodeHello h =
     mapErr EncodeHelloFailed (WriteHost (WriteByte (WriteByte [] HandshakeHello) ProtocolVersion) h)"

definition encodeAck :: bytes where
  "encodeAck = WriteByte [] HandshakeAck"

definition encodeReject :: bytes where
  "encodeReject = WriteByte (WriteByte [] HandshakeReject) ProtocolVersion"

record handshakePayload =
  htyp :: byte
  hhost :: Host
  hversion :: byte

text \<open>The parsers return the payload read so far beside the error.\<close>

definition parseHello :: "handshakePayload \<Rightarrow> bytes \<Rightarrow> handshakePayload \<times> hs_error option" where
  "parseHello p buf =
     (case ReadByte buf of
        Inl e \<Rightarrow> (p, Some (ReadVersion e))
      | Inr (v, buf) \<Rightarrow>
          (let p = p\<lparr>hversion := v\<rparr> in
           if v \<noteq> ProtocolVersion then (p, Some (VersionMismatch v))
           else case ReadHost buf of
                  Inl e \<Rightarrow> (p, Some (HelloHost e))
                | Inr (h, buf) \<Rightarrow> (p\<lparr>hhost := h\<rparr>, None)))"

definition parseHandshakePayload :: "bytes \<Rightarrow> handshakePayload \<times> hs_error option" where
  "parseHandshakePayload buf =
     (let p = \<lparr>htyp = 0, hhost = zeroHost, hversion = 0\<rparr> in
      case ReadByte buf of
        Inl e \<Rightarrow> (p, Some PayloadEmpty)
      | Inr (msgType, buf) \<Rightarrow>
          (let q = p\<lparr>htyp := msgType\<rparr> in
           if msgType = HandshakeHello then parseHello q buf
           else if msgType = HandshakeAck then (q, None)
           else if msgType = HandshakeReject then
             (case ReadByte buf of
                Inl e \<Rightarrow> (q, Some (ReadVersion e))
              | Inr (v, _) \<Rightarrow> (q\<lparr>hversion := v\<rparr>, None))
           else (p, Some (UnknownType msgType))))"

subsection \<open>Host maps, sevents and timers of the layer\<close>

definition emitEvent :: "session_layer_event \<Rightarrow> sessionLayer \<Rightarrow> sessionLayer" where
  "emitEvent ev L = L\<lparr>sevents := sevents L @ [ev]\<rparr>"

definition callTransport :: "transport_call \<Rightarrow> sessionLayer \<Rightarrow> sessionLayer" where
  "callTransport c L = L\<lparr>tcalls := tcalls L @ [c]\<rparr>"

definition setServerMapping :: "Address \<Rightarrow> Host \<Rightarrow> sessionLayer \<Rightarrow> sessionLayer" where
  "setServerMapping addr logical L = L\<lparr>
     transportToLogical := (transportToLogical L)(Address_String addr \<mapsto> logical),
     logicalToTransport := (logicalToTransport L)(logical \<mapsto> addr)\<rparr>"

definition cleanupServerMapping :: "Address \<Rightarrow> sessionLayer \<Rightarrow> sessionLayer" where
  "cleanupServerMapping addr L =
     (case transportToLogical L (Address_String addr) of
        None \<Rightarrow> L
      | Some logical \<Rightarrow> L\<lparr>
          transportToLogical := (transportToLogical L)(Address_String addr := None),
          logicalToTransport := (logicalToTransport L)(logical := None)\<rparr>)"

definition resolveUnderlyingHost :: "Host \<Rightarrow> sessionLayer \<Rightarrow> Address" where
  "resolveUnderlyingHost sendTo L =
     (case logicalToTransport L sendTo of Some addr \<Rightarrow> addr | None \<Rightarrow> HostAddress sendTo)"

definition logicalFor :: "Address \<Rightarrow> sessionLayer \<Rightarrow> Host" where
  "logicalFor addr L =
     (case transportToLogical L (Address_String addr) of
        Some logical \<Rightarrow> logical
      | None \<Rightarrow> (let (h, ok) = hostFromAddress addr in if ok then h else zeroHost))"

definition armHandshakeTimer :: "sessionConn \<Rightarrow> sessionLayer \<Rightarrow> sessionConn \<times> sessionLayer" where
  "armHandshakeTimer s L =
     (s\<lparr>handshakeTimer := Some (nextHsTimer L)\<rparr>,
      L\<lparr>armed := armed L @ [(nextHsTimer L, transportAddr s)], nextHsTimer := nextHsTimer L + 1\<rparr>)"

definition stopHandshakeTimer :: "sessionConn \<Rightarrow> sessionLayer \<Rightarrow> sessionConn \<times> sessionLayer" where
  "stopHandshakeTimer s L =
     (case handshakeTimer s of
        None \<Rightarrow> (s, L)
      | Some i \<Rightarrow> (s\<lparr>handshakeTimer := None\<rparr>, L\<lparr>armed := filter (\<lambda>t. fst t \<noteq> i) (armed L)\<rparr>))"

subsection \<open>The state machine of a session\<close>

definition handleClientConnectRequested ::
  "sessionConn \<Rightarrow> sessionLayer \<Rightarrow> sessionConn \<times> sessionLayer" where
  "handleClientConnectRequested s L =
     (if sstate s \<in> {SessionStateIdle, SessionStateFailed, SessionStateClosing}
      then (s\<lparr>sstate := SessionStateHandshakingClient\<rparr>, callTransport (TConnect (transportAddr s)) L)
      else (s, L))"

definition handleConnected :: "sessionConn \<Rightarrow> sessionLayer \<Rightarrow> sessionConn \<times> sessionLayer" where
  "handleConnected s L =
     (if sstate s = SessionStateHandshakingClient then
        (case encodeHello (sl_self L) of
           Inl err \<Rightarrow>
             (s\<lparr>lastErr := Some err, sstate := SessionStateFailed\<rparr>,
              emitEvent (SessionFailed (logicalHost s)) L)
         | Inr helloPayload \<Rightarrow>
             armHandshakeTimer s
               (callTransport (TSend (frameFor SessionLayerId helloPayload) (transportAddr s)) L))
      else (s, L))"

definition logicalHostOrTransport :: "sessionConn \<Rightarrow> Host" where
  "logicalHostOrTransport s =
     (if Port (logicalHost s) \<noteq> 0 then logicalHost s
      else let (h, ok) = hostFromAddress (transportAddr s) in if ok then h else zeroHost)"

definition rejectHandshake ::
  "byte \<Rightarrow> sessionConn \<Rightarrow> sessionLayer \<Rightarrow> sessionConn \<times> sessionLayer" where
  "rejectHandshake peerVersion s L =
     (let L = callTransport (TSend (frameFor SessionLayerId encodeReject) (transportAddr s)) L;
          s = s\<lparr>sstate := SessionStateFailed\<rparr>;
          L = emitEvent (SessionVersionMismatch (logicalHostOrTransport s) peerVersion True) L
      in (s, callTransport (TDisconnect (transportAddr s)) L))"

definition handleServerHandshake ::
  "handshakePayload \<Rightarrow> sessionConn \<Rightarrow> sessionLayer \<Rightarrow> sessionConn \<times> sessionLayer" where
  "handleServerHandshake p s L =
     (if htyp p = HandshakeHello then
        let s = s\<lparr>logicalHost := hhost p\<rparr>;
            L = callTransport (TSend (frameFor SessionLayerId encodeAck) (transportAddr s)) L;
            s = s\<lparr>sstate := SessionStateEstablished\<rparr>;
            L = setServerMapping (transportAddr s) (logicalHost s) L
        in (s, emitEvent (SessionConnected (logicalHost s)) L)
      else (s, L))"

definition handleClientHandshake ::
  "handshakePayload \<Rightarrow> sessionConn \<Rightarrow> sessionLayer \<Rightarrow> sessionConn \<times> sessionLayer" where
  "handleClientHandshake p s L =
     (if htyp p = HandshakeAck then
        let (s, L) = stopHandshakeTimer s L;
            s = s\<lparr>sstate := SessionStateEstablished\<rparr>;
            L = setServerMapping (transportAddr s) (logicalHost s) L
        in (s, emitEvent (SessionConnected (logicalHost s)) L)
      else if htyp p = HandshakeReject then
        let (s, L) = stopHandshakeTimer s L;
            s = s\<lparr>sstate := SessionStateFailed,
                  lastErr := Some (PeerRejected (logicalHost s) (hversion p))\<rparr>;
            L = emitEvent (SessionVersionMismatch (logicalHost s) (hversion p) False) L
        in (s, callTransport (TDisconnect (transportAddr s)) L)
      else (s, L))"

definition handleHandshakeMessage ::
  "bytes \<Rightarrow> sessionConn \<Rightarrow> sessionLayer \<Rightarrow> sessionConn \<times> sessionLayer" where
  "handleHandshakeMessage body s L =
     (case parseHandshakePayload body of
        (p, Some err) \<Rightarrow>
          (let s = s\<lparr>lastErr := Some err\<rparr> in
           case err of
             VersionMismatch v \<Rightarrow> rejectHandshake (hversion p) s L
           | _ \<Rightarrow> (s, L))
      | (p, None) \<Rightarrow>
          if sstate s = SessionStateHandshakingServer then handleServerHandshake p s L
          else if sstate s = SessionStateHandshakingClient then handleClientHandshake p s L
          else (s, L))"

definition handleDisconnected :: "sessionConn \<Rightarrow> sessionLayer \<Rightarrow> sessionConn \<times> sessionLayer" where
  "handleDisconnected s L =
     (let (s, L) = stopHandshakeTimer s L in
      if sstate s \<in> {SessionStateEstablished, SessionStateHandshakingClient, SessionStateHandshakingServer}
      then let s = s\<lparr>sstate := SessionStateClosing\<rparr>;
               logical = logicalFor (transportAddr s) L;
               L = cleanupServerMapping (transportAddr s) L
           in (s, emitEvent (SessionDisconnected logical) L)
      else (s\<lparr>sstate := SessionStateFailed\<rparr>, L))"

definition handleFailed :: "sessionConn \<Rightarrow> sessionLayer \<Rightarrow> sessionConn \<times> sessionLayer" where
  "handleFailed s L =
     (let (s, L) = stopHandshakeTimer s L;
          logical = logicalFor (transportAddr s) L;
          L = cleanupServerMapping (transportAddr s) L;
          s = s\<lparr>sstate := SessionStateFailed\<rparr>
      in (s, emitEvent (SessionFailed logical) L))"

subsection \<open>The handler goroutine\<close>

definition withSession ::
  "Address \<Rightarrow> Host \<Rightarrow> (sessionConn \<Rightarrow> sessionLayer \<Rightarrow> sessionConn \<times> sessionLayer)
   \<Rightarrow> sessionLayer \<Rightarrow> sessionLayer" where
  "withSession addr logical fn L =
     (let key = Address_String addr;
          sc = (case sl_sessions L key of
                  None \<Rightarrow> \<lparr> logicalHost = logical, transportAddr = addr, sstate = SessionStateIdle,
                            lastErr = None, handshakeTimer = None \<rparr>
                | Some sc \<Rightarrow> if Port logical \<noteq> 0 then sc\<lparr>logicalHost := logical\<rparr> else sc);
          (sc, L) = fn sc L
      in L\<lparr>sl_sessions := (sl_sessions L)(key \<mapsto> sc)\<rparr>)"

definition idleToServer :: "sessionConn \<Rightarrow> sessionConn" where
  "idleToServer sc =
     (if sstate sc = SessionStateIdle then sc\<lparr>sstate := SessionStateHandshakingServer\<rparr> else sc)"

definition dispatchHandshakeMessage :: "Address \<Rightarrow> bytes \<Rightarrow> sessionLayer \<Rightarrow> sessionLayer" where
  "dispatchHandshakeMessage addr body L =
     withSession addr zeroHost (\<lambda>sc. handleHandshakeMessage body (idleToServer sc)) L"

definition dispatchConnected :: "Address \<Rightarrow> sessionLayer \<Rightarrow> sessionLayer" where
  "dispatchConnected addr L = withSession addr zeroHost (\<lambda>sc. handleConnected (idleToServer sc)) L"

definition dispatchDisconnected :: "Address \<Rightarrow> sessionLayer \<Rightarrow> sessionLayer" where
  "dispatchDisconnected addr L = withSession addr zeroHost handleDisconnected L"

definition dispatchFailed :: "Address \<Rightarrow> sessionLayer \<Rightarrow> sessionLayer" where
  "dispatchFailed addr L = withSession addr zeroHost handleFailed L"

definition dispatchHandshakeTimeout :: "Address \<Rightarrow> sessionLayer \<Rightarrow> sessionLayer" where
  "dispatchHandshakeTimeout addr L =
     (case sl_sessions L (Address_String addr) of
        None \<Rightarrow> L
      | Some sc \<Rightarrow>
          if sstate sc \<noteq> SessionStateHandshakingClient then L
          else let (sc, L) = stopHandshakeTimer sc L;
                   sc = sc\<lparr>sstate := SessionStateFailed, lastErr := Some (AckTimedOut (logicalHost sc))\<rparr>;
                   L = L\<lparr>sl_sessions := (sl_sessions L)(Address_String addr \<mapsto> sc)\<rparr>;
                   L = emitEvent (SessionFailed (logicalHost sc)) L
               in callTransport (TDisconnect addr) L)"

definition transportMessageHandler :: "Address \<Rightarrow> bytes \<Rightarrow> sessionLayer \<Rightarrow> sessionLayer" where
  "transportMessageHandler peer msg L =
     (let (layer, body) = splitFrame msg in
      if layer = ApplicationLayer then
        L\<lparr>toRuntime := toRuntime L @ [(logicalFor peer L, body)]\<rparr>
      else if layer = SessionLayerId then dispatchHandshakeMessage peer body L
      else L)"

datatype transport_event = Connected Address | Disconnected Address | Failed Address

fun transportEventHandler :: "transport_event \<Rightarrow> sessionLayer \<Rightarrow> sessionLayer" where
  "transportEventHandler (Connected a) L = dispatchConnected a L"
| "transportEventHandler (Disconnected a) L = dispatchDisconnected a L"
| "transportEventHandler (Failed a) L = dispatchFailed a L"

definition connectClient :: "Host \<Rightarrow> sessionLayer \<Rightarrow> sessionLayer" where
  "connectClient h L = withSession (HostAddress h) h handleClientConnectRequested L"

definition session_disconnect :: "Host \<Rightarrow> sessionLayer \<Rightarrow> sessionLayer" where
  "session_disconnect h L =
     (let addr = resolveUnderlyingHost h L
      in cleanupServerMapping addr (callTransport (TDisconnect addr) L))"

definition session_send :: "bytes \<Rightarrow> Host \<Rightarrow> sessionLayer \<Rightarrow> sessionLayer" where
  "session_send msg sendTo L =
     (let underlying = resolveUnderlyingHost sendTo L
      in callTransport (TSend (frameFor ApplicationLayer msg) underlying) L)"

text \<open>What the handler can receive from its channels; \<open>TimerGoesOff\<close> is the clock's step that
  precedes a \<open>HandshakeTimeout\<close>.\<close>

datatype session_input =
    TransportMessage Address bytes
  | TransportEvent transport_event
  | ConnectRequest Host
  | DisconnectRequest Host
  | SendRequest bytes Host
  | TimerGoesOff nat
  | HandshakeTimeout Address

fun timerGoesOff :: "nat \<Rightarrow> sessionLayer \<Rightarrow> sessionLayer" where
  "timerGoesOff i L = L\<lparr>
     expired := expired L @ map snd (filter (\<lambda>t. fst t = i) (armed L)),
     armed := filter (\<lambda>t. fst t \<noteq> i) (armed L)\<rparr>"

fun session_step :: "session_input \<Rightarrow> sessionLayer \<Rightarrow> sessionLayer" where
  "session_step (TransportMessage a msg) L = transportMessageHandler a msg L"
| "session_step (TransportEvent e) L = transportEventHandler e L"
| "session_step (ConnectRequest h) L = connectClient h L"
| "session_step (DisconnectRequest h) L = session_disconnect h L"
| "session_step (SendRequest msg h) L = session_send msg h L"
| "session_step (TimerGoesOff i) L = timerGoesOff i L"
| "session_step (HandshakeTimeout a) L =
     (if a \<in> set (expired L)
      then dispatchHandshakeTimeout a (L\<lparr>expired := remove1 a (expired L)\<rparr>) else L)"

definition session_run :: "session_input list \<Rightarrow> sessionLayer \<Rightarrow> sessionLayer" where
  "session_run is L = fold session_step is L"

end
