(* ===== verification/Session_Safety.thy ===== *)
theory Session_Safety
  imports Session
begin

text \<open>
  What the session layer promises and where it does not: the handshake between two nodes, refusal
  of another wire version, what a \<open>SessionConnected\<close> means, the bound on the wait for an answer,
  and the corners in which an address is never listened to again, a disconnect is reported under
  the wrong host, or a live session loses its route.
\<close>

named_theorems session_defs \<open>unfolding one step of the session layer\<close>

declare withSession_def [session_defs] dispatchHandshakeMessage_def [session_defs]
  dispatchConnected_def [session_defs] dispatchDisconnected_def [session_defs]
  dispatchFailed_def [session_defs] transportMessageHandler_def [session_defs]
  connectClient_def [session_defs] idleToServer_def [session_defs]
  handleClientConnectRequested_def [session_defs] handleConnected_def [session_defs]
  handleHandshakeMessage_def [session_defs] handleServerHandshake_def [session_defs]
  handleClientHandshake_def [session_defs] rejectHandshake_def [session_defs]
  handleDisconnected_def [session_defs] handleFailed_def [session_defs]
  emitEvent_def [session_defs] callTransport_def [session_defs]
  setServerMapping_def [session_defs] armHandshakeTimer_def [session_defs]
  frameFor_def [session_defs] Let_def [session_defs]

subsection \<open>Handshake payloads\<close>

definition hello_image :: "Host \<Rightarrow> bytes" where
  "hello_image h = HandshakeHello # ProtocolVersion # host_image h"

lemma encodeHello_image: "host_ok h \<Longrightarrow> encodeHello h = Inr (hello_image h)"
  by (simp add: encodeHello_def WriteByte_def host.wr_image hello_image_def)

lemma parse_hello:
  "host_ok h \<Longrightarrow> parseHandshakePayload (hello_image h @ r) =
     (\<lparr>htyp = HandshakeHello, hhost = h, hversion = ProtocolVersion\<rparr>, None)"
  by (simp add: parseHandshakePayload_def parseHello_def hello_image_def host.rd_image Let_def)

lemma parse_hello_nil [simp]:
  "host_ok h \<Longrightarrow> parseHandshakePayload (hello_image h) =
     (\<lparr>htyp = HandshakeHello, hhost = h, hversion = ProtocolVersion\<rparr>, None)"
  using parse_hello [of h "[]"] by simp

lemma parse_ack [simp]:
  "parseHandshakePayload encodeAck = (\<lparr>htyp = HandshakeAck, hhost = zeroHost, hversion = 0\<rparr>, None)"
  by (simp add: parseHandshakePayload_def encodeAck_def WriteByte_def session_bytes Let_def)

lemma parse_reject [simp]:
  "parseHandshakePayload encodeReject =
     (\<lparr>htyp = HandshakeReject, hhost = zeroHost, hversion = ProtocolVersion\<rparr>, None)"
  by (simp add: parseHandshakePayload_def encodeReject_def WriteByte_def session_bytes Let_def)

lemma parse_hello_other_version:
  "v \<noteq> ProtocolVersion \<Longrightarrow> parseHandshakePayload (HandshakeHello # v # r) =
     (\<lparr>htyp = HandshakeHello, hhost = zeroHost, hversion = v\<rparr>, Some (VersionMismatch v))"
  by (simp add: parseHandshakePayload_def parseHello_def Let_def)

lemma zeroHost_Port [simp]: "Port zeroHost = 0"
  by (simp add: zeroHost_def)

lemma layer_bytes_differ [simp]:
  "SessionLayerId \<noteq> ApplicationLayer" "ApplicationLayer \<noteq> SessionLayerId"
  "HandshakeAck \<noteq> HandshakeHello" "HandshakeReject \<noteq> HandshakeHello" "HandshakeReject \<noteq> HandshakeAck"
  "HandshakeHello \<noteq> HandshakeAck"
  by (simp_all add: session_bytes)

text \<open>The entry \<open>withSession\<close> hands to its callback.\<close>

definition sessionEntry :: "Address \<Rightarrow> Host \<Rightarrow> sessionLayer \<Rightarrow> sessionConn" where
  "sessionEntry a h L =
     (case sl_sessions L (Address_String a) of
        None \<Rightarrow> \<lparr> logicalHost = h, transportAddr = a, sstate = SessionStateIdle,
                  lastErr = None, handshakeTimer = None \<rparr>
      | Some sc \<Rightarrow> if Port h \<noteq> 0 then sc\<lparr>logicalHost := h\<rparr> else sc)"

lemma withSession_eq:
  "withSession a h f L =
     (case f (sessionEntry a h L) L of (sc, L') \<Rightarrow>
        L'\<lparr>sl_sessions := (sl_sessions L')(Address_String a \<mapsto> sc)\<rparr>)"
  by (simp add: withSession_def sessionEntry_def Let_def)

lemma sessionEntry_known [simp]:
  "sl_sessions L (Address_String a) = Some sc \<Longrightarrow> sessionEntry a zeroHost L = sc"
  by (simp add: sessionEntry_def)

lemma handshake_frame:
  "transportMessageHandler a (SessionLayerId # body) L = dispatchHandshakeMessage a body L"
  by (simp add: transportMessageHandler_def)

lemma client_message:
  assumes "sl_sessions L (Address_String a) = Some sc" "sstate sc = SessionStateHandshakingClient"
    and "parseHandshakePayload body = (p, None)"
  shows "dispatchHandshakeMessage a body L =
    (case handleClientHandshake p sc L of (sc', L') \<Rightarrow>
       L'\<lparr>sl_sessions := (sl_sessions L')(Address_String a \<mapsto> sc')\<rparr>)"
  using assms by (simp add: dispatchHandshakeMessage_def withSession_eq idleToServer_def
      handleHandshakeMessage_def)

subsection \<open>The handshake of two nodes\<close>

text \<open>\<open>sessionState\<close> reads the state of an address; one that was never seen is idle.\<close>

definition sessionState :: "Address \<Rightarrow> sessionLayer \<Rightarrow> SessionState" where
  "sessionState a L =
     (case sl_sessions L (Address_String a) of None \<Rightarrow> SessionStateIdle | Some sc \<Rightarrow> sstate sc)"

definition dialable :: "Host \<Rightarrow> sessionLayer \<Rightarrow> bool" where
  "dialable b L =
     (Port b \<noteq> 0 \<and>
      (case sl_sessions L (Address_String (HostAddress b)) of
         None \<Rightarrow> True
       | Some sc \<Rightarrow> transportAddr sc = HostAddress b \<and>
           sstate sc \<in> {SessionStateIdle, SessionStateFailed, SessionStateClosing}))"

definition inSession :: "Address \<Rightarrow> Host \<Rightarrow> SessionState \<Rightarrow> sessionLayer \<Rightarrow> bool" where
  "inSession a h st L =
     (\<exists>sc. sl_sessions L (Address_String a) = Some sc \<and> transportAddr sc = a \<and>
           logicalHost sc = h \<and> sstate sc = st)"

lemma client_dials:
  assumes "dialable b A" "host_ok (sl_self A)"
  defines "A' \<equiv> dispatchConnected (HostAddress b) (connectClient b A)"
  shows "inSession (HostAddress b) b SessionStateHandshakingClient A'"
    and "tcalls A' = tcalls A @ [TConnect (HostAddress b),
      TSend (frameFor SessionLayerId (hello_image (sl_self A))) (HostAddress b)]"
    and "sevents A' = sevents A" and "sl_self A' = sl_self A" and "toRuntime A' = toRuntime A"
  using assms(1,2) unfolding A'_def
  by (auto simp: session_defs dialable_def inSession_def encodeHello_image split: option.splits)

lemma server_hello:
  assumes "sl_sessions B (Address_String e) = None" "host_ok h"
  defines "B' \<equiv> transportMessageHandler e (frameFor SessionLayerId (hello_image h)) (dispatchConnected e B)"
  shows "inSession e h SessionStateEstablished B'"
    and "tcalls B' = tcalls B @ [TSend (frameFor SessionLayerId encodeAck) e]"
    and "sevents B' = sevents B @ [SessionConnected h]" and "toRuntime B' = toRuntime B"
    and "transportToLogical B' (Address_String e) = Some h" and "logicalToTransport B' h = Some e"
  using assms(1,2) unfolding B'_def
  by (simp_all add: session_defs inSession_def)

lemma client_ack:
  assumes "inSession a h SessionStateHandshakingClient A"
  defines "A' \<equiv> transportMessageHandler a (frameFor SessionLayerId encodeAck) A"
  shows "inSession a h SessionStateEstablished A'"
    and "tcalls A' = tcalls A"
    and "sevents A' = sevents A @ [SessionConnected h]" and "toRuntime A' = toRuntime A"
    and "transportToLogical A' (Address_String a) = Some h" and "logicalToTransport A' h = Some a"
proof -
  obtain sc where sc: "sl_sessions A (Address_String a) = Some sc" "transportAddr sc = a"
    "logicalHost sc = h" "sstate sc = SessionStateHandshakingClient"
    using assms(1) by (auto simp: inSession_def)
  note eq = client_message [OF sc(1,4) parse_ack]
  have A': "A' = dispatchHandshakeMessage a encodeAck A"
    by (simp add: A'_def frameFor_def handshake_frame)
  show "inSession a h SessionStateEstablished A'" "tcalls A' = tcalls A"
    "sevents A' = sevents A @ [SessionConnected h]" "toRuntime A' = toRuntime A"
    "transportToLogical A' (Address_String a) = Some h" "logicalToTransport A' h = Some a"
    unfolding A' eq using sc
    by (simp_all add: handleClientHandshake_def stopHandshakeTimer_def setServerMapping_def
        emitEvent_def inSession_def Let_def split: option.splits)
qed

lemma application_frames:
  "logicalToTransport L h = Some a \<Longrightarrow>
     tcalls (session_send m h L) = tcalls L @ [TSend (frameFor ApplicationLayer m) a]"
  "transportToLogical L (Address_String a) = Some h \<Longrightarrow>
     toRuntime (transportMessageHandler a (frameFor ApplicationLayer m) L) = toRuntime L @ [(h, m)]"
  by (simp_all add: session_send_def resolveUnderlyingHost_def logicalFor_def session_defs)

text \<open>C20. Over a connection that delivers what is sent, the handshake completes: the dialling node
  reports the host it dialled and the accepting node the dialler's logical host, not its
  ephemeral address; afterwards each node addresses the other by its logical host, and an
  application message sent either way arrives under the sender's logical host.\<close>

theorem handshake_completes:
  assumes "host_ok (sl_self A)" "dialable b A" "sl_sessions B (Address_String e) = None"
  defines "A1 \<equiv> dispatchConnected (HostAddress b) (connectClient b A)"
    and "hello \<equiv> frameFor SessionLayerId (hello_image (sl_self A))"
    and "ack \<equiv> frameFor SessionLayerId encodeAck"
  defines "B1 \<equiv> transportMessageHandler e hello (dispatchConnected e B)"
    and "A2 \<equiv> transportMessageHandler (HostAddress b) ack A1"
  shows "tcalls A1 = tcalls A @ [TConnect (HostAddress b), TSend hello (HostAddress b)] \<and>
    tcalls B1 = tcalls B @ [TSend ack e] \<and>
    sevents A2 = sevents A @ [SessionConnected b] \<and>
    sevents B1 = sevents B @ [SessionConnected (sl_self A)] \<and>
    tcalls (session_send m b A2) = tcalls A2 @ [TSend (frameFor ApplicationLayer m) (HostAddress b)] \<and>
    toRuntime (transportMessageHandler e (frameFor ApplicationLayer m) B1) =
      toRuntime B1 @ [(sl_self A, m)] \<and>
    tcalls (session_send m (sl_self A) B1) = tcalls B1 @ [TSend (frameFor ApplicationLayer m) e] \<and>
    toRuntime (transportMessageHandler (HostAddress b) (frameFor ApplicationLayer m) A2) =
      toRuntime A2 @ [(b, m)]"
proof -
  note dial = client_dials [OF assms(2,1), folded A1_def hello_def]
  note srv = server_hello [OF assms(3,1), folded hello_def ack_def, folded B1_def]
  note cli = client_ack [OF dial(1), folded ack_def, folded A2_def]
  show ?thesis
    using dial srv cli by (simp add: application_frames)
qed

theorem handshake_completes_witness:
  "sevents (transportMessageHandler (HostAddress (Host 7000 ''10.0.0.2''))
      (frameFor SessionLayerId encodeAck)
      (dispatchConnected (HostAddress (Host 7000 ''10.0.0.2''))
        (connectClient (Host 7000 ''10.0.0.2'') (NewSessionLayer (Host 7000 ''10.0.0.1'')))))
   = [SessionConnected (Host 7000 ''10.0.0.2'')]"
proof -
  let ?a = "Host 7000 ''10.0.0.1''" and ?b = "Host 7000 ''10.0.0.2''"
  have "host_ok (sl_self (NewSessionLayer ?a))" "dialable ?b (NewSessionLayer ?a)"
    "sl_sessions (NewSessionLayer ?b) (Address_String (HostAddress (Host 40000 ''10.0.0.1''))) = None"
    by (simp_all add: NewSessionLayer_def host_ok_def dialable_def)
  from handshake_completes [OF this] show ?thesis
    by (simp add: NewSessionLayer_def)
qed

subsection \<open>Another wire version\<close>

text \<open>A Hello of another wire version is answered with a Reject, reported as an inbound
  mismatch and the connection closed; at the dialler the Reject ends the attempt with an outbound
  mismatch that names the dialled host and the other side's version.  Neither side ever reports a
  session, and the closing of the connection adds no event.\<close>

lemma parse_reject_version:
  "parseHandshakePayload (HandshakeReject # w # r) =
     (\<lparr>htyp = HandshakeReject, hhost = zeroHost, hversion = w\<rparr>, None)"
  by (simp add: parseHandshakePayload_def session_bytes Let_def)

lemma disconnected_after_failed:
  "sl_sessions L (Address_String a) = Some sc \<Longrightarrow> sstate sc = SessionStateFailed \<Longrightarrow>
     sevents (dispatchDisconnected a L) = sevents L"
  by (auto simp: session_defs stopHandshakeTimer_def split: option.splits)

lemma server_rejects:
  fixes v :: byte and r :: bytes
  assumes "sl_sessions B (Address_String e) = None" "v \<noteq> ProtocolVersion"
  defines "B' \<equiv> transportMessageHandler e (SessionLayerId # HandshakeHello # v # r) (dispatchConnected e B)"
  shows "tcalls B' = tcalls B @ [TSend (frameFor SessionLayerId encodeReject) e, TDisconnect e]"
    and "\<exists>h. sevents B' = sevents B @ [SessionVersionMismatch h v True]"
    and "\<exists>sc. sl_sessions B' (Address_String e) = Some sc \<and> sstate sc = SessionStateFailed"
  using assms(1,2) unfolding B'_def
  by (simp_all add: session_defs parse_hello_other_version)

lemma client_rejected:
  fixes w :: byte and r :: bytes
  assumes "inSession a h SessionStateHandshakingClient A"
  defines "A' \<equiv> transportMessageHandler a (SessionLayerId # HandshakeReject # w # r) A"
  shows "tcalls A' = tcalls A @ [TDisconnect a]"
    and "sevents A' = sevents A @ [SessionVersionMismatch h w False]"
    and "\<exists>sc. sl_sessions A' (Address_String a) = Some sc \<and> sstate sc = SessionStateFailed"
proof -
  obtain sc where sc: "sl_sessions A (Address_String a) = Some sc" "transportAddr sc = a"
    "logicalHost sc = h" "sstate sc = SessionStateHandshakingClient"
    using assms(1) by (auto simp: inSession_def)
  note eq = client_message [OF sc(1,4) parse_reject_version]
  have A': "A' = dispatchHandshakeMessage a (HandshakeReject # w # r) A"
    by (simp add: A'_def handshake_frame)
  show "tcalls A' = tcalls A @ [TDisconnect a]"
    "sevents A' = sevents A @ [SessionVersionMismatch h w False]"
    "\<exists>sc. sl_sessions A' (Address_String a) = Some sc \<and> sstate sc = SessionStateFailed"
    unfolding A' eq using sc
    by (simp_all add: handleClientHandshake_def stopHandshakeTimer_def callTransport_def
        emitEvent_def Let_def split: option.splits)
qed

theorem version_mismatch_rejected:
  fixes v w :: byte and r r' :: bytes
  assumes "sl_sessions B (Address_String e) = None" "v \<noteq> ProtocolVersion"
    and "inSession a h SessionStateHandshakingClient A"
  defines "B1 \<equiv> transportMessageHandler e (SessionLayerId # HandshakeHello # v # r) (dispatchConnected e B)"
    and "A1 \<equiv> transportMessageHandler a (SessionLayerId # HandshakeReject # w # r') A"
  shows "tcalls B1 = tcalls B @ [TSend (frameFor SessionLayerId encodeReject) e, TDisconnect e] \<and>
    (\<exists>h'. sevents B1 = sevents B @ [SessionVersionMismatch h' v True]) \<and>
    sevents (dispatchDisconnected e B1) = sevents B1 \<and>
    tcalls A1 = tcalls A @ [TDisconnect a] \<and>
    sevents A1 = sevents A @ [SessionVersionMismatch h w False] \<and>
    sevents (dispatchDisconnected a A1) = sevents A1"
  using server_rejects [OF assms(1,2), of r, folded B1_def]
    client_rejected [OF assms(3), of w r', folded A1_def] disconnected_after_failed
  by blast

theorem version_mismatch_rejected_witness:
  "sevents (transportMessageHandler (HostAddress (Host 7000 ''10.0.0.2''))
      [SessionLayerId, HandshakeReject, 2]
      (dispatchConnected (HostAddress (Host 7000 ''10.0.0.2''))
        (connectClient (Host 7000 ''10.0.0.2'') (NewSessionLayer (Host 7000 ''10.0.0.1'')))))
   = [SessionVersionMismatch (Host 7000 ''10.0.0.2'') 2 False]"
proof -
  let ?a = "Host 7000 ''10.0.0.1''" and ?b = "Host 7000 ''10.0.0.2''" and ?e = "HostAddress (Host 40000 ''10.0.0.1'')"
  have d: "dialable ?b (NewSessionLayer ?a)" "host_ok (sl_self (NewSessionLayer ?a))"
    by (simp_all add: NewSessionLayer_def host_ok_def dialable_def)
  have "sl_sessions (NewSessionLayer ?b) (Address_String ?e) = None" "2 \<noteq> ProtocolVersion"
    by (simp_all add: NewSessionLayer_def ProtocolVersion_def)
  from version_mismatch_rejected [OF this client_dials(1) [OF d], of "[]" 2 "[]"] show ?thesis
    using client_dials(3) [OF d] by (simp add: NewSessionLayer_def)
qed

subsection \<open>One step on the sessions\<close>

lemmas handler_defs = handleClientConnectRequested_def handleConnected_def
  handleHandshakeMessage_def handleServerHandshake_def handleClientHandshake_def
  rejectHandshake_def handleDisconnected_def handleFailed_def emitEvent_def callTransport_def
  setServerMapping_def cleanupServerMapping_def armHandshakeTimer_def stopHandshakeTimer_def
  Let_def

lemma handlers_keep_sessions [simp]:
  "sl_sessions (snd (handleClientConnectRequested s L)) = sl_sessions L"
  "sl_sessions (snd (handleConnected s L)) = sl_sessions L"
  "sl_sessions (snd (handleHandshakeMessage body s L)) = sl_sessions L"
  "sl_sessions (snd (handleDisconnected s L)) = sl_sessions L"
  "sl_sessions (snd (handleFailed s L)) = sl_sessions L"
  by (simp_all add: handler_defs split: sum.splits option.splits prod.splits hs_error.splits)

lemma cleanup_keeps [simp]:
  "sl_sessions (cleanupServerMapping a L) = sl_sessions L"
  "armed (cleanupServerMapping a L) = armed L"
  "expired (cleanupServerMapping a L) = expired L"
  "nextHsTimer (cleanupServerMapping a L) = nextHsTimer L"
  "sevents (cleanupServerMapping a L) = sevents L"
  "tcalls (cleanupServerMapping a L) = tcalls L"
  by (simp_all add: cleanupServerMapping_def split: option.splits)

text \<open>A step touches the session of at most one address: the callback it runs, and on which entry.\<close>

datatype session_action =
    Untouched
  | Callback Address Host "sessionConn \<Rightarrow> sessionLayer \<Rightarrow> sessionConn \<times> sessionLayer"
  | Expiry Address

fun stepAction :: "session_input \<Rightarrow> sessionLayer \<Rightarrow> session_action" where
  "stepAction (TransportMessage a msg) L =
     (if fst (splitFrame msg) \<noteq> ApplicationLayer \<and> fst (splitFrame msg) = SessionLayerId
      then Callback a zeroHost (\<lambda>sc. handleHandshakeMessage (snd (splitFrame msg)) (idleToServer sc))
      else Untouched)"
| "stepAction (TransportEvent (Connected a)) L =
     Callback a zeroHost (\<lambda>sc. handleConnected (idleToServer sc))"
| "stepAction (TransportEvent (Disconnected a)) L = Callback a zeroHost handleDisconnected"
| "stepAction (TransportEvent (Failed a)) L = Callback a zeroHost handleFailed"
| "stepAction (ConnectRequest h) L = Callback (HostAddress h) h handleClientConnectRequested"
| "stepAction (HandshakeTimeout a) L = (if a \<in> set (expired L) then Expiry a else Untouched)"
| "stepAction _ L = Untouched"

definition expire :: "sessionConn \<Rightarrow> sessionConn" where
  "expire sc =
     (if sstate sc \<noteq> SessionStateHandshakingClient then sc
      else sc\<lparr>handshakeTimer := None, sstate := SessionStateFailed,
              lastErr := Some (AckTimedOut (logicalHost sc))\<rparr>)"

lemma session_step_sessions:
  "sl_sessions (session_step i L) =
     (case stepAction i L of
        Untouched \<Rightarrow> sl_sessions L
      | Callback a h f \<Rightarrow> (sl_sessions L)(Address_String a \<mapsto> fst (f (sessionEntry a h L) L))
      | Expiry a \<Rightarrow>
          (case sl_sessions L (Address_String a) of
             None \<Rightarrow> sl_sessions L
           | Some sc \<Rightarrow> (sl_sessions L)(Address_String a \<mapsto> expire sc)))"
proof (cases "(i, L)" rule: session_step.cases)
  case (1 a msg L')
  then show ?thesis
    by (auto simp: transportMessageHandler_def dispatchHandshakeMessage_def withSession_eq split_beta)
next
  case (2 e L')
  then show ?thesis
    by (cases e) (auto simp: dispatchConnected_def dispatchDisconnected_def dispatchFailed_def
        withSession_eq split_beta)
next
  case (3 h L')
  then show ?thesis by (auto simp: connectClient_def withSession_eq split_beta)
next
  case (7 a L')
  then show ?thesis
    by (auto simp: dispatchHandshakeTimeout_def emitEvent_def callTransport_def expire_def
        stopHandshakeTimer_def fun_upd_idem split: option.splits)
qed (simp_all add: session_disconnect_def session_send_def callTransport_def Let_def)

subsection \<open>An address that is never listened to again\<close>

definition deaf :: "SessionState \<Rightarrow> bool" where
  "deaf st \<longleftrightarrow> st = SessionStateClosing \<or> st = SessionStateFailed"

lemma deaf_handlers:
  assumes "deaf (sstate s)"
  shows "deaf (sstate (fst (handleConnected (idleToServer s) L)))"
    and "deaf (sstate (fst (handleHandshakeMessage body (idleToServer s) L)))"
    and "deaf (sstate (fst (handleDisconnected s L)))"
    and "deaf (sstate (fst (handleFailed s L)))"
    and "deaf (sstate (expire s))"
  using assms
  by (auto simp: deaf_def idleToServer_def handler_defs expire_def split: option.splits prod.splits hs_error.splits)

lemma deaf_step:
  assumes sc: "sl_sessions L (Address_String a) = Some sc" and d: "deaf (sstate sc)"
    and i: "\<forall>h. i = ConnectRequest h \<longrightarrow> Host_String h \<noteq> Address_String a"
  shows "\<exists>sc'. sl_sessions (session_step i L) (Address_String a) = Some sc' \<and> deaf (sstate sc')"
proof (cases "stepAction i L")
  case Untouched
  then show ?thesis using sc d by (simp add: session_step_sessions)
next
  case (Callback a' h f)
  show ?thesis
  proof (cases "Address_String a' = Address_String a")
    case False
    then show ?thesis using sc d Callback by (simp add: session_step_sessions)
  next
    case True
    have h: "h = zeroHost" and f: "deaf (sstate (fst (f sc L)))"
      using Callback i True deaf_handlers [OF d]
      by (cases "(i, L)" rule: stepAction.cases; force split: if_splits)+
    have "sessionEntry a' h L = sc"
      using sc True h by (simp add: sessionEntry_def)
    then show ?thesis using Callback True f by (simp add: session_step_sessions)
  qed
next
  case (Expiry a')
  then show ?thesis
    using sc d deaf_handlers(5) by (auto simp: session_step_sessions split: option.splits)
qed

lemma deaf_run:
  assumes "sl_sessions L (Address_String a) = Some sc" "deaf (sstate sc)"
    and "\<forall>h. ConnectRequest h \<in> set is \<longrightarrow> Host_String h \<noteq> Address_String a"
  shows "\<exists>sc'. sl_sessions (session_run is L) (Address_String a) = Some sc' \<and> deaf (sstate sc')"
  using assms
proof (induction "is" arbitrary: L sc)
  case Nil
  then show ?case by (simp add: session_run_def)
next
  case (Cons i "is")
  obtain sc' where "sl_sessions (session_step i L) (Address_String a) = Some sc'" "deaf (sstate sc')"
    using deaf_step [OF Cons.prems(1,2)] Cons.prems(3) by (metis list.set_intros(1))
  from Cons.IH [OF this] Cons.prems(3) show ?case by (simp add: session_run_def)
qed

text \<open>Once the session of an address has closed or failed, no inbound connection from that
  address is ever served again: whatever happens, unless this node itself dials it, a Hello from
  there is neither answered nor reported.\<close>

theorem closed_address_stays_deaf:
  assumes "sl_sessions L (Address_String a) = Some sc" "deaf (sstate sc)"
    and "\<forall>h. ConnectRequest h \<in> set is \<longrightarrow> Host_String h \<noteq> Address_String a"
    and "host_ok h"
  defines "L1 \<equiv> dispatchConnected a (session_run is L)"
    and "hello \<equiv> frameFor SessionLayerId (hello_image h)"
  shows "deaf (sessionState a L1) \<and>
    tcalls (transportMessageHandler a hello L1) = tcalls L1 \<and>
    sevents (transportMessageHandler a hello L1) = sevents L1"
proof -
  obtain s1 where "sl_sessions (session_run is L) (Address_String a) = Some s1" "deaf (sstate s1)"
    using deaf_run [OF assms(1-3)] by blast
  from deaf_step [OF this, of "TransportEvent (Connected a)"]
  obtain s2 where s2: "sl_sessions L1 (Address_String a) = Some s2" "deaf (sstate s2)"
    unfolding L1_def by auto
  then have "transportMessageHandler a hello L1 = L1\<lparr>sl_sessions := (sl_sessions L1)(Address_String a \<mapsto> s2)\<rparr>"
    using assms(4) unfolding hello_def
    by (auto simp: frameFor_def handshake_frame dispatchHandshakeMessage_def withSession_eq
        idleToServer_def handleHandshakeMessage_def deaf_def)
  with s2 show ?thesis by (simp add: sessionState_def)
qed

theorem closed_address_stays_deaf_witness:
  "sevents (transportMessageHandler (HostAddress (Host 40000 ''10.0.0.2''))
      (frameFor SessionLayerId (hello_image (Host 7000 ''10.0.0.2'')))
      (dispatchConnected (HostAddress (Host 40000 ''10.0.0.2''))
        (session_run [TransportEvent (Disconnected (HostAddress (Host 40000 ''10.0.0.2'')))]
          (NewSessionLayer (Host 7000 ''10.0.0.1''))))) = []"
proof -
  let ?e = "HostAddress (Host 40000 ''10.0.0.2'')"
  let ?L = "session_run [TransportEvent (Disconnected ?e)] (NewSessionLayer (Host 7000 ''10.0.0.1''))"
  obtain sc where sc: "sl_sessions ?L (Address_String ?e) = Some sc" "deaf (sstate sc)"
    by (simp add: session_run_def dispatchDisconnected_def withSession_eq handleDisconnected_def
        stopHandshakeTimer_def NewSessionLayer_def sessionEntry_def deaf_def)
  have "sevents (dispatchConnected ?e ?L) = []"
    using sc by (auto simp: dispatchConnected_def withSession_eq idleToServer_def handleConnected_def
        deaf_def) (auto simp: session_run_def dispatchDisconnected_def withSession_eq
        handleDisconnected_def stopHandshakeTimer_def NewSessionLayer_def sessionEntry_def)
  with closed_address_stays_deaf [OF sc, of "[]" "Host 7000 ''10.0.0.2''"] show ?thesis
    by (simp add: host_ok_def session_run_def)
qed

subsection \<open>Disconnecting an accepted session\<close>

lemma local_disconnect_reports_address:
  assumes "inSession (HostAddress e) h SessionStateEstablished L"
    and "transportToLogical L (Host_String e) = Some h"
    and "logicalToTransport L h = Some (HostAddress e)"
  shows "tcalls (session_disconnect h L) = tcalls L @ [TDisconnect (HostAddress e)] \<and>
    sevents (dispatchDisconnected (HostAddress e) (session_disconnect h L)) =
      sevents L @ [SessionDisconnected e]"
proof -
  obtain sc where sc: "sl_sessions L (Host_String e) = Some sc" "transportAddr sc = HostAddress e"
    "sstate sc = SessionStateEstablished"
    using assms(1) by (auto simp: inSession_def)
  let ?M = "session_disconnect h L"
  have M: "sl_sessions ?M = sl_sessions L" "transportToLogical ?M (Host_String e) = None"
    "tcalls ?M = tcalls L @ [TDisconnect (HostAddress e)]" "sevents ?M = sevents L"
    using assms(2,3)
    by (simp_all add: session_disconnect_def resolveUnderlyingHost_def callTransport_def Let_def
        cleanupServerMapping_def)
  have "sl_sessions ?M (Address_String (HostAddress e)) = Some sc" using M sc by simp
  then have "sevents (dispatchDisconnected (HostAddress e) ?M) = sevents ?M @ [SessionDisconnected e]"
    using sc M
    by (auto simp: dispatchDisconnected_def withSession_eq handleDisconnected_def Let_def
        stopHandshakeTimer_def emitEvent_def logicalFor_def cleanupServerMapping_def split: option.splits)
  with M show ?thesis by simp
qed

text \<open>When the runtime disconnects a peer that had dialled in, the mapping is forgotten before
  the transport reports the closed connection, so the \<open>SessionDisconnected\<close> names the peer's
  ephemeral address and the logical host it was connected under is never reported down.\<close>

theorem local_disconnect_misreports:
  assumes "inSession (HostAddress e) h SessionStateEstablished L"
    and "transportToLogical L (Host_String e) = Some h"
    and "logicalToTransport L h = Some (HostAddress e)"
  shows "tcalls (session_disconnect h L) = tcalls L @ [TDisconnect (HostAddress e)] \<and>
    sevents (dispatchDisconnected (HostAddress e) (session_disconnect h L)) =
      sevents L @ [SessionDisconnected e]"
  by (rule local_disconnect_reports_address [OF assms])

theorem local_disconnect_misreports_witness:
  "\<exists>L. sevents L = [SessionConnected (Host 7000 ''10.0.0.2'')] \<and>
    sevents (dispatchDisconnected (HostAddress (Host 40000 ''10.0.0.2''))
      (session_disconnect (Host 7000 ''10.0.0.2'') L)) =
    [SessionConnected (Host 7000 ''10.0.0.2''), SessionDisconnected (Host 40000 ''10.0.0.2'')]"
proof -
  let ?h = "Host 7000 ''10.0.0.2''" and ?e = "HostAddress (Host 40000 ''10.0.0.2'')"
  have "sl_sessions (NewSessionLayer (Host 7000 ''10.0.0.1'')) (Address_String ?e) = None" "host_ok ?h"
    by (simp_all add: NewSessionLayer_def host_ok_def)
  note srv = server_hello [OF this]
  from local_disconnect_misreports [OF srv(1)] srv(3,5,6) show ?thesis
    by (intro exI) (auto simp: NewSessionLayer_def)
qed

text \<open>Two sessions of one peer, one for each direction of a crossing dial, share one route:
  when either closes, the peer is reported down and the route of the other is gone, although its
  session stays established; what is sent to the peer then goes to its listening address.\<close>

theorem crossing_dials_lose_route:
  assumes "inSession a h SessionStateEstablished L" "inSession a' h SessionStateEstablished L"
    and "Address_String a \<noteq> Address_String a'"
    and "transportToLogical L (Address_String a) = Some h" "logicalToTransport L h = Some a'"
  defines "M \<equiv> dispatchDisconnected a L"
  shows "sevents M = sevents L @ [SessionDisconnected h] \<and>
    inSession a' h SessionStateEstablished M \<and> resolveUnderlyingHost h M = HostAddress h"
proof -
  obtain sc where sc: "sl_sessions L (Address_String a) = Some sc" "transportAddr sc = a"
    "sstate sc = SessionStateEstablished"
    using assms(1) by (auto simp: inSession_def)
  then show ?thesis
    using assms(2-5) unfolding M_def
    by (auto simp: dispatchDisconnected_def withSession_eq handleDisconnected_def Let_def
        stopHandshakeTimer_def emitEvent_def logicalFor_def cleanupServerMapping_def inSession_def
        resolveUnderlyingHost_def split: option.splits)
qed

theorem crossing_dials_lose_route_witness:
  "\<exists>L. inSession (HostAddress (Host 40000 ''10.0.0.2'')) (Host 7000 ''10.0.0.2'') SessionStateEstablished
      (dispatchDisconnected (HostAddress (Host 7000 ''10.0.0.2'')) L) \<and>
    resolveUnderlyingHost (Host 7000 ''10.0.0.2'') (dispatchDisconnected (HostAddress (Host 7000 ''10.0.0.2'')) L)
      = HostAddress (Host 7000 ''10.0.0.2'')"
proof -
  let ?b = "Host 7000 ''10.0.0.2''" and ?e = "Host 40000 ''10.0.0.2''"
  let ?sc = "\<lambda>h. \<lparr>logicalHost = ?b, transportAddr = HostAddress h, sstate = SessionStateEstablished,
    lastErr = None, handshakeTimer = None\<rparr>"
  let ?L = "(NewSessionLayer (Host 7000 ''10.0.0.1''))\<lparr>
    sl_sessions := [Host_String ?b \<mapsto> ?sc ?b, Host_String ?e \<mapsto> ?sc ?e],
    transportToLogical := [Host_String ?b \<mapsto> ?b, Host_String ?e \<mapsto> ?b],
    logicalToTransport := [?b \<mapsto> HostAddress ?e]\<rparr>"
  have ne: "Host_String ?b \<noteq> Host_String ?e"
    using Host_String_inj [of ?b ?e] by auto
  have "inSession (HostAddress ?b) ?b SessionStateEstablished ?L"
    "inSession (HostAddress ?e) ?b SessionStateEstablished ?L"
    using ne by (simp_all add: inSession_def)
  from crossing_dials_lose_route [OF this] ne show ?thesis by auto
qed

subsection \<open>What a reported session means\<close>

lemma event_lists [simp]:
  "sevents (callTransport c L) = sevents L" "sevents (setServerMapping a h L) = sevents L"
  "sevents (snd (stopHandshakeTimer s L)) = sevents L"
  "sevents (snd (armHandshakeTimer s L)) = sevents L"
  "sstate (fst (stopHandshakeTimer s L)) = sstate s"
  "logicalHost (fst (stopHandshakeTimer s L)) = logicalHost s"
  "transportAddr (fst (stopHandshakeTimer s L)) = transportAddr s"
  "transportAddr (fst (armHandshakeTimer s L)) = transportAddr s"
  "sstate (fst (armHandshakeTimer s L)) = sstate s"
  "logicalHost (fst (armHandshakeTimer s L)) = logicalHost s"
  by (simp_all add: callTransport_def setServerMapping_def stopHandshakeTimer_def
      armHandshakeTimer_def split: option.splits)

definition newConnected :: "sessionLayer \<Rightarrow> sessionLayer \<Rightarrow> Host set" where
  "newConnected L L' = {h. SessionConnected h \<in> set (drop (length (sevents L)) (sevents L'))}"

lemma newConnected_simps:
  "sevents L' = sevents L \<Longrightarrow> newConnected L L' = {}"
  "sevents L' = sevents L @ [ev] \<Longrightarrow> newConnected L L' = (case ev of SessionConnected h \<Rightarrow> {h} | _ \<Rightarrow> {})"
  by (auto simp: newConnected_def split: session_layer_event.splits)

text \<open>No handler but the two that end a handshake reports a session.\<close>

lemma quiet_handlers:
  "newConnected L (snd (handleClientConnectRequested s L)) = {}"
  "newConnected L (snd (handleConnected s L)) = {}"
  "newConnected L (snd (handleDisconnected s L)) = {}"
  "newConnected L (snd (handleFailed s L)) = {}"
  by (auto simp: newConnected_def handleClientConnectRequested_def handleConnected_def
      handleDisconnected_def handleFailed_def emitEvent_def Let_def split_beta split: sum.splits)

lemma connected_by_message:
  assumes "h \<in> newConnected L (snd (handleHandshakeMessage body s L))"
  shows "\<exists>p. parseHandshakePayload body = (p, None) \<and>
    (htyp p = HandshakeHello \<and> hhost p = h \<and> sstate s = SessionStateHandshakingServer \<or>
     htyp p = HandshakeAck \<and> logicalHost s = h \<and> sstate s = SessionStateHandshakingClient) \<and>
    sstate (fst (handleHandshakeMessage body s L)) = SessionStateEstablished"
proof (cases "parseHandshakePayload body")
  case (Pair p err)
  show ?thesis
  proof (cases err)
    case None
    show ?thesis
      using assms unfolding handleHandshakeMessage_def Pair None
      by (auto simp: newConnected_def handleServerHandshake_def handleClientHandshake_def
          emitEvent_def Let_def split_beta split: if_splits)
  next
    case (Some e)
    then show ?thesis
      using assms unfolding handleHandshakeMessage_def Pair Some
      by (auto simp: newConnected_def rejectHandshake_def emitEvent_def Let_def split: hs_error.splits)
  qed
qed

lemma newConnected_withSession:
  "newConnected L (withSession a h f L) = newConnected L (snd (f (sessionEntry a h L) L))"
  by (simp add: withSession_eq newConnected_def split_beta)

lemma splitFrame_session:
  "splitFrame msg = (SessionLayerId, body) \<Longrightarrow> msg = SessionLayerId # body"
  by (cases msg) auto

lemma quiet_steps:
  "sevents (session_disconnect h L) = sevents L" "sevents (session_send m h L) = sevents L"
  by (simp_all add: session_disconnect_def session_send_def Let_def)

lemma connected_by_step:
  assumes "h \<in> newConnected L (session_step i L)"
  shows "\<exists>a body. i = TransportMessage a (SessionLayerId # body) \<and>
    h \<in> newConnected L (snd (handleHandshakeMessage body (idleToServer (sessionEntry a zeroHost L)) L))"
proof (cases "(i, L)" rule: session_step.cases)
  case (1 a msg L')
  obtain layer body where sf: "splitFrame msg = (layer, body)" by (cases "splitFrame msg")
  show ?thesis
  proof (cases "layer = SessionLayerId")
    case True
    then show ?thesis
      using assms 1 sf splitFrame_session
      by (auto simp: transportMessageHandler_def dispatchHandshakeMessage_def newConnected_withSession)
  next
    case False
    then have "sevents (session_step i L) = sevents L"
      using 1 sf by (simp add: transportMessageHandler_def)
    then show ?thesis using assms by (simp add: newConnected_simps)
  qed
next
  case (2 e L')
  then show ?thesis
    using assms quiet_handlers
    by (cases e) (auto simp: dispatchConnected_def dispatchDisconnected_def dispatchFailed_def
        newConnected_withSession)
next
  case (3 h' L')
  then show ?thesis using assms quiet_handlers by (simp add: connectClient_def newConnected_withSession)
next
  case (7 a L')
  then show ?thesis
    using assms by (auto simp: newConnected_def dispatchHandshakeTimeout_def emitEvent_def Let_def
        split_beta split: option.splits if_splits)
qed (use assms in \<open>auto simp: newConnected_def quiet_steps\<close>)

text \<open>With the addresses of the TCP backend, a session that is handshaking as a client belongs to
  a host the runtime asked for.\<close>

fun tcp_addressed :: "session_input \<Rightarrow> bool" where
  "tcp_addressed (TransportMessage a m) = (snd (hostFromAddress a) \<and> a = HostAddress (fst (hostFromAddress a)))"
| "tcp_addressed (TransportEvent (Connected a)) = (a = HostAddress (fst (hostFromAddress a)))"
| "tcp_addressed (TransportEvent (Disconnected a)) = (a = HostAddress (fst (hostFromAddress a)))"
| "tcp_addressed (TransportEvent (Failed a)) = (a = HostAddress (fst (hostFromAddress a)))"
| "tcp_addressed (ConnectRequest h) = (Port h \<noteq> 0)"
| "tcp_addressed _ = True"

definition dialled :: "session_input list \<Rightarrow> sessionLayer \<Rightarrow> bool" where
  "dialled is L =
     (\<forall>k sc. sl_sessions L k = Some sc \<longrightarrow>
        (\<exists>e. transportAddr sc = HostAddress e \<and> k = Host_String e \<and>
          (sstate sc = SessionStateHandshakingClient \<longrightarrow>
             logicalHost sc = e \<and> ConnectRequest e \<in> set is)))"

text \<open>No callback but \<open>handleClientConnectRequested\<close> starts a client handshake.\<close>

definition no_dial :: "(sessionConn \<Rightarrow> sessionLayer \<Rightarrow> sessionConn \<times> sessionLayer) \<Rightarrow> bool" where
  "no_dial f = (\<forall>s L. transportAddr (fst (f s L)) = transportAddr s \<and>
     (sstate (fst (f s L)) = SessionStateHandshakingClient \<longrightarrow>
        sstate s = SessionStateHandshakingClient \<and> logicalHost (fst (f s L)) = logicalHost s))"

lemma idleToServer_simps [simp]:
  "transportAddr (idleToServer s) = transportAddr s" "logicalHost (idleToServer s) = logicalHost s"
  "sstate (idleToServer s) = SessionStateHandshakingClient \<longleftrightarrow> sstate s = SessionStateHandshakingClient"
  by (simp_all add: idleToServer_def)

lemma handlers_no_dial:
  "no_dial (\<lambda>sc. handleConnected (idleToServer sc))"
  "no_dial (\<lambda>sc. handleHandshakeMessage body (idleToServer sc))"
  "no_dial handleDisconnected" "no_dial handleFailed"
  unfolding no_dial_def
  by (auto simp: handleConnected_def handleHandshakeMessage_def handleServerHandshake_def
      handleClientHandshake_def rejectHandshake_def handleDisconnected_def handleFailed_def Let_def
      split_beta split: sum.splits option.splits prod.splits hs_error.splits)

lemma stepAction_no_dial:
  "stepAction i L = Callback a h f \<Longrightarrow> tcp_addressed i \<Longrightarrow>
     (\<exists>e. a = HostAddress e) \<and>
     (h = zeroHost \<and> no_dial f \<or>
      i = ConnectRequest h \<and> a = HostAddress h \<and> Port h \<noteq> 0 \<and> f = handleClientConnectRequested)"
  using handlers_no_dial
  by (cases "(i, L)" rule: stepAction.cases) (auto split: if_splits)

lemma dialled_step:
  assumes inv: "dialled is L" and i: "tcp_addressed i"
  shows "dialled (is @ [i]) (session_step i L)"
proof (cases "stepAction i L")
  case Untouched
  then show ?thesis using inv unfolding dialled_def by (auto simp: session_step_sessions)
next
  case (Expiry a)
  show ?thesis
    unfolding dialled_def
  proof (intro allI impI)
    fix k sc
    assume "sl_sessions (session_step i L) k = Some sc"
    then consider "sl_sessions L k = Some sc"
      | sc' where "sl_sessions L k = Some sc'" "sc = expire sc'"
      using Expiry by (auto simp: session_step_sessions split: option.splits if_splits)
    then show "\<exists>e. transportAddr sc = HostAddress e \<and> k = Host_String e \<and>
        (sstate sc = SessionStateHandshakingClient \<longrightarrow>
           logicalHost sc = e \<and> ConnectRequest e \<in> set (is @ [i]))"
      using inv unfolding dialled_def by cases (fastforce simp: expire_def)+
  qed
next
  case (Callback a h f)
  from stepAction_no_dial [OF Callback i] obtain e where a: "a = HostAddress e"
    and hf: "h = zeroHost \<and> no_dial f \<or>
      i = ConnectRequest h \<and> e = h \<and> Port h \<noteq> 0 \<and> f = handleClientConnectRequested" by auto
  let ?s = "sessionEntry a h L" and ?s' = "fst (f (sessionEntry a h L) L)"
  have s: "transportAddr ?s = HostAddress e"
    using inv Host_String_inj unfolding dialled_def a sessionEntry_def
    by (fastforce split: option.splits)
  have "transportAddr ?s' = HostAddress e \<and> (sstate ?s' = SessionStateHandshakingClient \<longrightarrow>
      logicalHost ?s' = e \<and> ConnectRequest e \<in> set (is @ [i]))"
    using hf
  proof
    assume z: "h = zeroHost \<and> no_dial f"
    then have "transportAddr ?s' = HostAddress e"
      and hc: "sstate ?s' = SessionStateHandshakingClient \<Longrightarrow>
        sstate ?s = SessionStateHandshakingClient \<and> logicalHost ?s' = logicalHost ?s"
      using s by (auto simp: no_dial_def)
    moreover have "sstate ?s = SessionStateHandshakingClient \<Longrightarrow>
        logicalHost ?s = e \<and> ConnectRequest e \<in> set is"
      using inv z Host_String_inj unfolding dialled_def a sessionEntry_def
      by (fastforce split: option.splits)
    ultimately show ?thesis by auto
  next
    assume z: "i = ConnectRequest h \<and> e = h \<and> Port h \<noteq> 0 \<and> f = handleClientConnectRequested"
    then show ?thesis
      using s by (auto simp: handleClientConnectRequested_def sessionEntry_def split: option.splits)
  qed
  then show ?thesis
    using inv unfolding dialled_def
    by (auto simp: session_step_sessions Callback a)
qed

lemma dialled_run: "list_all tcp_addressed is \<Longrightarrow> dialled is (session_run is (NewSessionLayer me))"
proof (induction "is" rule: rev_induct)
  case Nil
  then show ?case by (simp add: dialled_def session_run_def NewSessionLayer_def)
next
  case (snoc i "is")
  then show ?case using dialled_step [of "is" "session_run is (NewSessionLayer me)" i]
    by (simp add: session_run_def)
qed

text \<open>C12. In every reachable state of a node, a \<open>SessionConnected\<close> is reported only when a
  handshake ends: either a peer that had not been heard of, or was still expected to say Hello,
  announced that very host in a Hello of this wire version, or the peer's Ack arrived for a dial to
  that very host which the runtime had asked for.  The session is then established.\<close>

theorem session_connected_meaning:
  assumes "list_all tcp_addressed (is @ [i])"
    and "h \<in> newConnected (session_run is (NewSessionLayer me)) (session_run (is @ [i]) (NewSessionLayer me))"
  shows "\<exists>e body p. i = TransportMessage (HostAddress e) (SessionLayerId # body) \<and>
    parseHandshakePayload body = (p, None) \<and>
    sessionState (HostAddress e) (session_run (is @ [i]) (NewSessionLayer me)) = SessionStateEstablished \<and>
    (htyp p = HandshakeHello \<and> hhost p = h \<and>
       sessionState (HostAddress e) (session_run is (NewSessionLayer me)) \<in>
         {SessionStateIdle, SessionStateHandshakingServer} \<or>
     htyp p = HandshakeAck \<and> e = h \<and> ConnectRequest h \<in> set is)"
proof -
  let ?L = "session_run is (NewSessionLayer me)"
  have step: "session_run (is @ [i]) (NewSessionLayer me) = session_step i ?L"
    by (simp add: session_run_def)
  from connected_by_step [OF assms(2) [unfolded step]] obtain a body
    where i: "i = TransportMessage a (SessionLayerId # body)"
    and h: "h \<in> newConnected ?L (snd (handleHandshakeMessage body (idleToServer (sessionEntry a zeroHost ?L)) ?L))"
    by blast
  from i assms(1) obtain e where a: "a = HostAddress e" by auto
  let ?s = "sessionEntry a zeroHost ?L"
  from connected_by_message [OF h] obtain p where p: "parseHandshakePayload body = (p, None)"
    and cs: "htyp p = HandshakeHello \<and> hhost p = h \<and> sstate (idleToServer ?s) = SessionStateHandshakingServer \<or>
      htyp p = HandshakeAck \<and> logicalHost ?s = h \<and> sstate ?s = SessionStateHandshakingClient"
    and est: "sstate (fst (handleHandshakeMessage body (idleToServer ?s) ?L)) = SessionStateEstablished"
    by auto
  have "sl_sessions (session_step i ?L) (Address_String a) =
      Some (fst (handleHandshakeMessage body (idleToServer ?s) ?L))"
    using session_step_sessions [of i ?L] by (simp add: i)
  then have est': "sessionState a (session_step i ?L) = SessionStateEstablished"
    using est by (simp add: sessionState_def)
  have st: "sstate ?s = sessionState a ?L"
    by (auto simp: sessionEntry_def sessionState_def split: option.splits)
  have "e = h \<and> ConnectRequest h \<in> set is"
    if that: "logicalHost ?s = h" "sstate ?s = SessionStateHandshakingClient"
  proof -
    have inv: "dialled is ?L" using dialled_run assms(1) by simp
    from that(2) obtain sc where sc: "sl_sessions ?L (Host_String e) = Some sc" "?s = sc"
      by (auto simp: sessionEntry_def a split: option.splits)
    from inv sc(1) obtain e' where "Host_String e = Host_String e'"
      "sstate sc = SessionStateHandshakingClient \<longrightarrow> logicalHost sc = e' \<and> ConnectRequest e' \<in> set is"
      unfolding dialled_def by blast
    then show ?thesis using Host_String_inj [of e e'] that sc(2) by simp
  qed
  moreover have "sessionState a ?L \<in> {SessionStateIdle, SessionStateHandshakingServer}"
    if "sstate (idleToServer ?s) = SessionStateHandshakingServer"
    using that by (simp add: idleToServer_def flip: st split: if_splits)
  ultimately have "htyp p = HandshakeHello \<and> hhost p = h \<and>
      sessionState a ?L \<in> {SessionStateIdle, SessionStateHandshakingServer} \<or>
    htyp p = HandshakeAck \<and> e = h \<and> ConnectRequest h \<in> set is"
    using cs by blast
  then show ?thesis
    unfolding step using i p est' unfolding a by blast
qed

theorem session_connected_meaning_witness:
  "\<exists>e body p. TransportMessage (HostAddress (Host 7000 ''10.0.0.2'')) (frameFor SessionLayerId encodeAck) =
      TransportMessage (HostAddress e) (SessionLayerId # body) \<and>
    parseHandshakePayload body = (p, None) \<and> e = Host 7000 ''10.0.0.2'' \<and> htyp p = HandshakeAck"
proof -
  let ?b = "Host 7000 ''10.0.0.2''" and ?me = "Host 7000 ''10.0.0.1''"
  let ?is = "[ConnectRequest ?b, TransportEvent (Connected (HostAddress ?b))]"
  let ?i = "TransportMessage (HostAddress ?b) (frameFor SessionLayerId encodeAck)"
  have d: "dialable ?b (NewSessionLayer ?me)" "host_ok (sl_self (NewSessionLayer ?me))"
    by (simp_all add: NewSessionLayer_def host_ok_def dialable_def)
  note cd = client_dials [OF d]
  have ev: "sevents (session_run ?is (NewSessionLayer ?me)) = []"
    "sevents (session_run (?is @ [?i]) (NewSessionLayer ?me)) = [SessionConnected ?b]"
    using cd(3) client_ack(3) [OF cd(1)] by (simp_all add: session_run_def NewSessionLayer_def)
  have "list_all tcp_addressed (?is @ [?i])" by simp
  moreover have "?b \<in> newConnected (session_run ?is (NewSessionLayer ?me))
      (session_run (?is @ [?i]) (NewSessionLayer ?me))"
    using ev by (simp add: newConnected_def)
  ultimately obtain e body p where "?i = TransportMessage (HostAddress e) (SessionLayerId # body)"
    "parseHandshakePayload body = (p, None)"
    "htyp p = HandshakeHello \<and> hhost p = ?b \<or> htyp p = HandshakeAck \<and> e = ?b"
    using session_connected_meaning [of ?is ?i ?b ?me] by blast
  then show ?thesis by (auto simp: frameFor_def)
qed

subsection \<open>The wait for an answer is bounded\<close>

definition timers_fresh :: "sessionLayer \<Rightarrow> bool" where
  "timers_fresh L \<longleftrightarrow>
     (\<forall>k sc i. sl_sessions L k = Some sc \<longrightarrow> handshakeTimer sc = Some i \<longrightarrow>
        i < nextHsTimer L \<and> (\<forall>a. (i, a) \<in> set (armed L) \<longrightarrow> Address_String a = k)) \<and>
     (\<forall>i a. (i, a) \<in> set (armed L) \<longrightarrow> i < nextHsTimer L) \<and>
     (\<forall>k sc. sl_sessions L k = Some sc \<longrightarrow> Address_String (transportAddr sc) = k)"

definition pendingTimer :: "Address \<Rightarrow> sessionLayer \<Rightarrow> bool" where
  "pendingTimer a L \<longleftrightarrow> a \<in> snd ` set (armed L) \<or> a \<in> set (expired L)"

text \<open>What a callback does to the timers: it stops the timer of its own session, or arms a new one
  for its own address.\<close>

definition timer_local :: "(sessionConn \<Rightarrow> sessionLayer \<Rightarrow> sessionConn \<times> sessionLayer) \<Rightarrow> bool" where
  "timer_local f \<longleftrightarrow> (\<forall>s L. transportAddr (fst (f s L)) = transportAddr s \<and>
     expired (snd (f s L)) = expired L \<and>
     (handshakeTimer (fst (f s L)) = handshakeTimer s \<and> armed (snd (f s L)) = armed L \<and>
        nextHsTimer (snd (f s L)) = nextHsTimer L \<or>
      handshakeTimer (fst (f s L)) = None \<and> nextHsTimer (snd (f s L)) = nextHsTimer L \<and>
        (\<exists>i. handshakeTimer s = Some i \<and> armed (snd (f s L)) = filter (\<lambda>t. fst t \<noteq> i) (armed L)) \<or>
      handshakeTimer (fst (f s L)) = Some (nextHsTimer L) \<and>
        armed (snd (f s L)) = armed L @ [(nextHsTimer L, transportAddr s)] \<and>
        nextHsTimer (snd (f s L)) = nextHsTimer L + 1))"

lemma stop_cases:
  "handshakeTimer s = None \<and> stopHandshakeTimer s L = (s, L) \<or>
   (\<exists>i. handshakeTimer s = Some i \<and> stopHandshakeTimer s L =
      (s\<lparr>handshakeTimer := None\<rparr>, L\<lparr>armed := filter (\<lambda>t. fst t \<noteq> i) (armed L)\<rparr>))"
  by (simp add: stopHandshakeTimer_def split: option.splits)

lemma handler_timers:
  "timer_local handleClientConnectRequested"
  "timer_local (\<lambda>sc. handleConnected (idleToServer sc))"
  "timer_local (\<lambda>sc. handleHandshakeMessage body (idleToServer sc))"
  "timer_local handleDisconnected"
  "timer_local handleFailed"
proof -
  have tm: "handshakeTimer (idleToServer s) = handshakeTimer s" for s
    by (simp add: idleToServer_def)
  show "timer_local handleClientConnectRequested"
    by (auto simp: timer_local_def handleClientConnectRequested_def callTransport_def)
  show "timer_local (\<lambda>sc. handleConnected (idleToServer sc))"
    by (auto simp: timer_local_def handleConnected_def armHandshakeTimer_def callTransport_def
        emitEvent_def tm split: sum.splits)
  show "timer_local (\<lambda>sc. handleHandshakeMessage body (idleToServer sc))"
    by (auto simp: timer_local_def handleHandshakeMessage_def handleServerHandshake_def
        handleClientHandshake_def rejectHandshake_def stopHandshakeTimer_def callTransport_def
        emitEvent_def setServerMapping_def Let_def tm
        split: option.splits prod.splits hs_error.splits)
  show "timer_local handleDisconnected"
    by (auto simp: timer_local_def handleDisconnected_def stopHandshakeTimer_def emitEvent_def Let_def
        split: option.splits)
  show "timer_local handleFailed"
    by (auto simp: timer_local_def handleFailed_def stopHandshakeTimer_def emitEvent_def Let_def
        split: option.splits)
qed

lemma stepAction_timer_local: "stepAction i L = Callback a h f \<Longrightarrow> timer_local f"
  using handler_timers by (cases "(i, L)" rule: stepAction.cases) (auto split: if_splits)

text \<open>The timers of a step, read off its action.\<close>

lemma session_step_timers:
  assumes "stepAction i L = Callback a h f"
  shows "armed (session_step i L) = armed (snd (f (sessionEntry a h L) L))"
    and "expired (session_step i L) = expired (snd (f (sessionEntry a h L) L))"
    and "nextHsTimer (session_step i L) = nextHsTimer (snd (f (sessionEntry a h L) L))"
  using assms
  by (cases "(i, L)" rule: stepAction.cases;
      force simp: transportMessageHandler_def dispatchHandshakeMessage_def dispatchConnected_def
        dispatchDisconnected_def dispatchFailed_def connectClient_def withSession_eq split_beta
        split: if_splits)+

lemma untouched_timers:
  assumes "stepAction i L = Untouched"
  shows "set (armed (session_step i L)) \<subseteq> set (armed L)"
    and "nextHsTimer (session_step i L) = nextHsTimer L"
    and "pendingTimer a L \<Longrightarrow> pendingTimer a (session_step i L)"
proof -
  have "armed (session_step i L) = armed L \<and> expired (session_step i L) = expired L \<and>
      nextHsTimer (session_step i L) = nextHsTimer L \<or> (\<exists>n. i = TimerGoesOff n)"
    using assms
    by (cases "(i, L)" rule: stepAction.cases)
      (auto simp: transportMessageHandler_def session_disconnect_def session_send_def
        callTransport_def Let_def split_beta split: if_splits)
  then show "set (armed (session_step i L)) \<subseteq> set (armed L)"
    "nextHsTimer (session_step i L) = nextHsTimer L"
    "pendingTimer a L \<Longrightarrow> pendingTimer a (session_step i L)"
    by (auto simp: pendingTimer_def image_iff)
qed

lemma expiry_timers:
  assumes "stepAction i L = Expiry a"
  shows "set (armed (session_step i L)) \<subseteq> set (armed L)"
    and "nextHsTimer (session_step i L) = nextHsTimer L"
proof -
  have i: "i = HandshakeTimeout a" "a \<in> set (expired L)"
    using assms by (cases "(i, L)" rule: stepAction.cases; simp split: if_splits)+
  then show "set (armed (session_step i L)) \<subseteq> set (armed L)"
    "nextHsTimer (session_step i L) = nextHsTimer L"
    by (auto simp: dispatchHandshakeTimeout_def stopHandshakeTimer_def emitEvent_def
        callTransport_def Let_def split: option.splits)
qed

lemma expire_timer:
  "transportAddr (expire s) = transportAddr s"
  "handshakeTimer (expire s) = Some i \<Longrightarrow> handshakeTimer s = Some i"
  by (auto simp: expire_def split: if_splits)

lemma timer_local_cases:
  assumes "timer_local f"
  obtains "handshakeTimer (fst (f s L)) \<in> {handshakeTimer s, None}"
      "set (armed (snd (f s L))) \<subseteq> set (armed L)" "nextHsTimer (snd (f s L)) = nextHsTimer L"
    | "handshakeTimer (fst (f s L)) = Some (nextHsTimer L)"
      "armed (snd (f s L)) = armed L @ [(nextHsTimer L, transportAddr s)]"
      "nextHsTimer (snd (f s L)) = nextHsTimer L + 1"
proof -
  have "handshakeTimer (fst (f s L)) = handshakeTimer s \<and> armed (snd (f s L)) = armed L \<and>
        nextHsTimer (snd (f s L)) = nextHsTimer L \<or>
      handshakeTimer (fst (f s L)) = None \<and> nextHsTimer (snd (f s L)) = nextHsTimer L \<and>
        (\<exists>i. handshakeTimer s = Some i \<and> armed (snd (f s L)) = filter (\<lambda>t. fst t \<noteq> i) (armed L)) \<or>
      handshakeTimer (fst (f s L)) = Some (nextHsTimer L) \<and>
        armed (snd (f s L)) = armed L @ [(nextHsTimer L, transportAddr s)] \<and>
        nextHsTimer (snd (f s L)) = nextHsTimer L + 1"
    using assms unfolding timer_local_def by blast
  then show ?thesis
    using that(1) that(2) by (elim disjE exE conjE) auto
qed

lemma timers_freshI:
  assumes "\<And>k sc. sl_sessions L k = Some sc \<Longrightarrow> Address_String (transportAddr sc) = k"
    and "\<And>k sc i. sl_sessions L k = Some sc \<Longrightarrow> handshakeTimer sc = Some i \<Longrightarrow> i < nextHsTimer L"
    and "\<And>k sc i a. sl_sessions L k = Some sc \<Longrightarrow> handshakeTimer sc = Some i \<Longrightarrow> (i, a) \<in> set (armed L)
      \<Longrightarrow> Address_String a = k"
    and "\<And>i a. (i, a) \<in> set (armed L) \<Longrightarrow> i < nextHsTimer L"
  shows "timers_fresh L"
  unfolding timers_fresh_def using assms by blast

lemma timers_freshD:
  assumes "timers_fresh L"
  shows "sl_sessions L k = Some sc \<Longrightarrow> Address_String (transportAddr sc) = k"
    and "sl_sessions L k = Some sc \<Longrightarrow> handshakeTimer sc = Some i \<Longrightarrow> i < nextHsTimer L"
    and "sl_sessions L k = Some sc \<Longrightarrow> handshakeTimer sc = Some i \<Longrightarrow> (i, a) \<in> set (armed L)
      \<Longrightarrow> Address_String a = k"
    and "(i, a) \<in> set (armed L) \<Longrightarrow> i < nextHsTimer L"
  using assms unfolding timers_fresh_def by blast+

text \<open>Steps that add no timer and keep or clear those of the sessions.\<close>

lemma timers_fresh_mono:
  assumes inv: "timers_fresh L" and ar: "set (armed M) \<subseteq> set (armed L)" "nextHsTimer M = nextHsTimer L"
    and old: "\<And>k sc. sl_sessions M k = Some sc \<Longrightarrow>
      (\<exists>sc'. sl_sessions L k = Some sc' \<and> transportAddr sc = transportAddr sc' \<and>
         (\<forall>i. handshakeTimer sc = Some i \<longrightarrow> handshakeTimer sc' = Some i)) \<or>
      Address_String (transportAddr sc) = k \<and> handshakeTimer sc = None"
  shows "timers_fresh M"
proof (rule timers_freshI)
  fix k sc i a
  assume sc: "sl_sessions M k = Some sc"
  show "Address_String (transportAddr sc) = k"
    using old [OF sc] timers_freshD(1) [OF inv] by metis
  assume i: "handshakeTimer sc = Some i"
  with old [OF sc] obtain sc' where sc': "sl_sessions L k = Some sc'" "handshakeTimer sc' = Some i"
    by auto
  show "i < nextHsTimer M" using timers_freshD(2) [OF inv sc'] ar(2) by simp
  assume "(i, a) \<in> set (armed M)"
  then show "Address_String a = k" using timers_freshD(3) [OF inv sc'] ar(1) by blast
next
  fix i a
  assume "(i, a) \<in> set (armed M)"
  then show "i < nextHsTimer M" using timers_freshD(4) [OF inv] ar by auto
qed

lemma timers_fresh_step:
  assumes inv: "timers_fresh L"
  shows "timers_fresh (session_step i L)"
proof (cases "stepAction i L")
  case Untouched
  show ?thesis
    by (rule timers_fresh_mono [OF inv untouched_timers(1,2) [OF Untouched]])
      (simp add: session_step_sessions Untouched)
next
  case (Expiry a)
  show ?thesis
  proof (rule timers_fresh_mono [OF inv expiry_timers [OF Expiry]])
    fix k sc
    assume "sl_sessions (session_step i L) k = Some sc"
    then have "\<exists>sc'. sl_sessions L k = Some sc' \<and> (sc = sc' \<or> sc = expire sc')"
      using Expiry by (auto simp: session_step_sessions split: option.splits if_splits)
    then show "(\<exists>sc'. sl_sessions L k = Some sc' \<and> transportAddr sc = transportAddr sc' \<and>
         (\<forall>i. handshakeTimer sc = Some i \<longrightarrow> handshakeTimer sc' = Some i)) \<or>
        Address_String (transportAddr sc) = k \<and> handshakeTimer sc = None"
      using expire_timer by blast
  qed
next
  case (Callback a h f)
  let ?s = "sessionEntry a h L" and ?r = "f (sessionEntry a h L) L"
  note tm = session_step_timers [OF Callback]
  have loc: "timer_local f" by (rule stepAction_timer_local [OF Callback])
  have addr: "transportAddr (fst ?r) = transportAddr ?s" using loc by (simp add: timer_local_def)
  have entry: "(\<exists>sc'. sl_sessions L (Address_String a) = Some sc' \<and> transportAddr ?s = transportAddr sc' \<and>
       handshakeTimer ?s = handshakeTimer sc') \<or>
      Address_String (transportAddr ?s) = Address_String a \<and> handshakeTimer ?s = None"
    by (auto simp: sessionEntry_def split: option.splits)
  have key: "Address_String (transportAddr ?s) = Address_String a"
    using entry timers_freshD(1) [OF inv] by metis
  have new: "k = Address_String a \<and> sc = fst ?r \<or> k \<noteq> Address_String a \<and> sl_sessions L k = Some sc"
    if "sl_sessions (session_step i L) k = Some sc" for k sc
    using that by (auto simp: session_step_sessions Callback split: if_splits)
  from loc show ?thesis
  proof (cases rule: timer_local_cases [where s = ?s and L = L])
    case 1
    show ?thesis
    proof (rule timers_fresh_mono [OF inv])
      fix k sc
      assume "sl_sessions (session_step i L) k = Some sc"
      from new [OF this] show "(\<exists>sc'. sl_sessions L k = Some sc' \<and> transportAddr sc = transportAddr sc' \<and>
           (\<forall>i. handshakeTimer sc = Some i \<longrightarrow> handshakeTimer sc' = Some i)) \<or>
          Address_String (transportAddr sc) = k \<and> handshakeTimer sc = None"
        using entry addr 1(1) by auto
    qed (use 1 tm in auto)
  next
    case 2
    note ar = 2(2) [folded tm(1)] and nx = 2(3) [folded tm(3)]
    show ?thesis
    proof (rule timers_freshI)
      fix k sc j b
      assume "sl_sessions (session_step i L) k = Some sc"
      note cs = new [OF this]
      show "Address_String (transportAddr sc) = k"
        using cs timers_freshD(1) [OF inv] addr key by auto
      assume j: "handshakeTimer sc = Some j"
      show "j < nextHsTimer (session_step i L)"
        using cs
      proof
        assume "k = Address_String a \<and> sc = fst ?r"
        then show ?thesis using j 2(1) nx by simp
      next
        assume "k \<noteq> Address_String a \<and> sl_sessions L k = Some sc"
        then show ?thesis using timers_freshD(2) [OF inv _ j] nx by (metis less_SucI Suc_eq_plus1)
      qed
      assume jb: "(j, b) \<in> set (armed (session_step i L))"
      show "Address_String b = k"
        using cs
      proof
        assume k: "k = Address_String a \<and> sc = fst ?r"
        then have "j = nextHsTimer L" using j 2(1) by simp
        then have "(j, b) \<notin> set (armed L)" using timers_freshD(4) [OF inv] by blast
        then show ?thesis using jb ar k key by simp
      next
        assume k: "k \<noteq> Address_String a \<and> sl_sessions L k = Some sc"
        then have "j \<noteq> nextHsTimer L" using timers_freshD(2) [OF inv _ j] by blast
        then show ?thesis using jb ar k timers_freshD(3) [OF inv _ j] by auto
      qed
    next
      fix j b
      assume "(j, b) \<in> set (armed (session_step i L))"
      then show "j < nextHsTimer (session_step i L)"
        using ar nx timers_freshD(4) [OF inv] by (auto intro: less_SucI)
    qed
  qed
qed

lemma timers_fresh_run: "timers_fresh L \<Longrightarrow> timers_fresh (session_run is L)"
  by (induction "is" arbitrary: L) (simp_all add: session_run_def timers_fresh_step)

lemma timers_fresh_new: "timers_fresh (NewSessionLayer me)"
  by (simp add: timers_fresh_def NewSessionLayer_def)

text \<open>A callback that leaves its session handshaking as a client removes no timer; one that stops a
  timer stops its own.\<close>

definition stops_own :: "(sessionConn \<Rightarrow> sessionLayer \<Rightarrow> sessionConn \<times> sessionLayer) \<Rightarrow> bool" where
  "stops_own f \<longleftrightarrow> (\<forall>s L. expired (snd (f s L)) = expired L \<and>
     (sstate (fst (f s L)) = SessionStateHandshakingClient \<longrightarrow> set (armed L) \<subseteq> set (armed (snd (f s L)))) \<and>
     (\<forall>t. t \<in> set (armed L) \<longrightarrow> handshakeTimer s \<noteq> Some (fst t) \<longrightarrow> t \<in> set (armed (snd (f s L)))))"

lemma handlers_stop_own:
  "stops_own handleClientConnectRequested"
  "stops_own (\<lambda>sc. handleConnected (idleToServer sc))"
  "stops_own (\<lambda>sc. handleHandshakeMessage body (idleToServer sc))"
  "stops_own handleDisconnected"
  "stops_own handleFailed"
proof -
  have tm: "handshakeTimer (idleToServer s) = handshakeTimer s" for s
    by (simp add: idleToServer_def)
  show "stops_own handleClientConnectRequested"
    by (auto simp: stops_own_def handleClientConnectRequested_def callTransport_def)
  show "stops_own (\<lambda>sc. handleConnected (idleToServer sc))"
    by (auto simp: stops_own_def handleConnected_def armHandshakeTimer_def callTransport_def
        emitEvent_def split: sum.splits)
  show "stops_own (\<lambda>sc. handleHandshakeMessage body (idleToServer sc))"
    by (auto simp: stops_own_def handleHandshakeMessage_def handleServerHandshake_def
        handleClientHandshake_def rejectHandshake_def stopHandshakeTimer_def callTransport_def
        emitEvent_def setServerMapping_def Let_def tm
        split: option.splits prod.splits hs_error.splits)
  show "stops_own handleDisconnected"
    by (auto simp: stops_own_def handleDisconnected_def stopHandshakeTimer_def emitEvent_def Let_def
        split: option.splits)
  show "stops_own handleFailed"
    by (auto simp: stops_own_def handleFailed_def stopHandshakeTimer_def emitEvent_def Let_def
        split: option.splits)
qed

lemma stepAction_stops_own: "stepAction i L = Callback a h f \<Longrightarrow> stops_own f"
  using handlers_stop_own by (cases "(i, L)" rule: stepAction.cases) (auto split: if_splits)

definition waiting :: "Address \<Rightarrow> sessionLayer \<Rightarrow> bool" where
  "waiting a L \<longleftrightarrow> pendingTimer a L \<and>
     (\<exists>sc. sl_sessions L (Address_String a) = Some sc \<and> transportAddr sc = a)"

lemma pending_callback:
  assumes inv: "timers_fresh L" and w: "waiting a L" and cb: "stepAction i L = Callback a' h f"
    and st: "sessionState a (session_step i L) = SessionStateHandshakingClient"
  shows "pendingTimer a (session_step i L)"
proof -
  let ?s = "sessionEntry a' h L"
  note tm = session_step_timers [OF cb]
  have own: "stops_own f" by (rule stepAction_stops_own [OF cb])
  then have ex: "expired (session_step i L) = expired L" using tm by (simp add: stops_own_def)
  show ?thesis
  proof (cases "a \<in> set (expired L)")
    case True
    then show ?thesis using ex by (simp add: pendingTimer_def)
  next
    case False
    then obtain j where j: "(j, a) \<in> set (armed L)"
      using w by (auto simp: waiting_def pendingTimer_def)
    have "(j, a) \<in> set (armed (snd (f ?s L)))"
    proof (cases "Address_String a' = Address_String a")
      case True
      then have "sstate (fst (f ?s L)) = SessionStateHandshakingClient"
        using st by (simp add: sessionState_def session_step_sessions cb)
      then show ?thesis using own j unfolding stops_own_def by blast
    next
      case False
      have "handshakeTimer ?s \<noteq> Some j"
      proof
        assume "handshakeTimer ?s = Some j"
        then obtain sc where "sl_sessions L (Address_String a') = Some sc" "handshakeTimer sc = Some j"
          by (auto simp: sessionEntry_def split: option.splits if_splits)
        from timers_freshD(3) [OF inv this j] False show False by simp
      qed
      then show ?thesis using own j unfolding stops_own_def by auto
    qed
    then show ?thesis using tm by (force simp: pendingTimer_def)
  qed
qed

lemma pending_expiry:
  assumes inv: "timers_fresh L" and w: "waiting a L" and ex: "stepAction i L = Expiry a'"
    and st: "sessionState a (session_step i L) = SessionStateHandshakingClient"
  shows "pendingTimer a (session_step i L)"
proof -
  have i: "i = HandshakeTimeout a'" "a' \<in> set (expired L)"
    using ex by (cases "(i, L)" rule: stepAction.cases; simp split: if_splits)+
  have ne: "Address_String a' \<noteq> Address_String a"
  proof
    assume eq: "Address_String a' = Address_String a"
    obtain sc where "sl_sessions L (Address_String a) = Some sc" using w by (auto simp: waiting_def)
    then have "sessionState a (session_step i L) = sstate (expire sc)"
      using ex eq by (simp add: sessionState_def session_step_sessions)
    then show False using st by (simp add: expire_def split: if_splits)
  qed
  have ar: "t \<in> set (armed (session_step i L))" if "t \<in> set (armed L)" "snd t = a" for t
    using that i ne timers_freshD(3) [OF inv, of "Address_String a'" _ "fst t" a]
    by (auto simp: dispatchHandshakeTimeout_def stopHandshakeTimer_def emitEvent_def
        callTransport_def Let_def split: option.splits)
  have "a \<noteq> a'" using ne by auto
  then have ep: "a \<in> set (expired (session_step i L))" if "a \<in> set (expired L)"
    using that i by (auto simp: dispatchHandshakeTimeout_def stopHandshakeTimer_def emitEvent_def
        callTransport_def Let_def split: option.splits)
  from w consider t where "t \<in> set (armed L)" "snd t = a" | "a \<in> set (expired L)"
    by (auto simp: waiting_def pendingTimer_def)
  then show ?thesis
    by cases (use ar ep in \<open>auto simp: pendingTimer_def image_iff\<close>)
qed

lemma waiting_step:
  assumes inv: "timers_fresh L" and w: "waiting a L"
    and st: "sessionState a (session_step i L) = SessionStateHandshakingClient"
  shows "waiting a (session_step i L)"
proof -
  obtain sc where sc: "sl_sessions L (Address_String a) = Some sc" "transportAddr sc = a"
    using w by (auto simp: waiting_def)
  have "pendingTimer a (session_step i L)"
    using untouched_timers(3) [of i L a] pending_callback [OF inv w _ st] pending_expiry [OF inv w _ st] w
    by (cases "stepAction i L") (auto simp: waiting_def)
  moreover have "\<exists>sc'. sl_sessions (session_step i L) (Address_String a) = Some sc' \<and> transportAddr sc' = a"
  proof (cases "stepAction i L")
    case (Callback a' h f)
    have "transportAddr (fst (f (sessionEntry a' h L) L)) = transportAddr (sessionEntry a' h L)"
      using stepAction_timer_local [OF Callback] by (simp add: timer_local_def)
    then show ?thesis
      using sc Callback
      by (cases "Address_String a' = Address_String a") (simp_all add: session_step_sessions sessionEntry_def)
  qed (use sc in \<open>auto simp: session_step_sessions expire_timer split: option.splits\<close>)
  ultimately show ?thesis by (simp add: waiting_def)
qed

lemma waiting_run:
  assumes "timers_fresh L" "waiting a L"
    and "\<forall>n. sessionState a (session_run (take n js) L) = SessionStateHandshakingClient"
  shows "waiting a (session_run js L)"
  using assms
proof (induction js arbitrary: L)
  case (Cons i js)
  have "sessionState a (session_step i L) = SessionStateHandshakingClient"
    using Cons.prems(3) [rule_format, of 1] by (simp add: session_run_def)
  from waiting_step [OF Cons.prems(1,2) this] have "waiting a (session_step i L)" .
  moreover have "sessionState a (session_run (take n js) (session_step i L)) = SessionStateHandshakingClient" for n
    using Cons.prems(3) [rule_format, of "Suc n"] by (simp add: session_run_def)
  ultimately show ?case
    using Cons.IH [of "session_step i L"] timers_fresh_step [OF Cons.prems(1)]
    by (simp add: session_run_def)
qed (simp add: session_run_def)

text \<open>C32. A dial does not hang on a silent peer.  In every reachable state, once the transport is
  connected and the Hello sent, then for as long as the session keeps waiting for its answer its
  timer is armed or its expiry is on the way to the handler; and when the handler receives the
  expiry, the session fails, the failure is reported and the connection closed.\<close>

theorem handshake_wait_bounded:
  assumes "L = session_run is (NewSessionLayer me)" "host_ok (sl_self L)"
    and "inSession a h SessionStateHandshakingClient L"
    and "\<forall>n. sessionState a (session_run (take n js) (dispatchConnected a L)) = SessionStateHandshakingClient"
  defines "M \<equiv> session_run js (dispatchConnected a L)"
  shows "(a \<in> snd ` set (armed M) \<or> a \<in> set (expired M)) \<and>
    (a \<in> set (expired M) \<longrightarrow>
       sessionState a (session_step (HandshakeTimeout a) M) = SessionStateFailed \<and>
       (\<exists>h'. sevents (session_step (HandshakeTimeout a) M) = sevents M @ [SessionFailed h']) \<and>
       tcalls (session_step (HandshakeTimeout a) M) = tcalls M @ [TDisconnect a])"
proof -
  let ?L1 = "dispatchConnected a L"
  have f: "timers_fresh ?L1"
    using timers_fresh_step [OF timers_fresh_run [OF timers_fresh_new], of "TransportEvent (Connected a)"]
    by (simp add: assms(1))
  obtain sc where sc: "sl_sessions L (Address_String a) = Some sc" "transportAddr sc = a"
    "sstate sc = SessionStateHandshakingClient"
    using assms(3) by (auto simp: inSession_def)
  have "waiting a ?L1"
    using sc assms(2)
    by (simp add: dispatchConnected_def withSession_eq idleToServer_def handleConnected_def
        encodeHello_image armHandshakeTimer_def waiting_def pendingTimer_def callTransport_def)
  from waiting_run [OF f this assms(4)] have w: "waiting a M" unfolding M_def .
  have "sessionState a M = SessionStateHandshakingClient"
    using assms(4) [rule_format, of "length js"] by (simp add: M_def)
  with w show ?thesis
    by (auto simp: waiting_def pendingTimer_def sessionState_def dispatchHandshakeTimeout_def
        stopHandshakeTimer_def emitEvent_def callTransport_def Let_def split: option.splits)
qed

theorem handshake_wait_bounded_witness:
  "\<exists>M h'. sevents (session_step (HandshakeTimeout (HostAddress (Host 7000 ''10.0.0.2''))) M) = [SessionFailed h']"
proof -
  let ?b = "Host 7000 ''10.0.0.2''" and ?me = "Host 7000 ''10.0.0.1''"
  let ?L = "session_run [ConnectRequest ?b] (NewSessionLayer ?me)"
  let ?M = "session_run [TimerGoesOff 0] (dispatchConnected (HostAddress ?b) ?L)"
  have me: "host_ok ?me" by (simp add: host_ok_def)
  have L: "inSession (HostAddress ?b) ?b SessionStateHandshakingClient ?L" "host_ok (sl_self ?L)"
    using me by (simp_all add: session_run_def inSession_def session_defs NewSessionLayer_def)
  have n: "take n [TimerGoesOff 0] = (if n = 0 then [] else [TimerGoesOff 0])" for n
    by (cases n) simp_all
  have "\<forall>n. sessionState (HostAddress ?b)
      (session_run (take n [TimerGoesOff 0]) (dispatchConnected (HostAddress ?b) ?L)) =
      SessionStateHandshakingClient"
    using me by (simp add: n session_run_def session_defs NewSessionLayer_def sessionState_def
        encodeHello_image)
  from handshake_wait_bounded [OF refl L(2,1) this]
  have "HostAddress ?b \<in> set (expired ?M) \<longrightarrow>
      (\<exists>h'. sevents (session_step (HandshakeTimeout (HostAddress ?b)) ?M) = sevents ?M @ [SessionFailed h'])"
    by blast
  moreover have "HostAddress ?b \<in> set (expired ?M)" "sevents ?M = []"
    using me by (simp_all add: session_run_def session_defs NewSessionLayer_def encodeHello_image)
  ultimately show ?thesis by (metis append_Nil)
qed

subsection \<open>A late expiry\<close>

definition lateExpiry :: "Host \<Rightarrow> session_input list" where
  "lateExpiry b =
     [ConnectRequest b, TransportEvent (Connected (HostAddress b)), TimerGoesOff 0,
      TransportEvent (Disconnected (HostAddress b)),
      ConnectRequest b, TransportEvent (Connected (HostAddress b)),
      HandshakeTimeout (HostAddress b)]"

text \<open>An expiry that lost the race against a disconnect is not a no-op when the peer has been
  dialled again: it fails the new handshake, whose own timer has not run out.\<close>

theorem late_expiry_fails_next_dial:
  assumes "host_ok me" "Port b \<noteq> 0"
  defines "L \<equiv> session_run (lateExpiry b) (NewSessionLayer me)"
  shows "sevents L = [SessionDisconnected b, SessionFailed b] \<and>
    last (tcalls L) = TDisconnect (HostAddress b) \<and> sessionState (HostAddress b) L = SessionStateFailed"
  using assms(1,2) unfolding L_def
  by (simp add: lateExpiry_def session_run_def NewSessionLayer_def session_defs stopHandshakeTimer_def
      encodeHello_image logicalFor_def cleanupServerMapping_def dispatchHandshakeTimeout_def
      sessionState_def)

theorem late_expiry_fails_next_dial_witness:
  "sevents (session_run (lateExpiry (Host 7000 ''10.0.0.2'')) (NewSessionLayer (Host 7000 ''10.0.0.1'')))
   = [SessionDisconnected (Host 7000 ''10.0.0.2''), SessionFailed (Host 7000 ''10.0.0.2'')]"
  using late_expiry_fails_next_dial [of "Host 7000 ''10.0.0.1''" "Host 7000 ''10.0.0.2''"]
  by (simp add: host_ok_def)

end
