(* ===== verification/Retry.thy ===== *)
theory Retry
  imports Event_Loop Session
begin

text \<open>
  \<open>pkg/protorun/retry.go\<close> and the session events of \<open>runtime.go\<close>: which peers the runtime keeps
  dialling, when it gives up, and what protocols hear of it.

  The delay that \<open>nextDelay\<close> draws (64-bit floating point and a random jitter) is an argument of
  the operations, so the theorems hold for every schedule.  A backoff timer goes off in two
  steps, as the clock runs its function on another goroutine: \<open>Fires\<close> starts the function and
  \<open>RunsFired\<close> is its critical section followed by the dial.
\<close>

subsection \<open>State\<close>

record RetryPolicy =
  Initial :: int
  MaxDelay :: int
  MaxAttempts :: int

definition retry_withDefaults :: "RetryPolicy \<Rightarrow> RetryPolicy" where
  "retry_withDefaults p =
     (let p = (if Initial p \<le> 0 then p\<lparr>Initial := 100 * 1000000\<rparr> else p)
      in if MaxDelay p \<le> 0 then p\<lparr>MaxDelay := 30 * 1000000000\<rparr> else p)"

record retryState =
  rpolicy :: RetryPolicy
  attempt :: int
  rtimer :: "nat option"

datatype connect_error = ErrNoSessionLayer | CtxErr

record retry_rt =
  retryPolicy :: RetryPolicy
  connectionRetries :: "Host \<rightharpoonup> retryState"
  clockTimers :: "nat \<rightharpoonup> Host \<times> int"
  nextClockTimer :: nat
  firing :: "Host list"
  sessionLayer :: bool
  ctxDone :: bool
  established :: "Host set"
  dials :: "Host list"
  hangups :: "Host list"
  fanned :: "sessionEvent list"

definition newRetry :: "RetryPolicy \<Rightarrow> bool \<Rightarrow> retry_rt" where
  "newRetry rp sl =
     \<lparr>retryPolicy = rp, connectionRetries = Map.empty, clockTimers = Map.empty, nextClockTimer = 0,
      firing = [], sessionLayer = sl, ctxDone = False, established = {}, dials = [], hangups = [],
      fanned = []\<rparr>"

subsection \<open>Operations\<close>

definition rt_connect :: "Host \<Rightarrow> retry_rt \<Rightarrow> connect_error option \<times> retry_rt" where
  "rt_connect host r =
     (if \<not> sessionLayer r then (Some ErrNoSessionLayer, r)
      else if ctxDone r then (Some CtxErr, r)
      else (None, r\<lparr>dials := dials r @ [host]\<rparr>))"

definition stopTimer :: "nat option \<Rightarrow> retry_rt \<Rightarrow> retry_rt" where
  "stopTimer t r = (case t of None \<Rightarrow> r | Some i \<Rightarrow> r\<lparr>clockTimers := (clockTimers r)(i := None)\<rparr>)"

definition connectWithRetry :: "Host \<Rightarrow> retry_rt \<Rightarrow> connect_error option \<times> retry_rt" where
  "connectWithRetry host r =
     (if connectionRetries r host \<noteq> None then (None, r)
      else rt_connect host
        (r\<lparr>connectionRetries := (connectionRetries r)(host \<mapsto>
             \<lparr>rpolicy = retry_withDefaults (retryPolicy r), attempt = 0, rtimer = None\<rparr>)\<rparr>))"

definition onSessionUpForRetry :: "Host \<Rightarrow> retry_rt \<Rightarrow> bool \<times> retry_rt" where
  "onSessionUpForRetry host r =
     (case connectionRetries r host of
        None \<Rightarrow> (False, r)
      | Some st \<Rightarrow>
          let r = stopTimer (rtimer st) r
          in (True, r\<lparr>connectionRetries := (connectionRetries r)(host := None)\<rparr>))"

definition onSessionDownForRetry ::
  "int \<Rightarrow> Host \<Rightarrow> retry_rt \<Rightarrow> bool \<times> int \<times> bool \<times> retry_rt" where
  "onSessionDownForRetry delay host r =
     (case connectionRetries r host of
        None \<Rightarrow> (False, 0, False, r)
      | Some st \<Rightarrow>
          let r = stopTimer (rtimer st) r;
              st = st\<lparr>rtimer := None, attempt := attempt st + 1\<rparr>
          in if MaxAttempts (rpolicy st) > 0 \<and> attempt st \<ge> MaxAttempts (rpolicy st)
             then (True, attempt st, True,
                   r\<lparr>connectionRetries := (connectionRetries r)(host := None)\<rparr>)
             else let i = nextClockTimer r;
                      st = st\<lparr>rtimer := Some i\<rparr>
                  in (False, 0, True,
                      r\<lparr>nextClockTimer := i + 1, clockTimers := (clockTimers r)(i \<mapsto> (host, delay)),
                        connectionRetries := (connectionRetries r)(host \<mapsto> st)\<rparr>))"

text \<open>The function a backoff timer runs.\<close>

definition retryFires :: "Host \<Rightarrow> retry_rt \<Rightarrow> retry_rt" where
  "retryFires host r =
     (if connectionRetries r host = None then r
      else if ctxDone r then r
      else snd (rt_connect host r))"

definition giveUpRetryNow :: "Host \<Rightarrow> retry_rt \<Rightarrow> int \<times> retry_rt" where
  "giveUpRetryNow host r =
     (case connectionRetries r host of
        None \<Rightarrow> (0, r)
      | Some st \<Rightarrow>
          let r = stopTimer (rtimer st) r
          in (attempt st, r\<lparr>connectionRetries := (connectionRetries r)(host := None)\<rparr>))"

definition stopRetryFor :: "Host \<Rightarrow> retry_rt \<Rightarrow> retry_rt" where
  "stopRetryFor host r =
     (case connectionRetries r host of
        None \<Rightarrow> r
      | Some st \<Rightarrow>
          let r = stopTimer (rtimer st) r
          in r\<lparr>connectionRetries := (connectionRetries r)(host := None)\<rparr>)"

text \<open>The loop of \<open>retryTeardown\<close>, over the tracked hosts in whatever order the map gives them.\<close>

definition retryTeardown :: "Host list \<Rightarrow> retry_rt \<Rightarrow> retry_rt" where
  "retryTeardown order r = fold stopRetryFor order r"

definition rt_disconnect :: "Host \<Rightarrow> retry_rt \<Rightarrow> connect_error option \<times> retry_rt" where
  "rt_disconnect host r =
     (if \<not> sessionLayer r then (Some ErrNoSessionLayer, r)
      else let r = stopRetryFor host r
           in if ctxDone r then (Some CtxErr, r)
              else (None, r\<lparr>hangups := hangups r @ [host]\<rparr>))"

definition markEstablished :: "Host \<Rightarrow> retry_rt \<Rightarrow> retry_rt" where
  "markEstablished host r = r\<lparr>established := insert host (established r)\<rparr>"

definition markDisconnected :: "Host \<Rightarrow> retry_rt \<Rightarrow> retry_rt" where
  "markDisconnected host r = r\<lparr>established := established r - {host}\<rparr>"

text \<open>
  What protocols are told.  \<open>ends ev\<close> says whether the fan-out of \<open>ev\<close> ran to its end, which fails
  only when the runtime shuts down meanwhile; the events reach the mailboxes in the theory of the
  runtime.
\<close>

definition tell :: "(sessionEvent \<Rightarrow> bool) \<Rightarrow> sessionEvent \<Rightarrow> retry_rt \<Rightarrow> bool \<times> retry_rt" where
  "tell ends ev r = (ends ev, r\<lparr>fanned := fanned r @ [ev]\<rparr>)"

definition onSessionFailedEvent ::
  "int \<Rightarrow> (sessionEvent \<Rightarrow> bool) \<Rightarrow> Host \<Rightarrow> retry_rt \<Rightarrow> bool \<times> retry_rt" where
  "onSessionFailedEvent delay ends host r =
     (case onSessionDownForRetry delay host r of (giveUp, attempts, managed, r) \<Rightarrow>
        if giveUp then tell ends (SessionGivenUpEvent host attempts) r
        else if managed then (True, r)
        else tell ends (SessionFailedEvent host) r)"

fun dispatchSessionEvent ::
  "int \<Rightarrow> (sessionEvent \<Rightarrow> bool) \<Rightarrow> session_layer_event \<Rightarrow> retry_rt \<Rightarrow> bool \<times> retry_rt" where
  "dispatchSessionEvent delay ends (SessionConnected h) r =
     (let r = markEstablished h r;
          (cleared, r) = onSessionUpForRetry h r
      in tell ends (SessionConnectedEvent h) r)"
| "dispatchSessionEvent delay ends (SessionDisconnected h) r =
     (case onSessionDownForRetry delay h (markDisconnected h r) of (giveUp, attempts, managed, r) \<Rightarrow>
        if giveUp
        then case tell ends (SessionGivenUpEvent h attempts) r of (ok, r) \<Rightarrow>
               if \<not> ok then (False, r) else tell ends (SessionDisconnectedEvent h) r
        else tell ends (SessionDisconnectedEvent h) r)"
| "dispatchSessionEvent delay ends (SessionFailed h) r = onSessionFailedEvent delay ends h r"
| "dispatchSessionEvent delay ends (SessionVersionMismatch h v inbound) r =
     (if inbound then (True, r)
      else case giveUpRetryNow h r of (attempts, r) \<Rightarrow>
             tell ends (SessionGivenUpEvent h attempts) r)"

subsection \<open>Runs\<close>

datatype retry_event =
    WantsRetry Host
  | WantsConnect Host
  | WantsDisconnect Host
  | Layer int "sessionEvent \<Rightarrow> bool" session_layer_event
  | Fires nat
  | RunsFired Host
  | Teardown "Host list"

fun retry_step :: "retry_event \<Rightarrow> retry_rt \<Rightarrow> retry_rt" where
  "retry_step (WantsRetry h) r = snd (connectWithRetry h r)"
| "retry_step (WantsConnect h) r = snd (rt_connect h r)"
| "retry_step (WantsDisconnect h) r = snd (rt_disconnect h r)"
| "retry_step (Layer delay ends ev) r = snd (dispatchSessionEvent delay ends ev r)"
| "retry_step (Fires i) r =
     (case clockTimers r i of
        None \<Rightarrow> r
      | Some (h, d) \<Rightarrow> r\<lparr>clockTimers := (clockTimers r)(i := None), firing := firing r @ [h]\<rparr>)"
| "retry_step (RunsFired h) r =
     (if h \<in> set (firing r) then retryFires h (r\<lparr>firing := remove1 h (firing r)\<rparr>) else r)"
| "retry_step (Teardown order) r =
     retryTeardown order (r\<lparr>ctxDone := True\<rparr>)"

lemma stopTimer_simps [simp]:
  "connectionRetries (stopTimer t r) = connectionRetries r" "nextClockTimer (stopTimer t r) = nextClockTimer r"
  "firing (stopTimer t r) = firing r" "sessionLayer (stopTimer t r) = sessionLayer r"
  "ctxDone (stopTimer t r) = ctxDone r" "dials (stopTimer t r) = dials r"
  "fanned (stopTimer t r) = fanned r" "retryPolicy (stopTimer t r) = retryPolicy r"
  "clockTimers (stopTimer t r) = (case t of None \<Rightarrow> clockTimers r | Some i \<Rightarrow> (clockTimers r)(i := None))"
  by (simp_all add: stopTimer_def split: option.split)

lemmas retry_ops = rt_connect_def connectWithRetry_def onSessionUpForRetry_def onSessionDownForRetry_def
  retryFires_def giveUpRetryNow_def stopRetryFor_def rt_disconnect_def markEstablished_def
  markDisconnected_def tell_def onSessionFailedEvent_def

subsection \<open>Per peer, a failure counter\<close>

text \<open>
  What the retry machinery does for one peer, abstractly: either the peer is not retried, or so
  many attempts have failed; with a positive limit the last allowed failure ends it.
\<close>

definition one_more :: "int \<Rightarrow> int option \<Rightarrow> int option" where
  "one_more limit v = (case v of None \<Rightarrow> None | Some k \<Rightarrow>
     if 0 < limit \<and> limit \<le> k + 1 then None else Some (k + 1))"

fun counter_step :: "int \<Rightarrow> bool \<Rightarrow> Host \<Rightarrow> retry_event \<Rightarrow> int option \<Rightarrow> int option" where
  "counter_step limit sl h (WantsRetry x) v = (if x = h \<and> v = None then Some 0 else v)"
| "counter_step limit sl h (WantsDisconnect x) v = (if x = h \<and> sl then None else v)"
| "counter_step limit sl h (Layer d ends (SessionConnected x)) v = (if x = h then None else v)"
| "counter_step limit sl h (Layer d ends (SessionDisconnected x)) v = (if x = h then one_more limit v else v)"
| "counter_step limit sl h (Layer d ends (SessionFailed x)) v = (if x = h then one_more limit v else v)"
| "counter_step limit sl h (Layer d ends (SessionVersionMismatch x ver inbound)) v =
     (if x = h \<and> \<not> inbound then None else v)"
| "counter_step limit sl h (Teardown order) v = (if h \<in> set order then None else v)"
| "counter_step limit sl h _ v = v"

text \<open>What protocols are told of one peer.\<close>

fun counter_out :: "int \<Rightarrow> Host \<Rightarrow> retry_event \<Rightarrow> int option \<Rightarrow> sessionEvent list" where
  "counter_out limit h (Layer d ends (SessionConnected x)) v = (if x = h then [SessionConnectedEvent h] else [])"
| "counter_out limit h (Layer d ends (SessionDisconnected x)) v =
     (if x \<noteq> h then []
      else case v of
             None \<Rightarrow> [SessionDisconnectedEvent h]
           | Some k \<Rightarrow>
               if one_more limit v = None
               then if ends (SessionGivenUpEvent h (k + 1))
                    then [SessionGivenUpEvent h (k + 1), SessionDisconnectedEvent h]
                    else [SessionGivenUpEvent h (k + 1)]
               else [SessionDisconnectedEvent h])"
| "counter_out limit h (Layer d ends (SessionFailed x)) v =
     (if x \<noteq> h then []
      else case v of
             None \<Rightarrow> [SessionFailedEvent h]
           | Some k \<Rightarrow> if one_more limit v = None then [SessionGivenUpEvent h (k + 1)] else [])"
| "counter_out limit h (Layer d ends (SessionVersionMismatch x ver inbound)) v =
     (if x = h \<and> \<not> inbound then [SessionGivenUpEvent h (case v of None \<Rightarrow> 0 | Some k \<Rightarrow> k)] else [])"
| "counter_out limit h _ v = []"

definition failures :: "Host \<Rightarrow> retry_rt \<Rightarrow> int option" where
  "failures h r = map_option attempt (connectionRetries r h)"

definition told :: "Host \<Rightarrow> retry_rt \<Rightarrow> sessionEvent list" where
  "told h r = filter (\<lambda>ev. session_host ev = h) (fanned r)"

text \<open>Every tracked peer has the limit of the runtime's policy.\<close>

definition limits_ok :: "retry_rt \<Rightarrow> bool" where
  "limits_ok r \<longleftrightarrow> (\<forall>st \<in> ran (connectionRetries r). MaxAttempts (rpolicy st) = MaxAttempts (retryPolicy r))"

lemma limits_okD:
  "limits_ok r \<Longrightarrow> connectionRetries r h = Some st \<Longrightarrow> MaxAttempts (rpolicy st) = MaxAttempts (retryPolicy r)"
  by (auto simp: limits_ok_def ran_def)

lemma withDefaults_limit [simp]: "MaxAttempts (retry_withDefaults p) = MaxAttempts p"
  by (simp add: retry_withDefaults_def Let_def)

lemma limits_okI:
  assumes "limits_ok r" "retryPolicy r' = retryPolicy r"
    "\<And>h st. connectionRetries r' h = Some st \<Longrightarrow> connectionRetries r h = Some st \<or>
      MaxAttempts (rpolicy st) = MaxAttempts (retryPolicy r)"
  shows "limits_ok r'"
  using assms by (fastforce simp: limits_ok_def ran_def)

lemma stopRetryFor_simps [simp]:
  "connectionRetries (stopRetryFor h r) = (connectionRetries r)(h := None)"
  "retryPolicy (stopRetryFor h r) = retryPolicy r" "fanned (stopRetryFor h r) = fanned r"
  "sessionLayer (stopRetryFor h r) = sessionLayer r" "ctxDone (stopRetryFor h r) = ctxDone r"
  "firing (stopRetryFor h r) = firing r" "dials (stopRetryFor h r) = dials r"
  "nextClockTimer (stopRetryFor h r) = nextClockTimer r"
  by (auto simp: stopRetryFor_def Let_def split: option.split)

lemma teardown_simps [simp]:
  "connectionRetries (retryTeardown hs r) = connectionRetries r |` (- set hs)"
  "retryPolicy (retryTeardown hs r) = retryPolicy r" "fanned (retryTeardown hs r) = fanned r"
  "sessionLayer (retryTeardown hs r) = sessionLayer r" "ctxDone (retryTeardown hs r) = ctxDone r"
  "firing (retryTeardown hs r) = firing r" "dials (retryTeardown hs r) = dials r"
  "nextClockTimer (retryTeardown hs r) = nextClockTimer r"
  by (induction hs arbitrary: r)
    (auto simp: retryTeardown_def restrict_map_def fun_eq_iff)


lemma retry_step_const [simp]:
  "retryPolicy (retry_step e r) = retryPolicy r" "sessionLayer (retry_step e r) = sessionLayer r"
proof -
  have "retryPolicy (retry_step e r) = retryPolicy r \<and> sessionLayer (retry_step e r) = sessionLayer r"
  proof (cases e)
    case (Layer d ends ev)
    then show ?thesis by (cases ev) (auto simp: retry_ops Let_def split: option.split)
  qed (auto simp: retry_ops Let_def split: option.split)
  then show "retryPolicy (retry_step e r) = retryPolicy r" "sessionLayer (retry_step e r) = sessionLayer r"
    by simp_all
qed

lemma limits_ok_step:
  assumes "limits_ok r" shows "limits_ok (retry_step e r)"
proof (rule limits_okI [OF assms])
  fix h st assume "connectionRetries (retry_step e r) h = Some st"
  then show "connectionRetries r h = Some st \<or> MaxAttempts (rpolicy st) = MaxAttempts (retryPolicy r)"
  proof (cases e)
    case (Layer d ends ev)
    with assms \<open>connectionRetries (retry_step e r) h = Some st\<close> show ?thesis
      by (cases ev) (auto simp: retry_ops Let_def dest: limits_okD split: option.splits if_splits)
  qed (auto simp: retry_ops Let_def restrict_map_def split: option.splits if_splits)
qed simp

lemma failures_step:
  assumes "limits_ok r"
  shows "failures h (retry_step e r) =
    counter_step (MaxAttempts (retryPolicy r)) (sessionLayer r) h e (failures h r)"
proof (cases e)
  case (Layer d ends ev)
  show ?thesis
  proof (cases ev)
    case (SessionDisconnected x)
    then show ?thesis using Layer assms
      by (cases "connectionRetries r x")
        (auto simp: retry_ops failures_def one_more_def Let_def dest: limits_okD)
  next
    case (SessionFailed x)
    then show ?thesis using Layer assms
      by (cases "connectionRetries r x")
        (auto simp: retry_ops failures_def one_more_def Let_def dest: limits_okD)
  qed (use Layer in \<open>auto simp: retry_ops failures_def Let_def split: option.split\<close>)
qed (auto simp: retry_ops failures_def Let_def restrict_map_def split: option.split)

lemma told_step:
  assumes "limits_ok r"
  shows "told h (retry_step e r) =
    told h r @ counter_out (MaxAttempts (retryPolicy r)) h e (failures h r)"
proof (cases e)
  case (Layer d ends ev)
  show ?thesis
  proof (cases ev)
    case (SessionDisconnected x)
    then show ?thesis using Layer assms
      by (cases "connectionRetries r x")
        (auto simp: retry_ops failures_def told_def one_more_def Let_def dest: limits_okD)
  next
    case (SessionFailed x)
    then show ?thesis using Layer assms
      by (cases "connectionRetries r x")
        (auto simp: retry_ops failures_def told_def one_more_def Let_def dest: limits_okD)
  qed (use Layer in \<open>auto simp: retry_ops failures_def told_def Let_def split: option.split\<close>)
qed (auto simp: retry_ops told_def Let_def split: option.split)

text \<open>A peer's history as the counter sees it.\<close>

fun counter_run :: "int \<Rightarrow> bool \<Rightarrow> Host \<Rightarrow> retry_event list \<Rightarrow> int option \<Rightarrow> sessionEvent list \<times> int option" where
  "counter_run limit sl h [] v = ([], v)"
| "counter_run limit sl h (e # es) v =
     (let (out, w) = counter_run limit sl h es (counter_step limit sl h e v)
      in (counter_out limit h e v @ out, w))"

lemma counter_refines:
  assumes "limits_ok r"
  shows "(told h (fold retry_step es r), failures h (fold retry_step es r)) =
    (let (out, v) = counter_run (MaxAttempts (retryPolicy r)) (sessionLayer r) h es (failures h r)
     in (told h r @ out, v))"
  using assms
proof (induction es arbitrary: r)
  case (Cons e es)
  then show ?case using Cons.IH [OF limits_ok_step [OF Cons.prems]]
    by (simp add: failures_step told_step Let_def split_beta)
qed simp



subsection \<open>Giving up\<close>

text \<open>Events that end no retry of \<open>h\<close> before its time, and the failures of \<open>h\<close> among them.\<close>

fun undisturbed :: "Host \<Rightarrow> retry_event \<Rightarrow> bool" where
  "undisturbed h (WantsDisconnect x) = (x \<noteq> h)"
| "undisturbed h (Layer d ends (SessionConnected x)) = (x \<noteq> h)"
| "undisturbed h (Layer d ends (SessionVersionMismatch x ver inbound)) = (x \<noteq> h \<or> inbound)"
| "undisturbed h (Teardown order) = (h \<notin> set order)"
| "undisturbed h _ = True"

fun down :: "Host \<Rightarrow> retry_event \<Rightarrow> bool" where
  "down h (Layer d ends (SessionDisconnected x)) = (x = h)"
| "down h (Layer d ends (SessionFailed x)) = (x = h)"
| "down h _ = False"

abbreviation downs :: "Host \<Rightarrow> retry_event list \<Rightarrow> int" where
  "downs h es \<equiv> int (length (filter (down h) es))"

lemma counter_undisturbed:
  assumes "undisturbed h e" "\<not> (0 < limit \<and> limit \<le> k + downs h [e])"
  shows "counter_step limit sl h e (Some k) = Some (k + downs h [e])"
    "set (counter_out limit h e (Some k)) \<subseteq> {SessionDisconnectedEvent h}"
proof -
  have "counter_step limit sl h e (Some k) = Some (k + downs h [e]) \<and>
      set (counter_out limit h e (Some k)) \<subseteq> {SessionDisconnectedEvent h}"
  proof (cases e)
    case (Layer d ends ev)
    then show ?thesis using assms by (cases ev) (auto simp: one_more_def)
  qed (use assms in auto)
  then show "counter_step limit sl h e (Some k) = Some (k + downs h [e])"
    "set (counter_out limit h e (Some k)) \<subseteq> {SessionDisconnectedEvent h}" by simp_all
qed

lemma counter_run_undisturbed:
  assumes "list_all (undisturbed h) es" "\<not> (0 < limit \<and> limit \<le> k + downs h es)"
  shows "snd (counter_run limit sl h es (Some k)) = Some (k + downs h es) \<and>
    set (fst (counter_run limit sl h es (Some k))) \<subseteq> {SessionDisconnectedEvent h}"
  using assms
proof (induction es arbitrary: k)
  case (Cons e es)
  have "downs h (e # es) = downs h [e] + downs h es" by simp
  then have "undisturbed h e" "\<not> (0 < limit \<and> limit \<le> k + downs h [e])"
      "\<not> (0 < limit \<and> limit \<le> (k + downs h [e]) + downs h es)" using Cons.prems by auto
  note e = counter_undisturbed [OF this(1,2)] and rest = this(3)
  show ?case
    using Cons.IH [of "k + downs h [e]"] Cons.prems(1) rest e(2)
    by (auto simp: e(1) split_beta Let_def)
qed simp

lemma counter_last:
  assumes "down h e" "0 < limit" "k + 1 = limit"
  shows "counter_step limit sl h e (Some k) = None"
    "\<exists>rest. counter_out limit h e (Some k) = SessionGivenUpEvent h limit # rest"
proof -
  have "counter_step limit sl h e (Some k) = None \<and>
      (\<exists>rest. counter_out limit h e (Some k) = SessionGivenUpEvent h limit # rest)"
  proof (cases e)
    case (Layer d ends ev)
    then show ?thesis using assms by (cases ev) (auto simp: one_more_def)
  qed (use assms in auto)
  then show "counter_step limit sl h e (Some k) = None"
    "\<exists>rest. counter_out limit h e (Some k) = SessionGivenUpEvent h limit # rest" by simp_all
qed

lemma limits_ok_run: "limits_ok (fold retry_step es (newRetry rp sl))"
proof (induction es rule: rev_induct)
  case Nil show ?case by (simp add: limits_ok_def newRetry_def)
qed (simp add: limits_ok_step)

lemma run_const [simp]:
  "retryPolicy (fold retry_step es r) = retryPolicy r" "sessionLayer (fold retry_step es r) = sessionLayer r"
  by (induction es arbitrary: r) simp_all

text \<open>
  Giving up is exact.  From the call on, as long as fewer than \<open>MaxAttempts\<close> attempts have failed
  the peer stays tracked and protocols hear of no failure and no give-up; the failure that
  completes the budget ends the schedule and tells them, with the number of attempts made.
\<close>

theorem retry_gives_up_exactly:
  assumes "failures h (fold retry_step es0 (newRetry rp sl)) = None"
    and "0 < MaxAttempts rp" "list_all (undisturbed h) es" "downs h es + 1 = MaxAttempts rp" "down h e"
  defines "r0 \<equiv> fold retry_step es0 (newRetry rp sl)"
  defines "r \<equiv> fold retry_step es (retry_step (WantsRetry h) r0)"
  shows "failures h r = Some (MaxAttempts rp - 1) \<and>
    (\<exists>out. told h r = told h r0 @ out \<and> set out \<subseteq> {SessionDisconnectedEvent h}) \<and>
    failures h (retry_step e r) = None \<and>
    (\<exists>rest. told h (retry_step e r) = told h r @ SessionGivenUpEvent h (MaxAttempts rp) # rest)"
proof -
  let ?N = "MaxAttempts rp" and ?r1 = "retry_step (WantsRetry h) r0"
  have ok: "limits_ok r0" unfolding r0_def by (rule limits_ok_run)
  have N [simp]: "MaxAttempts (retryPolicy r0) = ?N" "sessionLayer r0 = sl" by (simp_all add: r0_def newRetry_def)
  have r1: "failures h ?r1 = Some 0" "told h ?r1 = told h r0"
    using failures_step [OF ok, of h "WantsRetry h"] told_step [OF ok, of h "WantsRetry h"] assms(1)
    by (simp_all add: r0_def del: retry_step.simps)
  have "snd (counter_run ?N sl h es (Some 0)) = Some (0 + downs h es) \<and>
      set (fst (counter_run ?N sl h es (Some 0))) \<subseteq> {SessionDisconnectedEvent h}"
    by (rule counter_run_undisturbed) (use assms in auto)
  moreover note counter_refines [OF limits_ok_step [OF ok], of h es "WantsRetry h"]
  ultimately have r: "failures h r = Some (?N - 1)"
      "\<exists>out. told h r = told h r0 @ out \<and> set out \<subseteq> {SessionDisconnectedEvent h}"
    using r1 assms(4) by (auto simp: r_def split_beta simp del: retry_step.simps)
  have okr: "limits_ok r" unfolding r_def r0_def
    using limits_ok_run [of "es0 @ WantsRetry h # es"] by simp
  have Nr: "MaxAttempts (retryPolicy r) = ?N" by (simp add: r_def del: retry_step.simps)
  have "failures h (retry_step e r) = None"
    "\<exists>rest. told h (retry_step e r) = told h r @ SessionGivenUpEvent h ?N # rest"
    using counter_last(1) [OF assms(5,2), of "?N - 1" "sessionLayer r"]
      counter_last(2) [OF assms(5,2), of "?N - 1"]
    by (simp_all add: failures_step [OF okr] told_step [OF okr] r(1) Nr)
  with r show ?thesis by blast
qed

theorem retry_gives_up_exactly_witness:
  defines "h \<equiv> Host 0 ''b''"
  defines "r \<equiv> fold retry_step [Layer 5 (\<lambda>_. True) (SessionFailed h), Fires 0, RunsFired h]
    (retry_step (WantsRetry h) (newRetry \<lparr>Initial = 0, MaxDelay = 0, MaxAttempts = 2\<rparr> True))"
  shows "failures h r = Some 1 \<and> told h r = [] \<and> dials r = [h, h] \<and>
    failures h (retry_step (Layer 5 (\<lambda>_. True) (SessionFailed h)) r) = None"
proof -
  have "failures h r = Some 1 \<and> failures h (retry_step (Layer 5 (\<lambda>_. True) (SessionFailed h)) r) = None"
    using retry_gives_up_exactly [of h "[]" "\<lparr>Initial = 0, MaxDelay = 0, MaxAttempts = 2\<rparr>" True
        "[Layer 5 (\<lambda>_. True) (SessionFailed h), Fires 0, RunsFired h]" "Layer 5 (\<lambda>_. True) (SessionFailed h)"]
    by (simp add: r_def failures_def newRetry_def)
  then show ?thesis
    by (simp add: r_def told_def newRetry_def retry_ops stopTimer_def Let_def)
qed

subsection \<open>Backoff timers\<close>

text \<open>
  Every live backoff timer is the timer of a tracked peer.  It follows that a peer has at most one,
  and that a peer the runtime no longer tracks has none.
\<close>

definition timer_of :: "retry_rt \<Rightarrow> Host \<Rightarrow> nat option" where
  "timer_of r h = Option.bind (connectionRetries r h) rtimer"

definition backoff_ok :: "retry_rt \<Rightarrow> bool" where
  "backoff_ok r \<longleftrightarrow>
     (\<forall>i h d. clockTimers r i = Some (h, d) \<longrightarrow> timer_of r h = Some i) \<and>
     (\<forall>h i. timer_of r h = Some i \<longrightarrow> i < nextClockTimer r) \<and>
     (\<forall>h h' i. timer_of r h = Some i \<longrightarrow> timer_of r h' = Some i \<longrightarrow> h = h')"

lemma backoff_okD:
  assumes "backoff_ok r"
  shows "clockTimers r i = Some (h, d) \<Longrightarrow> timer_of r h = Some i"
    "timer_of r h = Some i \<Longrightarrow> i < nextClockTimer r"
    "timer_of r h = Some i \<Longrightarrow> timer_of r h' = Some i \<Longrightarrow> h = h'"
  using assms unfolding backoff_ok_def by blast+

lemma backoff_shrink:
  assumes "backoff_ok r"
    and "\<And>i h d. clockTimers r' i = Some (h, d) \<Longrightarrow> clockTimers r i = Some (h, d) \<and> timer_of r' h = timer_of r h"
    and "\<And>h i. timer_of r' h = Some i \<Longrightarrow> timer_of r h = Some i" "nextClockTimer r' = nextClockTimer r"
  shows "backoff_ok r'"
  unfolding backoff_ok_def assms(4) using assms(2,3) backoff_okD [OF assms(1)] by metis

lemma backoff_arm:
  assumes "backoff_ok r" "timer_of r x = None"
    and "clockTimers r' = (clockTimers r)(nextClockTimer r \<mapsto> (x, d))"
    and "timer_of r' = (timer_of r)(x \<mapsto> nextClockTimer r)" "nextClockTimer r' = nextClockTimer r + 1"
  shows "backoff_ok r'"
proof -
  have old: "i < nextClockTimer r" if "timer_of r h = Some i" for h i
    using that backoff_okD(2) [OF assms(1)] by blast
  have "clockTimers r i \<noteq> Some (x, d)" for i d using backoff_okD(1) [OF assms(1)] assms(2) by force
  moreover have "timer_of r h \<noteq> Some (nextClockTimer r)" for h using old by blast
  ultimately show ?thesis
    unfolding backoff_ok_def assms(3-5)
    using backoff_okD [OF assms(1)] old by (auto simp: less_Suc_eq)
qed

lemma timer_of_stop [simp]: "timer_of (stopRetryFor h r) = (timer_of r)(h := None)"
  by (simp add: timer_of_def fun_eq_iff)

lemma clock_stop:
  "clockTimers (stopRetryFor h r) =
     (case timer_of r h of None \<Rightarrow> clockTimers r | Some i \<Rightarrow> (clockTimers r)(i := None))"
  by (cases "connectionRetries r h") (simp_all add: stopRetryFor_def timer_of_def Let_def)

lemma clock_fresh: "backoff_ok r \<Longrightarrow> clockTimers r (nextClockTimer r) = None"
  using backoff_okD(1,2) by (metis less_irrefl not_None_eq surj_pair)

text \<open>Dropping a peer with its timer.\<close>

lemma stop_clock_iff:
  assumes "backoff_ok r"
  shows "clockTimers (stopRetryFor x r) i = Some (h, d) \<longleftrightarrow> clockTimers r i = Some (h, d) \<and> h \<noteq> x"
  using backoff_okD(1) [OF assms, of i h d] backoff_okD(3) [OF assms, of h i x]
  by (auto simp: clock_stop split: option.splits if_splits)

lemma backoff_stop:
  assumes "backoff_ok r" shows "backoff_ok (stopRetryFor h r)"
  by (rule backoff_shrink [OF assms]) (auto simp: stop_clock_iff [OF assms] split: if_splits)

lemma backoff_upd [simp]:
  "backoff_ok (r\<lparr>fanned := x\<rparr>) = backoff_ok r" "backoff_ok (r\<lparr>dials := y\<rparr>) = backoff_ok r"
  "backoff_ok (r\<lparr>hangups := y\<rparr>) = backoff_ok r" "backoff_ok (r\<lparr>established := z\<rparr>) = backoff_ok r"
  "backoff_ok (r\<lparr>firing := y\<rparr>) = backoff_ok r" "backoff_ok (r\<lparr>ctxDone := b\<rparr>) = backoff_ok r"
  by (simp_all add: backoff_ok_def timer_of_def)

text \<open>The three ways to drop a peer are one.\<close>

lemma drops:
  "snd (onSessionUpForRetry h r) = stopRetryFor h r"
  "snd (giveUpRetryNow h r) = stopRetryFor h r"
  by (simp_all add: onSessionUpForRetry_def giveUpRetryNow_def stopRetryFor_def Let_def split: option.split)

lemma down_cases:
  obtains (plain) "connectionRetries r h = None" "onSessionDownForRetry d h r = (False, 0, False, r)"
  | (ends) n where "onSessionDownForRetry d h r = (True, n, True, stopRetryFor h r)"
  | (again) st r1 where "connectionRetries r h = Some st" "r1 = stopRetryFor h r"
    "onSessionDownForRetry d h r = (False, 0, True, r1\<lparr>nextClockTimer := nextClockTimer r + 1,
       clockTimers := (clockTimers r1)(nextClockTimer r \<mapsto> (h, d)),
       connectionRetries := (connectionRetries r1)(h \<mapsto>
         st\<lparr>attempt := attempt st + 1, rtimer := Some (nextClockTimer r)\<rparr>)\<rparr>)"
proof (cases "connectionRetries r h")
  case None
  then show ?thesis using plain by (simp add: onSessionDownForRetry_def)
next
  case (Some st)
  show ?thesis
  proof (cases "MaxAttempts (rpolicy st) > 0 \<and> attempt st + 1 \<ge> MaxAttempts (rpolicy st)")
    case True
    then show ?thesis using Some ends by (simp add: onSessionDownForRetry_def stopRetryFor_def Let_def)
  next
    case False
    then show ?thesis using Some again [OF Some refl]
      by (simp add: onSessionDownForRetry_def stopRetryFor_def Let_def)
  qed
qed

lemma backoff_down:
  assumes "backoff_ok r" "onSessionDownForRetry d h r = (g, n, m, r')"
  shows "backoff_ok r'"
proof (cases rule: down_cases [of r h d])
  case (again st r1)
  note r1 = backoff_stop [OF assms(1), of h, folded again(2)]
  show ?thesis using assms(2) again(3)
    by (intro backoff_arm [OF r1]) (auto simp: again(2) timer_of_def fun_eq_iff)
qed (use assms backoff_stop in auto)

lemma backoff_layer:
  assumes "backoff_ok r" shows "backoff_ok (snd (dispatchSessionEvent d ends ev r))"
proof (cases ev)
  case (SessionConnected x)
  then show ?thesis using assms drops(1) [of x "markEstablished x r"]
    by (simp add: markEstablished_def tell_def backoff_stop split_beta Let_def)
next
  case (SessionDisconnected x)
  have r: "backoff_ok (markDisconnected x r)" using assms by (simp add: markDisconnected_def)
  show ?thesis using SessionDisconnected backoff_down [OF r, of d x]
    by (cases "onSessionDownForRetry d x (markDisconnected x r)") (simp add: tell_def)
next
  case (SessionFailed x)
  then show ?thesis using backoff_down [OF assms, of d x]
    by (cases "onSessionDownForRetry d x r") (simp add: tell_def onSessionFailedEvent_def)
next
  case (SessionVersionMismatch x v inbound)
  then show ?thesis using assms drops(2) [of x r]
    by (simp add: tell_def backoff_stop split_beta)
qed

lemma backoff_step:
  assumes "backoff_ok r" shows "backoff_ok (retry_step e r)"
proof (cases e)
  case (Layer d ends ev)
  then show ?thesis using assms backoff_layer by simp
next
  case (WantsRetry x)
  have "backoff_ok (r\<lparr>connectionRetries := (connectionRetries r)(x \<mapsto> st)\<rparr>)"
    if "connectionRetries r x = None" "rtimer st = None" for st
    by (rule backoff_shrink [OF assms]) (use that in \<open>auto simp: timer_of_def split: if_splits\<close>)
  then show ?thesis using assms WantsRetry by (simp add: connectWithRetry_def rt_connect_def)
next
  case (Fires i)
  show ?thesis
    by (rule backoff_shrink [OF assms])
      (use Fires in \<open>auto simp: timer_of_def split: option.splits if_splits\<close>)
next
  case (Teardown order)
  have "backoff_ok (fold stopRetryFor hs q)" if "backoff_ok q" for hs q
    using that by (induction hs arbitrary: q) (simp_all add: backoff_stop)
  then show ?thesis using assms Teardown by (simp add: retryTeardown_def)
qed (use assms in \<open>simp_all add: rt_connect_def rt_disconnect_def retryFires_def backoff_stop Let_def\<close>)

lemma backoff_run: "backoff_ok (fold retry_step es (newRetry rp sl))"
proof (induction es rule: rev_induct)
  case Nil show ?case by (simp add: backoff_ok_def timer_of_def newRetry_def)
qed (simp add: backoff_step)

text \<open>
  After any history a live backoff timer belongs to a peer that is still tracked and is that peer's
  only one.  So a peer that connected, was given up, was disconnected by the user or was tracked
  when the runtime shut down is dialled by no timer.
\<close>

theorem no_orphan_backoff:
  assumes "clockTimers (fold retry_step es (newRetry rp sl)) i = Some (h, d)"
  shows "failures h (fold retry_step es (newRetry rp sl)) \<noteq> None \<and>
    {j. \<exists>d. clockTimers (fold retry_step es (newRetry rp sl)) j = Some (h, d)} = {i}"
proof -
  let ?r = "fold retry_step es (newRetry rp sl)"
  have all: "timer_of ?r h = Some j" if "clockTimers ?r j = Some (h, d')"
    for j d' by (rule backoff_okD(1) [OF backoff_run that])
  have "j = i" if "clockTimers ?r j = Some (h, d')" for j d'
    using all [OF that] all [OF assms] by simp
  moreover have "failures h ?r \<noteq> None" using all [OF assms]
    by (cases "connectionRetries ?r h") (simp_all add: failures_def timer_of_def)
  ultimately show ?thesis using assms by blast
qed

theorem no_orphan_backoff_witness:
  defines "h \<equiv> Host 0 ''b''"
  defines "es \<equiv> [WantsRetry h, Layer 5 (\<lambda>_. True) (SessionFailed h), Layer 9 (\<lambda>_. True) (SessionFailed h)]"
  defines "r \<equiv> fold retry_step es (newRetry \<lparr>Initial = 0, MaxDelay = 0, MaxAttempts = 0\<rparr> True)"
  shows "clockTimers r 1 = Some (h, 9) \<and> {j. \<exists>d. clockTimers r j = Some (h, d)} = {1}"
proof -
  have t: "clockTimers r 1 = Some (h, 9)"
    by (simp add: r_def es_def newRetry_def retry_ops stopTimer_def Let_def)
  then show ?thesis using no_orphan_backoff [of es _ True 1 h 9] by (simp add: r_def)
qed

subsection \<open>Retries do not stall\<close>

text \<open>
  A dial is outstanding from the call of \<open>Connect\<close> on the session layer to the session event that
  ends it.
\<close>

fun resolves :: "retry_event \<Rightarrow> Host set" where
  "resolves (Layer d ends (SessionConnected h)) = {h}"
| "resolves (Layer d ends (SessionDisconnected h)) = {h}"
| "resolves (Layer d ends (SessionFailed h)) = {h}"
| "resolves (Layer d ends (SessionVersionMismatch h v inbound)) = (if inbound then {} else {h})"
| "resolves _ = {}"

fun dial_step :: "retry_event \<Rightarrow> Host set \<times> retry_rt \<Rightarrow> Host set \<times> retry_rt" where
  "dial_step e (D, r) =
     (let r' = retry_step e r in (D - resolves e \<union> set (drop (length (dials r)) (dials r')), r'))"

definition scheduled :: "Host \<Rightarrow> retry_rt \<Rightarrow> bool" where
  "scheduled h r \<longleftrightarrow> h \<in> set (firing r) \<or> (\<exists>i d. clockTimers r i = Some (h, d))"

definition pursued :: "Host set \<times> retry_rt \<Rightarrow> bool" where
  "pursued s \<longleftrightarrow> (case s of (D, r) \<Rightarrow> \<not> ctxDone r \<and> sessionLayer r \<and> backoff_ok r \<and>
     (\<forall>h. connectionRetries r h \<noteq> None \<longrightarrow> h \<in> D \<or> scheduled h r))"

lemma stop_scheduled:
  assumes "backoff_ok r" "h \<noteq> x" shows "scheduled h (stopRetryFor x r) = scheduled h r"
  using assms(2) by (simp add: scheduled_def stop_clock_iff [OF assms(1)])

lemma scheduled_upd [simp]:
  "scheduled h (r\<lparr>fanned := x\<rparr>) = scheduled h r" "scheduled h (r\<lparr>dials := y\<rparr>) = scheduled h r"
  "scheduled h (r\<lparr>hangups := y\<rparr>) = scheduled h r" "scheduled h (r\<lparr>established := z\<rparr>) = scheduled h r"
  "scheduled h (r\<lparr>connectionRetries := m\<rparr>) = scheduled h r"
  by (simp_all add: scheduled_def)

lemma down_scheduled:
  assumes "backoff_ok r" "onSessionDownForRetry d x r = (g, n, m, r')"
  shows "connectionRetries r' h \<noteq> None \<Longrightarrow> h = x \<Longrightarrow> scheduled h r'"
    and "h \<noteq> x \<Longrightarrow> connectionRetries r' h = connectionRetries r h \<and> scheduled h r' = scheduled h r"
    and "dials r' = dials r" "ctxDone r' = ctxDone r" "sessionLayer r' = sessionLayer r"
proof -
  have "(connectionRetries r' h \<noteq> None \<longrightarrow> h = x \<longrightarrow> scheduled h r') \<and>
     (h \<noteq> x \<longrightarrow> connectionRetries r' h = connectionRetries r h \<and> scheduled h r' = scheduled h r) \<and>
     dials r' = dials r \<and> ctxDone r' = ctxDone r \<and> sessionLayer r' = sessionLayer r"
  proof (cases rule: down_cases [of r x d])
    case (again st r1)
    have "clockTimers r1 (nextClockTimer r) = None"
      using clock_fresh [OF backoff_stop [OF assms(1), of x]] by (simp add: again(2))
    then have "clockTimers r' i = Some (h, d') \<longleftrightarrow> clockTimers r1 i = Some (h, d')" if "h \<noteq> x" for i d'
      using assms(2) again(3) that by (auto split: if_splits)
    then have "h \<noteq> x \<Longrightarrow> scheduled h r' = scheduled h r1" "h = x \<Longrightarrow> scheduled h r'"
      using assms(2) again(3) by (auto simp: scheduled_def)
    then show ?thesis using assms again stop_scheduled [OF assms(1)] by auto
  qed (use assms stop_scheduled [OF assms(1)] in auto)
  then show "connectionRetries r' h \<noteq> None \<Longrightarrow> h = x \<Longrightarrow> scheduled h r'"
    "h \<noteq> x \<Longrightarrow> connectionRetries r' h = connectionRetries r h \<and> scheduled h r' = scheduled h r"
    "dials r' = dials r" "ctxDone r' = ctxDone r" "sessionLayer r' = sessionLayer r" by blast+
qed

lemma pursued_layer:
  assumes "pursued (D, r)" shows "pursued (dial_step (Layer d ends ev) (D, r))"
proof -
  have ok: "backoff_ok r" and up: "\<not> ctxDone r" "sessionLayer r"
    and all: "\<And>h st. connectionRetries r h = Some st \<Longrightarrow> h \<in> D \<or> scheduled h r"
    using assms by (auto simp: pursued_def)
  let ?r = "snd (dispatchSessionEvent d ends ev r)"
  have "dials ?r = dials r \<and> \<not> ctxDone ?r \<and> sessionLayer ?r \<and>
      (\<forall>h. connectionRetries ?r h \<noteq> None \<longrightarrow>
         (h \<notin> resolves (Layer d ends ev) \<and> connectionRetries r h \<noteq> None \<and> scheduled h ?r = scheduled h r) \<or>
         scheduled h ?r)"
  proof (cases ev)
    case (SessionConnected x)
    then show ?thesis using up ok stop_scheduled [of "markEstablished x r" _ x] drops(1) [of x "markEstablished x r"]
      by (auto simp: markEstablished_def tell_def split_beta Let_def split: if_splits)
  next
    case (SessionDisconnected x)
    have ok': "backoff_ok (markDisconnected x r)" using ok by (simp add: markDisconnected_def)
    obtain g n m r' where dn: "onSessionDownForRetry d x (markDisconnected x r) = (g, n, m, r')"
      by (metis prod_cases4)
    show ?thesis using SessionDisconnected up dn down_scheduled [OF ok' dn]
      by (auto simp: tell_def markDisconnected_def) metis+
  next
    case (SessionFailed x)
    obtain g n m r' where dn: "onSessionDownForRetry d x r = (g, n, m, r')" by (metis prod_cases4)
    show ?thesis using SessionFailed up dn down_scheduled [OF ok dn]
      by (auto simp: tell_def onSessionFailedEvent_def) metis+
  next
    case (SessionVersionMismatch x v inbound)
    then show ?thesis using up ok stop_scheduled [of r _ x] drops(2) [of x r]
      by (auto simp: tell_def split_beta split: if_splits)
  qed
  moreover from this all have "h \<in> D - resolves (Layer d ends ev) \<or> scheduled h ?r"
    if "connectionRetries ?r h = Some st" for h st
    using that by (metis Diff_iff not_None_eq)
  ultimately show ?thesis using backoff_layer [OF ok, of d ends ev] by (auto simp: pursued_def Let_def)
qed

lemma pursued_step:
  assumes "pursued (D, r)" "\<forall>order. e \<noteq> Teardown order" shows "pursued (dial_step e (D, r))"
proof -
  have ok: "backoff_ok r" and up: "\<not> ctxDone r" "sessionLayer r"
    and all: "\<And>h st. connectionRetries r h = Some st \<Longrightarrow> h \<in> D \<or> scheduled h r"
    using assms by (auto simp: pursued_def)
  note keeps = backoff_step [OF ok, of e]
  show ?thesis
  proof (cases e)
    case (WantsDisconnect x)
    then show ?thesis using up keeps all stop_scheduled [OF ok, of _ x]
      by (auto simp: pursued_def rt_disconnect_def Let_def split: if_splits)
  next
    case (WantsRetry x)
    then show ?thesis using up keeps all by (auto simp: pursued_def connectWithRetry_def rt_connect_def Let_def)
  next
    case (Fires i)
    have "scheduled h (retry_step e r) \<longleftrightarrow> scheduled h r" for h
      using Fires by (auto simp: scheduled_def split: option.split) (metis option.inject prod.inject)
    then show ?thesis using up keeps all Fires by (auto simp: pursued_def Let_def split: option.split)
  next
    case (RunsFired x)
    have other: "scheduled h (r\<lparr>firing := remove1 x (firing r)\<rparr>) = scheduled h r" if "h \<noteq> x" for h
      using that by (simp add: scheduled_def)
    have "h \<in> D \<or> scheduled h (r\<lparr>firing := remove1 x (firing r)\<rparr>) \<or> h = x"
      if "connectionRetries r h = Some st" for h st
      using all [OF that] other by blast
    then show ?thesis using up keeps assms(1) RunsFired
      by (auto simp: pursued_def retryFires_def rt_connect_def Let_def) (metis option.distinct(1))+
  next
    case (Layer d ends ev)
    then show ?thesis using pursued_layer [OF assms(1)] by simp
  qed (use assms up keeps all in \<open>auto simp: pursued_def rt_connect_def Let_def\<close>)
qed

text \<open>
  C35. A retried peer is never forgotten: until the runtime shuts down, every peer that is still tracked
  has a dial outstanding, or a backoff timer that will dial it.
\<close>

theorem retry_never_stalls:
  assumes "\<forall>order. Teardown order \<notin> set es"
    and "fold dial_step es ({}, newRetry rp True) = (D, r)" "failures h r \<noteq> None"
  shows "h \<in> D \<or> scheduled h r"
proof -
  have "pursued (fold dial_step es s)" if "\<forall>order. Teardown order \<notin> set es" "pursued s" for s
    using that
  proof (induction es arbitrary: s)
    case (Cons e es)
    have "\<forall>order. e \<noteq> Teardown order" "\<forall>order. Teardown order \<notin> set es" using Cons.prems by auto
    moreover have "pursued (dial_step e (fst s, snd s))"
      by (rule pursued_step) (use calculation Cons.prems in simp_all)
    ultimately show ?case using Cons.IH [of "dial_step e s"] by (simp del: dial_step.simps)
  qed simp
  moreover have "pursued ({}, newRetry rp True)"
    by (simp add: pursued_def newRetry_def backoff_ok_def timer_of_def)
  ultimately have "pursued (D, r)" using assms(1) unfolding assms(2) [symmetric] by blast
  with assms(3) show ?thesis by (simp add: pursued_def failures_def)
qed

theorem retry_never_stalls_witness:
  defines "h \<equiv> Host 0 ''b''"
  defines "es \<equiv> [WantsRetry h, Layer 5 (\<lambda>_. True) (SessionFailed h)]"
  defines "s \<equiv> fold dial_step es ({}, newRetry \<lparr>Initial = 0, MaxDelay = 0, MaxAttempts = 0\<rparr> True)"
  shows "fst s = {} \<and> failures h (snd s) = Some 1 \<and> scheduled h (snd s)"
proof -
  have f: "fst s = {} \<and> failures h (snd s) = Some 1"
    by (simp add: s_def es_def newRetry_def retry_ops stopTimer_def failures_def Let_def)
  have "\<forall>order. Teardown order \<notin> set es" by (simp add: es_def)
  moreover have "fold dial_step es ({}, newRetry \<lparr>Initial = 0, MaxDelay = 0, MaxAttempts = 0\<rparr> True) = (fst s, snd s)"
    by (simp add: s_def del: fold.simps)
  ultimately show ?thesis using retry_never_stalls [of es _ "fst s" "snd s" h] f by simp
qed

end
