(* ===== verification/Session_Runtime.thy ===== *)
theory Session_Runtime
  imports Session_Safety Retry
begin

text \<open>
  The session layer and the runtime above it: what the runtime makes of the events of a session
  that it ends itself.
\<close>

lemma down_keeps:
  "onSessionDownForRetry delay h r = (giveUp, n, managed, r') \<Longrightarrow>
     established r' = established r \<and> fanned r' = fanned r"
  by (auto simp: onSessionDownForRetry_def stopTimer_def Let_def split: option.splits if_splits)

lemma dispatch_disconnected:
  "established (snd (dispatchSessionEvent delay ends (SessionDisconnected e) r)) = established r - {e} \<and>
   (\<exists>evs. fanned (snd (dispatchSessionEvent delay ends (SessionDisconnected e) r)) = fanned r @ evs \<and>
      set evs \<subseteq> {SessionDisconnectedEvent e} \<union> range (SessionGivenUpEvent e))"
proof -
  obtain giveUp n managed r' where d: "onSessionDownForRetry delay e (markDisconnected e r) = (giveUp, n, managed, r')"
    by (metis prod_cases4)
  have r': "established r' = established r - {e}" "fanned r' = fanned r"
    using down_keeps [OF d] by (simp_all add: markDisconnected_def)
  show ?thesis
    by (cases giveUp; cases "ends (SessionGivenUpEvent e n)") (simp_all add: d tell_def r')
qed

text \<open>A peer that dialled in and that the runtime then disconnects stays in the runtime's set of
  established peers for good: the event the session layer raises is dispatched under the peer's
  ephemeral address, protocols are told about that address, and a restarted protocol is later told
  that the peer is connected.\<close>

theorem disconnected_peer_stays_established:
  assumes "inSession (HostAddress e) h SessionStateEstablished L"
    and "transportToLogical L (Host_String e) = Some h"
    and "logicalToTransport L h = Some (HostAddress e)"
    and "h \<noteq> e" "h \<in> established r"
  shows "\<exists>ev. sevents (dispatchDisconnected (HostAddress e) (session_disconnect h L)) = sevents L @ [ev] \<and>
    h \<in> established (snd (dispatchSessionEvent delay ends ev r)) \<and>
    SessionDisconnectedEvent h \<notin> set (drop (length (fanned r)) (fanned (snd (dispatchSessionEvent delay ends ev r))))"
proof -
  from dispatch_disconnected [of delay ends e r] obtain evs where
    d: "established (snd (dispatchSessionEvent delay ends (SessionDisconnected e) r)) = established r - {e}"
      "fanned (snd (dispatchSessionEvent delay ends (SessionDisconnected e) r)) = fanned r @ evs"
      "set evs \<subseteq> {SessionDisconnectedEvent e} \<union> range (SessionGivenUpEvent e)"
    by blast
  have "SessionDisconnectedEvent h \<notin> set evs" using d(3) assms(4) by auto
  with d local_disconnect_reports_address [OF assms(1-3)] assms(4,5) show ?thesis by auto
qed

theorem disconnected_peer_stays_established_witness:
  "\<exists>L ev. sevents (dispatchDisconnected (HostAddress (Host 40000 ''10.0.0.2''))
        (session_disconnect (Host 7000 ''10.0.0.2'') L)) = sevents L @ [ev] \<and>
    Host 7000 ''10.0.0.2'' \<in> established (snd (dispatchSessionEvent 0 (\<lambda>_. True) ev
      (markEstablished (Host 7000 ''10.0.0.2'') (newRetry \<lparr>Initial = 1, MaxDelay = 1, MaxAttempts = 1\<rparr> True))))"
proof -
  let ?h = "Host 7000 ''10.0.0.2''" and ?e = "Host 40000 ''10.0.0.2''"
  have "sl_sessions (NewSessionLayer (Host 7000 ''10.0.0.1'')) (Address_String (HostAddress ?e)) = None"
    "host_ok ?h"
    by (simp_all add: NewSessionLayer_def host_ok_def)
  note srv = server_hello [OF this]
  from disconnected_peer_stays_established [OF srv(1) _ srv(6), where r = "markEstablished ?h (newRetry \<lparr>Initial = 1, MaxDelay = 1, MaxAttempts = 1\<rparr> True)"] srv(5)
  show ?thesis by (force simp: markEstablished_def)
qed

end
