(* ===== verification/Tcp.thy ===== *)
theory Tcp
  imports Session "HOL-Library.Sublist"
begin

text \<open>
  The TCP backend, \<open>pkg/transport/tcp.go\<close>: the length-prefixed frames a byte stream carries, and
  the table of active connections with the events raised for it.

  Sockets are an argument: what a dial, an accept, a read or a write yields is chosen by the
  environment.  A connection is the number it was opened with; each has a reader goroutine
  (\<open>connectionHandler\<close>) with its own receive buffer.  A step is one critical section on the table
  together with the event or message that follows it on the same goroutine.  Deadlines, TLS,
  logging and the cancelled context are not modelled.
\<close>

subsection \<open>Frames\<close>

datatype frame_error = PayloadTooLarge nat | FrameTooLong nat

definition maxFrameSize :: nat where
  "maxFrameSize = 16 * 1024 * 1024"

text \<open>\<open>binary.BigEndian\<close>.\<close>

definition be_put :: "nat \<Rightarrow> bytes" where
  "be_put n = rev (le_put 4 n)"

definition be_get :: "bytes \<Rightarrow> nat" where
  "be_get b = le_get (rev b)"

definition encodeFrame :: "bytes \<Rightarrow> frame_error + bytes" where
  "encodeFrame payload =
     (if length payload > 2 ^ 32 - 1 then Inl (PayloadTooLarge (length payload))
      else Inr (be_put (length payload) @ payload))"

text \<open>The loop of \<open>decodeFrames\<close>; it returns the frames and what is left in the buffer.\<close>

function decodeLoop :: "bytes \<Rightarrow> bytes list \<Rightarrow> (frame_error + bytes list) \<times> bytes" where
  "decodeLoop buf frames =
     (if length buf < 4 then (Inr frames, buf)
      else let len = be_get (take 4 buf) in
        if len > maxFrameSize then (Inl (FrameTooLong len), buf)
        else if length buf < 4 + len then (Inr frames, buf)
        else decodeLoop (drop (4 + len) buf) (frames @ [take len (drop 4 buf)]))"
  by pat_completeness auto
termination
  by (relation "measure (\<lambda>(buf, frames). length buf)") auto

declare decodeLoop.simps [simp del]

definition decodeFrames :: "bytes \<Rightarrow> (frame_error + bytes list) \<times> bytes" where
  "decodeFrames buf = decodeLoop buf []"

text \<open>One read from a connection: a timeout, another error, or bytes.\<close>

datatype read_result = ReadTimeout | ReadFails | ReadGot bytes

datatype read_error = ReadError | BadFrame frame_error

definition readFrames :: "read_result \<Rightarrow> bytes \<Rightarrow> (read_error + bytes list) \<times> bytes" where
  "readFrames rd recvBuf =
     (case rd of
        ReadTimeout \<Rightarrow> (Inr [], recvBuf)
      | ReadFails \<Rightarrow> (Inl ReadError, recvBuf)
      | ReadGot bs \<Rightarrow>
          if bs = [] then (Inr [], recvBuf)
          else case decodeFrames (recvBuf @ bs) of
                 (Inl e, buf) \<Rightarrow> (Inl (BadFrame e), buf)
               | (Inr frames, buf) \<Rightarrow> (Inr frames, buf))"

subsection \<open>The connection table\<close>

record tcpLayer =
  activeConnections :: "Host \<rightharpoonup> nat"
  nextConn :: nat
  closedConns :: "nat set"
  written :: "(nat \<times> bytes) list"
  readers :: "nat \<rightharpoonup> Host \<times> bytes"
  outEvents :: "transport_event list"
  outChannel :: "(Address \<times> bytes) list"

definition NewTCPLayer :: tcpLayer where
  "NewTCPLayer = \<lparr> activeConnections = Map.empty, nextConn = 0, closedConns = {}, written = [],
     readers = Map.empty, outEvents = [], outChannel = [] \<rparr>"

definition tcp_emit :: "transport_event \<Rightarrow> tcpLayer \<Rightarrow> tcpLayer" where
  "tcp_emit ev t = t\<lparr>outEvents := outEvents t @ [ev]\<rparr>"

definition addActiveConn :: "nat \<Rightarrow> Host \<Rightarrow> tcpLayer \<Rightarrow> tcpLayer" where
  "addActiveConn conn host t = t\<lparr>activeConnections := (activeConnections t)(host \<mapsto> conn)\<rparr>"

definition removeActiveConn :: "Host \<Rightarrow> tcpLayer \<Rightarrow> nat option \<times> tcpLayer" where
  "removeActiveConn host t =
     (activeConnections t host, t\<lparr>activeConnections := (activeConnections t)(host := None)\<rparr>)"

definition getActiveConn :: "Host \<Rightarrow> tcpLayer \<Rightarrow> nat option" where
  "getActiveConn host t = activeConnections t host"

definition tcp_disconnect :: "Host \<Rightarrow> tcpLayer \<Rightarrow> tcpLayer" where
  "tcp_disconnect host t =
     (case removeActiveConn host t of
        (None, t) \<Rightarrow> t
      | (Some conn, t) \<Rightarrow>
          tcp_emit (Disconnected (HostAddress host)) (t\<lparr>closedConns := insert conn (closedConns t)\<rparr>))"

text \<open>A connection that was opened: it enters the table, the event is raised, its reader starts.\<close>

definition tcp_opened :: "Host \<Rightarrow> tcpLayer \<Rightarrow> tcpLayer" where
  "tcp_opened host t =
     (let conn = nextConn t;
          t = addActiveConn conn host (t\<lparr>nextConn := conn + 1\<rparr>);
          t = tcp_emit (Connected (HostAddress host)) t
      in t\<lparr>readers := (readers t)(conn \<mapsto> (host, []))\<rparr>)"

definition tcp_connect :: "bool \<Rightarrow> Host \<Rightarrow> tcpLayer \<Rightarrow> tcpLayer" where
  "tcp_connect dialled host t =
     (if \<not> dialled then tcp_emit (Failed (HostAddress host)) t else tcp_opened host t)"

text \<open>The body of \<open>listenerHandler\<close> for an accepted connection; \<open>None\<close> is a remote address that is
  not a TCP address.\<close>

definition tcp_accepted :: "Host option \<Rightarrow> tcpLayer \<Rightarrow> tcpLayer" where
  "tcp_accepted remote t =
     (case remote of
        None \<Rightarrow> t\<lparr>closedConns := insert (nextConn t) (closedConns t), nextConn := nextConn t + 1\<rparr>
      | Some host \<Rightarrow> tcp_opened host t)"

definition tcp_send :: "bool \<Rightarrow> bytes \<Rightarrow> Host \<Rightarrow> tcpLayer \<Rightarrow> tcpLayer" where
  "tcp_send wrote msg sendTo t =
     (case getActiveConn sendTo t of
        None \<Rightarrow> t
      | Some conn \<Rightarrow>
          (case encodeFrame msg of
             Inl e \<Rightarrow> tcp_disconnect sendTo (tcp_emit (Failed (HostAddress sendTo)) t)
           | Inr frame \<Rightarrow>
               if wrote then t\<lparr>written := written t @ [(conn, frame)]\<rparr>
               else tcp_disconnect sendTo (tcp_emit (Failed (HostAddress sendTo)) t)))"

text \<open>One round of \<open>connectionHandler\<close>: read, decode, hand the frames up; on an error the reader
  disconnects the host it serves and ends.\<close>

definition tcp_read :: "nat \<Rightarrow> read_result \<Rightarrow> tcpLayer \<Rightarrow> tcpLayer" where
  "tcp_read conn rd t =
     (case readers t conn of
        None \<Rightarrow> t
      | Some (host, recvBuf) \<Rightarrow>
          (case readFrames rd recvBuf of
             (Inl err, buf) \<Rightarrow>
               (let t = (case err of BadFrame e \<Rightarrow> tcp_emit (Failed (HostAddress host)) t | ReadError \<Rightarrow> t);
                    t = tcp_disconnect host t
                in t\<lparr>readers := (readers t)(conn := None)\<rparr>)
           | (Inr frames, buf) \<Rightarrow>
               t\<lparr>readers := (readers t)(conn \<mapsto> (host, buf)),
                 outChannel := outChannel t @ map (Pair (HostAddress host)) frames\<rparr>))"

text \<open>The calls of the layer above are handed to the handler goroutine once their address is known
  to be a host; another kind of address is a wiring error.\<close>

definition tcp_Connect :: "bool \<Rightarrow> Address \<Rightarrow> tcpLayer \<Rightarrow> tcpLayer" where
  "tcp_Connect dialled peer t =
     (let (host, ok) = hostFromAddress peer in
      if \<not> ok then tcp_emit (Failed peer) t else tcp_connect dialled host t)"

definition tcp_Send :: "bool \<Rightarrow> bytes \<Rightarrow> Address \<Rightarrow> tcpLayer \<Rightarrow> tcpLayer" where
  "tcp_Send wrote msg sendTo t =
     (let (host, ok) = hostFromAddress sendTo in
      if \<not> ok then tcp_emit (Failed sendTo) t else tcp_send wrote msg host t)"

definition tcp_Disconnect :: "Address \<Rightarrow> tcpLayer \<Rightarrow> tcpLayer" where
  "tcp_Disconnect peer t =
     (let (host, ok) = hostFromAddress peer in if \<not> ok then t else tcp_disconnect host t)"

datatype tcp_input =
    Dial bool Address
  | Accept "Host option"
  | Hangup Address
  | Write bool bytes Address
  | Read nat read_result

fun tcp_step :: "tcp_input \<Rightarrow> tcpLayer \<Rightarrow> tcpLayer" where
  "tcp_step (Dial dialled peer) t = tcp_Connect dialled peer t"
| "tcp_step (Accept remote) t = tcp_accepted remote t"
| "tcp_step (Hangup peer) t = tcp_Disconnect peer t"
| "tcp_step (Write wrote msg peer) t = tcp_Send wrote msg peer t"
| "tcp_step (Read conn rd) t = tcp_read conn rd t"

subsection \<open>A stream of frames, however it is cut\<close>

lemma length_be_put [simp]: "length (be_put n) = 4"
  by (simp add: be_put_def)

lemma be_get_put: "n < 2 ^ 32 \<Longrightarrow> be_get (be_put n) = n"
  by (simp add: be_get_def be_put_def le_get_put)

definition frame :: "bytes \<Rightarrow> bytes" where
  "frame p = be_put (length p) @ p"

lemma length_frame [simp]: "length (frame p) = 4 + length p"
  by (simp add: frame_def)

lemma frame_nonempty [simp]: "frame p \<noteq> []"
  using length_frame [of p] by (metis add_is_0 list.size(3) zero_neq_numeral)

lemma encodeFrame_frame: "length p \<le> maxFrameSize \<Longrightarrow> encodeFrame p = Inr (frame p)"
  by (simp add: encodeFrame_def frame_def maxFrameSize_def)

lemma decodeLoop_frame:
  assumes "length p \<le> maxFrameSize"
  shows "decodeLoop (frame p @ r) fs = decodeLoop r (fs @ [p])"
proof -
  have "be_get (take 4 (frame p @ r)) = length p"
    using assms by (simp add: frame_def be_get_put maxFrameSize_def)
  then show ?thesis
    using assms by (subst decodeLoop.simps) (simp add: frame_def)
qed

text \<open>A buffer that holds only part of a frame is left alone.\<close>

lemma decodeLoop_partial:
  assumes "length p \<le> maxFrameSize" "strict_prefix b (frame p)"
  shows "decodeLoop b fs = (Inr fs, b)"
proof (cases "length b < 4")
  case True
  then show ?thesis by (subst decodeLoop.simps) simp
next
  case False
  obtain s where s: "frame p = b @ s" "s \<noteq> []"
    using assms(2) by (auto simp: strict_prefix_def prefix_def)
  have "take 4 b = take 4 (frame p)" using s False by simp
  then have "be_get (take 4 b) = length p"
    using assms(1) by (simp add: frame_def be_get_put maxFrameSize_def)
  moreover have "length b < 4 + length p"
  proof -
    have "length (frame p) = length b + length s" using s(1) by simp
    then show ?thesis using s(2) by (cases s) (simp_all add: frame_def)
  qed
  ultimately show ?thesis
    using False assms(1) by (subst decodeLoop.simps) simp
qed

text \<open>What the reader holds after any part of the stream: the complete frames are out, the rest is
  the beginning of the next one.\<close>

lemma decodeLoop_prefix:
  assumes "list_all (\<lambda>p. length p \<le> maxFrameSize) ps" "prefix b (concat (map frame ps))"
  shows "\<exists>n b'. n \<le> length ps \<and> b = concat (map frame (take n ps)) @ b' \<and>
    decodeLoop b fs = (Inr (fs @ take n ps), b') \<and>
    (n = length ps \<and> b' = [] \<or> n < length ps \<and> strict_prefix b' (frame (ps ! n)))"
  using assms
proof (induction ps arbitrary: b fs)
  case Nil
  then show ?case by (subst decodeLoop.simps) simp
next
  case (Cons p ps)
  show ?case
  proof (cases "prefix (frame p) b")
    case True
    then obtain c where c: "b = frame p @ c" by (auto simp: prefix_def)
    with Cons.prems(2) have "prefix c (concat (map frame ps))" by simp
    with Cons.IH [of c "fs @ [p]"] Cons.prems(1) obtain n b' where
      "n \<le> length ps" "c = concat (map frame (take n ps)) @ b'"
      "decodeLoop c (fs @ [p]) = (Inr (fs @ [p] @ take n ps), b')"
      "n = length ps \<and> b' = [] \<or> n < length ps \<and> strict_prefix b' (frame (ps ! n))" by auto
    with c Cons.prems(1) show ?thesis
      by (intro exI [of _ "Suc n"] exI [of _ b']) (simp add: decodeLoop_frame)
  next
    case False
    have "prefix (frame p) (concat (map frame (p # ps)))" by simp
    with Cons.prems(2) False have "prefix b (frame p)" by (metis prefix_same_cases)
    with False have "strict_prefix b (frame p)" by (auto simp: strict_prefix_def)
    then have "decodeLoop b fs = (Inr fs, b)"
      using Cons.prems(1) by (intro decodeLoop_partial) auto
    with \<open>strict_prefix b (frame p)\<close> show ?thesis
      by (intro exI [of _ 0] exI [of _ b]) simp
  qed
qed

text \<open>The reads of one connection: what the reader hands up and what it keeps.\<close>

fun readAll :: "read_result list \<Rightarrow> bytes \<Rightarrow> (read_error + bytes list) \<times> bytes" where
  "readAll [] buf = (Inr [], buf)"
| "readAll (rd # rds) buf =
     (case readFrames rd buf of
        (Inl e, buf) \<Rightarrow> (Inl e, buf)
      | (Inr frames, buf) \<Rightarrow>
          (case readAll rds buf of
             (Inl e, buf) \<Rightarrow> (Inl e, buf)
           | (Inr later, buf) \<Rightarrow> (Inr (frames @ later), buf)))"

fun readBytes :: "read_result \<Rightarrow> bytes" where
  "readBytes (ReadGot bs) = bs"
| "readBytes _ = []"

text \<open>Once the reader holds a proper part of the frames still to come, so it does after any reads.\<close>

lemma readAll_stream:
  assumes "list_all (\<lambda>p. length p \<le> maxFrameSize) ps" "ReadFails \<notin> set rds"
    and "prefix (buf @ concat (map readBytes rds)) (concat (map frame ps))"
    and "ps = [] \<and> buf = [] \<or> ps \<noteq> [] \<and> strict_prefix buf (frame (hd ps))"
  shows "\<exists>n b'. n \<le> length ps \<and> readAll rds buf = (Inr (take n ps), b') \<and>
    buf @ concat (map readBytes rds) = concat (map frame (take n ps)) @ b' \<and>
    (n = length ps \<and> b' = [] \<or> n < length ps \<and> strict_prefix b' (frame (ps ! n)))"
  using assms
proof (induction rds arbitrary: buf ps)
  case Nil
  then show ?case
    by (cases ps) (auto intro!: exI [of _ 0])
next
  case (Cons rd rds)
  have "prefix (buf @ readBytes rd) (concat (map frame ps))"
    using Cons.prems(3) by (auto simp: prefix_def)
  from decodeLoop_prefix [OF Cons.prems(1) this, of "[]", unfolded append_Nil] obtain n b where
    n: "n \<le> length ps" and b: "buf @ readBytes rd = concat (map frame (take n ps)) @ b"
    and d: "decodeLoop (buf @ readBytes rd) [] = (Inr (take n ps), b)"
    and e: "n = length ps \<and> b = [] \<or> n < length ps \<and> strict_prefix b (frame (ps ! n))" by blast
  have rf: "readFrames rd buf = (Inr (take n ps), b)"
  proof (cases "readBytes rd = []")
    case True
    have "decodeLoop buf [] = (Inr [], buf)"
    proof (cases ps)
      case Nil
      then show ?thesis using Cons.prems(4) by (subst decodeLoop.simps) simp
    next
      case (Cons p ps')
      then show ?thesis
        using \<open>ps = [] \<and> buf = [] \<or> ps \<noteq> [] \<and> strict_prefix buf (frame (hd ps))\<close>
          \<open>list_all (\<lambda>p. length p \<le> maxFrameSize) ps\<close>
        by (auto intro: decodeLoop_partial)
    qed
    with d True have "take n ps = []" "b = buf" by auto
    then show ?thesis using True Cons.prems(2) by (cases rd) (auto simp: readFrames_def)
  next
    case False
    then show ?thesis using d by (cases rd) (auto simp: readFrames_def decodeFrames_def)
  qed
  have split: "concat (map frame ps) = concat (map frame (take n ps)) @ concat (map frame (drop n ps))"
    by (metis append_take_drop_id concat_append map_append)
  have "prefix (b @ concat (map readBytes rds)) (concat (map frame (drop n ps)))"
  proof -
    have "prefix ((buf @ readBytes rd) @ concat (map readBytes rds)) (concat (map frame ps))"
      using Cons.prems(3) by simp
    then show ?thesis unfolding b split append_assoc same_prefix_prefix .
  qed
  moreover have "list_all (\<lambda>p. length p \<le> maxFrameSize) (drop n ps)"
    using Cons.prems(1) by (auto simp: list_all_iff dest: in_set_dropD)
  moreover have "drop n ps = [] \<and> b = [] \<or> drop n ps \<noteq> [] \<and> strict_prefix b (frame (hd (drop n ps)))"
    using e by (auto simp: hd_drop_conv_nth)
  ultimately obtain m b' where m: "m \<le> length (drop n ps)"
    "readAll rds b = (Inr (take m (drop n ps)), b')"
    "b @ concat (map readBytes rds) = concat (map frame (take m (drop n ps))) @ b'"
    "m = length (drop n ps) \<and> b' = [] \<or> m < length (drop n ps) \<and> strict_prefix b' (frame (drop n ps ! m))"
    using Cons.IH [of "drop n ps" b] Cons.prems(2) by auto
  have t: "take (n + m) ps = take n ps @ take m (drop n ps)"
    by (simp add: take_add)
  have "buf @ concat (map readBytes (rd # rds)) = (buf @ readBytes rd) @ concat (map readBytes rds)"
    by simp
  also have "\<dots> = concat (map frame (take (n + m) ps)) @ b'"
    unfolding b append_assoc m(3) t by simp
  finally have "buf @ concat (map readBytes (rd # rds)) = concat (map frame (take (n + m) ps)) @ b'" .
  moreover have "readAll (rd # rds) buf = (Inr (take (n + m) ps), b')"
    using m(2) by (simp add: rf t)
  ultimately show ?case
    using n m(1,4) by (intro exI [of _ "n + m"] exI [of _ b'] conjI) auto
qed

text \<open>C13. However the network cuts the stream into reads, with timeouts in between, the receiver
  hands up the frames that were sent, in order and whole: never a part of one, never two merged.
  When the stream has arrived in full, all of them are out and the buffer is empty.\<close>

theorem tcp_stream_reassembly:
  assumes "list_all (\<lambda>p. length p \<le> maxFrameSize) ps" "ReadFails \<notin> set rds"
    and "prefix (concat (map readBytes rds)) (concat (map (\<lambda>p. projr (encodeFrame p)) ps))"
  shows "\<exists>frames buf. readAll rds [] = (Inr frames, buf) \<and> prefix frames ps \<and>
    (concat (map readBytes rds) = concat (map (\<lambda>p. projr (encodeFrame p)) ps) \<longrightarrow> frames = ps \<and> buf = [])"
proof -
  have enc: "map (\<lambda>p. projr (encodeFrame p)) ps = map frame ps"
    using assms(1) by (simp add: list_all_iff encodeFrame_frame)
  have start: "ps = [] \<and> [] = [] \<or> ps \<noteq> [] \<and> strict_prefix [] (frame (hd ps))"
    by (auto simp: strict_prefix_def eq_commute [of "[]"])
  from readAll_stream [OF assms(1,2) _ start] assms(3) enc obtain n b' where
    "n \<le> length ps" and r: "readAll rds [] = (Inr (take n ps), b')"
    and c: "concat (map readBytes rds) = concat (map frame (take n ps)) @ b'"
    and e: "n = length ps \<and> b' = [] \<or> n < length ps \<and> strict_prefix b' (frame (ps ! n))" by auto
  have all: "n = length ps \<and> b' = []" if full: "concat (map readBytes rds) = concat (map frame ps)"
  proof (rule ccontr)
    assume "\<not> ?thesis"
    with e have lt: "n < length ps" "strict_prefix b' (frame (ps ! n))" by auto
    have "concat (map frame ps) = concat (map frame (take n ps)) @ frame (ps ! n) @ concat (map frame (drop (Suc n) ps))"
      by (metis Cons_nth_drop_Suc lt(1) append_take_drop_id concat.simps(2) concat_append list.map(2) map_append)
    with full c have "b' = frame (ps ! n) @ concat (map frame (drop (Suc n) ps))" by simp
    with lt(2) show False by (auto simp: strict_prefix_def prefix_def)
  qed
  show ?thesis
    unfolding enc using r all
    by (intro exI [of _ "take n ps"] exI [of _ b']) (auto simp: take_is_prefix)
qed

lemma be_put_small: "n < 256 \<Longrightarrow> be_put n = [0, 0, 0, word_of_nat n]"
proof -
  assume n: "n < 256"
  have "le_put (Suc (Suc (Suc (Suc 0)))) n = [word_of_nat n, 0, 0, 0]"
    using n by simp
  moreover have "(4 :: nat) = Suc (Suc (Suc (Suc 0)))" by simp
  ultimately have "le_put 4 n = [word_of_nat n, 0, 0, 0]" by (simp only:)
  then show ?thesis by (simp only: be_put_def rev.simps append.simps)
qed

theorem tcp_stream_reassembly_witness:
  "\<exists>frames buf. readAll [ReadGot [0, 0, 0], ReadTimeout, ReadGot [1, 7, 0, 0], ReadGot [0, 0]] [] = (Inr frames, buf) \<and>
    frames = [[7], []] \<and> buf = []"
proof -
  let ?rds = "[ReadGot [0, 0, 0], ReadTimeout, ReadGot [1, 7, 0, 0], ReadGot [0, 0]]"
  have e: "concat (map readBytes ?rds) = concat (map (\<lambda>p. projr (encodeFrame p)) [[7], []])"
    by (simp add: encodeFrame_def be_put_small)
  have "list_all (\<lambda>p. length p \<le> maxFrameSize) [[7], []]" "ReadFails \<notin> set ?rds"
    by (simp_all add: maxFrameSize_def)
  from tcp_stream_reassembly [OF this] e show ?thesis by fastforce
qed

subsection \<open>Frames that cannot be received\<close>

text \<open>The sender accepts payloads its peer refuses: one of more than 16 MiB is framed and
  written, and reading it ends the connection.\<close>

theorem oversized_frame_ends_connection:
  assumes "maxFrameSize < length p" "length p < 2 ^ 32"
    and "getActiveConn h t = Some c" "readers u d = Some (g, [])" "activeConnections u g = Some d"
  shows "\<exists>f. tcp_send True p h t = t\<lparr>written := written t @ [(c, f)]\<rparr> \<and>
    outEvents (tcp_read d (ReadGot f) u) =
      outEvents u @ [Failed (HostAddress g), Disconnected (HostAddress g)] \<and>
    outChannel (tcp_read d (ReadGot f) u) = outChannel u"
proof -
  have "be_get (take 4 (frame p)) = length p"
    using assms(2) by (simp add: frame_def be_get_put)
  moreover have "\<not> length (frame p) < 4" by simp
  ultimately have "decodeFrames (frame p) = (Inl (FrameTooLong (length p)), frame p)"
    using assms(1) unfolding decodeFrames_def by (subst decodeLoop.simps) (simp add: Let_def)
  then have r: "readFrames (ReadGot (frame p)) [] = (Inl (BadFrame (FrameTooLong (length p))), frame p)"
    by (simp add: readFrames_def)
  have "encodeFrame p = Inr (frame p)"
    using assms(2) by (simp add: encodeFrame_def frame_def)
  with assms(3) have "tcp_send True p h t = t\<lparr>written := written t @ [(c, frame p)]\<rparr>"
    by (simp add: tcp_send_def)
  with r assms(4,5) show ?thesis
    by (intro exI [of _ "frame p"])
      (simp add: tcp_read_def tcp_disconnect_def removeActiveConn_def tcp_emit_def Let_def)
qed

theorem oversized_frame_ends_connection_witness:
  "\<exists>f. outEvents (tcp_read 0 (ReadGot f) (tcp_step (Accept (Some (Host 7001 ''c''))) NewTCPLayer)) =
    [Connected (HostAddress (Host 7001 ''c'')), Failed (HostAddress (Host 7001 ''c'')),
     Disconnected (HostAddress (Host 7001 ''c''))]"
proof -
  let ?p = "replicate (maxFrameSize + 1) (0 :: byte)"
  let ?t = "tcp_step (Dial True (HostAddress (Host 7000 ''s''))) NewTCPLayer"
  let ?u = "tcp_step (Accept (Some (Host 7001 ''c''))) NewTCPLayer"
  have "maxFrameSize < length ?p" "length ?p < 2 ^ 32"
    unfolding length_replicate by (simp_all add: maxFrameSize_def)
  moreover have "getActiveConn (Host 7000 ''s'') ?t = Some 0" "readers ?u 0 = Some (Host 7001 ''c'', [])"
    "activeConnections ?u (Host 7001 ''c'') = Some 0" "outEvents ?u = [Connected (HostAddress (Host 7001 ''c''))]"
    by (simp_all add: tcp_Connect_def tcp_connect_def tcp_accepted_def tcp_opened_def addActiveConn_def tcp_emit_def
        NewTCPLayer_def getActiveConn_def Let_def)
  ultimately show ?thesis
    using oversized_frame_ends_connection [of ?p "Host 7000 ''s''" ?t 0 ?u 0] by force
qed

subsection \<open>The connection table\<close>

definition count_up :: "Host \<Rightarrow> transport_event list \<Rightarrow> nat" where
  "count_up h evs = length (filter (\<lambda>ev. ev = Connected (HostAddress h)) evs)"

definition count_down :: "Host \<Rightarrow> transport_event list \<Rightarrow> nat" where
  "count_down h evs = length (filter (\<lambda>ev. ev = Disconnected (HostAddress h)) evs)"

lemma counts_append [simp]:
  "count_up h (evs @ [ev]) = count_up h evs + (if ev = Connected (HostAddress h) then 1 else 0)"
  "count_down h (evs @ [ev]) = count_down h evs + (if ev = Disconnected (HostAddress h) then 1 else 0)"
  "count_up h [] = 0" "count_down h [] = 0"
  by (simp_all add: count_up_def count_down_def)

definition tcp_balanced :: "tcpLayer \<Rightarrow> bool" where
  "tcp_balanced t \<longleftrightarrow>
     (\<forall>h. count_down h (outEvents t) + (if activeConnections t h = None then 0 else 1)
          \<le> count_up h (outEvents t))"

lemma balanced_failed: "tcp_balanced t \<Longrightarrow> tcp_balanced (tcp_emit (Failed a) t)"
  by (simp add: tcp_balanced_def tcp_emit_def)

lemma balanced_same:
  "tcp_balanced t \<Longrightarrow> outEvents u = outEvents t \<Longrightarrow> activeConnections u = activeConnections t \<Longrightarrow>
     tcp_balanced u"
  by (simp add: tcp_balanced_def)

lemma balanced_disconnect:
  assumes "tcp_balanced t"
  shows "tcp_balanced (tcp_disconnect h t)"
proof (cases "activeConnections t h")
  case None
  then show ?thesis
    using assms by (simp add: tcp_disconnect_def removeActiveConn_def fun_upd_idem tcp_balanced_def)
next
  case (Some c)
  have "count_down h' (outEvents t) + (if activeConnections t h' = None then 0 else 1) \<le> count_up h' (outEvents t)" for h'
    using assms by (simp add: tcp_balanced_def)
  note b = this
  show ?thesis
    unfolding tcp_balanced_def
  proof
    fix h'
    show "count_down h' (outEvents (tcp_disconnect h t)) +
        (if activeConnections (tcp_disconnect h t) h' = None then 0 else 1)
      \<le> count_up h' (outEvents (tcp_disconnect h t))"
      using Some b [of h] b [of h']
      by (cases "h' = h") (simp_all add: tcp_disconnect_def removeActiveConn_def tcp_emit_def)
  qed
qed

lemma balanced_opened:
  assumes "tcp_balanced t"
  shows "tcp_balanced (tcp_opened h t)"
proof -
  have "count_down h' (outEvents t) + (if activeConnections t h' = None then 0 else 1) \<le> count_up h' (outEvents t)" for h'
    using assms by (simp add: tcp_balanced_def)
  note b = this
  show ?thesis
    unfolding tcp_balanced_def
  proof
    fix h'
    show "count_down h' (outEvents (tcp_opened h t)) +
        (if activeConnections (tcp_opened h t) h' = None then 0 else 1)
      \<le> count_up h' (outEvents (tcp_opened h t))"
      using b [of h']
      by (cases "h' = h"; cases "activeConnections t h' = None")
        (simp_all add: tcp_opened_def addActiveConn_def tcp_emit_def Let_def)
  qed
qed

lemma balanced_read:
  assumes "tcp_balanced t"
  shows "tcp_balanced (tcp_read conn rd t)"
proof (cases "readers t conn")
  case None
  then show ?thesis using assms by (simp add: tcp_read_def)
next
  case (Some e)
  obtain host recvBuf where e: "e = (host, recvBuf)" by (cases e)
  obtain res buf where r: "readFrames rd recvBuf = (res, buf)" by (cases "readFrames rd recvBuf")
  show ?thesis
  proof (cases res)
    case (Inr frames)
    then have "outEvents (tcp_read conn rd t) = outEvents t"
      "activeConnections (tcp_read conn rd t) = activeConnections t"
      using Some e r by (simp_all add: tcp_read_def)
    with assms show ?thesis by (rule balanced_same)
  next
    case (Inl err)
    let ?t = "case err of BadFrame e \<Rightarrow> tcp_emit (Failed (HostAddress host)) t | ReadError \<Rightarrow> t"
    have "tcp_balanced (tcp_disconnect host ?t)"
      using assms by (cases err) (simp_all add: balanced_disconnect balanced_failed)
    moreover have "outEvents (tcp_read conn rd t) = outEvents (tcp_disconnect host ?t)"
      "activeConnections (tcp_read conn rd t) = activeConnections (tcp_disconnect host ?t)"
      using Some e r Inl by (simp_all add: tcp_read_def Let_def)
    ultimately show ?thesis by (rule balanced_same)
  qed
qed

lemma balanced_send:
  assumes "tcp_balanced t"
  shows "tcp_balanced (tcp_send wrote msg h t)"
proof -
  have "tcp_balanced (t\<lparr>written := w\<rparr>)" for w
    using assms by (rule balanced_same) simp_all
  then show ?thesis
    using assms by (simp add: tcp_send_def balanced_disconnect balanced_failed split: option.splits sum.splits)
qed

lemma balanced_step: "tcp_balanced t \<Longrightarrow> tcp_balanced (tcp_step i t)"
proof (induction i t rule: tcp_step.induct)
  case (1 dialled peer t)
  then show ?case by (simp add: tcp_Connect_def tcp_connect_def balanced_failed balanced_opened split_beta)
next
  case (2 remote t)
  have "tcp_balanced (t\<lparr>closedConns := c, nextConn := n\<rparr>)" for c n
    using 2 by (rule balanced_same) simp_all
  then show ?case
    using 2 by (simp add: tcp_accepted_def balanced_opened split: option.splits)
qed (simp_all add: tcp_Disconnect_def tcp_Send_def split_beta balanced_failed balanced_disconnect
    balanced_send balanced_read)

text \<open>The events of a host pair up: whatever is dialled, accepted, sent, read and hung up, at
  every moment the transport has reported the host down at most as often as up, and one time fewer
  while a connection of it is in the table.\<close>

theorem tcp_events_pair_up:
  shows "count_down h (outEvents (fold tcp_step is NewTCPLayer)) +
      (if activeConnections (fold tcp_step is NewTCPLayer) h = None then 0 else 1)
    \<le> count_up h (outEvents (fold tcp_step is NewTCPLayer))"
proof -
  have "tcp_balanced t \<Longrightarrow> tcp_balanced (fold tcp_step is t)" for t
    by (induction "is" arbitrary: t) (simp_all add: balanced_step)
  moreover have "tcp_balanced NewTCPLayer"
    by (simp add: tcp_balanced_def NewTCPLayer_def)
  ultimately show ?thesis unfolding tcp_balanced_def by blast
qed

text \<open>The reader of a connection that was replaced in the table takes its successor down: when
  the old connection ends, the new one of the same host is closed and reported as disconnected,
  and what is sent to the host afterwards is dropped.\<close>

theorem replaced_reader_closes_successor:
  assumes "readers t old = Some (h, buf)" "activeConnections t h = Some new"
  defines "u \<equiv> tcp_step (Read old ReadFails) t"
  shows "new \<in> closedConns u \<and> outEvents u = outEvents t @ [Disconnected (HostAddress h)] \<and>
    tcp_send wrote msg h u = u"
  using assms(1,2) unfolding u_def
  by (simp add: tcp_read_def readFrames_def tcp_disconnect_def removeActiveConn_def tcp_emit_def
      tcp_send_def getActiveConn_def Let_def)

theorem replaced_reader_closes_successor_witness:
  "1 \<in> closedConns (tcp_step (Read 0 ReadFails)
      (fold tcp_step [Dial True (HostAddress (Host 7000 ''h'')), Dial True (HostAddress (Host 7000 ''h''))] NewTCPLayer))"
proof -
  let ?t = "fold tcp_step [Dial True (HostAddress (Host 7000 ''h'')), Dial True (HostAddress (Host 7000 ''h''))] NewTCPLayer"
  have "readers ?t 0 = Some (Host 7000 ''h'', [])" "activeConnections ?t (Host 7000 ''h'') = Some 1"
    by (simp_all add: tcp_Connect_def tcp_connect_def tcp_opened_def addActiveConn_def tcp_emit_def NewTCPLayer_def Let_def)
  from replaced_reader_closes_successor [OF this] show ?thesis by blast
qed

end
