(* ===== verification/Quic.thy ===== *)
theory Quic
  imports Tcp
begin

text \<open>
  The QUIC backend, \<open>pkg/transport/quic/quic.go\<close>, and that it mirrors the TCP backend: every step it
  takes is what the TCP backend does on a corresponding choice of its environment, so what holds of
  the events and messages of \<open>Tcp\<close> holds here.

  The QUIC library is an argument: what a dial, the opening or acceptance of a stream, a write or a
  read yields is chosen by the environment.  A connection with its stream is the number it was
  opened with, \<open>pumps\<close> are the goroutines that read.  As in \<open>Tcp\<close> a step is one critical section with
  the events that follow it on the same goroutine; an accepted connection is a step once its first
  stream is accepted or refused.  Deadlines, TLS, logging and the cancelled context are not modelled.
\<close>

subsection \<open>Frames\<close>

definition quic_encodeFrame :: "bytes \<Rightarrow> frame_error + bytes" where
  "quic_encodeFrame payload =
     (if length payload > 2 ^ 32 - 1 then Inl (PayloadTooLarge (length payload))
      else Inr (be_put (length payload) @ payload))"

function quic_decodeLoop :: "bytes \<Rightarrow> bytes list \<Rightarrow> (frame_error + bytes list) \<times> bytes" where
  "quic_decodeLoop buf frames =
     (if length buf < 4 then (Inr frames, buf)
      else let len = be_get (take 4 buf) in
        if len > maxFrameSize then (Inl (FrameTooLong len), buf)
        else if length buf < 4 + len then (Inr frames, buf)
        else quic_decodeLoop (drop len (drop 4 buf)) (frames @ [take len (drop 4 buf)]))"
  by pat_completeness auto
termination
  by (relation "measure (\<lambda>(buf, frames). length buf)") auto

declare quic_decodeLoop.simps [simp del]

definition quic_decodeFrames :: "bytes \<Rightarrow> (frame_error + bytes list) \<times> bytes" where
  "quic_decodeFrames buf = quic_decodeLoop buf []"

fun quic_hostFromAddress :: "Address \<Rightarrow> Host \<times> bool" where
  "quic_hostFromAddress (HostAddress v) = (v, True)"
| "quic_hostFromAddress (HostPointer (Some v)) = (v, True)"
| "quic_hostFromAddress _ = (zeroHost, False)"

text \<open>A stream may return bytes and an error in one read.\<close>

datatype quic_fault = StreamTimeout | StreamEnds

definition readEnd :: "quic_fault option \<Rightarrow> bytes \<Rightarrow> (read_error + bytes list) \<times> bytes" where
  "readEnd err buf = (if err = Some StreamEnds then Inl ReadError else Inr [], buf)"

definition quic_readFrames ::
  "bytes \<Rightarrow> quic_fault option \<Rightarrow> bytes \<Rightarrow> (read_error + bytes list) \<times> bytes" where
  "quic_readFrames bs err recvBuf =
     (if bs \<noteq> [] then
        (case quic_decodeFrames (recvBuf @ bs) of
           (Inl e, buf) \<Rightarrow> (Inl (BadFrame e), buf)
         | (Inr frames, buf) \<Rightarrow> if frames \<noteq> [] then (Inr frames, buf) else readEnd err buf)
      else readEnd err recvBuf)"

subsection \<open>The layer\<close>

record quicLayer =
  qconns :: "Host \<rightharpoonup> nat"
  qnext :: nat
  qclosed :: "nat set"
  qwritten :: "(nat \<times> bytes) list"
  pumps :: "nat \<rightharpoonup> Host \<times> bytes"
  qEvents :: "transport_event list"
  qOut :: "(Address \<times> bytes) list"

datatype quic_error = TlsConfRequired | ListenFailed

definition quic_NewLayer :: "bool \<Rightarrow> bool \<Rightarrow> quic_error + quicLayer" where
  "quic_NewLayer hasTls listens =
     (if \<not> hasTls then Inl TlsConfRequired
      else if \<not> listens then Inl ListenFailed
      else Inr \<lparr>qconns = Map.empty, qnext = 0, qclosed = {}, qwritten = [], pumps = Map.empty, qEvents = [], qOut = []\<rparr>)"

definition emitPeerFailed :: "Host \<Rightarrow> quicLayer \<Rightarrow> quicLayer" where
  "emitPeerFailed host l = l\<lparr>qEvents := qEvents l @ [Failed (HostAddress host)]\<rparr>"

definition emitConnected :: "Host \<Rightarrow> quicLayer \<Rightarrow> quicLayer" where
  "emitConnected host l = l\<lparr>qEvents := qEvents l @ [Connected (HostAddress host)]\<rparr>"

definition emitDisconnected :: "Host \<Rightarrow> quicLayer \<Rightarrow> quicLayer" where
  "emitDisconnected host l = l\<lparr>qEvents := qEvents l @ [Disconnected (HostAddress host)]\<rparr>"

definition emitFailed :: "Address \<Rightarrow> quicLayer \<Rightarrow> quicLayer" where
  "emitFailed peer l = l\<lparr>qEvents := qEvents l @ [Failed peer]\<rparr>"

definition addConn :: "Host \<Rightarrow> nat \<Rightarrow> quicLayer \<Rightarrow> quicLayer" where
  "addConn host conn l = l\<lparr>qconns := (qconns l)(host \<mapsto> conn)\<rparr>"

definition removeConn :: "Host \<Rightarrow> quicLayer \<Rightarrow> nat option \<times> quicLayer" where
  "removeConn host l = (qconns l host, l\<lparr>qconns := (qconns l)(host := None)\<rparr>)"

definition getConn :: "Host \<Rightarrow> quicLayer \<Rightarrow> nat option" where
  "getConn host l = qconns l host"

text \<open>A connection the layer closes again before it served.\<close>

definition abandon :: "quicLayer \<Rightarrow> quicLayer" where
  "abandon l = l\<lparr>qclosed := insert (qnext l) (qclosed l), qnext := qnext l + 1\<rparr>"

definition serve :: "Host \<Rightarrow> quicLayer \<Rightarrow> quicLayer" where
  "serve host l =
     (let conn = qnext l;
          l = emitConnected host (addConn host conn (l\<lparr>qnext := conn + 1\<rparr>))
      in l\<lparr>pumps := (pumps l)(conn \<mapsto> (host, []))\<rparr>)"

datatype quic_dial = DialFails | StreamFails | DialOpens

definition quic_connect :: "quic_dial \<Rightarrow> Host \<Rightarrow> quicLayer \<Rightarrow> quicLayer" where
  "quic_connect d host l =
     (case d of
        DialFails \<Rightarrow> emitPeerFailed host l
      | StreamFails \<Rightarrow> emitPeerFailed host (abandon l)
      | DialOpens \<Rightarrow> serve host l)"

definition handleInbound :: "bool \<Rightarrow> Host option \<Rightarrow> quicLayer \<Rightarrow> quicLayer" where
  "handleInbound accepted remote l =
     (if \<not> accepted then abandon l
      else case remote of None \<Rightarrow> abandon l | Some host \<Rightarrow> serve host l)"

definition quic_disconnect :: "Host \<Rightarrow> quicLayer \<Rightarrow> quicLayer" where
  "quic_disconnect host l =
     (case removeConn host l of
        (None, l) \<Rightarrow> l
      | (Some conn, l) \<Rightarrow> emitDisconnected host (l\<lparr>qclosed := insert conn (qclosed l)\<rparr>))"

definition quic_send :: "bool \<Rightarrow> Host \<Rightarrow> bytes \<Rightarrow> quicLayer \<Rightarrow> quicLayer" where
  "quic_send wrote host msg l =
     (case getConn host l of
        None \<Rightarrow> l
      | Some conn \<Rightarrow>
          (case quic_encodeFrame msg of
             Inl e \<Rightarrow> quic_disconnect host (emitPeerFailed host l)
           | Inr data \<Rightarrow>
               if wrote then l\<lparr>qwritten := qwritten l @ [(conn, data)]\<rparr>
               else quic_disconnect host (emitPeerFailed host l)))"

text \<open>One round of \<open>readPump\<close>; a frame that cannot be decoded is reported by \<open>readFrames\<close>.\<close>

definition readPump :: "nat \<Rightarrow> bytes \<Rightarrow> quic_fault option \<Rightarrow> quicLayer \<Rightarrow> quicLayer" where
  "readPump conn bs err l =
     (case pumps l conn of
        None \<Rightarrow> l
      | Some (host, recvBuf) \<Rightarrow>
          (case quic_readFrames bs err recvBuf of
             (Inl e, buf) \<Rightarrow>
               (let l = (case e of BadFrame f \<Rightarrow> emitPeerFailed host l | ReadError \<Rightarrow> l);
                    l = quic_disconnect host l
                in l\<lparr>pumps := (pumps l)(conn := None)\<rparr>)
           | (Inr frames, buf) \<Rightarrow>
               l\<lparr>pumps := (pumps l)(conn \<mapsto> (host, buf)),
                 qOut := qOut l @ map (Pair (HostAddress host)) frames\<rparr>))"

definition quic_Connect :: "quic_dial \<Rightarrow> Address \<Rightarrow> quicLayer \<Rightarrow> quicLayer" where
  "quic_Connect d peer l =
     (let (host, ok) = quic_hostFromAddress peer in
      if \<not> ok then emitFailed peer l else quic_connect d host l)"

definition quic_Disconnect :: "Address \<Rightarrow> quicLayer \<Rightarrow> quicLayer" where
  "quic_Disconnect peer l =
     (let (host, ok) = quic_hostFromAddress peer in if \<not> ok then l else quic_disconnect host l)"

definition quic_Send :: "bool \<Rightarrow> bytes \<Rightarrow> Address \<Rightarrow> quicLayer \<Rightarrow> quicLayer" where
  "quic_Send wrote msg sendTo l =
     (let (host, ok) = quic_hostFromAddress sendTo in
      if \<not> ok then emitFailed sendTo l else quic_send wrote host msg l)"

datatype quic_input =
    QDial quic_dial Address
  | QAccept bool "Host option"
  | QHangup Address
  | QWrite bool bytes Address
  | QRead nat bytes "quic_fault option"

fun quic_step :: "quic_input \<Rightarrow> quicLayer \<Rightarrow> quicLayer" where
  "quic_step (QDial d peer) l = quic_Connect d peer l"
| "quic_step (QAccept accepted remote) l = handleInbound accepted remote l"
| "quic_step (QHangup peer) l = quic_Disconnect peer l"
| "quic_step (QWrite wrote msg peer) l = quic_Send wrote msg peer l"
| "quic_step (QRead conn bs err) l = readPump conn bs err l"

subsection \<open>The TCP backend it mirrors\<close>

definition asTcp :: "quicLayer \<Rightarrow> tcpLayer" where
  "asTcp l =
     \<lparr>activeConnections = qconns l, nextConn = qnext l, closedConns = qclosed l, written = qwritten l,
      readers = pumps l, outEvents = qEvents l, outChannel = qOut l\<rparr>"

text \<open>What the environment of the TCP backend does for one step here.  A stream that cannot be opened is
  a connection that came to nothing and a failed dial; bytes that complete no frame and come with
  the end of the stream are two reads.\<close>

fun mirror :: "quic_input \<Rightarrow> quicLayer \<Rightarrow> tcp_input list" where
  "mirror (QDial DialFails peer) l = [Dial False peer]"
| "mirror (QDial StreamFails peer) l =
     (if snd (hostFromAddress peer) then [Accept None, Dial False peer] else [Dial False peer])"
| "mirror (QDial DialOpens peer) l = [Dial True peer]"
| "mirror (QAccept accepted remote) l = [Accept (if accepted then remote else None)]"
| "mirror (QHangup peer) l = [Hangup peer]"
| "mirror (QWrite wrote msg peer) l = [Write wrote msg peer]"
| "mirror (QRead conn bs err) l =
     (if bs = [] then [Read conn (if err = Some StreamEnds then ReadFails else ReadTimeout)]
      else Read conn (ReadGot bs) #
        (case pumps l conn of
           None \<Rightarrow> []
         | Some (host, buf) \<Rightarrow>
             if fst (decodeFrames (buf @ bs)) = Inr [] \<and> err = Some StreamEnds then [Read conn ReadFails] else []))"

fun mirrors :: "quic_input list \<Rightarrow> quicLayer \<Rightarrow> tcp_input list" where
  "mirrors [] l = []"
| "mirrors (i # is) l = mirror i l @ mirrors is (quic_step i l)"

lemma quic_hostFromAddress_same [simp]: "quic_hostFromAddress = hostFromAddress"
proof
  fix a show "quic_hostFromAddress a = hostFromAddress a" by (induction a rule: hostFromAddress.induct) simp_all
qed

lemma quic_encodeFrame_same [simp]: "quic_encodeFrame = encodeFrame"
  by (simp add: quic_encodeFrame_def encodeFrame_def fun_eq_iff)

lemma quic_decodeLoop_same: "quic_decodeLoop buf frames = decodeLoop buf frames"
proof (induction buf frames rule: decodeLoop.induct)
  case (1 buf frames)
  then show ?case
    by (subst quic_decodeLoop.simps, subst decodeLoop.simps) (simp add: Let_def add.commute)
qed

lemma quic_decodeFrames_same [simp]: "quic_decodeFrames = decodeFrames"
  by (simp add: quic_decodeFrames_def decodeFrames_def quic_decodeLoop_same fun_eq_iff)

lemma asTcp_ops:
  "asTcp (emitPeerFailed h l) = tcp_emit (Failed (HostAddress h)) (asTcp l)"
  "asTcp (emitFailed a l) = tcp_emit (Failed a) (asTcp l)"
  "asTcp (serve h l) = tcp_opened h (asTcp l)"
  "asTcp (abandon l) = tcp_accepted None (asTcp l)"
  "asTcp (quic_disconnect h l) = tcp_disconnect h (asTcp l)"
  "activeConnections (asTcp l) = qconns l" "readers (asTcp l) = pumps l" "outEvents (asTcp l) = qEvents l"
  "outChannel (asTcp l) = qOut l"
proof -
  show "asTcp (quic_disconnect h l) = tcp_disconnect h (asTcp l)"
    by (cases "qconns l h")
      (simp_all add: quic_disconnect_def tcp_disconnect_def removeConn_def removeActiveConn_def asTcp_def
        emitDisconnected_def tcp_emit_def)
qed (simp_all add: asTcp_def emitPeerFailed_def emitFailed_def serve_def abandon_def tcp_emit_def tcp_opened_def
    tcp_accepted_def addConn_def addActiveConn_def emitConnected_def Let_def)

lemma asTcp_send: "asTcp (quic_send wrote h msg l) = tcp_send wrote msg h (asTcp l)"
proof (cases "qconns l h")
  case None
  then show ?thesis by (simp add: quic_send_def tcp_send_def getConn_def getActiveConn_def asTcp_ops)
next
  case (Some c)
  have w: "asTcp (l\<lparr>qwritten := qwritten l @ [(c, f)]\<rparr>) = (asTcp l)\<lparr>written := written (asTcp l) @ [(c, f)]\<rparr>" for f
    by (simp add: asTcp_def)
  show ?thesis using Some
    by (cases "encodeFrame msg")
      (simp_all add: quic_send_def tcp_send_def getConn_def getActiveConn_def asTcp_ops w)
qed

text \<open>One round of a reader that hands up frames, and one that ends it.\<close>

lemma readPump_frames:
  assumes "pumps l conn = Some (host, buf)" "quic_readFrames bs err buf = (Inr frames, b)"
    and "readFrames rd buf = (Inr frames, b)"
  shows "asTcp (readPump conn bs err l) = tcp_read conn rd (asTcp l)"
  using assms by (simp add: readPump_def tcp_read_def asTcp_def)

lemma readPump_ends:
  assumes "pumps l conn = Some (host, buf)" "quic_readFrames bs err buf = (Inl e, b)"
    and "readFrames rd buf = (Inl e, b)"
  shows "asTcp (readPump conn bs err l) = tcp_read conn rd (asTcp l)"
proof -
  let ?l = "quic_disconnect host (case e of BadFrame f \<Rightarrow> emitPeerFailed host l | ReadError \<Rightarrow> l)"
  have "asTcp ?l = tcp_disconnect host
      (case e of BadFrame f \<Rightarrow> tcp_emit (Failed (HostAddress host)) (asTcp l) | ReadError \<Rightarrow> asTcp l)"
    by (cases e) (simp_all add: asTcp_ops)
  moreover have "asTcp (?l\<lparr>pumps := p\<rparr>) = (asTcp ?l)\<lparr>readers := p\<rparr>" for p by (simp add: asTcp_def)
  moreover have "pumps ?l = readers (asTcp ?l)" by (simp add: asTcp_def)
  ultimately show ?thesis using assms
    by (simp add: readPump_def tcp_read_def asTcp_ops(7) Let_def)
qed

lemma asTcp_read: "asTcp (readPump conn bs err l) = fold tcp_step (mirror (QRead conn bs err) l) (asTcp l)"
proof (cases "pumps l conn")
  case None
  then show ?thesis by (auto simp: readPump_def tcp_read_def asTcp_ops)
next
  case (Some hb)
  then obtain host buf where p: "pumps l conn = Some (host, buf)" by (cases hb) simp
  show ?thesis
  proof (cases "bs = []")
    case True
    then show ?thesis
      using readPump_frames [OF p, of "[]" err "[]" buf ReadTimeout] readPump_ends [OF p, of "[]" err ReadError buf ReadFails]
      by (cases "err = Some StreamEnds") (simp_all add: quic_readFrames_def readEnd_def readFrames_def)
  next
    case bs: False
    obtain r b where d: "decodeFrames (buf @ bs) = (r, b)" by fastforce
    show ?thesis
    proof (cases r)
      case (Inl e)
      then show ?thesis using readPump_ends [OF p, of bs err "BadFrame e" b "ReadGot bs"] bs d p
        by (simp add: quic_readFrames_def readFrames_def)
    next
      case (Inr frames)
      have got: "readFrames (ReadGot bs) buf = (Inr frames, b)" using bs d Inr by (simp add: readFrames_def)
      show ?thesis
      proof (cases "frames = [] \<and> err = Some StreamEnds")
        case False
        then have "quic_readFrames bs err buf = (Inr frames, b)"
          using bs d Inr by (auto simp: quic_readFrames_def readEnd_def)
        then show ?thesis using readPump_frames [OF p _ got] bs d p Inr False by auto
      next
        case True
        let ?l = "l\<lparr>pumps := (pumps l)(conn \<mapsto> (host, b))\<rparr>"
        have l: "asTcp ?l = tcp_read conn (ReadGot bs) (asTcp l)"
          using True got p by (simp add: tcp_read_def asTcp_def)
        have "quic_readFrames bs err buf = (Inl ReadError, b)"
          using bs d Inr True by (simp add: quic_readFrames_def readEnd_def)
        then have "readPump conn bs err l = readPump conn [] err ?l"
          using p True by (simp add: readPump_def quic_readFrames_def readEnd_def quic_disconnect_def removeConn_def
              emitDisconnected_def Let_def split: option.splits)
        moreover have "asTcp (readPump conn [] err ?l) = tcp_read conn ReadFails (asTcp ?l)"
          by (rule readPump_ends) (use True in \<open>simp_all add: quic_readFrames_def readEnd_def readFrames_def\<close>)
        ultimately show ?thesis using l bs d p Inr True by simp
      qed
    qed
  qed
qed

lemma asTcp_step: "asTcp (quic_step i l) = fold tcp_step (mirror i l) (asTcp l)"
proof (cases i)
  case (QDial d peer)
  then show ?thesis
    by (cases d) (simp_all add: quic_Connect_def tcp_Connect_def quic_connect_def tcp_connect_def asTcp_ops split_beta)
next
  case (QAccept a r)
  then show ?thesis
    by (cases r) (simp_all add: handleInbound_def asTcp_ops, simp add: tcp_accepted_def)
next
  case (QRead c bs err)
  then show ?thesis using asTcp_read by simp
qed (simp_all add: quic_Disconnect_def tcp_Disconnect_def quic_Send_def tcp_Send_def asTcp_ops asTcp_send split_beta)

text \<open>C29. The QUIC backend mirrors the TCP backend: whatever the environment does, its table, its events and
  the messages it hands up are those of the TCP backend under the corresponding environment.\<close>

theorem quic_mirrors_tcp: "asTcp (fold quic_step is l) = fold tcp_step (mirrors is l) (asTcp l)"
  by (induction "is" arbitrary: l) (simp_all add: asTcp_step)

text \<open>What the TCP backend guarantees of its events holds here.\<close>

corollary quic_events_pair_up:
  assumes "quic_NewLayer True True = Inr l"
  shows "count_down h (qEvents (fold quic_step is l)) + (if qconns (fold quic_step is l) h = None then 0 else 1)
    \<le> count_up h (qEvents (fold quic_step is l))"
proof -
  have "asTcp l = NewTCPLayer" using assms by (auto simp: quic_NewLayer_def asTcp_def NewTCPLayer_def)
  moreover have "asTcp (fold quic_step is l) = fold tcp_step (mirrors is l) (asTcp l)"
    by (induction "is" arbitrary: l) (simp_all add: asTcp_step)
  moreover have "tcp_balanced t \<Longrightarrow> tcp_balanced (fold tcp_step is t)" for t "is"
    by (induction "is" arbitrary: t) (simp_all add: balanced_step)
  moreover have "tcp_balanced NewTCPLayer" by (simp add: tcp_balanced_def NewTCPLayer_def)
  ultimately have "tcp_balanced (asTcp (fold quic_step is l))" by metis
  then show ?thesis by (simp add: tcp_balanced_def asTcp_ops)
qed

text \<open>Where they differ: bytes that come together with the end of the stream complete their frames here.
  The TCP backend looks at the error first (its \<open>ReadFails\<close> covers a read of any length), so the frames
  of such a read are lost there; a TLS connection reads like that when its peer has closed.\<close>

lemma last_read_delivered:
  assumes "pumps l conn = Some (host, [])" "length p \<le> maxFrameSize"
  shows "qOut (readPump conn (frame p) (Some StreamEnds) l) = qOut l @ [(HostAddress host, p)]"
    "outChannel (tcp_read conn ReadFails (asTcp l)) = outChannel (asTcp l)"
proof -
  have "decodeFrames (frame p) = (Inr [p], [])"
    using decodeLoop_frame [OF assms(2), of "[]" "[]"] by (simp add: decodeFrames_def decodeLoop.simps)
  then have "quic_readFrames (frame p) (Some StreamEnds) [] = (Inr [p], [])" by (simp add: quic_readFrames_def)
  then show "qOut (readPump conn (frame p) (Some StreamEnds) l) = qOut l @ [(HostAddress host, p)]"
    using assms(1) by (simp add: readPump_def)
  show "outChannel (tcp_read conn ReadFails (asTcp l)) = outChannel (asTcp l)"
    using assms(1) by (simp add: tcp_read_def asTcp_ops readFrames_def tcp_disconnect_def removeActiveConn_def
        tcp_emit_def Let_def split: option.splits)
qed

end
