(* ===== verification/Codecs.thy ===== *)
theory Codecs
  imports WireCodec_Safety Proto_Context Runtime
begin

text \<open>
  Message types and their codecs, \<open>pkg/protorun/codec.go\<close>, and the helpers of \<open>protocol.go\<close> that register
  them: the wire identifier of a type, the cache the send path uses, the names behind identifiers,
  \<open>BinaryCodec\<close>, \<open>SelfCodec\<close>, the adapter to the registry, \<open>RegisterCodec\<close> and \<open>Handle\<close>.

  \<^item> A Go message type is a \<open>gotype\<close>: its identity, the string \<open>reflect\<close> prints for it, its structure, and
    the methods it implements, as functions of the instance.  A message is a type with a value.
  \<^item> \<open>encoding/binary\<close> is modelled as far as \<open>BinaryCodec\<close> uses it: values of fixed size, little endian, blank
    fields written as zeros and skipped, a panic of \<open>reflect\<close> when an unexported field is to be set.  Complex
    numbers are left out.
  \<^item> \<open>JSONCodec\<close>, which rests on \<open>encoding/json\<close>, is not modelled.
\<close>

subsection \<open>Types and identifiers\<close>

datatype codec_error =
    CodecMismatch
  | WireCodecError werror
  | InvalidBinaryType
  | ShortRead nat
  | BinaryPanic
  | NotPointerType
  | NoSelfMarshaler
  | SelfError string

record gotype =
  gid :: nat
  gname :: string
  gtype :: rtype
  wireNamer :: "(rval \<Rightarrow> string) option"
  selfMarshaler :: "((rval \<Rightarrow> string + bytes) \<times> (bytes \<Rightarrow> rval \<Rightarrow> string + rval)) option"

type_synonym gomessage = "gotype \<times> rval"

definition hashString :: "string \<Rightarrow> uint64" where
  "hashString s = fnv64a_Write fnv64a_offset (str_bytes s)"

text \<open>The instance that is asked for its name when there is none at hand.\<close>

definition probe :: "gotype \<Rightarrow> rval" where
  "probe t = (case gtype t of RPointer e \<Rightarrow> VPtr (zeroValue e) | e \<Rightarrow> zeroValue e)"

definition WireID :: "gotype option \<Rightarrow> uint64 option" where
  "WireID T =
     (case T of
        None \<Rightarrow> None
      | Some t \<Rightarrow> Some (case wireNamer t of Some wn \<Rightarrow> hashString (wn (probe t)) | None \<Rightarrow> hashString (gname t)))"

text \<open>On the send path the message itself is asked, once for each type.\<close>

type_synonym wireIDCache = "nat \<rightharpoonup> uint64"

definition msg_wireIDOf :: "gomessage \<Rightarrow> wireIDCache \<Rightarrow> uint64 \<times> wireIDCache" where
  "msg_wireIDOf m cache =
     (case cache (gid (fst m)) of
        Some cached \<Rightarrow> (cached, cache)
      | None \<Rightarrow>
          let i = (case wireNamer (fst m) of Some wn \<Rightarrow> hashString (wn (snd m)) | None \<Rightarrow> hashString (gname (fst m)))
          in (i, cache(gid (fst m) \<mapsto> i)))"

type_synonym wireNames = "uint64 \<rightharpoonup> string"

definition WireNameOf :: "uint64 \<Rightarrow> wireNames \<Rightarrow> string option" where
  "WireNameOf i names = names i"

definition recordWireName :: "uint64 \<Rightarrow> string \<Rightarrow> wireNames \<Rightarrow> wireNames" where
  "recordWireName i name names = (case names i of None \<Rightarrow> names(i \<mapsto> name) | Some n \<Rightarrow> names)"

definition typeNameOf :: "gotype option \<Rightarrow> string" where
  "typeNameOf T = (case T of None \<Rightarrow> ''<nil>'' | Some t \<Rightarrow> gname t)"

definition wireNameOfType :: "gotype option \<Rightarrow> string" where
  "wireNameOfType T =
     (case T of
        Some t \<Rightarrow> (case wireNamer t of Some wn \<Rightarrow> wn (probe t) | None \<Rightarrow> typeNameOf T)
      | None \<Rightarrow> typeNameOf T)"

subsection \<open>Codecs\<close>

record typedCodec =
  tmarshal :: "rval \<Rightarrow> codec_error + bytes"
  tunmarshal :: "bytes \<Rightarrow> codec_error + rval"

text \<open>The size \<open>encoding/binary\<close> computes; a slice has one only at the top.\<close>

fun fixedSize :: "rtype \<Rightarrow> nat option" and fixedSizes :: "rfield list \<Rightarrow> nat option" where
  "fixedSize (RBasic k) = (case scalarCodec k of None \<Rightarrow> None | Some c \<Rightarrow> Some (minSize c))"
| "fixedSize (RArray n t) = (case fixedSize t of None \<Rightarrow> None | Some s \<Rightarrow> Some (n * s))"
| "fixedSize (RStruct fs) = fixedSizes fs"
| "fixedSize _ = None"
| "fixedSizes [] = Some 0"
| "fixedSizes (RField nm pk tg t # fs) =
     (case fixedSize t of
        None \<Rightarrow> None
      | Some s \<Rightarrow> (case fixedSizes fs of None \<Rightarrow> None | Some s' \<Rightarrow> Some (s + s')))"

fun elems :: "rval \<Rightarrow> rval list" where
  "elems (VSlice vs) = vs"
| "elems (VBytes bs) = map (\<lambda>b. VUint (unat b)) bs"
| "elems (VArray vs) = vs"
| "elems (VStruct vs) = vs"
| "elems _ = []"

definition dataSize :: "rtype \<Rightarrow> rval \<Rightarrow> nat option" where
  "dataSize t v =
     (case t of
        RSlice e \<Rightarrow> (case fixedSize e of None \<Rightarrow> None | Some s \<Rightarrow> Some (s * length (elems v)))
      | _ \<Rightarrow> fixedSize t)"

fun bin_put :: "rtype \<Rightarrow> rval \<Rightarrow> bytes" and bin_puts :: "rfield list \<Rightarrow> rval list \<Rightarrow> bytes" where
  "bin_put (RBasic k) v = (case scalarCodec k of None \<Rightarrow> [] | Some c \<Rightarrow> enc c [] v)"
| "bin_put (RArray n t) v = concat (map (bin_put t) (elems v))"
| "bin_put (RSlice t) v = concat (map (bin_put t) (elems v))"
| "bin_put (RStruct fs) v = bin_puts fs (elems v)"
| "bin_put _ v = []"
| "bin_puts [] vs = []"
| "bin_puts (RField nm pk tg t # fs) vs =
     (if nm = ''_'' then replicate (the (fixedSize t)) 0 else bin_put t (hd vs)) @ bin_puts fs (tl vs)"

text \<open>The decoder, on bytes enough; \<open>ro\<close> holds below an unexported field.\<close>

fun bin_get :: "bool \<Rightarrow> rtype \<Rightarrow> bytes \<Rightarrow> (rval \<times> bytes) option"
and bin_gets :: "bool \<Rightarrow> rfield list \<Rightarrow> bytes \<Rightarrow> (rval list \<times> bytes) option"
and bin_getn :: "bool \<Rightarrow> rtype \<Rightarrow> nat \<Rightarrow> bytes \<Rightarrow> (rval list \<times> bytes) option" where
  "bin_get ro (RBasic k) data =
     (if ro then None
      else case scalarCodec k of
        None \<Rightarrow> None
      | Some c \<Rightarrow> (case dec c data (zeroScalar k) of Inl e \<Rightarrow> None | Inr (rest, v) \<Rightarrow> Some (v, rest)))"
| "bin_get ro (RArray n t) data =
     (case bin_getn ro t n data of None \<Rightarrow> None | Some (vs, rest) \<Rightarrow> Some (VArray vs, rest))"
| "bin_get ro (RStruct fs) data =
     (case bin_gets ro fs data of None \<Rightarrow> None | Some (vs, rest) \<Rightarrow> Some (VStruct vs, rest))"
| "bin_get ro t data = Some (zeroValue t, data)"
| "bin_gets ro [] data = Some ([], data)"
| "bin_gets ro (RField nm pk tg t # fs) data =
     (case (if nm = ''_'' then Some (zeroValue t, drop (the (fixedSize t)) data) else bin_get (ro \<or> pk \<noteq> []) t data) of
        None \<Rightarrow> None
      | Some (v, data) \<Rightarrow>
          (case bin_gets ro fs data of None \<Rightarrow> None | Some (vs, rest) \<Rightarrow> Some (v # vs, rest)))"
| "bin_getn ro t 0 data = Some ([], data)"
| "bin_getn ro t (Suc n) data =
     (case bin_get ro t data of
        None \<Rightarrow> None
      | Some (v, data) \<Rightarrow>
          (case bin_getn ro t n data of None \<Rightarrow> None | Some (vs, rest) \<Rightarrow> Some (v # vs, rest)))"

definition BinaryCodec_Marshal :: "rtype \<Rightarrow> rval \<Rightarrow> codec_error + bytes" where
  "BinaryCodec_Marshal t m =
     (case t of
        RPointer e \<Rightarrow>
          (case m of
             VPtr v \<Rightarrow> (case dataSize e v of None \<Rightarrow> Inl InvalidBinaryType | Some n \<Rightarrow> Inr (bin_put e v))
           | _ \<Rightarrow> Inl BinaryPanic)
      | _ \<Rightarrow> (case dataSize t m of None \<Rightarrow> Inl InvalidBinaryType | Some n \<Rightarrow> Inr (bin_put t m)))"

definition BinaryCodec_Unmarshal :: "rtype \<Rightarrow> bytes \<Rightarrow> codec_error + rval" where
  "BinaryCodec_Unmarshal t data =
     (case t of
        RPointer e \<Rightarrow>
          (case dataSize e (zeroValue e) of
             None \<Rightarrow> Inl InvalidBinaryType
           | Some n \<Rightarrow>
               if length data < n then Inl (ShortRead n)
               else (case bin_get False e (take n data) of
                       None \<Rightarrow> Inl BinaryPanic
                     | Some (v, rest) \<Rightarrow> Inr (VPtr v)))
      | _ \<Rightarrow> Inl NotPointerType)"

definition BinaryCodec :: "gotype \<Rightarrow> typedCodec" where
  "BinaryCodec t = \<lparr>tmarshal = BinaryCodec_Marshal (gtype t), tunmarshal = BinaryCodec_Unmarshal (gtype t)\<rparr>"

definition SelfCodec_Marshal :: "gotype \<Rightarrow> rval \<Rightarrow> codec_error + bytes" where
  "SelfCodec_Marshal t m =
     (case selfMarshaler t of
        None \<Rightarrow> Inl NoSelfMarshaler
      | Some (marshalWire, u) \<Rightarrow> (case marshalWire m of Inl e \<Rightarrow> Inl (SelfError e) | Inr b \<Rightarrow> Inr b))"

definition SelfCodec_Unmarshal :: "gotype \<Rightarrow> bytes \<Rightarrow> codec_error + rval" where
  "SelfCodec_Unmarshal t data =
     (case gtype t of
        RPointer e \<Rightarrow>
          (case selfMarshaler t of
             None \<Rightarrow> Inl NoSelfMarshaler
           | Some (mw, unmarshalWire) \<Rightarrow>
               (case unmarshalWire data (VPtr (zeroValue e)) of Inl e \<Rightarrow> Inl (SelfError e) | Inr v \<Rightarrow> Inr v))
      | _ \<Rightarrow> Inl NotPointerType)"

definition SelfCodec :: "gotype \<Rightarrow> typedCodec" where
  "SelfCodec t = \<lparr>tmarshal = SelfCodec_Marshal t, tunmarshal = SelfCodec_Unmarshal t\<rparr>"

text \<open>The reflective codec as a typed codec; the plan cache does not show (\<open>plan_cache_transparent\<close>).\<close>

definition wc_codec :: "gotype \<Rightarrow> typedCodec" where
  "wc_codec t =
     \<lparr>tmarshal = (\<lambda>m. mapErr WireCodecError (fst (wc_Marshal Map.empty (gtype t) m))),
      tunmarshal = (\<lambda>b. mapErr WireCodecError (fst (wc_Unmarshal Map.empty (gtype t) b)))\<rparr>"

text \<open>The adapter asserts the type of what it is given; the registry only asks whether there was an error.\<close>

definition adapter_marshal :: "gotype \<Rightarrow> typedCodec \<Rightarrow> gomessage \<Rightarrow> codec_error + bytes" where
  "adapter_marshal t c m = (if gid (fst m) \<noteq> gid t then Inl CodecMismatch else tmarshal c (snd m))"

definition adapter_unmarshal :: "gotype \<Rightarrow> typedCodec \<Rightarrow> bytes \<Rightarrow> codec_error + gomessage" where
  "adapter_unmarshal t c data = bindE (tunmarshal c data) (\<lambda>v. Inr (t, v))"

definition codecAdapter :: "gotype \<Rightarrow> typedCodec \<Rightarrow> gomessage codec" where
  "codecAdapter t c =
     \<lparr>marshal = (\<lambda>m. case adapter_marshal t c m of Inl e \<Rightarrow> None | Inr b \<Rightarrow> Some b),
      unmarshal = (\<lambda>b. case adapter_unmarshal t c b of Inl e \<Rightarrow> None | Inr m \<Rightarrow> Some m)\<rparr>"

subsection \<open>Registration\<close>

text \<open>\<open>None\<close> is a panic: of strict mode, or of \<open>Handle\<close> for a type that cannot be encoded.\<close>

definition RegisterCodec ::
  "proto_id \<Rightarrow> gotype \<Rightarrow> typedCodec \<Rightarrow> wireNames \<times> (gomessage, 'n, 'q, 'r) runtime \<Rightarrow>
     (wireNames \<times> (gomessage, 'n, 'q, 'r) runtime) option" where
  "RegisterCodec i t c st =
     (let wireID = the (WireID (Some t));
          names = recordWireName wireID (wireNameOfType (Some t)) (fst st)
      in case registerCodec i wireID (codecAdapter t c) (snd st) of
           None \<Rightarrow> None
         | Some r \<Rightarrow> Some (names, r))"

definition RegisterHandler ::
  "proto_id \<Rightarrow> gotype \<Rightarrow> wireNames \<times> (gomessage, 'n, 'q, 'r) runtime \<Rightarrow>
     (wireNames \<times> (gomessage, 'n, 'q, 'r) runtime) option" where
  "RegisterHandler i t st =
     (case registerHandler i (the (WireID (Some t))) (snd st) of None \<Rightarrow> None | Some r \<Rightarrow> Some (fst st, r))"

definition chosenCodec :: "gotype \<Rightarrow> typedCodec option" where
  "chosenCodec t =
     (if selfMarshaler t \<noteq> None then Some (SelfCodec t)
      else case gtype t of
        RPointer e \<Rightarrow>
          if Kind e = KStruct \<and> (case compile e of Inl x \<Rightarrow> True | Inr p \<Rightarrow> False) then None else Some (wc_codec t)
      | _ \<Rightarrow> Some (wc_codec t))"

definition Handle ::
  "proto_id \<Rightarrow> gotype \<Rightarrow> wireNames \<times> (gomessage, 'n, 'q, 'r) runtime \<Rightarrow>
     (wireNames \<times> (gomessage, 'n, 'q, 'r) runtime) option" where
  "Handle i t st =
     (case chosenCodec t of
        None \<Rightarrow> None
      | Some c \<Rightarrow> (case RegisterCodec i t c st of None \<Rightarrow> None | Some st \<Rightarrow> RegisterHandler i t st))"

end
