(* ===== verification/Codecs_Safety.thy ===== *)
theory Codecs_Safety
  imports Codecs
begin

text \<open>
  What the codecs promise: the identifier of a message on the send path is the identifier its type was
  registered under, the name behind an identifier is that of the first type registered for it, and
  \<open>BinaryCodec\<close> reads back what it wrote.
\<close>

subsection \<open>Identifiers\<close>

text \<open>A type whose \<open>WireName\<close> is the same for all its instances.\<close>

definition steady :: "gotype \<Rightarrow> bool" where
  "steady t \<longleftrightarrow> (case wireNamer t of None \<Rightarrow> True | Some wn \<Rightarrow> (\<forall>v. wn v = wn (probe t)))"

fun sendIDs :: "gomessage list \<Rightarrow> wireIDCache \<Rightarrow> uint64 list \<times> wireIDCache" where
  "sendIDs [] cache = ([], cache)"
| "sendIDs (m # ms) cache =
     (let (i, cache) = msg_wireIDOf m cache; (ids, cache) = sendIDs ms cache in (i # ids, cache))"

definition cacheOk :: "gotype set \<Rightarrow> wireIDCache \<Rightarrow> bool" where
  "cacheOk T cache \<longleftrightarrow> (\<forall>t\<in>T. \<forall>i. cache (gid t) = Some i \<longrightarrow> WireID (Some t) = Some i)"

lemma steady_id:
  "steady t \<Longrightarrow> WireID (Some t) = Some (case wireNamer t of Some wn \<Rightarrow> hashString (wn v) | None \<Rightarrow> hashString (gname t))"
  by (auto simp: steady_def WireID_def split: option.splits) metis

lemma msg_wireIDOf_ok:
  assumes "cacheOk T cache" "fst m \<in> T" "steady (fst m)" "inj_on gid T" "msg_wireIDOf m cache = (i, cache')"
  shows "WireID (Some (fst m)) = Some i \<and> cacheOk T cache'"
proof (cases "cache (gid (fst m))")
  case None
  then have i: "cache' = cache(gid (fst m) \<mapsto> i)" "WireID (Some (fst m)) = Some i"
    using assms(5) steady_id [OF assms(3), of "snd m"] by (auto simp: msg_wireIDOf_def Let_def)
  then show ?thesis using assms(1,2,4) by (auto simp: cacheOk_def inj_on_eq_iff)
next
  case (Some c)
  then show ?thesis using assms(1,2,5) by (auto simp: msg_wireIDOf_def cacheOk_def)
qed

lemma sendIDs_ok:
  assumes "cacheOk T cache" "fst ` set ms \<subseteq> T" "list_all (\<lambda>m. steady (fst m)) ms" "inj_on gid T"
  shows "map Some (fst (sendIDs ms cache)) = map (\<lambda>m. WireID (Some (fst m))) ms"
  using assms
proof (induction ms arbitrary: cache)
  case (Cons m ms)
  obtain i c where m: "msg_wireIDOf m cache = (i, c)" by fastforce
  have "fst m \<in> T" "steady (fst m)" using Cons.prems by simp_all
  then have "WireID (Some (fst m)) = Some i \<and> cacheOk T c"
    using msg_wireIDOf_ok [OF Cons.prems(1) _ _ Cons.prems(4) m] by blast
  then show ?case using Cons.IH [of c] Cons.prems m by (simp add: split_beta)
qed simp

text \<open>On the send path every message, in whatever order and however often its type was sent before, gets the
  identifier its type is registered under, if no type changes its name from instance to instance.\<close>

theorem wire_id_agrees:
  assumes "list_all (\<lambda>m. steady (fst m)) ms" "inj_on gid (fst ` set ms)"
  shows "map Some (fst (sendIDs ms Map.empty)) = map (\<lambda>m. WireID (Some (fst m))) ms"
  by (rule sendIDs_ok [OF _ order.refl assms]) (simp add: cacheOk_def)

definition pingType :: gotype where
  "pingType = \<lparr>gid = 1, gname = ''*demo.Ping'', gtype = RPointer (RStruct [RField ''Seq'' [] [] (RBasic KUint64)]),
     wireNamer = Some (\<lambda>v. ''demo.Ping''), selfMarshaler = None\<rparr>"

definition pongType :: gotype where
  "pongType = \<lparr>gid = 2, gname = ''*demo.Pong'', gtype = RPointer (RStruct []), wireNamer = None, selfMarshaler = None\<rparr>"

theorem wire_id_agrees_witness:
  "map Some (fst (sendIDs [(pingType, VNil), (pongType, VNil), (pingType, VPtr (VStruct [VUint 3]))] Map.empty)) =
    [WireID (Some pingType), WireID (Some pongType), WireID (Some pingType)]"
proof -
  let ?ms = "[(pingType, VNil), (pongType, VNil), (pingType, VPtr (VStruct [VUint 3]))]"
  have "list_all (\<lambda>m. steady (fst m)) ?ms" by (simp add: steady_def pingType_def pongType_def)
  moreover have "inj_on gid (fst ` set ?ms)" by (auto simp: inj_on_def pingType_def pongType_def)
  ultimately show ?thesis using wire_id_agrees [of ?ms] by simp
qed

text \<open>An instance-dependent name is frozen by the first message of the type.\<close>

lemma first_message_names_type:
  assumes "wireNamer t = Some wn"
  shows "fst (sendIDs [(t, v), (t, w)] Map.empty) = [hashString (wn v), hashString (wn v)]"
  using assms by (simp add: msg_wireIDOf_def Let_def)

text \<open>The name behind an identifier: that of the first type registered for it.\<close>

fun registerNames :: "gotype list \<Rightarrow> wireNames \<Rightarrow> wireNames" where
  "registerNames [] names = names"
| "registerNames (t # ts) names =
     registerNames ts (recordWireName (the (WireID (Some t))) (wireNameOfType (Some t)) names)"

lemma hash_wireNameOfType: "WireID (Some t) = Some (hashString (wireNameOfType (Some t)))"
  by (simp add: WireID_def wireNameOfType_def typeNameOf_def split: option.splits)

lemma registerNames_find:
  "WireNameOf i (registerNames ts names) =
     (case names i of
        Some n \<Rightarrow> Some n
      | None \<Rightarrow> map_option (\<lambda>t. wireNameOfType (Some t)) (find (\<lambda>t. WireID (Some t) = Some i) ts))"
  by (induction ts arbitrary: names)
    (auto simp: WireNameOf_def recordWireName_def hash_wireNameOfType split: option.splits)

theorem wire_name_reverse:
  "WireNameOf i (registerNames ts Map.empty) =
     map_option (\<lambda>t. wireNameOfType (Some t)) (find (\<lambda>t. WireID (Some t) = Some i) ts)"
  by (simp add: registerNames_find)

subsection \<open>BinaryCodec\<close>

text \<open>The values of a type of fixed size that can be read back, and what is read: blank fields are zero.\<close>

fun fits :: "rtype \<Rightarrow> rval \<Rightarrow> bool" and fitsAll :: "rfield list \<Rightarrow> rval list \<Rightarrow> bool" where
  "fits (RBasic k) v \<longleftrightarrow> scalarCodec k \<noteq> None \<and> scalarOk k v"
| "fits (RArray n t) v \<longleftrightarrow> v = VArray (elems v) \<and> length (elems v) = n \<and> fixedSize t \<noteq> None \<and> list_all (fits t) (elems v)"
| "fits (RStruct fs) v \<longleftrightarrow> v = VStruct (elems v) \<and> fitsAll fs (elems v)"
| "fits _ v \<longleftrightarrow> False"
| "fitsAll [] vs \<longleftrightarrow> vs = []"
| "fitsAll (RField nm pk tg t # fs) vs \<longleftrightarrow>
     vs \<noteq> [] \<and> fits t (hd vs) \<and> (nm = ''_'' \<or> pk = []) \<and> fitsAll fs (tl vs)"

fun bin_norm :: "rtype \<Rightarrow> rval \<Rightarrow> rval" and bin_norms :: "rfield list \<Rightarrow> rval list \<Rightarrow> rval list" where
  "bin_norm (RBasic k) v = scalarNorm k v"
| "bin_norm (RArray n t) v = VArray (map (bin_norm t) (elems v))"
| "bin_norm (RStruct fs) v = VStruct (bin_norms fs (elems v))"
| "bin_norm _ v = v"
| "bin_norms [] vs = []"
| "bin_norms (RField nm pk tg t # fs) vs =
     (if nm = ''_'' then zeroValue t else bin_norm t (hd vs)) # bin_norms fs (tl vs)"

lemma scalar_fixed: "scalarCodec k = Some c \<Longrightarrow> \<exists>n put get. c = fixedCodec n put get"
  by (cases k) (auto simp: boolCodec_def intCodec_def uintCodec_def float32Codec_def float64Codec_def)

lemma scalar_size:
  assumes "scalarCodec k = Some c" "scalarOk k v"
  shows "length (enc c [] v) = minSize c"
proof -
  obtain n put get where c: "c = fixedCodec n put get" using scalar_fixed [OF assms(1)] by blast
  have "dec c (enc c [] v @ []) VNil = Inr ([], scalarNorm k v)"
    by (rule value_codec.dec_enc [OF scalarCodec_contract [OF assms(1)] assms(2)])
  then show ?thesis unfolding c by (simp add: fixedCodec_def split: if_splits)
qed

lemma bin_elems:
  assumes "list_all (\<lambda>v. length (bin_put t v) = s \<and> (\<forall>r. bin_get False t (bin_put t v @ r) = Some (f v, r))) vs"
  shows "length (concat (map (bin_put t) vs)) = length vs * s"
    "bin_getn False t (length vs) (concat (map (bin_put t) vs) @ r) = Some (map f vs, r)"
  using assms by (induction vs) simp_all

lemma bin_roundtrip:
  "fits t v \<Longrightarrow> fixedSize t = Some (length (bin_put t v)) \<and>
     (\<forall>r. bin_get False t (bin_put t v @ r) = Some (bin_norm t v, r))"
  "fitsAll fs vs \<Longrightarrow> fixedSizes fs = Some (length (bin_puts fs vs)) \<and>
     (\<forall>r. bin_gets False fs (bin_puts fs vs @ r) = Some (bin_norms fs vs, r))"
proof (induction t v and fs vs rule: fits_fitsAll.induct)
  case (1 k v)
  then obtain c where c: "scalarCodec k = Some c" by auto
  have "dec c (enc c [] v @ r) (zeroScalar k) = Inr (r, scalarNorm k v)" for r
    by (rule value_codec.dec_enc [OF scalarCodec_contract [OF c]]) (use 1 in simp)
  then show ?case using 1 c scalar_size [OF c] by simp
next
  case (2 n t v)
  then obtain s where s: "fixedSize t = Some s" by auto
  have "list_all (\<lambda>x. length (bin_put t x) = s \<and> (\<forall>r. bin_get False t (bin_put t x @ r) = Some (bin_norm t x, r))) (elems v)"
    using 2 s by (auto simp: list_all_iff)
  from bin_elems [OF this] 2(2) s show ?case by auto
next
  case (6 nm pk tg t fs vs)
  then have t: "fixedSize t = Some (length (bin_put t (hd vs)))" by simp
  show ?case using 6 t by auto
qed (auto)

text \<open>A message of fixed size is written in as many bytes as its type has, and read back, blank fields
  as zeros; bytes that follow it are ignored.\<close>

theorem binary_roundtrip:
  assumes "fits e v"
  shows "\<exists>b. BinaryCodec_Marshal (RPointer e) (VPtr v) = Inr b \<and> fixedSize e = Some (length b) \<and>
    BinaryCodec_Unmarshal (RPointer e) (b @ junk) = Inr (VPtr (bin_norm e v))"
proof -
  have r: "fixedSize e = Some (length (bin_put e v))" "bin_get False e (bin_put e v) = Some (bin_norm e v, [])"
    using bin_roundtrip(1) [OF assms] by (auto dest: spec [of _ "[]"])
  then have "dataSize e x = Some (length (bin_put e v))" for x
    by (cases e) (simp_all add: dataSize_def)
  then show ?thesis using r by (simp add: BinaryCodec_Marshal_def BinaryCodec_Unmarshal_def)
qed

definition stampType :: rtype where
  "stampType = RStruct [RField ''Seq'' [] [] (RBasic KUint16), RField ''_'' ''demo'' [] (RBasic KUint8),
     RField ''Urgent'' [] [] (RBasic KBool)]"

theorem binary_roundtrip_witness:
  "\<exists>b. BinaryCodec_Marshal (RPointer stampType) (VPtr (VStruct [VUint 258, VUint 9, VBool True])) = Inr b \<and> length b = 4 \<and>
    BinaryCodec_Unmarshal (RPointer stampType) (b @ [7, 7]) = Inr (VPtr (VStruct [VUint 258, VUint 0, VBool True]))"
proof -
  let ?v = "VStruct [VUint 258, VUint 9, VBool True]"
  have f: "fits stampType ?v" by (simp add: stampType_def uintOk_def boolOk_def)
  have "bin_norm stampType ?v = VStruct [VUint 258, VUint 0, VBool True]" "fixedSize stampType = Some 4"
    by (simp_all add: stampType_def scalarNorm_def uintCodec_def boolCodec_def fixedCodec_def)
  then show ?thesis using binary_roundtrip [OF f, of "[7, 7]"] by auto
qed

subsection \<open>From Handle to the wire and back\<close>

lemma Handle_registers:
  assumes "Handle i t (names, r) = Some (names', r')"
  shows "\<exists>c. chosenCodec t = Some c \<and> codec_Get (the (WireID (Some t))) (rcodecs r') = Some (i, codecAdapter t c) \<and>
    the (WireID (Some t)) \<in> handlers (protos r' i) \<and>
    names' = recordWireName (the (WireID (Some t))) (wireNameOfType (Some t)) names"
  using assms
  by (auto simp: Handle_def RegisterCodec_def RegisterHandler_def registerCodec_def registerHandler_def Let_def
      codecs.get_insert split: option.splits if_splits)

text \<open>C30. \<open>Handle\<close> makes a message type work from end to end: the identifier the send path computes for a message
  of the type leads to the codec registered here, which encodes the message, and the bytes are decoded
  to a message of the same type with the wire normal form of its value.\<close>

theorem handle_end_to_end:
  assumes "Handle i t (names, r) = Some (names', r')" "selfMarshaler t = None" "gtype t = RPointer (RStruct fs)"
    and "steady t" "wire_ok (RStruct fs) v"
  shows "\<exists>c b. codec_Get (fst (msg_wireIDOf (t, VPtr v) Map.empty)) (rcodecs r') = Some (i, c) \<and>
    fst (msg_wireIDOf (t, VPtr v) Map.empty) \<in> handlers (protos r' i) \<and>
    marshal c (t, VPtr v) = Some b \<and> unmarshal c b = Some (t, VPtr (wire_norm (RStruct fs) v))"
proof -
  have i: "the (WireID (Some t)) = fst (msg_wireIDOf (t, VPtr v) Map.empty)"
    using steady_id [OF assms(4), of "VPtr v"] by (simp add: msg_wireIDOf_def Let_def split: option.splits)
  obtain c where c: "chosenCodec t = Some c" "codec_Get (the (WireID (Some t))) (rcodecs r') = Some (i, codecAdapter t c)"
      "the (WireID (Some t)) \<in> handlers (protos r' i)"
    using Handle_registers [OF assms(1)] by blast
  then obtain p where p: "compile (RStruct fs) = Inr p" "c = wc_codec t"
    using assms(2,3) by (auto simp: chosenCodec_def split: if_splits sum.splits)
  have e: "plansOk Map.empty" by (simp add: plansOk_def)
  have "dec p (enc p [] v @ []) (zeroValue (RStruct fs)) = Inr ([], wire_norm (RStruct fs) v)"
    using compile_contract [OF p(1)] assms(5) by (rule value_codec.dec_enc)
  then have "marshal (codecAdapter t c) (t, VPtr v) = Some (enc p [] v)"
      "unmarshal (codecAdapter t c) (enc p [] v) = Some (t, VPtr (wire_norm (RStruct fs) v))"
    using Marshal_struct(1) [OF e p(1), of v] Unmarshal_struct [OF e p(1), of "enc p [] v"] assms(3)
    by (simp_all add: p(2) codecAdapter_def adapter_marshal_def adapter_unmarshal_def wc_codec_def)
  then show ?thesis using c(2,3) unfolding i by blast
qed

theorem handle_end_to_end_witness:
  defines "st \<equiv> Handle 1 pingType (Map.empty, newRuntime (Host 0 ''h'') True :: (gomessage, unit, unit, unit) runtime)"
  shows "\<exists>st' (c :: gomessage codec) b. st = Some st' \<and> marshal c (pingType, VPtr (VStruct [VUint 3])) = Some b \<and>
    unmarshal c b = Some (pingType, VPtr (VStruct [VUint 3]))"
proof -
  let ?fs = "[RField ''Seq'' [] [] (RBasic KUint64)]"
  have "\<exists>names' r'. st = Some (names', r')"
    by (simp add: st_def Handle_def RegisterCodec_def RegisterHandler_def registerCodec_def registerHandler_def
        chosenCodec_def pingType_def onWire_def newRuntime_def newProtoProtocolMailbox_def codecs.get_empty Let_def)
  then obtain names' r' where st: "st = Some (names', r')" by blast
  have t: "selfMarshaler pingType = None" "gtype pingType = RPointer (RStruct ?fs)" "steady pingType"
    by (simp_all add: pingType_def steady_def)
  have ok: "wire_ok (RStruct ?fs) (VStruct [VUint 3])" "wire_norm (RStruct ?fs) (VStruct [VUint 3]) = VStruct [VUint 3]"
    by (simp_all add: onWire_def structOk_def structNorm_def wireSpec_eq uintOk_def scalarNorm_def)
  from handle_end_to_end [OF st [unfolded st_def] t ok(1)] obtain c :: "gomessage codec" and b where
    "marshal c (pingType, VPtr (VStruct [VUint 3])) = Some b"
    "unmarshal c b = Some (pingType, VPtr (wire_norm (RStruct ?fs) (VStruct [VUint 3])))" by blast
  then show ?thesis using st unfolding ok(2) by blast
qed

subsection \<open>Where the helpers fall short\<close>

text \<open>Two types whose printed names agree, which \<open>reflect\<close> does not exclude for types of packages with the same
  last element, have one identifier: without strict mode the later registration takes the place of the
  earlier, whose messages can no longer be sent.\<close>

lemma same_name_takes_over:
  assumes "gname t = gname u" "wireNamer t = None" "wireNamer u = None" "gid t \<noteq> gid u"
    and "Handle i t (names, r) = Some (names', r')" "Handle j u (names', r') = Some (names'', r'')"
  shows "\<exists>c. codec_Get (the (WireID (Some t))) (rcodecs r'') = Some (j, c) \<and> marshal c (t, v) = None"
proof -
  have "WireID (Some u) = WireID (Some t)" using assms(1-3) by (simp add: WireID_def)
  with Handle_registers [OF assms(6)] obtain c where
    "codec_Get (the (WireID (Some t))) (rcodecs r'') = Some (j, codecAdapter u c)" by auto
  moreover have "marshal (codecAdapter u c) (t, v) = None" using assms(4) by (simp add: codecAdapter_def adapter_marshal_def)
  ultimately show ?thesis by blast
qed

text \<open>\<open>Handle\<close> accepts a message type that is not a pointer to a struct, although none of its messages can be
  encoded.\<close>

lemma value_type_handled:
  assumes "selfMarshaler t = None" "gtype t = RStruct fs"
  shows "chosenCodec t = Some (wc_codec t)" "\<exists>e. tmarshal (wc_codec t) v = Inl e"
  using assms by (simp_all add: chosenCodec_def wc_codec_def wc_Marshal_def)

end
