(* ===== verification/Ipc.thy ===== *)
theory Ipc
  imports Event_Loop
begin

text \<open>
  The typed surface of requests and notifications, \<open>pkg/protorun/ipc.go\<close>: the responder with its guard
  against a second answer, the closures that check types, the choice of a timeout.  \<open>Event_Loop\<close> has
  what the closures do to the envelope, with the answer of a handler as a function; here the handler
  is the list of calls it makes on its responder, before it returns or panics and afterwards from
  wherever it kept the responder.  A value is paired with whether it has the type a closure asserts.
\<close>

subsection \<open>The responder\<close>

datatype 'r respond = CallReply 'r | CallFail ipc_error

fun answerOf :: "'r respond \<Rightarrow> ipc_error + 'r" where
  "answerOf (CallReply rep) = Inr rep"
| "answerOf (CallFail err) = Inl (ErrResponderFailed err)"

record 'r responder =
  rtoken :: replyToken
  answered :: bool
  delivered :: "(replyToken \<times> (ipc_error + 'r)) list"

definition newResponder :: "replyToken \<Rightarrow> 'r responder" where
  "newResponder tok = \<lparr>rtoken = tok, answered = False, delivered = []\<rparr>"

definition resp_Reply :: "'r \<Rightarrow> 'r responder \<Rightarrow> 'r responder" where
  "resp_Reply rep r =
     (if answered r then r
      else r\<lparr>answered := True, delivered := delivered r @ [(rtoken r, Inr rep)]\<rparr>)"

definition resp_Fail :: "ipc_error \<Rightarrow> 'r responder \<Rightarrow> 'r responder" where
  "resp_Fail err r =
     (if answered r then r
      else r\<lparr>answered := True, delivered := delivered r @ [(rtoken r, Inl (ErrResponderFailed err))]\<rparr>)"

fun callResponder :: "'r respond \<Rightarrow> 'r responder \<Rightarrow> 'r responder" where
  "callResponder (CallReply rep) r = resp_Reply rep r"
| "callResponder (CallFail err) r = resp_Fail err r"

text \<open>The closure of \<open>RegisterRequestHandler\<close>: the responder it leaves behind, and the panic it hands on.\<close>

definition requestClosure ::
  "bool \<Rightarrow> 'r respond list \<Rightarrow> bool \<Rightarrow> replyToken \<Rightarrow> bool \<times> 'r responder" where
  "requestClosure typed inline panicked tok =
     (if \<not> typed then
        (False, (newResponder tok)\<lparr>answered := True, delivered := [(tok, Inl (UserError ''request type mismatch''))]\<rparr>)
      else let r = fold callResponder inline (newResponder tok)
           in if panicked then (True, resp_Fail ErrHandlerPanicked r) else (False, r))"

subsection \<open>The requester's side\<close>

definition defaultRequestTimeout :: int where
  "defaultRequestTimeout = 30 * 1000000000"

definition WithDefaultRequestTimeout :: "int \<Rightarrow> int \<Rightarrow> int" where
  "WithDefaultRequestTimeout d cur = (if d > 0 then d else cur)"

definition requestTimeout :: "int \<Rightarrow> int \<Rightarrow> int" where
  "requestTimeout timeout rtDefault =
     (if timeout \<le> 0 then (if rtDefault \<le> 0 then defaultRequestTimeout else rtDefault) else timeout)"

text \<open>What the callback is told of a reply; the reply comes with whether it has the expected type.\<close>

definition wrappedReply :: "ipc_error + bool \<times> 'r \<Rightarrow> ipc_error + 'r" where
  "wrappedReply res =
     (case res of
        Inl err \<Rightarrow> Inl err
      | Inr (typed, rep) \<Rightarrow> if \<not> typed then Inl (UserError ''reply type mismatch'') else Inr rep)"

definition notificationClosure :: "(bool \<times> 'n) \<Rightarrow> 'n list \<Rightarrow> 'n list" where
  "notificationClosure raw seen = (if \<not> fst raw then seen else seen @ [snd raw])"

subsection \<open>One answer\<close>

lemma callResponder_answered: "answered r \<Longrightarrow> fold callResponder cs r = r"
proof (induction cs)
  case (Cons c cs)
  then show ?case by (cases c) (simp_all add: resp_Reply_def resp_Fail_def)
qed simp

lemma calls_first:
  "fold callResponder cs (newResponder tok) =
     (case cs of [] \<Rightarrow> newResponder tok
      | c # _ \<Rightarrow> \<lparr>rtoken = tok, answered = True, delivered = [(tok, answerOf c)]\<rparr>)"
proof (cases cs)
  case (Cons c cs')
  have "callResponder c (newResponder tok) = \<lparr>rtoken = tok, answered = True, delivered = [(tok, answerOf c)]\<rparr>"
    by (cases c) (simp_all add: resp_Reply_def resp_Fail_def newResponder_def)
  then show ?thesis using Cons by (simp add: callResponder_answered)
qed simp

lemma closure_calls:
  "snd (requestClosure True inline panicked tok) =
     fold callResponder (inline @ (if panicked then [CallFail ErrHandlerPanicked] else [])) (newResponder tok)"
  by (simp add: requestClosure_def Let_def)

text \<open>The requester hears of a request exactly the first thing the handler says: of the calls before it
  returns, the failure the framework reports if it panics, and the calls made later on a responder it
  kept; nothing if there is none.\<close>

theorem first_answer_wins:
  "delivered (fold callResponder later (snd (requestClosure True inline panicked tok))) =
     (case inline @ (if panicked then [CallFail ErrHandlerPanicked] else []) @ later of
        [] \<Rightarrow> []
      | c # _ \<Rightarrow> [(tok, answerOf c)])"
proof -
  have "fold callResponder later (snd (requestClosure True inline panicked tok)) =
      fold callResponder (inline @ (if panicked then [CallFail ErrHandlerPanicked] else []) @ later) (newResponder tok)"
    by (simp add: closure_calls)
  also have "delivered \<dots> = (case inline @ (if panicked then [CallFail ErrHandlerPanicked] else []) @ later of
      [] \<Rightarrow> [] | c # _ \<Rightarrow> [(tok, answerOf c)])"
    unfolding calls_first by (simp add: newResponder_def split: list.splits)
  finally show ?thesis .
qed

text \<open>The handler of the envelope's model, whose answer is a function, is this closure: same answers, in
  the same order, and the same panics handed to the supervisor.\<close>

theorem request_handler_refined:
  assumes "answers u q tok = (case inline of [] \<Rightarrow> None | c # _ \<Rightarrow> Some (answerOf c))"
    and "panics u (RequestHandler q tok) = panicked"
  shows "replied (runRequestHandler u q tok p) = replied p @ delivered (snd (requestClosure True inline panicked tok)) \<and>
    exitLoop (runRequestHandler u q tok p) = (exitLoop p \<or> fst (requestClosure True inline panicked tok) \<and> supervised p)"
proof -
  have "fst (requestClosure True inline panicked tok) = panicked" by (simp add: requestClosure_def Let_def)
  moreover have "delivered (snd (requestClosure True inline panicked tok)) =
      (case inline of [] \<Rightarrow> (if panicked then [(tok, Inl (ErrResponderFailed ErrHandlerPanicked))] else [])
       | c # _ \<Rightarrow> [(tok, answerOf c)])"
    unfolding closure_calls calls_first by (cases inline) (simp_all add: newResponder_def)
  ultimately show ?thesis using assms
    by (cases inline) (auto simp: runRequestHandler_def handPanicToSupervisor_def signalPanic_def Let_def)
qed

theorem request_handler_refined_witness:
  defines "u \<equiv> \<lparr>panics = (\<lambda>c. True), answers = (\<lambda>q t. Some (Inr True)), listens = (\<lambda>e. False)\<rparr> :: (unit, unit, unit, bool) user_code"
  defines "p \<equiv> newProtoProtocolMailbox \<lparr>Capacity = 1, Overflow = OverflowBlock\<rparr> True"
  shows "replied (runRequestHandler u () (ReplyToken 1 2) p) = [(ReplyToken 1 2, Inr True)] \<and>
    exitLoop (runRequestHandler u () (ReplyToken 1 2) p)"
proof -
  have a: "answers u () (ReplyToken 1 2) = (case [CallReply True] of [] \<Rightarrow> None | c # _ \<Rightarrow> Some (answerOf c))"
      "panics u (RequestHandler () (ReplyToken 1 2)) = True"
    by (simp_all add: u_def)
  from request_handler_refined [OF a, of p] show ?thesis
    by (simp add: p_def newProtoProtocolMailbox_def requestClosure_def newResponder_def resp_Reply_def resp_Fail_def Let_def)
qed

lemma requestTimeout_positive: "0 < requestTimeout timeout rtDefault"
  by (simp add: requestTimeout_def defaultRequestTimeout_def)

end
