(* ===== verification/Gossip.thy ===== *)
theory Gossip
  imports Membership
begin

text \<open>
  The gossip example, \<open>cmd/gossip\<close>: eager-push gossip (\<open>gossip/protocol.go\<close>) over a static membership
  protocol (\<open>membership/protocol.go\<close>), the simplest provider of the membership contract.

  \<^item> \<open>handled\<close> records the calls of \<open>onDeliver\<close> in order, each with the identifier of its message.
  \<^item> The identifier \<open>rand.Uint64\<close> draws, the payload a periodic tick supplies and the order in which a run
    ranges over the view map are arguments of the handlers.
  \<^item> Errors of \<open>Send\<close> and \<open>ConnectWithRetry\<close> are only logged.
\<close>

subsection \<open>Static membership\<close>

record staticMembers =
  contacts :: "Host list"
  sctx :: "(unit, unit, member_note, member_reply, unit) proto_ctx"
  sview :: "Host set"

definition sm_New :: "Host list \<Rightarrow> (Host \<Rightarrow> bool) \<Rightarrow> staticMembers" where
  "sm_New cs ce = \<lparr>contacts = cs, sctx = newCtx ce, sview = {}\<rparr>"

definition sm_Init :: "staticMembers \<Rightarrow> staticMembers" where
  "sm_Init p = p\<lparr>sctx := fold (\<lambda>c. emit (Connects c)) (contacts p) (sctx p)\<rparr>"

definition sm_OnSessionConnected :: "Host \<Rightarrow> staticMembers \<Rightarrow> staticMembers" where
  "sm_OnSessionConnected h p =
     (if h \<in> sview p then p
      else p\<lparr>sview := insert h (sview p), sctx := emit (Published (NeighborUp h)) (sctx p)\<rparr>)"

definition sm_OnSessionDisconnected :: "Host \<Rightarrow> staticMembers \<Rightarrow> staticMembers" where
  "sm_OnSessionDisconnected h p =
     (if h \<notin> sview p then p
      else p\<lparr>sview := sview p - {h}, sctx := emit (Published (NeighborDown h)) (sctx p)\<rparr>)"

definition sm_handleGetView :: "Host list \<Rightarrow> staticMembers \<Rightarrow> staticMembers" where
  "sm_handleGetView peers p = p\<lparr>sctx := emit (Replied (View peers)) (sctx p)\<rparr>"

text \<open>A list that is no listing of the view is no run of the loop over it.\<close>

datatype sm_event = SmUp Host | SmDown Host | SmGetView "Host list"

fun sm_step :: "sm_event \<Rightarrow> staticMembers \<Rightarrow> staticMembers" where
  "sm_step (SmUp h) p = sm_OnSessionConnected h p"
| "sm_step (SmDown h) p = sm_OnSessionDisconnected h p"
| "sm_step (SmGetView peers) p =
     (if distinct peers \<and> set peers = sview p then sm_handleGetView peers p else p)"

subsection \<open>Gossip\<close>

datatype gossip_msg = GossipMsg (gossipID: uint64) (gossipPayload: bytes)

datatype gossip_ipc = AskView | BroadcastAck

record gossip =
  gctx :: "(unit, gossip_msg, unit, gossip_ipc, unit) proto_ctx"
  seen :: "uint64 set"
  gview :: "Host list"
  periodicInterval :: duration
  hasPayload :: bool
  handled :: "(uint64 \<times> bytes) list"

definition gossip_New :: "(Host \<Rightarrow> bool) \<Rightarrow> gossip" where
  "gossip_New ce =
     \<lparr>gctx = newCtx ce, seen = {}, gview = [], periodicInterval = 0, hasPayload = False, handled = []\<rparr>"

definition EnablePeriodic :: "duration \<Rightarrow> bool \<Rightarrow> gossip \<Rightarrow> gossip" where
  "EnablePeriodic interval payload p =
     (if interval \<le> 0 \<or> \<not> payload then p else p\<lparr>periodicInterval := interval, hasPayload := payload\<rparr>)"

definition periodicEnabled :: "gossip \<Rightarrow> bool" where
  "periodicEnabled p \<longleftrightarrow> periodicInterval p > 0 \<and> hasPayload p"

definition gossip_Init :: "gossip \<Rightarrow> gossip" where
  "gossip_Init p =
     (let p = p\<lparr>gctx := emit (Requested AskView) (gctx p)\<rparr>
      in if periodicEnabled p then p\<lparr>gctx := snd (every (periodicInterval p) () (gctx p))\<rparr> else p)"

fun gossip_fanout :: "gossip_msg \<Rightarrow> Host list \<Rightarrow> gossip \<Rightarrow> gossip" where
  "gossip_fanout msg [] p = p"
| "gossip_fanout msg (peer # peers) p =
     gossip_fanout msg peers (p\<lparr>gctx := emit (Sent msg peer) (gctx p)\<rparr>)"

definition onDeliver :: "uint64 \<Rightarrow> bytes \<Rightarrow> gossip \<Rightarrow> gossip" where
  "onDeliver i payload p = p\<lparr>handled := handled p @ [(i, payload)]\<rparr>"

definition excluding :: "Host list \<Rightarrow> Host \<Rightarrow> Host list" where
  "excluding peers exclude = filter (\<lambda>h. h \<noteq> exclude) peers"

definition disseminate :: "uint64 \<Rightarrow> bytes \<Rightarrow> gossip \<Rightarrow> gossip" where
  "disseminate i payload p =
     (let p = onDeliver i payload (p\<lparr>seen := insert i (seen p)\<rparr>)
      in gossip_fanout (GossipMsg i payload) (gview p) p)"

definition gossip_handleBroadcast :: "uint64 \<Rightarrow> bytes \<Rightarrow> gossip \<Rightarrow> gossip" where
  "gossip_handleBroadcast i payload p =
     (let p = disseminate i payload p in p\<lparr>gctx := emit (Replied BroadcastAck) (gctx p)\<rparr>)"

definition handlePeriodicTick :: "uint64 \<Rightarrow> bytes \<Rightarrow> gossip \<Rightarrow> gossip" where
  "handlePeriodicTick i payload p = disseminate i payload p"

definition gossip_handleInbound :: "gossip_msg \<Rightarrow> Host \<Rightarrow> gossip \<Rightarrow> gossip" where
  "gossip_handleInbound msg sender p =
     (if gossipID msg \<in> seen p then p
      else let p = onDeliver (gossipID msg) (gossipPayload msg) (p\<lparr>seen := insert (gossipID msg) (seen p)\<rparr>)
           in gossip_fanout msg (excluding (gview p) sender) p)"

text \<open>\<open>None\<close> is an error.\<close>

definition handleInitialView :: "Host list option \<Rightarrow> gossip \<Rightarrow> gossip" where
  "handleInitialView rep p = (case rep of None \<Rightarrow> p | Some hs \<Rightarrow> p\<lparr>gview := hs\<rparr>)"

definition gossip_onNeighborUp :: "Host \<Rightarrow> gossip \<Rightarrow> gossip" where
  "gossip_onNeighborUp peer p = (if peer \<in> set (gview p) then p else p\<lparr>gview := gview p @ [peer]\<rparr>)"

definition gossip_onNeighborDown :: "Host \<Rightarrow> gossip \<Rightarrow> gossip" where
  "gossip_onNeighborDown peer p = p\<lparr>gview := filter (\<lambda>h. h \<noteq> peer) (gview p)\<rparr>"

datatype gossip_event =
    GInbound gossip_msg Host
  | GBroadcast uint64 bytes
  | GTick uint64 bytes
  | GView "Host list option"
  | GUp Host
  | GDown Host

fun gossip_step :: "gossip_event \<Rightarrow> gossip \<Rightarrow> gossip" where
  "gossip_step (GInbound m h) p = gossip_handleInbound m h p"
| "gossip_step (GBroadcast i b) p = gossip_handleBroadcast i b p"
| "gossip_step (GTick i b) p = handlePeriodicTick i b p"
| "gossip_step (GView rep) p = handleInitialView rep p"
| "gossip_step (GUp h) p = gossip_onNeighborUp h p"
| "gossip_step (GDown h) p = gossip_onNeighborDown h p"

subsection \<open>A group of nodes\<close>

text \<open>Nodes whose views do not change, and a network that loses nothing and may reorder: what a handler
  sends goes on the wire, and \<open>Deliver k\<close> hands the message at place \<open>k\<close> to its receiver.\<close>

record gossips =
  gnodes :: "Host \<Rightarrow> gossip"
  gwire :: "(Host \<times> Host \<times> gossip_msg) list"

fun sentTo :: "Host \<Rightarrow> ('m, 'n, 'r, 'w) effect \<Rightarrow> (Host \<times> Host \<times> 'm) list" where
  "sentTo h (Sent m q) = [(h, q, m)]"
| "sentTo h _ = []"

definition at_node :: "Host \<Rightarrow> gossip_event \<Rightarrow> gossips \<Rightarrow> gossips" where
  "at_node h e c =
     (let p = gnodes c h; p' = gossip_step e p
      in c\<lparr>gnodes := (gnodes c)(h := p'),
           gwire := gwire c @ concat (map (sentTo h) (drop (length (out (gctx p))) (out (gctx p'))))\<rparr>)"

datatype gossip_act = Originate Host uint64 bytes | GDeliver nat

fun gossips_step :: "gossip_act \<Rightarrow> gossips \<Rightarrow> gossips" where
  "gossips_step (Originate h i b) c = at_node h (GBroadcast i b) c"
| "gossips_step (GDeliver k) c =
     (if k < length (gwire c) then
        case gwire c ! k of (s, h, m) \<Rightarrow>
          at_node h (GInbound m s) (c\<lparr>gwire := take k (gwire c) @ drop (Suc k) (gwire c)\<rparr>)
      else c)"

definition gossips_start :: "(Host \<Rightarrow> Host list) \<Rightarrow> gossips" where
  "gossips_start V = \<lparr>gnodes = (\<lambda>h. (gossip_New (\<lambda>_. False))\<lparr>gview := V h\<rparr>), gwire = []\<rparr>"

end
