(* ===== verification/Gossip_Safety.thy ===== *)
theory Gossip_Safety
  imports Gossip HyParView_Safety
begin

text \<open>
  The static membership protocol provides the contract of \<open>Membership\<close>, and a gossip instance over any
  provider holds exactly the provider's view; so the two providers, the static one and HyParView, are
  interchangeable below it.  Then what gossip itself does: a broadcast reaches, exactly once and
  unchanged, every node that can be reached along the views.
\<close>

subsection \<open>The contract\<close>

definition sm_ok :: "staticMembers \<Rightarrow> bool" where
  "sm_ok p \<longleftrightarrow> sview p = heard (out (sctx p)) \<and> all_news (out (sctx p)) {}"

lemma out_emit: "out (emit e c) = out c @ [e]"
  by (simp add: emit_def)

lemma sm_ok_step: "sm_ok p \<Longrightarrow> sm_ok (sm_step e p)"
  by (cases e)
    (auto simp: sm_ok_def sm_OnSessionConnected_def sm_OnSessionDisconnected_def sm_handleGetView_def out_emit
      heard_def [symmetric])

lemma sm_ok_connects:
  "heard (out c) = {} \<Longrightarrow> all_news (out c) {} \<Longrightarrow>
     heard (out (fold (\<lambda>h. emit (Connects h)) cs c)) = {} \<and> all_news (out (fold (\<lambda>h. emit (Connects h)) cs c)) {}"
  by (induction cs arbitrary: c) (simp_all add: out_emit)

lemma sm_ok_Init: "sm_ok (sm_Init (sm_New cs ce))"
  using sm_ok_connects [of "newCtx ce :: (unit, unit, member_note, member_reply, unit) proto_ctx" cs] by (simp add: sm_ok_def sm_Init_def sm_New_def newCtx_def heard_def)

interpretation sm: membership "sm_Init (sm_New cs ce)" sm_step sview "\<lambda>p. out (sctx p)" sm_ok for cs ce
  by unfold_locales (simp_all add: sm_ok_Init sm_ok_step, simp_all add: sm_ok_def)

subsection \<open>The view of a gossip instance\<close>

fun gfeed :: "('m, member_note, member_reply, 'w) effect \<Rightarrow> gossip_event list" where
  "gfeed (Published (NeighborUp h)) = [GUp h]"
| "gfeed (Published (NeighborDown h)) = [GDown h]"
| "gfeed (Replied (View hs)) = [GView (Some hs)]"
| "gfeed _ = []"

fun gmember :: "gossip_event \<Rightarrow> bool" where
  "gmember (GUp h) \<longleftrightarrow> True"
| "gmember (GDown h) \<longleftrightarrow> True"
| "gmember (GView rep) \<longleftrightarrow> True"
| "gmember _ \<longleftrightarrow> False"

lemma gossip_fanout_keeps:
  "gview (gossip_fanout m hs p) = gview p" "seen (gossip_fanout m hs p) = seen p"
  "handled (gossip_fanout m hs p) = handled p"
  "out (gctx (gossip_fanout m hs p)) = out (gctx p) @ map (Sent m) hs"
  by (induction hs arbitrary: p) (simp_all add: out_emit)

lemma gview_own: "\<not> gmember e \<Longrightarrow> gview (gossip_step e p) = gview p"
  by (cases e) (simp_all add: gossip_handleInbound_def gossip_handleBroadcast_def handlePeriodicTick_def
      disseminate_def onDeliver_def gossip_fanout_keeps Let_def)

lemma gview_cong: "gview p = gview q \<Longrightarrow> gmember e \<Longrightarrow> gview (gossip_step e p) = gview (gossip_step e q)"
  by (cases e) (simp_all add: handleInitialView_def gossip_onNeighborUp_def gossip_onNeighborDown_def split: option.splits)

lemma gview_filter: "gview p = gview q \<Longrightarrow> gview (fold gossip_step evs p) = gview (fold gossip_step (filter gmember evs) q)"
proof (induction evs arbitrary: p q)
  case (Cons e evs)
  then show ?case using gview_own [of e p] gview_cong [of p q e] by (cases "gmember e") simp_all
qed simp

lemma gview_feed:
  assumes "set (gview p) = N" "news e N"
  shows "set (gview (fold gossip_step (gfeed e) p)) = hear e N"
  using assms
  by (cases "(e, N)" rule: hear.cases)
    (auto simp: handleInitialView_def gossip_onNeighborUp_def gossip_onNeighborDown_def)

lemma gview_feeds:
  "set (gview p) = N \<Longrightarrow> all_news es N \<Longrightarrow> set (gview (fold gossip_step (concat (map gfeed es)) p)) = fold hear es N"
proof (induction es arbitrary: p N)
  case (Cons e es)
  then show ?case using gview_feed [of p N e] by simp
qed simp

context membership
begin

lemma gossip_view:
  assumes "gview p = []" "filter gmember evs = concat (map gfeed (said (fold step es start)))"
  shows "set (gview (fold gossip_step evs p)) = view (fold step es start)"
  using gview_filter [of p p evs] gview_feeds [of p "{}" "said (fold step es start)"] assms
    subscriber_news [of es] subscriber_view [of es]
  by (simp add: heard_def)

end

text \<open>The same gossip protocol runs over either provider: whatever happened to the static membership
  protocol or to HyParView, a gossip instance that has handled what it was told, in order and between
  messages, broadcasts and ticks of its own, sends to exactly the peers of that provider's view.\<close>

theorem gossip_over_either:
  assumes "filter gmember evs = concat (map gfeed (out (sctx (fold sm_step sevs (sm_Init (sm_New cs sce))))))"
    and "filter gmember evs' = concat (map gfeed (out (ctx (hv_run pcg me hc hce hevs))))"
  shows "set (gview (fold gossip_step evs (gossip_New ce))) = sview (fold sm_step sevs (sm_Init (sm_New cs sce))) \<and>
    set (gview (fold gossip_step evs' (gossip_New ce))) = active (hv_run pcg me hc hce hevs)"
  using sm.gossip_view [OF _ assms(1), of "gossip_New ce"] hv.gossip_view [OF _ assms(2) [unfolded hv_run_def], of "gossip_New ce"]
  by (simp add: gossip_New_def hv_run_def)

theorem gossip_over_either_witness:
  defines "a \<equiv> Host 1 ''a''" and "b \<equiv> Host 2 ''b''"
  shows "set (gview (fold gossip_step [GUp b, GView (Some [b]), GBroadcast 5 [], GDown b] (gossip_New (\<lambda>_. False)))) = {} \<and>
    set (gview (fold gossip_step [GUp b] (gossip_New (\<lambda>_. False)))) = {b}"
proof -
  let ?sm = "fold sm_step [SmUp b, SmGetView [b], SmDown b] (sm_Init (sm_New [b] (\<lambda>_. False)))"
  let ?hv = "hv_run (\<lambda>_ _. sconst 0) a hxConf (\<lambda>_. False) [HvMsg Join b]"
  have ab: "b \<noteq> a" by (simp add: a_def b_def)
  have s: "out (sctx ?sm) = [Connects b, Published (NeighborUp b), Replied (View [b]), Published (NeighborDown b)]" "sview ?sm = {}"
    by (simp_all add: sm_Init_def sm_New_def sm_OnSessionConnected_def sm_handleGetView_def sm_OnSessionDisconnected_def
        newCtx_def emit_def)
  have h: "concat (map gfeed (out (ctx ?hv))) = [GUp b]" "active ?hv = {b}"
    using ab by (simp_all add: hv_run_def hv_Init_def hv_New_def hxConf_def hv_fillDefaults_def joinContacts_def
        onJoin_def addActive_def hv_publish_def every_def emit_def newCtx_def intOr_def hs_sorted_def
        Let_def split_beta)
  have "filter gmember [GUp b, GView (Some [b]), GBroadcast 5 [], GDown b] = concat (map gfeed (out (sctx ?sm)))"
       "filter gmember [GUp b] = concat (map gfeed (out (ctx ?hv)))"
    unfolding s h by simp_all
  from gossip_over_either [OF this, of "\<lambda>_. False"] s(2) h(2) show ?thesis
    by (simp add: handleInitialView_def gossip_onNeighborUp_def gossip_onNeighborDown_def)
qed

subsection \<open>A broadcast floods the overlay\<close>

text \<open>\<open>flood_ok V B N w\<close>: with the broadcasts \<open>B\<close> made so far, messages in flight are theirs and come from
  nodes that have them; what a node has, each of its peers has or is about to receive; and a node
  handled each broadcast it has once, unchanged.\<close>

definition flood_ok ::
  "(Host \<Rightarrow> Host list) \<Rightarrow> (uint64 \<times> bytes) list \<Rightarrow> (Host \<Rightarrow> gossip) \<Rightarrow> (Host \<times> Host \<times> gossip_msg) list \<Rightarrow> bool" where
  "flood_ok V B N w \<longleftrightarrow>
     (\<forall>s q m. (s, q, m) \<in> set w \<longrightarrow> gossipID m \<in> seen (N s) \<and> (gossipID m, gossipPayload m) \<in> set B) \<and>
     (\<forall>h q i. i \<in> seen (N h) \<longrightarrow> q \<in> set (V h) \<longrightarrow>
        i \<in> seen (N q) \<or> (\<exists>s m. (s, q, m) \<in> set w \<and> gossipID m = i)) \<and>
     (\<forall>h. gview (N h) = V h \<and> fst ` set (handled (N h)) = seen (N h) \<and> set (handled (N h)) \<subseteq> set B \<and>
        distinct (map fst (handled (N h))))"

lemma floodD:
  assumes "flood_ok V B N w"
  shows "(s, q, m) \<in> set w \<Longrightarrow> gossipID m \<in> seen (N s) \<and> (gossipID m, gossipPayload m) \<in> set B"
    "i \<in> seen (N h) \<Longrightarrow> q \<in> set (V h) \<Longrightarrow> i \<in> seen (N q) \<or> (\<exists>s m. (s, q, m) \<in> set w \<and> gossipID m = i)"
    "gview (N h) = V h" "fst ` set (handled (N h)) = seen (N h)" "set (handled (N h)) \<subseteq> set B"
    "distinct (map fst (handled (N h)))"
  using assms unfolding flood_ok_def by blast+

text \<open>A node takes a broadcast it has not seen; \<open>xs\<close> are messages that bring it and leave the wire.\<close>

lemma flood_accept:
  assumes f: "flood_ok V B N (xs @ w)" and x: "\<And>s q m. (s, q, m) \<in> set xs \<Longrightarrow> q = h \<and> gossipID m = i"
    and i: "i \<notin> seen (N h)" "(i, b) \<in> set B"
    and p: "seen p = insert i (seen (N h))" "handled p = handled (N h) @ [(i, b)]" "gview p = V h"
    and qs: "\<forall>q\<in>set (V h). q \<in> set qs \<or> i \<in> seen (N q)"
  shows "flood_ok V B (N(h := p)) (w @ map (\<lambda>q. (h, q, GossipMsg i b)) qs)"
proof -
  let ?w = "w @ map (\<lambda>q. (h, q, GossipMsg i b)) qs"
  let ?N = "N(h := p)"
  have grows: "seen (N n) \<subseteq> seen (?N n)" for n using p(1) by auto
  have "gossipID m \<in> seen (?N s) \<and> (gossipID m, gossipPayload m) \<in> set B" if "(s, q, m) \<in> set ?w" for s q m
  proof (cases "(s, q, m) \<in> set w")
    case True
    then have "(s, q, m) \<in> set (xs @ w)" by simp
    from floodD(1) [OF f this] show ?thesis using grows [of s] by blast
  next
    case False
    then have "s = h" "m = GossipMsg i b" using that by auto
    then show ?thesis using i(2) p(1) by simp
  qed
  moreover have "j \<in> seen (?N q) \<or> (\<exists>s m. (s, q, m) \<in> set ?w \<and> gossipID m = j)"
    if "j \<in> seen (?N n)" "q \<in> set (V n)" for n q j
  proof (cases "j \<in> seen (N n)")
    case True
    from floodD(2) [OF f this that(2)] show ?thesis
    proof (elim disjE exE conjE)
      assume "j \<in> seen (N q)"
      then show ?thesis using grows [of q] by blast
    next
      fix s m assume m: "(s, q, m) \<in> set (xs @ w)" "gossipID m = j"
      show ?thesis
      proof (cases "(s, q, m) \<in> set w")
        case True
        then show ?thesis using m(2) by auto
      next
        case False
        then have "q = h" "j = i" using m x [of s q m] by auto
        then show ?thesis using p(1) by simp
      qed
    qed
  next
    case False
    then have n: "n = h" "j = i" using that(1) p(1) by (auto split: if_splits)
    show ?thesis
    proof (cases "q \<in> set qs")
      case True
      then have "(h, q, GossipMsg i b) \<in> set ?w" by simp
      then show ?thesis using n(2) by (metis gossip_msg.sel(1))
    next
      case False
      then have "i \<in> seen (N q)" using qs that(2) n(1) by blast
      then show ?thesis using grows [of q] n(2) by blast
    qed
  qed
  moreover have "gview (?N n) = V n \<and> fst ` set (handled (?N n)) = seen (?N n) \<and> set (handled (?N n)) \<subseteq> set B \<and>
      distinct (map fst (handled (?N n)))" for n
    using floodD(3-6) [OF f, of n] p i by (cases "n = h") auto
  ultimately show ?thesis unfolding flood_ok_def by blast
qed

lemma flood_drop:
  assumes f: "flood_ok V B N (x # w)" and x: "gossipID (snd (snd x)) \<in> seen (N (fst (snd x)))"
  shows "flood_ok V B N w"
proof -
  have "i \<in> seen (N q) \<or> (\<exists>s m. (s, q, m) \<in> set w \<and> gossipID m = i)" if "i \<in> seen (N h)" "q \<in> set (V h)" for h q i
    using floodD(2) [OF f that] x by auto
  moreover have "gossipID m \<in> seen (N s) \<and> (gossipID m, gossipPayload m) \<in> set B" if "(s, q, m) \<in> set w" for s q m
    using floodD(1) [OF f, of s q m] that by simp
  ultimately show ?thesis using floodD(3-6) [OF f] unfolding flood_ok_def by blast
qed

lemma flood_perm: "set w = set w' \<Longrightarrow> flood_ok V B N w = flood_ok V B N w'"
  by (simp add: flood_ok_def)

lemma flood_more: "flood_ok V B N w \<Longrightarrow> flood_ok V (B @ [x]) N w"
  by (auto simp: flood_ok_def)

lemma sentTo_all: "concat (map (sentTo h) (map (Sent m) qs)) = map (\<lambda>q. (h, q, m)) qs"
  by (induction qs) simp_all

fun originated :: "gossip_act list \<Rightarrow> (uint64 \<times> bytes) list" where
  "originated [] = []"
| "originated (Originate h i b # acts) = (i, b) # originated acts"
| "originated (GDeliver k # acts) = originated acts"

lemma flood_originate:
  assumes f: "flood_ok V B (gnodes c) (gwire c)" and i: "i \<notin> fst ` set B"
  shows "flood_ok V (B @ [(i, b)]) (gnodes (gossips_step (Originate h i b) c)) (gwire (gossips_step (Originate h i b) c))"
proof -
  let ?p = "gossip_handleBroadcast i b (gnodes c h)"
  have new: "i \<notin> seen (gnodes c h)" using floodD(4,5) [OF f, of h] i by blast
  have p: "seen ?p = insert i (seen (gnodes c h))" "handled ?p = handled (gnodes c h) @ [(i, b)]" "gview ?p = V h"
      "out (gctx ?p) = out (gctx (gnodes c h)) @ map (Sent (GossipMsg i b)) (V h) @ [Replied BroadcastAck]"
    using floodD(3) [OF f, of h]
    by (simp_all add: gossip_handleBroadcast_def disseminate_def onDeliver_def gossip_fanout_keeps out_emit Let_def)
  have "flood_ok V (B @ [(i, b)]) (gnodes c) ([] @ gwire c)" using flood_more [OF f] by simp
  from flood_accept [OF this _ new _ p(1-3), of "V h"]
  have "flood_ok V (B @ [(i, b)]) ((gnodes c)(h := ?p)) (gwire c @ map (\<lambda>q. (h, q, GossipMsg i b)) (V h))" by simp
  then show ?thesis by (simp add: at_node_def Let_def p(4) sentTo_all del: map_map)
qed

lemma flood_deliver:
  assumes f: "flood_ok V B (gnodes c) (gwire c)"
  shows "flood_ok V B (gnodes (gossips_step (GDeliver k) c)) (gwire (gossips_step (GDeliver k) c))"
proof (cases "k < length (gwire c)")
  case False
  then show ?thesis using f by simp
next
  case True
  obtain s h m where m: "gwire c ! k = (s, h, m)" by (cases "gwire c ! k")
  let ?w = "take k (gwire c) @ drop (Suc k) (gwire c)"
  let ?p = "gossip_handleInbound m s (gnodes c h)"
  have "set (gwire c) = set ([(s, h, m)] @ ?w)"
    by (subst id_take_nth_drop [OF True]) (auto simp: m)
  then have f': "flood_ok V B (gnodes c) ([(s, h, m)] @ ?w)" using f flood_perm by blast
  have c': "gossips_step (GDeliver k) c = at_node h (GInbound m s) (c\<lparr>gwire := ?w\<rparr>)" using True m by simp
  show ?thesis
  proof (cases "gossipID m \<in> seen (gnodes c h)")
    case True
    then have "?p = gnodes c h" by (simp add: gossip_handleInbound_def)
    then show ?thesis using flood_drop [of V B "gnodes c" "(s, h, m)" ?w] f' True
      unfolding c' by (simp add: at_node_def Let_def)
  next
    case new: False
    have src: "gossipID m \<in> seen (gnodes c s)" "(gossipID m, gossipPayload m) \<in> set B"
      using floodD(1) [OF f', of s h m] by simp_all
    have p: "seen ?p = insert (gossipID m) (seen (gnodes c h))"
        "handled ?p = handled (gnodes c h) @ [(gossipID m, gossipPayload m)]" "gview ?p = V h"
        "out (gctx ?p) = out (gctx (gnodes c h)) @ map (Sent m) (excluding (V h) s)"
      using new floodD(3) [OF f, of h]
      by (simp_all add: gossip_handleInbound_def onDeliver_def gossip_fanout_keeps Let_def)
    have "flood_ok V B ((gnodes c)(h := ?p)) (?w @ map (\<lambda>q. (h, q, GossipMsg (gossipID m) (gossipPayload m))) (excluding (V h) s))"
      by (rule flood_accept [OF f' _ new src(2) p(1-3)]) (use src(1) in \<open>auto simp: excluding_def\<close>)
    then show ?thesis unfolding c' by (simp add: at_node_def Let_def p(4) sentTo_all del: map_map)
  qed
qed

lemma flood_run:
  assumes "flood_ok V B (gnodes c) (gwire c)" "distinct (map fst (B @ originated acts))"
  shows "flood_ok V (B @ originated acts) (gnodes (fold gossips_step acts c)) (gwire (fold gossips_step acts c))"
  using assms
proof (induction acts arbitrary: B c)
  case (Cons a acts)
  show ?case
  proof (cases a)
    case (Originate h i b)
    then have "i \<notin> fst ` set B" "distinct (map fst ((B @ [(i, b)]) @ originated acts))" using Cons.prems(2) by auto
    from Cons.IH [OF flood_originate [where h = h and b = b, OF Cons.prems(1) this(1)] this(2)] show ?thesis using Originate by simp
  next
    case (GDeliver k)
    from Cons.IH [OF flood_deliver [OF Cons.prems(1), of k]] Cons.prems(2) show ?thesis using GDeliver by simp
  qed
qed simp

lemma flood_start: "flood_ok V [] (gnodes (gossips_start V)) (gwire (gossips_start V))"
  by (simp add: flood_ok_def gossips_start_def gossip_New_def)

lemma seen_grows: "seen (gnodes c n) \<subseteq> seen (gnodes (gossips_step a c) n)"
  by (cases a)
    (auto simp: at_node_def gossip_handleBroadcast_def disseminate_def gossip_handleInbound_def onDeliver_def
      gossip_fanout_keeps Let_def split: prod.splits)

lemma originator_sees:
  assumes "Originate h i b \<in> set acts"
  shows "i \<in> seen (gnodes (fold gossips_step acts c) h) \<and> (i, b) \<in> set (originated acts)"
proof -
  have later: "seen (gnodes c n) \<subseteq> seen (gnodes (fold gossips_step acts c) n)" for acts c n
  proof (induction acts arbitrary: c)
    case (Cons a acts)
    then show ?case using seen_grows [of c n a] by fastforce
  qed simp
  from assms show ?thesis
  proof (induction acts arbitrary: c)
    case (Cons a acts)
    show ?case
    proof (cases "a = Originate h i b")
      case True
      have "i \<in> seen (gnodes (gossips_step (Originate h i b) c) h)"
        by (simp add: at_node_def gossip_handleBroadcast_def disseminate_def onDeliver_def gossip_fanout_keeps Let_def)
      then show ?thesis using True later by auto
    next
      case False
      then have "Originate h i b \<in> set acts" using Cons.prems by simp
      from Cons.IH [OF this, of "gossips_step a c"] show ?thesis by (cases a) simp_all
    qed
  qed simp
qed

text \<open>C28. With views that do not change and a network that loses nothing, however it reorders: once nothing is
  in flight, each broadcast has been handled exactly once, with the payload it was made with, by every
  node that can be reached from its origin along the views.\<close>

theorem gossip_floods:
  assumes "distinct (map fst (originated acts))"
    and "gwire (fold gossips_step acts (gossips_start V)) = []"
    and "Originate h i b \<in> set acts" "(h, g) \<in> {(n, q). q \<in> set (V n)}\<^sup>*"
  shows "filter (\<lambda>d. fst d = i) (handled (gnodes (fold gossips_step acts (gossips_start V)) g)) = [(i, b)]"
proof -
  let ?c = "fold gossips_step acts (gossips_start V)"
  let ?N = "gnodes ?c"
  have f: "flood_ok V (originated acts) ?N []"
    using flood_run [OF flood_start [of V], of acts] assms(1,2) by simp
  have o: "i \<in> seen (?N h)" "(i, b) \<in> set (originated acts)" using originator_sees [OF assms(3)] by blast+
  have "i \<in> seen (?N g)"
    using assms(4) by (induction rule: rtrancl_induct) (use o(1) floodD(2) [OF f] in auto)
  then obtain b' where b': "(i, b') \<in> set (handled (?N g))" using floodD(4) [OF f, of g] by force
  then have "(i, b') \<in> set (originated acts)" using floodD(5) [OF f, of g] by blast
  with o(2) assms(1) have "b' = b" by (metis eq_key_imp_eq_value)
  moreover have "filter (\<lambda>d. fst d = i) ds = [(i, b')]" if "(i, b') \<in> set ds" "distinct (map fst ds)" for ds :: "(uint64 \<times> bytes) list"
    using that
  proof (induction ds)
    case (Cons d ds)
    have "filter (\<lambda>d. fst d = fst e) ds = []" if "fst e \<notin> fst ` set ds" for e :: "uint64 \<times> bytes"
      using that by (auto simp: filter_empty_conv image_iff)
    then show ?case using Cons by (cases "d = (i, b')") force+
  qed simp
  ultimately show ?thesis using b' floodD(6) [OF f, of g] by blast
qed

theorem gossip_floods_witness:
  defines "a \<equiv> Host 1 ''a''" and "b \<equiv> Host 2 ''b''" and "c \<equiv> Host 3 ''c''"
  defines "V \<equiv> \<lambda>h. if h = a then [b] else if h = b then [a, c] else if h = c then [b] else []"
  shows "filter (\<lambda>d. fst d = 7)
    (handled (gnodes (fold gossips_step [Originate a 7 [1], GDeliver 0, GDeliver 0] (gossips_start V)) c)) = [(7, [1])]"
proof -
  have ne: "a \<noteq> b" "a \<noteq> c" "b \<noteq> c" by (simp_all add: a_def b_def c_def)
  have "(a, c) \<in> {(n, q). q \<in> set (V n)}\<^sup>*"
    by (rule converse_rtrancl_into_rtrancl [of _ b], use ne in \<open>simp add: V_def\<close>, rule r_into_rtrancl)
      (use ne in \<open>simp add: V_def\<close>)
  moreover have "gwire (fold gossips_step [Originate a 7 [1], GDeliver 0, GDeliver 0] (gossips_start V)) = []"
    using ne by (simp add: at_node_def gossips_start_def gossip_New_def gossip_handleBroadcast_def disseminate_def
        gossip_handleInbound_def onDeliver_def excluding_def emit_def newCtx_def V_def Let_def)
  ultimately show ?thesis
    using gossip_floods [of "[Originate a 7 [1], GDeliver 0, GDeliver 0]" V a 7 "[1]" c] by simp
qed

end
