(* ===== verification/Fake_Clock.thy ===== *)
theory Fake_Clock
  imports Prelude "HOL-Library.Product_Lexorder"
begin

text \<open>
  \<open>pkg/prototest/fakeclock.go\<close>: the virtual clock.  Its state is a record that the simulator
  extends, so that a callback, which may arm and stop timers and touch anything else, is a function
  on the whole state.  A time is the number of nanoseconds since the epoch of the simulation.  An
  entry is stopped exactly when it has left the list, so the flag \<open>stopped\<close> is not a field.  The
  loops of \<open>Advance\<close> and \<open>fireDue\<close> end only when the callbacks stop arming what is already due:
  \<open>None\<close> is the loop that does not end.
\<close>

subsection \<open>The clock\<close>

datatype 'f entry = Entry (deadline: int) (eseq: uint64) (efn: 'f)

record 'f clock =
  now :: int
  cseq :: uint64
  entries :: "'f entry list"

definition NewFakeClock :: "int \<Rightarrow> 'f clock" where
  "NewFakeClock t = \<lparr>now = t, cseq = 0, entries = []\<rparr>"

definition nextSeq :: "('f, 'm) clock_scheme \<Rightarrow> uint64 \<times> ('f, 'm) clock_scheme" where
  "nextSeq c = (let c = c\<lparr>cseq := cseq c + 1\<rparr> in (cseq c, c))"

text \<open>The handle of a timer is the number of its entry.\<close>

definition AfterFunc :: "duration \<Rightarrow> 'f \<Rightarrow> ('f, 'm) clock_scheme \<Rightarrow> uint64 \<times> ('f, 'm) clock_scheme" where
  "AfterFunc d f c = (let (i, c) = nextSeq c in (i, c\<lparr>entries := entries c @ [Entry (now c + d) i f]\<rparr>))"

definition removeLocked :: "'f entry \<Rightarrow> ('f, 'm) clock_scheme \<Rightarrow> ('f, 'm) clock_scheme" where
  "removeLocked e c = c\<lparr>entries := remove1 e (entries c)\<rparr>"

definition clock_stop :: "uint64 \<Rightarrow> ('f, 'm) clock_scheme \<Rightarrow> bool \<times> ('f, 'm) clock_scheme" where
  "clock_stop i c =
     (case find (\<lambda>e. eseq e = i) (entries c) of
        None \<Rightarrow> (False, c)
      | Some e \<Rightarrow> (True, removeLocked e c))"

fun earliestLoop :: "int \<Rightarrow> 'f entry option \<Rightarrow> 'f entry list \<Rightarrow> 'f entry option" where
  "earliestLoop target best [] = best"
| "earliestLoop target best (e # es) =
     (if deadline e > target then earliestLoop target best es
      else case best of
        None \<Rightarrow> earliestLoop target (Some e) es
      | Some b \<Rightarrow>
          if deadline e < deadline b \<or> deadline e = deadline b \<and> eseq e < eseq b
          then earliestLoop target (Some e) es else earliestLoop target best es)"

definition earliestDueLocked :: "int \<Rightarrow> ('f, 'm) clock_scheme \<Rightarrow> 'f entry option" where
  "earliestDueLocked target c = earliestLoop target None (entries c)"

partial_function (option) advanceLoop ::
  "('f \<Rightarrow> ('f, 'm) clock_scheme \<Rightarrow> ('f, 'm) clock_scheme) \<Rightarrow> int \<Rightarrow> ('f, 'm) clock_scheme \<Rightarrow>
     ('f, 'm) clock_scheme option" where
  "advanceLoop run target c =
     (case earliestDueLocked target c of
        None \<Rightarrow> Some (c\<lparr>now := target\<rparr>)
      | Some e \<Rightarrow> advanceLoop run target (run (efn e) (removeLocked e (c\<lparr>now := deadline e\<rparr>))))"

definition Advance ::
  "('f \<Rightarrow> ('f, 'm) clock_scheme \<Rightarrow> ('f, 'm) clock_scheme) \<Rightarrow> duration \<Rightarrow> ('f, 'm) clock_scheme \<Rightarrow>
     ('f, 'm) clock_scheme option" where
  "Advance run d c = (if d \<le> 0 then Some c else advanceLoop run (now c + d) c)"

partial_function (option) fireDueLoop ::
  "('f \<Rightarrow> ('f, 'm) clock_scheme \<Rightarrow> ('f, 'm) clock_scheme) \<Rightarrow> bool \<Rightarrow> ('f, 'm) clock_scheme \<Rightarrow>
     (bool \<times> ('f, 'm) clock_scheme) option" where
  "fireDueLoop run fired c =
     (case earliestDueLocked (now c) c of
        None \<Rightarrow> Some (fired, c)
      | Some e \<Rightarrow> fireDueLoop run True (run (efn e) (removeLocked e c)))"

definition fireDue ::
  "('f \<Rightarrow> ('f, 'm) clock_scheme \<Rightarrow> ('f, 'm) clock_scheme) \<Rightarrow> ('f, 'm) clock_scheme \<Rightarrow>
     (bool \<times> ('f, 'm) clock_scheme) option" where
  "fireDue run c = fireDueLoop run False c"

definition clock_nextDeadline :: "('f, 'm) clock_scheme \<Rightarrow> int option" where
  "clock_nextDeadline c =
     fold (\<lambda>e best. case best of
         None \<Rightarrow> Some (deadline e)
       | Some b \<Rightarrow> if deadline e < b then Some (deadline e) else best) (entries c) None"

subsection \<open>The entry that fires next\<close>

abbreviation entryKey :: "'f entry \<Rightarrow> int \<times> uint64" where
  "entryKey e \<equiv> (deadline e, eseq e)"

definition first :: "'a list \<Rightarrow> 'a option" where
  "first xs = (case xs of [] \<Rightarrow> None | x # _ \<Rightarrow> Some x)"

lemma first_simps [simp]: "first [] = None" "first (x # xs) = Some x"
  by (simp_all add: first_def)

definition dueSorted :: "int \<Rightarrow> 'f entry list \<Rightarrow> 'f entry list" where
  "dueSorted target es = sort_key entryKey (filter (\<lambda>e. deadline e \<le> target) es)"

lemma first_insort_less:
  "entryKey e < entryKey b \<Longrightarrow> first (insort_key entryKey b (insort_key entryKey e xs)) = first (insort_key entryKey e xs)"
  by (cases xs) (auto simp: not_le)

lemma first_insort_le:
  "entryKey b \<le> entryKey e \<Longrightarrow> first (insort_key entryKey b (insort_key entryKey e xs)) = first (insort_key entryKey b xs)"
  by (cases xs) (auto dest: order_trans)

lemma key_less_iff:
  "entryKey e < entryKey b \<longleftrightarrow> deadline e < deadline b \<or> deadline e = deadline b \<and> eseq e < eseq b"
  by auto

text \<open>The first of the entries with the least key: the head of the stable sort.\<close>

lemma earliestLoop_sorted:
  "earliestLoop target best es =
     first (sort_key entryKey ((case best of None \<Rightarrow> [] | Some b \<Rightarrow> [b]) @ filter (\<lambda>e. deadline e \<le> target) es))"
proof (induction es arbitrary: best)
  case Nil
  then show ?case by (cases best) simp_all
next
  case (Cons e es)
  show ?case
  proof (cases best)
    case None
    then show ?thesis by (simp add: Cons)
  next
    case (Some b)
    consider "target < deadline e" | "deadline e \<le> target" "entryKey e < entryKey b"
      | "deadline e \<le> target" "entryKey b \<le> entryKey e" by fastforce
    then show ?thesis
    proof cases
      case 1
      then show ?thesis by (simp add: Cons Some)
    next
      case 2
      then show ?thesis using first_insort_less [OF 2(2)] 2(2) [unfolded key_less_iff] by (simp add: Cons Some)
    next
      case 3
      then have "\<not> (deadline e < deadline b \<or> deadline e = deadline b \<and> eseq e < eseq b)"
        by auto
      then have "earliestLoop target best (e # es) = earliestLoop target best es" using 3(1) by (auto simp: Some)
      then show ?thesis using first_insort_le [OF 3(2), of "sort_key entryKey (filter (\<lambda>e. deadline e \<le> target) es)"] 3(1)
        by (simp add: Cons Some del: insort_key.simps)
    qed
  qed
qed

lemma earliestDue_sorted: "earliestDueLocked target c = first (dueSorted target (entries c))"
  by (simp add: earliestDueLocked_def earliestLoop_sorted dueSorted_def)

lemma set_dueSorted: "set (dueSorted target es) = {e \<in> set es. deadline e \<le> target}"
  by (auto simp: dueSorted_def)

lemma first_eq_Some: "first xs = Some x \<longleftrightarrow> xs = x # tl xs"
  by (cases xs) auto

lemma first_eq_None: "first xs = None \<longleftrightarrow> xs = []"
  by (cases xs) auto

lemma dueSorted_sorted: "sorted (map entryKey (dueSorted target es))"
  by (simp add: dueSorted_def)

lemma earliestDue_Some:
  assumes "earliestDueLocked target c = Some e"
  shows "e \<in> set (entries c)" "deadline e \<le> target"
    "x \<in> set (entries c) \<Longrightarrow> deadline e \<le> deadline x"
proof -
  have d: "dueSorted target (entries c) = e # tl (dueSorted target (entries c))"
    using assms by (simp add: earliestDue_sorted first_eq_Some)
  then have "e \<in> set (dueSorted target (entries c))" by (metis list.set_intros(1))
  then show "e \<in> set (entries c)" and t: "deadline e \<le> target" by (simp_all add: set_dueSorted)
  show "deadline e \<le> deadline x" if x: "x \<in> set (entries c)"
  proof (cases "deadline x \<le> target")
    case True
    then have m: "x \<in> set (e # tl (dueSorted target (entries c)))"
      using x d by (metis (mono_tags, lifting) mem_Collect_eq set_dueSorted)
    have "sorted (map entryKey (e # tl (dueSorted target (entries c))))"
      using d dueSorted_sorted [of target "entries c"] by metis
    then show ?thesis using m by auto
  next
    case False
    then show ?thesis using t by simp
  qed
qed

lemma earliestDue_None: "earliestDueLocked target c = None \<longleftrightarrow> (\<forall>e \<in> set (entries c). target < deadline e)"
proof -
  have "earliestDueLocked target c = None \<longleftrightarrow> set (dueSorted target (entries c)) = {}"
    by (simp add: earliestDue_sorted first_eq_None)
  also have "\<dots> \<longleftrightarrow> (\<forall>e \<in> set (entries c). target < deadline e)" by (auto simp: set_dueSorted not_le)
  finally show ?thesis .
qed

subsection \<open>What \<open>Advance\<close> does\<close>

text \<open>
  The reference: the entries due by the target, sorted by deadline and then by number, fire one
  after the other, each at its own deadline.  It is stated for callbacks that leave the clock
  alone; \<open>g fn t\<close> is what the callback \<open>fn\<close> does at time \<open>t\<close> to the rest of the state.
\<close>

definition leavesClock :: "('f \<Rightarrow> int \<Rightarrow> 'm \<Rightarrow> 'm) \<Rightarrow> 'f \<Rightarrow> ('f, 'm) clock_scheme \<Rightarrow> ('f, 'm) clock_scheme" where
  "leavesClock g fn c = clock.more_update (g fn (now c)) c"

definition fireAll :: "('f \<Rightarrow> int \<Rightarrow> 'm \<Rightarrow> 'm) \<Rightarrow> 'f entry list \<Rightarrow> 'm \<Rightarrow> 'm" where
  "fireAll g es m = fold (\<lambda>e. g (efn e) (deadline e)) es m"

lemma leavesClock_simps [simp]:
  "now (leavesClock g fn c) = now c" "cseq (leavesClock g fn c) = cseq c" "entries (leavesClock g fn c) = entries c"
  "clock.more (leavesClock g fn c) = g fn (now c) (clock.more c)"
  by (simp_all add: leavesClock_def)

lemma removeLocked_simps [simp]:
  "now (removeLocked e c) = now c" "cseq (removeLocked e c) = cseq c"
  "entries (removeLocked e c) = remove1 e (entries c)" "clock.more (removeLocked e c) = clock.more c"
  by (simp_all add: removeLocked_def)

lemma insort_key_remove1:
  assumes "sorted (map f xs)" "x \<noteq> e"
  shows "insort_key f x (remove1 e xs) = remove1 e (insort_key f x xs)"
  using assms
proof (induction xs)
  case (Cons y xs)
  show ?case
  proof (cases "y = e \<and> f x \<le> f e")
    case True
    then show ?thesis using Cons.prems by (cases xs) (auto dest: order_trans)
  next
    case False
    then show ?thesis using Cons by auto
  qed
qed simp

lemma sort_key_remove1: "sort_key f (remove1 e xs) = remove1 e (sort_key f xs)"
  by (induction xs) (auto simp: insort_key_remove1)

lemma dueSorted_remove1:
  assumes "dueSorted target es = e # due"
  shows "dueSorted target (remove1 e es) = due"
proof -
  have "dueSorted target (remove1 e es) = remove1 e (dueSorted target es)"
    by (simp add: dueSorted_def filter_remove1 sort_key_remove1)
  then show ?thesis using assms by simp
qed

lemma later_remove1:
  assumes "deadline e \<le> target"
  shows "filter (\<lambda>x. target < deadline x) (remove1 e es) = filter (\<lambda>x. target < deadline x) es"
  using assms by (simp add: filter_remove1 remove1_idem)

lemma clock_eqI:
  "now c = now c' \<Longrightarrow> cseq c = cseq c' \<Longrightarrow> entries c = entries c' \<Longrightarrow> clock.more c = clock.more c' \<Longrightarrow>
     (c :: ('f, 'm) clock_scheme) = c'"
  by (cases c; cases c') simp

lemma advanceLoop_reference:
  assumes "dueSorted target (entries c) = due"
  shows "\<exists>c'. advanceLoop (leavesClock g) target c = Some c' \<and> now c' = target \<and> cseq c' = cseq c \<and>
     entries c' = filter (\<lambda>e. target < deadline e) (entries c) \<and>
     clock.more c' = fireAll g due (clock.more c)"
  using assms
proof (induction due arbitrary: c)
  case Nil
  then have n: "earliestDueLocked target c = None" by (simp add: earliestDue_sorted)
  then have "filter (\<lambda>e. target < deadline e) (entries c) = entries c" by (simp add: earliestDue_None)
  then show ?case using n by (subst advanceLoop.simps) (simp add: fireAll_def)
next
  case (Cons e due)
  let ?c = "leavesClock g (efn e) (removeLocked e (c\<lparr>now := deadline e\<rparr>))"
  have e: "earliestDueLocked target c = Some e" using Cons.prems by (simp add: earliestDue_sorted)
  have d: "deadline e \<le> target" using e by (rule earliestDue_Some(2))
  have "dueSorted target (entries ?c) = due" using dueSorted_remove1 [OF Cons.prems] by simp
  from Cons.IH [OF this] obtain c' where c': "advanceLoop (leavesClock g) target ?c = Some c'" "now c' = target"
      "cseq c' = cseq ?c" "entries c' = filter (\<lambda>e. target < deadline e) (entries ?c)"
      "clock.more c' = fireAll g due (clock.more ?c)"
    by blast
  have "advanceLoop (leavesClock g) target c = Some c'" using c'(1) e by (subst advanceLoop.simps) simp
  then show ?case using c'(2-5) d by (simp add: later_remove1 fireAll_def)
qed

lemma Advance_leavesClock:
  "Advance (leavesClock g) d c =
     (if d \<le> 0 then Some c
      else Some (clock.more_update (fireAll g (dueSorted (now c + d) (entries c)))
        (c\<lparr>now := now c + d, entries := filter (\<lambda>e. now c + d < deadline e) (entries c)\<rparr>)))"
proof -
  obtain c' where c': "advanceLoop (leavesClock g) (now c + d) c = Some c'" "now c' = now c + d"
      "cseq c' = cseq c" "entries c' = filter (\<lambda>e. now c + d < deadline e) (entries c)"
      "clock.more c' = fireAll g (dueSorted (now c + d) (entries c)) (clock.more c)"
    using advanceLoop_reference [OF refl] by blast
  have "c' = clock.more_update (fireAll g (dueSorted (now c + d) (entries c)))
        (c\<lparr>now := now c + d, entries := filter (\<lambda>e. now c + d < deadline e) (entries c)\<rparr>)"
    by (rule clock_eqI) (simp_all add: c'(2-))
  then show ?thesis using c'(1) by (simp add: Advance_def)
qed


text \<open>
  With a callback armed for the past, which \<open>AfterFunc\<close> accepts, \<open>Advance\<close> turns the clock back:
  the callback reads a time before the one at which \<open>Advance\<close> was called.
\<close>

lemma advance_turns_back:
  "Advance (leavesClock (\<lambda>_ t _. t)) 1 (snd (AfterFunc (- 5) () \<lparr>now = 100, cseq = 0, entries = [], \<dots> = 100\<rparr>)) =
     Some \<lparr>now = 101, cseq = 1, entries = [], \<dots> = 95\<rparr>"
  by (simp add: Advance_leavesClock AfterFunc_def nextSeq_def dueSorted_def fireAll_def)

subsection \<open>Rules for the loops\<close>

text \<open>A property that every firing preserves holds when a loop ends, and nothing is due then.\<close>

lemma advanceLoop_rule:
  assumes step: "\<And>c e. P c \<Longrightarrow> earliestDueLocked target c = Some e \<Longrightarrow>
      P (run (efn e) (removeLocked e (c\<lparr>now := deadline e\<rparr>)))"
    and "P c" "advanceLoop run target c = Some c'"
  shows "\<exists>c0. P c0 \<and> earliestDueLocked target c0 = None \<and> c' = c0\<lparr>now := target\<rparr>"
  using assms(3,2,1)
proof (induction run target c c' rule: advanceLoop.raw_induct [rotated, consumes 1])
  case (1 loop run target c c')
  show ?case
  proof (cases "earliestDueLocked target c")
    case None
    then show ?thesis using 1 by auto
  next
    case (Some e)
    show ?thesis by (rule 1(1) [of run target "run (efn e) (removeLocked e (c\<lparr>now := deadline e\<rparr>))"]) (use 1(2-) Some in auto)
  qed
qed

lemma fireDueLoop_rule:
  assumes step: "\<And>c e. P c \<Longrightarrow> earliestDueLocked (now c) c = Some e \<Longrightarrow> P (run (efn e) (removeLocked e c))"
    and "P c" "fireDueLoop run b c = Some (b', c')"
  shows "P c' \<and> earliestDueLocked (now c') c' = None"
  using assms(3,2,1)
proof (induction run b c "(b', c')" arbitrary: b' c' rule: fireDueLoop.raw_induct [rotated, consumes 1])
  case (1 loop run b c)
  show ?case
  proof (cases "earliestDueLocked (now c) c")
    case None
    then show ?thesis using 1 by auto
  next
    case (Some e)
    show ?thesis by (rule 1(1) [of run True "run (efn e) (removeLocked e c)" b' c']) (use 1(2-) Some in auto)
  qed
qed

end
