(* ===== verification/Mesh.thy ===== *)
theory Mesh
  imports Fake_Clock Proto_Context Session Complex_Main
begin

text \<open>
  \<open>pkg/prototest/mesh.go\<close>, the network the simulator runs its nodes on, with the recorder of
  \<open>trace.go\<close>.  It is modelled as the simulator uses it: with a scheduler, so a node's send, dial or
  disconnect puts what it causes into the set of pending deliveries.

  \<^item> A mesh is the clock extended by the fields of the struct; \<open>handed\<close> is the sequence of calls of
    the nodes' sinks, each with the time it was made at, and \<open>world\<close> is whatever the nodes keep.
  \<^item> A \<open>Node\<close> is never deleted, so it is named by its host.
  \<^item> The generator is a stream of draws (as in \<open>Proto_Context\<close>).  A \<open>Float64\<close> is a 53-bit fraction, so
    a rational.  A jitter of \<open>2 ^ 62\<close> nanoseconds or more, for which \<open>Int64N\<close> panics, is outside the model.
  \<^item> Go's map iteration order, on which \<open>Isolate\<close> depends, is an argument.
  \<^item> Of the recorder the JSON encoding, the artifact file and the sampler are not modelled; a line
    keeps hosts and identifiers as values, not printed, and a fault without its parameters.
\<close>

subsection \<open>The trace\<close>

datatype traceEvent =
    Trace_deliver Host Host uint64 nat
  | Trace_session string Host Host
  | Trace_drop Host Host uint64 string
  | Trace_clock
  | Trace_fault string "Host list"

datatype traceLine =
    TraceMeta "Host list"
  | TraceNode Host "string list" uint64
  | TraceLine uint64 int traceEvent

record recorder =
  metaWritten :: bool
  pendingNodes :: "(Host \<times> string list) list"
  rstep :: uint64
  trace :: "traceLine list"

definition newRecorder :: recorder where
  "newRecorder = \<lparr>metaWritten = False, pendingNodes = [], rstep = 0, trace = []\<rparr>"

definition ensureMetaLocked :: "recorder \<Rightarrow> recorder" where
  "ensureMetaLocked r =
     (if metaWritten r then r
      else r\<lparr>metaWritten := True,
        trace := trace r @ TraceMeta (map fst (pendingNodes r)) # map (\<lambda>(h, ps). TraceNode h ps 0) (pendingNodes r),
        pendingNodes := []\<rparr>)"

definition emitLocked :: "traceEvent \<Rightarrow> int \<Rightarrow> recorder \<Rightarrow> recorder" where
  "emitLocked ev t r = (let r = ensureMetaLocked r in r\<lparr>trace := trace r @ [TraceLine (rstep r) t ev]\<rparr>)"

definition rec_node :: "Host \<Rightarrow> string list \<Rightarrow> recorder \<Rightarrow> recorder" where
  "rec_node h ps r =
     (if \<not> metaWritten r then r\<lparr>pendingNodes := pendingNodes r @ [(h, ps)]\<rparr>
      else r\<lparr>trace := trace r @ [TraceNode h ps (rstep r)]\<rparr>)"

definition rec_deliverMsg :: "Host \<Rightarrow> Host \<Rightarrow> uint64 \<Rightarrow> nat \<Rightarrow> int \<Rightarrow> recorder \<Rightarrow> recorder" where
  "rec_deliverMsg a b wireID nbytes t r =
     emitLocked (Trace_deliver a b wireID nbytes) t (r\<lparr>rstep := rstep r + 1\<rparr>)"

fun sessionEventName :: "session_layer_event \<Rightarrow> string" where
  "sessionEventName (SessionConnected _) = ''connected''"
| "sessionEventName (SessionDisconnected _) = ''disconnected''"
| "sessionEventName (SessionFailed _) = ''failed''"
| "sessionEventName _ = ''unknown''"

definition rec_session :: "Host \<Rightarrow> session_layer_event \<Rightarrow> int \<Rightarrow> recorder \<Rightarrow> recorder" where
  "rec_session observer ev t r =
     emitLocked (Trace_session (sessionEventName ev) observer (event_Host ev)) t (r\<lparr>rstep := rstep r + 1\<rparr>)"

definition rec_drop :: "Host \<Rightarrow> Host \<Rightarrow> uint64 \<Rightarrow> string \<Rightarrow> int \<Rightarrow> recorder \<Rightarrow> recorder" where
  "rec_drop a b wireID reason t r = emitLocked (Trace_drop a b wireID reason) t r"

definition rec_clockAdvance :: "int \<Rightarrow> recorder \<Rightarrow> recorder" where
  "rec_clockAdvance t r = emitLocked Trace_clock t (r\<lparr>rstep := rstep r + 1\<rparr>)"

definition rec_fault :: "string \<Rightarrow> Host list \<Rightarrow> int \<Rightarrow> recorder \<Rightarrow> recorder" where
  "rec_fault mutation hs t r = emitLocked (Trace_fault mutation hs) t r"

subsection \<open>The mesh\<close>

record delaySpec =
  base :: duration
  jitter :: duration

definition Int64N :: "int \<Rightarrow> nat stream \<Rightarrow> int \<times> nat stream" where
  "Int64N n g = (int (shd g) mod n, stl g)"

definition Float64 :: "nat stream \<Rightarrow> rat \<times> nat stream" where
  "Float64 g = (of_nat (shd g mod 2 ^ 53) / 2 ^ 53, stl g)"

definition sample :: "delaySpec \<Rightarrow> nat stream \<Rightarrow> duration \<times> nat stream" where
  "sample d g =
     (if jitter d \<le> 0 then (base d, g)
      else let (x, g) = Int64N (2 * jitter d + 1) g; off = x - jitter d in (max (base d + off) 0, g))"

datatype payload = Msg bytes | Ev session_layer_event

datatype delivery = Delivery (dueAt: int) (dseq: uint64) (dnode: Host) (dfrom: Host) (dload: payload)

record mesh_node =
  cancelled :: bool
  peers :: "Host set"
  hasSink :: bool

type_synonym link = "Host \<times> Host"

record ('f, 'w) mesh = "'f clock" +
  mnodes :: "Host \<rightharpoonup> mesh_node"
  rng :: "nat stream"
  cut :: "link set"
  loss :: "link \<rightharpoonup> rat"
  delay :: "link \<rightharpoonup> delaySpec"
  isolated :: "Host set"
  recorder :: "recorder option"
  mpending :: "delivery list"
  sseq :: uint64
  handed :: "(int \<times> delivery) list"
  world :: 'w

definition newMesh :: "nat stream \<Rightarrow> recorder option \<Rightarrow> 'w \<Rightarrow> ('f, 'w) mesh" where
  "newMesh g r w = \<lparr>now = 0, cseq = 0, entries = [], mnodes = Map.empty, rng = g, cut = {}, loss = Map.empty,
     delay = Map.empty, isolated = {}, recorder = r, mpending = [], sseq = 0, handed = [], world = w\<rparr>"

text \<open>\<open>defaultSeed\<close>: the seed of a mesh that was not given one.\<close>

definition defaultSeed :: "string \<Rightarrow> int" where
  "defaultSeed name = sint (fnv64a_Write fnv64a_offset (str_bytes name))"

text \<open>A call of the recorder, which is nil when no trace was asked for.\<close>

definition observe :: "(int \<Rightarrow> recorder \<Rightarrow> recorder) \<Rightarrow> ('f, 'w) mesh \<Rightarrow> ('f, 'w) mesh" where
  "observe f s = s\<lparr>recorder := map_option (f (now s)) (recorder s)\<rparr>"

definition mesh_Node :: "Host \<Rightarrow> ('f, 'w) mesh \<Rightarrow> ('f, 'w) mesh" where
  "mesh_Node h s =
     (case mnodes s h of
        Some n \<Rightarrow> s
      | None \<Rightarrow> s\<lparr>mnodes := (mnodes s)(h \<mapsto> \<lparr>cancelled = False, peers = {}, hasSink = False\<rparr>)\<rparr>)"

definition peersOf :: "Host \<Rightarrow> ('f, 'w) mesh \<Rightarrow> Host set" where
  "peersOf h s = (case mnodes s h of None \<Rightarrow> {} | Some n \<Rightarrow> peers n)"

definition onNode :: "Host \<Rightarrow> (mesh_node \<Rightarrow> mesh_node) \<Rightarrow> ('f, 'w) mesh \<Rightarrow> ('f, 'w) mesh" where
  "onNode h f s = s\<lparr>mnodes := (mnodes s)(h := map_option f (mnodes s h))\<rparr>"

abbreviation addPeer :: "Host \<Rightarrow> Host \<Rightarrow> ('f, 'w) mesh \<Rightarrow> ('f, 'w) mesh" where
  "addPeer h p \<equiv> onNode h (\<lambda>n. n\<lparr>peers := insert p (peers n)\<rparr>)"

abbreviation delPeer :: "Host \<Rightarrow> Host \<Rightarrow> ('f, 'w) mesh \<Rightarrow> ('f, 'w) mesh" where
  "delPeer h p \<equiv> onNode h (\<lambda>n. n\<lparr>peers := peers n - {p}\<rparr>)"

definition UseSyncInbound :: "Host \<Rightarrow> ('f, 'w) mesh \<Rightarrow> ('f, 'w) mesh" where
  "UseSyncInbound h s = onNode h (\<lambda>n. n\<lparr>hasSink := True\<rparr>) s"

subsection \<open>Scheduling a delivery\<close>

definition sched_enqueue :: "Host \<Rightarrow> payload \<Rightarrow> ('f, 'w) mesh \<Rightarrow> ('f, 'w) mesh" where
  "sched_enqueue n p s =
     s\<lparr>sseq := sseq s + 1, mpending := mpending s @ [Delivery (now s) (sseq s + 1) n zeroHost p]\<rparr>"

definition surface :: "Host \<Rightarrow> session_layer_event \<Rightarrow> ('f, 'w) mesh \<Rightarrow> ('f, 'w) mesh" where
  "surface n ev s = sched_enqueue n (Ev ev) s"

definition isCutLocked :: "Host \<Rightarrow> Host \<Rightarrow> ('f, 'w) mesh \<Rightarrow> bool" where
  "isCutLocked a b s = ((a, b) \<in> cut s)"

definition dropDecisionLocked :: "Host \<Rightarrow> Host \<Rightarrow> ('f, 'w) mesh \<Rightarrow> string option \<times> ('f, 'w) mesh" where
  "dropDecisionLocked a b s =
     (if isCutLocked a b s then
        if a \<in> isolated s then (Some ''isolated'', s)
        else if b \<in> isolated s then (Some ''isolated'', s)
        else (Some ''cut'', s)
      else case loss s (a, b) of
        Some p \<Rightarrow>
          let (x, g) = Float64 (rng s); s = s\<lparr>rng := g\<rparr>
          in if x < p then (Some ''loss'', s) else (None, s)
      | None \<Rightarrow> (None, s))"

text \<open>The first eight bytes of an application body.\<close>

definition wireIDOf :: "bytes \<Rightarrow> uint64" where
  "wireIDOf b = (if 8 \<le> length b then word_of_nat (le_get (take 8 b)) else 0)"

definition sched_send :: "Host \<Rightarrow> Host \<Rightarrow> bytes \<Rightarrow> ('f, 'w) mesh \<Rightarrow> ('f, 'w) mesh" where
  "sched_send a b msg s =
     (if b \<notin> peersOf a s \<or> mnodes s b = None then s
      else case dropDecisionLocked a b s of
        (Some reason, s) \<Rightarrow> observe (rec_drop a b (wireIDOf msg) reason) s
      | (None, s) \<Rightarrow>
          let (d, g) = (case delay s (a, b) of Some spec \<Rightarrow> sample spec (rng s) | None \<Rightarrow> (0, rng s))
          in s\<lparr>rng := g, sseq := sseq s + 1,
               mpending := mpending s @ [Delivery (now s + d) (sseq s + 1) b a (Msg msg)]\<rparr>)"

definition between :: "Host \<Rightarrow> Host \<Rightarrow> delivery \<Rightarrow> bool" where
  "between a b d \<longleftrightarrow>
     (case dload d of Msg _ \<Rightarrow> (dfrom d = a \<and> dnode d = b) \<or> (dfrom d = b \<and> dnode d = a) | Ev _ \<Rightarrow> False)"

definition purgeLinkLocked :: "Host \<Rightarrow> Host \<Rightarrow> ('f, 'w) mesh \<Rightarrow> ('f, 'w) mesh" where
  "purgeLinkLocked a b s = s\<lparr>mpending := filter (\<lambda>d. \<not> between a b d) (mpending s)\<rparr>"

subsection \<open>Faults\<close>

definition cutLinkLocked :: "Host \<Rightarrow> Host \<Rightarrow> ('f, 'w) mesh \<Rightarrow> bool \<times> ('f, 'w) mesh" where
  "cutLinkLocked a b s =
     (let s = s\<lparr>cut := insert (b, a) (insert (a, b) (cut s))\<rparr>;
          teardown = (mnodes s a \<noteq> None \<and> mnodes s b \<noteq> None \<and> b \<in> peersOf a s);
          s = (if teardown then delPeer b a (delPeer a b s) else s)
      in (teardown, purgeLinkLocked a b s))"

definition mesh_Cut :: "Host \<Rightarrow> Host \<Rightarrow> ('f, 'w) mesh \<Rightarrow> ('f, 'w) mesh" where
  "mesh_Cut a b s =
     (let (teardown, s) = cutLinkLocked a b s; s = observe (rec_fault ''cut'' [a, b]) s
      in if teardown then surface b (SessionDisconnected a) (surface a (SessionDisconnected b) s) else s)"

definition mesh_Heal :: "Host \<Rightarrow> Host \<Rightarrow> ('f, 'w) mesh \<Rightarrow> ('f, 'w) mesh" where
  "mesh_Heal a b s =
     observe (rec_fault ''heal'' [a, b])
       (s\<lparr>cut := cut s - {(a, b), (b, a)}, isolated := isolated s - {a, b}\<rparr>)"

fun cutEach :: "Host \<Rightarrow> Host list \<Rightarrow> ('f, 'w) mesh \<Rightarrow> Host list \<times> ('f, 'w) mesh" where
  "cutEach h [] s = ([], s)"
| "cutEach h (x # xs) s =
     (let (teardown, s) = cutLinkLocked h x s; (torn, s) = cutEach h xs s
      in (if teardown then x # torn else torn, s))"

definition mesh_Isolate :: "Host list \<Rightarrow> Host \<Rightarrow> ('f, 'w) mesh \<Rightarrow> ('f, 'w) mesh" where
  "mesh_Isolate order h s =
     (let s = s\<lparr>isolated := insert h (isolated s)\<rparr>;
          (torn, s) = cutEach h (filter (\<lambda>x. x \<noteq> h) order) s;
          s = observe (rec_fault ''isolate'' [h]) s
      in fold (\<lambda>x s. surface x (SessionDisconnected h) (surface h (SessionDisconnected x) s)) torn s)"

definition mesh_SetLoss :: "Host \<Rightarrow> Host \<Rightarrow> rat \<Rightarrow> ('f, 'w) mesh \<Rightarrow> ('f, 'w) mesh" where
  "mesh_SetLoss a b p s =
     observe (rec_fault ''loss'' [a, b])
       (if p \<le> 0 then s\<lparr>loss := (loss s)((a, b) := None, (b, a) := None)\<rparr>
        else let p = (if p > 1 then 1 else p) in s\<lparr>loss := (loss s)((a, b) \<mapsto> p, (b, a) \<mapsto> p)\<rparr>)"

definition mesh_SetDelay :: "Host \<Rightarrow> Host \<Rightarrow> duration \<Rightarrow> duration \<Rightarrow> ('f, 'w) mesh \<Rightarrow> ('f, 'w) mesh" where
  "mesh_SetDelay a b d j s =
     observe (rec_fault ''delay'' [a, b])
       (if d \<le> 0 \<and> j \<le> 0 then s\<lparr>delay := (delay s)((a, b) := None, (b, a) := None)\<rparr>
        else let spec = \<lparr>base = d, jitter = j\<rparr>
             in s\<lparr>delay := (delay s)((a, b) \<mapsto> spec, (b, a) \<mapsto> spec)\<rparr>)"

subsection \<open>What a node can do\<close>

definition canDial :: "Host \<Rightarrow> ('f, 'w) mesh \<Rightarrow> bool" where
  "canDial h s \<longleftrightarrow> (case mnodes s h of None \<Rightarrow> False | Some n \<Rightarrow> \<not> cancelled n)"

definition simConnect :: "Host \<Rightarrow> Host \<Rightarrow> ('f, 'w) mesh \<Rightarrow> ('f, 'w) mesh" where
  "simConnect n host s =
     (if \<not> canDial host s \<or> isCutLocked n host s then sched_enqueue n (Ev (SessionFailed host)) s
      else if host \<in> peersOf n s then s
      else let s = addPeer host n (addPeer n host s)
           in sched_enqueue host (Ev (SessionConnected n)) (sched_enqueue n (Ev (SessionConnected host)) s))"

definition mesh_Disconnect :: "Host \<Rightarrow> Host \<Rightarrow> ('f, 'w) mesh \<Rightarrow> ('f, 'w) mesh" where
  "mesh_Disconnect n host s =
     (if host \<notin> peersOf n s then s
      else let s = delPeer n host s; peerExists = (mnodes s host \<noteq> None);
               s = (if peerExists then delPeer host n s else s);
               s = surface n (SessionDisconnected host) (purgeLinkLocked n host s)
           in if peerExists then surface host (SessionDisconnected n) s else s)"

definition mesh_Cancel :: "Host \<Rightarrow> ('f, 'w) mesh \<Rightarrow> ('f, 'w) mesh" where
  "mesh_Cancel n s =
     (let ps = peersOf n s; s = onNode n (\<lambda>x. x\<lparr>cancelled := True, peers := {}\<rparr>) s
      in s\<lparr>mnodes := (\<lambda>h. if h \<in> ps then map_option (\<lambda>x. x\<lparr>peers := peers x - {n}\<rparr>) (mnodes s h) else mnodes s h)\<rparr>)"

text \<open>\<open>NewRuntime\<close>, as far as the mesh sees it: the node, its line of the trace, its sink.\<close>

definition sim_Node :: "Host \<Rightarrow> string list \<Rightarrow> ('f, 'w) mesh \<Rightarrow> ('f, 'w) mesh" where
  "sim_Node h protocols s = UseSyncInbound h (observe (\<lambda>_. rec_node h protocols) (mesh_Node h s))"

end
