(* ===== verification/Sim.thy ===== *)
theory Sim
  imports Mesh
begin

text \<open>
  \<open>pkg/prototest/sim.go\<close>: the scheduler that drives whole runtimes under virtual time.

  \<^item> The nodes are a parameter \<open>react\<close>: given what reaches them, the time and the number of the last
    armed timer, it gives their next state and the operations they perform, in order.  The nodes run
    as goroutines while the scheduler fires timers or waits, and a theorem over every \<open>react\<close> covers
    every interleaving of their operations: \<open>SFire\<close> gets what happens between one fire and the next,
    \<open>SSettle\<close> what happens until every runtime is quiescent, \<open>SStart\<close> what a new runtime does and
    \<open>SCall\<close> what a node does when the test calls it.
  \<^item> The loops end only when the nodes stop producing work at one instant: they are \<open>None\<close> otherwise.
  \<^item> \<open>pred\<close> of \<open>RunUntil\<close> reads the nodes and does nothing else.
\<close>

subsection \<open>Nodes\<close>

datatype 'f stim = SStart Host | SCall 'f | SFire 'f | SMsg Host Host bytes | SEv Host session_layer_event | SSettle

datatype 'f act =
    ASend Host Host bytes
  | AConnect Host Host
  | ADisconnect Host Host
  | ACancel Host
  | AArm duration 'f
  | AStop uint64

type_synonym ('f, 'w) react = "'f stim \<Rightarrow> int \<Rightarrow> uint64 \<Rightarrow> 'w \<Rightarrow> 'w \<times> 'f act list"

text \<open>Only a host that has a node can dial; the other operations need a session anyway.\<close>

fun doAct :: "'f act \<Rightarrow> ('f, 'w) mesh \<Rightarrow> ('f, 'w) mesh" where
  "doAct (ASend a b m) s = sched_send a b m s"
| "doAct (AConnect a b) s = (if mnodes s a = None then s else simConnect a b s)"
| "doAct (ADisconnect a b) s = mesh_Disconnect a b s"
| "doAct (ACancel a) s = mesh_Cancel a s"
| "doAct (AArm d f) s = snd (AfterFunc d f s)"
| "doAct (AStop i) s = snd (clock_stop i s)"

definition stimulate :: "('f, 'w) react \<Rightarrow> 'f stim \<Rightarrow> ('f, 'w) mesh \<Rightarrow> ('f, 'w) mesh" where
  "stimulate react x s = (let (w, as) = react x (now s) (cseq s) (world s) in fold doAct as (s\<lparr>world := w\<rparr>))"

abbreviation callback :: "('f, 'w) react \<Rightarrow> 'f \<Rightarrow> ('f, 'w) mesh \<Rightarrow> ('f, 'w) mesh" where
  "callback react f \<equiv> stimulate react (SFire f)"

definition settle :: "('f, 'w) react \<Rightarrow> ('f, 'w) mesh \<Rightarrow> ('f, 'w) mesh" where
  "settle react s = stimulate react SSettle s"

subsection \<open>The scheduler\<close>

definition dueIdx :: "int \<Rightarrow> delivery list \<Rightarrow> nat list" where
  "dueIdx t ds = filter (\<lambda>i. \<not> dueAt (ds ! i) > t) [0..<length ds]"

definition takeOneDue :: "int \<Rightarrow> ('f, 'w) mesh \<Rightarrow> delivery option \<times> ('f, 'w) mesh" where
  "takeOneDue t s =
     (let due = dueIdx t (mpending s)
      in if due = [] then (None, s)
         else let (k, g) = IntN (length due) (rng s); pick = due ! k
              in (Some (mpending s ! pick),
                  s\<lparr>rng := g, mpending := take pick (mpending s) @ drop (Suc pick) (mpending s)\<rparr>))"

text \<open>The call of the node's sink, and the nodes' first reaction to it.\<close>

definition deliverTo :: "('f, 'w) react \<Rightarrow> delivery \<Rightarrow> ('f, 'w) mesh \<Rightarrow> ('f, 'w) mesh" where
  "deliverTo react d s =
     (case mnodes s (dnode d) of
        None \<Rightarrow> s
      | Some n \<Rightarrow>
          if \<not> hasSink n then s
          else case dload d of
            Msg b \<Rightarrow>
              let s = observe (rec_deliverMsg (dfrom d) (dnode d) (wireIDOf b) (length b)) s
              in stimulate react (SMsg (dnode d) (dfrom d) b) (s\<lparr>handed := handed s @ [(now s, d)]\<rparr>)
          | Ev ev \<Rightarrow>
              let s = observe (rec_session (dnode d) ev) s
              in stimulate react (SEv (dnode d) ev) (s\<lparr>handed := handed s @ [(now s, d)]\<rparr>))"

definition sim_nextDeadline :: "('f, 'w) mesh \<Rightarrow> int option" where
  "sim_nextDeadline s =
     (let next = fold (\<lambda>d best. case best of
            None \<Rightarrow> Some (dueAt d)
          | Some b \<Rightarrow> if dueAt d < b then Some (dueAt d) else best) (mpending s) None
      in case clock_nextDeadline s of
           None \<Rightarrow> next
         | Some td \<Rightarrow> (case next of None \<Rightarrow> Some td | Some b \<Rightarrow> if td < b then Some td else next))"

definition advanceTo :: "('f, 'w) react \<Rightarrow> int \<Rightarrow> ('f, 'w) mesh \<Rightarrow> ('f, 'w) mesh option" where
  "advanceTo react t s =
     (if t - now s > 0 then
        map_option (\<lambda>s. settle react (observe rec_clockAdvance s)) (Advance (callback react) (t - now s) s)
      else Some (settle react s))"

text \<open>One pass of \<open>drainDue\<close>: whether it made progress, and the state.\<close>

definition drainOnce :: "('f, 'w) react \<Rightarrow> ('f, 'w) mesh \<Rightarrow> (bool \<times> ('f, 'w) mesh) option" where
  "drainOnce react s =
     map_option (\<lambda>(fired, s).
       let s = (if fired then settle react s else s)
       in case takeOneDue (now s) s of
            (Some d, s) \<Rightarrow> (True, settle react (deliverTo react d s))
          | (None, s) \<Rightarrow> (fired, s)) (fireDue (callback react) s)"

partial_function (option) drainDue :: "('f, 'w) react \<Rightarrow> ('f, 'w) mesh \<Rightarrow> ('f, 'w) mesh option" where
  "drainDue react s =
     Option.bind (drainOnce react s) (\<lambda>(progressed, s). if progressed then drainDue react s else Some s)"

text \<open>\<open>pred != nil && pred()\<close>.\<close>

definition holds :: "('w \<Rightarrow> bool) option \<Rightarrow> ('f, 'w) mesh \<Rightarrow> bool" where
  "holds pred s = (case pred of Some p \<Rightarrow> p (world s) | None \<Rightarrow> False)"

partial_function (option) runLoop ::
  "('f, 'w) react \<Rightarrow> ('w \<Rightarrow> bool) option \<Rightarrow> int \<Rightarrow> ('f, 'w) mesh \<Rightarrow> (bool \<times> ('f, 'w) mesh) option" where
  "runLoop react pred horizon s =
     (if holds pred s then Some (True, s)
      else Option.bind (drainDue react s) (\<lambda>s.
        if holds pred s then Some (True, s)
        else case sim_nextDeadline s of
          None \<Rightarrow> map_option (\<lambda>s. (pred = None \<or> holds pred s, s)) (advanceTo react horizon s)
        | Some next \<Rightarrow>
            if next > horizon
            then map_option (\<lambda>s. (pred = None \<or> holds pred s, s)) (advanceTo react horizon s)
            else Option.bind (advanceTo react next s) (runLoop react pred horizon)))"

definition sched_run ::
  "('f, 'w) react \<Rightarrow> duration \<Rightarrow> ('w \<Rightarrow> bool) option \<Rightarrow> ('f, 'w) mesh \<Rightarrow> (bool \<times> ('f, 'w) mesh) option" where
  "sched_run react d pred s = (let horizon = now s + d in runLoop react pred horizon (settle react s))"

definition sim_Run :: "('f, 'w) react \<Rightarrow> duration \<Rightarrow> ('f, 'w) mesh \<Rightarrow> ('f, 'w) mesh option" where
  "sim_Run react d s = map_option snd (sched_run react d None s)"

definition sim_RunUntil ::
  "('f, 'w) react \<Rightarrow> ('w \<Rightarrow> bool) \<Rightarrow> duration \<Rightarrow> ('f, 'w) mesh \<Rightarrow> (bool \<times> ('f, 'w) mesh) option" where
  "sim_RunUntil react pred d s = sched_run react d (Some pred) s"

datatype DeliveryInfo = DeliveryInfo (infoKind: string) (infoFrom: Host) (infoTo: Host) (infoWireID: uint64)

definition delivery_info :: "delivery \<Rightarrow> DeliveryInfo" where
  "delivery_info d =
     (case dload d of
        Msg b \<Rightarrow> DeliveryInfo ''message'' (dfrom d) (dnode d) (wireIDOf b)
      | Ev _ \<Rightarrow> DeliveryInfo ''session'' (dfrom d) (dnode d) 0)"

abbreviation clockInfo :: DeliveryInfo where
  "clockInfo \<equiv> DeliveryInfo ''clock'' zeroHost zeroHost 0"

definition stepInfo :: "('f, 'w) react \<Rightarrow> ('f, 'w) mesh \<Rightarrow> (DeliveryInfo option \<times> ('f, 'w) mesh) option" where
  "stepInfo react s =
     Option.bind (fireDue (callback react) (settle react s)) (\<lambda>(fired, s).
       if fired then Some (Some clockInfo, settle react s)
       else case takeOneDue (now s) s of
         (Some d, s) \<Rightarrow> Some (Some (delivery_info d), settle react (deliverTo react d s))
       | (None, s) \<Rightarrow>
           (case sim_nextDeadline s of
              None \<Rightarrow> Some (None, s)
            | Some next \<Rightarrow> map_option (Pair (Some clockInfo)) (advanceTo react next s)))"

definition sim_Step :: "('f, 'w) react \<Rightarrow> ('f, 'w) mesh \<Rightarrow> (bool \<times> ('f, 'w) mesh) option" where
  "sim_Step react s = map_option (\<lambda>(i, s). (i \<noteq> None, s)) (stepInfo react s)"

fun StepUntil :: "('f, 'w) react \<Rightarrow> (DeliveryInfo \<Rightarrow> bool) \<Rightarrow> nat \<Rightarrow> ('f, 'w) mesh \<Rightarrow> (bool \<times> ('f, 'w) mesh) option" where
  "StepUntil react pred 0 s = Some (False, s)"
| "StepUntil react pred (Suc n) s =
     (case stepInfo react s of
        None \<Rightarrow> None
      | Some (None, s) \<Rightarrow> Some (False, s)
      | Some (Some i, s) \<Rightarrow> if pred i then Some (True, s) else StepUntil react pred n s)"

subsection \<open>A test\<close>

text \<open>The calls a test makes on its simulation and on the mesh between steps.\<close>

datatype ('f, 'w) sim_call =
    CNode Host "string list"
  | CCall 'f
  | CCut Host Host
  | CHeal Host Host
  | CIsolate "Host list" Host
  | CSetLoss Host Host rat
  | CSetDelay Host Host duration duration
  | CCancel Host
  | CRun duration
  | CRunUntil "'w \<Rightarrow> bool" duration
  | CStep
  | CStepUntil "DeliveryInfo \<Rightarrow> bool" nat

fun sim_do :: "('f, 'w) react \<Rightarrow> ('f, 'w) sim_call \<Rightarrow> ('f, 'w) mesh \<Rightarrow> ('f, 'w) mesh option" where
  "sim_do react (CNode h ps) s = Some (stimulate react (SStart h) (sim_Node h ps s))"
| "sim_do react (CCall f) s = Some (stimulate react (SCall f) s)"
| "sim_do react (CCut a b) s = Some (mesh_Cut a b s)"
| "sim_do react (CHeal a b) s = Some (mesh_Heal a b s)"
| "sim_do react (CIsolate order h) s = Some (mesh_Isolate order h s)"
| "sim_do react (CSetLoss a b p) s = Some (mesh_SetLoss a b p s)"
| "sim_do react (CSetDelay a b d j) s = Some (mesh_SetDelay a b d j s)"
| "sim_do react (CCancel h) s = Some (mesh_Cancel h s)"
| "sim_do react (CRun d) s = sim_Run react d s"
| "sim_do react (CRunUntil p d) s = map_option snd (sim_RunUntil react p d s)"
| "sim_do react CStep s = map_option snd (sim_Step react s)"
| "sim_do react (CStepUntil p n) s = map_option snd (StepUntil react p n s)"

inductive sim_reach :: "('f, 'w) react \<Rightarrow> ('f, 'w) mesh \<Rightarrow> bool" for react where
  new: "sim_reach react (newMesh g r w)"
| call: "sim_reach react s \<Longrightarrow> sim_do react c s = Some s' \<Longrightarrow> sim_reach react s'"

end
