(* ===== verification/Sim_Safety.thy ===== *)
theory Sim_Safety
  imports Sim "HOL-Library.Multiset"
begin

text \<open>
  What every test under the simulator can rely on.  An invariant of the scheduler is the locale
  \<open>sim_invariant\<close>: what each of its moves preserves holds in every reachable state.  Most do not
  depend on the time, which is the sublocale \<open>plain_invariant\<close>.
\<close>

subsection \<open>Moves of the scheduler\<close>

definition ahead :: "int \<Rightarrow> ('f, 'w) mesh \<Rightarrow> bool" where
  "ahead t s \<longleftrightarrow> (\<forall>e \<in> set (entries s). t \<le> deadline e) \<and> (\<forall>d \<in> set (mpending s). t \<le> dueAt d)"

lemma fold_min_None:
  "fold (\<lambda>x best. case best of None \<Rightarrow> Some (f x) | Some b \<Rightarrow> if f x < b then Some (f x) else best) xs (Some b) \<noteq> None"
  by (induction xs arbitrary: b) auto

lemma fold_min:
  fixes f :: "'a \<Rightarrow> int"
  assumes "fold (\<lambda>x best. case best of None \<Rightarrow> Some (f x) | Some b \<Rightarrow> if f x < b then Some (f x) else best) xs (Some b) = Some m"
  shows "m \<le> b \<and> (\<forall>x \<in> set xs. m \<le> f x) \<and> m \<in> insert b (f ` set xs)"
  using assms
proof (induction xs arbitrary: b)
  case (Cons x xs)
  then show ?case by (fastforce split: if_splits)
qed simp

lemma fold_min_start:
  fixes f :: "'a \<Rightarrow> int"
  assumes "fold (\<lambda>x best. case best of None \<Rightarrow> Some (f x) | Some b \<Rightarrow> if f x < b then Some (f x) else best) xs None = r"
  shows "(case r of None \<Rightarrow> xs = [] | Some m \<Rightarrow> (\<forall>x \<in> set xs. m \<le> f x) \<and> m \<in> f ` set xs)"
proof (cases xs)
  case Nil
  then show ?thesis using assms by auto
next
  case (Cons x ys)
  then obtain m where m: "r = Some m" using assms fold_min_None [of f ys "f x"] by fastforce
  then show ?thesis using fold_min [of f ys "f x" m] assms Cons by auto
qed

lemma sim_nextDeadline_None:
  assumes "sim_nextDeadline s = None"
  shows "ahead t s" "mpending s = []" "entries s = []"
proof -
  show p: "mpending s = []" "entries s = []"
    using assms fold_min_start [of dueAt "mpending s", OF refl] fold_min_start [of deadline "entries s", OF refl]
    by (auto simp: sim_nextDeadline_def clock_nextDeadline_def Let_def split: option.splits if_splits)
  then show "ahead t s" by (simp add: ahead_def)
qed

lemma sim_nextDeadline_Some:
  assumes "sim_nextDeadline s = Some t"
  shows "ahead t s" "t \<in> deadline ` set (entries s) \<union> dueAt ` set (mpending s)"
proof -
  have "ahead t s \<and> t \<in> deadline ` set (entries s) \<union> dueAt ` set (mpending s)"
    using assms fold_min_start [of dueAt "mpending s", OF refl] fold_min_start [of deadline "entries s", OF refl]
    unfolding sim_nextDeadline_def clock_nextDeadline_def Let_def ahead_def
    by (auto split: option.splits if_splits)
  then show "ahead t s" "t \<in> deadline ` set (entries s) \<union> dueAt ` set (mpending s)" by simp_all
qed

lemma ahead_mono: "ahead t s \<Longrightarrow> t' \<le> t \<Longrightarrow> ahead t' s"
  unfolding ahead_def by (meson order_trans)

lemma takeOneDue_Some:
  assumes "takeOneDue t s = (Some d, s')"
  obtains i where "i < length (mpending s)" "d = mpending s ! i" "dueAt d \<le> t"
    "s' = s\<lparr>rng := stl (rng s), mpending := take i (mpending s) @ drop (Suc i) (mpending s)\<rparr>"
proof -
  let ?due = "dueIdx t (mpending s)"
  have ne: "?due \<noteq> []" using assms by (auto simp: takeOneDue_def Let_def)
  let ?i = "?due ! (shd (rng s) mod length ?due)"
  have "?i \<in> set ?due" using ne by simp
  then have "?i < length (mpending s)" "dueAt (mpending s ! ?i) \<le> t" by (auto simp: dueIdx_def)
  then show ?thesis
    using that [of ?i] assms ne by (auto simp: takeOneDue_def IntN_def Let_def)
qed

lemma takeOneDue_None:
  assumes "takeOneDue t s = (None, s')"
  shows "s' = s" "\<forall>d \<in> set (mpending s). t < dueAt d"
proof -
  have e: "dueIdx t (mpending s) = []" using assms by (auto simp: takeOneDue_def Let_def split_beta split: if_splits)
  then show "s' = s" using assms by (simp add: takeOneDue_def)
  show "\<forall>d \<in> set (mpending s). t < dueAt d"
  proof
    fix d assume "d \<in> set (mpending s)"
    then obtain i where i: "i < length (mpending s)" "d = mpending s ! i" by (auto simp: in_set_conv_nth)
    have "i \<notin> set (dueIdx t (mpending s))" by (simp add: e)
    then show "t < dueAt d" using i by (simp add: dueIdx_def)
  qed
qed

text \<open>What a test makes a node do; the rest is what the scheduler makes it do.\<close>

fun external :: "'f stim \<Rightarrow> bool" where
  "external (SStart _) = True"
| "external (SCall _) = True"
| "external _ = False"

lemma deliverTo_cases:
  obtains "deliverTo react d s = s"
  | x f where "deliverTo react d s = stimulate react x ((observe f s)\<lparr>handed := handed s @ [(now s, d)]\<rparr>)"
      "\<not> external x"
proof (cases "mnodes s (dnode d)")
  case None
  then show ?thesis using that by (simp add: deliverTo_def)
next
  case (Some n)
  then show ?thesis using that
    by (cases "hasSink n"; cases "dload d") (auto simp: deliverTo_def Let_def observe_def)
qed

subsection \<open>Invariants of the scheduler\<close>

locale sim_invariant =
  fixes react :: "('f, 'w) react" and P :: "('f, 'w) mesh \<Rightarrow> bool"
  assumes stim: "P s \<Longrightarrow> P (stimulate react x s)"
    and obs: "P s \<Longrightarrow> P (observe f s)"
    and fired: "P s \<Longrightarrow> e \<in> set (entries s) \<Longrightarrow> deadline e \<le> now s \<Longrightarrow> P (removeLocked e s)"
    and delivered: "P s \<Longrightarrow> takeOneDue (now s) s = (Some d, s') \<Longrightarrow> P (deliverTo react d s')"
    and advanced: "P s \<Longrightarrow> now s < t \<Longrightarrow> ahead t s \<Longrightarrow>
      Advance (callback react) (t - now s) s = Some s' \<Longrightarrow> P s'"
begin

lemma settled: "P s \<Longrightarrow> P (settle react s)"
  by (simp add: settle_def stim)

lemma fireDue:
  assumes "P s" "fireDue (callback react) s = Some (b, s')"
  shows "P s' \<and> earliestDueLocked (now s') s' = None"
  using assms(2) unfolding fireDue_def
  by (rule fireDueLoop_rule [rotated 2]) (auto intro!: stim fired assms(1) dest: earliestDue_Some)

lemma advanceTo:
  assumes "P s" "ahead t s" "advanceTo react t s = Some s'"
  shows "P s'"
  using assms by (auto simp: advanceTo_def split: if_splits intro!: settled obs intro: advanced)

lemma drainOnce:
  assumes "P s" "drainOnce react s = Some (b, s')"
  shows "P s'"
proof -
  obtain fired s1 where f: "fireDue (callback react) s = Some (fired, s1)"
    using assms(2) by (auto simp: drainOnce_def)
  let ?s = "if fired then settle react s1 else s1"
  have p: "P ?s" using fireDue [OF assms(1) f] settled by simp
  obtain r s2 where t: "takeOneDue (now ?s) ?s = (r, s2)" by fastforce
  show ?thesis
  proof (cases r)
    case None
    then have "s2 = ?s" using t takeOneDue_None(1) by blast
    then show ?thesis using assms(2) f t None p by (auto simp: drainOnce_def Let_def)
  next
    case (Some d)
    then have "P (deliverTo react d s2)" using delivered [OF p] t by blast
    then show ?thesis using assms(2) f t Some by (auto simp: drainOnce_def Let_def intro: settled)
  qed
qed

lemma drainDue:
  assumes "drainDue r s = Some s'" "r = react" "P s"
  shows "P s'"
  using assms
proof (induction r s s' rule: drainDue.raw_induct [rotated, consumes 1])
  case (1 loop r s s')
  then obtain b s1 where o: "drainOnce react s = Some (b, s1)" "(if b then loop react s1 else Some s1) = Some s'"
    by (auto simp: bind_eq_Some_conv)
  then have "P s1" using drainOnce 1(4) by blast
  then show ?case using o(2) 1(1) [of react s1 s'] by (auto split: if_splits)
qed

lemma runLoop:
  assumes "runLoop r pred h s = Some bs" "r = react" "P s"
  shows "P (snd bs)"
  using assms
proof (induction r pred h s bs rule: runLoop.raw_induct [rotated, consumes 1])
  case (1 loop r pred h s bs)
  note IH = 1(1) and L = 1(2,3)
  show ?case
  proof (cases "holds pred s")
    case True
    then show ?thesis using 1 by auto
  next
    case False
    then obtain s1 where d: "drainDue react s = Some s1" using 1(2,3) by (auto simp: bind_eq_Some_conv)
    then have p: "P s1" using drainDue 1(4) by blast
    consider "holds pred s1" | "\<not> holds pred s1" "sim_nextDeadline s1 = None \<or> (\<exists>n. sim_nextDeadline s1 = Some n \<and> h < n)"
      | n where "\<not> holds pred s1" "sim_nextDeadline s1 = Some n" "n \<le> h"
      by (metis not_less option.exhaust)
    then show ?thesis
    proof cases
      case 1
      then show ?thesis using False d p L by auto
    next
      case 2
      then have "ahead h s1" using sim_nextDeadline_None sim_nextDeadline_Some(1) ahead_mono less_imp_le by metis
      moreover obtain s2 where "advanceTo react h s1 = Some s2" "snd bs = s2"
        using 2 False d L by auto
      ultimately show ?thesis using advanceTo p by blast
    next
      case 3
      then obtain s2 where s2: "advanceTo react n s1 = Some s2" "loop react pred h s2 = Some bs"
        using False d L by (auto simp: bind_eq_Some_conv)
      then have "P s2" using advanceTo p sim_nextDeadline_Some(1) [OF 3(2)] by blast
      then show ?thesis using s2(2) IH by blast
    qed
  qed
qed

lemma stepInfo:
  assumes "stepInfo react s = Some (i, s')" "P s"
  shows "P s'"
proof -
  obtain b s1 where f: "fireDue (callback react) (settle react s) = Some (b, s1)"
    using assms(1) by (auto simp: stepInfo_def bind_eq_Some_conv)
  have p: "P s1" using fireDue [OF settled [OF assms(2)] f] by simp
  obtain r s2 where t: "takeOneDue (now s1) s1 = (r, s2)" by fastforce
  consider b | d where "\<not> b" "r = Some d" | "\<not> b" "r = None" by (cases r) auto
  then show ?thesis
  proof cases
    case 1
    then show ?thesis using assms(1) f p by (auto simp: stepInfo_def settled)
  next
    case 2
    then show ?thesis using assms(1) f t delivered [OF p] by (auto simp: stepInfo_def settled)
  next
    case 3
    then have "s2 = s1" using t takeOneDue_None(1) by blast
    then show ?thesis using assms(1) f t 3 p
      by (cases "sim_nextDeadline s1") (auto simp: stepInfo_def dest: sim_nextDeadline_Some(1) advanceTo)
  qed
qed

lemma stepUntil:
  assumes "StepUntil react pred n s = Some (b, s')" "P s"
  shows "P s'"
  using assms
proof (induction n arbitrary: s)
  case (Suc n)
  then obtain i s1 where i: "stepInfo react s = Some (i, s1)" by (cases "stepInfo react s") auto
  then have "P s1" using stepInfo Suc.prems(2) by blast
  then show ?case using Suc i by (cases i) (auto split: if_splits)
qed simp

lemma sched_run:
  assumes "sched_run react d pred s = Some (b, s')" "P s"
  shows "P s'"
  using runLoop [OF _ refl settled [OF assms(2)]] assms(1) by (fastforce simp: sched_run_def)

end

text \<open>A property of the mesh and of what was handed over that does not depend on the clock.\<close>

locale plain_invariant =
  fixes react :: "('f, 'w) react" and P :: "('f, 'w) mesh \<Rightarrow> bool"
  assumes act: "P s \<Longrightarrow> P (doAct a s)"
    and time: "P s \<Longrightarrow> P (s\<lparr>now := t, entries := es\<rparr>)"
    and nodes: "P s \<Longrightarrow> P (s\<lparr>world := w\<rparr>)"
    and observed: "P s \<Longrightarrow> P (observe f s)"
    and taken: "P s \<Longrightarrow> i < length (mpending s) \<Longrightarrow>
      P (s\<lparr>rng := g, mpending := take i (mpending s) @ drop (Suc i) (mpending s)\<rparr>)"
    and handedOver: "P s \<Longrightarrow> i < length (mpending s) \<Longrightarrow>
      P (s\<lparr>rng := g, mpending := take i (mpending s) @ drop (Suc i) (mpending s),
           handed := handed s @ [(now s, mpending s ! i)]\<rparr>)"
begin

lemma acts: "P s \<Longrightarrow> P (fold doAct as s)"
  by (induction as arbitrary: s) (simp_all add: act)

lemma stimulated: "P s \<Longrightarrow> P (stimulate react x s)"
  by (simp add: stimulate_def split_beta acts nodes)

lemma clocked: "P s \<Longrightarrow> P (s\<lparr>now := t\<rparr>)"
  using time [where s = s and t = t and es = "entries s"] by simp

lemma removed: "P s \<Longrightarrow> P (removeLocked e s)"
  using time [where s = s and t = "now s" and es = "remove1 e (entries s)"] by (simp add: removeLocked_def)

lemma given:
  assumes "P s" "takeOneDue t s = (Some d, s')"
  shows "P (deliverTo react d s')"
proof -
  obtain i where i: "i < length (mpending s)" "d = mpending s ! i"
      "s' = s\<lparr>rng := stl (rng s), mpending := take i (mpending s) @ drop (Suc i) (mpending s)\<rparr>"
    using assms(2) by (elim takeOneDue_Some)
  have r: "s\<lparr>rng := stl (rng s), mpending := ms, recorder := r, handed := h\<rparr> =
      s\<lparr>rng := stl (rng s), mpending := ms, handed := h, recorder := r\<rparr>" for ms r h by simp
  show ?thesis
  proof (cases rule: deliverTo_cases [of react d s'])
    case 1
    then show ?thesis using i taken [OF assms(1)] by simp
  next
    case (2 x f)
    have "observe f s' \<lparr>handed := handed s' @ [(now s', d)]\<rparr> =
        observe f (s'\<lparr>handed := handed s' @ [(now s', d)]\<rparr>)"
      by (simp add: observe_def)
    moreover have "P (s'\<lparr>handed := handed s' @ [(now s', d)]\<rparr>)"
      using handedOver [OF assms(1) i(1)] by (simp add: i(2,3))
    ultimately show ?thesis by (simp add: 2 stimulated observed)
  qed
qed

lemma advance:
  assumes "P s" "Advance (callback react) d s = Some s'"
  shows "P s'"
proof (cases "d \<le> 0")
  case True
  then show ?thesis using assms by (simp add: Advance_def)
next
  case False
  then have "advanceLoop (callback react) (now s + d) s = Some s'" using assms(2) by (simp add: Advance_def)
  then have "\<exists>c0. P c0 \<and> earliestDueLocked (now s + d) c0 = None \<and> s' = c0\<lparr>now := now s + d\<rparr>"
    by (rule advanceLoop_rule [rotated 2]) (auto intro!: stimulated removed clocked assms(1))
  then show ?thesis using clocked by blast
qed

end

sublocale plain_invariant \<subseteq> sim_invariant
  by unfold_locales (auto intro: stimulated observed removed given advance)

subsection \<open>Every call of a test\<close>

text \<open>The calls that do not run the scheduler.\<close>

fun setupCall :: "('f, 'w) sim_call \<Rightarrow> bool" where
  "setupCall (CRun _) = False"
| "setupCall (CRunUntil _ _) = False"
| "setupCall CStep = False"
| "setupCall (CStepUntil _ _) = False"
| "setupCall _ = True"

context sim_invariant
begin

lemma called:
  assumes "setupCall c \<Longrightarrow> P s'" and "P s" "sim_do react c s = Some s'"
  shows "P s'"
proof (cases "setupCall c")
  case True
  then show ?thesis using assms by blast
next
  case False
  then show ?thesis using assms(2,3)
    by (cases c) (auto simp: sim_Run_def sim_RunUntil_def sim_Step_def dest: sched_run stepInfo stepUntil)
qed

lemma reached:
  assumes "\<And>c s s'. P s \<Longrightarrow> setupCall c \<Longrightarrow> sim_do react c s = Some s' \<Longrightarrow> P s'"
    and "\<And>g r w. P (newMesh g r w)" "sim_reach react s"
  shows "P s"
  using assms(3)
proof (induction rule: sim_reach.induct)
  case (new g r w)
  then show ?case by (rule assms(2))
next
  case (call s c s')
  show ?case by (rule called [OF _ call.IH call.hyps(2)]) (rule assms(1) [OF call.IH _ call.hyps(2)])
qed

end

end
