(* ===== verification/Mesh_Safety.thy ===== *)
theory Mesh_Safety
  imports Sim_Safety
begin

text \<open>
  The sessions and faults of the mesh in every state a test can reach, whatever its nodes do:
  sessions are two-sided, none crosses a cut link, and no message does.
\<close>

subsection \<open>Sessions, cuts and messages in flight\<close>

definition gone :: "Host \<Rightarrow> ('f, 'w) mesh \<Rightarrow> bool" where
  "gone h s \<longleftrightarrow> (case mnodes s h of None \<Rightarrow> False | Some n \<Rightarrow> cancelled n)"

text \<open>A message in flight has a session, unless an endpoint was taken down after it was sent.\<close>

definition carried :: "delivery \<Rightarrow> ('f, 'w) mesh \<Rightarrow> bool" where
  "carried d s \<longleftrightarrow>
     (case dload d of
        Ev _ \<Rightarrow> True
      | Msg _ \<Rightarrow> (dfrom d, dnode d) \<notin> cut s \<and>
          (dnode d \<in> peersOf (dfrom d) s \<or> gone (dfrom d) s \<or> gone (dnode d) s))"

definition mesh_ok :: "('f, 'w) mesh \<Rightarrow> bool" where
  "mesh_ok s \<longleftrightarrow>
     (\<forall>a b. b \<in> peersOf a s \<longleftrightarrow> a \<in> peersOf b s) \<and>
     (\<forall>a b. (a, b) \<in> cut s \<longleftrightarrow> (b, a) \<in> cut s) \<and>
     (\<forall>a b. b \<in> peersOf a s \<longrightarrow> (a, b) \<notin> cut s) \<and>
     (\<forall>d \<in> set (mpending s). carried d s)"

lemma mesh_okD:
  assumes "mesh_ok s"
  shows "b \<in> peersOf a s \<longleftrightarrow> a \<in> peersOf b s" "(a, b) \<in> cut s \<longleftrightarrow> (b, a) \<in> cut s"
    "b \<in> peersOf a s \<Longrightarrow> (a, b) \<notin> cut s" "d \<in> set (mpending s) \<Longrightarrow> carried d s"
  using assms unfolding mesh_ok_def by blast+

lemma mesh_ok_cong:
  assumes "mesh_ok s" "mnodes s' = mnodes s" "cut s' = cut s" "set (mpending s') \<subseteq> set (mpending s)"
  shows "mesh_ok s'"
proof -
  have p: "peersOf h s' = peersOf h s" "gone h s' = gone h s" for h
    by (simp_all add: peersOf_def gone_def assms(2))
  have "carried d s' = carried d s" for d by (simp add: carried_def p assms(3) split: payload.splits)
  then show ?thesis using assms(1,3,4) unfolding mesh_ok_def by (auto simp: p)
qed

lemma mesh_enqueue_simps [simp]:
  "mnodes (sched_enqueue n p s) = mnodes s" "cut (sched_enqueue n p s) = cut s"
  "peersOf h (sched_enqueue n p s) = peersOf h s" "gone h (sched_enqueue n p s) = gone h s"
  "mpending (sched_enqueue n p s) = mpending s @ [Delivery (now s) (sseq s + 1) n zeroHost p]"
  "handed (sched_enqueue n p s) = handed s" "now (sched_enqueue n p s) = now s"
  by (simp_all add: sched_enqueue_def peersOf_def gone_def)

lemma mesh_observe_simps [simp]:
  "mnodes (observe f s) = mnodes s" "cut (observe f s) = cut s" "mpending (observe f s) = mpending s"
  "handed (observe f s) = handed s" "now (observe f s) = now s" "entries (observe f s) = entries s"
  "delay (observe f s) = delay s" "rng (observe f s) = rng s" "loss (observe f s) = loss s"
  "peersOf h (observe f s) = peersOf h s" "gone h (observe f s) = gone h s" "world (observe f s) = world s"
  by (simp_all add: observe_def peersOf_def gone_def)

lemma onNode_simps [simp]:
  "cut (onNode h f s) = cut s" "mpending (onNode h f s) = mpending s" "handed (onNode h f s) = handed s"
  "now (onNode h f s) = now s" "mnodes (onNode h f s) = (mnodes s)(h := map_option f (mnodes s h))"
  by (simp_all add: onNode_def)

lemma purge_simps [simp]:
  "cut (purgeLinkLocked a b s) = cut s" "mnodes (purgeLinkLocked a b s) = mnodes s"
  "mpending (purgeLinkLocked a b s) = filter (\<lambda>d. \<not> between a b d) (mpending s)"
  "handed (purgeLinkLocked a b s) = handed s" "now (purgeLinkLocked a b s) = now s"
  "peersOf h (purgeLinkLocked a b s) = peersOf h s" "gone h (purgeLinkLocked a b s) = gone h s"
  by (simp_all add: purgeLinkLocked_def peersOf_def gone_def)

lemma peersOf_cut_upd [simp]:
  "peersOf h (s\<lparr>cut := c\<rparr>) = peersOf h s" "gone h (s\<lparr>cut := c\<rparr>) = gone h s"
  by (simp_all add: peersOf_def gone_def)

lemma peersOf_None: "mnodes s h = None \<Longrightarrow> peersOf h s = {}"
  by (simp add: peersOf_def)

lemma gone_delPeer [simp]: "gone x (delPeer a b s) = gone x s"
  by (auto simp: gone_def split: option.splits)

lemma gone_addPeer [simp]: "gone x (addPeer a b s) = gone x s"
  by (auto simp: gone_def split: option.splits)

lemma peersOf_delPeer [simp]: "peersOf x (delPeer a b s) = (if x = a then peersOf x s - {b} else peersOf x s)"
  by (auto simp: peersOf_def split: option.splits)

lemma peersOf_addPeer [simp]:
  "peersOf x (addPeer a b s) = (if x = a \<and> mnodes s a \<noteq> None then insert b (peersOf x s) else peersOf x s)"
  by (auto simp: peersOf_def split: option.splits)

subsection \<open>Every operation keeps the invariant\<close>

lemma ok_enqueue_Ev: "mesh_ok s \<Longrightarrow> mesh_ok (sched_enqueue n (Ev e) s)"
proof -
  assume o: "mesh_ok s"
  have "carried d (sched_enqueue n (Ev e) s) = carried d s" for d
    by (simp add: carried_def split: payload.splits)
  then show ?thesis using o unfolding mesh_ok_def by (auto simp: carried_def)
qed

lemma ok_observe: "mesh_ok s \<Longrightarrow> mesh_ok (observe f s)"
  by (erule mesh_ok_cong) simp_all

text \<open>Taking a session down and purging its link, as \<open>Disconnect\<close> and a cut do.\<close>

lemma ok_unlink:
  assumes o: "mesh_ok s" and p: "peersOf b s' = peersOf b s - {a}" "peersOf a s' = peersOf a s - {b}"
    "\<And>x. x \<noteq> a \<Longrightarrow> x \<noteq> b \<Longrightarrow> peersOf x s' = peersOf x s" "\<And>x. gone x s' = gone x s"
    and c: "cut s' = cut s \<or> cut s' = insert (b, a) (insert (a, b) (cut s))"
    and m: "mpending s' = filter (\<lambda>d. \<not> between a b d) (mpending s)"
  shows "mesh_ok s'"
proof -
  have q: "y \<in> peersOf x s' \<longleftrightarrow> y \<in> peersOf x s \<and> \<not> (x = a \<and> y = b \<or> x = b \<and> y = a)" for x y
    using p by (cases "x = a"; cases "x = b") auto
  have cc: "(x, y) \<in> cut s' \<Longrightarrow> (x, y) \<in> cut s \<or> (x = a \<and> y = b \<or> x = b \<and> y = a)" for x y using c by auto
  have "carried d s'" if d: "d \<in> set (mpending s')" for d
  proof -
    have "d \<in> set (mpending s)" "\<not> between a b d" using d by (simp_all add: m)
    then show ?thesis using mesh_okD(4) [OF o, of d] cc
      by (auto simp: carried_def between_def q p(4) split: payload.splits)
  qed
  moreover have "(x, y) \<in> cut s' \<longleftrightarrow> (y, x) \<in> cut s'" for x y using c mesh_okD(2) [OF o] by auto
  moreover have "y \<in> peersOf x s' \<longleftrightarrow> x \<in> peersOf y s'" for x y
    using mesh_okD(1) [OF o, of x y] q [of x y] q [of y x] by auto
  moreover have "(x, y) \<notin> cut s'" if "y \<in> peersOf x s'" for x y
    using that q [of y x] cc [of x y] mesh_okD(3) [OF o, of y x] by auto
  ultimately show ?thesis by (simp add: mesh_ok_def)
qed

lemma cutLinkLocked_ok: "mesh_ok s \<Longrightarrow> mesh_ok (snd (cutLinkLocked a b s))"
proof -
  assume o: "mesh_ok s"
  let ?t = "mnodes s a \<noteq> None \<and> mnodes s b \<noteq> None \<and> b \<in> peersOf a s"
  show ?thesis
  proof (cases "b \<in> peersOf a s")
    case True
    then have "a \<in> peersOf b s" using mesh_okD(1) [OF o] by blast
    then have t: ?t using True peersOf_None [of s a] peersOf_None [of s b] by auto
    show ?thesis by (rule ok_unlink [OF o, where a = a and b = b]) (use t in \<open>auto simp: cutLinkLocked_def Let_def\<close>)
  next
    case False
    then have "a \<notin> peersOf b s" using mesh_okD(1) [OF o] by blast
    then show ?thesis
      by (intro ok_unlink [OF o, where a = a and b = b]) (use False in \<open>auto simp: cutLinkLocked_def Let_def\<close>)
  qed
qed

lemma ok_Disconnect: "mesh_ok s \<Longrightarrow> mesh_ok (mesh_Disconnect a b s)"
proof -
  assume o: "mesh_ok s"
  show ?thesis
  proof (cases "b \<in> peersOf a s")
    case False
    then show ?thesis using o by (simp add: mesh_Disconnect_def)
  next
    case True
    then have "mnodes (delPeer a b s) b \<noteq> None" using mesh_okD(1) [OF o] peersOf_None [of s b] by auto
    moreover have "mesh_ok (purgeLinkLocked a b (delPeer b a (delPeer a b s)))"
      by (rule ok_unlink [OF o, where a = a and b = b]) (auto simp: if_distrib)
    ultimately show ?thesis using True
      by (simp add: mesh_Disconnect_def Let_def surface_def ok_enqueue_Ev del: onNode_simps(5))
  qed
qed

lemma ok_Connect: "mesh_ok s \<Longrightarrow> mnodes s a \<noteq> None \<Longrightarrow> mesh_ok (simConnect a b s)"
proof -
  assume o: "mesh_ok s" and a: "mnodes s a \<noteq> None"
  show ?thesis
  proof (cases "canDial b s \<and> (a, b) \<notin> cut s \<and> b \<notin> peersOf a s")
    case False
    then show ?thesis using o ok_enqueue_Ev by (auto simp: simConnect_def isCutLocked_def)
  next
    case True
    let ?s = "addPeer b a (addPeer a b s)"
    have b: "mnodes s b \<noteq> None" using True by (auto simp: canDial_def split: option.splits)
    have q: "y \<in> peersOf x ?s \<longleftrightarrow> y \<in> peersOf x s \<or> x = a \<and> y = b \<or> x = b \<and> y = a" for x y
      using a b by auto
    have "carried d ?s" if "d \<in> set (mpending s)" for d
      using mesh_okD(4) [OF o that] by (auto simp: carried_def q split: payload.splits)
    moreover have "y \<in> peersOf x ?s \<longleftrightarrow> x \<in> peersOf y ?s" for x y
      unfolding q using mesh_okD(1) [OF o, of x y] by blast
    moreover have "(x, y) \<notin> cut s" if "y \<in> peersOf x ?s" for x y
      using that [unfolded q] True mesh_okD(2) [OF o, of a b] mesh_okD(3) [OF o, of y x] by blast
    ultimately have "mesh_ok ?s" using mesh_okD(2) [OF o] by (simp add: mesh_ok_def)
    then show ?thesis using True by (simp add: simConnect_def isCutLocked_def Let_def ok_enqueue_Ev del: onNode_simps(5))
  qed
qed

lemma dropDecision_simps:
  assumes "dropDecisionLocked a b s = (r, s')"
  shows "mnodes s' = mnodes s" "cut s' = cut s" "mpending s' = mpending s" "handed s' = handed s"
    "now s' = now s" "delay s' = delay s" "entries s' = entries s" "sseq s' = sseq s"
    "recorder s' = recorder s" "r = None \<Longrightarrow> (a, b) \<notin> cut s"
  using assms by (auto simp: dropDecisionLocked_def isCutLocked_def Let_def split_beta split: if_splits option.splits)

text \<open>A send changes nothing but the generator and the trace, or puts one message in flight.\<close>

lemma sched_send_cases:
  obtains "sched_send a b m s = s"
  | g f where "sched_send a b m s = observe f (s\<lparr>rng := g\<rparr>)"
  | g d where "b \<in> peersOf a s" "(a, b) \<notin> cut s" "mnodes s b \<noteq> None"
      "d = (case delay s (a, b) of Some spec \<Rightarrow> fst (sample spec g) | None \<Rightarrow> 0)"
      "sched_send a b m s = s\<lparr>rng := (case delay s (a, b) of Some spec \<Rightarrow> snd (sample spec g) | None \<Rightarrow> g),
         sseq := sseq s + 1, mpending := mpending s @ [Delivery (now s + d) (sseq s + 1) b a (Msg m)]\<rparr>"
proof (cases "b \<notin> peersOf a s \<or> mnodes s b = None")
  case True
  then show ?thesis using that by (simp add: sched_send_def)
next
  case False
  obtain r s1 where d: "dropDecisionLocked a b s = (r, s1)" by fastforce
  then have "s1 = s\<lparr>rng := rng s1\<rparr>"
    by (auto simp: dropDecisionLocked_def Let_def split_beta split: if_splits option.splits)
  then obtain g where s1: "s1 = s\<lparr>rng := g\<rparr>" by blast
  show ?thesis
  proof (cases r)
    case (Some reason)
    then have "sched_send a b m s = observe (rec_drop a b (wireIDOf m) reason) (s\<lparr>rng := g\<rparr>)"
      using False d s1 by (auto simp: sched_send_def)
    then show ?thesis using that by blast
  next
    case None
    have "(a, b) \<notin> cut s" using dropDecision_simps(10) [OF d None] .
    then show ?thesis using that(3) [of _ g] False d None
      by (auto simp: sched_send_def s1 split_beta split: option.splits)
  qed
qed

lemma ok_send: "mesh_ok s \<Longrightarrow> mesh_ok (sched_send a b m s)"
proof -
  assume o: "mesh_ok s"
  show ?thesis
  proof (cases rule: sched_send_cases [where a = a and b = b and m = m and s = s])
    case 1
    then show ?thesis using o by simp
  next
    case (2 g f)
    have "mesh_ok (s\<lparr>rng := g\<rparr>)" by (rule mesh_ok_cong [OF o]) simp_all
    then show ?thesis by (simp add: 2 ok_observe)
  next
    case (3 g d)
    have p: "peersOf x (sched_send a b m s) = peersOf x s" "gone x (sched_send a b m s) = gone x s" for x
      by (simp_all add: 3(5) peersOf_def gone_def)
    have "carried x (sched_send a b m s) = carried x s" for x
      by (simp add: carried_def p split: payload.splits) (simp add: 3(5))
    moreover have "carried (Delivery t q b a (Msg m)) s" for t q using 3(1,2) by (simp add: carried_def)
    moreover have "cut (sched_send a b m s) = cut s" by (simp add: 3(5))
    ultimately show ?thesis using o unfolding mesh_ok_def p by (auto simp: 3(5))
  qed
qed

lemma gone_Cancel: "gone h (mesh_Cancel n s) \<longleftrightarrow> gone h s \<or> h = n \<and> mnodes s n \<noteq> None"
  by (auto simp: gone_def mesh_Cancel_def Let_def peersOf_def split: option.splits)

lemma peersOf_Cancel:
  "peersOf h (mesh_Cancel n s) = (if h = n then {} else if h \<in> peersOf n s then peersOf h s - {n} else peersOf h s)"
  by (auto simp: mesh_Cancel_def Let_def peersOf_def split: option.splits)

lemma ok_Cancel: "mesh_ok s \<Longrightarrow> mesh_ok (mesh_Cancel n s)"
proof -
  assume o: "mesh_ok s"
  have m: "cut (mesh_Cancel n s) = cut s" "mpending (mesh_Cancel n s) = mpending s"
    by (simp_all add: mesh_Cancel_def Let_def)
  have q: "y \<in> peersOf x (mesh_Cancel n s) \<longleftrightarrow> y \<in> peersOf x s \<and> x \<noteq> n \<and> y \<noteq> n" for x y
    using mesh_okD(1) [OF o, of x n] by (auto simp: peersOf_Cancel)
  have "carried d (mesh_Cancel n s)" if "d \<in> set (mpending s)" for d
  proof -
    have "mnodes s x \<noteq> None" if "y \<in> peersOf x s" for x y using that peersOf_None by fastforce
    then show ?thesis using mesh_okD(4) [OF o that] mesh_okD(1) [OF o, of "dfrom d" "dnode d"]
      by (cases "dload d") (auto simp: carried_def q m(1) gone_Cancel)
  qed
  moreover have "y \<in> peersOf x (mesh_Cancel n s) \<longleftrightarrow> x \<in> peersOf y (mesh_Cancel n s)" for x y
    unfolding q using mesh_okD(1) [OF o, of x y] by blast
  ultimately show ?thesis using mesh_okD(2,3) [OF o] by (simp add: mesh_ok_def q m)
qed

lemma clock_simps [simp]:
  "mnodes (snd (clock_stop i s)) = mnodes s" "cut (snd (clock_stop i s)) = cut s"
  "mpending (snd (clock_stop i s)) = mpending s" "handed (snd (clock_stop i s)) = handed s"
  "now (snd (clock_stop i s)) = now s" "delay (snd (clock_stop i s)) = delay s"
  "mnodes (snd (AfterFunc t f s)) = mnodes s" "cut (snd (AfterFunc t f s)) = cut s"
  "mpending (snd (AfterFunc t f s)) = mpending s" "handed (snd (AfterFunc t f s)) = handed s"
  "now (snd (AfterFunc t f s)) = now s" "delay (snd (AfterFunc t f s)) = delay s"
  by (simp_all add: AfterFunc_def nextSeq_def clock_stop_def removeLocked_def Let_def split: option.splits)

lemma ok_clock:
  "mesh_ok s \<Longrightarrow> mesh_ok (snd (AfterFunc d f s))" "mesh_ok s \<Longrightarrow> mesh_ok (snd (clock_stop i s))"
  by (erule mesh_ok_cong, simp_all)+

lemma ok_doAct: "mesh_ok s \<Longrightarrow> mesh_ok (doAct a s)"
  by (cases a) (simp_all add: ok_send ok_Connect ok_Disconnect ok_Cancel ok_clock)

lemma mset_taken: "i < length xs \<Longrightarrow> mset xs = add_mset (xs ! i) (mset (take i xs @ drop (Suc i) xs))"
  by (metis Cons_nth_drop_Suc append_take_drop_id mset_append mset.simps(2) union_mset_add_mset_right)

lemma set_taken: "i < length xs \<Longrightarrow> set (take i xs @ drop (Suc i) xs) \<subseteq> set xs"
  using set_take_subset [of i xs] set_drop_subset [of "Suc i" xs] by auto

interpretation mesh_sessions: plain_invariant react mesh_ok for react
proof unfold_locales
  fix s :: "('a, 'b) mesh" assume o: "mesh_ok s"
  show "mesh_ok (doAct a s)" for a by (rule ok_doAct [OF o])
  show "mesh_ok (s\<lparr>now := t, entries := es\<rparr>)" for t es by (rule mesh_ok_cong [OF o]) simp_all
  show "mesh_ok (s\<lparr>world := w\<rparr>)" for w by (rule mesh_ok_cong [OF o]) simp_all
  show "mesh_ok (observe f s)" for f by (rule ok_observe [OF o])
  fix i g assume i: "i < length (mpending s)"
  show "mesh_ok (s\<lparr>rng := g, mpending := take i (mpending s) @ drop (Suc i) (mpending s)\<rparr>)"
    by (rule mesh_ok_cong [OF o]) (simp_all del: set_append add: set_taken [OF i])
  show "mesh_ok (s\<lparr>rng := g, mpending := take i (mpending s) @ drop (Suc i) (mpending s),
      handed := handed s @ [(now s, mpending s ! i)]\<rparr>)"
    by (rule mesh_ok_cong [OF o]) (simp_all del: set_append add: set_taken [OF i])
qed

lemma Node_simps [simp]:
  "cut (sim_Node h ps s) = cut s" "mpending (sim_Node h ps s) = mpending s" "handed (sim_Node h ps s) = handed s"
  "now (sim_Node h ps s) = now s" "delay (sim_Node h ps s) = delay s" "entries (sim_Node h ps s) = entries s"
  "peersOf x (sim_Node h ps s) = peersOf x s" "gone x (sim_Node h ps s) = gone x s"
  by (auto simp: sim_Node_def UseSyncInbound_def mesh_Node_def onNode_def observe_def peersOf_def gone_def
      split: option.splits)

lemma ok_Node: "mesh_ok s \<Longrightarrow> mesh_ok (sim_Node h ps s)"
proof -
  assume o: "mesh_ok s"
  have "carried d (sim_Node h ps s) = carried d s" for d by (simp add: carried_def split: payload.splits)
  then show ?thesis using o by (simp add: mesh_ok_def)
qed

lemma ok_Cut: "mesh_ok s \<Longrightarrow> mesh_ok (mesh_Cut a b s)"
  using cutLinkLocked_ok [of s a b] by (simp add: mesh_Cut_def Let_def split_beta surface_def ok_enqueue_Ev ok_observe)

lemma ok_Heal: "mesh_ok s \<Longrightarrow> mesh_ok (mesh_Heal a b s)"
proof -
  assume o: "mesh_ok s"
  let ?s = "s\<lparr>cut := cut s - {(a, b), (b, a)}, isolated := isolated s - {a, b}\<rparr>"
  have p: "peersOf h ?s = peersOf h s" "gone h ?s = gone h s" for h by (simp_all add: peersOf_def gone_def)
  have "carried d ?s" if "d \<in> set (mpending s)" for d
    using mesh_okD(4) [OF o that] by (auto simp: carried_def p split: payload.splits)
  moreover have "(x, y) \<in> cut ?s \<longleftrightarrow> (y, x) \<in> cut ?s" for x y using mesh_okD(2) [OF o, of x y] by auto
  moreover have "(x, y) \<notin> cut ?s" if "y \<in> peersOf x s" for x y using mesh_okD(3) [OF o that] by simp
  moreover have "y \<in> peersOf x s \<longleftrightarrow> x \<in> peersOf y s" for x y using mesh_okD(1) [OF o, of y x] .
  ultimately have "mesh_ok ?s" unfolding mesh_ok_def p by simp
  then show ?thesis by (simp add: mesh_Heal_def ok_observe)
qed

lemma ok_cutEach: "mesh_ok s \<Longrightarrow> mesh_ok (snd (cutEach h xs s))"
  by (induction xs arbitrary: s) (auto simp: Let_def split_beta cutLinkLocked_ok)

lemma ok_surfaces: "mesh_ok s \<Longrightarrow>
    mesh_ok (fold (\<lambda>x s. surface x (SessionDisconnected h) (surface h (SessionDisconnected x) s)) xs s)"
  by (induction xs arbitrary: s) (simp_all add: surface_def ok_enqueue_Ev)

lemma ok_Isolate: "mesh_ok s \<Longrightarrow> mesh_ok (mesh_Isolate order h s)"
proof -
  assume o: "mesh_ok s"
  have "mesh_ok (s\<lparr>isolated := insert h (isolated s)\<rparr>)" by (rule mesh_ok_cong [OF o]) simp_all
  then show ?thesis by (simp add: mesh_Isolate_def Let_def split_beta ok_surfaces ok_observe ok_cutEach)
qed

lemma ok_policy: "mesh_ok s \<Longrightarrow> mesh_ok (mesh_SetLoss a b p s)" "mesh_ok s \<Longrightarrow> mesh_ok (mesh_SetDelay a b d j s)"
  by (erule mesh_ok_cong; simp add: mesh_SetLoss_def mesh_SetDelay_def Let_def)+

lemma ok_setup: "mesh_ok s \<Longrightarrow> setupCall c \<Longrightarrow> sim_do react c s = Some s' \<Longrightarrow> mesh_ok s'"
  by (cases c)
    (auto simp: ok_Node ok_Cut ok_Heal ok_Isolate ok_policy ok_Cancel intro: mesh_sessions.stimulated)

lemma ok_new: "mesh_ok (newMesh g r w)"
  by (simp add: mesh_ok_def newMesh_def peersOf_def)

text \<open>In every state a test can reach, whatever its nodes do: a session has two ends, a cut has two
  directions, no session crosses a cut link, and every message in flight has a session, unless one
  of its ends was taken down.\<close>

theorem sim_sessions_two_sided:
  assumes "sim_reach react s"
  shows "(b \<in> peersOf a s \<longleftrightarrow> a \<in> peersOf b s) \<and> ((a, b) \<in> cut s \<longleftrightarrow> (b, a) \<in> cut s) \<and>
    \<not> (b \<in> peersOf a s \<and> (a, b) \<in> cut s) \<and>
    {d \<in> set (mpending s). \<not> carried d s} = {}"
proof -
  have "mesh_ok s" by (rule mesh_sessions.reached [OF ok_setup ok_new assms])
  then show ?thesis unfolding mesh_ok_def by blast
qed

subsection \<open>A partition holds\<close>

definition crossed :: "Host \<Rightarrow> Host \<Rightarrow> (int \<times> delivery) list \<Rightarrow> (int \<times> delivery) list" where
  "crossed a b hs = filter (\<lambda>(t, d). between a b d) hs"

definition parted :: "Host \<Rightarrow> Host \<Rightarrow> (int \<times> delivery) list \<Rightarrow> ('f, 'w) mesh \<Rightarrow> bool" where
  "parted a b h0 s \<longleftrightarrow> mesh_ok s \<and> (a, b) \<in> cut s \<and> crossed a b (handed s) = h0"

lemma doAct_simps [simp]: "cut (doAct a s) = cut s" "handed (doAct a s) = handed s" "now (doAct a s) = now s"
proof -
  have send: "cut (sched_send x y m s) = cut s \<and> handed (sched_send x y m s) = handed s \<and> now (sched_send x y m s) = now s"
    for x y m by (cases rule: sched_send_cases [where a = x and b = y and m = m and s = s]) simp_all
  show "cut (doAct a s) = cut s" "handed (doAct a s) = handed s" "now (doAct a s) = now s"
    by (cases a; simp add: send simConnect_def mesh_Disconnect_def mesh_Cancel_def surface_def Let_def)+
qed

lemma parted_cong: "parted a b h0 s \<Longrightarrow> mesh_ok s' \<Longrightarrow> cut s' = cut s \<Longrightarrow> handed s' = handed s \<Longrightarrow> parted a b h0 s'"
  by (simp add: parted_def)

lemma parted_taken:
  assumes "parted a b h0 s" "i < length (mpending s)"
  shows "\<not> between a b (mpending s ! i)"
proof -
  have o: "mesh_ok s" and c: "(a, b) \<in> cut s" using assms(1) by (simp_all add: parted_def)
  have "carried (mpending s ! i) s" using mesh_okD(4) [OF o] assms(2) by simp
  moreover have "(b, a) \<in> cut s" using mesh_okD(2) [OF o] c by blast
  ultimately show ?thesis using c by (auto simp: carried_def between_def split: payload.splits)
qed

interpretation partition: plain_invariant react "parted a b h0" for react a b h0
proof unfold_locales
  fix s :: "('a, 'b) mesh" assume p: "parted a b h0 s"
  then have o: "mesh_ok s" by (simp add: parted_def)
  show "parted a b h0 (doAct x s)" for x by (rule parted_cong [OF p]) (simp_all add: ok_doAct o)
  show "parted a b h0 (s\<lparr>now := t, entries := es\<rparr>)" for t es
    by (rule parted_cong [OF p]) (simp_all add: mesh_sessions.time o)
  show "parted a b h0 (s\<lparr>world := w\<rparr>)" for w by (rule parted_cong [OF p]) (simp_all add: mesh_sessions.nodes o)
  show "parted a b h0 (observe f s)" for f by (rule parted_cong [OF p]) (simp_all add: ok_observe o)
  fix i g assume i: "i < length (mpending s)"
  let ?ms = "take i (mpending s) @ drop (Suc i) (mpending s)"
  show "parted a b h0 (s\<lparr>rng := g, mpending := ?ms\<rparr>)"
    by (rule parted_cong [OF p mesh_sessions.taken [OF o i]]) simp_all
  show "parted a b h0 (s\<lparr>rng := g, mpending := ?ms, handed := handed s @ [(now s, mpending s ! i)]\<rparr>)"
    using p mesh_sessions.handedOver [OF o i] parted_taken [OF p i] by (simp add: parted_def crossed_def)
qed

text \<open>Only \<open>Heal\<close> takes a link out of the cut table.\<close>

lemma cut_setup:
  "handed (mesh_Cut x y s) = handed s" "cut s \<subseteq> cut (mesh_Cut x y s)"
  "handed (mesh_Isolate order h s) = handed s" "cut s \<subseteq> cut (mesh_Isolate order h s)"
  "handed (mesh_Heal x y s) = handed s" "cut (mesh_Heal x y s) = cut s - {(x, y), (y, x)}"
  "handed (mesh_Cancel h s) = handed s" "cut (mesh_Cancel h s) = cut s"
  "handed (mesh_SetLoss x y p s) = handed s" "cut (mesh_SetLoss x y p s) = cut s"
  "handed (mesh_SetDelay x y d j s) = handed s" "cut (mesh_SetDelay x y d j s) = cut s"
proof -
  have link: "handed (snd (cutLinkLocked x y s)) = handed s \<and> cut s \<subseteq> cut (snd (cutLinkLocked x y s))"
    for x y and s :: "('a, 'b) mesh" by (auto simp: cutLinkLocked_def Let_def)
  have each: "handed (snd (cutEach h xs s)) = handed s \<and> cut s \<subseteq> cut (snd (cutEach h xs s))"
    for xs and s :: "('a, 'b) mesh"
  proof (induction xs arbitrary: s)
    case (Cons x xs)
    then show ?case using link [of h x s] Cons.IH [of "snd (cutLinkLocked h x s)"]
      by (auto simp: Let_def split_beta)
  qed simp
  have surf: "handed (fold (\<lambda>x s. surface x e (surface h (f x) s)) xs s) = handed s \<and>
      cut (fold (\<lambda>x s. surface x e (surface h (f x) s)) xs s) = cut s" for e f xs and s :: "('a, 'b) mesh"
    by (induction xs arbitrary: s) (simp_all add: surface_def)
  show "handed (mesh_Cut x y s) = handed s" "cut s \<subseteq> cut (mesh_Cut x y s)"
    using link [of x y s] by (auto simp: mesh_Cut_def Let_def split_beta surface_def)
  show "handed (mesh_Isolate order h s) = handed s" "cut s \<subseteq> cut (mesh_Isolate order h s)"
    using each [of "filter (\<lambda>x. x \<noteq> h) order" "s\<lparr>isolated := insert h (isolated s)\<rparr>"]
    by (auto simp: mesh_Isolate_def Let_def split_beta surf)
  show "handed (mesh_Heal x y s) = handed s" "cut (mesh_Heal x y s) = cut s - {(x, y), (y, x)}"
    "handed (mesh_Cancel h s) = handed s" "cut (mesh_Cancel h s) = cut s"
    "handed (mesh_SetLoss x y p s) = handed s" "cut (mesh_SetLoss x y p s) = cut s"
    "handed (mesh_SetDelay x y d j s) = handed s" "cut (mesh_SetDelay x y d j s) = cut s"
    by (simp_all add: mesh_Heal_def mesh_Cancel_def mesh_SetLoss_def mesh_SetDelay_def Let_def)
qed

fun heals :: "Host \<Rightarrow> Host \<Rightarrow> ('f, 'w) sim_call \<Rightarrow> bool" where
  "heals a b (CHeal x y) = (x = a \<and> y = b \<or> x = b \<and> y = a)"
| "heals a b _ = False"

lemma parted_setup:
  assumes "parted a b h0 s" "setupCall c" "\<not> heals a b c" "sim_do react c s = Some s'"
  shows "parted a b h0 s'"
proof -
  have o: "mesh_ok s'" using assms ok_setup unfolding parted_def by blast
  have "parted a b h0 (stimulate react x s)" for x by (rule partition.stimulated [OF assms(1)])
  moreover have "parted a b h0 (stimulate react x (sim_Node h ps s))" for x h ps
    by (rule partition.stimulated [OF parted_cong [OF assms(1)]]) (use assms(1) in \<open>simp_all add: ok_Node parted_def\<close>)
  moreover have "(a, b) \<in> cut s" using assms(1) by (simp add: parted_def)
  ultimately show ?thesis using assms o
    by (cases c) (auto simp: parted_def cut_setup(1,3,5-) intro: subsetD [OF cut_setup(2)] subsetD [OF cut_setup(4)])
qed

text \<open>What a test does to its simulation, call after call.\<close>

fun sim_calls :: "('f, 'w) react \<Rightarrow> ('f, 'w) sim_call list \<Rightarrow> ('f, 'w) mesh \<Rightarrow> ('f, 'w) mesh option" where
  "sim_calls react [] s = Some s"
| "sim_calls react (c # cs) s = Option.bind (sim_do react c s) (sim_calls react cs)"

text \<open>C17. Once the link of two hosts is cut, no message between them is handed to a node, whatever the
  test and the nodes do, until the link is healed; messages that were in flight are lost.\<close>

theorem sim_partition_holds:
  assumes "sim_reach react s" "(a, b) \<in> cut s" "sim_calls react cs s = Some s'"
    "filter (heals a b) cs = []"
  shows "crossed a b (handed s') = crossed a b (handed s) \<and> (a, b) \<in> cut s' \<and> b \<notin> peersOf a s'"
proof -
  have "parted a b (crossed a b (handed s)) s'"
    if "parted a b (crossed a b (handed s)) s0" "sim_calls react cs s0 = Some s'" "filter (heals a b) cs = []" for cs s0
    using that
  proof (induction cs arbitrary: s0)
    case (Cons c cs)
    then obtain s1 where s1: "sim_do react c s0 = Some s1" "sim_calls react cs s1 = Some s'"
      by (auto simp: bind_eq_Some_conv)
    have h: "\<not> heals a b c" "filter (heals a b) cs = []" using Cons.prems(3) by (auto split: if_splits)
    have "parted a b (crossed a b (handed s)) s1"
      by (rule partition.called [OF _ Cons.prems(1) s1(1)]) (rule parted_setup [OF Cons.prems(1) _ h(1) s1(1)])
    then show ?case using Cons.IH s1(2) h(2) by blast
  qed simp
  moreover have "mesh_ok s" by (rule mesh_sessions.reached [OF ok_setup ok_new assms(1)])
  ultimately have "parted a b (crossed a b (handed s)) s'" using assms(2-4) by (simp add: parted_def)
  then show ?thesis using mesh_okD(3) unfolding parted_def by blast
qed

end
