(* ===== verification/Sim_Timing.thy ===== *)
theory Sim_Timing
  imports Mesh_Safety
begin

text \<open>
  Time under the simulator: nothing is ever overdue, a delivery happens at exactly the time it was
  scheduled for, and \<open>Run\<close> ends, on the instant asked for, when the nodes do a bounded amount of work
  at one instant.
\<close>

subsection \<open>Nothing is overdue\<close>

text \<open>The nodes arm no timer for the past; \<open>AfterFunc\<close> itself would accept one.\<close>

fun prompt_act :: "'f act \<Rightarrow> bool" where
  "prompt_act (AArm d f) = (0 \<le> d)"
| "prompt_act _ = True"

definition prompt :: "('f, 'w) react \<Rightarrow> bool" where
  "prompt react \<longleftrightarrow> (\<forall>x t i w. list_all prompt_act (snd (react x t i w)))"

definition delay_ok :: "delaySpec \<Rightarrow> bool" where
  "delay_ok d \<longleftrightarrow> 0 \<le> base d \<or> 0 < jitter d"

definition timed :: "('f, 'w) mesh \<Rightarrow> bool" where
  "timed s \<longleftrightarrow> ahead (now s) s \<and> (\<forall>l d. delay s l = Some d \<longrightarrow> delay_ok d) \<and>
     (\<forall>(t, d) \<in> set (handed s). t = dueAt d \<and> t \<le> now s) \<and> sorted (map fst (handed s))"

lemma sample_nonneg: "delay_ok d \<Longrightarrow> 0 \<le> fst (sample d g)"
  by (auto simp: sample_def delay_ok_def Let_def split_beta)

lemma timed_cong:
  assumes "timed s" "now s' = now s" "handed s' = handed s" "delay s' = delay s"
    "\<And>e. e \<in> set (entries s') \<Longrightarrow> e \<in> set (entries s) \<or> now s \<le> deadline e"
    "\<And>d. d \<in> set (mpending s') \<Longrightarrow> d \<in> set (mpending s) \<or> now s \<le> dueAt d"
  shows "timed s'"
proof -
  have "ahead (now s) s'" using assms(1,5,6) unfolding timed_def ahead_def by blast
  then show ?thesis using assms(1) by (simp add: timed_def assms(2-4))
qed

lemma timed_observe: "timed s \<Longrightarrow> timed (observe f s)"
  by (erule timed_cong) simp_all

lemma timed_enqueue: "timed s \<Longrightarrow> timed (sched_enqueue n p s)"
  by (erule timed_cong) (auto simp: sched_enqueue_def)

lemma timed_purge: "timed s \<Longrightarrow> timed (purgeLinkLocked a b s)"
  by (erule timed_cong) (auto simp: purgeLinkLocked_def)

lemma timed_onNode: "timed s \<Longrightarrow> timed (onNode h f s)"
  by (erule timed_cong) (simp_all add: onNode_def)

lemma timed_send: "timed s \<Longrightarrow> timed (sched_send a b m s)"
proof -
  assume t: "timed s"
  show ?thesis
  proof (cases rule: sched_send_cases [where a = a and b = b and m = m and s = s])
    case 1
    then show ?thesis using t by simp
  next
    case (2 g f)
    have "timed (s\<lparr>rng := g\<rparr>)" by (rule timed_cong [OF t]) simp_all
    then show ?thesis by (simp add: 2 timed_observe)
  next
    case (3 g d)
    have "0 \<le> d" using t sample_nonneg unfolding 3(4) timed_def by (auto split: option.splits)
    then show ?thesis by (intro timed_cong [OF t]) (auto simp: 3(5))
  qed
qed

lemma timed_Connect: "timed s \<Longrightarrow> timed (simConnect a b s)"
  by (simp add: simConnect_def Let_def timed_enqueue timed_onNode)

lemma timed_Disconnect: "timed s \<Longrightarrow> timed (mesh_Disconnect a b s)"
  by (simp add: mesh_Disconnect_def Let_def surface_def timed_enqueue timed_onNode timed_purge del: onNode_simps)

lemma timed_Cancel: "timed s \<Longrightarrow> timed (mesh_Cancel a s)"
  by (erule timed_cong) (simp_all add: mesh_Cancel_def Let_def onNode_def)

lemma timed_clock:
  "timed s \<Longrightarrow> 0 \<le> d \<Longrightarrow> timed (snd (AfterFunc d f s))" "timed s \<Longrightarrow> timed (snd (clock_stop i s))"
proof -
  assume t: "timed s"
  show "timed (snd (AfterFunc d f s))" if "0 \<le> d"
    by (rule timed_cong [OF t]) (use that in \<open>auto simp: AfterFunc_def nextSeq_def Let_def\<close>)
  show "timed (snd (clock_stop i s))"
    by (rule timed_cong [OF t])
      (auto simp: clock_stop_def removeLocked_def split: option.splits dest: subsetD [OF set_remove1_subset])
qed

lemma timed_doAct: "timed s \<Longrightarrow> prompt_act a \<Longrightarrow> timed (doAct a s)"
  by (cases a) (simp_all add: timed_send timed_Connect timed_Disconnect timed_Cancel timed_clock)

lemma acts_now [simp]: "now (fold doAct as s) = now s" "handed (fold doAct as s) = handed s"
  by (induction as arbitrary: s) simp_all

lemma stimulate_simps [simp]: "now (stimulate react x s) = now s" "handed (stimulate react x s) = handed s"
  by (simp_all add: stimulate_def split_beta)

lemma settle_simps [simp]: "now (settle react s) = now s" "handed (settle react s) = handed s"
  by (simp_all add: settle_def)

lemma timed_stimulate:
  assumes "timed s" "prompt react"
  shows "timed (stimulate react x s)"
proof -
  have "timed (fold doAct as s)" if "timed s" "list_all prompt_act as" for as and s :: "('a, 'b) mesh"
    using that by (induction as arbitrary: s) (simp_all add: timed_doAct)
  moreover have "timed (s\<lparr>world := w\<rparr>)" for w by (rule timed_cong [OF assms(1)]) simp_all
  ultimately show ?thesis using assms(2) by (simp add: stimulate_def split_beta prompt_def)
qed

lemma timed_removed: "timed s \<Longrightarrow> timed (removeLocked e s)"
  by (erule timed_cong) (auto simp: removeLocked_def dest: subsetD [OF set_remove1_subset])

lemma observe_handed: "(observe f s)\<lparr>handed := h\<rparr> = observe f (s\<lparr>handed := h\<rparr>)"
  by (simp add: observe_def)

lemma timed_delivered:
  assumes "timed s" "prompt react" "takeOneDue (now s) s = (Some d, s')"
  shows "timed (deliverTo react d s')"
proof -
  obtain i where i: "i < length (mpending s)" "d = mpending s ! i" "dueAt d \<le> now s"
      "s' = s\<lparr>rng := stl (rng s), mpending := take i (mpending s) @ drop (Suc i) (mpending s)\<rparr>"
    using assms(3) by (elim takeOneDue_Some)
  have t: "timed s'"
    by (rule timed_cong [OF assms(1)]) (use set_taken [OF i(1)] in \<open>auto simp: i(4)\<close>)
  have "d \<in> set (mpending s)" using i(1,2) by simp
  then have d: "dueAt d = now s'" using i(3,4) assms(1) by (auto simp: timed_def ahead_def)
  have "timed (s'\<lparr>handed := handed s' @ [(now s', d)]\<rparr>)"
    using t d by (auto simp: timed_def ahead_def sorted_append)
  then have "timed ((observe f s')\<lparr>handed := handed s' @ [(now s', d)]\<rparr>)" for f
    by (simp add: observe_handed timed_observe)
  then show ?thesis using t assms(2)
    by (cases rule: deliverTo_cases [of react d s']) (simp_all add: timed_stimulate)
qed

text \<open>While the clock advances to an instant before which nothing is due, every fire is at that instant.\<close>

definition stepping :: "int \<Rightarrow> ('f, 'w) mesh \<Rightarrow> bool" where
  "stepping t s \<longleftrightarrow> timed s \<and> now s \<le> t \<and> (now s = t \<or> ahead t s)"

lemma stepping_fire:
  assumes "stepping t s" "earliestDueLocked t s = Some e"
  shows "deadline e = t" "timed (removeLocked e (s\<lparr>now := deadline e\<rparr>))"
proof -
  have e: "e \<in> set (entries s)" "deadline e \<le> t" using earliestDue_Some [OF assms(2)] by simp_all
  show d: "deadline e = t" using assms(1) e by (auto simp: stepping_def timed_def ahead_def)
  have "timed (s\<lparr>now := t\<rparr>)" using assms(1) by (fastforce simp: stepping_def timed_def ahead_def)
  then show "timed (removeLocked e (s\<lparr>now := deadline e\<rparr>))" by (simp add: d timed_removed)
qed

lemma stepping_next:
  assumes "stepping t s" "prompt react" "earliestDueLocked t s = Some e"
  shows "stepping t (callback react (efn e) (removeLocked e (s\<lparr>now := deadline e\<rparr>)))"
  using stepping_fire [OF assms(1,3)] timed_stimulate [OF _ assms(2)] by (simp add: stepping_def)

lemma timed_advance:
  assumes "timed s" "prompt react" "now s < t" "ahead t s"
    "Advance (callback react) (t - now s) s = Some s'"
  shows "timed s' \<and> now s' = t"
proof -
  have "advanceLoop (callback react) t s = Some s'" using assms(3,5) by (simp add: Advance_def)
  moreover have "stepping t s" using assms(1,3,4) by (simp add: stepping_def)
  ultimately obtain c0 where c0: "stepping t c0" "earliestDueLocked t c0 = None" "s' = c0\<lparr>now := t\<rparr>"
    using advanceLoop_rule [where P = "stepping t" and run = "callback react" and target = t and c = s and c' = s']
      stepping_next [OF _ assms(2)] by blast
  then have "timed s'" by (fastforce simp: stepping_def timed_def ahead_def earliestDue_None)
  then show ?thesis using c0(3) by simp
qed

interpretation timing: sim_invariant react "\<lambda>s. prompt react \<longrightarrow> timed s" for react
  by unfold_locales (auto intro: timed_stimulate timed_observe timed_removed timed_delivered dest: timed_advance)

lemma timed_new: "timed (newMesh g r w)"
  by (simp add: newMesh_def timed_def ahead_def)

lemma timed_fields:
  assumes "timed s"
  shows "timed (s\<lparr>cut := c\<rparr>)" "timed (s\<lparr>isolated := i\<rparr>)" "timed (s\<lparr>loss := l\<rparr>)"
  by (rule timed_cong [OF assms]; simp)+

lemma timed_link: "timed s \<Longrightarrow> timed (snd (cutLinkLocked a b s))"
  by (simp add: cutLinkLocked_def Let_def timed_purge timed_onNode timed_fields del: onNode_simps)

lemma timed_each: "timed s \<Longrightarrow> timed (snd (cutEach h xs s))"
  by (induction xs arbitrary: s) (auto simp: Let_def split_beta timed_link)

lemma timed_faults:
  assumes "timed s"
  shows "timed (mesh_Cut a b s)" "timed (mesh_Heal a b s)" "timed (mesh_Isolate order h s)" "timed (mesh_SetLoss a b p s)"
proof -
  show "timed (mesh_Cut a b s)" using timed_link [OF assms, of a b]
    by (simp add: mesh_Cut_def Let_def split_beta surface_def timed_enqueue timed_observe)
  show "timed (mesh_Heal a b s)" by (rule timed_cong [OF assms]) (simp_all add: mesh_Heal_def)
  show "timed (mesh_SetLoss a b p s)" using assms
    by (simp add: mesh_SetLoss_def Let_def timed_observe timed_fields)
  have "timed (fold (\<lambda>x s. surface x e (surface h (f x) s)) xs s)" if "timed s" for e f xs and s :: "('a, 'b) mesh"
    using that by (induction xs arbitrary: s) (simp_all add: surface_def timed_enqueue)
  then show "timed (mesh_Isolate order h s)" using assms
    by (simp add: timed_fields mesh_Isolate_def Let_def split_beta timed_observe timed_each)
qed

lemma timed_SetDelay: "timed s \<Longrightarrow> timed (mesh_SetDelay a b d j s)"
proof -
  assume t: "timed s"
  have upd: "timed (s\<lparr>delay := D\<rparr>)" if D: "\<And>l x. D l = Some x \<Longrightarrow> delay s l = Some x \<or> delay_ok x" for D
  proof -
    have "delay_ok x" if "D l = Some x" for l x using D [OF that] t unfolding timed_def by blast
    then show ?thesis using t by (simp add: timed_def ahead_def)
  qed
  have "timed (s\<lparr>delay := (delay s)((a, b) := None, (b, a) := None)\<rparr>)"
    by (rule upd) (auto split: if_splits)
  moreover have "timed (s\<lparr>delay := (delay s)((a, b) \<mapsto> \<lparr>base = d, jitter = j\<rparr>, (b, a) \<mapsto> \<lparr>base = d, jitter = j\<rparr>)\<rparr>)"
    if "0 < d \<or> 0 < j" by (rule upd) (use that in \<open>auto simp: delay_ok_def split: if_splits\<close>)
  ultimately show ?thesis by (auto simp: mesh_SetDelay_def Let_def not_le intro!: timed_observe)
qed

lemma timed_setup:
  assumes "timed s" "prompt react" "setupCall c" "sim_do react c s = Some s'"
  shows "timed s'"
proof -
  have "timed (sim_Node h ps s)" for h ps by (rule timed_cong [OF assms(1)]) simp_all
  then show ?thesis using assms
    by (cases c) (auto simp: timed_faults timed_SetDelay timed_Cancel intro!: timed_stimulate)
qed

lemma timed_reach: "prompt react \<Longrightarrow> sim_reach react s \<Longrightarrow> timed s"
  using timing.reached [of react s, OF _ _ ] timed_setup timed_new by (metis (no_types, lifting))

text \<open>C18. When no node arms a timer for the past, virtual time never goes back: deliveries are handed
  over in the order of their times, each at exactly the time it was scheduled for, and in no state a
  test can reach is a timer or a delivery overdue.\<close>

theorem sim_on_time:
  assumes "prompt react" "sim_reach react s"
  shows "sorted (map fst (handed s)) \<and> filter (\<lambda>(t, d). t \<noteq> dueAt d \<or> now s < t) (handed s) = [] \<and>
    filter (\<lambda>e. deadline e < now s) (entries s) = [] \<and> filter (\<lambda>d. dueAt d < now s) (mpending s) = []"
  using timed_reach [OF assms] by (auto simp: timed_def ahead_def filter_empty_conv not_less)

end
