(* ===== verification/Sim_Progress.thy ===== *)
theory Sim_Progress
  imports Sim_Timing
begin

text \<open>
  \<open>Run\<close> and \<open>RunUntil\<close> return.  The nodes may go on for ever, with periodic timers and messages that
  take time; what they must not do is cause endless work at one instant.  \<open>m t w\<close> bounds the work that
  nodes in the state \<open>w\<close> can still cause at the instant \<open>t\<close>.
\<close>

subsection \<open>Work due now\<close>

text \<open>The deliveries and fires an operation can make due at the instant at which it is done.\<close>

fun burst :: "'f act \<Rightarrow> nat" where
  "burst (ASend _ _ _) = 1"
| "burst (AConnect _ _) = 2"
| "burst (ADisconnect _ _) = 2"
| "burst (ACancel _) = 0"
| "burst (AArm d _) = (if d \<le> 0 then 1 else 0)"
| "burst (AStop _) = 0"

definition bounded_work :: "(int \<Rightarrow> 'w \<Rightarrow> nat) \<Rightarrow> ('f, 'w) react \<Rightarrow> bool" where
  "bounded_work m react \<longleftrightarrow>
     (\<forall>x t i w. \<not> external x \<longrightarrow> m t (fst (react x t i w)) + sum_list (map burst (snd (react x t i w))) \<le> m t w)"

definition dueCount :: "('f, 'w) mesh \<Rightarrow> nat" where
  "dueCount s = length (filter (\<lambda>e. deadline e \<le> now s) (entries s)) +
     length (filter (\<lambda>d. dueAt d \<le> now s) (mpending s))"

definition load :: "(int \<Rightarrow> 'w \<Rightarrow> nat) \<Rightarrow> ('f, 'w) mesh \<Rightarrow> nat" where
  "load m s = m (now s) (world s) + dueCount s"

lemma dueCount_cong:
  "now s' = now s \<Longrightarrow> entries s' = entries s \<Longrightarrow> mpending s' = mpending s \<Longrightarrow> dueCount s' = dueCount s"
  by (simp add: dueCount_def)

lemma dueCount_observe [simp]: "dueCount (observe f s) = dueCount s"
  by (rule dueCount_cong) simp_all

lemma dueCount_onNode [simp]: "dueCount (onNode h f s) = dueCount s"
  by (rule dueCount_cong) (simp_all add: onNode_def)

lemma dueCount_enqueue: "dueCount (sched_enqueue n p s) \<le> dueCount s + 1"
  by (simp add: dueCount_def sched_enqueue_def)

lemma length_filter2: "length (filter p (filter q xs)) \<le> length (filter p xs)"
  by (induction xs) auto

lemma dueCount_purge: "dueCount (purgeLinkLocked a b s) \<le> dueCount s"
  using length_filter2 by (simp add: dueCount_def purgeLinkLocked_def del: filter_filter)

lemma length_filter_remove1: "length (filter p (remove1 x xs)) \<le> length (filter p xs)"
  by (simp add: filter_remove1 length_remove1)

lemma dueCount_send: "dueCount (sched_send a b m s) \<le> dueCount s + 1"
proof (cases rule: sched_send_cases [where a = a and b = b and m = m and s = s])
  case (2 g f)
  have "dueCount (s\<lparr>rng := g\<rparr>) = dueCount s" by (rule dueCount_cong) simp_all
  then show ?thesis by (simp add: 2)
qed (simp_all add: dueCount_def)

lemma dueCount_Disconnect: "dueCount (mesh_Disconnect a b s) \<le> dueCount s + 2"
proof -
  let ?s = "delPeer a b s"
  let ?d = "if mnodes ?s b \<noteq> None then delPeer b a ?s else ?s"
  define y where "y = surface a (SessionDisconnected b) (purgeLinkLocked a b ?d)"
  have "dueCount (purgeLinkLocked a b ?d) \<le> dueCount s"
    using dueCount_purge [of a b ?d] by (simp del: onNode_simps split: if_splits)
  then have 1: "dueCount y \<le> dueCount s + 1"
    using dueCount_enqueue [of a "Ev (SessionDisconnected b)" "purgeLinkLocked a b ?d"]
    unfolding y_def surface_def by linarith
  have 2: "dueCount (surface b (SessionDisconnected a) y) \<le> dueCount y + 1"
    unfolding surface_def by (rule dueCount_enqueue)
  have "mesh_Disconnect a b s =
      (if b \<notin> peersOf a s then s else if mnodes ?s b \<noteq> None then surface b (SessionDisconnected a) y else y)"
    by (simp only: mesh_Disconnect_def Let_def y_def)
  then have "mesh_Disconnect a b s \<in> {s, y, surface b (SessionDisconnected a) y}" by (simp del: onNode_simps)
  then show ?thesis using 1 2 by auto
qed

lemma dueCount_Connect: "dueCount (simConnect a b s) \<le> dueCount s + 2"
proof -
  let ?s = "addPeer b a (addPeer a b s)"
  have "dueCount (sched_enqueue b (Ev (SessionConnected a)) (sched_enqueue a (Ev (SessionConnected b)) ?s)) \<le> dueCount ?s + 2"
    using dueCount_enqueue [of b "Ev (SessionConnected a)" "sched_enqueue a (Ev (SessionConnected b)) ?s"]
      dueCount_enqueue [of a "Ev (SessionConnected b)" ?s] by linarith
  then show ?thesis using dueCount_enqueue [of a "Ev (SessionFailed b)" s]
    by (auto simp: simConnect_def Let_def simp del: onNode_simps)
qed

lemma dueCount_doAct: "dueCount (doAct a s) \<le> dueCount s + burst a"
proof (cases a)
  case (AArm d f)
  then show ?thesis by (simp add: dueCount_def AfterFunc_def nextSeq_def Let_def)
next
  case (AStop i)
  then show ?thesis
    by (auto simp: dueCount_def clock_stop_def removeLocked_def length_filter_remove1 split: option.splits)
next
  case (ACancel h)
  then have "dueCount (doAct a s) = dueCount s"
    by (intro dueCount_cong) (simp_all add: mesh_Cancel_def Let_def onNode_def)
  then show ?thesis by simp
qed (use dueCount_send dueCount_Connect dueCount_Disconnect in auto)

lemma doAct_world [simp]: "world (doAct a s) = world s"
proof -
  have "world (sched_send x y m s) = world s" for x y m
    by (cases rule: sched_send_cases [where a = x and b = y and m = m and s = s]) simp_all
  then show ?thesis
    by (cases a) (auto simp: simConnect_def mesh_Disconnect_def mesh_Cancel_def surface_def sched_enqueue_def
        purgeLinkLocked_def onNode_def AfterFunc_def nextSeq_def clock_stop_def removeLocked_def Let_def
        split: option.splits)
qed

lemma load_stimulate:
  fixes react :: "('f, 'w) react"
  assumes "bounded_work m react" "\<not> external x"
  shows "load m (stimulate react x s) \<le> load m s"
proof -
  have acts: "world (fold doAct as s) = world s \<and> dueCount (fold doAct as s) \<le> dueCount s + sum_list (map burst as)"
    for as and s :: "('f, 'w) mesh"
  proof (induction as arbitrary: s)
    case (Cons a as)
    show ?case using Cons.IH [of "doAct a s"] dueCount_doAct [of a s] by simp
  qed simp
  obtain w as where r: "react x (now s) (cseq s) (world s) = (w, as)" by fastforce
  have "m (now s) w + sum_list (map burst as) \<le> m (now s) (world s)"
    using assms r unfolding bounded_work_def by (metis fst_conv snd_conv)
  moreover have "dueCount (s\<lparr>world := w\<rparr>) = dueCount s" by (rule dueCount_cong) simp_all
  ultimately show ?thesis using acts [of as "s\<lparr>world := w\<rparr>"] by (simp add: load_def stimulate_def r)
qed

lemma length_filter_taken:
  "i < length xs \<Longrightarrow> p (xs ! i) \<Longrightarrow> Suc (length (filter p (take i xs @ drop (Suc i) xs))) = length (filter p xs)"
  using mset_taken [of i xs, THEN arg_cong [where f = "\<lambda>M. size (filter_mset p M)"]]
  by (simp flip: mset_filter del: filter_append mset_append add: size_mset)

lemma load_fired:
  assumes "e \<in> set (entries s)" "deadline e \<le> now s"
  shows "Suc (load m (removeLocked e s)) = load m s"
proof -
  have "e \<in> set (filter (\<lambda>e. deadline e \<le> now s) (entries s))" using assms by simp
  then have "Suc (length (remove1 e (filter (\<lambda>e. deadline e \<le> now s) (entries s)))) =
      length (filter (\<lambda>e. deadline e \<le> now s) (entries s))"
    by (metis One_nat_def Suc_pred length_pos_if_in_set length_remove1)
  then show ?thesis by (simp add: load_def dueCount_def removeLocked_def filter_remove1)
qed

lemma load_taken:
  assumes "takeOneDue (now s) s = (Some d, s')"
  shows "Suc (load m s') = load m s" "now s' = now s"
proof -
  obtain i where i: "i < length (mpending s)" "d = mpending s ! i" "dueAt d \<le> now s"
      "s' = s\<lparr>rng := stl (rng s), mpending := take i (mpending s) @ drop (Suc i) (mpending s)\<rparr>"
    using assms by (elim takeOneDue_Some)
  have "Suc (length (filter (\<lambda>d. dueAt d \<le> now s) (take i (mpending s) @ drop (Suc i) (mpending s)))) =
      length (filter (\<lambda>d. dueAt d \<le> now s) (mpending s))"
    by (rule length_filter_taken) (use i in auto)
  then show "Suc (load m s') = load m s" by (simp add: i(4) load_def dueCount_def del: filter_append)
  show "now s' = now s" by (simp add: i(4))
qed

lemma load_deliver:
  assumes "bounded_work m react"
  shows "load m (deliverTo react d s) \<le> load m s" "now (deliverTo react d s) = now s"
proof -
  have "load m ((observe f s)\<lparr>handed := h\<rparr>) = load m s" for f h
    using dueCount_cong [of "(observe f s)\<lparr>handed := h\<rparr>" s] by (simp add: load_def)
  then show "load m (deliverTo react d s) \<le> load m s"
    using load_stimulate [OF assms] by (cases rule: deliverTo_cases [of react d s]) (simp, metis)
  show "now (deliverTo react d s) = now s" by (cases rule: deliverTo_cases [of react d s]) simp_all
qed

subsection \<open>Every loop of the scheduler ends\<close>

lemma fireDue_ends:
  assumes "bounded_work m react"
  shows "\<exists>b' s'. fireDueLoop (callback react) b s = Some (b', s') \<and> now s' = now s \<and>
    (if earliestDueLocked (now s) s = None then b' = b \<and> s' = s else b' \<and> load m s' < load m s) \<and>
    earliestDueLocked (now s') s' = None"
proof (induction "load m s" arbitrary: b s rule: less_induct)
  case less
  show ?case
  proof (cases "earliestDueLocked (now s) s")
    case None
    then show ?thesis by (subst fireDueLoop.simps) simp
  next
    case (Some e)
    let ?s = "callback react (efn e) (removeLocked e s)"
    have "Suc (load m (removeLocked e s)) = load m s" by (rule load_fired) (use earliestDue_Some [OF Some] in auto)
    then have l: "load m ?s < load m s" using load_stimulate [OF assms, of "SFire (efn e)" "removeLocked e s"] by simp
    obtain b' s' where "fireDueLoop (callback react) True ?s = Some (b', s')" "now s' = now ?s"
        "if earliestDueLocked (now ?s) ?s = None then b' = True \<and> s' = ?s else b' \<and> load m s' < load m ?s"
        "earliestDueLocked (now s') s' = None"
      using less [OF l, of True] by blast
    then show ?thesis using l Some by (subst fireDueLoop.simps) (auto split: if_splits)
  qed
qed

definition sim_idle :: "('f, 'w) mesh \<Rightarrow> bool" where
  "sim_idle s \<longleftrightarrow> (\<forall>e \<in> set (entries s). now s < deadline e) \<and> (\<forall>d \<in> set (mpending s). now s < dueAt d)"

lemma settle_load: "bounded_work m react \<Longrightarrow> load m (settle react s) \<le> load m s"
  by (simp add: settle_def load_stimulate)

lemma drainOnce_eq:
  assumes "fireDueLoop (callback react) False s = Some (f, s1)"
    "takeOneDue (now (if f then settle react s1 else s1)) (if f then settle react s1 else s1) = (r, s2)"
  shows "drainOnce react s =
    Some (case r of Some d \<Rightarrow> (True, settle react (deliverTo react d s2)) | None \<Rightarrow> (f, s2))"
  using assms by (auto simp: drainOnce_def fireDue_def Let_def split: option.splits)

lemma drainOnce_ends:
  assumes b: "bounded_work m react"
  shows "\<exists>p s'. drainOnce react s = Some (p, s') \<and> now s' = now s \<and> (if p then load m s' < load m s else sim_idle s')"
proof -
  obtain f s1 where f: "fireDueLoop (callback react) False s = Some (f, s1)" "now s1 = now s"
      "if earliestDueLocked (now s) s = None then f = False \<and> s1 = s else f \<and> load m s1 < load m s"
      "earliestDueLocked (now s1) s1 = None"
    using fireDue_ends [OF b, of False s] by blast
  let ?s = "if f then settle react s1 else s1"
  have l: "load m ?s \<le> load m s" "f \<Longrightarrow> load m ?s < load m s" "now ?s = now s"
    using f(2,3) settle_load [OF b, of s1] by (auto split: if_splits)
  obtain r s2 where t: "takeOneDue (now ?s) ?s = (r, s2)" by fastforce
  have e: "drainOnce react s =
      Some (case r of Some d \<Rightarrow> (True, settle react (deliverTo react d s2)) | None \<Rightarrow> (f, s2))"
    using f(1) t by (rule drainOnce_eq)
  show ?thesis
  proof (cases r)
    case None
    then have n: "s2 = ?s" "\<forall>d \<in> set (mpending ?s). now ?s < dueAt d" using t takeOneDue_None [of "now ?s" ?s s2] by simp_all
    then have "\<not> f \<Longrightarrow> sim_idle s2" using f(4) by (simp add: sim_idle_def earliestDue_None)
    then show ?thesis using e None l n(1) by auto
  next
    case (Some d)
    have "Suc (load m s2) = load m ?s" "now s2 = now ?s" using load_taken t Some by blast+
    then have "load m (settle react (deliverTo react d s2)) < load m s"
      using load_deliver(1) [OF b, of d s2] settle_load [OF b, of "deliverTo react d s2"] l(1) by linarith
    then show ?thesis using e Some load_deliver(2) [OF b, of d s2] \<open>now s2 = now ?s\<close> l(3) by auto
  qed
qed

lemma drainDue_ends:
  assumes "bounded_work m react"
  shows "\<exists>s'. drainDue react s = Some s' \<and> now s' = now s \<and> sim_idle s'"
proof (induction "load m s" arbitrary: s rule: less_induct)
  case less
  obtain p s1 where o: "drainOnce react s = Some (p, s1)" "now s1 = now s"
      "if p then load m s1 < load m s else sim_idle s1"
    using drainOnce_ends [OF assms, of s] by blast
  show ?case
  proof (cases p)
    case True
    then show ?thesis using less [of s1] o by (subst drainDue.simps) simp
  next
    case False
    then show ?thesis using o by (subst drainDue.simps) simp
  qed
qed

lemma advanceLoop_ends:
  assumes "bounded_work m react" "prompt react" "stepping t s"
  shows "\<exists>s'. advanceLoop (callback react) t s = Some s'"
  using assms(3)
proof (induction "load m (s\<lparr>now := t\<rparr>)" arbitrary: s rule: less_induct)
  case less
  show ?case
  proof (cases "earliestDueLocked t s")
    case None
    then show ?thesis by (subst advanceLoop.simps) simp
  next
    case (Some e)
    let ?c = "removeLocked e (s\<lparr>now := deadline e\<rparr>)"
    let ?s = "callback react (efn e) ?c"
    have d: "deadline e = t" by (rule stepping_fire(1) [OF less.prems Some])
    have "Suc (load m ?c) = load m (s\<lparr>now := t\<rparr>)"
      unfolding d by (rule load_fired) (use earliestDue_Some [OF Some] in auto)
    moreover have "?s\<lparr>now := t\<rparr> = ?s" using d by (intro mesh.equality) simp_all
    ultimately have "load m (?s\<lparr>now := t\<rparr>) < load m (s\<lparr>now := t\<rparr>)"
      using load_stimulate [OF assms(1), of "SFire (efn e)" ?c] by simp
    then show ?thesis using less.hyps stepping_next [OF less.prems assms(2) Some] Some
      by (subst advanceLoop.simps) simp
  qed
qed

lemma advanceTo_ends:
  assumes "bounded_work m react" "prompt react" "timed s" "now s \<le> t" "ahead t s"
  shows "\<exists>s'. advanceTo react t s = Some s' \<and> now s' = t \<and> timed s'"
proof (cases "now s < t")
  case True
  have "stepping t s" using assms(3-5) by (simp add: stepping_def)
  then obtain s1 where "advanceLoop (callback react) t s = Some s1" using advanceLoop_ends assms(1,2) by blast
  then have a: "Advance (callback react) (t - now s) s = Some s1" using True by (simp add: Advance_def)
  have "timed s1 \<and> now s1 = t" by (rule timed_advance [OF assms(3,2) True assms(5) a])
  then show ?thesis using a True assms(2)
    by (simp add: advanceTo_def settle_def timed_stimulate timed_observe)
next
  case False
  then show ?thesis using assms(2-4) by (simp add: advanceTo_def settle_def timed_stimulate)
qed

lemma sim_idle_next:
  assumes "sim_idle s" "sim_nextDeadline s = Some t"
  shows "now s < t"
  using sim_nextDeadline_Some(2) [OF assms(2)] assms(1) by (auto simp: sim_idle_def)

text \<open>What the loop of \<open>run\<close> returns, with the state in which it does.\<close>

definition run_result :: "('w \<Rightarrow> bool) option \<Rightarrow> int \<Rightarrow> bool \<Rightarrow> ('f, 'w) mesh \<Rightarrow> bool" where
  "run_result pred h b s \<longleftrightarrow> (b \<longleftrightarrow> pred = None \<or> holds pred s) \<and> now s \<le> h \<and> (\<not> holds pred s \<longrightarrow> now s = h)"

lemma run_result_horizon: "now s = h \<Longrightarrow> run_result pred h (pred = None \<or> holds pred s) s"
  by (simp add: run_result_def)

lemma holds_simps [simp]: "\<not> holds None s" "holds (Some p) s = p (world s)"
  by (simp_all add: holds_def)

lemma runLoop_ends:
  fixes react :: "('f, 'w) react"
  assumes "bounded_work m react" "prompt react" "timed s" "now s \<le> h"
  shows "\<exists>b s'. runLoop react pred h s = Some (b, s') \<and> run_result pred h b s'"
  using assms(3,4)
proof (induction "nat (h - now s)" arbitrary: s rule: less_induct)
  case less
  obtain s1 where d: "drainDue react s = Some s1" "now s1 = now s" "sim_idle s1"
    using drainDue_ends [OF assms(1)] by blast
  have t: "timed s1" using timing.drainDue [OF d(1) refl] less.prems(1) assms(2) by blast
  consider "holds pred s" | "\<not> holds pred s" "holds pred s1"
    | "\<not> holds pred s" "\<not> holds pred s1" "sim_nextDeadline s1 = None \<or> (\<exists>n. sim_nextDeadline s1 = Some n \<and> h < n)"
    | n where "\<not> holds pred s" "\<not> holds pred s1" "sim_nextDeadline s1 = Some n" "n \<le> h"
    by (metis not_less option.exhaust)
  then show ?case
  proof cases
    case 1
    then show ?thesis using less.prems(2)
      by (subst runLoop.simps) (auto simp: run_result_def)
  next
    case 2
    then show ?thesis using less.prems(2) d
      by (subst runLoop.simps) (auto simp: run_result_def)
  next
    case 3
    then have "ahead h s1" using sim_nextDeadline_None sim_nextDeadline_Some(1) ahead_mono less_imp_le by metis
    then obtain s2 where "advanceTo react h s1 = Some s2" "now s2 = h"
      using advanceTo_ends [OF assms(1,2) t] less.prems(2) d(2) by auto
    then show ?thesis using 3 d
      by (subst runLoop.simps) (auto intro: run_result_horizon)
  next
    case 4
    have "now s < n" using sim_idle_next [OF d(3) 4(3)] d(2) by simp
    then obtain s2 where s2: "advanceTo react n s1 = Some s2" "now s2 = n" "timed s2"
      using advanceTo_ends [OF assms(1,2) t _ sim_nextDeadline_Some(1) [OF 4(3)]] d(2) by auto
    then have "\<exists>b s'. runLoop react pred h s2 = Some (b, s') \<and> run_result pred h b s'"
      using less.hyps [of s2] \<open>now s < n\<close> 4(4) by simp
    then show ?thesis using 4 d(1) s2(1) by (subst runLoop.simps) simp
  qed
qed

lemma sched_run_ends:
  assumes "bounded_work m react" "prompt react" "sim_reach react s" "0 \<le> d"
  shows "\<exists>b s'. sched_run react d pred s = Some (b, s') \<and> run_result pred (now s + d) b s'"
  unfolding sched_run_def Let_def
  by (rule runLoop_ends [OF assms(1,2)])
    (use timed_reach [OF assms(2,3)] assms(2,4) in \<open>simp_all add: settle_def timed_stimulate\<close>)

text \<open>C19. Run returns, with virtual time exactly d later, whatever timers and messages the nodes keep
  alive, when they arm none for the past and cause a bounded amount of work at one instant.\<close>

theorem sim_run_lands:
  assumes "bounded_work m react" "prompt react" "sim_reach react s" "0 \<le> d"
  shows "\<exists>s'. sim_Run react d s = Some s' \<and> now s' = now s + d"
  using sched_run_ends [OF assms, of None] by (auto simp: sim_Run_def run_result_def holds_def)

text \<open>RunUntil returns whether its condition holds in the state it stops in, and gives up only at
  the horizon.\<close>

theorem sim_rununtil_ends:
  assumes "bounded_work m react" "prompt react" "sim_reach react s" "0 \<le> d"
  shows "\<exists>b s'. sim_RunUntil react p d s = Some (b, s') \<and> b = p (world s') \<and> now s' \<le> now s + d \<and>
    (b \<or> now s' = now s + d)"
  using sched_run_ends [OF assms, of "Some p"] by (auto simp: sim_RunUntil_def run_result_def holds_def)

end
