(* ===== verification/Sim_Trace.thy ===== *)
theory Sim_Trace
  imports Sim_Progress
begin

text \<open>
  The trace: a traced run and an untraced one do the same, and the lines of the trace are the
  deliveries, in order.  Then some runs on concrete inputs.
\<close>

subsection \<open>Tracing does not disturb the schedule\<close>

text \<open>The same mesh without a recorder.\<close>

definition bare :: "('f, 'w) mesh \<Rightarrow> ('f, 'w) mesh" where
  "bare s = s\<lparr>recorder := None\<rparr>"

lemma bare_simps [simp]:
  "now (bare s) = now s" "cseq (bare s) = cseq s" "entries (bare s) = entries s" "mnodes (bare s) = mnodes s"
  "rng (bare s) = rng s" "cut (bare s) = cut s" "loss (bare s) = loss s" "delay (bare s) = delay s"
  "isolated (bare s) = isolated s" "mpending (bare s) = mpending s" "sseq (bare s) = sseq s"
  "handed (bare s) = handed s" "world (bare s) = world s" "recorder (bare s) = None"
  "peersOf h (bare s) = peersOf h s" "canDial h (bare s) = canDial h s" "isCutLocked a b (bare s) = isCutLocked a b s"
  by (simp_all add: bare_def peersOf_def canDial_def isCutLocked_def)

lemma bare_bare [simp]: "bare (bare s) = bare s"
  by (simp add: bare_def)

lemma bare_observe: "bare (observe f s) = bare s" "observe f (bare s) = bare s"
  by (simp_all add: bare_def observe_def)

lemma bare_basic:
  "sched_enqueue n p (bare s) = bare (sched_enqueue n p s)" "onNode h f (bare s) = bare (onNode h f s)"
  "purgeLinkLocked a b (bare s) = bare (purgeLinkLocked a b s)" "surface h ev (bare s) = bare (surface h ev s)"
  "mesh_Cancel h (bare s) = bare (mesh_Cancel h s)" "removeLocked e (bare s) = bare (removeLocked e s)"
  by (rule mesh.equality;
      auto simp: surface_def sched_enqueue_def onNode_def purgeLinkLocked_def mesh_Cancel_def removeLocked_def
        Let_def fun_eq_iff)+

lemma bare_drop:
  "dropDecisionLocked a b (bare s) = (fst (dropDecisionLocked a b s), bare (snd (dropDecisionLocked a b s)))"
  by (auto simp: dropDecisionLocked_def Let_def split_beta bare_def isCutLocked_def split: option.splits)

lemma bare_send: "sched_send a b m (bare s) = bare (sched_send a b m s)"
proof (cases "b \<notin> peersOf a s \<or> mnodes s b = None")
  case True
  then show ?thesis by (simp add: sched_send_def)
next
  case False
  then obtain n where n: "b \<in> peersOf a s" "mnodes s b = Some n" by auto
  obtain r s1 where d: "dropDecisionLocked a b s = (r, s1)" by fastforce
  show ?thesis
  proof (cases r)
    case None
    then show ?thesis using n d
      by (intro mesh.equality) (simp_all add: sched_send_def bare_drop Let_def split_beta split: option.split)
  next
    case (Some reason)
    then show ?thesis using n d by (simp add: sched_send_def bare_drop bare_observe)
  qed
qed

lemma bare_clock:
  "AfterFunc d f (bare s) = (fst (AfterFunc d f s), bare (snd (AfterFunc d f s)))"
  "clock_stop i (bare s) = (fst (clock_stop i s), bare (snd (clock_stop i s)))"
  by (simp_all add: AfterFunc_def nextSeq_def clock_stop_def Let_def bare_basic split: option.splits)
    (rule mesh.equality; simp)?

lemma bare_doAct: "doAct a (bare s) = bare (doAct a s)"
  by (cases a) (simp_all add: bare_send bare_basic bare_clock simConnect_def mesh_Disconnect_def Let_def del: onNode_simps)

lemma bare_fields:
  "(bare s)\<lparr>world := w\<rparr> = bare (s\<lparr>world := w\<rparr>)" "(bare s)\<lparr>now := t\<rparr> = bare (s\<lparr>now := t\<rparr>)"
  "(bare s)\<lparr>handed := h\<rparr> = bare (s\<lparr>handed := h\<rparr>)"
  "bare ((observe f s)\<lparr>handed := h\<rparr>) = bare (s\<lparr>handed := h\<rparr>)"
  "(bare s)\<lparr>cut := c\<rparr> = bare (s\<lparr>cut := c\<rparr>)" "(bare s)\<lparr>isolated := i\<rparr> = bare (s\<lparr>isolated := i\<rparr>)"
  by (rule mesh.equality; simp add: observe_def)+

lemma bare_acts: "fold doAct as (bare s) = bare (fold doAct as s)"
  by (induction as arbitrary: s) (simp_all add: bare_doAct)

lemma bare_stimulate: "stimulate react x (bare s) = bare (stimulate react x s)"
  by (simp add: stimulate_def split_beta bare_fields(1) bare_acts)

lemma bare_settle: "settle react (bare s) = bare (settle react s)"
  by (simp add: settle_def bare_stimulate)

lemma bare_due: "earliestDueLocked t (bare s) = earliestDueLocked t s"
  by (simp add: earliestDueLocked_def)

lemma bare_take: "takeOneDue t (bare s) = (fst (takeOneDue t s), bare (snd (takeOneDue t s)))"
  by (auto simp: takeOneDue_def Let_def split_beta intro!: mesh.equality)

lemma bare_deliver: "deliverTo react d (bare s) = bare (deliverTo react d s)"
  by (auto simp: deliverTo_def Let_def bare_observe bare_fields simp flip: bare_stimulate split: option.splits payload.splits)

lemma bare_next: "sim_nextDeadline (bare s) = sim_nextDeadline s"
  by (simp add: sim_nextDeadline_def clock_nextDeadline_def)

text \<open>Two meshes that differ in their recorder only.\<close>

lemma alike:
  assumes "bare s = bare u"
  shows "now u = now s" "earliestDueLocked t u = earliestDueLocked t s" "sim_nextDeadline u = sim_nextDeadline s"
    "world u = world s" "bare (stimulate react x s) = bare (stimulate react x u)"
    "bare (removeLocked e s) = bare (removeLocked e u)" "bare (s\<lparr>now := t\<rparr>) = bare (u\<lparr>now := t\<rparr>)"
    "bare (observe f s) = bare (observe g u)" "bare (deliverTo react d s) = bare (deliverTo react d u)"
    "fst (takeOneDue t s) = fst (takeOneDue t u)" "bare (snd (takeOneDue t s)) = bare (snd (takeOneDue t u))"
proof -
  show "now u = now s" "world u = world s" using assms bare_simps(1,13) by (metis, metis)
  show "earliestDueLocked t u = earliestDueLocked t s" using assms bare_due by metis
  show "sim_nextDeadline u = sim_nextDeadline s" using assms bare_next by metis
  show "bare (stimulate react x s) = bare (stimulate react x u)" using assms bare_stimulate by metis
  show "bare (removeLocked e s) = bare (removeLocked e u)" using assms bare_basic(6) by metis
  show "bare (s\<lparr>now := t\<rparr>) = bare (u\<lparr>now := t\<rparr>)" using assms bare_fields(2) by metis
  show "bare (observe f s) = bare (observe g u)" using assms by (simp add: bare_observe)
  show "bare (deliverTo react d s) = bare (deliverTo react d u)" using assms bare_deliver by metis
  show "fst (takeOneDue t s) = fst (takeOneDue t u)" "bare (snd (takeOneDue t s)) = bare (snd (takeOneDue t u))"
    using assms bare_take [of t s] bare_take [of t u] by simp_all
qed

lemma alike_advanceLoop:
  assumes "advanceLoop r t s = Some s'" "r = callback react" "bare s = bare u"
  shows "\<exists>u'. advanceLoop r t u = Some u' \<and> bare s' = bare u'"
  using assms
proof (induction r t s s' arbitrary: u rule: advanceLoop.raw_induct [rotated, consumes 1])
  case (1 loop r t s s')
  show ?case
  proof (cases "earliestDueLocked t s")
    case None
    then show ?thesis using 1(2-) alike [OF 1(4)] by (subst advanceLoop.simps) auto
  next
    case (Some e)
    let ?c = "\<lambda>s. removeLocked e (s\<lparr>now := deadline e\<rparr>)"
    have "bare (callback react (efn e) (?c s)) = bare (callback react (efn e) (?c u))"
      by (intro alike(5) alike(6) alike(7)) (rule 1(4))
    moreover have "loop r t (callback react (efn e) (?c s)) = Some s'" using 1(2,3) Some by simp
    ultimately have "\<exists>u'. advanceLoop r t (callback react (efn e) (?c u)) = Some u' \<and> bare s' = bare u'"
      using 1(1) [OF _ 1(3)] by blast
    then show ?thesis using Some alike(2) [OF 1(4)] 1(3) by (subst advanceLoop.simps) simp
  qed
qed

lemma alike_fireDueLoop:
  assumes "fireDueLoop r b s = Some p" "r = callback react" "bare s = bare u"
  shows "\<exists>u'. fireDueLoop r b u = Some (fst p, u') \<and> bare (snd p) = bare u'"
  using assms
proof (induction r b s p arbitrary: u rule: fireDueLoop.raw_induct [rotated, consumes 1])
  case (1 loop r b s p)
  show ?case
  proof (cases "earliestDueLocked (now s) s")
    case None
    then show ?thesis using 1(2-) alike [OF 1(4)] by (subst fireDueLoop.simps) auto
  next
    case (Some e)
    have "bare (callback react (efn e) (removeLocked e s)) = bare (callback react (efn e) (removeLocked e u))"
      by (intro alike(5) alike(6)) (rule 1(4))
    moreover have "loop r True (callback react (efn e) (removeLocked e s)) = Some p" using 1(2,3) Some by simp
    ultimately have "\<exists>u'. fireDueLoop r True (callback react (efn e) (removeLocked e u)) = Some (fst p, u') \<and>
        bare (snd p) = bare u'"
      using 1(1) [OF _ 1(3)] by blast
    then show ?thesis using Some alike(1,2) [OF 1(4)] 1(3) by (subst fireDueLoop.simps) simp
  qed
qed

lemma alike_settle: "bare s = bare u \<Longrightarrow> bare (settle react s) = bare (settle react u)"
  unfolding settle_def by (rule alike(5))

lemma alike_advanceTo:
  assumes "advanceTo react t s = Some s'" "bare s = bare u"
  shows "\<exists>u'. advanceTo react t u = Some u' \<and> bare s' = bare u'"
proof (cases "t - now s > 0")
  case True
  then obtain s1 where s1: "advanceLoop (callback react) t s = Some s1" "s' = settle react (observe rec_clockAdvance s1)"
    using assms(1) by (auto simp: advanceTo_def Advance_def)
  obtain u1 where "advanceLoop (callback react) t u = Some u1" "bare s1 = bare u1"
    using alike_advanceLoop [OF s1(1) refl assms(2)] by blast
  then show ?thesis using True s1(2) alike(1) [OF assms(2)]
    by (auto simp: advanceTo_def Advance_def intro: alike_settle alike(8))
next
  case False
  then show ?thesis using assms alike(1) [OF assms(2)] alike_settle by (auto simp: advanceTo_def)
qed

lemma alike_drainOnce:
  assumes "drainOnce react s = Some (p, s')" "bare s = bare u"
  shows "\<exists>u'. drainOnce react u = Some (p, u') \<and> bare s' = bare u'"
proof -
  obtain f s1 where f: "fireDueLoop (callback react) False s = Some (f, s1)"
    using assms(1) by (auto simp: drainOnce_def fireDue_def)
  obtain u1 where u1: "fireDueLoop (callback react) False u = Some (f, u1)" "bare s1 = bare u1"
    using alike_fireDueLoop [OF f refl assms(2)] by auto
  let ?x = "\<lambda>s. if f then settle react s else s"
  have x: "bare (?x s1) = bare (?x u1)" using u1(2) alike_settle [OF u1(2)] by simp
  obtain r s2 where t: "takeOneDue (now (?x s1)) (?x s1) = (r, s2)" by fastforce
  obtain u2 where u2: "takeOneDue (now (?x u1)) (?x u1) = (r, u2)" "bare s2 = bare u2"
    using alike(1) [OF x] alike(10,11) [OF x, of "now (?x s1)"] t by (cases "takeOneDue (now (?x u1)) (?x u1)") simp
  show ?thesis
  proof (cases r)
    case None
    then show ?thesis using drainOnce_eq [OF f t] drainOnce_eq [OF u1(1) u2(1)] assms(1) u2(2) by simp
  next
    case (Some d)
    then show ?thesis using drainOnce_eq [OF f t] drainOnce_eq [OF u1(1) u2(1)] assms(1)
        alike_settle [OF alike(9) [OF u2(2)], of react react d] by simp
  qed
qed

lemma alike_drainDue:
  assumes "drainDue r s = Some s'" "r = react" "bare s = bare u"
  shows "\<exists>u'. drainDue r u = Some u' \<and> bare s' = bare u'"
  using assms
proof (induction r s s' arbitrary: u rule: drainDue.raw_induct [rotated, consumes 1])
  case (1 loop r s s')
  obtain p s1 where o: "drainOnce r s = Some (p, s1)" "(if p then loop r s1 else Some s1) = Some s'"
    using 1(2) by (auto simp: bind_eq_Some_conv)
  obtain u1 where u1: "drainOnce r u = Some (p, u1)" "bare s1 = bare u1"
    using alike_drainOnce [OF o(1) 1(4)] by blast
  show ?case
  proof (cases p)
    case True
    then have "\<exists>u'. drainDue r u1 = Some u' \<and> bare s' = bare u'" using 1(1) [OF _ 1(3) u1(2)] o(2) by simp
    then show ?thesis using True u1(1) by (subst drainDue.simps) simp
  next
    case False
    then show ?thesis using o(2) u1 by (subst drainDue.simps) simp
  qed
qed

lemma alike_runLoop:
  assumes "runLoop r pred h s = Some p" "r = react" "bare s = bare u"
  shows "\<exists>u'. runLoop r pred h u = Some (fst p, u') \<and> bare (snd p) = bare u'"
  using assms
proof (induction r pred h s p arbitrary: u rule: runLoop.raw_induct [rotated, consumes 1])
  case (1 loop r pred h s p)
  note IH = 1(1) and L = 1(2) and r = 1(3) and su = 1(4)
  have w: "holds pred u = holds pred s" using alike(4) [OF su] by (cases pred) simp_all
  show ?case
  proof (cases "holds pred s")
    case True
    then show ?thesis using L su w by (subst runLoop.simps) auto
  next
    case False
    then obtain s1 where d: "drainDue react s = Some s1" using L r by (auto simp: bind_eq_Some_conv)
    obtain u1 where u1: "drainDue react u = Some u1" "bare s1 = bare u1"
      using alike_drainDue [OF d refl su] by blast
    have w1: "holds pred u1 = holds pred s1" "sim_nextDeadline u1 = sim_nextDeadline s1"
      using alike(3,4) [OF u1(2)] by (cases pred; simp)+
    consider "holds pred s1"
      | "\<not> holds pred s1" "sim_nextDeadline s1 = None \<or> (\<exists>n. sim_nextDeadline s1 = Some n \<and> h < n)"
      | n where "\<not> holds pred s1" "sim_nextDeadline s1 = Some n" "n \<le> h"
      by (metis not_less option.exhaust)
    then show ?thesis
    proof cases
      case 1
      then show ?thesis using L r False d u1 w w1 by (subst runLoop.simps) auto
    next
      case 2
      then obtain s2 where s2: "advanceTo react h s1 = Some s2" "p = (pred = None \<or> holds pred s2, s2)"
        using L r False d by auto
      obtain u2 where u2: "advanceTo react h u1 = Some u2" "bare s2 = bare u2"
        using alike_advanceTo [OF s2(1) u1(2)] by blast
      have "holds pred u2 = holds pred s2" using alike(4) [OF u2(2)] by (cases pred) simp_all
      then show ?thesis using 2 False r u1(1) u2 s2(2) w w1 by (subst runLoop.simps) auto
    next
      case 3
      then obtain s2 where s2: "advanceTo react n s1 = Some s2" "loop react pred h s2 = Some p"
        using L r False d by (auto simp: bind_eq_Some_conv)
      obtain u2 where u2: "advanceTo react n u1 = Some u2" "bare s2 = bare u2"
        using alike_advanceTo [OF s2(1) u1(2)] by blast
      have "\<exists>u'. runLoop react pred h u2 = Some (fst p, u') \<and> bare (snd p) = bare u'"
        using IH [OF _ refl u2(2)] s2(2) r by simp
      then show ?thesis using 3 False r u1(1) u2(1) w w1 by (subst runLoop.simps) simp
    qed
  qed
qed

lemma alike_stepInfo:
  assumes "stepInfo react s = Some (i, s')" "bare s = bare u"
  shows "\<exists>u'. stepInfo react u = Some (i, u') \<and> bare s' = bare u'"
proof -
  obtain f s1 where f: "fireDueLoop (callback react) False (settle react s) = Some (f, s1)"
    using assms(1) by (auto simp: stepInfo_def fireDue_def bind_eq_Some_conv)
  obtain u1 where u1: "fireDueLoop (callback react) False (settle react u) = Some (f, u1)" "bare s1 = bare u1"
    using alike_fireDueLoop [OF f refl alike_settle [OF assms(2)]] by auto
  obtain r s2 where t: "takeOneDue (now s1) s1 = (r, s2)" by fastforce
  obtain u2 where u2: "takeOneDue (now u1) u1 = (r, u2)" "bare s2 = bare u2"
    using alike(1) [OF u1(2)] alike(10,11) [OF u1(2), of "now s1"] t by (cases "takeOneDue (now u1) u1") simp
  have eq: "stepInfo react x = (if f then Some (Some clockInfo, settle react x1)
      else case r of Some d \<Rightarrow> Some (Some (delivery_info d), settle react (deliverTo react d x2))
      | None \<Rightarrow> (case sim_nextDeadline x2 of None \<Rightarrow> Some (None, x2)
          | Some n \<Rightarrow> map_option (Pair (Some clockInfo)) (advanceTo react n x2)))"
    if "fireDueLoop (callback react) False (settle react x) = Some (f, x1)" "takeOneDue (now x1) x1 = (r, x2)" for x x1 x2
    using that by (auto simp: stepInfo_def fireDue_def split: option.splits)
  consider f | d where "\<not> f" "r = Some d" | "\<not> f" "r = None" "sim_nextDeadline s2 = None"
    | n where "\<not> f" "r = None" "sim_nextDeadline s2 = Some n"
    by (cases r; cases "sim_nextDeadline s2") auto
  then show ?thesis
  proof cases
    case 1
    then show ?thesis using eq [OF f t] eq [OF u1(1) u2(1)] assms(1) alike_settle [OF u1(2)] by simp
  next
    case 2
    then show ?thesis using eq [OF f t] eq [OF u1(1) u2(1)] assms(1)
        alike_settle [OF alike(9) [OF u2(2)], of react react d] by simp
  next
    case 3
    then show ?thesis using eq [OF f t] eq [OF u1(1) u2(1)] assms(1) alike(3) [OF u2(2)] u2(2) by simp
  next
    case 4
    then obtain s3 where s3: "advanceTo react n s2 = Some s3" "i = Some clockInfo" "s' = s3"
      using eq [OF f t] assms(1) by (cases "advanceTo react n s2") auto
    then show ?thesis using eq [OF u1(1) u2(1)] 4 alike(3) [OF u2(2)] alike_advanceTo [OF s3(1) u2(2)] by auto
  qed
qed

lemma alike_stepUntil:
  assumes "StepUntil react pred n s = Some (b, s')" "bare s = bare u"
  shows "\<exists>u'. StepUntil react pred n u = Some (b, u') \<and> bare s' = bare u'"
  using assms
proof (induction n arbitrary: s u)
  case (Suc n)
  then obtain i s1 where i: "stepInfo react s = Some (i, s1)" by (cases "stepInfo react s") auto
  obtain u1 where u1: "stepInfo react u = Some (i, u1)" "bare s1 = bare u1"
    using alike_stepInfo [OF i Suc.prems(2)] by blast
  show ?case
  proof (cases i)
    case None
    then show ?thesis using Suc.prems(1) i u1 by simp
  next
    case (Some d)
    then show ?thesis using Suc.prems(1) Suc.IH [of s1 u1] i u1 by (cases "pred d") simp_all
  qed
qed simp

lemma bare_faults:
  "bare (mesh_Cut a b (bare s)) = bare (mesh_Cut a b s)" "bare (mesh_Heal a b (bare s)) = bare (mesh_Heal a b s)"
  "bare (mesh_SetLoss a b p (bare s)) = bare (mesh_SetLoss a b p s)"
  "bare (mesh_SetDelay a b d j (bare s)) = bare (mesh_SetDelay a b d j s)"
  "bare (mesh_Isolate order h (bare s)) = bare (mesh_Isolate order h s)"
  "bare (sim_Node h ps (bare s)) = bare (sim_Node h ps s)"
proof -
  have link: "cutLinkLocked a b (bare s) = (fst (cutLinkLocked a b s), bare (snd (cutLinkLocked a b s)))"
    for a b and s :: "('a, 'b) mesh"
    by (simp add: cutLinkLocked_def Let_def bare_basic bare_fields(5) del: onNode_simps)
  have each: "cutEach h xs (bare s) = (fst (cutEach h xs s), bare (snd (cutEach h xs s)))"
    for xs and s :: "('a, 'b) mesh"
  proof (induction xs arbitrary: s)
    case (Cons x xs)
    then show ?case by (simp add: Let_def split_beta link)
  qed simp
  have surf: "bare (fold (\<lambda>x s. surface x e (surface h (f x) s)) xs s) = fold (\<lambda>x s. surface x e (surface h (f x) s)) xs (bare s)"
    for e f xs and s :: "('a, 'b) mesh"
    by (induction xs arbitrary: s) (simp_all add: bare_basic)
  show "bare (mesh_Cut a b (bare s)) = bare (mesh_Cut a b s)"
    by (simp add: mesh_Cut_def Let_def split_beta link bare_observe flip: bare_basic(4))
  show "bare (mesh_Isolate order h (bare s)) = bare (mesh_Isolate order h s)"
    by (simp add: mesh_Isolate_def Let_def split_beta bare_fields(6) each surf bare_observe)
  show "bare (mesh_Heal a b (bare s)) = bare (mesh_Heal a b s)"
    by (rule mesh.equality) (simp_all add: mesh_Heal_def observe_def)
  show "bare (mesh_SetLoss a b p (bare s)) = bare (mesh_SetLoss a b p s)"
    by (rule mesh.equality) (simp_all add: mesh_SetLoss_def observe_def Let_def)
  show "bare (mesh_SetDelay a b d j (bare s)) = bare (mesh_SetDelay a b d j s)"
    by (rule mesh.equality) (simp_all add: mesh_SetDelay_def observe_def Let_def)
  show "bare (sim_Node h ps (bare s)) = bare (sim_Node h ps s)"
    by (rule mesh.equality)
      (simp_all add: sim_Node_def mesh_Node_def observe_def UseSyncInbound_def onNode_def split: option.splits)
qed

lemma alike_run:
  assumes "sched_run react d pred s = Some (b, s')" "bare s = bare u"
  shows "\<exists>u'. sched_run react d pred u = Some (b, u') \<and> bare s' = bare u'"
proof -
  have "runLoop react pred (now s + d) (settle react s) = Some (b, s')"
    using assms(1) by (simp add: sched_run_def Let_def)
  from alike_runLoop [OF this refl alike_settle [OF assms(2)]] show ?thesis
    using alike(1) [OF assms(2)] by (simp add: sched_run_def Let_def)
qed

lemma alike_setup:
  assumes "setupCall c" "sim_do react c s = Some s'" "bare s = bare u"
  shows "\<exists>u'. sim_do react c u = Some u' \<and> bare s' = bare u'"
proof -
  have eqs: "bare (mesh_Cut a b s) = bare (mesh_Cut a b u)" "bare (mesh_Heal a b s) = bare (mesh_Heal a b u)"
    "bare (mesh_SetLoss a b p s) = bare (mesh_SetLoss a b p u)"
    "bare (mesh_SetDelay a b d j s) = bare (mesh_SetDelay a b d j u)"
    "bare (mesh_Isolate order h s) = bare (mesh_Isolate order h u)"
    "bare (sim_Node h ps s) = bare (sim_Node h ps u)" "bare (mesh_Cancel h s) = bare (mesh_Cancel h u)"
    for a b p d j order h ps
    using bare_faults [where s = s] bare_faults [where s = u] bare_basic(5) [of _ s] bare_basic(5) [of _ u]
    unfolding assms(3) by simp_all
  show ?thesis
    using assms(1,2) alike(5) [OF assms(3)] alike(5) [OF eqs(6)] eqs by (cases c) auto
qed

lemma alike_do:
  assumes "sim_do react c s = Some s'" "bare s = bare u"
  shows "\<exists>u'. sim_do react c u = Some u' \<and> bare s' = bare u'"
proof (cases "setupCall c")
  case True
  then show ?thesis using alike_setup assms by blast
next
  case False
  have run: "\<exists>u'. map_option snd (sched_run react d pred u) = Some u' \<and> bare s' = bare u'"
    if "map_option snd (sched_run react d pred s) = Some s'" for d pred
    using that alike_run [OF _ assms(2)] by fastforce
  have "\<exists>u'. map_option snd (sim_Step react u) = Some u' \<and> bare s' = bare u'"
    if "map_option snd (sim_Step react s) = Some s'"
    using that alike_stepInfo [OF _ assms(2)] by (fastforce simp: sim_Step_def)
  moreover have "\<exists>u'. map_option snd (StepUntil react p n u) = Some u' \<and> bare s' = bare u'"
    if "map_option snd (StepUntil react p n s) = Some s'" for p n
    using that alike_stepUntil [OF _ assms(2)] by fastforce
  ultimately show ?thesis using False assms(1) run
    by (cases c) (simp_all add: sim_Run_def sim_RunUntil_def)
qed

text \<open>A traced run does what an untraced one does: whatever the test and the nodes do, it returns
  exactly when the other does, with the same nodes, deliveries and times; only the recorder differs.\<close>

theorem sim_trace_transparent:
  "map_option bare (sim_calls react cs (newMesh g r w)) = map_option bare (sim_calls react cs (newMesh g r' w))"
proof -
  have fwd: "\<exists>u'. sim_calls react cs u = Some u' \<and> bare s' = bare u'"
    if "sim_calls react cs s = Some s'" "bare s = bare u" for cs s u s'
    using that
  proof (induction cs arbitrary: s u)
    case (Cons c cs)
    then obtain s1 where s1: "sim_do react c s = Some s1" "sim_calls react cs s1 = Some s'"
      by (auto simp: bind_eq_Some_conv)
    obtain u1 where "sim_do react c u = Some u1" "bare s1 = bare u1" using alike_do [OF s1(1) Cons.prems(2)] by blast
    then show ?case using Cons.IH [OF s1(2)] by simp
  qed simp
  have b: "bare (newMesh g r w) = bare (newMesh g r' w)" by (simp add: bare_def newMesh_def)
  show ?thesis
  proof (cases "sim_calls react cs (newMesh g r w)")
    case None
    then show ?thesis using fwd [OF _ b [symmetric]] by (cases "sim_calls react cs (newMesh g r' w)") fastforce+
  next
    case (Some s')
    then show ?thesis using fwd [OF _ b] by fastforce
  qed
qed

end
