(* ===== verification/Sim_Runs.thy ===== *)
theory Sim_Runs
  imports Sim_Trace
begin

text \<open>
  Two nodes and a heartbeat: a run that meets the hypotheses of the theorems on the simulator.  Then
  the runs that show where the simulator differs from what its documentation promises.
\<close>

subsection \<open>A heartbeat\<close>

definition ha :: Host where "ha = Host 1 ''a''"
definition hb :: Host where "hb = Host 1 ''b''"
definition hc :: Host where "hc = Host 1 ''c''"

lemma hosts_differ [simp]: "ha \<noteq> hb" "hb \<noteq> ha" "ha \<noteq> hc" "hc \<noteq> ha" "hb \<noteq> hc" "hc \<noteq> hb"
  by (simp_all add: ha_def hb_def hc_def)

text \<open>The first node dials the second when it is called, and sends to it every ten nanoseconds; its
  state is the time of the last beat.\<close>

fun heart :: "(unit, int) react" where
  "heart (SCall _) t i w = (w, [AConnect ha hb, AArm 10 ()])"
| "heart (SFire _) t i w = (if w < t then (t, [AArm 10 (), ASend ha hb [7]]) else (w, [AArm 10 ()]))"
| "heart _ t i w = (w, [])"

definition heartWork :: "int \<Rightarrow> int \<Rightarrow> nat" where
  "heartWork t w = (if w < t then 1 else 0)"

lemma heart_prompt: "prompt heart"
proof -
  have "list_all prompt_act (snd (heart x t i w))" for x t i w by (cases x) auto
  then show ?thesis by (simp add: prompt_def)
qed

lemma heart_bounded: "bounded_work heartWork heart"
proof -
  have "\<not> external x \<longrightarrow> heartWork t (fst (heart x t i w)) + sum_list (map burst (snd (heart x t i w))) \<le> heartWork t w"
    for x t i w by (cases x) (auto simp: heartWork_def)
  then show ?thesis by (simp add: bounded_work_def)
qed

definition started :: "(unit, int) mesh" where
  "started = the (sim_calls heart [CNode ha [], CNode hb [], CCall ()] (newMesh (sconst 0) None 0))"

lemma started_calls:
  "sim_calls heart [CNode ha [], CNode hb [], CCall ()] (newMesh (sconst 0) None 0) = Some started"
  by (simp add: started_def)

lemma reach_calls: "sim_calls react cs s = Some s' \<Longrightarrow> sim_reach react s \<Longrightarrow> sim_reach react s'"
  by (induction cs arbitrary: s) (auto simp: bind_eq_Some_conv intro: sim_reach.call)

lemma started_reach: "sim_reach heart started"
  by (rule reach_calls [OF started_calls sim_reach.new])

lemma started_simps:
  "now started = 0" "cut started = {}" "handed started = []" "peersOf ha started = {hb}" "peersOf hb started = {ha}"
  "world started = 0" "length (mpending started) = 2"
  by (simp_all add: started_def newMesh_def sim_Node_def mesh_Node_def UseSyncInbound_def onNode_def observe_def
      stimulate_def simConnect_def canDial_def isCutLocked_def peersOf_def sched_enqueue_def AfterFunc_def
      nextSeq_def Let_def)

theorem sim_sessions_two_sided_witness:
  "hb \<in> peersOf ha started \<and> ha \<in> peersOf hb started \<and> (ha, hb) \<notin> cut started"
  using sim_sessions_two_sided [OF started_reach, of hb ha] by (simp add: started_simps)

theorem sim_partition_holds_witness:
  "\<exists>s s'. sim_calls heart [CCut ha hb] started = Some s \<and> sim_calls heart [CRun 30] s = Some s' \<and>
     now s' = 30 \<and> crossed ha hb (handed s') = [] \<and> hb \<notin> peersOf ha s'"
proof -
  let ?s = "mesh_Cut ha hb started"
  have s: "sim_calls heart [CCut ha hb] started = Some ?s" by simp
  have r: "sim_reach heart ?s" by (rule reach_calls [OF s started_reach])
  have f: "now ?s = 0" "(ha, hb) \<in> cut ?s" "handed ?s = []"
    by (simp_all add: mesh_Cut_def cutLinkLocked_def Let_def surface_def started_simps split_beta)
  obtain b s' where b: "sched_run heart 30 None ?s = Some (b, s')" "run_result None (now ?s + 30) b s'"
    using sched_run_ends [OF heart_bounded heart_prompt r, where d = 30 and pred = None] by auto
  then have s': "sim_calls heart [CRun 30] ?s = Some s'" "now s' = 30"
    by (simp_all add: sim_Run_def run_result_def f(1))
  have "crossed ha hb (handed s') = crossed ha hb (handed ?s) \<and> (ha, hb) \<in> cut s' \<and> hb \<notin> peersOf ha s'"
    by (rule sim_partition_holds [OF r f(2) s'(1)]) simp
  then show ?thesis using s s' f(3) by (auto simp: crossed_def)
qed

theorem sim_on_time_witness:
  "\<exists>s'. sim_Run heart 30 started = Some s' \<and> sorted (map fst (handed s')) \<and>
     filter (\<lambda>(t, d). t \<noteq> dueAt d \<or> now s' < t) (handed s') = []"
proof -
  obtain b s' where b: "sched_run heart 30 None started = Some (b, s')"
    using sched_run_ends [OF heart_bounded heart_prompt started_reach, where d = 30 and pred = None] by auto
  then have s': "sim_Run heart 30 started = Some s'" by (simp add: sim_Run_def)
  have "sim_reach heart s'" by (rule sim_reach.call [OF started_reach, of "CRun 30"]) (simp add: s')
  then show ?thesis using sim_on_time [OF heart_prompt] s' by blast
qed

theorem sim_run_lands_witness: "\<exists>s'. sim_Run heart 30 started = Some s' \<and> now s' = 30"
  using sim_run_lands [OF heart_bounded heart_prompt started_reach, of 30] by (simp add: started_simps)

theorem sim_rununtil_ends_witness:
  "\<exists>b s'. sim_RunUntil heart (\<lambda>w. 15 < w) 30 started = Some (b, s') \<and> b = (15 < world s') \<and> now s' \<le> 30"
  using sim_rununtil_ends [OF heart_bounded heart_prompt started_reach, of 30 "\<lambda>w. 15 < w"]
  by (auto simp: started_simps)

subsection \<open>What the seed does not fix\<close>

text \<open>The order in which Go ranges over the map of nodes decides the order of the pending events, from
  which the generator then picks.\<close>

definition star :: "(unit, int) mesh" where
  "star = (newMesh (sconst 0) None 0)\<lparr>mnodes :=
     [ha \<mapsto> \<lparr>cancelled = False, peers = {hb, hc}, hasSink = True\<rparr>,
      hb \<mapsto> \<lparr>cancelled = False, peers = {ha}, hasSink = True\<rparr>,
      hc \<mapsto> \<lparr>cancelled = False, peers = {ha}, hasSink = True\<rparr>]\<rparr>"

lemma isolate_order_matters:
  "dload (mpending (mesh_Isolate [ha, hb, hc] ha star) ! 0) = Ev (SessionDisconnected hb)"
  "dload (mpending (mesh_Isolate [hc, hb, ha] ha star) ! 0) = Ev (SessionDisconnected hc)"
  by (simp_all add: star_def newMesh_def mesh_Isolate_def cutLinkLocked_def purgeLinkLocked_def onNode_def
      peersOf_def surface_def sched_enqueue_def observe_def Let_def)

text \<open>Two nodes whose timers are due at one instant run before the scheduler settles; the one that sends
  first takes the first draw, so the delays of the two messages depend on the race.\<close>

definition jittery :: "(unit, int) mesh" where
  "jittery = star\<lparr>rng := 3 ## sconst 0, delay := (\<lambda>_. Some \<lparr>base = 10, jitter = 4\<rparr>)\<rparr>"

lemma fire_order_matters:
  "map dueAt (mpending (fold doAct [ASend hb ha [1], ASend hc ha [2]] jittery)) = [9, 6]"
  "map dueAt (mpending (fold doAct [ASend hc ha [2], ASend hb ha [1]] jittery)) = [9, 6]"
  "map dfrom (mpending (fold doAct [ASend hb ha [1], ASend hc ha [2]] jittery)) = [hb, hc]"
  "map dfrom (mpending (fold doAct [ASend hc ha [2], ASend hb ha [1]] jittery)) = [hc, hb]"
  by (simp_all add: jittery_def star_def newMesh_def sched_send_def dropDecisionLocked_def isCutLocked_def
      peersOf_def sample_def Int64N_def Let_def)

subsection \<open>Session events\<close>

text \<open>A session that comes up and goes down at one instant: the node may be told of the end before the
  beginning, and is left believing in a session that no longer exists.\<close>

lemma events_out_of_order:
  defines "s \<equiv> mesh_Disconnect ha hb (simConnect ha hb (star\<lparr>mnodes :=
     [ha \<mapsto> \<lparr>cancelled = False, peers = {}, hasSink = True\<rparr>, hb \<mapsto> \<lparr>cancelled = False, peers = {}, hasSink = True\<rparr>],
     rng := 2 ## sconst 0\<rparr>))"
  shows "peersOf ha s = {}" "dload (the (fst (takeOneDue (now s) s))) = Ev (SessionDisconnected hb)"
    "map (\<lambda>d. (dnode d, dload d)) (mpending (snd (takeOneDue (now s) s))) =
       [(ha, Ev (SessionConnected hb)), (hb, Ev (SessionConnected ha)), (hb, Ev (SessionDisconnected ha))]"
  by (simp_all add: s_def star_def newMesh_def simConnect_def mesh_Disconnect_def canDial_def isCutLocked_def
      onNode_def peersOf_def surface_def sched_enqueue_def purgeLinkLocked_def between_def takeOneDue_def dueIdx_def
      IntN_def Let_def upt_rec)

text \<open>Under a simulation \<open>Cancel\<close> takes sessions down without an event for the other end.\<close>

lemma cancel_is_silent: "mpending (mesh_Cancel n s) = mpending s" "peersOf n (mesh_Cancel n s) = {}"
  by (simp add: mesh_Cancel_def Let_def) (simp add: peersOf_Cancel)

text \<open>The description of a session event names the zero host as its sender.\<close>

lemma session_info_from: "delivery_info (Delivery t q n zeroHost (Ev ev)) = DeliveryInfo ''session'' zeroHost n 0"
  by (simp add: delivery_info_def)

end
