(* ===== verification/Spec2Isabelle.thy ===== *)
theory Spec2Isabelle
  imports Paxos_Safety Raft_Replication Overlay Lifecycle_Safety WireCodec_Safety Session_Runtime Quic Codecs_Safety Ipc Gossip_Safety Sim_Runs
begin

text \<open>
  A verification development of \<^emph>\<open>protorun\<close>, a Go framework for distributed protocols: a runtime
  that hosts protocols in event loops, sends their messages over sessions and supervises them, and
  the protocols that come with it (Paxos, Raft, HyParView, Plumtree).

  \<^bold>\<open>How the program is put together.\<close>  A protocol (\<open>pkg/protocols/*\<close>) is a set of handlers that run one
  at a time on the protocol's event loop (\<open>pkg/protorun/protocol.go\<close>), fed from one ordered mailbox
  (\<open>mailbox.go\<close>).  Messages from peers are routed by wire identifier through the codec registry
  (\<open>codec_registry.go\<close>, \<open>runtime.go\<close>), requests and notifications between protocols of one runtime
  through the IPC router (\<open>ipc_router.go\<close>, \<open>ipc.go\<close>), session events through the retry table
  (\<open>retry.go\<close>); a panicking protocol is handled by its supervisor (\<open>supervisor.go\<close>).  Message bodies
  are written with \<open>pkg/wire\<close> or with the reflective codec (\<open>wirecodec.go\<close>).  Below the runtime the
  session layer (\<open>pkg/transport/session.go\<close>) binds connections to logical hosts by a handshake, on top
  of a transport that carries frames (\<open>tcp.go\<close>).

  \<^bold>\<open>How it is modelled.\<close>  Handlers are functions from state to state over records that carry the
  struct's fields; the calls they make on their context are collected, in order, as a list of effects
  in the state.  Machine integers that can overflow are words or are wrapped explicitly; Go's \<open>int\<close>
  lengths and counters that cannot are \<open>int\<close> or \<open>nat\<close>.  Errors are values.  A random generator is a stream
  of draws.  Go's nondeterminism (the order of map iteration, a select with two ready cases, the
  interleaving of goroutines, message loss, duplication and reordering) is an argument or a step
  relation, so a theorem holds for all of it.

  \<^bold>\<open>Theories.\<close>
  \<^item> \<open>Prelude\<close>: shared types, error bind, \<open>int64\<close> wrap-around, list lemmas.
  \<^item> \<open>Wire\<close>: \<open>pkg/wire/wire.go\<close>; every reader and writer, the locale \<open>wire_codec\<close> of a round trip and its
    interpretations.  \<open>Transport_Host\<close>: \<open>pkg/transport/host.go\<close>, \<open>address.go\<close>.
  \<^item> \<open>Proto_Context\<close>: the effects of a handler and the life of timers (\<open>timer.go\<close>).
  \<^item> \<open>Paxos_State\<close>, \<open>Paxos_Messages\<close>, \<open>Paxos\<close>: \<open>pkg/protocols/paxos\<close>, acceptor state and storage, messages,
    all handlers.  \<open>Paxos_Spec\<close> is the abstract voting machine, \<open>Paxos_Cluster\<close> the synod as a step relation
    over members, storage and a lossy, duplicating, reordering network, with restarts; \<open>Paxos_Safety\<close>
    the refinement, agreement, validity and durability.
  \<^item> \<open>Raft_Log\<close>, \<open>Raft_Messages\<close>, \<open>Raft\<close>: \<open>pkg/protocols/raft\<close>.  \<open>Raft_Rules\<close> has the local rules (no index out of
    range, the commit scan is exact, storage mirrors state), \<open>Raft_Cluster\<close> the cluster as a step relation,
    \<open>Raft_Safety\<close> election safety and what follows from it.  \<open>Raft_Spec\<close> is the abstract machine of
    replication with leader completeness, \<open>Raft_Refinement\<close> the simulation of the cluster by it, and
    \<open>Raft_Replication\<close> log matching, leader completeness and state machine safety of the cluster.
  \<^item> \<open>Host_Set\<close>: the host sets of \<open>hyparview/views.go\<close>, listing and random picks.
  \<^item> \<open>Plumtree_Messages\<close>, \<open>Plumtree\<close>, \<open>Plumtree_Inv\<close>, \<open>Plumtree_Safety\<close>: \<open>pkg/protocols/plumtree\<close>; the payload
    cache, links, delivery exactly once, and that a missing message is chased.
  \<^item> \<open>Membership\<close>, \<open>HyParView_Messages\<close>, \<open>HyParView\<close>, \<open>HyParView_Inv\<close>, \<open>HyParView_Safety\<close>:
    \<open>pkg/protocols/membership\<close> and \<open>hyparview\<close>; the views, what listeners hear of them, shuffles and
    recovery from isolation.  \<open>Overlay\<close> composes HyParView with Plumtree through the locale \<open>membership\<close>.
  \<^item> \<open>Gossip\<close>, \<open>Gossip_Safety\<close>: the example \<open>cmd/gossip\<close>; its static membership as a second interpretation of
    the locale \<open>membership\<close>, and that a broadcast floods the overlay.
  \<^item> \<open>Mailbox\<close>: \<open>mailbox.go\<close>, a locale for the contract and an interpretation for both queues.
  \<^item> \<open>Ipc_Router\<close>: \<open>codec_registry.go\<close> and \<open>ipc_router.go\<close>, a locale for tables with owners.
  \<^item> \<open>Event_Loop\<close>: the envelope of a protocol; requests complete at most once, cancelled timers never
    run, panics are seen, and the in-flight counter behind \<open>Quiescent\<close>.
  \<^item> \<open>Ipc\<close>: \<open>ipc.go\<close>; the responder, of whose answers the first counts, and the agreement with the envelope's model.
  \<^item> \<open>Retry\<close>: \<open>retry.go\<close> and the session events of \<open>runtime.go\<close>; a refinement to one counter per peer.
  \<^item> \<open>Runtime\<close>: routing of messages, requests, replies, notifications and session events.
  \<^item> \<open>Supervision\<close>: \<open>supervision.go\<close>, \<open>supervisor.go\<close>; backoff, the restart budget, the restart contract.
  \<^item> \<open>Lifecycle\<close>, \<open>Lifecycle_Safety\<close>: start and cancellation of \<open>runtime.go\<close>, \<open>shutdown.go\<close>, \<open>strict.go\<close>; a
    locale \<open>boot_invariant\<close> over everything a boot does, who may register what and when in strict mode, and
    that a panic during boot stays with its protocol.
  \<^item> \<open>WireCodec\<close>, \<open>WireCodec_Laws\<close>, \<open>WireCodec_Safety\<close>: \<open>wirecodec.go\<close>; the plan compiler as closures over
    a deep model of \<open>reflect\<close>, the locales \<open>value_decoder\<close>, \<open>value_codec\<close>, \<open>map_codecs\<close> and
    \<open>bounded_decoder\<close> that every compiled codec is shown to meet, the round trip to a normal form,
    truncation, determinism of map encoding, and the bound on what a payload can build.
  \<^item> \<open>Codecs\<close>, \<open>Codecs_Safety\<close>: \<open>codec.go\<close> and the registration helpers of \<open>protocol.go\<close>; wire identifiers and
    names, the other codecs, and a message from \<open>Handle\<close> to the wire and back.
  \<^item> \<open>Session\<close>, \<open>Session_Safety\<close>, \<open>Session_Runtime\<close>: \<open>session.go\<close>; the handshake of two nodes, what a
    reported session means in every reachable state, the bounded wait for an answer with the races of
    its timer, and the effect on the runtime of sessions closed from above.
  \<^item> \<open>Tcp\<close>: \<open>tcp.go\<close>; frames, their reassembly from any cut of the stream, and the connection table.
  \<^item> \<open>Quic\<close>: \<open>quic/quic.go\<close>; a simulation by the TCP backend, and the read in which the two differ.
  \<^item> \<open>Fake_Clock\<close>, \<open>Mesh\<close>, \<open>Sim\<close>: \<open>pkg/prototest\<close>, the simulator in which whole runtimes are tested under
    virtual time: the clock, the network with its faults and its trace, the scheduler.  \<open>Sim_Safety\<close> has the
    invariants of the scheduler as the locales \<open>sim_invariant\<close> and \<open>plain_invariant\<close>; \<open>Mesh_Safety\<close> shows that
    sessions are two-sided and partitions hold, \<open>Sim_Timing\<close> that deliveries are on time, \<open>Sim_Progress\<close> that
    \<open>Run\<close> ends, \<open>Sim_Trace\<close> that tracing changes nothing; \<open>Sim_Runs\<close> has concrete runs and what the seed
    does not fix.

  \<^bold>\<open>Bounds.\<close>  No definition uses fuel: loops are structural recursions, folds over the data the code
  ranges over, or recursions on what is left of a buffer.  The loops of the simulator, which end only
  when the nodes let them, are option-valued, \<open>None\<close> being the loop that does not end; \<open>sim_run_lands\<close>
  says when they do.  Theorems that need a counter not to wrap say so: fewer than \<open>2 ^ 64\<close> requests of a protocol,
  ballots below \<open>2 ^ 64\<close>, terms and lengths within their width.

  \<^bold>\<open>Not modelled.\<close>  Sockets, TLS and the QUIC library below the transports, logging,
  metrics and tracing, the configuration loader, \<open>JSONCodec\<close>, the Protobuf codec,
  the command-line programs around the examples, the asynchronous mode of the test mesh, the watchdog and
  the warnings of strict mode, and the waiting for goroutines to end.  Recursive message types of the reflective codec
  (\<open>forwardCodec\<close>).  The jittered delay of \<open>RetryPolicy.nextDelay\<close> is floating point and is an argument of
  the model.
\<close>

end
